(* ===== verification/Prelude.thy ===== *)
theory Prelude
  imports Main "HOL-Library.Word"
begin

text \<open>
  Shared vocabulary of the development: the machine types of \<open>lab8/libs/defs.h\<close>, the
  error numbers of \<open>lab8/libs/error.h\<close>, the single-bit operations of
  \<open>lab8/libs/atomic.h\<close>, and generic lemmas on lists, maps and words.

  Conventions used by every theory: a failed kernel \<open>assert\<close>, a \<open>panic\<close>, an access
  outside the modelled object and a loop that does not end are the value \<open>None\<close> of an
  \<open>option\<close>; an error return \<open>-E_XXX\<close> is \<open>Inl E_XXX\<close> of a sum with the
  error datatype below on the left, where the code separates the two, and the negated
  number where it does not.
\<close>

unbundle bit_operations_syntax

section \<open>Machine types\<close>

type_synonym u8 = "8 word"
type_synonym u16 = "16 word"
type_synonym u32 = "32 word"
type_synonym u64 = "64 word"

text \<open>The first kernel address (\<open>memlayout.h\<close>).\<close>

definition KERNBASE :: u64 where "KERNBASE = 0xFFFFFFFFC0200000"

section \<open>Error numbers\<close>

datatype errno =
    E_UNSPECIFIED | E_BAD_PROC | E_INVAL | E_NO_MEM | E_NO_FREE_PROC | E_FAULT
  | E_SWAP_FAULT | E_INVAL_ELF | E_KILLED | E_PANIC | E_TIMEOUT | E_TOO_BIG
  | E_NO_DEV | E_NA_DEV | E_BUSY | E_NOENT | E_ISDIR | E_NOTDIR
  | E_XDEV | E_UNIMP | E_SEEK | E_MAX_OPEN | E_EXISTS | E_NOTEMPTY

fun errno_val :: "errno \<Rightarrow> int" where
  "errno_val E_UNSPECIFIED = 1"
| "errno_val E_BAD_PROC = 2"
| "errno_val E_INVAL = 3"
| "errno_val E_NO_MEM = 4"
| "errno_val E_NO_FREE_PROC = 5"
| "errno_val E_FAULT = 6"
| "errno_val E_SWAP_FAULT = 7"
| "errno_val E_INVAL_ELF = 8"
| "errno_val E_KILLED = 9"
| "errno_val E_PANIC = 10"
| "errno_val E_TIMEOUT = 11"
| "errno_val E_TOO_BIG = 12"
| "errno_val E_NO_DEV = 13"
| "errno_val E_NA_DEV = 14"
| "errno_val E_BUSY = 15"
| "errno_val E_NOENT = 16"
| "errno_val E_ISDIR = 17"
| "errno_val E_NOTDIR = 18"
| "errno_val E_XDEV = 19"
| "errno_val E_UNIMP = 20"
| "errno_val E_SEEK = 21"
| "errno_val E_MAX_OPEN = 22"
| "errno_val E_EXISTS = 23"
| "errno_val E_NOTEMPTY = 24"

lemma errno_val_pos [simp]: "0 < errno_val e"
  by (cases e) simp_all

lemma errno_val_le [simp]: "errno_val e \<le> 24"
  by (cases e) simp_all

lemma errno_val_inject [simp]: "errno_val a = errno_val b \<longleftrightarrow> a = b"
  by (cases a; cases b) simp_all

section \<open>Single-bit operations on a flags word\<close>

text \<open>
  \<open>set_bit\<close>, \<open>clear_bit\<close>, \<open>change_bit\<close>, \<open>test_bit\<close>, \<open>test_and_set_bit\<close> and
  \<open>test_and_clear_bit\<close> of \<open>atomic.h\<close>, on the one word that holds the bit: every caller
  in the kernel uses a bit number below 64, for which \<open>BIT_WORD(nr)\<close> is 0. The names carry
  an \<open>a\<close> in front because HOL has constants of the same names.
\<close>

definition BIT_MASK :: "nat \<Rightarrow> u64" where
  "BIT_MASK nr = push_bit (nr mod 64) 1"

definition aset_bit :: "nat \<Rightarrow> u64 \<Rightarrow> u64" where
  "aset_bit nr w = w OR BIT_MASK nr"

definition aclear_bit :: "nat \<Rightarrow> u64 \<Rightarrow> u64" where
  "aclear_bit nr w = w AND NOT (BIT_MASK nr)"

definition achange_bit :: "nat \<Rightarrow> u64 \<Rightarrow> u64" where
  "achange_bit nr w = w XOR BIT_MASK nr"

definition atest_bit :: "nat \<Rightarrow> u64 \<Rightarrow> bool" where
  "atest_bit nr w \<longleftrightarrow> drop_bit nr w AND 1 \<noteq> 0"

definition atest_and_set_bit :: "nat \<Rightarrow> u64 \<Rightarrow> bool \<times> u64" where
  "atest_and_set_bit nr w = (w AND BIT_MASK nr \<noteq> 0, w OR BIT_MASK nr)"

definition atest_and_clear_bit :: "nat \<Rightarrow> u64 \<Rightarrow> bool \<times> u64" where
  "atest_and_clear_bit nr w = (w AND BIT_MASK nr \<noteq> 0, w AND NOT (BIT_MASK nr))"

lemma bit_BIT_MASK [simp]: "nr < 64 \<Longrightarrow> bit (BIT_MASK nr) k \<longleftrightarrow> k = nr"
  by (auto simp: BIT_MASK_def bit_simps)

lemma atest_bit_iff: "atest_bit nr w \<longleftrightarrow> bit w nr"
  by (simp add: atest_bit_def and_one_eq odd_iff_mod_2_eq_one [symmetric] bit_iff_odd_drop_bit)

lemma atest_aset [simp]:
  "i < 64 \<Longrightarrow> atest_bit i (aset_bit j w) \<longleftrightarrow> i = j mod 64 \<or> atest_bit i w"
  by (auto simp: atest_bit_iff aset_bit_def BIT_MASK_def bit_simps)

lemma atest_aclear [simp]:
  "i < 64 \<Longrightarrow> atest_bit i (aclear_bit j w) \<longleftrightarrow> i \<noteq> j mod 64 \<and> atest_bit i w"
  by (auto simp: atest_bit_iff aclear_bit_def BIT_MASK_def bit_simps)

lemma atest_zero [simp]: "\<not> atest_bit i 0"
  by (simp add: atest_bit_def)

lemma and_BIT_MASK_nonzero: "nr < 64 \<Longrightarrow> w AND BIT_MASK nr \<noteq> 0 \<longleftrightarrow> atest_bit nr w"
  unfolding atest_bit_iff by (auto simp: bit_eq_iff [where a = "w AND BIT_MASK nr"] bit_and_iff)

section \<open>Generic lemmas\<close>

named_theorems wf_intros \<open>preservation lemmas of the well-formedness invariants\<close>

lemma sum_list_split_at:
  fixes xs :: "nat list"
  assumes "i < length xs"
  shows "sum_list xs = sum_list (take i xs) + xs ! i + sum_list (drop (Suc i) xs)"
proof -
  have "xs = take i xs @ xs ! i # drop (Suc i) xs"
    using assms by (rule id_take_nth_drop)
  then have "sum_list xs = sum_list (take i xs @ xs ! i # drop (Suc i) xs)" by simp
  then show ?thesis by simp
qed

end
