(* ===== verification/Dlist_Heap.thy ===== *)
theory Dlist_Heap
  imports Prelude
begin

text \<open>
  The intrusive circular doubly linked lists of \<open>lab8/libs/list.h\<close>, on an explicit store:
  \<open>prv\<close> and \<open>nxt\<close> give the two fields of the \<open>list_entry_t\<close> at each address, so that
  aliasing (an entry inserted next to itself, an entry removed twice) behaves as in C.
  \<open>dl h hdr xs\<close> says that the list with header \<open>hdr\<close> holds exactly the entries \<open>xs\<close> and is
  linked correctly in both directions; the lemmas show what each operation does to it.
\<close>

section \<open>Entries and operations\<close>

record 'a links =
  prv :: "'a \<Rightarrow> 'a"
  nxt :: "'a \<Rightarrow> 'a"

definition list_init :: "'a \<Rightarrow> 'a links \<Rightarrow> 'a links" where
  "list_init elm h = h\<lparr>prv := (prv h)(elm := elm), nxt := (nxt h)(elm := elm)\<rparr>"

text \<open>\<open>prev->next = next->prev = elm; elm->next = next; elm->prev = prev\<close>, in that order.\<close>

definition raw_list_add :: "'a \<Rightarrow> 'a \<Rightarrow> 'a \<Rightarrow> 'a links \<Rightarrow> 'a links" where
  "raw_list_add elm p n h =
     (let h1 = h\<lparr>prv := (prv h)(n := elm)\<rparr>;
          h2 = h1\<lparr>nxt := (nxt h1)(p := elm)\<rparr>;
          h3 = h2\<lparr>nxt := (nxt h2)(elm := n)\<rparr>
      in h3\<lparr>prv := (prv h3)(elm := p)\<rparr>)"

definition raw_list_del :: "'a \<Rightarrow> 'a \<Rightarrow> 'a links \<Rightarrow> 'a links" where
  "raw_list_del p n h =
     (let h1 = h\<lparr>nxt := (nxt h)(p := n)\<rparr> in h1\<lparr>prv := (prv h1)(n := p)\<rparr>)"

definition list_add_after :: "'a \<Rightarrow> 'a \<Rightarrow> 'a links \<Rightarrow> 'a links" where
  "list_add_after listelm elm h = raw_list_add elm listelm (nxt h listelm) h"

definition list_add_before :: "'a \<Rightarrow> 'a \<Rightarrow> 'a links \<Rightarrow> 'a links" where
  "list_add_before listelm elm h = raw_list_add elm (prv h listelm) listelm h"

definition list_add :: "'a \<Rightarrow> 'a \<Rightarrow> 'a links \<Rightarrow> 'a links" where
  "list_add listelm elm h = list_add_after listelm elm h"

definition list_del :: "'a \<Rightarrow> 'a links \<Rightarrow> 'a links" where
  "list_del listelm h = raw_list_del (prv h listelm) (nxt h listelm) h"

definition list_del_init :: "'a \<Rightarrow> 'a links \<Rightarrow> 'a links" where
  "list_del_init listelm h = list_init listelm (list_del listelm h)"

definition list_empty :: "'a \<Rightarrow> 'a links \<Rightarrow> bool" where
  "list_empty l h \<longleftrightarrow> nxt h l = l"

definition list_next :: "'a \<Rightarrow> 'a links \<Rightarrow> 'a" where
  "list_next listelm h = nxt h listelm"

definition list_prev :: "'a \<Rightarrow> 'a links \<Rightarrow> 'a" where
  "list_prev listelm h = prv h listelm"

lemmas list_ops_defs = list_init_def raw_list_add_def raw_list_del_def list_add_after_def
  list_add_before_def list_add_def list_del_def list_del_init_def list_empty_def
  list_next_def list_prev_def

section \<open>Segments and lists\<close>

text \<open>\<open>seg h p xs q\<close>: from \<open>p\<close> the entries \<open>xs\<close> and then \<open>q\<close> follow, linked both ways.\<close>

fun seg :: "'a links \<Rightarrow> 'a \<Rightarrow> 'a list \<Rightarrow> 'a \<Rightarrow> bool" where
  "seg h p [] q \<longleftrightarrow> nxt h p = q \<and> prv h q = p"
| "seg h p (x # xs) q \<longleftrightarrow> nxt h p = x \<and> prv h x = p \<and> seg h x xs q"

definition dl :: "'a links \<Rightarrow> 'a \<Rightarrow> 'a list \<Rightarrow> bool" where
  "dl h hdr xs \<longleftrightarrow> distinct (hdr # xs) \<and> seg h hdr xs hdr"

lemma seg_append: "seg h p (xs @ y # ys) q \<longleftrightarrow> seg h p xs y \<and> seg h y ys q"
  by (induction xs arbitrary: p) auto

text \<open>A store that agrees on the entries of the segment has the same segment.\<close>

lemma seg_cong:
  assumes "\<And>x. x \<in> set (p # xs) \<Longrightarrow> nxt h' x = nxt h x"
    and "\<And>x. x \<in> set (q # xs) \<Longrightarrow> prv h' x = prv h x"
  shows "seg h' p xs q \<longleftrightarrow> seg h p xs q"
  using assms by (induction xs arbitrary: p) auto

lemma seg_nxt_first: "seg h p xs q \<Longrightarrow> nxt h p = (case xs of [] \<Rightarrow> q | x # _ \<Rightarrow> x)"
  by (cases xs) auto

lemma seg_prv_last: "seg h p xs q \<Longrightarrow> prv h q = (if xs = [] then p else last xs)"
  by (induction xs arbitrary: p) auto

lemma dl_nxt_head: "dl h hdr xs \<Longrightarrow> nxt h hdr = (case xs of [] \<Rightarrow> hdr | x # _ \<Rightarrow> x)"
  by (auto simp: dl_def dest: seg_nxt_first)

lemma dl_prv_head: "dl h hdr xs \<Longrightarrow> prv h hdr = (if xs = [] then hdr else last xs)"
  by (auto simp: dl_def dest: seg_prv_last)

lemma dl_nxt_elem:
  "dl h hdr (xs @ x # ys) \<Longrightarrow> nxt h x = (case ys of [] \<Rightarrow> hdr | y # _ \<Rightarrow> y)"
  by (auto simp: dl_def seg_append dest: seg_nxt_first)

lemma dl_prv_elem:
  "dl h hdr (xs @ x # ys) \<Longrightarrow> prv h x = (if xs = [] then hdr else last xs)"
  by (auto simp: dl_def seg_append dest: seg_prv_last)

lemma dl_distinct: "dl h hdr xs \<Longrightarrow> distinct xs"
  by (simp add: dl_def)

lemma dl_head_notin: "dl h hdr xs \<Longrightarrow> hdr \<notin> set xs"
  by (simp add: dl_def)

text \<open>An insertion between neighbours, and a removal, on the segment that holds them.\<close>

lemma dl_init: "dl (list_init hdr h) hdr []"
  by (simp add: dl_def list_init_def)

lemma dl_empty_iff: "dl h hdr xs \<Longrightarrow> list_empty hdr h \<longleftrightarrow> xs = []"
  by (auto simp: dl_nxt_head list_empty_def dl_def split: list.splits)

lemma seg_raw_add:
  assumes "seg h p (xs @ ys) q" "distinct (p # xs @ ys)" "q \<notin> set (xs @ ys)"
    and "e \<notin> set (p # q # xs @ ys)"
    and "l = (if xs = [] then p else last xs)" "r = (case ys of [] \<Rightarrow> q | y # _ \<Rightarrow> y)"
  shows "seg (raw_list_add e l r h) p (xs @ e # ys) q"
proof -
  let ?h = "raw_list_add e l r h"
  have left: "seg ?h p xs e"
  proof (cases xs rule: rev_cases)
    case Nil
    with assms(4,5) show ?thesis by (auto simp: raw_list_add_def Let_def)
  next
    case (snoc zs z)
    with assms(5) have l: "l = z" by simp
    from assms(1) snoc have "seg h p zs z" by (simp add: seg_append)
    moreover have "seg ?h p zs z \<longleftrightarrow> seg h p zs z"
    proof (rule seg_cong)
      fix x assume "x \<in> set (p # zs)"
      with snoc assms(2,4) l show "nxt ?h x = nxt h x"
        by (auto simp: raw_list_add_def Let_def)
    next
      fix x assume "x \<in> set (z # zs)"
      moreover from this snoc assms(2-4,6) have "x \<noteq> r" by (auto split: list.splits)
      ultimately show "prv ?h x = prv h x"
        using snoc assms(4) by (auto simp: raw_list_add_def Let_def)
    qed
    ultimately show ?thesis
      using snoc l assms(4) by (auto simp: seg_append raw_list_add_def Let_def)
  qed
  have right: "seg ?h e ys q"
  proof (cases ys)
    case Nil
    with assms(4,6) show ?thesis by (auto simp: raw_list_add_def Let_def)
  next
    case (Cons z zs)
    with assms(6) have r: "r = z" by simp
    from assms(1) Cons have "seg h z zs q" by (simp add: seg_append)
    moreover have "seg ?h z zs q \<longleftrightarrow> seg h z zs q"
    proof (rule seg_cong)
      fix x assume "x \<in> set (z # zs)"
      moreover have "l \<notin> set ys"
        using assms(2,5) by auto (metis IntI empty_iff last_in_set)
      with calculation Cons have "x \<noteq> l" by auto
      with calculation show "nxt ?h x = nxt h x"
        using Cons assms(4) by (auto simp: raw_list_add_def Let_def)
    next
      fix x assume "x \<in> set (q # zs)"
      with Cons assms(2-4) r show "prv ?h x = prv h x"
        by (auto simp: raw_list_add_def Let_def)
    qed
    ultimately show ?thesis
      using Cons r assms(4) by (auto simp: raw_list_add_def Let_def)
  qed
  from left right show ?thesis by (simp add: seg_append)
qed

lemma dl_raw_add:
  assumes "dl h hdr (xs @ ys)" "e \<notin> set (hdr # xs @ ys)"
    and "l = (if xs = [] then hdr else last xs)" "r = (case ys of [] \<Rightarrow> hdr | y # _ \<Rightarrow> y)"
  shows "dl (raw_list_add e l r h) hdr (xs @ e # ys)"
  using assms seg_raw_add [of h hdr xs ys hdr e l r] by (auto simp: dl_def)

text \<open>\<open>list_add_after\<close> puts the new entry right behind its anchor, \<open>list_add_before\<close> right
  in front of it; with the header as the anchor these are the two ends of the list.\<close>

lemma dl_add_after_head:
  "dl h hdr xs \<Longrightarrow> e \<notin> set (hdr # xs) \<Longrightarrow> dl (list_add_after hdr e h) hdr (e # xs)"
  using dl_raw_add [of h hdr "[]" xs e] by (simp add: list_add_after_def dl_nxt_head)

lemma dl_add_after:
  "dl h hdr (xs @ x # ys) \<Longrightarrow> e \<notin> set (hdr # xs @ x # ys)
    \<Longrightarrow> dl (list_add_after x e h) hdr (xs @ x # e # ys)"
  using dl_raw_add [of h hdr "xs @ [x]" ys e] by (simp add: list_add_after_def dl_nxt_elem)

lemma dl_add_before_head:
  "dl h hdr xs \<Longrightarrow> e \<notin> set (hdr # xs) \<Longrightarrow> dl (list_add_before hdr e h) hdr (xs @ [e])"
  using dl_raw_add [of h hdr xs "[]" e] by (simp add: list_add_before_def dl_prv_head)

lemma dl_add_before:
  "dl h hdr (xs @ x # ys) \<Longrightarrow> e \<notin> set (hdr # xs @ x # ys)
    \<Longrightarrow> dl (list_add_before x e h) hdr (xs @ e # x # ys)"
  using dl_raw_add [of h hdr xs "x # ys" e] by (simp add: list_add_before_def dl_prv_elem)

lemma dl_del:
  assumes "dl h hdr (xs @ x # ys)"
  shows "dl (list_del x h) hdr (xs @ ys)"
proof -
  let ?h = "list_del x h"
  let ?l = "if xs = [] then hdr else last xs"
  let ?r = "case ys of [] \<Rightarrow> hdr | y # _ \<Rightarrow> y"
  have d: "distinct (hdr # xs @ x # ys)" and sx: "seg h hdr xs x" and sy: "seg h x ys hdr"
    using assms by (auto simp: dl_def seg_append)
  have nx: "nxt ?h = (nxt h)(?l := ?r)" and pv: "prv ?h = (prv h)(?r := ?l)"
    using assms by (simp_all add: list_del_def raw_list_del_def Let_def dl_nxt_elem dl_prv_elem)
  have left: "seg ?h hdr zs z" if "xs = zs @ [z]" for zs z
  proof -
    have "seg ?h hdr zs z \<longleftrightarrow> seg h hdr zs z"
      using d that by (intro seg_cong) (auto simp: nx pv split: list.splits)
    with sx that show ?thesis by (simp add: seg_append)
  qed
  have right: "seg ?h z zs hdr" if "ys = z # zs" for z zs
  proof -
    have "?l \<notin> set ys" using d by auto (metis IntI empty_iff last_in_set)
    then have "seg ?h z zs hdr \<longleftrightarrow> seg h z zs hdr"
      using d that by (intro seg_cong) (auto simp: nx pv)
    with sy that show ?thesis by simp
  qed
  have "seg ?h hdr (xs @ ys) hdr"
  proof (cases xs rule: rev_cases)
    case Nil
    with right show ?thesis by (cases ys) (auto simp: nx pv)
  next
    case (snoc zs z)
    with left have lz: "seg ?h hdr zs z" by blast
    from snoc have "seg ?h z ys hdr"
      using right by (cases ys) (auto simp: nx pv)
    with lz snoc show ?thesis by (simp add: seg_append)
  qed
  with d show ?thesis by (simp add: dl_def)
qed

lemma dl_del_init:
  assumes "dl h hdr (xs @ x # ys)"
  shows "dl (list_del_init x h) hdr (xs @ ys) \<and> dl (list_del_init x h) x []"
proof -
  have d: "dl (list_del x h) hdr (xs @ ys)" by (rule dl_del [OF assms])
  have "x \<notin> set (hdr # xs @ ys)" using assms by (auto simp: dl_def)
  then have "seg (list_del_init x h) hdr (xs @ ys) hdr \<longleftrightarrow> seg (list_del x h) hdr (xs @ ys) hdr"
    by (intro seg_cong) (auto simp: list_del_init_def list_init_def)
  with d show ?thesis
    by (simp add: dl_def list_del_init_def list_init_def)
qed

text \<open>Two lists with no entry in common do not disturb each other.\<close>

lemma dl_frame:
  assumes "dl h hdr xs"
    and "\<And>x. x \<in> set (hdr # xs) \<Longrightarrow> nxt h' x = nxt h x \<and> prv h' x = prv h x"
  shows "dl h' hdr xs"
  using assms seg_cong [of hdr xs h' h hdr] by (auto simp: dl_def)

text \<open>What goes wrong when an entry is inserted next to itself: its \<open>prev\<close> becomes itself,
  and deleting it later no longer unlinks it from its predecessor.\<close>

lemma self_add_breaks_prev:
  "hdr \<noteq> e \<Longrightarrow> prv (list_add e e h) e = e \<and> nxt (list_add e e h) e = nxt h e"
  by (simp add: list_add_def list_add_after_def raw_list_add_def Let_def)

lemma self_prev_del_keeps_pred:
  "prv h e = e \<Longrightarrow> p \<noteq> e \<Longrightarrow> nxt (list_del e h) p = nxt h p"
  by (simp add: list_del_def raw_list_del_def Let_def)

end
