(* ===== verification/Free_Area.thy ===== *)
theory Free_Area
  imports Dlist_Heap
begin

text \<open>
  What the list-based physical page allocators share (\<open>struct Page\<close> and \<open>free_area_t\<close> of
  \<open>lab8/kern/mm/memlayout.h\<close>, and the loops that \<open>default_pmm.c\<close> and \<open>best_fit_pmm.c\<close>
  have in common). A \<open>struct Page *\<close> is the index of its descriptor in the array \<open>pages\<close>,
  so \<open>p + n\<close> and \<open>base < page\<close> are addition and comparison of indices; the counters are
  natural numbers, because the number of page frames is far below \<open>2^32\<close>. A list entry is
  the header \<open>free_list\<close> or the \<open>page_link\<close> of a page, and the links live in the explicit
  store of \<open>list.h\<close>: the address-ordered insertion loop inserts an entry next to itself when
  it has just appended it, which only the store shows.
\<close>

section \<open>Page descriptors and the free area\<close>

record page =
  pg_ref :: int
  pg_flags :: u64
  pg_property :: nat

datatype lnode = FreeList | PgLink (le2page: nat)

record free_area =
  pages :: "nat \<Rightarrow> page"
  flinks :: "lnode links"
  nr_free :: nat

definition PG_reserved :: nat where "PG_reserved = 0"

definition PG_property :: nat where "PG_property = 1"

definition PageReserved :: "page \<Rightarrow> bool" where
  "PageReserved p \<longleftrightarrow> atest_bit PG_reserved (pg_flags p)"

definition PageProperty :: "page \<Rightarrow> bool" where
  "PageProperty p \<longleftrightarrow> atest_bit PG_property (pg_flags p)"

definition SetPageReserved :: "page \<Rightarrow> page" where
  "SetPageReserved p = p\<lparr>pg_flags := aset_bit PG_reserved (pg_flags p)\<rparr>"

definition SetPageProperty :: "page \<Rightarrow> page" where
  "SetPageProperty p = p\<lparr>pg_flags := aset_bit PG_property (pg_flags p)\<rparr>"

definition ClearPageProperty :: "page \<Rightarrow> page" where
  "ClearPageProperty p = p\<lparr>pg_flags := aclear_bit PG_property (pg_flags p)\<rparr>"

definition upd_page :: "nat \<Rightarrow> (page \<Rightarrow> page) \<Rightarrow> free_area \<Rightarrow> free_area" where
  "upd_page i f s = s\<lparr>pages := (pages s)(i := f (pages s i))\<rparr>"

definition upd_links :: "(lnode links \<Rightarrow> lnode links) \<Rightarrow> free_area \<Rightarrow> free_area" where
  "upd_links f s = s\<lparr>flinks := f (flinks s)\<rparr>"

named_theorems page_simps \<open>how the descriptor operations read after a write\<close>

lemma page_flag_simps [page_simps]:
  "PageProperty (SetPageProperty p)" "\<not> PageProperty (ClearPageProperty p)"
  "PageReserved (SetPageProperty p) = PageReserved p"
  "PageReserved (ClearPageProperty p) = PageReserved p"
  "pg_property (SetPageProperty p) = pg_property p"
  "pg_property (ClearPageProperty p) = pg_property p"
  "pg_ref (SetPageProperty p) = pg_ref p"
  "pg_ref (ClearPageProperty p) = pg_ref p"
  "PageProperty (p\<lparr>pg_property := v\<rparr>) = PageProperty p"
  "PageReserved (p\<lparr>pg_property := v\<rparr>) = PageReserved p"
  "PageProperty (p\<lparr>pg_ref := r\<rparr>) = PageProperty p"
  "PageReserved (p\<lparr>pg_ref := r\<rparr>) = PageReserved p"
  "\<not> PageProperty (p\<lparr>pg_flags := 0\<rparr>)" "\<not> PageReserved (p\<lparr>pg_flags := 0\<rparr>)"
  by (simp_all add: PageProperty_def PageReserved_def SetPageProperty_def ClearPageProperty_def
      PG_reserved_def PG_property_def)

lemma upd_simps [page_simps]:
  "pages (upd_page i f s) = (pages s)(i := f (pages s i))"
  "flinks (upd_page i f s) = flinks s" "nr_free (upd_page i f s) = nr_free s"
  "pages (upd_links g s) = pages s" "flinks (upd_links g s) = g (flinks s)"
  "nr_free (upd_links g s) = nr_free s"
  by (simp_all add: upd_page_def upd_links_def)

section \<open>The loops\<close>

text \<open>\<open>for (p = base; p != base + n; p++)\<close> of \<open>init_memmap\<close>: every page must be reserved.\<close>

fun init_pages :: "nat \<Rightarrow> nat \<Rightarrow> free_area \<Rightarrow> free_area option" where
  "init_pages p 0 s = Some s"
| "init_pages p (Suc k) s =
     (if PageReserved (pages s p)
      then init_pages (Suc p) k
             (upd_page p (\<lambda>d. d\<lparr>pg_flags := 0, pg_property := 0, pg_ref := 0\<rparr>) s)
      else None)"

text \<open>The same loop of \<open>free_pages\<close>: no page may be reserved or the head of a free block.\<close>

fun clear_pages :: "nat \<Rightarrow> nat \<Rightarrow> free_area \<Rightarrow> free_area option" where
  "clear_pages p 0 s = Some s"
| "clear_pages p (Suc k) s =
     (if \<not> PageReserved (pages s p) \<and> \<not> PageProperty (pages s p)
      then clear_pages (Suc p) k (upd_page p (\<lambda>d. d\<lparr>pg_flags := 0, pg_ref := 0\<rparr>) s)
      else None)"

text \<open>
  The insertion loop: \<open>while ((le = list_next(le)) != &free_list)\<close>, with a \<open>break\<close> after
  \<open>list_add_before\<close> and none after \<open>list_add\<close>.
\<close>

partial_function (option) insert_loop :: "lnode \<Rightarrow> nat \<Rightarrow> lnode links \<Rightarrow> lnode links option" where
  "insert_loop le base lk =
     (let le' = list_next le lk in
      if le' = FreeList then Some lk
      else if base < le2page le' then Some (list_add_before le' (PgLink base) lk)
      else if list_next le' lk = FreeList
           then insert_loop le' base (list_add le' (PgLink base) lk)
      else insert_loop le' base lk)"

declare insert_loop.simps [code]

definition insert_block :: "nat \<Rightarrow> lnode links \<Rightarrow> lnode links option" where
  "insert_block base lk =
     (if list_empty FreeList lk then Some (list_add FreeList (PgLink base) lk)
      else insert_loop FreeList base lk)"

text \<open>Taking \<open>n\<close> pages off the block at \<open>page\<close> (the code after the search of \<open>alloc_pages\<close>).\<close>

definition take_block :: "nat \<Rightarrow> nat \<Rightarrow> free_area \<Rightarrow> free_area" where
  "take_block page n s =
     (let prev = list_prev (PgLink page) (flinks s);
          s1 = upd_links (list_del (PgLink page)) s;
          s2 = (if pg_property (pages s1 page) > n
                then let p = page + n;
                         a = upd_page p (\<lambda>d. d\<lparr>pg_property := pg_property (pages s1 page) - n\<rparr>) s1;
                         b = upd_page p SetPageProperty a
                     in upd_links (list_add prev (PgLink p)) b
                else s1);
          s3 = s2\<lparr>nr_free := nr_free s2 - n\<rparr>
      in upd_page page ClearPageProperty s3)"

text \<open>The two merges at the end of \<open>free_pages\<close>; the first returns the new \<open>base\<close>.\<close>

definition merge_prev :: "nat \<Rightarrow> free_area \<Rightarrow> nat \<times> free_area" where
  "merge_prev base s =
     (let le = list_prev (PgLink base) (flinks s) in
      if le \<noteq> FreeList
      then let p = le2page le in
           if p + pg_property (pages s p) = base
           then (p, upd_links (list_del (PgLink base))
                      (upd_page base ClearPageProperty
                        (upd_page p (\<lambda>d. d\<lparr>pg_property :=
                            pg_property d + pg_property (pages s base)\<rparr>) s)))
           else (base, s)
      else (base, s))"

definition merge_next :: "nat \<Rightarrow> free_area \<Rightarrow> free_area" where
  "merge_next base s =
     (let le = list_next (PgLink base) (flinks s) in
      if le \<noteq> FreeList
      then let p = le2page le in
           if base + pg_property (pages s base) = p
           then upd_links (list_del (PgLink p))
                  (upd_page p ClearPageProperty
                    (upd_page base (\<lambda>d. d\<lparr>pg_property :=
                        pg_property d + pg_property (pages s p)\<rparr>) s))
           else s
      else s)"

section \<open>The well-formed free list\<close>

text \<open>
  \<open>fl_inv s xs\<close>: the free list holds the blocks that start at \<open>xs\<close>, linked both ways, in
  increasing order without overlap; every block is non-empty, its pages are unreserved and
  unreferenced, and its head, and nothing but the heads of blocks, carries \<open>PG_property\<close>;
  \<open>nr_free\<close> is the number of free pages.
\<close>

definition bend :: "free_area \<Rightarrow> nat \<Rightarrow> nat" where
  "bend s x = x + pg_property (pages s x)"

definition fl_ordered :: "free_area \<Rightarrow> nat list \<Rightarrow> bool" where
  "fl_ordered s xs \<longleftrightarrow> sorted_wrt (\<lambda>x y. bend s x \<le> y) xs"

definition fl_inv :: "free_area \<Rightarrow> nat list \<Rightarrow> bool" where
  "fl_inv s xs \<longleftrightarrow> dl (flinks s) FreeList (map PgLink xs) \<and> fl_ordered s xs
     \<and> (\<forall>x \<in> set xs. 0 < pg_property (pages s x))
     \<and> (\<forall>x \<in> set xs. \<forall>p \<in> {x..<bend s x}. \<not> PageReserved (pages s p) \<and> pg_ref (pages s p) = 0)
     \<and> (\<forall>p. PageProperty (pages s p) \<longleftrightarrow> p \<in> set xs)
     \<and> nr_free s = (\<Sum>x\<leftarrow>xs. pg_property (pages s x))"

definition free_frames :: "free_area \<Rightarrow> nat list \<Rightarrow> nat set" where
  "free_frames s xs = (\<Union>x \<in> set xs. {x..<bend s x})"

lemma fl_inv_dl: "fl_inv s xs \<Longrightarrow> dl (flinks s) FreeList (map PgLink xs)"
  by (simp add: fl_inv_def)

lemma fl_inv_ordered: "fl_inv s xs \<Longrightarrow> fl_ordered s xs"
  by (simp add: fl_inv_def)

lemma fl_inv_pos: "fl_inv s xs \<Longrightarrow> x \<in> set xs \<Longrightarrow> 0 < pg_property (pages s x)"
  by (simp add: fl_inv_def)

lemma dl_map_distinct: "dl h FreeList (map PgLink xs) \<Longrightarrow> distinct xs"
  by (simp add: dl_def distinct_map)

lemma fl_ordered_cong:
  "(\<And>x. x \<in> set xs \<Longrightarrow> pg_property (pages s' x) = pg_property (pages s x))
    \<Longrightarrow> fl_ordered s' xs \<longleftrightarrow> fl_ordered s xs"
  unfolding fl_ordered_def bend_def
  by (induction xs) auto

lemma fl_ordered_append:
  "fl_ordered s (xs @ ys) \<longleftrightarrow> fl_ordered s xs \<and> fl_ordered s ys
    \<and> (\<forall>x \<in> set xs. \<forall>y \<in> set ys. bend s x \<le> y)"
  by (auto simp: fl_ordered_def sorted_wrt_append)

lemma fl_ordered_Cons:
  "fl_ordered s (x # xs) \<longleftrightarrow> fl_ordered s xs \<and> (\<forall>y \<in> set xs. bend s x \<le> y)"
  by (auto simp: fl_ordered_def)

section \<open>The insertion loop\<close>

text \<open>Where the loop stops at a block above \<open>base\<close>, it inserts in front of it and ends.\<close>

lemma insert_loop_before:
  assumes "dl lk FreeList (map PgLink (ys @ xs @ z # zs))"
    and "\<And>x. x \<in> set xs \<Longrightarrow> x \<le> base" "base < z"
    and "le = (if ys = [] then FreeList else PgLink (last ys))"
  shows "insert_loop le base lk = Some (list_add_before (PgLink z) (PgLink base) lk)"
  using assms
proof (induction xs arbitrary: ys le)
  case Nil
  then have "list_next le lk = PgLink z"
    by (cases ys rule: rev_cases)
       (auto simp: list_next_def dl_nxt_head
         dest: dl_nxt_elem [where xs = "map PgLink _" and x = "PgLink _"])
  with Nil show ?case by (subst insert_loop.simps) (simp add: Let_def)
next
  case (Cons x xs)
  have nx: "list_next le lk = PgLink x"
    using Cons.prems(1,4)
    by (cases ys rule: rev_cases)
       (auto simp: list_next_def dl_nxt_head
         dest: dl_nxt_elem [where xs = "map PgLink _" and x = "PgLink _"])
  have "list_next (PgLink x) lk \<noteq> FreeList"
    using Cons.prems(1) dl_nxt_elem [of lk FreeList "map PgLink ys" "PgLink x"
        "map PgLink (xs @ z # zs)"]
    by (cases xs) (auto simp: list_next_def)
  with nx Cons.prems(2) have "insert_loop le base lk = insert_loop (PgLink x) base lk"
    by (subst insert_loop.simps) (simp add: Let_def leD)
  also have "\<dots> = Some (list_add_before (PgLink z) (PgLink base) lk)"
    using Cons.IH [of "ys @ [x]"] Cons.prems by simp
  finally show ?case .
qed

text \<open>
  Where every block lies below \<open>base\<close>, the loop appends \<open>base\<close> behind the last block and then
  meets \<open>base\<close> itself as the last entry: it inserts it a second time, behind itself.
\<close>

lemma insert_loop_tail:
  assumes "dl lk FreeList (map PgLink (ys @ xs @ [z]))"
    and "\<And>x. x \<in> set (xs @ [z]) \<Longrightarrow> x < base"
    and "le = (if ys = [] then FreeList else PgLink (last ys))"
  shows "insert_loop le base lk
    = Some (list_add (PgLink base) (PgLink base) (list_add (PgLink z) (PgLink base) lk))"
  using assms
proof (induction xs arbitrary: ys le)
  case Nil
  let ?b = "PgLink base"
  let ?lk1 = "list_add (PgLink z) ?b lk"
  let ?lk2 = "list_add ?b ?b ?lk1"
  have nx: "list_next le lk = PgLink z"
    using Nil.prems(1,3)
    by (cases ys rule: rev_cases)
       (auto simp: list_next_def dl_nxt_head
         dest: dl_nxt_elem [where xs = "map PgLink _" and x = "PgLink _"])
  have "dl lk FreeList (map PgLink ys @ PgLink z # [])"
    using Nil.prems(1) by simp
  from dl_nxt_elem [OF this] have zn: "nxt lk (PgLink z) = FreeList" by simp
  have b1: "nxt ?lk1 (PgLink z) = ?b" "nxt ?lk1 ?b = FreeList"
    using zn Nil.prems(2) by (auto simp: list_ops_defs Let_def)
  have b2: "nxt ?lk2 ?b = FreeList"
    using b1 by (auto simp: list_ops_defs Let_def)
  have "insert_loop (PgLink z) base ?lk1 = insert_loop ?b base ?lk2"
    using b1 by (subst insert_loop.simps) (simp add: Let_def list_next_def)
  also have "\<dots> = Some ?lk2"
    using b2 by (subst insert_loop.simps) (simp add: Let_def list_next_def)
  finally have "insert_loop (PgLink z) base ?lk1 = Some ?lk2" .
  moreover have "insert_loop le base lk = insert_loop (PgLink z) base ?lk1"
    using nx zn Nil.prems(2) by (subst insert_loop.simps) (simp add: Let_def list_next_def not_less)
  ultimately show ?case by simp
next
  case (Cons x xs)
  have nx: "list_next le lk = PgLink x"
    using Cons.prems(1,3)
    by (cases ys rule: rev_cases)
       (auto simp: list_next_def dl_nxt_head
         dest: dl_nxt_elem [where xs = "map PgLink _" and x = "PgLink _"])
  have "list_next (PgLink x) lk \<noteq> FreeList"
    using Cons.prems(1) dl_nxt_elem [of lk FreeList "map PgLink ys" "PgLink x"
        "map PgLink (xs @ [z])"]
    by (cases xs) (auto simp: list_next_def)
  moreover have "\<not> base < x" using Cons.prems(2) [of x] by simp
  ultimately have "insert_loop le base lk = insert_loop (PgLink x) base lk"
    using nx by (subst insert_loop.simps) (simp add: Let_def)
  also have "\<dots> = Some (list_add (PgLink base) (PgLink base) (list_add (PgLink z) (PgLink base) lk))"
    using Cons.IH [of "ys @ [x]"] Cons.prems by simp
  finally show ?case .
qed

section \<open>What the steps do to a well-formed list\<close>

lemma clear_pages_eq:
  assumes "\<forall>i \<in> {p..<p + k}. \<not> PageReserved (pages s i) \<and> \<not> PageProperty (pages s i)"
  shows "clear_pages p k s = Some (s\<lparr>pages := (\<lambda>i. if i \<in> {p..<p + k}
            then (pages s i)\<lparr>pg_flags := 0, pg_ref := 0\<rparr> else pages s i)\<rparr>)"
  using assms
proof (induction k arbitrary: p s)
  case 0
  then show ?case by simp
next
  case (Suc k)
  let ?s = "upd_page p (\<lambda>d. d\<lparr>pg_flags := 0, pg_ref := 0\<rparr>) s"
  have "\<forall>i \<in> {Suc p..<Suc p + k}. \<not> PageReserved (pages ?s i) \<and> \<not> PageProperty (pages ?s i)"
    using Suc.prems by (auto simp: page_simps)
  note IH = Suc.IH [OF this]
  have "(\<lambda>i. if i \<in> {Suc p..<Suc p + k} then (pages ?s i)\<lparr>pg_flags := 0, pg_ref := 0\<rparr> else pages ?s i)
      = (\<lambda>i. if i \<in> {p..<p + Suc k} then (pages s i)\<lparr>pg_flags := 0, pg_ref := 0\<rparr> else pages s i)"
    by (rule ext) (auto simp: upd_page_def)
  then have "clear_pages (Suc p) k ?s = Some (?s\<lparr>pages := (\<lambda>i. if i \<in> {p..<p + Suc k}
      then (pages s i)\<lparr>pg_flags := 0, pg_ref := 0\<rparr> else pages s i)\<rparr>)"
    using IH by simp
  with Suc.prems show ?case by (simp add: upd_page_def)
qed

lemma clear_pages_None:
  assumes "i \<in> {p..<p + k}" "PageReserved (pages s i) \<or> PageProperty (pages s i)"
  shows "clear_pages p k s = None"
  using assms
proof (induction k arbitrary: p s)
  case (Suc k)
  show ?case
  proof (cases "i = p")
    case False
    with Suc.prems have "i \<in> {Suc p..<Suc p + k}" by auto
    let ?s = "upd_page p (\<lambda>d. d\<lparr>pg_flags := 0, pg_ref := 0\<rparr>) s"
    have "PageReserved (pages ?s i) \<or> PageProperty (pages ?s i)"
      using False Suc.prems(2) by (simp add: upd_page_def)
    from Suc.IH [OF \<open>i \<in> {Suc p..<Suc p + k}\<close> this] show ?thesis by simp
  qed (use Suc.prems in auto)
qed simp

lemma init_pages_eq:
  assumes "\<forall>i \<in> {p..<p + k}. PageReserved (pages s i)"
  shows "init_pages p k s = Some (s\<lparr>pages := (\<lambda>i. if i \<in> {p..<p + k}
            then (pages s i)\<lparr>pg_flags := 0, pg_property := 0, pg_ref := 0\<rparr> else pages s i)\<rparr>)"
  using assms
proof (induction k arbitrary: p s)
  case 0
  then show ?case by simp
next
  case (Suc k)
  let ?s = "upd_page p (\<lambda>d. d\<lparr>pg_flags := 0, pg_property := 0, pg_ref := 0\<rparr>) s"
  have "\<forall>i \<in> {Suc p..<Suc p + k}. PageReserved (pages ?s i)"
    using Suc.prems by (auto simp: page_simps)
  note IH = Suc.IH [OF this]
  have "(\<lambda>i. if i \<in> {Suc p..<Suc p + k} then (pages ?s i)\<lparr>pg_flags := 0, pg_property := 0, pg_ref := 0\<rparr> else pages ?s i)
      = (\<lambda>i. if i \<in> {p..<p + Suc k} then (pages s i)\<lparr>pg_flags := 0, pg_property := 0, pg_ref := 0\<rparr> else pages s i)"
    by (rule ext) (auto simp: upd_page_def)
  then have "init_pages (Suc p) k ?s = Some (?s\<lparr>pages := (\<lambda>i. if i \<in> {p..<p + Suc k}
      then (pages s i)\<lparr>pg_flags := 0, pg_property := 0, pg_ref := 0\<rparr> else pages s i)\<rparr>)"
    using IH by simp
  with Suc.prems show ?case by (simp add: upd_page_def)
qed

text \<open>The blocks below and the blocks above a range of pages none of which is free.\<close>

lemma fl_inv_sorted:
  assumes "fl_inv s xs"
  shows "sorted_wrt (<) xs"
proof (rule sorted_wrt_mono_rel [where P = "\<lambda>x y. bend s x \<le> y"])
  show "sorted_wrt (\<lambda>x y. bend s x \<le> y) xs"
    using assms by (simp add: fl_inv_def fl_ordered_def)
  fix x y assume "x \<in> set xs" "bend s x \<le> y"
  with fl_inv_pos [OF assms] show "x < y" by (fastforce simp: bend_def)
qed

lemma fl_inv_split:
  assumes "fl_inv s xs" "0 < n" "\<forall>i \<in> {base..<base + n}. i \<notin> free_frames s xs"
  obtains as bs where "xs = as @ bs" "\<forall>x \<in> set as. bend s x \<le> base" "\<forall>x \<in> set bs. base + n \<le> x"
proof
  let ?as = "takeWhile (\<lambda>x. x < base) xs" and ?bs = "dropWhile (\<lambda>x. x < base) xs"
  show "xs = ?as @ ?bs" by simp
  have free: "x \<in> free_frames s xs" if "x \<in> set xs" for x
    using that assms(1) by (force simp: free_frames_def fl_inv_def bend_def)
  show "\<forall>x \<in> set ?as. bend s x \<le> base"
  proof
    fix x assume "x \<in> set ?as"
    then have "x \<in> set xs" "x < base" by (auto dest: set_takeWhileD)
    then have "base \<in> free_frames s xs" if "base < bend s x"
      using that by (auto simp: free_frames_def intro!: bexI [of _ x])
    then show "bend s x \<le> base"
      using assms(2,3) by fastforce
  qed
  have sorted: "sorted_wrt (<) xs" by (rule fl_inv_sorted [OF assms(1)])
  show "\<forall>x \<in> set ?bs. base + n \<le> x"
  proof
    fix x assume x: "x \<in> set ?bs"
    then obtain y ys where bs: "?bs = y # ys" by (cases ?bs) auto
    then have "\<not> y < base" by (simp add: dropWhile_eq_Cons_conv)
    moreover have "sorted_wrt (<) ?bs" using sorted by (rule sorted_wrt_dropWhile)
    ultimately have "base \<le> x" using x bs by auto
    moreover have "x \<in> set xs" using x by (rule set_dropWhileD)
    ultimately show "base + n \<le> x"
      using assms(3) free [of x] by (meson atLeastLessThan_iff not_le)
  qed
qed

lemma insert_block_dl:
  assumes "dl lk FreeList (map PgLink (as @ bs))" "\<forall>x \<in> set as. x < base" "\<forall>x \<in> set bs. base < x"
    and "as = [] \<or> bs \<noteq> []"
  obtains lk' where "insert_block base lk = Some lk'" "dl lk' FreeList (map PgLink (as @ base # bs))"
proof (cases bs)
  case Nil
  with assms(1,4) have d: "dl lk FreeList []" and [simp]: "as = []" by auto
  then have e: "list_empty FreeList lk" by (simp add: dl_empty_iff)
  have "dl (list_add FreeList (PgLink base) lk) FreeList [PgLink base]"
    using dl_add_after_head [OF d, of "PgLink base"] by (simp add: list_add_def)
  with e Nil that show ?thesis by (simp add: insert_block_def)
next
  case (Cons z zs)
  have ne: "\<not> list_empty FreeList lk"
    using assms(1) Cons by (simp add: dl_empty_iff)
  have "insert_loop FreeList base lk = Some (list_add_before (PgLink z) (PgLink base) lk)"
  proof (rule insert_loop_before)
    show "dl lk FreeList (map PgLink ([] @ as @ z # zs))" using assms(1) Cons by simp
  qed (use assms Cons in auto)
  moreover have "PgLink base \<notin> set (FreeList # map PgLink as @ PgLink z # map PgLink zs)"
    using assms(2,3) Cons by auto
  then have "dl (list_add_before (PgLink z) (PgLink base) lk) FreeList
      (map PgLink as @ PgLink base # PgLink z # map PgLink zs)"
    using assms(1) Cons dl_add_before [of lk FreeList "map PgLink as" "PgLink z" "map PgLink zs"]
    by simp
  ultimately show ?thesis using ne Cons that by (simp add: insert_block_def)
qed

text \<open>Appending behind the last block leaves the entry's \<open>prev\<close> pointing at the entry.\<close>

lemma insert_block_tail:
  assumes "dl lk FreeList (map PgLink xs)" "xs \<noteq> []" "\<forall>x \<in> set xs. x < base"
  obtains lk' where "insert_block base lk = Some lk'" "prv lk' (PgLink base) = PgLink base"
    "nxt lk' (PgLink base) = FreeList" "nxt lk' (PgLink (last xs)) = PgLink base"
proof -
  from assms(2) obtain ys z where xs: "xs = ys @ [z]" by (cases xs rule: rev_cases) auto
  let ?l = "list_add (PgLink base) (PgLink base) (list_add (PgLink z) (PgLink base) lk)"
  have "\<not> list_empty FreeList lk" using assms(1,2) by (simp add: dl_empty_iff)
  moreover have "insert_loop FreeList base lk = Some ?l"
    using assms xs by (intro insert_loop_tail [where ys = "[]" and xs = ys]) auto
  moreover have "nxt lk (PgLink z) = FreeList"
    using assms(1) xs dl_nxt_elem [of lk FreeList "map PgLink ys" "PgLink z" "[]"] by simp
  then have "prv ?l (PgLink base) = PgLink base" "nxt ?l (PgLink base) = FreeList"
    "nxt ?l (PgLink z) = PgLink base"
    using assms(3) xs by (auto simp: list_ops_defs Let_def)
  ultimately show ?thesis using that xs by (simp add: insert_block_def)
qed

section \<open>Insertion, removal and merging keep the invariant\<close>

lemma fl_invI:
  assumes "dl (flinks s) FreeList (map PgLink xs)" "fl_ordered s xs"
    and "\<And>x. x \<in> set xs \<Longrightarrow> 0 < pg_property (pages s x)"
    and "\<And>x p. x \<in> set xs \<Longrightarrow> x \<le> p \<Longrightarrow> p < bend s x
           \<Longrightarrow> \<not> PageReserved (pages s p) \<and> pg_ref (pages s p) = 0"
    and "\<And>p. PageProperty (pages s p) \<longleftrightarrow> p \<in> set xs"
    and "nr_free s = (\<Sum>x\<leftarrow>xs. pg_property (pages s x))"
  shows "fl_inv s xs"
  using assms by (auto simp: fl_inv_def)

lemma fl_inv_frames:
  "fl_inv s xs \<Longrightarrow> x \<in> set xs \<Longrightarrow> x \<le> p \<Longrightarrow> p < bend s x
    \<Longrightarrow> \<not> PageReserved (pages s p) \<and> pg_ref (pages s p) = 0"
  by (auto simp: fl_inv_def)

lemma fl_inv_property: "fl_inv s xs \<Longrightarrow> PageProperty (pages s p) \<longleftrightarrow> p \<in> set xs"
  by (simp add: fl_inv_def)

lemma fl_inv_nr_free: "fl_inv s xs \<Longrightarrow> nr_free s = (\<Sum>x\<leftarrow>xs. pg_property (pages s x))"
  by (simp add: fl_inv_def)

lemma sum_property_cong:
  "(\<And>x. x \<in> set xs \<Longrightarrow> pg_property (f x) = pg_property (g x))
    \<Longrightarrow> (\<Sum>x\<leftarrow>xs. pg_property (f x)) = (\<Sum>x\<leftarrow>xs. pg_property (g x))"
  by (induction xs) auto

text \<open>The blocks around one block of a well-formed list.\<close>

lemma fl_inv_around:
  assumes "fl_inv s (as @ x # bs)"
  shows "\<forall>a \<in> set as. a < x \<and> bend s a \<le> x" "\<forall>b \<in> set bs. x < b \<and> bend s x \<le> b"
    and "distinct (as @ x # bs)"
proof -
  have o: "fl_ordered s (as @ x # bs)" by (rule fl_inv_ordered [OF assms])
  have pos: "y < bend s y" if "y \<in> set (as @ x # bs)" for y
    using fl_inv_pos [OF assms that] by (simp add: bend_def)
  show "\<forall>a \<in> set as. a < x \<and> bend s a \<le> x"
    using o pos by (fastforce simp: fl_ordered_append)
  show "\<forall>b \<in> set bs. x < b \<and> bend s x \<le> b"
    using o pos [of x] by (fastforce simp: fl_ordered_append fl_ordered_Cons)
  show "distinct (as @ x # bs)"
    using fl_inv_dl [OF assms] by (rule dl_map_distinct)
qed

text \<open>A new block of \<open>n\<close> cleared pages between the blocks below and above it.\<close>

lemma fl_inv_insert:
  assumes inv: "fl_inv s (as @ bs)"
    and below: "\<forall>x \<in> set as. bend s x \<le> base" and above: "\<forall>x \<in> set bs. base + n \<le> x" and "0 < n"
    and pgs: "\<And>i. i \<notin> {base..<base + n} \<Longrightarrow> pages s' i = pages s i"
    and base: "pg_property (pages s' base) = n" "PageProperty (pages s' base)"
    and inner: "\<And>i. i \<in> {base..<base + n} \<Longrightarrow> \<not> PageReserved (pages s' i) \<and> pg_ref (pages s' i) = 0"
      "\<And>i. i \<in> {base..<base + n} \<Longrightarrow> i \<noteq> base \<Longrightarrow> \<not> PageProperty (pages s' i)"
    and lnk: "dl (flinks s') FreeList (map PgLink (as @ base # bs))"
    and nr: "nr_free s' = nr_free s + n"
  shows "fl_inv s' (as @ base # bs)"
    and "free_frames s' (as @ base # bs) = free_frames s (as @ bs) \<union> {base..<base + n}"
proof -
  have pos: "x < bend s x" if "x \<in> set (as @ bs)" for x
    using fl_inv_pos [OF inv that] by (simp add: bend_def)
  have out: "p \<notin> {base..<base + n}" if "x \<in> set (as @ bs)" "x \<le> p" "p < bend s x" for x p
    using that below above by fastforce
  have same: "pages s' x = pages s x" if "x \<in> set (as @ bs)" for x
    using pgs out [OF that] pos [OF that] by blast
  then have pp: "pg_property (pages s' x) = pg_property (pages s x)" if "x \<in> set (as @ bs)" for x
    using that by simp
  then have bnd: "bend s' x = bend s x" if "x \<in> set (as @ bs)" for x
    using that by (simp add: bend_def)
  have bb: "bend s' base = base + n" by (simp add: bend_def base)
  have ord: "fl_ordered s' as" "fl_ordered s' bs" "\<forall>x\<in>set as. \<forall>y\<in>set bs. bend s' x \<le> y"
    using fl_inv_ordered [OF inv] fl_ordered_cong [of as s' s] fl_ordered_cong [of bs s' s] pp bnd
    by (auto simp: fl_ordered_append)
  show "fl_inv s' (as @ base # bs)"
  proof (rule fl_invI)
    show "fl_ordered s' (as @ base # bs)"
      using ord below above bnd bb by (auto simp: fl_ordered_append fl_ordered_Cons)
    show "0 < pg_property (pages s' x)" if "x \<in> set (as @ base # bs)" for x
      using that pp fl_inv_pos [OF inv, of x] base \<open>0 < n\<close> by auto
    show "\<not> PageReserved (pages s' p) \<and> pg_ref (pages s' p) = 0"
      if "x \<in> set (as @ base # bs)" "x \<le> p" "p < bend s' x" for x p
    proof (cases "x = base")
      case True
      with that bb inner show ?thesis by simp
    next
      case False
      with that have x: "x \<in> set (as @ bs)" by auto
      with that(3) bnd have "p < bend s x" by simp
      with x that(2) show ?thesis using fl_inv_frames [OF inv x] out [OF x] pgs by simp
    qed
    show "PageProperty (pages s' p) \<longleftrightarrow> p \<in> set (as @ base # bs)" for p
    proof (cases "p \<in> {base..<base + n}")
      case True
      then have "p \<notin> set (as @ bs)" using out pos by blast
      with True inner(2) base(2) show ?thesis by (cases "p = base") auto
    next
      case False
      moreover from this \<open>0 < n\<close> have "p \<noteq> base" by auto
      ultimately show ?thesis using pgs fl_inv_property [OF inv, of p] by simp
    qed
    show "nr_free s' = (\<Sum>x\<leftarrow>as @ base # bs. pg_property (pages s' x))"
      using nr fl_inv_nr_free [OF inv] base(1)
        sum_property_cong [of as "pages s'" "pages s"] sum_property_cong [of bs "pages s'" "pages s"] pp
      by simp
  qed (rule lnk)
  show "free_frames s' (as @ base # bs) = free_frames s (as @ bs) \<union> {base..<base + n}"
    using bnd bb by (auto simp: free_frames_def)
qed

text \<open>Merging a block into the block that ends where it starts.\<close>

definition absorb :: "nat \<Rightarrow> nat \<Rightarrow> free_area \<Rightarrow> free_area" where
  "absorb x y s = upd_links (list_del (PgLink y)) (upd_page y ClearPageProperty
     (upd_page x (\<lambda>d. d\<lparr>pg_property := pg_property d + pg_property (pages s y)\<rparr>) s))"

lemma fl_inv_absorb:
  assumes inv: "fl_inv s (as @ x # y # bs)" and adj: "bend s x = y"
  shows "fl_inv (absorb x y s) (as @ x # bs)"
    and "free_frames (absorb x y s) (as @ x # bs) = free_frames s (as @ x # y # bs)"
    and "bend (absorb x y s) x = bend s y" "nr_free (absorb x y s) = nr_free s"
proof -
  let ?s = "absorb x y s"
  have A: "\<forall>a \<in> set as. a < x \<and> bend s a \<le> x" "\<forall>b \<in> set bs. y < b \<and> bend s y \<le> b"
    and xy: "x < y" and dist: "distinct (as @ x # y # bs)"
    using fl_inv_around [of s as x "y # bs"] fl_inv_around [of s "as @ [x]" y bs] inv by auto
  have pg: "pages ?s = (pages s)(x := (pages s x)\<lparr>pg_property :=
      pg_property (pages s x) + pg_property (pages s y)\<rparr>, y := ClearPageProperty (pages s y))"
    using xy by (simp add: absorb_def page_simps)
  have rest: "pages ?s a = pages s a" if "a \<in> set as \<union> set bs" for a
    using that dist by (auto simp: pg)
  have bx: "bend ?s x = bend s y" using adj xy by (auto simp: bend_def pg)
  have ba: "bend ?s a = bend s a" if "a \<in> set as \<union> set bs" for a
    using rest [OF that] by (simp add: bend_def)
  show bx': "bend ?s x = bend s y" by (rule bx)
  show nr: "nr_free ?s = nr_free s" by (simp add: absorb_def page_simps)
  have o: "fl_ordered s (as @ x # y # bs)" by (rule fl_inv_ordered [OF inv])
  have "fl_ordered ?s as" "fl_ordered ?s bs"
    using o rest fl_ordered_cong [of as ?s s] fl_ordered_cong [of bs ?s s]
    by (auto simp: fl_ordered_append fl_ordered_Cons)
  then have ord: "fl_ordered ?s (as @ x # bs)"
    using A bx ba xy by (fastforce simp: fl_ordered_append fl_ordered_Cons)
  have lnk: "dl (flinks ?s) FreeList (map PgLink (as @ x # bs))"
    using fl_inv_dl [OF inv] dl_del [of "flinks s" FreeList "map PgLink (as @ [x])" "PgLink y" "map PgLink bs"]
    by (simp add: absorb_def page_simps)
  show "fl_inv ?s (as @ x # bs)"
  proof (rule fl_invI [OF lnk ord])
    show "0 < pg_property (pages ?s z)" if "z \<in> set (as @ x # bs)" for z
      using that rest [of z] fl_inv_pos [OF inv, of z] xy by (auto simp: pg)
    show "\<not> PageReserved (pages ?s p) \<and> pg_ref (pages ?s p) = 0"
      if z: "z \<in> set (as @ x # bs)" "z \<le> p" "p < bend ?s z" for z p
    proof -
      have "\<exists>w \<in> set (as @ x # y # bs). w \<le> p \<and> p < bend s w"
      proof (cases "z = x")
        case True
        with z bx adj show ?thesis by (cases "p < y") auto
      next
        case False
        with z ba [of z] show ?thesis by auto
      qed
      then have "\<not> PageReserved (pages s p) \<and> pg_ref (pages s p) = 0"
        using fl_inv_frames [OF inv] by blast
      then show ?thesis by (auto simp: pg page_simps)
    qed
    show "PageProperty (pages ?s p) \<longleftrightarrow> p \<in> set (as @ x # bs)" for p
      using fl_inv_property [OF inv, of p] dist xy by (auto simp: pg page_simps)
    show "nr_free ?s = (\<Sum>z\<leftarrow>as @ x # bs. pg_property (pages ?s z))"
      using nr fl_inv_nr_free [OF inv] xy rest
        sum_property_cong [of as "pages ?s" "pages s"] sum_property_cong [of bs "pages ?s" "pages s"]
      by (simp add: pg)
  qed
  show "free_frames ?s (as @ x # bs) = free_frames s (as @ x # y # bs)"
    using bx ba adj xy fl_inv_pos [OF inv, of y] by (auto simp: free_frames_def bend_def)
qed

text \<open>Taking the first \<open>n\<close> pages of a block; what is left of it stays in the list.\<close>

definition take_rest :: "free_area \<Rightarrow> nat \<Rightarrow> nat \<Rightarrow> nat list" where
  "take_rest s x n = (if n < pg_property (pages s x) then [x + n] else [])"

lemma set_take_rest: "z \<in> set (take_rest s x n) \<longleftrightarrow> n < pg_property (pages s x) \<and> z = x + n"
  by (cases "n < pg_property (pages s x)") (simp_all add: take_rest_def)

text \<open>The parts of \<open>take_block\<close>: the descriptors, the list, the ends of the blocks.\<close>

lemma take_pages:
  "0 < n \<Longrightarrow> pages (take_block x n s) = (if n < pg_property (pages s x)
      then (pages s)(x + n := SetPageProperty ((pages s (x + n))\<lparr>pg_property := pg_property (pages s x) - n\<rparr>),
                     x := ClearPageProperty (pages s x))
      else (pages s)(x := ClearPageProperty (pages s x)))"
  by (auto simp: take_block_def page_simps Let_def)

lemma take_new_head:
  assumes "fl_inv s (as @ x # bs)" "0 < n" "n < pg_property (pages s x)"
  shows "x + n \<notin> set (as @ x # bs)"
  using fl_inv_around [OF assms(1)] assms(2,3) by (fastforce simp: bend_def)

lemma take_dl:
  assumes inv: "fl_inv s (as @ x # bs)" and n: "0 < n"
  shows "dl (flinks (take_block x n s)) FreeList (map PgLink (as @ take_rest s x n @ bs))"
proof -
  let ?p = "if as = [] then FreeList else PgLink (last as)"
  have d0: "dl (list_del (PgLink x) (flinks s)) FreeList (map PgLink (as @ bs))"
    using fl_inv_dl [OF inv] dl_del [of "flinks s" FreeList "map PgLink as" "PgLink x" "map PgLink bs"]
    by simp
  have pv: "prv (flinks s) (PgLink x) = ?p"
    using fl_inv_dl [OF inv] dl_prv_elem [of "flinks s" FreeList "map PgLink as" "PgLink x" "map PgLink bs"]
    by (simp add: last_map)
  have lk: "flinks (take_block x n s) = (if n < pg_property (pages s x)
      then list_add ?p (PgLink (x + n)) (list_del (PgLink x) (flinks s))
      else list_del (PgLink x) (flinks s))"
    by (simp add: take_block_def page_simps Let_def list_prev_def pv)
  show ?thesis
  proof (cases "n < pg_property (pages s x)")
    case False
    with d0 show ?thesis by (simp add: lk take_rest_def)
  next
    case True
    note xn = take_new_head [OF inv n True]
    show ?thesis
    proof (cases as rule: rev_cases)
      case Nil
      with d0 True xn dl_add_after_head [of "list_del (PgLink x) (flinks s)" FreeList "map PgLink bs"
          "PgLink (x + n)"]
      show ?thesis by (auto simp: lk take_rest_def list_add_def)
    next
      case (snoc zs z)
      with d0 True xn dl_add_after [of "list_del (PgLink x) (flinks s)" FreeList "map PgLink zs"
          "PgLink z" "map PgLink bs" "PgLink (x + n)"]
      show ?thesis by (auto simp: lk take_rest_def list_add_def)
    qed
  qed
qed

lemma take_others:
  assumes inv: "fl_inv s (as @ x # bs)" and n: "0 < n" and a: "a \<in> set as \<union> set bs"
  shows "pages (take_block x n s) a = pages s a" and "bend (take_block x n s) a = bend s a"
proof -
  show "pages (take_block x n s) a = pages s a"
    using a fl_inv_around(3) [OF inv] take_new_head [OF inv n] by (auto simp: take_pages [OF n])
  then show "bend (take_block x n s) a = bend s a" by (simp add: bend_def)
qed

lemma take_bend_rest:
  "0 < n \<Longrightarrow> n < pg_property (pages s x) \<Longrightarrow> bend (take_block x n s) (x + n) = bend s x"
  by (simp add: bend_def take_pages page_simps)

lemma take_ordered:
  assumes inv: "fl_inv s (as @ x # bs)" and n: "0 < n"
  shows "fl_ordered (take_block x n s) (as @ take_rest s x n @ bs)"
proof -
  let ?s = "take_block x n s"
  note A = fl_inv_around [OF inv] and rest = take_others(1) [OF inv n] and ba = take_others(2) [OF inv n]
  have o: "fl_ordered s (as @ x # bs)" by (rule fl_inv_ordered [OF inv])
  have o2: "fl_ordered ?s as" "fl_ordered ?s bs"
    using o rest fl_ordered_cong [of as ?s s] fl_ordered_cong [of bs ?s s]
    by (auto simp: fl_ordered_append fl_ordered_Cons)
  have o3: "\<forall>a \<in> set as. \<forall>b \<in> set bs. bend ?s a \<le> b"
    using o ba by (auto simp: fl_ordered_append)
  have o4: "\<forall>a \<in> set as. bend ?s a \<le> x + n"
    using A(1) ba by (auto intro: trans_le_add1)
  show ?thesis
  proof (cases "n < pg_property (pages s x)")
    case True
    then have "\<forall>b \<in> set bs. bend ?s (x + n) \<le> b" using A(2) take_bend_rest [OF n] by simp
    with True o2 o3 o4 show ?thesis by (simp add: take_rest_def fl_ordered_append fl_ordered_Cons)
  next
    case False
    with o2 o3 show ?thesis by (simp add: take_rest_def fl_ordered_append)
  qed
qed

lemma take_frames:
  assumes inv: "fl_inv s (as @ x # bs)" and n: "0 < n" "n \<le> pg_property (pages s x)"
  shows "free_frames (take_block x n s) (as @ take_rest s x n @ bs) = free_frames s (as @ x # bs) - {x..<x + n}"
proof -
  let ?s = "take_block x n s" and ?r = "take_rest s x n"
  let ?U = "\<Union>a \<in> set as \<union> set bs. {a..<bend s a}"
  note ba = take_others(2) [OF inv n(1)]
  have "{a..<bend s a} \<inter> {x..<x + n} = {}" if "a \<in> set as \<union> set bs" for a
    using fl_inv_around [OF inv] that n by (fastforce simp: bend_def)
  then have 1: "?U \<inter> {x..<x + n} = {}" by blast
  have 2: "(\<Union>a \<in> set ?r. {a..<bend ?s a}) = {x..<bend s x} - {x..<x + n}"
  proof (cases "n < pg_property (pages s x)")
    case True
    have "{x + n..<bend s x} = {x..<bend s x} - {x..<x + n}" by auto
    then show ?thesis using True take_bend_rest [OF n(1) True] by (simp add: take_rest_def)
  next
    case False
    then show ?thesis using n by (simp add: take_rest_def bend_def)
  qed
  have "(\<Union>a \<in> set as \<union> set bs. {a..<bend ?s a}) = ?U" using ba by (intro SUP_cong) auto
  moreover have "free_frames ?s (as @ ?r @ bs) = (\<Union>a \<in> set as \<union> set bs. {a..<bend ?s a})
      \<union> (\<Union>a \<in> set ?r. {a..<bend ?s a})"
    unfolding free_frames_def set_append UN_Un by (simp add: Un_ac)
  ultimately have 3: "free_frames ?s (as @ ?r @ bs) = ?U \<union> (\<Union>a \<in> set ?r. {a..<bend ?s a})"
    by (simp only:)
  have 4: "free_frames s (as @ x # bs) = ?U \<union> {x..<bend s x}"
    unfolding free_frames_def set_append UN_Un by (simp add: Un_ac)
  show ?thesis unfolding 2 3 4 Un_Diff using Diff_triv [OF 1] by simp
qed

lemma fl_inv_take:
  assumes inv: "fl_inv s (as @ x # bs)" and n: "0 < n" "n \<le> pg_property (pages s x)"
  shows "fl_inv (take_block x n s) (as @ take_rest s x n @ bs)"
    and "free_frames (take_block x n s) (as @ take_rest s x n @ bs)
       = free_frames s (as @ x # bs) - {x..<x + n}"
    and "nr_free (take_block x n s) = nr_free s - n"
    and "\<not> PageProperty (pages (take_block x n s) x)"
    and "\<And>i. i \<notin> {x, x + n} \<Longrightarrow> pages (take_block x n s) i = pages s i"
proof -
  let ?s = "take_block x n s" and ?r = "take_rest s x n"
  note pg = take_pages [OF n(1), of x s] and rest = take_others(1) [OF inv n(1)] and ba = take_others(2) [OF inv n(1)]
    and br = take_bend_rest [OF n(1), of s x]
  show "pages ?s i = pages s i" if "i \<notin> {x, x + n}" for i
    using that by (simp add: pg)
  show "\<not> PageProperty (pages ?s x)" using n by (simp add: pg page_simps)
  show nr: "nr_free ?s = nr_free s - n" by (simp add: take_block_def page_simps Let_def)
  show "free_frames ?s (as @ ?r @ bs) = free_frames s (as @ x # bs) - {x..<x + n}"
    by (rule take_frames [OF inv n])
  show "fl_inv ?s (as @ ?r @ bs)"
  proof (rule fl_invI [OF take_dl [OF inv n(1)] take_ordered [OF inv n(1)]])
    show "0 < pg_property (pages ?s z)" if "z \<in> set (as @ ?r @ bs)" for z
    proof (cases "z \<in> set as \<union> set bs")
      case True
      with rest [OF True] fl_inv_pos [OF inv, of z] show ?thesis by auto
    next
      case False
      with that have "z = x + n" "n < pg_property (pages s x)"
        by (auto simp: set_take_rest)
      moreover from this(2) n have "pg_property (pages ?s (x + n)) = pg_property (pages s x) - n"
        by (simp add: pg page_simps)
      ultimately show ?thesis by simp
    qed
    show "\<not> PageReserved (pages ?s p) \<and> pg_ref (pages ?s p) = 0"
      if z: "z \<in> set (as @ ?r @ bs)" "z \<le> p" "p < bend ?s z" for z p
    proof -
      have "\<exists>w \<in> set (as @ x # bs). w \<le> p \<and> p < bend s w"
      proof (cases "z \<in> set as \<union> set bs")
        case True
        with z ba [OF True] show ?thesis by auto
      next
        case False
        with z(1) have "z = x + n" "n < pg_property (pages s x)" by (auto simp: set_take_rest)
        with z br show ?thesis by auto
      qed
      then have "\<not> PageReserved (pages s p) \<and> pg_ref (pages s p) = 0"
        using fl_inv_frames [OF inv] by blast
      then show ?thesis by (auto simp: pg page_simps)
    qed
    show "PageProperty (pages ?s p) \<longleftrightarrow> p \<in> set (as @ ?r @ bs)" for p
      using fl_inv_property [OF inv, of p] fl_inv_around(3) [OF inv] n take_new_head [OF inv n(1)] by (auto simp: pg page_simps set_take_rest)
    have sums: "(\<Sum>z\<leftarrow>as. pg_property (pages ?s z)) = (\<Sum>z\<leftarrow>as. pg_property (pages s z))"
        "(\<Sum>z\<leftarrow>bs. pg_property (pages ?s z)) = (\<Sum>z\<leftarrow>bs. pg_property (pages s z))"
      using rest by (simp_all cong: sum_property_cong)
    have "(\<Sum>z\<leftarrow>?r. pg_property (pages ?s z)) = pg_property (pages s x) - n"
      using n by (cases "n < pg_property (pages s x)") (simp_all add: pg take_rest_def page_simps)
    with sums n show "nr_free ?s = (\<Sum>z\<leftarrow>as @ ?r @ bs. pg_property (pages ?s z))"
      by (simp add: nr fl_inv_nr_free [OF inv])
  qed
qed

text \<open>The two merges of \<open>free_pages\<close> are this absorption, when the neighbours touch.\<close>

lemma merge_prev_first:
  assumes "fl_inv s (base # bs)"
  shows "merge_prev base s = (base, s)"
  using fl_inv_dl [OF assms] dl_prv_elem [of "flinks s" FreeList "[]" "PgLink base" "map PgLink bs"]
  by (simp add: merge_prev_def list_prev_def Let_def)

lemma merge_prev_eq:
  assumes "fl_inv s (as @ p # base # bs)"
  shows "merge_prev base s = (if bend s p = base then (p, absorb p base s) else (base, s))"
  using fl_inv_dl [OF assms]
    dl_prv_elem [of "flinks s" FreeList "map PgLink (as @ [p])" "PgLink base" "map PgLink bs"]
  by (simp add: merge_prev_def list_prev_def Let_def absorb_def bend_def)

lemma merge_next_last:
  assumes "fl_inv s (as @ [base])"
  shows "merge_next base s = s"
  using fl_inv_dl [OF assms] dl_nxt_elem [of "flinks s" FreeList "map PgLink as" "PgLink base" "[]"]
  by (simp add: merge_next_def list_next_def Let_def)

lemma merge_next_eq:
  assumes "fl_inv s (as @ base # p # bs)"
  shows "merge_next base s = (if bend s base = p then absorb base p s else s)"
  using fl_inv_dl [OF assms]
    dl_nxt_elem [of "flinks s" FreeList "map PgLink as" "PgLink base" "map PgLink (p # bs)"]
  by (simp add: merge_next_def list_next_def Let_def absorb_def bend_def)

text \<open>Together they keep the set of free frames, whatever they merge.\<close>

lemma merges_ok:
  assumes inv: "fl_inv s (as @ base # bs)"
  shows "\<exists>xs'. fl_inv (case merge_prev base s of (b, s1) \<Rightarrow> merge_next b s1) xs'
    \<and> free_frames (case merge_prev base s of (b, s1) \<Rightarrow> merge_next b s1) xs' = free_frames s (as @ base # bs)
    \<and> nr_free (case merge_prev base s of (b, s1) \<Rightarrow> merge_next b s1) = nr_free s"
proof -
  have nxt: "\<exists>xs'. fl_inv (merge_next b t) xs' \<and> free_frames (merge_next b t) xs' = free_frames t (cs @ b # bs)
      \<and> nr_free (merge_next b t) = nr_free t"
    if t: "fl_inv t (cs @ b # bs)" for b cs t
  proof (cases bs)
    case Nil
    with t merge_next_last [of t cs b] show ?thesis by auto
  next
    case (Cons p ps)
    with t merge_next_eq [of t cs b p ps] fl_inv_absorb [of t cs b p ps] show ?thesis by auto
  qed
  show ?thesis
  proof (cases as rule: rev_cases)
    case Nil
    with inv merge_prev_first [of s base bs] nxt [of s "[]" base] show ?thesis by auto
  next
    case (snoc zs p)
    with inv have i: "fl_inv s (zs @ p # base # bs)" by simp
    show ?thesis
    proof (cases "bend s p = base")
      case True
      from fl_inv_absorb [OF i True] nxt [of "absorb p base s" zs p] merge_prev_eq [OF i] True snoc
      show ?thesis by auto
    next
      case False
      with merge_prev_eq [OF i] nxt [of s "zs @ [p]" base] i snoc show ?thesis by auto
    qed
  qed
qed

end
