(* ===== verification/First_Fit.thy ===== *)
theory First_Fit
  imports Free_Area
begin

text \<open>
  The physical page allocators: the interface \<open>struct pmm_manager\<close> of
  \<open>lab8/kern/mm/pmm.h\<close> as a locale, the first-fit manager of
  \<open>lab8/kern/mm/default_pmm.c\<close> and the best-fit manager of \<open>lab2/kern/mm/best_fit_pmm.c\<close>.
  Both allocate correctly from a well-formed free list, and free correctly unless the freed
  block lies above every free block; in that case the insertion loop corrupts the \<open>prev\<close>
  pointer of the new entry, and a later allocation of that entry can hand out the same
  frames twice.
\<close>

section \<open>The interface of a page allocator\<close>

text \<open>
  \<open>ok s x\<close> is the manager's own invariant, with a ghost description \<open>x\<close> of its free
  blocks; \<open>frames s x\<close> are the free page frames.
\<close>

locale pmm_manager =
  fixes ok :: "'s \<Rightarrow> 'b \<Rightarrow> bool"
    and frames :: "'s \<Rightarrow> 'b \<Rightarrow> nat set"
    and alloc_pages :: "nat \<Rightarrow> 's \<Rightarrow> (nat option \<times> 's) option"
    and nr_free_pages :: "'s \<Rightarrow> nat"
  assumes alloc_ok: "ok s x \<Longrightarrow> 0 < n \<Longrightarrow>
      (\<exists>p s' x'. alloc_pages n s = Some (Some p, s') \<and> ok s' x' \<and> {p..<p + n} \<subseteq> frames s x
         \<and> frames s' x' = frames s x - {p..<p + n})
      \<or> alloc_pages n s = Some (None, s)"
    and nr_ok: "ok s x \<Longrightarrow> finite (frames s x) \<and> nr_free_pages s = card (frames s x)"
begin

text \<open>A client that asks for blocks of the given sizes, one after the other.\<close>

fun alloc_seq :: "nat list \<Rightarrow> 's \<Rightarrow> ((nat \<times> nat) list \<times> 's) option" where
  "alloc_seq [] s = Some ([], s)"
| "alloc_seq (n # ns) s =
     (case alloc_pages n s of
        None \<Rightarrow> None
      | Some (None, s') \<Rightarrow> alloc_seq ns s'
      | Some (Some p, s') \<Rightarrow>
          (case alloc_seq ns s' of None \<Rightarrow> None | Some (bs, t) \<Rightarrow> Some ((p, n) # bs, t)))"

lemma alloc_seq_ok:
  "ok s x \<Longrightarrow> (\<forall>n \<in> set ns. 0 < n) \<Longrightarrow>
   \<exists>bs t y. alloc_seq ns s = Some (bs, t) \<and> ok t y
     \<and> (\<forall>(p, n) \<in> set bs. {p..<p + n} \<subseteq> frames s x)
     \<and> sorted_wrt (\<lambda>(p, n) (q, m). {p..<p + n} \<inter> {q..<q + m} = {}) bs
     \<and> frames t y = frames s x - (\<Union>(p, n) \<in> set bs. {p..<p + n})"
proof (induction ns arbitrary: s x)
  case Nil
  then show ?case by auto
next
  case (Cons n ns)
  from Cons.prems have "0 < n" by simp
  from alloc_ok [OF Cons.prems(1) this] show ?case
  proof
    assume "alloc_pages n s = Some (None, s)"
    with Cons show ?case by simp
  next
    assume "\<exists>p s' x'. alloc_pages n s = Some (Some p, s') \<and> ok s' x' \<and> {p..<p + n} \<subseteq> frames s x
         \<and> frames s' x' = frames s x - {p..<p + n}"
    then obtain p s' x' where a: "alloc_pages n s = Some (Some p, s')" "ok s' x'"
      "{p..<p + n} \<subseteq> frames s x" "frames s' x' = frames s x - {p..<p + n}" by blast
    from Cons.IH [OF a(2)] Cons.prems(2) obtain bs t y where b: "alloc_seq ns s' = Some (bs, t)"
      "ok t y" "\<forall>(q, m) \<in> set bs. {q..<q + m} \<subseteq> frames s' x'"
      "sorted_wrt (\<lambda>(p, n) (q, m). {p..<p + n} \<inter> {q..<q + m} = {}) bs"
      "frames t y = frames s' x' - (\<Union>(p, n) \<in> set bs. {p..<p + n})" by auto
    have "\<forall>(q, m) \<in> set bs. {q..<q + m} \<subseteq> frames s x \<and> {p..<p + n} \<inter> {q..<q + m} = {}"
      using b(3) a(4) by blast
    with a b show ?case by (auto intro!: exI [of _ y])
  qed
qed

lemma alloc_too_many:
  assumes "ok s x" "0 < n" "nr_free_pages s < n"
  shows "alloc_pages n s = Some (None, s)"
proof -
  have "\<not> {p..<p + n} \<subseteq> frames s x" for p
    using card_mono [of "frames s x" "{p..<p + n}"] nr_ok [OF assms(1)] assms(3) by auto
  with alloc_ok [OF assms(1,2)] show ?thesis by blast
qed

end

section \<open>First fit: \<open>default_pmm.c\<close>\<close>

definition default_init :: "free_area \<Rightarrow> free_area" where
  "default_init s = s\<lparr>flinks := list_init FreeList (flinks s), nr_free := 0\<rparr>"

definition default_init_memmap :: "nat \<Rightarrow> nat \<Rightarrow> free_area \<Rightarrow> free_area option" where
  "default_init_memmap base n s =
     (if n = 0 then None else
      case init_pages base n s of
        None \<Rightarrow> None
      | Some s1 \<Rightarrow>
          let s2 = upd_page base (\<lambda>d. d\<lparr>pg_property := n\<rparr>) s1;
              s3 = upd_page base SetPageProperty s2;
              s4 = s3\<lparr>nr_free := nr_free s3 + n\<rparr>
          in map_option (\<lambda>lk. s4\<lparr>flinks := lk\<rparr>) (insert_block base (flinks s4)))"

partial_function (option) ff_search :: "lnode \<Rightarrow> nat \<Rightarrow> free_area \<Rightarrow> nat option option" where
  "ff_search le n s =
     (let le' = list_next le (flinks s) in
      if le' = FreeList then Some None
      else if pg_property (pages s (le2page le')) \<ge> n then Some (Some (le2page le'))
      else ff_search le' n s)"

declare ff_search.simps [code]

definition default_alloc_pages :: "nat \<Rightarrow> free_area \<Rightarrow> (nat option \<times> free_area) option" where
  "default_alloc_pages n s =
     (if n = 0 then None
      else if n > nr_free s then Some (None, s)
      else case ff_search FreeList n s of
             None \<Rightarrow> None
           | Some None \<Rightarrow> Some (None, s)
           | Some (Some p) \<Rightarrow> Some (Some p, take_block p n s))"

definition default_free_pages :: "nat \<Rightarrow> nat \<Rightarrow> free_area \<Rightarrow> free_area option" where
  "default_free_pages base n s =
     (if n = 0 then None else
      case clear_pages base n s of
        None \<Rightarrow> None
      | Some s1 \<Rightarrow>
          let s2 = upd_page base (\<lambda>d. d\<lparr>pg_property := n\<rparr>) s1;
              s3 = upd_page base SetPageProperty s2;
              s4 = s3\<lparr>nr_free := nr_free s3 + n\<rparr>
          in case insert_block base (flinks s4) of
               None \<Rightarrow> None
             | Some lk \<Rightarrow>
                 (case merge_prev base (s4\<lparr>flinks := lk\<rparr>) of
                    (b, s6) \<Rightarrow> Some (merge_next b s6)))"

definition default_nr_free_pages :: "free_area \<Rightarrow> nat" where
  "default_nr_free_pages s = nr_free s"

section \<open>Best fit: \<open>best_fit_pmm.c\<close>\<close>

definition best_fit_init :: "free_area \<Rightarrow> free_area" where
  "best_fit_init s = s\<lparr>flinks := list_init FreeList (flinks s), nr_free := 0\<rparr>"

text \<open>\<open>best_fit_init_memmap\<close> clears the flags but, unlike first fit, not \<open>property\<close>.\<close>

fun bf_init_pages :: "nat \<Rightarrow> nat \<Rightarrow> free_area \<Rightarrow> free_area option" where
  "bf_init_pages p 0 s = Some s"
| "bf_init_pages p (Suc k) s =
     (if PageReserved (pages s p)
      then bf_init_pages (Suc p) k (upd_page p (\<lambda>d. d\<lparr>pg_flags := 0, pg_ref := 0\<rparr>) s)
      else None)"

definition best_fit_init_memmap :: "nat \<Rightarrow> nat \<Rightarrow> free_area \<Rightarrow> free_area option" where
  "best_fit_init_memmap base n s =
     (if n = 0 then None else
      case bf_init_pages base n s of
        None \<Rightarrow> None
      | Some s1 \<Rightarrow>
          let s2 = upd_page base (\<lambda>d. d\<lparr>pg_property := n\<rparr>) s1;
              s3 = upd_page base SetPageProperty s2;
              s4 = s3\<lparr>nr_free := nr_free s3 + n\<rparr>
          in map_option (\<lambda>lk. s4\<lparr>flinks := lk\<rparr>) (insert_block base (flinks s4)))"

text \<open>The whole list is scanned; \<open>min_size\<close> starts at \<open>nr_free + 1\<close>.\<close>

partial_function (option) bf_search ::
    "lnode \<Rightarrow> nat \<Rightarrow> nat option \<Rightarrow> nat \<Rightarrow> free_area \<Rightarrow> nat option option" where
  "bf_search le n page min_size s =
     (let le' = list_next le (flinks s) in
      if le' = FreeList then Some page
      else let p = le2page le' in
           if pg_property (pages s p) \<ge> n \<and> pg_property (pages s p) < min_size
           then bf_search le' n (Some p) (pg_property (pages s p)) s
           else bf_search le' n page min_size s)"

declare bf_search.simps [code]

definition best_fit_alloc_pages :: "nat \<Rightarrow> free_area \<Rightarrow> (nat option \<times> free_area) option" where
  "best_fit_alloc_pages n s =
     (if n = 0 then None
      else if n > nr_free s then Some (None, s)
      else case bf_search FreeList n None (nr_free s + 1) s of
             None \<Rightarrow> None
           | Some None \<Rightarrow> Some (None, s)
           | Some (Some p) \<Rightarrow> Some (Some p, take_block p n s))"

definition best_fit_free_pages :: "nat \<Rightarrow> nat \<Rightarrow> free_area \<Rightarrow> free_area option" where
  "best_fit_free_pages base n s =
     (if n = 0 then None else
      case clear_pages base n s of
        None \<Rightarrow> None
      | Some s1 \<Rightarrow>
          let s2 = upd_page base (\<lambda>d. d\<lparr>pg_property := n\<rparr>) s1;
              s3 = upd_page base SetPageProperty s2;
              s4 = s3\<lparr>nr_free := nr_free s3 + n\<rparr>
          in case insert_block base (flinks s4) of
               None \<Rightarrow> None
             | Some lk \<Rightarrow>
                 (case merge_prev base (s4\<lparr>flinks := lk\<rparr>) of
                    (b, s6) \<Rightarrow> Some (merge_next b s6)))"

definition best_fit_nr_free_pages :: "free_area \<Rightarrow> nat" where
  "best_fit_nr_free_pages s = nr_free s"

section \<open>The searches\<close>

lemma next_entry:
  assumes "dl lk FreeList (map PgLink (ys @ xs))" "le = (if ys = [] then FreeList else PgLink (last ys))"
  shows "list_next le lk = (case xs of [] \<Rightarrow> FreeList | x # _ \<Rightarrow> PgLink x)"
proof (cases ys rule: rev_cases)
  case Nil
  with assms show ?thesis by (auto simp: list_next_def dl_nxt_head split: list.splits)
next
  case (snoc zs z)
  with assms dl_nxt_elem [of lk FreeList "map PgLink zs" "PgLink z" "map PgLink xs"]
  show ?thesis by (auto simp: list_next_def split: list.splits)
qed

lemma ff_search_eq:
  assumes "dl (flinks s) FreeList (map PgLink (ys @ xs))"
    and "le = (if ys = [] then FreeList else PgLink (last ys))"
  shows "ff_search le n s = Some (find (\<lambda>x. n \<le> pg_property (pages s x)) xs)"
  using assms
proof (induction xs arbitrary: ys le)
  case Nil
  with next_entry [OF Nil] show ?case by (subst ff_search.simps) simp
next
  case (Cons x xs)
  from Cons.IH [of "ys @ [x]"] Cons.prems next_entry [OF Cons.prems]
  show ?case by (subst ff_search.simps) simp
qed

text \<open>The best block so far, as a fold over the list.\<close>

fun bf_best :: "(nat \<Rightarrow> nat) \<Rightarrow> nat \<Rightarrow> nat option \<Rightarrow> nat \<Rightarrow> nat list \<Rightarrow> nat option" where
  "bf_best f n page m [] = page"
| "bf_best f n page m (x # xs) =
     (if n \<le> f x \<and> f x < m then bf_best f n (Some x) (f x) xs else bf_best f n page m xs)"

lemma bf_search_eq:
  assumes "dl (flinks s) FreeList (map PgLink (ys @ xs))"
    and "le = (if ys = [] then FreeList else PgLink (last ys))"
  shows "bf_search le n page m s = Some (bf_best (\<lambda>x. pg_property (pages s x)) n page m xs)"
  using assms
proof (induction xs arbitrary: ys le page m)
  case Nil
  with next_entry [OF Nil] show ?case by (subst bf_search.simps) (simp add: Let_def)
next
  case (Cons x xs)
  from Cons.IH [of "ys @ [x]"] Cons.prems next_entry [OF Cons.prems]
  show ?case by (subst bf_search.simps) (simp add: Let_def)
qed

lemma bf_best_Some:
  assumes "bf_best f n page m xs = Some p"
  shows "page = Some p \<and> (\<forall>x \<in> set xs. n \<le> f x \<longrightarrow> m \<le> f x)
    \<or> p \<in> set xs \<and> n \<le> f p \<and> f p < m \<and> (\<forall>x \<in> set xs. n \<le> f x \<longrightarrow> f p \<le> f x)"
  using assms
proof (induction xs arbitrary: page m)
  case (Cons x xs)
  show ?case
  proof (cases "n \<le> f x \<and> f x < m")
    case True
    with Cons.prems Cons.IH [of "Some x" "f x"] show ?thesis by auto
  next
    case False
    with Cons.prems Cons.IH [of page m] show ?thesis by auto
  qed
qed simp

lemma bf_best_None:
  "bf_best f n page m xs = None \<Longrightarrow> page = None \<and> (\<forall>x \<in> set xs. n \<le> f x \<longrightarrow> m \<le> f x)"
proof (induction xs arbitrary: page m)
  case (Cons x xs)
  show ?case
  proof (cases "n \<le> f x \<and> f x < m")
    case True
    with Cons.prems Cons.IH [of "Some x" "f x"] show ?thesis by simp
  next
    case False
    with Cons.prems Cons.IH [of page m] show ?thesis by auto
  qed
qed simp

lemma take_block_same [simp]:
  "pg_ref (pages (take_block p n f) i) = pg_ref (pages f i)"
  "PageReserved (pages (take_block p n f) i) = PageReserved (pages f i)"
  by (simp_all add: take_block_def Let_def page_simps)

lemma default_alloc_eq:
  assumes "fl_inv s xs" "0 < n"
  shows "default_alloc_pages n s =
    (if n > nr_free s then Some (None, s)
     else case find (\<lambda>x. n \<le> pg_property (pages s x)) xs of
            None \<Rightarrow> Some (None, s) | Some p \<Rightarrow> Some (Some p, take_block p n s))"
  using assms ff_search_eq [of s "[]" xs FreeList n]
  by (auto simp: default_alloc_pages_def fl_inv_dl split: option.splits)

lemma best_fit_alloc_eq:
  assumes "fl_inv s xs" "0 < n"
  shows "best_fit_alloc_pages n s =
    (if n > nr_free s then Some (None, s)
     else case bf_best (\<lambda>x. pg_property (pages s x)) n None (nr_free s + 1) xs of
            None \<Rightarrow> Some (None, s) | Some p \<Rightarrow> Some (Some p, take_block p n s))"
  using assms bf_search_eq [of s "[]" xs FreeList n]
  by (auto simp: best_fit_alloc_pages_def fl_inv_dl split: option.splits)

text \<open>Whichever fitting block is taken, the allocation is correct.\<close>

lemma take_block_ok:
  assumes "fl_inv s xs" "x \<in> set xs" "0 < n" "n \<le> pg_property (pages s x)"
  shows "\<exists>xs'. fl_inv (take_block x n s) xs' \<and> {x..<x + n} \<subseteq> free_frames s xs
    \<and> free_frames (take_block x n s) xs' = free_frames s xs - {x..<x + n}
    \<and> nr_free (take_block x n s) = nr_free s - n \<and> \<not> PageProperty (pages (take_block x n s) x)"
proof -
  from assms(2) obtain as bs where xs: "xs = as @ x # bs" by (meson split_list)
  have "{x..<x + n} \<subseteq> free_frames s xs"
    using assms(2,4) by (fastforce simp: free_frames_def bend_def)
  with fl_inv_take [of s as x bs n] assms xs show ?thesis by blast
qed

lemma free_frames_finite: "finite (free_frames s xs)"
  by (simp add: free_frames_def)

lemma fl_inv_card:
  assumes "fl_inv s xs"
  shows "nr_free s = card (free_frames s xs)"
proof -
  have "card (\<Union>x \<in> set ys. {x..<bend s x}) = (\<Sum>x\<leftarrow>ys. pg_property (pages s x))"
    if "fl_ordered s ys" for ys
    using that
  proof (induction ys)
    case (Cons y ys)
    then have "{y..<bend s y} \<inter> (\<Union>x \<in> set ys. {x..<bend s x}) = {}"
      by (fastforce simp: fl_ordered_Cons)
    with Cons show ?case by (simp add: card_Un_disjoint fl_ordered_Cons bend_def)
  qed simp
  with fl_inv_ordered [OF assms] fl_inv_nr_free [OF assms] show ?thesis
    by (simp add: free_frames_def)
qed

interpretation first_fit: pmm_manager fl_inv free_frames default_alloc_pages default_nr_free_pages
proof
  fix s xs n assume inv: "fl_inv s xs" and n: "0 < (n::nat)"
  show "(\<exists>p s' x'. default_alloc_pages n s = Some (Some p, s') \<and> fl_inv s' x' \<and>
          {p..<p + n} \<subseteq> free_frames s xs \<and> free_frames s' x' = free_frames s xs - {p..<p + n}) \<or>
        default_alloc_pages n s = Some (None, s)"
  proof (cases "find (\<lambda>x. n \<le> pg_property (pages s x)) xs")
    case (Some p)
    then have "p \<in> set xs" "n \<le> pg_property (pages s p)" by (auto simp: find_Some_iff)
    from take_block_ok [OF inv this(1) n this(2)] default_alloc_eq [OF inv n] Some
    show ?thesis by (cases "nr_free s < n") (simp, simp, blast)
  qed (use default_alloc_eq [OF inv n] in auto)
next
  fix s xs assume "fl_inv s xs"
  then show "finite (free_frames s xs) \<and> default_nr_free_pages s = card (free_frames s xs)"
    by (simp add: fl_inv_card free_frames_finite default_nr_free_pages_def)
qed

interpretation best_fit: pmm_manager fl_inv free_frames best_fit_alloc_pages best_fit_nr_free_pages
proof
  fix s xs n assume inv: "fl_inv s xs" and n: "0 < (n::nat)"
  show "(\<exists>p s' x'. best_fit_alloc_pages n s = Some (Some p, s') \<and> fl_inv s' x' \<and>
          {p..<p + n} \<subseteq> free_frames s xs \<and> free_frames s' x' = free_frames s xs - {p..<p + n}) \<or>
        best_fit_alloc_pages n s = Some (None, s)"
  proof (cases "bf_best (\<lambda>x. pg_property (pages s x)) n None (nr_free s + 1) xs")
    case (Some p)
    with bf_best_Some [OF this] have "p \<in> set xs" "n \<le> pg_property (pages s p)" by auto
    from take_block_ok [OF inv this(1) n this(2)] best_fit_alloc_eq [OF inv n] Some
    show ?thesis by (cases "nr_free s < n") (simp, simp, blast)
  qed (use best_fit_alloc_eq [OF inv n] in auto)
next
  fix s xs assume "fl_inv s xs"
  then show "finite (free_frames s xs) \<and> best_fit_nr_free_pages s = card (free_frames s xs)"
    by (simp add: fl_inv_card free_frames_finite best_fit_nr_free_pages_def)
qed

section \<open>Freeing below some free block\<close>

lemma free_code_ok:
  assumes inv: "fl_inv s xs" and n: "0 < n"
    and rng: "\<forall>i \<in> {base..<base + n}. i \<notin> free_frames s xs \<and> \<not> PageReserved (pages s i)"
    and above: "xs = [] \<or> (\<exists>x \<in> set xs. base < x)"
  shows "\<exists>s1 lk b s6 xs'. clear_pages base n s = Some s1
    \<and> insert_block base (flinks s1) = Some lk
    \<and> merge_prev base ((upd_page base SetPageProperty (upd_page base (\<lambda>d. d\<lparr>pg_property := n\<rparr>) s1))
          \<lparr>nr_free := nr_free s1 + n, flinks := lk\<rparr>) = (b, s6)
    \<and> fl_inv (merge_next b s6) xs'
    \<and> free_frames (merge_next b s6) xs' = free_frames s xs \<union> {base..<base + n}
    \<and> nr_free (merge_next b s6) = nr_free s + n"
proof -
  obtain as bs where ab: "xs = as @ bs" "\<forall>x \<in> set as. bend s x \<le> base" "\<forall>x \<in> set bs. base + n \<le> x"
    using fl_inv_split [OF inv n] rng by blast
  have pos: "x < bend s x" if "x \<in> set xs" for x
    using fl_inv_pos [OF inv that] by (simp add: bend_def)
  have free_head: "x \<in> free_frames s xs" if "x \<in> set xs" for x
    using pos [OF that] that by (auto simp: free_frames_def)
  have np: "\<not> PageProperty (pages s i)" if "i \<in> {base..<base + n}" for i
    using fl_inv_property [OF inv, of i] free_head rng that by blast
  let ?s1 = "s\<lparr>pages := (\<lambda>i. if i \<in> {base..<base + n}
            then (pages s i)\<lparr>pg_flags := 0, pg_ref := 0\<rparr> else pages s i)\<rparr>"
  have c: "clear_pages base n s = Some ?s1"
    using clear_pages_eq [of base n s] rng np by blast
  have asx: "\<forall>x \<in> set as. x < base" using ab pos by fastforce
  have bsx: "\<forall>x \<in> set bs. base < x" using ab n by fastforce
  have "as = [] \<or> bs \<noteq> []" using above ab asx by fastforce
  with fl_inv_dl [OF inv] ab(1) asx bsx obtain lk where lk: "insert_block base (flinks s) = Some lk"
    "dl lk FreeList (map PgLink (as @ base # bs))"
    using insert_block_dl [of "flinks s" as bs base] by auto
  let ?s5 = "(upd_page base SetPageProperty (upd_page base (\<lambda>d. d\<lparr>pg_property := n\<rparr>) ?s1))
          \<lparr>nr_free := nr_free ?s1 + n, flinks := lk\<rparr>"
  have p1: "pages ?s5 i = pages s i" if "i \<notin> {base..<base + n}" for i
    using that n by (auto simp: page_simps)
  have p2: "pg_property (pages ?s5 base) = n" "PageProperty (pages ?s5 base)"
    by (simp_all add: page_simps)
  have p3: "\<not> PageReserved (pages ?s5 i) \<and> pg_ref (pages ?s5 i) = 0" if "i \<in> {base..<base + n}" for i
    using that n by (cases "i = base") (simp_all add: page_simps)
  have p4: "\<not> PageProperty (pages ?s5 i)" if "i \<in> {base..<base + n}" "i \<noteq> base" for i
    using that by (simp add: page_simps)
  have p5: "dl (flinks ?s5) FreeList (map PgLink (as @ base # bs))" "nr_free ?s5 = nr_free s + n"
    using lk(2) by (simp_all add: page_simps)
  have inv5: "fl_inv ?s5 (as @ base # bs)"
    and fr5: "free_frames ?s5 (as @ base # bs) = free_frames s (as @ bs) \<union> {base..<base + n}"
    using fl_inv_insert [OF inv [unfolded ab(1)] ab(2,3) n p1 p2 p3 p4 p5] by blast+
  obtain b s6 where m: "merge_prev base ?s5 = (b, s6)" by (cases "merge_prev base ?s5")
  from merges_ok [OF inv5] m obtain xs' where "fl_inv (merge_next b s6) xs'"
    "free_frames (merge_next b s6) xs' = free_frames ?s5 (as @ base # bs)"
    "nr_free (merge_next b s6) = nr_free ?s5" by auto
  with c lk(1) m fr5 ab(1) show ?thesis by fastforce
qed

section \<open>An example free area\<close>

text \<open>Two free blocks, of 3 frames at 2 and of 5 frames at 8; every other frame is in use.\<close>

definition used_page :: page where
  "used_page = \<lparr>pg_ref = 0, pg_flags = 0, pg_property = 0\<rparr>"

definition ex_links :: "lnode links" where
  "ex_links = list_add_before FreeList (PgLink 8) (list_add FreeList (PgLink 2)
     (list_init FreeList \<lparr>prv = (\<lambda>x. x), nxt = (\<lambda>x. x)\<rparr>))"

definition ex_area :: free_area where
  "ex_area = \<lparr>pages = (\<lambda>_. used_page)(2 := SetPageProperty (used_page\<lparr>pg_property := 3\<rparr>),
                                      8 := SetPageProperty (used_page\<lparr>pg_property := 5\<rparr>)),
              flinks = ex_links, nr_free = 8\<rparr>"

lemma ex_links_dl: "dl ex_links FreeList (map PgLink [2, 8])"
proof -
  let ?h = "list_init FreeList \<lparr>prv = (\<lambda>x. x), nxt = (\<lambda>x. x)\<rparr>"
  have "dl (list_add FreeList (PgLink 2) ?h) FreeList [PgLink 2]"
    using dl_add_after_head [OF dl_init, of "PgLink 2" FreeList "\<lparr>prv = (\<lambda>x. x), nxt = (\<lambda>x. x)\<rparr>"]
    by (simp add: list_add_def)
  from dl_add_before_head [OF this, of "PgLink 8"] show ?thesis by (simp add: ex_links_def)
qed

lemma ex_area_inv: "fl_inv ex_area [2, 8]"
proof (rule fl_invI)
  show "dl (flinks ex_area) FreeList (map PgLink [2, 8])"
    using ex_links_dl by (simp add: ex_area_def)
  show "fl_ordered ex_area [2, 8]"
    by (simp add: fl_ordered_def bend_def ex_area_def SetPageProperty_def used_page_def)
qed (auto simp: ex_area_def used_page_def page_simps SetPageProperty_def bend_def
      PageReserved_def PageProperty_def PG_reserved_def PG_property_def split: if_splits)

lemma ex_area_frames: "free_frames ex_area [2, 8] = {2..<5} \<union> {8..<13}"
  by (auto simp: free_frames_def bend_def ex_area_def SetPageProperty_def used_page_def)

lemma default_free_ok:
  assumes "fl_inv s xs" "0 < n"
    and "\<forall>i \<in> {base..<base + n}. i \<notin> free_frames s xs \<and> \<not> PageReserved (pages s i)"
    and "xs = [] \<or> (\<exists>x \<in> set xs. base < x)"
  shows "\<exists>s' xs'. default_free_pages base n s = Some s' \<and> fl_inv s' xs'
    \<and> free_frames s' xs' = free_frames s xs \<union> {base..<base + n} \<and> nr_free s' = nr_free s + n"
proof -
  from free_code_ok [OF assms] obtain s1 lk b s6 xs' where
    "clear_pages base n s = Some s1" "insert_block base (flinks s1) = Some lk"
    "merge_prev base ((upd_page base SetPageProperty (upd_page base (\<lambda>d. d\<lparr>pg_property := n\<rparr>) s1))
          \<lparr>nr_free := nr_free s1 + n, flinks := lk\<rparr>) = (b, s6)"
    "fl_inv (merge_next b s6) xs'"
    "free_frames (merge_next b s6) xs' = free_frames s xs \<union> {base..<base + n}"
    "nr_free (merge_next b s6) = nr_free s + n" by blast
  with assms(2) show ?thesis
    by (simp add: default_free_pages_def page_simps Let_def) blast
qed

section \<open>Properties\<close>

text \<open>C1: a first-fit allocation from a well-formed free list either finds no block that is
  large enough and changes nothing, or returns the first \<open>n\<close> frames of the lowest block that
  is large enough: those frames were free, they are removed from the free frames, nothing
  else changes there, and the list is well-formed again.\<close>

theorem default_alloc_correct:
  assumes "fl_inv s xs" "0 < n"
  shows "(\<forall>x \<in> set xs. pg_property (pages s x) < n) \<and> default_alloc_pages n s = Some (None, s)
    \<or> (\<exists>p s' xs'. default_alloc_pages n s = Some (Some p, s') \<and> p \<in> set xs
         \<and> n \<le> pg_property (pages s p) \<and> (\<forall>x \<in> set xs. x < p \<longrightarrow> pg_property (pages s x) < n)
         \<and> {p..<p + n} \<subseteq> free_frames s xs \<and> fl_inv s' xs'
         \<and> free_frames s' xs' = free_frames s xs - {p..<p + n} \<and> nr_free s' = nr_free s - n)"
proof (cases "find (\<lambda>x. n \<le> pg_property (pages s x)) xs")
  case None
  then have "\<forall>x \<in> set xs. pg_property (pages s x) < n" by (auto simp: find_None_iff)
  with None default_alloc_eq [OF assms] show ?thesis by auto
next
  case (Some p)
  then obtain i where i: "i < length xs" "p = xs ! i" "n \<le> pg_property (pages s p)"
    "\<forall>j < i. \<not> n \<le> pg_property (pages s (xs ! j))" by (auto simp: find_Some_iff)
  then have p: "p \<in> set xs" by simp
  have "pg_property (pages s x) < n" if "x \<in> set xs" "x < p" for x
  proof -
    from that(1) obtain j where j: "j < length xs" "x = xs ! j" by (auto simp: in_set_conv_nth)
    have "j < i"
      using fl_inv_sorted [OF assms(1)] i(1,2) j that(2) by (metis linorder_neqE_nat less_asym less_irrefl sorted_wrt_nth_less)
    with i(4) j show ?thesis by (auto simp: not_le)
  qed
  moreover have "n \<le> nr_free s"
    using fl_inv_nr_free [OF assms(1)] i(3) member_le_sum_list [of "pg_property (pages s p)"
        "map (\<lambda>x. pg_property (pages s x)) xs"] p by simp
  with default_alloc_eq [OF assms] Some
  have "default_alloc_pages n s = Some (Some p, take_block p n s)" by simp
  ultimately show ?thesis using take_block_ok [OF assms(1) p assms(2) i(3)] p i(3) by blast
qed

lemma default_alloc_correct_witness:
  "\<exists>p s' xs'. default_alloc_pages 4 ex_area = Some (Some p, s') \<and> p = 8 \<and> fl_inv s' xs'"
  using default_alloc_correct [OF ex_area_inv, of 4]
  by (auto simp: ex_area_def SetPageProperty_def used_page_def)

text \<open>C2: \<open>free_pages\<close> on frames that are in use puts exactly these frames back and leaves a
  well-formed list, merged with its neighbours or not, provided the list is empty or holds
  some block above the freed one.\<close>

theorem default_free_correct:
  assumes "fl_inv s xs" "0 < n"
    and "\<forall>i \<in> {base..<base + n}. i \<notin> free_frames s xs \<and> \<not> PageReserved (pages s i)"
    and "xs = [] \<or> (\<exists>x \<in> set xs. base < x)"
  shows "\<exists>s' xs'. default_free_pages base n s = Some s' \<and> fl_inv s' xs'
    \<and> free_frames s' xs' = free_frames s xs \<union> {base..<base + n} \<and> nr_free s' = nr_free s + n"
  using assms by (rule default_free_ok)

lemma default_free_correct_witness:
  "\<exists>s' xs'. default_free_pages 5 3 ex_area = Some s' \<and> fl_inv s' xs' \<and> nr_free s' = 11"
proof -
  have "\<forall>i \<in> {5..<5 + 3}. i \<notin> free_frames ex_area [2, 8] \<and> \<not> PageReserved (pages ex_area i)"
    by (auto simp: ex_area_frames) (simp add: ex_area_def used_page_def PageReserved_def)
  from default_free_correct [OF ex_area_inv _ this] show ?thesis
    by (auto simp: ex_area_def)
qed

text \<open>a block freed above every block of a non-empty free list is appended by the
  insertion loop and then inserted once more, next to itself: its \<open>prev\<close> pointer is left
  pointing at the block itself, so the list is no longer linked backwards.\<close>

theorem default_free_tail_self_loop:
  assumes "fl_inv s xs" "xs \<noteq> []" "\<forall>x \<in> set xs. bend s x \<le> base" "0 < n"
    and "\<forall>i \<in> {base..<base + n}. \<not> PageReserved (pages s i)"
  shows "\<exists>s'. default_free_pages base n s = Some s' \<and> prv (flinks s') (PgLink base) = PgLink base
    \<and> nxt (flinks s') (PgLink (last xs)) = PgLink base \<and> \<not> dl (flinks s') FreeList (map PgLink (xs @ [base]))"
proof -
  have pos: "x < bend s x" if "x \<in> set xs" for x
    using fl_inv_pos [OF assms(1) that] by (simp add: bend_def)
  have below: "\<forall>x \<in> set xs. x < base" using assms(3) pos by fastforce
  then have "\<forall>i \<in> {base..<base + n}. \<not> PageReserved (pages s i) \<and> \<not> PageProperty (pages s i)"
    using fl_inv_property [OF assms(1)] assms(5) by fastforce
  note c = clear_pages_eq [OF this]
  obtain lk where lk: "insert_block base (flinks s) = Some lk" "prv lk (PgLink base) = PgLink base"
    "nxt lk (PgLink base) = FreeList" "nxt lk (PgLink (last xs)) = PgLink base"
    using insert_block_tail [OF fl_inv_dl [OF assms(1)] assms(2) below] by blast
  have nodl: "\<not> dl lk FreeList (map PgLink (xs @ [base]))"
    using dl_prv_elem [of lk FreeList "map PgLink xs" "PgLink base" "[]"] lk(2) assms(2) below
    by (auto simp: last_map)
  let ?s1 = "s\<lparr>pages := (\<lambda>i. if i \<in> {base..<base + n}
            then (pages s i)\<lparr>pg_flags := 0, pg_ref := 0\<rparr> else pages s i)\<rparr>"
  let ?s5 = "(upd_page base SetPageProperty (upd_page base (\<lambda>d. d\<lparr>pg_property := n\<rparr>) ?s1))
          \<lparr>nr_free := nr_free ?s1 + n, flinks := lk\<rparr>"
  have "merge_prev base ?s5 = (base, ?s5)"
    using lk(2) assms(4) by (simp add: merge_prev_def list_prev_def Let_def page_simps)
  moreover have "merge_next base ?s5 = ?s5"
    using lk(3) by (simp add: merge_next_def list_next_def Let_def)
  ultimately have "default_free_pages base n s = Some ?s5"
    using c lk(1) assms(4) by (simp add: default_free_pages_def page_simps Let_def)
  with lk nodl show ?thesis by simp
qed

lemma default_free_tail_self_loop_witness:
  "\<exists>s'. default_free_pages 13 2 ex_area = Some s' \<and> prv (flinks s') (PgLink 13) = PgLink 13"
proof -
  have "\<forall>x \<in> set [2, 8]. bend ex_area x \<le> 13"
    by (simp add: bend_def ex_area_def SetPageProperty_def used_page_def)
  moreover have "\<forall>i \<in> {13..<13 + 2}. \<not> PageReserved (pages ex_area i)"
    by (simp add: ex_area_def used_page_def PageReserved_def)
  ultimately show ?thesis using default_free_tail_self_loop [OF ex_area_inv, of 13 2] by auto
qed

text \<open>The frames as \<open>page_init\<close> leaves them: all reserved, and an empty free list.\<close>

definition boot_area :: free_area where
  "boot_area = default_init \<lparr>pages = (\<lambda>_. SetPageReserved used_page),
     flinks = \<lparr>prv = (\<lambda>x. x), nxt = (\<lambda>x. x)\<rparr>, nr_free = 0\<rparr>"

text \<open>two memory regions registered in increasing order are enough for first fit to give
  the same three frames to two callers in a row, with no free in between.\<close>

theorem default_double_allocation:
  "Option.bind (default_init_memmap 0 1 boot_area) (\<lambda>s1.
   Option.bind (default_init_memmap 2 5 s1) (\<lambda>s2.
   Option.bind (default_alloc_pages 3 s2) (\<lambda>(p, s3).
   Option.bind (default_alloc_pages 3 s3) (\<lambda>(q, s4). Some (p, q)))))
   = Some (Some 2, Some 2)"
  by code_simp

text \<open>a best-fit allocation returns frames of a smallest block that is large enough, with
  the same effect on the free frames as first fit.\<close>

theorem best_fit_alloc_correct:
  assumes "fl_inv s xs" "0 < n"
  shows "(\<forall>x \<in> set xs. pg_property (pages s x) < n) \<and> best_fit_alloc_pages n s = Some (None, s)
    \<or> (\<exists>p s' xs'. best_fit_alloc_pages n s = Some (Some p, s') \<and> p \<in> set xs
         \<and> n \<le> pg_property (pages s p)
         \<and> (\<forall>x \<in> set xs. n \<le> pg_property (pages s x) \<longrightarrow> pg_property (pages s p) \<le> pg_property (pages s x))
         \<and> {p..<p + n} \<subseteq> free_frames s xs \<and> fl_inv s' xs'
         \<and> free_frames s' xs' = free_frames s xs - {p..<p + n} \<and> nr_free s' = nr_free s - n)"
proof -
  let ?f = "\<lambda>x. pg_property (pages s x)"
  have le: "?f x \<le> nr_free s" if "x \<in> set xs" for x
    using fl_inv_nr_free [OF assms(1)] member_le_sum_list [of "?f x" "map ?f xs"] that by simp
  show ?thesis
  proof (cases "bf_best ?f n None (nr_free s + 1) xs")
    case None
    from bf_best_None [OF None] le have "\<forall>x \<in> set xs. ?f x < n" by force
    with None best_fit_alloc_eq [OF assms] show ?thesis by auto
  next
    case (Some p)
    from bf_best_Some [OF this] have p: "p \<in> set xs" "n \<le> ?f p"
      "\<forall>x \<in> set xs. n \<le> ?f x \<longrightarrow> ?f p \<le> ?f x" by auto
    have "best_fit_alloc_pages n s = Some (Some p, take_block p n s)"
      using best_fit_alloc_eq [OF assms] Some le [OF p(1)] p(2) by simp
    with take_block_ok [OF assms(1) p(1) assms(2) p(2)] p show ?thesis by blast
  qed
qed

lemma best_fit_alloc_correct_witness:
  "\<exists>p s' xs'. best_fit_alloc_pages 3 ex_area = Some (Some p, s') \<and> p = 2 \<and> fl_inv s' xs'"
  using best_fit_alloc_correct [OF ex_area_inv, of 3]
  by (auto simp: ex_area_def SetPageProperty_def used_page_def)

text \<open>C3: whatever sizes a client asks the first-fit manager for, one request after the other,
  the blocks it is given are pairwise disjoint, were free at the start, and are exactly what
  the free list has lost.\<close>

theorem default_alloc_sequence_disjoint:
  assumes "fl_inv s xs" "\<forall>n \<in> set ns. 0 < n"
  shows "\<exists>bs t ys. pmm_manager.alloc_seq default_alloc_pages ns s = Some (bs, t) \<and> fl_inv t ys
    \<and> (\<forall>(p, n) \<in> set bs. {p..<p + n} \<subseteq> free_frames s xs)
    \<and> sorted_wrt (\<lambda>(p, n) (q, m). {p..<p + n} \<inter> {q..<q + m} = {}) bs
    \<and> free_frames t ys = free_frames s xs - (\<Union>(p, n) \<in> set bs. {p..<p + n})"
  using first_fit.alloc_seq_ok [OF assms] .

lemma default_alloc_sequence_disjoint_witness:
  "\<exists>bs t ys. pmm_manager.alloc_seq default_alloc_pages [4, 1, 2] ex_area = Some (bs, t) \<and> fl_inv t ys"
  using default_alloc_sequence_disjoint [OF ex_area_inv, of "[4, 1, 2]"] by auto

end
