(* ===== verification/Proc_Table.thy ===== *)
theory Proc_Table
  imports Prelude
begin

text \<open>
  The process table of \<open>lab5/kern/process/proc.c\<close>: \<open>struct proc_struct\<close>, the list of all
  processes, the pid hash lists, the family pointers (\<open>parent\<close>, \<open>cptr\<close>, \<open>yptr\<close>, \<open>optr\<close>)
  and the allocation of pids. A \<open>struct proc_struct *\<close> is a number that indexes \<open>procs\<close>,
  \<open>NULL\<close> is \<open>None\<close>; the two kinds of lists hold the pointers in list order (\<open>list_add\<close> puts
  an entry at the front, \<open>list_del\<close> removes it, as proved for the store of \<open>list.h\<close>).
\<close>

section \<open>Process descriptors\<close>

type_synonym pptr = nat

datatype proc_state = PROC_UNINIT | PROC_SLEEPING | PROC_RUNNABLE | PROC_ZOMBIE

record switch_context =
  c_ra :: u64
  c_sp :: u64
  c_s :: "nat \<Rightarrow> u64"

text \<open>\<open>struct pushregs\<close> lists the 32 registers in order: \<open>gpr i\<close> is register \<open>xi\<close>.\<close>

record trapframe =
  gpr :: "nat \<Rightarrow> u64"
  tf_status :: u64
  tf_epc :: u64
  tf_tval :: u64
  tf_cause :: u64

definition REG_SP :: nat where "REG_SP = 2"

definition REG_S0 :: nat where "REG_S0 = 8"

definition REG_S1 :: nat where "REG_S1 = 9"

definition REG_A0 :: nat where "REG_A0 = 10"

definition zero_tf :: trapframe where
  "zero_tf = \<lparr>gpr = (\<lambda>_. 0), tf_status = 0, tf_epc = 0, tf_tval = 0, tf_cause = 0\<rparr>"

text \<open>\<open>tf\<close> is the address of the trap frame and \<open>tframe\<close> what is stored there.\<close>

record proc_struct =
  state :: proc_state
  pid :: int
  runs :: int
  kstack :: u64
  need_resched :: bool
  parent :: "pptr option"
  p_mm :: "nat option"
  p_context :: switch_context
  tf :: u64
  tframe :: trapframe
  p_cr3 :: u64
  p_flags :: u32
  p_name :: "u8 list"
  exit_code :: int
  wait_state :: u32
  cptr :: "pptr option"
  yptr :: "pptr option"
  optr :: "pptr option"

definition PROC_NAME_LEN :: nat where "PROC_NAME_LEN = 15"

definition MAX_PROCESS :: int where "MAX_PROCESS = 4096"

definition MAX_PID :: int where "MAX_PID = 8192"

definition PF_EXITING :: u32 where "PF_EXITING = 1"

definition WT_INTERRUPTED :: u32 where "WT_INTERRUPTED = 0x80000000"

definition WT_CHILD :: u32 where "WT_CHILD = 1 OR WT_INTERRUPTED"

text \<open>\<open>memset(proc, 0, sizeof(struct proc_struct))\<close>.\<close>

definition zero_proc :: proc_struct where
  "zero_proc = \<lparr>state = PROC_UNINIT, pid = 0, runs = 0, kstack = 0, need_resched = False,
     parent = None, p_mm = None, p_context = \<lparr>c_ra = 0, c_sp = 0, c_s = (\<lambda>_. 0)\<rparr>, tf = 0,
     tframe = zero_tf, p_cr3 = 0, p_flags = 0, p_name = replicate 16 0, exit_code = 0,
     wait_state = 0, cptr = None, yptr = None, optr = None\<rparr>"

text \<open>
  The kernel state the process code works on; \<open>kmem\<close> is the state of the memory subsystem it
  calls, \<open>satp\<close> the page-table register that \<open>lcr3\<close> writes, \<open>cpu\<close> the registers that
  \<open>switch_to\<close> saves and restores.
\<close>

record 'm kstate =
  procs :: "pptr \<Rightarrow> proc_struct"
  proc_list :: "pptr list"
  hash_list :: "nat \<Rightarrow> pptr list"
  idleproc :: pptr
  initproc :: pptr
  current :: pptr
  nr_process :: int
  last_pid :: int
  next_safe :: int
  boot_cr3 :: u64
  satp :: u64
  cpu :: switch_context
  kmem :: 'm

definition upd_proc :: "pptr \<Rightarrow> (proc_struct \<Rightarrow> proc_struct) \<Rightarrow> 'm kstate \<Rightarrow> 'm kstate" where
  "upd_proc p f s = s\<lparr>procs := (procs s)(p := f (procs s p))\<rparr>"

lemma upd_proc_simps [simp]:
  "procs (upd_proc p f s) = (procs s)(p := f (procs s p))"
  "proc_list (upd_proc p f s) = proc_list s" "hash_list (upd_proc p f s) = hash_list s"
  "idleproc (upd_proc p f s) = idleproc s" "initproc (upd_proc p f s) = initproc s"
  "current (upd_proc p f s) = current s" "nr_process (upd_proc p f s) = nr_process s"
  "last_pid (upd_proc p f s) = last_pid s" "next_safe (upd_proc p f s) = next_safe s"
  "boot_cr3 (upd_proc p f s) = boot_cr3 s" "satp (upd_proc p f s) = satp s"
  "kmem (upd_proc p f s) = kmem s" "cpu (upd_proc p f s) = cpu s"
  by (simp_all add: upd_proc_def)

section \<open>Names\<close>

text \<open>\<open>memset\<close> to zero, then \<open>memcpy\<close> of \<open>PROC_NAME_LEN\<close> bytes from where \<open>name\<close> points,
  whatever the length of the string there.\<close>

definition set_proc_name :: "pptr \<Rightarrow> (nat \<Rightarrow> u8) \<Rightarrow> 'm kstate \<Rightarrow> 'm kstate" where
  "set_proc_name p name s = upd_proc p (\<lambda>d. d\<lparr>p_name := map name [0..<PROC_NAME_LEN] @ [0]\<rparr>) s"

definition get_proc_name :: "pptr \<Rightarrow> 'm kstate \<Rightarrow> u8 list" where
  "get_proc_name p s = take PROC_NAME_LEN (p_name (procs s p)) @ [0]"

lemma get_set_proc_name:
  "get_proc_name p (set_proc_name p name s) = map name [0..<PROC_NAME_LEN] @ [0]"
  by (simp add: get_proc_name_def set_proc_name_def)

section \<open>The pid hash\<close>

definition GOLDEN_RATIO_PRIME_32 :: u32 where "GOLDEN_RATIO_PRIME_32 = 0x9e370001"

definition hash32 :: "u32 \<Rightarrow> nat \<Rightarrow> u32" where
  "hash32 val bits = drop_bit (32 - bits) (val * GOLDEN_RATIO_PRIME_32)"

definition HASH_SHIFT :: nat where "HASH_SHIFT = 10"

definition pid_hashfn :: "int \<Rightarrow> nat" where
  "pid_hashfn x = unat (hash32 (word_of_int x) HASH_SHIFT)"

lemma hash32_bound:
  assumes "bits \<le> 32"
  shows "unat (hash32 val bits) < 2 ^ bits"
proof -
  have "unat (val * GOLDEN_RATIO_PRIME_32) < 2 ^ (32 - bits) * 2 ^ bits"
    using assms unsigned_less [of "val * GOLDEN_RATIO_PRIME_32"]
    by (simp flip: power_add)
  then have "unat (val * GOLDEN_RATIO_PRIME_32) div 2 ^ (32 - bits) < 2 ^ bits"
    by (intro less_mult_imp_div_less) (simp add: mult.commute)
  moreover have "unat (hash32 val bits) = unat (val * GOLDEN_RATIO_PRIME_32) div 2 ^ (32 - bits)"
  proof -
    have "take_bit 32 (unat (val * GOLDEN_RATIO_PRIME_32)) = unat (val * GOLDEN_RATIO_PRIME_32)"
      by (rule take_bit_nat_eq_self) (use unsigned_less [of "val * GOLDEN_RATIO_PRIME_32"] in simp)
    then show ?thesis
      unfolding hash32_def unsigned_drop_bit_eq by (simp add: drop_bit_eq_div)
  qed
  ultimately show ?thesis by simp
qed

definition hash_proc :: "pptr \<Rightarrow> 'm kstate \<Rightarrow> 'm kstate" where
  "hash_proc p s = (let b = pid_hashfn (pid (procs s p))
     in s\<lparr>hash_list := (hash_list s)(b := p # hash_list s b)\<rparr>)"

definition unhash_proc :: "pptr \<Rightarrow> 'm kstate \<Rightarrow> 'm kstate" where
  "unhash_proc p s = s\<lparr>hash_list := (\<lambda>b. remove1 p (hash_list s b))\<rparr>"

definition find_proc :: "int \<Rightarrow> 'm kstate \<Rightarrow> pptr option" where
  "find_proc i s =
     (if 0 < i \<and> i < MAX_PID
      then find (\<lambda>p. pid (procs s p) = i) (hash_list s (pid_hashfn i))
      else None)"

section \<open>Family links\<close>

definition set_links :: "pptr \<Rightarrow> 'm kstate \<Rightarrow> 'm kstate option" where
  "set_links p s =
     (let s1 = s\<lparr>proc_list := p # proc_list s\<rparr>;
          s2 = upd_proc p (\<lambda>d. d\<lparr>yptr := None\<rparr>) s1
      in case parent (procs s2 p) of
           None \<Rightarrow> None
         | Some par \<Rightarrow>
             let o1 = cptr (procs s2 par);
                 s3 = upd_proc p (\<lambda>d. d\<lparr>optr := o1\<rparr>) s2;
                 s4 = (case o1 of None \<Rightarrow> s3 | Some q \<Rightarrow> upd_proc q (\<lambda>d. d\<lparr>yptr := Some p\<rparr>) s3);
                 s5 = upd_proc par (\<lambda>d. d\<lparr>cptr := Some p\<rparr>) s4
             in Some (s5\<lparr>nr_process := nr_process s5 + 1\<rparr>))"

definition remove_links :: "pptr \<Rightarrow> 'm kstate \<Rightarrow> 'm kstate option" where
  "remove_links p s =
     (let s1 = s\<lparr>proc_list := remove1 p (proc_list s)\<rparr>;
          s2 = (case optr (procs s1 p) of None \<Rightarrow> s1
                | Some q \<Rightarrow> upd_proc q (\<lambda>d. d\<lparr>yptr := yptr (procs s1 p)\<rparr>) s1);
          s3 = (case yptr (procs s2 p) of
                  Some y \<Rightarrow> Some (upd_proc y (\<lambda>d. d\<lparr>optr := optr (procs s2 p)\<rparr>) s2)
                | None \<Rightarrow>
                    (case parent (procs s2 p) of
                       None \<Rightarrow> None
                     | Some par \<Rightarrow> Some (upd_proc par (\<lambda>d. d\<lparr>cptr := optr (procs s2 p)\<rparr>) s2)))
      in map_option (\<lambda>t. t\<lparr>nr_process := nr_process t - 1\<rparr>) s3)"

section \<open>Allocation of pids\<close>

text \<open>
  The loop of \<open>get_pid\<close> behind the label \<open>repeat\<close>: \<open>all\<close> are the pids in list order, \<open>rest\<close>
  what is left of the current pass; \<open>goto repeat\<close> starts a new pass.
\<close>

partial_function (option) get_pid_scan ::
    "int list \<Rightarrow> int list \<Rightarrow> int \<Rightarrow> int \<Rightarrow> (int \<times> int) option" where
  "get_pid_scan all rest lst safe =
     (case rest of
        [] \<Rightarrow> Some (lst, safe)
      | p # ps \<Rightarrow>
          if p = lst
          then let lst' = lst + 1
               in if lst' \<ge> safe
                  then get_pid_scan all all (if lst' \<ge> MAX_PID then 1 else lst') MAX_PID
                  else get_pid_scan all ps lst' safe
          else if p > lst \<and> safe > p then get_pid_scan all ps lst p
          else get_pid_scan all ps lst safe)"

declare get_pid_scan.simps [code]

definition get_pid :: "'m kstate \<Rightarrow> (int \<times> 'm kstate) option" where
  "get_pid s =
     (let pids = map (\<lambda>p. pid (procs s p)) (proc_list s);
          l = last_pid s + 1
      in if l \<ge> MAX_PID \<or> l \<ge> next_safe s
         then (case get_pid_scan pids pids (if l \<ge> MAX_PID then 1 else l) MAX_PID of
                 None \<Rightarrow> None
               | Some (l', safe') \<Rightarrow> Some (l', s\<lparr>last_pid := l', next_safe := safe'\<rparr>))
         else Some (l, s\<lparr>last_pid := l\<rparr>))"

text \<open>How far the scan is from a free pid \<open>f\<close>, counting up from \<open>lst\<close> and around.\<close>

definition pid_dist :: "int \<Rightarrow> int \<Rightarrow> nat" where
  "pid_dist f l = nat (if l \<le> f then f - l else f - l + MAX_PID)"

lemma get_pid_scan_ok:
  assumes "1 \<le> f" "f < MAX_PID" "f \<notin> set (vis @ rest)"
    and "\<forall>q \<in> set vis. q < lst \<or> safe \<le> q" "1 \<le> lst" "lst < safe" "safe \<le> MAX_PID"
  shows "\<exists>l sf. get_pid_scan (vis @ rest) rest lst safe = Some (l, sf) \<and> 1 \<le> l \<and> l < sf
    \<and> sf \<le> MAX_PID \<and> (\<forall>q \<in> set (vis @ rest). q < l \<or> sf \<le> q)"
  using assms
proof (induction "(pid_dist f lst, length rest)" arbitrary: vis rest lst safe
    rule: wf_induct [OF wf_lex_prod [OF wf_less_than wf_less_than]])
  case 1
  note IH = "1.hyps" and pre = "1.prems"
  show ?case
  proof (cases rest)
    case Nil
    with pre show ?thesis by (subst get_pid_scan.simps) auto
  next
    case (Cons p ps)
    have step: "\<exists>l sf. get_pid_scan (vis' @ rest') rest' lst' safe' = Some (l, sf) \<and> 1 \<le> l \<and> l < sf
        \<and> sf \<le> MAX_PID \<and> (\<forall>q \<in> set (vis' @ rest'). q < l \<or> sf \<le> q)"
      if "pid_dist f lst' < pid_dist f lst \<or> lst' = lst \<and> length rest' < length rest"
        "f \<notin> set (vis' @ rest')" "\<forall>q \<in> set vis'. q < lst' \<or> safe' \<le> q" "1 \<le> lst'" "lst' < safe'"
        "safe' \<le> MAX_PID" for vis' rest' lst' safe'
      using IH [rule_format, of "(pid_dist f lst', length rest')" lst' rest' vis' safe'] that pre(1,2)
      by auto
    consider (eq) "p = lst" | (up) "p \<noteq> lst" "p > lst" "safe > p" | (oth) "p \<noteq> lst" "\<not> (p > lst \<and> safe > p)"
      by blast
    then show ?thesis
    proof cases
      case eq
      with Cons pre(3) have "lst \<noteq> f" by auto
      then have d: "pid_dist f (if lst + 1 \<ge> MAX_PID then 1 else lst + 1) < pid_dist f lst"
        "lst + 1 < MAX_PID \<Longrightarrow> pid_dist f (lst + 1) < pid_dist f lst"
        using pre(1,2,5-7) by (auto simp: pid_dist_def)
      show ?thesis
      proof (cases "lst + 1 \<ge> safe")
        case True
        have "\<exists>l sf. get_pid_scan ([] @ vis @ rest) (vis @ rest) (if lst + 1 \<ge> MAX_PID then 1 else lst + 1) MAX_PID
            = Some (l, sf) \<and> 1 \<le> l \<and> l < sf \<and> sf \<le> MAX_PID \<and> (\<forall>q \<in> set ([] @ vis @ rest). q < l \<or> sf \<le> q)"
          using d pre by (intro step) (auto simp: MAX_PID_def)
        with True eq Cons show ?thesis by (subst get_pid_scan.simps) (simp add: Let_def)
      next
        case False
        have "\<exists>l sf. get_pid_scan ((vis @ [p]) @ ps) ps (lst + 1) safe = Some (l, sf) \<and> 1 \<le> l \<and> l < sf
            \<and> sf \<le> MAX_PID \<and> (\<forall>q \<in> set ((vis @ [p]) @ ps). q < l \<or> sf \<le> q)"
          using d(2) pre False eq Cons by (intro step) auto
        with False eq Cons show ?thesis by (subst get_pid_scan.simps) (simp add: Let_def)
      qed
    next
      case up
      have "\<exists>l sf. get_pid_scan ((vis @ [p]) @ ps) ps lst p = Some (l, sf) \<and> 1 \<le> l \<and> l < sf
          \<and> sf \<le> MAX_PID \<and> (\<forall>q \<in> set ((vis @ [p]) @ ps). q < l \<or> sf \<le> q)"
        using pre up Cons by (intro step) auto
      with up Cons show ?thesis by (subst get_pid_scan.simps) simp
    next
      case oth
      have "\<exists>l sf. get_pid_scan ((vis @ [p]) @ ps) ps lst safe = Some (l, sf) \<and> 1 \<le> l \<and> l < sf
          \<and> sf \<le> MAX_PID \<and> (\<forall>q \<in> set ((vis @ [p]) @ ps). q < l \<or> sf \<le> q)"
        using pre oth Cons by (intro step) auto
      moreover have "get_pid_scan (vis @ rest) rest lst safe = get_pid_scan (vis @ rest) ps lst safe"
        using oth Cons by (subst get_pid_scan.simps) (auto simp del: not_less)
      ultimately show ?thesis using Cons by simp
    qed
  qed
qed

text \<open>
  Between two calls every pid in use is at most \<open>last_pid\<close> or at least \<open>next_safe\<close>; with fewer
  processes than pids, \<open>get_pid\<close> returns, and returns a pid that is not in use.
\<close>

definition pids :: "'m kstate \<Rightarrow> int list" where
  "pids s = map (\<lambda>p. pid (procs s p)) (proc_list s)"

definition pid_inv :: "'m kstate \<Rightarrow> bool" where
  "pid_inv s \<longleftrightarrow> (\<forall>q \<in> set (pids s). 1 \<le> q \<and> q < MAX_PID \<and> (q \<le> last_pid s \<or> next_safe s \<le> q))
     \<and> 1 \<le> last_pid s \<and> next_safe s \<le> MAX_PID"

lemma free_pid_exists:
  assumes "int (length xs) \<le> MAX_PROCESS"
  shows "\<exists>f. 1 \<le> f \<and> f < MAX_PID \<and> f \<notin> set xs"
proof (rule ccontr)
  assume "\<not> ?thesis"
  then have "{1..<MAX_PID} \<subseteq> set xs" by auto
  then have "card {1..<MAX_PID} \<le> card (set xs)" by (intro card_mono) auto
  also have "\<dots> \<le> length xs" by (rule card_length)
  finally show False using assms by (simp add: MAX_PID_def MAX_PROCESS_def)
qed

lemma get_pid_ok:
  assumes "pid_inv s" "int (length (proc_list s)) \<le> MAX_PROCESS"
  shows "\<exists>r l sf. get_pid s = Some (r, s\<lparr>last_pid := l, next_safe := sf\<rparr>) \<and> 1 \<le> r \<and> r < MAX_PID
    \<and> r \<notin> set (pids s) \<and> r = l \<and> sf \<le> MAX_PID \<and> (\<forall>q \<in> set (pids s). q < l \<or> sf \<le> q)"
proof (cases "last_pid s + 1 \<ge> MAX_PID \<or> last_pid s + 1 \<ge> next_safe s")
  case True
  let ?l = "if last_pid s + 1 \<ge> MAX_PID then 1 else last_pid s + 1"
  obtain f where f: "1 \<le> f" "f < MAX_PID" "f \<notin> set (pids s)"
    using free_pid_exists [of "pids s"] assms(2) by (auto simp: pids_def)
  have "\<exists>l sf. get_pid_scan ([] @ pids s) (pids s) ?l MAX_PID = Some (l, sf) \<and> 1 \<le> l \<and> l < sf
    \<and> sf \<le> MAX_PID \<and> (\<forall>q \<in> set ([] @ pids s). q < l \<or> sf \<le> q)"
    using f assms(1) by (intro get_pid_scan_ok) (auto simp: pid_inv_def MAX_PID_def)
  then obtain l sf where g: "get_pid_scan (pids s) (pids s) ?l MAX_PID = Some (l, sf)" "1 \<le> l" "l < sf"
    "sf \<le> MAX_PID" "\<forall>q \<in> set (pids s). q < l \<or> sf \<le> q" by auto
  then have "get_pid s = Some (l, s\<lparr>last_pid := l, next_safe := sf\<rparr>)"
    using True by (simp add: get_pid_def Let_def pids_def)
  moreover have "l \<notin> set (pids s)" using g(3,5) by auto
  ultimately show ?thesis using g by force
next
  case False
  then have "get_pid s = Some (last_pid s + 1, s\<lparr>last_pid := last_pid s + 1, next_safe := next_safe s\<rparr>)"
    by (simp add: get_pid_def Let_def)
  moreover have "\<forall>q \<in> set (pids s). q < last_pid s + 1 \<or> next_safe s \<le> q"
    using assms(1) by (auto simp: pid_inv_def)
  moreover have "last_pid s + 1 \<notin> set (pids s)" using calculation(2) False by auto
  moreover have "next_safe s \<le> MAX_PID" "1 \<le> last_pid s + 1" "last_pid s + 1 < MAX_PID"
    using False assms(1) by (auto simp: pid_inv_def)
  ultimately show ?thesis by blast
qed

section \<open>The invariant of the table\<close>

text \<open>
  Every process but \<open>idleproc\<close> is on \<open>proc_list\<close> once, with its own pid, and in exactly the
  hash list its pid selects; \<open>nr_process\<close> counts them and \<open>idleproc\<close>.
\<close>

definition ptab_inv :: "'m kstate \<Rightarrow> bool" where
  "ptab_inv s \<longleftrightarrow> distinct (proc_list s) \<and> distinct (pids s) \<and> pid_inv s
     \<and> idleproc s \<notin> set (proc_list s)
     \<and> (\<forall>b. distinct (hash_list s b)
          \<and> set (hash_list s b) = {p \<in> set (proc_list s). pid_hashfn (pid (procs s p)) = b})
     \<and> nr_process s = int (length (proc_list s)) + 1"

lemma ptab_inv_hash:
  "ptab_inv s \<Longrightarrow> p \<in> set (hash_list s b) \<longleftrightarrow> p \<in> set (proc_list s) \<and> pid_hashfn (pid (procs s p)) = b"
  by (auto simp: ptab_inv_def)

lemma ptab_pid_inject:
  "ptab_inv s \<Longrightarrow> p \<in> set (proc_list s) \<Longrightarrow> q \<in> set (proc_list s)
    \<Longrightarrow> pid (procs s p) = pid (procs s q) \<Longrightarrow> p = q"
  by (auto simp: ptab_inv_def pids_def distinct_map dest: inj_onD)

lemma find_proc_Some:
  "find_proc i s = Some p \<Longrightarrow> p \<in> set (hash_list s (pid_hashfn i)) \<and> pid (procs s p) = i"
  by (auto simp: find_proc_def find_Some_iff split: if_splits)

lemma find_proc_iff:
  assumes "ptab_inv s"
  shows "find_proc i s = Some p \<longleftrightarrow> p \<in> set (proc_list s) \<and> pid (procs s p) = i"
proof
  assume "find_proc i s = Some p"
  from find_proc_Some [OF this] show "p \<in> set (proc_list s) \<and> pid (procs s p) = i"
    using ptab_inv_hash [OF assms] by auto
next
  assume p: "p \<in> set (proc_list s) \<and> pid (procs s p) = i"
  then have "0 < i" "i < MAX_PID" using assms by (auto simp: ptab_inv_def pid_inv_def pids_def)
  have "p \<in> set (hash_list s (pid_hashfn i))" using p ptab_inv_hash [OF assms] by auto
  then obtain q where q: "find (\<lambda>q. pid (procs s q) = i) (hash_list s (pid_hashfn i)) = Some q"
    using p by (cases "find (\<lambda>q. pid (procs s q) = i) (hash_list s (pid_hashfn i))")
      (auto simp: find_None_iff)
  then have "q \<in> set (proc_list s)" "pid (procs s q) = i"
    using ptab_inv_hash [OF assms, of q "pid_hashfn i"] nth_mem by (fastforce simp: find_Some_iff)+
  with p ptab_pid_inject [OF assms] have "q = p" by auto
  with q \<open>0 < i\<close> \<open>i < MAX_PID\<close> show "find_proc i s = Some p" by (simp add: find_proc_def)
qed

text \<open>What the table invariant looks at; a change elsewhere in the descriptors keeps it.\<close>

lemma ptab_inv_cong:
  assumes "ptab_inv s" "proc_list s' = proc_list s" "hash_list s' = hash_list s"
    and "\<And>p. pid (procs s' p) = pid (procs s p)" "idleproc s' = idleproc s"
    and "nr_process s' = nr_process s" "last_pid s' = last_pid s" "next_safe s' = next_safe s"
  shows "ptab_inv s'"
proof -
  have "pids s' = pids s" using assms(2,4) by (simp add: pids_def)
  with assms show ?thesis by (simp add: ptab_inv_def pid_inv_def)
qed

text \<open>The family operations change neither pids nor the hash lists.\<close>

lemma set_links_frame:
  assumes "set_links p s = Some s'"
  shows "proc_list s' = p # proc_list s" "hash_list s' = hash_list s" "nr_process s' = nr_process s + 1"
    "idleproc s' = idleproc s" "initproc s' = initproc s" "current s' = current s"
    "last_pid s' = last_pid s" "next_safe s' = next_safe s" "kmem s' = kmem s" "satp s' = satp s"
    "boot_cr3 s' = boot_cr3 s"
    and "pid (procs s' q) = pid (procs s q)" "state (procs s' q) = state (procs s q)"
    "parent (procs s' q) = parent (procs s q)"
  using assms by (auto simp: set_links_def Let_def split: option.splits)

lemma set_links_proc:
  assumes "set_links p s = Some s'"
  shows "wait_state (procs s' q) = wait_state (procs s q)" "tframe (procs s' q) = tframe (procs s q)"
    "tf (procs s' q) = tf (procs s q)" "p_context (procs s' q) = p_context (procs s q)"
    "kstack (procs s' q) = kstack (procs s q)" "p_mm (procs s' q) = p_mm (procs s q)"
    "p_flags (procs s' q) = p_flags (procs s q)" "exit_code (procs s' q) = exit_code (procs s q)"
  using assms by (auto simp: set_links_def Let_def split: option.splits)

lemma remove_links_proc:
  assumes "remove_links p s = Some s'"
  shows "wait_state (procs s' q) = wait_state (procs s q)" "kstack (procs s' q) = kstack (procs s q)"
    "p_mm (procs s' q) = p_mm (procs s q)" "p_flags (procs s' q) = p_flags (procs s q)"
    "exit_code (procs s' q) = exit_code (procs s q)"
  using assms by (auto simp: remove_links_def Let_def split: option.splits)

lemma remove_links_frame:
  assumes "remove_links p s = Some s'"
  shows "proc_list s' = remove1 p (proc_list s)" "hash_list s' = hash_list s"
    "nr_process s' = nr_process s - 1"
    "idleproc s' = idleproc s" "initproc s' = initproc s" "current s' = current s"
    "last_pid s' = last_pid s" "next_safe s' = next_safe s" "kmem s' = kmem s" "satp s' = satp s"
    and "pid (procs s' q) = pid (procs s q)" "state (procs s' q) = state (procs s q)"
    "parent (procs s' q) = parent (procs s q)"
  using assms by (auto simp: remove_links_def Let_def split: option.splits)

end
