(* ===== verification/Family.thy ===== *)
theory Family
  imports Proc_Table
begin

text \<open>
  The family tree that the pointers \<open>parent\<close>, \<open>cptr\<close>, \<open>yptr\<close> and \<open>optr\<close> of the process
  descriptors store, as the list of the children of every process, and what \<open>set_links\<close> and
  \<open>remove_links\<close> do to it.
\<close>

section \<open>The family tree\<close>

text \<open>
  \<open>sibs ps par y h xs\<close>: from the pointer \<open>h\<close> along \<open>optr\<close> lie the children \<open>xs\<close> of \<open>par\<close>,
  youngest first, each \<open>yptr\<close> pointing back, the first one to \<open>y\<close>. \<open>family A ps ch\<close>: the
  children of every process \<open>p\<close> of \<open>A\<close> are the list \<open>ch p\<close>, starting at its \<open>cptr\<close>, and lie in
  \<open>A\<close>.
\<close>

fun sibs :: "(pptr \<Rightarrow> proc_struct) \<Rightarrow> pptr \<Rightarrow> pptr option \<Rightarrow> pptr option \<Rightarrow> pptr list \<Rightarrow> bool" where
  "sibs ps par y h [] \<longleftrightarrow> h = None"
| "sibs ps par y h (x # xs) \<longleftrightarrow> h = Some x \<and> yptr (ps x) = y \<and> parent (ps x) = Some par
     \<and> sibs ps par (Some x) (optr (ps x)) xs"

definition family :: "pptr set \<Rightarrow> (pptr \<Rightarrow> proc_struct) \<Rightarrow> (pptr \<Rightarrow> pptr list) \<Rightarrow> bool" where
  "family A ps ch \<longleftrightarrow>
     (\<forall>p \<in> A. sibs ps p None (cptr (ps p)) (ch p) \<and> distinct (ch p) \<and> set (ch p) \<subseteq> A)
     \<and> (\<forall>p. p \<notin> A \<longrightarrow> ch p = [])"

lemma sibs_cong:
  assumes "\<And>x. x \<in> set xs \<Longrightarrow> yptr (ps' x) = yptr (ps x) \<and> optr (ps' x) = optr (ps x)
      \<and> parent (ps' x) = parent (ps x)"
  shows "sibs ps' par y h xs \<longleftrightarrow> sibs ps par y h xs"
  using assms by (induction xs arbitrary: y h) auto

lemma sibs_parent: "sibs ps par y h xs \<Longrightarrow> x \<in> set xs \<Longrightarrow> parent (ps x) = Some par"
  by (induction xs arbitrary: y h) auto

lemma family_distinct: "family A ps ch \<Longrightarrow> distinct (ch p)"
  by (cases "p \<in> A") (auto simp: family_def)

lemma family_parent: "family A ps ch \<Longrightarrow> x \<in> set (ch p) \<Longrightarrow> parent (ps x) = Some p"
  by (cases "p \<in> A") (auto simp: family_def intro: sibs_parent)

lemma family_mem: "family A ps ch \<Longrightarrow> x \<in> set (ch p) \<Longrightarrow> x \<in> A \<and> p \<in> A"
  by (cases "p \<in> A") (auto simp: family_def)

lemma family_disjoint:
  assumes "family A ps ch" "x \<in> set (ch p)" "x \<in> set (ch q)"
  shows "p = q"
  using family_parent [OF assms(1,2)] family_parent [OF assms(1,3)] by simp

lemma family_cong:
  assumes "family A ps ch"
    and "\<And>p. p \<in> A \<Longrightarrow> yptr (ps' p) = yptr (ps p) \<and> optr (ps' p) = optr (ps p)
      \<and> parent (ps' p) = parent (ps p) \<and> cptr (ps' p) = cptr (ps p)"
  shows "family A ps' ch"
proof -
  have "sibs ps' p None (cptr (ps' p)) (ch p)" if "p \<in> A" for p
  proof -
    have "sibs ps' p None (cptr (ps p)) (ch p) \<longleftrightarrow> sibs ps p None (cptr (ps p)) (ch p)"
      using assms that by (intro sibs_cong) (auto simp: family_def)
    then show ?thesis using assms that by (simp add: family_def)
  qed
  with assms(1) show ?thesis by (simp add: family_def)
qed

text \<open>A new process has no children; one without children can go.\<close>

lemma family_insert:
  assumes "family A ps ch" "p \<notin> A" "cptr (ps p) = None"
  shows "family (insert p A) ps ch"
proof -
  have "ch p = []" using assms(1,2) by (simp add: family_def)
  with assms show ?thesis by (auto simp: family_def)
qed

lemma family_Diff:
  assumes "family A ps ch" "ch p = []" "\<And>q. p \<notin> set (ch q)"
  shows "family (A - {p}) ps ch"
  using assms by (auto simp: family_def)

text \<open>\<open>set_links\<close> makes a process the youngest child of its parent.\<close>

lemma family_set_links:
  assumes fam: "family A (procs s) ch" and new: "\<And>q. p \<notin> set (ch q)"
    and par: "parent (procs s p) = Some par" "p \<noteq> par" and mem: "p \<in> A" "par \<in> A"
  shows "\<exists>s'. set_links p s = Some s' \<and> family A (procs s') (ch(par := p # ch par))"
proof -
  let ?ps = "procs s"
  obtain s' where s': "set_links p s = Some s'" using par(1) by (simp add: set_links_def Let_def)
  let ?ps' = "procs s'"
  have sp: "q \<in> A \<Longrightarrow> sibs ?ps q None (cptr (?ps q)) (ch q)" "distinct (ch q)" for q
    using fam family_distinct [OF fam] by (auto simp: family_def)
  note sibp = sp(1) [OF mem(2)]
  have head: "cptr (?ps par) = (case ch par of [] \<Rightarrow> None | x # _ \<Rightarrow> Some x)"
    using sibp by (cases "ch par") auto
  have hp: "cptr (?ps par) \<noteq> Some p" using head new [of par] by (auto split: list.splits)
  have c: "cptr (?ps' q) = (if q = par then Some p else cptr (?ps q))" for q
    using s' par by (auto simp: set_links_def Let_def split: option.splits)
  have fr: "yptr (?ps' x) = yptr (?ps x) \<and> optr (?ps' x) = optr (?ps x) \<and> parent (?ps' x) = parent (?ps x)"
    if "x \<noteq> p" "cptr (?ps par) \<noteq> Some x" for x
    using s' par that by (auto simp: set_links_def Let_def split: option.splits)
  have pf: "yptr (?ps' p) = None" "optr (?ps' p) = cptr (?ps par)" "parent (?ps' p) = Some par"
    using s' par hp by (auto simp: set_links_def Let_def split: option.splits)
  have hf: "yptr (?ps' x) = Some p" "optr (?ps' x) = optr (?ps x)" "parent (?ps' x) = parent (?ps x)"
    if "cptr (?ps par) = Some x" for x
    using s' par that hp by (auto simp: set_links_def Let_def split: option.splits)
  have "sibs ?ps' q None (cptr (?ps' q)) ((ch(par := p # ch par)) q)" if "q \<in> A" for q
  proof (cases "q = par")
    case True
    have "sibs ?ps' par (Some p) (cptr (?ps par)) (ch par)"
    proof (cases "ch par")
      case Nil
      with head show ?thesis by simp
    next
      case (Cons x xs)
      with head have cx: "cptr (?ps par) = Some x" by simp
      have "sibs ?ps par (Some x) (optr (?ps x)) xs" using sibp Cons by simp
      moreover have "sibs ?ps' par (Some x) (optr (?ps x)) xs \<longleftrightarrow> sibs ?ps par (Some x) (optr (?ps x)) xs"
        using sp(2) [of par] Cons new [of par] cx by (intro sibs_cong fr) auto
      ultimately show ?thesis
        using Cons cx hf [OF cx] sibp by simp
    qed
    with True c pf show ?thesis by simp
  next
    case False
    have "sibs ?ps' q None (cptr (?ps q)) (ch q) \<longleftrightarrow> sibs ?ps q None (cptr (?ps q)) (ch q)"
    proof (intro sibs_cong fr)
      fix x assume x: "x \<in> set (ch q)"
      with new show "x \<noteq> p" by auto
      show "cptr (?ps par) \<noteq> Some x"
        using head family_disjoint [OF fam x, of par] False by (auto split: list.splits)
    qed
    with sp(1) [OF that] False c show ?thesis by simp
  qed
  with sp(2) new s' fam mem show ?thesis by (auto simp: family_def)
qed

text \<open>One child in the middle of its siblings.\<close>

lemma sibs_head: "sibs ps par y h xs \<Longrightarrow> h = (case xs of [] \<Rightarrow> None | x # _ \<Rightarrow> Some x)"
  by (cases xs) auto

lemma sibs_tail: "sibs ps par y h (as @ x # bs) \<Longrightarrow> sibs ps par (Some x) (optr (ps x)) bs"
  by (induction as arbitrary: y h) auto

lemma sibs_yptr:
  "sibs ps par y h (as @ x # bs) \<Longrightarrow> yptr (ps x) = (if as = [] then y else Some (last as))"
  by (induction as arbitrary: y h) auto

lemma sibs_remove:
  assumes "sibs ps par y h (as @ x # bs)" "distinct (as @ x # bs)"
    and "\<And>z. z \<in> set as \<Longrightarrow> yptr (ps' z) = yptr (ps z) \<and> parent (ps' z) = parent (ps z)"
    and "\<And>z. z \<in> set as \<Longrightarrow> optr (ps' z) = (if z = last as then optr (ps x) else optr (ps z))"
    and "\<And>z. z \<in> set bs \<Longrightarrow> optr (ps' z) = optr (ps z) \<and> parent (ps' z) = parent (ps z)"
    and "\<And>z. z \<in> set bs \<Longrightarrow> yptr (ps' z) = (if z = hd bs then yptr (ps x) else yptr (ps z))"
  shows "sibs ps' par y (if as = [] then optr (ps x) else h) (as @ bs)"
  using assms
proof (induction as arbitrary: y h)
  case Nil
  show ?case
  proof (cases bs)
    case Nil
    with \<open>sibs ps par y h ([] @ x # bs)\<close> show ?thesis by simp
  next
    case (Cons b cs)
    have "sibs ps' par (Some b) (optr (ps b)) cs \<longleftrightarrow> sibs ps par (Some b) (optr (ps b)) cs"
      using Nil.prems(2,5,6) Cons by (intro sibs_cong) auto
    with Nil.prems Cons show ?thesis by auto
  qed
next
  case (Cons a as)
  have "a \<notin> set as" using Cons.prems(2) by simp
  then have ne: "as = [] \<or> a \<noteq> last as" using last_in_set by blast
  have "sibs ps' par (Some a) (if as = [] then optr (ps x) else optr (ps a)) (as @ bs)"
  proof (rule Cons.IH)
    show "sibs ps par (Some a) (optr (ps a)) (as @ x # bs)" using Cons.prems(1) by simp
    show "distinct (as @ x # bs)" using Cons.prems(2) by simp
    show "optr (ps' z) = (if z = last as then optr (ps x) else optr (ps z))" if "z \<in> set as" for z
      using Cons.prems(4) [of z] that by auto
    show "yptr (ps' z) = yptr (ps z) \<and> parent (ps' z) = parent (ps z)" if "z \<in> set as" for z
      using Cons.prems(3) [of z] that by simp
  qed (fact Cons.prems(5), fact Cons.prems(6))
  moreover have "optr (ps' a) = (if as = [] then optr (ps x) else optr (ps a))"
    using Cons.prems(4) [of a] ne by auto
  moreover have "yptr (ps' a) = yptr (ps a) \<and> parent (ps' a) = parent (ps a)"
    using Cons.prems(3) [of a] by simp
  ultimately show ?case using Cons.prems(1) by simp
qed

text \<open>The descriptors after \<open>remove_links\<close>.\<close>

definition unlinked :: "pptr \<Rightarrow> pptr \<Rightarrow> (pptr \<Rightarrow> proc_struct) \<Rightarrow> pptr \<Rightarrow> proc_struct" where
  "unlinked p par ps z = (ps z)
     \<lparr>yptr := if optr (ps p) = Some z then yptr (ps p) else yptr (ps z),
      optr := if yptr (ps p) = Some z then optr (ps p) else optr (ps z),
      cptr := if yptr (ps p) = None \<and> z = par then optr (ps p) else cptr (ps z)\<rparr>"

lemma remove_links_eq:
  assumes "parent (procs s p) = Some par" "optr (procs s p) \<noteq> Some p" "yptr (procs s p) \<noteq> Some p"
  shows "\<exists>s'. remove_links p s = Some s' \<and> procs s' = unlinked p par (procs s)"
  using assms
  by (cases "optr (procs s p)"; cases "yptr (procs s p)")
    (auto simp: remove_links_def unlinked_def Let_def fun_eq_iff)

text \<open>\<open>remove_links\<close> takes a child out from among its siblings.\<close>

lemma family_remove_links:
  assumes fam: "family A (procs s) ch" and par: "ch par = as @ p # bs"
  shows "\<exists>s'. remove_links p s = Some s' \<and> family A (procs s') (ch(par := as @ bs))"
proof -
  let ?ps = "procs s"
  have sp: "q \<in> A \<Longrightarrow> sibs ?ps q None (cptr (?ps q)) (ch q)" "distinct (ch q)" for q
    using fam family_distinct [OF fam] by (auto simp: family_def)
  have mem: "par \<in> A" using family_mem [OF fam, of p par] par by simp
  have sib: "sibs ?ps par None (cptr (?ps par)) (as @ p # bs)" using sp(1) [OF mem] par by simp
  have d: "distinct (as @ p # bs)" using sp(2) [of par] par by simp
  have pp: "parent (?ps p) = Some par" using family_parent [OF fam, of p par] par by simp
  have yp: "yptr (?ps p) = (if as = [] then None else Some (last as))" by (rule sibs_yptr [OF sib])
  have op: "optr (?ps p) = (case bs of [] \<Rightarrow> None | b # _ \<Rightarrow> Some b)"
    by (rule sibs_head [OF sibs_tail [OF sib]])
  have la: "as \<noteq> [] \<Longrightarrow> last as \<in> set as" by simp
  have "optr (?ps p) \<noteq> Some p" using op d by (auto split: list.splits)
  moreover have "yptr (?ps p) \<noteq> Some p" using yp d la by auto
  ultimately obtain s' where s': "remove_links p s = Some s'" "procs s' = unlinked p par ?ps"
    using remove_links_eq [OF pp] by auto
  let ?ps' = "procs s'"
  have y: "yptr (?ps' z) = (if optr (?ps p) = Some z then yptr (?ps p) else yptr (?ps z))"
    and o: "optr (?ps' z) = (if yptr (?ps p) = Some z then optr (?ps p) else optr (?ps z))"
    and c: "cptr (?ps' z) = (if yptr (?ps p) = None \<and> z = par then optr (?ps p) else cptr (?ps z))"
    and pr: "parent (?ps' z) = parent (?ps z)" for z
    by (simp_all add: s'(2) unlinked_def)
  have oin: "optr (?ps p) = Some z \<Longrightarrow> z \<in> set bs \<and> z = hd bs" for z
    using op by (cases bs) auto
  have yin: "yptr (?ps p) = Some z \<Longrightarrow> z \<in> set as \<and> z = last as" for z
    using yp la by (auto split: if_splits)
  have "sibs ?ps' q None (cptr (?ps' q)) ((ch(par := as @ bs)) q)" if "q \<in> A" for q
  proof (cases "q = par")
    case True
    have "sibs ?ps' par None (if as = [] then optr (?ps p) else cptr (?ps par)) (as @ bs)"
    proof (rule sibs_remove [OF sib d])
      show "yptr (?ps' z) = yptr (?ps z) \<and> parent (?ps' z) = parent (?ps z)" if "z \<in> set as" for z
        using y pr oin [of z] d that by auto
      show "optr (?ps' z) = (if z = last as then optr (?ps p) else optr (?ps z))" if "z \<in> set as" for z
        using o [of z] yp that by auto
      show "optr (?ps' z) = optr (?ps z) \<and> parent (?ps' z) = parent (?ps z)" if "z \<in> set bs" for z
        using o pr yin [of z] d that by auto
      show "yptr (?ps' z) = (if z = hd bs then yptr (?ps p) else yptr (?ps z))" if "z \<in> set bs" for z
        using y [of z] op that by (cases bs) auto
    qed
    moreover have "cptr (?ps' par) = (if as = [] then optr (?ps p) else cptr (?ps par))"
      using c [of par] yp by simp
    ultimately show ?thesis using True by simp
  next
    case False
    have "sibs ?ps' q None (cptr (?ps q)) (ch q) \<longleftrightarrow> sibs ?ps q None (cptr (?ps q)) (ch q)"
    proof (rule sibs_cong)
      fix x assume "x \<in> set (ch q)"
      then have "x \<notin> set (ch par)" using family_disjoint [OF fam] False by blast
      then show "yptr (?ps' x) = yptr (?ps x) \<and> optr (?ps' x) = optr (?ps x) \<and> parent (?ps' x) = parent (?ps x)"
        using par y o pr oin [of x] yin [of x] by auto
    qed
    with sp(1) [OF that] False c show ?thesis by simp
  qed
  moreover have "set (ch par) \<subseteq> A" using fam mem by (simp add: family_def)
  then have "set as \<subseteq> A" "set bs \<subseteq> A" using par by auto
  ultimately show ?thesis using sp(2) d s' fam mem by (auto simp: family_def)
qed

end
