(* ===== verification/Process.thy ===== *)
theory Process
  imports Family
begin

text \<open>
  The operations of \<open>lab5/kern/process/proc.c\<close> and \<open>lab5/kern/schedule/sched.c\<close>: creation,
  exit, wait, kill and exec of processes, and the scheduler that picks the next one. The memory
  subsystem they call is the record \<open>mem_ops\<close> of its operations, which every definition takes
  as an argument. A \<open>panic\<close>, a failed \<open>assert\<close> and a \<open>NULL\<close> dereference are \<open>None\<close>.
\<close>

section \<open>The operations of the memory subsystem\<close>

text \<open>
  \<open>kmalloc\<close> and \<open>kfree\<close> of a \<open>struct proc_struct\<close>, the pages of a kernel stack, and the
  functions on a \<open>struct mm_struct\<close>. Pointers to the latter are numbers. \<open>mm_cr3\<close> is
  \<open>PADDR(mm->pgdir)\<close>; \<open>load_icode_op\<close> is \<open>load_icode\<close> of the binary at an address, up to the
  new value of \<open>current->mm\<close>, with the entry point.
\<close>

record 'm mem_ops =
  kmalloc_proc :: "'m \<Rightarrow> pptr option \<times> 'm"
  kfree_proc :: "pptr \<Rightarrow> 'm \<Rightarrow> 'm"
  alloc_stack :: "'m \<Rightarrow> u64 option \<times> 'm"
  free_stack :: "u64 \<Rightarrow> 'm \<Rightarrow> 'm option"
  mm_create_op :: "'m \<Rightarrow> nat option \<times> 'm"
  mm_destroy_op :: "nat \<Rightarrow> 'm \<Rightarrow> 'm option"
  mm_count_inc_op :: "nat \<Rightarrow> 'm \<Rightarrow> 'm"
  mm_count_dec_op :: "nat \<Rightarrow> 'm \<Rightarrow> int \<times> 'm"
  setup_pgdir_op :: "nat \<Rightarrow> 'm \<Rightarrow> int \<times> 'm"
  put_pgdir_op :: "nat \<Rightarrow> 'm \<Rightarrow> 'm option"
  dup_mmap_op :: "nat \<Rightarrow> nat \<Rightarrow> 'm \<Rightarrow> (int \<times> 'm) option"
  exit_mmap_op :: "nat \<Rightarrow> 'm \<Rightarrow> 'm option"
  mm_cr3 :: "nat \<Rightarrow> 'm \<Rightarrow> u64"
  user_mem_check_op :: "nat option \<Rightarrow> u64 \<Rightarrow> u64 \<Rightarrow> bool \<Rightarrow> 'm \<Rightarrow> bool"
  load_user_byte :: "nat option \<Rightarrow> u64 \<Rightarrow> 'm \<Rightarrow> u8"
  store_user_int :: "nat option \<Rightarrow> u64 \<Rightarrow> int \<Rightarrow> 'm \<Rightarrow> 'm"
  load_icode_op :: "u64 \<Rightarrow> u64 \<Rightarrow> 'm \<Rightarrow> ((int \<times> nat option \<times> u64) \<times> 'm) option"

text \<open>Link-time addresses, and the \<open>sstatus\<close> register of the moment.\<close>

record kimage =
  kernel_thread_entry :: u64
  forkret :: u64
  bootstack :: u64
  sstatus :: u64

definition KSTACKSIZE :: u64 where "KSTACKSIZE = 8192"

definition TRAPFRAME_SIZE :: u64 where "TRAPFRAME_SIZE = 288"

definition SSTATUS_SIE :: u64 where "SSTATUS_SIE = 2"

definition SSTATUS_SPIE :: u64 where "SSTATUS_SPIE = 0x20"

definition SSTATUS_SPP :: u64 where "SSTATUS_SPP = 0x100"

definition CLONE_VM :: u32 where "CLONE_VM = 0x100"

definition USTACKTOP :: u64 where "USTACKTOP = 0x80000000"

section \<open>Scheduling\<close>

definition lcr3 :: "u64 \<Rightarrow> 'm kstate \<Rightarrow> 'm kstate" where
  "lcr3 cr3 s = s\<lparr>satp := 0x8000000000000000 OR drop_bit 12 cr3\<rparr>"

definition wakeup_proc :: "pptr \<Rightarrow> 'm kstate \<Rightarrow> 'm kstate option" where
  "wakeup_proc p s =
     (if state (procs s p) = PROC_ZOMBIE then None
      else if state (procs s p) \<noteq> PROC_RUNNABLE
        then Some (upd_proc p (\<lambda>d. d\<lparr>state := PROC_RUNNABLE, wait_state := 0\<rparr>) s)
        else Some s)"

text \<open>\<open>switch_to\<close> saves the registers in the first context and loads those of the second.\<close>

definition switch_to :: "pptr \<Rightarrow> pptr \<Rightarrow> 'm kstate \<Rightarrow> 'm kstate" where
  "switch_to prev to s =
     (let s1 = upd_proc prev (\<lambda>d. d\<lparr>p_context := cpu s\<rparr>) s
      in s1\<lparr>cpu := p_context (procs s1 to)\<rparr>)"

definition proc_run :: "pptr \<Rightarrow> 'm kstate \<Rightarrow> 'm kstate" where
  "proc_run p s =
     (if p \<noteq> current s
      then switch_to (current s) p (lcr3 (p_cr3 (procs s p)) (s\<lparr>current := p\<rparr>))
      else s)"

text \<open>
  The order in which \<open>schedule\<close> visits the processes: around the circular list, from behind
  the current process up to and including it; the whole list when the idle process runs.
\<close>

definition sched_order :: "'m kstate \<Rightarrow> pptr list option" where
  "sched_order s =
     (if current s = idleproc s then Some (proc_list s)
      else if current s \<in> set (proc_list s)
      then Some (tl (dropWhile (\<lambda>p. p \<noteq> current s) (proc_list s))
                 @ takeWhile (\<lambda>p. p \<noteq> current s) (proc_list s) @ [current s])
      else None)"

text \<open>The \<open>do\<close> loop: \<open>next\<close> is the last process looked at.\<close>

fun sched_scan :: "'m kstate \<Rightarrow> pptr option \<Rightarrow> pptr list \<Rightarrow> pptr option" where
  "sched_scan s nxt [] = nxt"
| "sched_scan s nxt (p # ps) =
     (if state (procs s p) = PROC_RUNNABLE then Some p else sched_scan s (Some p) ps)"

definition schedule :: "'m kstate \<Rightarrow> 'm kstate option" where
  "schedule s =
     (let s1 = upd_proc (current s) (\<lambda>d. d\<lparr>need_resched := False\<rparr>) s
      in case sched_order s1 of
           None \<Rightarrow> None
         | Some order \<Rightarrow>
             let nxt = (case sched_scan s1 None order of
                           None \<Rightarrow> idleproc s1
                         | Some p \<Rightarrow> if state (procs s1 p) = PROC_RUNNABLE then p else idleproc s1);
                 s2 = upd_proc nxt (\<lambda>d. d\<lparr>runs := runs d + 1\<rparr>) s1
             in Some (if nxt \<noteq> current s2 then proc_run nxt s2 else s2))"

section \<open>Creation\<close>

definition alloc_proc :: "'m mem_ops \<Rightarrow> 'm kstate \<Rightarrow> pptr option \<times> 'm kstate" where
  "alloc_proc ops s =
     (case kmalloc_proc ops (kmem s) of
        (None, m) \<Rightarrow> (None, s\<lparr>kmem := m\<rparr>)
      | (Some p, m) \<Rightarrow>
          (Some p, upd_proc p (\<lambda>_. zero_proc\<lparr>state := PROC_UNINIT, pid := - 1, p_cr3 := boot_cr3 s\<rparr>)
             (s\<lparr>kmem := m\<rparr>)))"

definition setup_kstack :: "'m mem_ops \<Rightarrow> pptr \<Rightarrow> 'm kstate \<Rightarrow> int \<times> 'm kstate" where
  "setup_kstack ops p s =
     (case alloc_stack ops (kmem s) of
        (Some kva, m) \<Rightarrow> (0, upd_proc p (\<lambda>d. d\<lparr>kstack := kva\<rparr>) (s\<lparr>kmem := m\<rparr>))
      | (None, m) \<Rightarrow> (- errno_val E_NO_MEM, s\<lparr>kmem := m\<rparr>))"

text \<open>\<open>kva2page\<close> goes through \<open>PADDR\<close>, which panics below \<open>KERNBASE\<close>.\<close>

definition put_kstack :: "'m mem_ops \<Rightarrow> pptr \<Rightarrow> 'm kstate \<Rightarrow> 'm kstate option" where
  "put_kstack ops p s =
     (if kstack (procs s p) < KERNBASE then None
      else map_option (\<lambda>m. s\<lparr>kmem := m\<rparr>) (free_stack ops (kstack (procs s p)) (kmem s)))"

definition good_mm :: "'m mem_ops \<Rightarrow> nat \<Rightarrow> pptr \<Rightarrow> 'm kstate \<Rightarrow> 'm kstate" where
  "good_mm ops mm p s =
     (let m = mm_count_inc_op ops mm (kmem s)
      in upd_proc p (\<lambda>d. d\<lparr>p_mm := Some mm, p_cr3 := mm_cr3 ops mm m\<rparr>) (s\<lparr>kmem := m\<rparr>))"

text \<open>
  \<open>lock_mm\<close> and \<open>unlock_mm\<close> bracket \<open>dup_mmap\<close>; on the one processor of the kernel, with
  nobody else inside, they leave the lock as it was.
\<close>

definition copy_mm :: "'m mem_ops \<Rightarrow> u32 \<Rightarrow> pptr \<Rightarrow> 'm kstate \<Rightarrow> (int \<times> 'm kstate) option" where
  "copy_mm ops clone_flags p s =
     (case p_mm (procs s (current s)) of
        None \<Rightarrow> Some (0, s)
      | Some oldmm \<Rightarrow>
          if clone_flags AND CLONE_VM \<noteq> 0 then Some (0, good_mm ops oldmm p s)
          else (case mm_create_op ops (kmem s) of
              (None, m) \<Rightarrow> Some (- errno_val E_NO_MEM, s\<lparr>kmem := m\<rparr>)
            | (Some mm, m) \<Rightarrow>
                (case setup_pgdir_op ops mm m of (r, m1) \<Rightarrow>
                   if r \<noteq> 0
                   then map_option (\<lambda>m2. (- errno_val E_NO_MEM, s\<lparr>kmem := m2\<rparr>)) (mm_destroy_op ops mm m1)
                   else (case dup_mmap_op ops mm oldmm m1 of
                       None \<Rightarrow> None
                     | Some (ret, m2) \<Rightarrow>
                         if ret \<noteq> 0
                         then map_option (\<lambda>m3. (ret, s\<lparr>kmem := m3\<rparr>))
                           (Option.bind (exit_mmap_op ops mm m2) (\<lambda>m3.
                            Option.bind (put_pgdir_op ops mm m3) (mm_destroy_op ops mm)))
                         else Some (0, good_mm ops mm p (s\<lparr>kmem := m2\<rparr>))))))"

definition copy_thread :: "kimage \<Rightarrow> pptr \<Rightarrow> u64 \<Rightarrow> trapframe \<Rightarrow> 'm kstate \<Rightarrow> 'm kstate" where
  "copy_thread img p esp t s =
     upd_proc p (\<lambda>d.
       let addr = kstack d + KSTACKSIZE - TRAPFRAME_SIZE;
           sp = (if esp = 0 then addr else esp)
       in d\<lparr>tf := addr,
            tframe := t\<lparr>gpr := (gpr t)(REG_A0 := 0, REG_SP := sp)\<rparr>,
            p_context := (p_context d)\<lparr>c_ra := forkret img, c_sp := addr\<rparr>\<rparr>) s"

definition set_pid :: "pptr \<Rightarrow> int \<Rightarrow> 'm kstate \<Rightarrow> 'm kstate" where
  "set_pid p i s = upd_proc p (\<lambda>d. d\<lparr>pid := i\<rparr>) s"

text \<open>
  \<open>do_fork\<close>. The two labels are as in the code: a failed \<open>setup_kstack\<close> goes to
  \<open>bad_fork_cleanup_kstack\<close>, a failed \<open>copy_mm\<close> to \<open>bad_fork_cleanup_proc\<close>.
\<close>

definition do_fork :: "'m mem_ops \<Rightarrow> kimage \<Rightarrow> u32 \<Rightarrow> u64 \<Rightarrow> trapframe \<Rightarrow> 'm kstate
    \<Rightarrow> (int \<times> 'm kstate) option" where
  "do_fork ops img clone_flags stack t s =
     (if nr_process s \<ge> MAX_PROCESS then Some (- errno_val E_NO_FREE_PROC, s)
      else (case alloc_proc ops s of
          (None, s1) \<Rightarrow> Some (- errno_val E_NO_MEM, s1)
        | (Some p, s1) \<Rightarrow>
            let s2 = upd_proc p (\<lambda>d. d\<lparr>parent := Some (current s1)\<rparr>) s1
            in (case setup_kstack ops p s2 of (r, s3) \<Rightarrow>
                 if r \<noteq> 0
                 then map_option (\<lambda>s4. (- errno_val E_NO_MEM, s4\<lparr>kmem := kfree_proc ops p (kmem s4)\<rparr>))
                        (put_kstack ops p s3)
                 else (case copy_mm ops clone_flags p s3 of
                     None \<Rightarrow> None
                   | Some (r1, s4) \<Rightarrow>
                       if r1 \<noteq> 0
                       then Some (- errno_val E_NO_MEM, s4\<lparr>kmem := kfree_proc ops p (kmem s4)\<rparr>)
                       else (case get_pid (copy_thread img p stack t s4) of
                           None \<Rightarrow> None
                         | Some (i, s5) \<Rightarrow>
                             (case set_links p (hash_proc p (set_pid p i s5)) of
                                None \<Rightarrow> None
                              | Some s6 \<Rightarrow>
                                  map_option (\<lambda>s7. (pid (procs s7 p), s7)) (wakeup_proc p s6)))))))"

definition kernel_thread :: "'m mem_ops \<Rightarrow> kimage \<Rightarrow> u64 \<Rightarrow> u64 \<Rightarrow> u32 \<Rightarrow> 'm kstate
    \<Rightarrow> (int \<times> 'm kstate) option" where
  "kernel_thread ops img fn arg clone_flags s =
     do_fork ops img (clone_flags OR CLONE_VM) 0
       (zero_tf\<lparr>gpr := (gpr zero_tf)(REG_S0 := fn, REG_S1 := arg),
          tf_status := (sstatus img OR SSTATUS_SPP OR SSTATUS_SPIE) AND NOT SSTATUS_SIE,
          tf_epc := kernel_thread_entry img\<rparr>) s"

section \<open>Exit\<close>

text \<open>
  One turn of the loop of \<open>do_exit\<close>, which hands the first child of the current process to
  \<open>initproc\<close>, and the loop. It does not return when the children form a cycle.
\<close>

definition reparent_step :: "pptr \<Rightarrow> 'm kstate \<Rightarrow> 'm kstate option" where
  "reparent_step p s =
     (let cur = current s; init = initproc s;
          s1 = upd_proc cur (\<lambda>d. d\<lparr>cptr := optr (procs s p)\<rparr>) s;
          s2 = upd_proc p (\<lambda>d. d\<lparr>yptr := None\<rparr>) s1;
          s3 = upd_proc p (\<lambda>d. d\<lparr>optr := cptr (procs s2 init)\<rparr>) s2;
          s4 = (case optr (procs s3 p) of None \<Rightarrow> s3
                | Some _ \<Rightarrow> (case cptr (procs s3 init) of None \<Rightarrow> s3
                             | Some q \<Rightarrow> upd_proc q (\<lambda>d. d\<lparr>yptr := Some p\<rparr>) s3));
          s5 = upd_proc p (\<lambda>d. d\<lparr>parent := Some init\<rparr>) s4;
          s6 = upd_proc init (\<lambda>d. d\<lparr>cptr := Some p\<rparr>) s5
      in if state (procs s6 p) = PROC_ZOMBIE \<and> wait_state (procs s6 init) = WT_CHILD
         then wakeup_proc init s6 else Some s6)"

partial_function (option) reparent_loop :: "'m kstate \<Rightarrow> 'm kstate option" where
  "reparent_loop s =
     (case cptr (procs s (current s)) of
        None \<Rightarrow> Some s
      | Some p \<Rightarrow> Option.bind (reparent_step p s) reparent_loop)"

declare reparent_loop.simps [code]

definition release_mm :: "'m mem_ops \<Rightarrow> nat \<Rightarrow> 'm kstate \<Rightarrow> 'm kstate option" where
  "release_mm ops mm s =
     (case mm_count_dec_op ops mm (kmem (lcr3 (boot_cr3 s) s)) of (c, m) \<Rightarrow>
        map_option (\<lambda>m'. upd_proc (current s) (\<lambda>d. d\<lparr>p_mm := None\<rparr>) ((lcr3 (boot_cr3 s) s)\<lparr>kmem := m'\<rparr>))
          (if c = 0
           then Option.bind (exit_mmap_op ops mm m) (\<lambda>m1.
                Option.bind (put_pgdir_op ops mm m1) (mm_destroy_op ops mm))
           else Some m))"

text \<open>\<open>do_exit\<close> up to its call of \<open>schedule\<close>, and with it.\<close>

definition exit_prepare :: "'m mem_ops \<Rightarrow> int \<Rightarrow> 'm kstate \<Rightarrow> 'm kstate option" where
  "exit_prepare ops error_code s =
     (if current s = idleproc s \<or> current s = initproc s then None
      else Option.bind
        (case p_mm (procs s (current s)) of None \<Rightarrow> Some s | Some mm \<Rightarrow> release_mm ops mm s) (\<lambda>s1.
        let s2 = upd_proc (current s1) (\<lambda>d. d\<lparr>state := PROC_ZOMBIE, exit_code := error_code\<rparr>) s1
        in case parent (procs s2 (current s2)) of
             None \<Rightarrow> None
           | Some par \<Rightarrow>
               Option.bind (if wait_state (procs s2 par) = WT_CHILD then wakeup_proc par s2 else Some s2)
                 reparent_loop))"

definition do_exit :: "'m mem_ops \<Rightarrow> int \<Rightarrow> 'm kstate \<Rightarrow> 'm kstate option" where
  "do_exit ops error_code s = Option.bind (exit_prepare ops error_code s) schedule"

section \<open>Wait and kill\<close>

text \<open>The children of the current process from the pointer \<open>h\<close> on, to the first zombie.\<close>

partial_function (option) wait_children :: "(pptr \<Rightarrow> proc_struct) \<Rightarrow> pptr option \<Rightarrow> bool
    \<Rightarrow> (pptr option \<times> bool) option" where
  "wait_children ps h haskid =
     (case h of
        None \<Rightarrow> Some (None, haskid)
      | Some p \<Rightarrow> if state (ps p) = PROC_ZOMBIE then Some (Some p, True)
                  else wait_children ps (optr (ps p)) True)"

declare wait_children.simps [code]

definition wait_scan :: "int \<Rightarrow> 'm kstate \<Rightarrow> (pptr option \<times> bool) option" where
  "wait_scan i s =
     (if i \<noteq> 0
      then (case find_proc i s of
              None \<Rightarrow> Some (None, False)
            | Some p \<Rightarrow>
                if parent (procs s p) = Some (current s)
                then Some (if state (procs s p) = PROC_ZOMBIE then Some p else None, True)
                else Some (None, False))
      else wait_children (procs s) (cptr (procs s (current s))) False)"

definition reap :: "'m mem_ops \<Rightarrow> u64 \<Rightarrow> pptr \<Rightarrow> 'm kstate \<Rightarrow> 'm kstate option" where
  "reap ops code_store p s =
     (if p = idleproc s \<or> p = initproc s then None
      else let s1 = (if code_store \<noteq> 0
                     then s\<lparr>kmem := store_user_int ops (p_mm (procs s (current s))) code_store
                               (exit_code (procs s p)) (kmem s)\<rparr>
                     else s)
           in Option.bind (remove_links p (unhash_proc p s1)) (\<lambda>s2.
              Option.bind (put_kstack ops p s2) (\<lambda>s3.
              Some (s3\<lparr>kmem := kfree_proc ops p (kmem s3)\<rparr>))))"

text \<open>
  \<open>do_wait\<close> either returns, or puts the caller to sleep and switches away; \<open>wait_resume\<close> is
  what the caller does when it runs again.
\<close>

datatype 'm wait_outcome = Returned int "'m kstate" | Blocked "'m kstate"

definition wait_repeat :: "'m mem_ops \<Rightarrow> int \<Rightarrow> u64 \<Rightarrow> 'm kstate \<Rightarrow> 'm wait_outcome option" where
  "wait_repeat ops i code_store s =
     (case wait_scan i s of
        None \<Rightarrow> None
      | Some (Some p, _) \<Rightarrow> map_option (Returned 0) (reap ops code_store p s)
      | Some (None, True) \<Rightarrow>
          map_option Blocked (schedule (upd_proc (current s)
            (\<lambda>d. d\<lparr>state := PROC_SLEEPING, wait_state := WT_CHILD\<rparr>) s))
      | Some (None, False) \<Rightarrow> Some (Returned (- errno_val E_BAD_PROC) s))"

definition do_wait :: "'m mem_ops \<Rightarrow> int \<Rightarrow> u64 \<Rightarrow> 'm kstate \<Rightarrow> 'm wait_outcome option" where
  "do_wait ops i code_store s =
     (if code_store \<noteq> 0
         \<and> \<not> user_mem_check_op ops (p_mm (procs s (current s))) code_store 4 True (kmem s)
      then Some (Returned (- errno_val E_INVAL) s)
      else wait_repeat ops i code_store s)"

definition wait_resume :: "'m mem_ops \<Rightarrow> int \<Rightarrow> u64 \<Rightarrow> 'm kstate \<Rightarrow> 'm wait_outcome option" where
  "wait_resume ops i code_store s =
     (if p_flags (procs s (current s)) AND PF_EXITING \<noteq> 0
      then map_option Blocked (do_exit ops (- errno_val E_KILLED) s)
      else wait_repeat ops i code_store s)"

definition do_kill :: "int \<Rightarrow> 'm kstate \<Rightarrow> (int \<times> 'm kstate) option" where
  "do_kill i s =
     (case find_proc i s of
        None \<Rightarrow> Some (- errno_val E_INVAL, s)
      | Some p \<Rightarrow>
          if p_flags (procs s p) AND PF_EXITING = 0
          then let s1 = upd_proc p (\<lambda>d. d\<lparr>p_flags := p_flags d OR PF_EXITING\<rparr>) s
               in map_option (Pair 0)
                    (if wait_state (procs s1 p) AND WT_INTERRUPTED \<noteq> 0 then wakeup_proc p s1 else Some s1)
          else Some (- errno_val E_KILLED, s))"

definition do_yield :: "'m kstate \<Rightarrow> int \<times> 'm kstate" where
  "do_yield s = (0, upd_proc (current s) (\<lambda>d. d\<lparr>need_resched := True\<rparr>) s)"

section \<open>Exec\<close>

text \<open>
  The trap frame \<open>load_icode\<close> leaves for the program: cleared, then the stack pointer, the
  entry point and the status of the return to user mode.
\<close>

definition user_tf :: "u64 \<Rightarrow> trapframe \<Rightarrow> trapframe" where
  "user_tf entry t = zero_tf\<lparr>gpr := (gpr zero_tf)(REG_SP := USTACKTOP), tf_epc := entry,
     tf_status := (tf_status t AND NOT SSTATUS_SPP) OR SSTATUS_SPIE\<rparr>"

definition load_icode_proc :: "'m mem_ops \<Rightarrow> u64 \<Rightarrow> u64 \<Rightarrow> 'm kstate \<Rightarrow> (int \<times> 'm kstate) option" where
  "load_icode_proc ops binary sz s =
     (if p_mm (procs s (current s)) \<noteq> None then None
      else (case load_icode_op ops binary sz (kmem s) of
          None \<Rightarrow> None
        | Some ((ret, None, _), m) \<Rightarrow> Some (ret, s\<lparr>kmem := m\<rparr>)
        | Some ((ret, Some mm, entry), m) \<Rightarrow>
            let m1 = mm_count_inc_op ops mm m; cr3 = mm_cr3 ops mm m1
            in Some (ret, lcr3 cr3 (upd_proc (current s)
                 (\<lambda>d. d\<lparr>p_mm := Some mm, p_cr3 := cr3, tframe := user_tf entry (tframe d)\<rparr>)
                 (s\<lparr>kmem := m1\<rparr>)))))"

definition local_name :: "'m mem_ops \<Rightarrow> nat option \<Rightarrow> u64 \<Rightarrow> u64 \<Rightarrow> 'm \<Rightarrow> nat \<Rightarrow> u8" where
  "local_name ops mm name len m k =
     (if k < min (unat len) PROC_NAME_LEN then load_user_byte ops mm (name + of_nat k) m else 0)"

definition do_execve :: "'m mem_ops \<Rightarrow> u64 \<Rightarrow> u64 \<Rightarrow> u64 \<Rightarrow> u64 \<Rightarrow> 'm kstate
    \<Rightarrow> 'm wait_outcome option" where
  "do_execve ops name len binary sz s =
     (let mm = p_mm (procs s (current s))
      in if \<not> user_mem_check_op ops mm name len False (kmem s)
         then Some (Returned (- errno_val E_INVAL) s)
         else let nm = local_name ops mm name len (kmem s)
              in Option.bind (case mm of None \<Rightarrow> Some s | Some m \<Rightarrow> release_mm ops m s) (\<lambda>s1.
                 Option.bind (load_icode_proc ops binary sz s1) (\<lambda>(ret, s2).
                 if ret \<noteq> 0 then map_option Blocked (do_exit ops ret s2)
                 else Some (Returned 0 (set_proc_name (current s2) nm s2)))))"

section \<open>Start\<close>

definition name_bytes :: "string \<Rightarrow> nat \<Rightarrow> u8" where
  "name_bytes str k = (if k < length str then of_char (str ! k) else 0)"

definition proc_init :: "'m mem_ops \<Rightarrow> kimage \<Rightarrow> u64 \<Rightarrow> 'm kstate \<Rightarrow> 'm kstate option" where
  "proc_init ops img init_main s =
     (case alloc_proc ops (s\<lparr>proc_list := [], hash_list := (\<lambda>_. [])\<rparr>) of
        (None, _) \<Rightarrow> None
      | (Some idle, s1) \<Rightarrow>
          let s2 = upd_proc idle (\<lambda>d. d\<lparr>pid := 0, state := PROC_RUNNABLE, kstack := bootstack img,
                     need_resched := True\<rparr>) (s1\<lparr>idleproc := idle\<rparr>);
              s3 = set_proc_name idle (name_bytes ''idle'') s2;
              s4 = s3\<lparr>nr_process := nr_process s3 + 1, current := idle\<rparr>
          in (case kernel_thread ops img init_main 0 0 s4 of
              None \<Rightarrow> None
            | Some (i, s5) \<Rightarrow>
                if i \<le> 0 then None
                else (case find_proc i s5 of
                    None \<Rightarrow> None
                  | Some init \<Rightarrow>
                      let s6 = set_proc_name init (name_bytes ''init'') (s5\<lparr>initproc := init\<rparr>)
                      in if pid (procs s6 idle) = 0 \<and> pid (procs s6 init) = 1 then Some s6 else None)))"

text \<open>One turn of the loop of \<open>cpu_idle\<close>.\<close>

definition cpu_idle_step :: "'m kstate \<Rightarrow> 'm kstate option" where
  "cpu_idle_step s = (if need_resched (procs s (current s)) then schedule s else Some s)"

end
