(* ===== verification/Process_Facts.thy ===== *)
theory Process_Facts
  imports Process
begin

text \<open>
  What the operations of the process subsystem do to the process table and the family tree.
  \<open>tree_inv\<close> is the invariant of the subsystem: the table invariant, the family tree over the
  listed processes and \<open>idleproc\<close>, every listed process the child of one of them and none its
  own child, and no process that waits for something without sleeping.
\<close>

section \<open>The invariant\<close>

definition live :: "'m kstate \<Rightarrow> pptr set" where
  "live s = insert (idleproc s) (set (proc_list s))"

definition tree_inv :: "'m kstate \<Rightarrow> (pptr \<Rightarrow> pptr list) \<Rightarrow> bool" where
  "tree_inv s ch \<longleftrightarrow> ptab_inv s \<and> family (live s) (procs s) ch
     \<and> (\<Union>q. set (ch q)) = set (proc_list s) \<and> (\<forall>q. q \<notin> set (ch q)) \<and> current s \<in> live s
     \<and> state (procs s (idleproc s)) = PROC_RUNNABLE
     \<and> (\<forall>p \<in> live s. wait_state (procs s p) \<noteq> 0 \<longrightarrow> state (procs s p) = PROC_SLEEPING)"

definition init_child :: "'m kstate \<Rightarrow> (pptr \<Rightarrow> pptr list) \<Rightarrow> bool" where
  "init_child s ch \<longleftrightarrow> initproc s \<in> set (ch (idleproc s))"

definition running :: "'m kstate \<Rightarrow> bool" where
  "running s \<longleftrightarrow> state (procs s (current s)) = PROC_RUNNABLE"

lemma tree_inv_ch: "tree_inv s ch \<Longrightarrow> p \<in> set (ch q) \<Longrightarrow> p \<in> set (proc_list s)"
  by (auto simp: tree_inv_def)

lemma tree_inv_parent:
  assumes "tree_inv s ch" "p \<in> set (proc_list s)"
  shows "\<exists>q. p \<in> set (ch q) \<and> parent (procs s p) = Some q \<and> q \<in> live s"
proof -
  from assms have "p \<in> (\<Union>q. set (ch q))" by (simp add: tree_inv_def)
  then obtain q where "p \<in> set (ch q)" by blast
  with assms(1) show ?thesis
    unfolding tree_inv_def by (metis family_parent family_mem)
qed

text \<open>What the invariant looks at.\<close>

lemma tree_inv_cong:
  assumes "tree_inv s ch" "proc_list s' = proc_list s" "hash_list s' = hash_list s"
    and "idleproc s' = idleproc s" "nr_process s' = nr_process s" "last_pid s' = last_pid s"
    and "next_safe s' = next_safe s" "current s' \<in> live s"
    and "\<And>p. pid (procs s' p) = pid (procs s p)"
    and "\<And>p. p \<in> live s \<Longrightarrow> yptr (procs s' p) = yptr (procs s p) \<and> optr (procs s' p) = optr (procs s p)
      \<and> parent (procs s' p) = parent (procs s p) \<and> cptr (procs s' p) = cptr (procs s p)"
    and "state (procs s' (idleproc s)) = PROC_RUNNABLE"
    and "\<And>p. p \<in> live s \<Longrightarrow> wait_state (procs s' p) \<noteq> 0 \<Longrightarrow> state (procs s' p) = PROC_SLEEPING"
  shows "tree_inv s' ch"
proof -
  have "live s' = live s" using assms(2,4) by (simp add: live_def)
  moreover have "ptab_inv s" "family (live s) (procs s) ch" "(\<Union>q. set (ch q)) = set (proc_list s)"
    "\<forall>q. q \<notin> set (ch q)" using assms(1) by (simp_all add: tree_inv_def)
  moreover have "ptab_inv s'"
    using calculation(2) assms(2-7,9) by (intro ptab_inv_cong [of s s']) simp_all
  moreover have "family (live s) (procs s') ch"
    by (rule family_cong [OF calculation(3) assms(10)])
  ultimately show ?thesis using assms(2,4,8,11,12) by (simp add: tree_inv_def)
qed

section \<open>Scheduling\<close>

lemma find_SomeD: "find P xs = Some x \<Longrightarrow> P x \<and> x \<in> set xs"
  by (auto simp: find_Some_iff)

lemma sched_scan_find:
  "sched_scan s nxt order = (case find (\<lambda>p. state (procs s p) = PROC_RUNNABLE) order of
     Some p \<Rightarrow> Some p | None \<Rightarrow> (if order = [] then nxt else Some (last order)))"
  by (induction order arbitrary: nxt) (auto split: option.splits)

lemma find_append:
  "find P (xs @ ys) = (case find P xs of None \<Rightarrow> find P ys | Some x \<Rightarrow> Some x)"
  by (induction xs) auto

text \<open>The process chosen: the first runnable one behind the current one, else \<open>idleproc\<close>.\<close>

definition next_proc :: "'m kstate \<Rightarrow> pptr list \<Rightarrow> pptr" where
  "next_proc s order = (case find (\<lambda>p. state (procs s p) = PROC_RUNNABLE) order of
     Some p \<Rightarrow> p | None \<Rightarrow> idleproc s)"

lemma while_first:
  "x \<notin> set as \<Longrightarrow> takeWhile (\<lambda>p. p \<noteq> x) (as @ x # bs) = as"
  "x \<notin> set as \<Longrightarrow> dropWhile (\<lambda>p. p \<noteq> x) (as @ x # bs) = x # bs"
  by (induction as) auto

lemma sched_order_rot:
  assumes "current s \<noteq> idleproc s" "proc_list s = as @ current s # bs" "current s \<notin> set as"
  shows "sched_order s = Some (bs @ as @ [current s])"
proof -
  have "dropWhile (\<lambda>p. p \<noteq> current s) (proc_list s) = current s # bs"
    "takeWhile (\<lambda>p. p \<noteq> current s) (proc_list s) = as"
    using while_first [OF assms(3)] unfolding assms(2) by simp_all
  then show ?thesis using assms(1,2) by (simp add: sched_order_def)
qed

lemma sched_order_Some:
  assumes "current s \<in> live s"
  shows "\<exists>order. sched_order s = Some order \<and> set order = set (proc_list s)"
proof (cases "current s = idleproc s")
  case True
  then show ?thesis by (simp add: sched_order_def)
next
  case False
  with assms have "current s \<in> set (proc_list s)" by (simp add: live_def)
  then obtain as bs where "proc_list s = as @ current s # bs" "current s \<notin> set as"
    by (metis split_list_first)
  with sched_order_rot [OF False this] show ?thesis by auto
qed

lemma sched_order_cong:
  "current s' = current s \<Longrightarrow> idleproc s' = idleproc s \<Longrightarrow> proc_list s' = proc_list s
    \<Longrightarrow> sched_order s' = sched_order s"
  by (simp add: sched_order_def)

lemma schedule_eq:
  assumes "sched_order s = Some order"
  shows "\<exists>s'. schedule s = Some s' \<and> current s' = next_proc s order
    \<and> proc_list s' = proc_list s \<and> hash_list s' = hash_list s \<and> idleproc s' = idleproc s
    \<and> initproc s' = initproc s \<and> nr_process s' = nr_process s \<and> last_pid s' = last_pid s
    \<and> next_safe s' = next_safe s \<and> kmem s' = kmem s \<and> boot_cr3 s' = boot_cr3 s
    \<and> (\<forall>p b r c. (procs s' p)\<lparr>need_resched := b, runs := r, p_context := c\<rparr>
         = (procs s p)\<lparr>need_resched := b, runs := r, p_context := c\<rparr>)
    \<and> runs (procs s' (next_proc s order)) = runs (procs s (next_proc s order)) + 1
    \<and> (\<forall>p. p \<noteq> next_proc s order \<longrightarrow> runs (procs s' p) = runs (procs s p))
    \<and> (next_proc s order \<noteq> current s \<longrightarrow>
         satp s' = 0x8000000000000000 OR drop_bit 12 (p_cr3 (procs s (next_proc s order)))
         \<and> cpu s' = p_context (procs s (next_proc s order))
         \<and> p_context (procs s' (current s)) = cpu s)"
proof -
  let ?s1 = "upd_proc (current s) (\<lambda>d. d\<lparr>need_resched := False\<rparr>) s"
  have order: "sched_order ?s1 = Some order" using assms sched_order_cong [of ?s1 s] by simp
  have st: "state (procs ?s1 p) = state (procs s p)" for p by simp
  have n: "(case sched_scan ?s1 None order of None \<Rightarrow> idleproc ?s1
      | Some p \<Rightarrow> if state (procs ?s1 p) = PROC_RUNNABLE then p else idleproc ?s1) = next_proc s order"
    unfolding sched_scan_find next_proc_def st
    by (auto split: option.splits dest: find_SomeD simp: find_None_iff)
  show ?thesis
    unfolding schedule_def Let_def order option.case n
    by (auto simp: proc_run_def switch_to_def lcr3_def Let_def)
qed

lemma sched_fields:
  assumes "(d::proc_struct)\<lparr>need_resched := b, runs := r, p_context := c\<rparr>
    = e\<lparr>need_resched := b, runs := r, p_context := c\<rparr>"
  shows "pid d = pid e \<and> state d = state e \<and> parent d = parent e \<and> exit_code d = exit_code e
    \<and> p_mm d = p_mm e \<and> wait_state d = wait_state e \<and> kstack d = kstack e \<and> p_flags d = p_flags e
    \<and> yptr d = yptr e \<and> optr d = optr e \<and> cptr d = cptr e"
  using assms by (cases d, cases e) simp

lemma schedule_ok:
  assumes "tree_inv s ch"
  shows "\<exists>s' order. sched_order s = Some order \<and> schedule s = Some s' \<and> tree_inv s' ch \<and> running s'
    \<and> current s' = next_proc s order \<and> proc_list s' = proc_list s \<and> initproc s' = initproc s
    \<and> idleproc s' = idleproc s \<and> kmem s' = kmem s
    \<and> (\<forall>p. state (procs s' p) = state (procs s p) \<and> parent (procs s' p) = parent (procs s p)
         \<and> exit_code (procs s' p) = exit_code (procs s p) \<and> p_mm (procs s' p) = p_mm (procs s p)
         \<and> wait_state (procs s' p) = wait_state (procs s p) \<and> kstack (procs s' p) = kstack (procs s p)
         \<and> p_flags (procs s' p) = p_flags (procs s p))"
proof -
  have cur: "current s \<in> live s" and idle: "state (procs s (idleproc s)) = PROC_RUNNABLE"
    and wt: "\<forall>p \<in> live s. wait_state (procs s p) \<noteq> 0 \<longrightarrow> state (procs s p) = PROC_SLEEPING"
    using assms by (auto simp: tree_inv_def)
  from sched_order_Some [OF cur] obtain order where o: "sched_order s = Some order"
    "set order = set (proc_list s)" by blast
  from schedule_eq [OF o(1)] obtain s' where s': "schedule s = Some s'" "current s' = next_proc s order"
    "proc_list s' = proc_list s" "hash_list s' = hash_list s" "idleproc s' = idleproc s"
    "initproc s' = initproc s" "nr_process s' = nr_process s" "last_pid s' = last_pid s"
    "next_safe s' = next_safe s" "kmem s' = kmem s"
    and eq: "\<And>p. (procs s' p)\<lparr>need_resched := b, runs := r, p_context := c\<rparr>
         = (procs s p)\<lparr>need_resched := b, runs := r, p_context := c\<rparr>" for b r c by blast
  have f: "pid (procs s' p) = pid (procs s p)" "state (procs s' p) = state (procs s p)"
    "parent (procs s' p) = parent (procs s p)" "exit_code (procs s' p) = exit_code (procs s p)"
    "p_mm (procs s' p) = p_mm (procs s p)" "wait_state (procs s' p) = wait_state (procs s p)"
    "kstack (procs s' p) = kstack (procs s p)" "p_flags (procs s' p) = p_flags (procs s p)"
    "yptr (procs s' p) = yptr (procs s p)" "optr (procs s' p) = optr (procs s p)"
    "cptr (procs s' p) = cptr (procs s p)" for p
    using sched_fields [OF eq [where p = p]] by simp_all
  have n: "next_proc s order \<in> live s \<and> state (procs s (next_proc s order)) = PROC_RUNNABLE"
    using o(2) idle by (auto simp: next_proc_def live_def split: option.splits dest: find_SomeD)
  have "tree_inv s' ch"
    by (rule tree_inv_cong [OF assms]) (use s' f n idle wt in simp_all)
  moreover have "running s'" using n f s'(2) by (simp add: running_def)
  ultimately show ?thesis using o(1) s' f by blast
qed

section \<open>Creation\<close>

definition copies_mm :: "'m mem_ops \<Rightarrow> u32 \<Rightarrow> nat option \<Rightarrow> 'm \<Rightarrow> bool" where
  "copies_mm ops fl mm m \<longleftrightarrow> (case mm of None \<Rightarrow> True
     | Some old \<Rightarrow> fl AND CLONE_VM \<noteq> 0 \<or> (\<exists>new m1 m2 m3. mm_create_op ops m = (Some new, m1)
         \<and> setup_pgdir_op ops new m1 = (0, m2) \<and> dup_mmap_op ops new old m2 = Some (0, m3)))"

lemma copy_mm_ok:
  assumes "copies_mm ops fl (p_mm (procs s (current s))) (kmem s)"
  shows "\<exists>x c m. copy_mm ops fl p s
    = Some (0, s\<lparr>procs := (procs s)(p := (procs s p)\<lparr>p_mm := x, p_cr3 := c\<rparr>), kmem := m\<rparr>)"
proof (cases "p_mm (procs s (current s))")
  case None
  then have "copy_mm ops fl p s = Some (0, s\<lparr>procs := (procs s)(p := (procs s p)
      \<lparr>p_mm := p_mm (procs s p), p_cr3 := p_cr3 (procs s p)\<rparr>), kmem := kmem s\<rparr>)"
    by (simp add: copy_mm_def)
  then show ?thesis by blast
next
  case (Some old)
  have g: "\<exists>x c m. good_mm ops mm p t = t\<lparr>procs := (procs t)(p := (procs t p)\<lparr>p_mm := x, p_cr3 := c\<rparr>),
    kmem := m\<rparr>" for mm and t :: "'a kstate"
    unfolding good_mm_def Let_def upd_proc_def
    by (intro exI [of _ "Some mm"] exI [of _ "mm_cr3 ops mm (mm_count_inc_op ops mm (kmem t))"]
        exI [of _ "mm_count_inc_op ops mm (kmem t)"]) simp
  show ?thesis
  proof (cases "fl AND CLONE_VM = 0")
    case True
    with assms Some obtain new m1 m2 m3 where "mm_create_op ops (kmem s) = (Some new, m1)"
      "setup_pgdir_op ops new m1 = (0, m2)" "dup_mmap_op ops new old m2 = Some (0, m3)"
      by (auto simp: copies_mm_def)
    with True Some have "copy_mm ops fl p s = Some (0, good_mm ops new p (s\<lparr>kmem := m3\<rparr>))"
      by (simp add: copy_mm_def)
    with g [of new "s\<lparr>kmem := m3\<rparr>"] show ?thesis by auto
  next
    case False
    with Some have "copy_mm ops fl p s = Some (0, good_mm ops old p s)" by (simp add: copy_mm_def)
    with g [of old s] show ?thesis by auto
  qed
qed

lemma distinct_if_Cons: "distinct xs \<Longrightarrow> x \<notin> set xs \<Longrightarrow> distinct (if P then x # xs else xs)"
  by simp

lemma UN_upd_Cons: "(\<Union>q. set ((ch(c := p # ch c)) q)) = insert p (\<Union>q. set (ch q))"
proof -
  have "set ((ch(c := p # ch c)) q) = (if q = c then {p} else {}) \<union> set (ch q)" for q by simp
  then show ?thesis by (simp add: UN_Un_distrib)
qed

text \<open>
  The second half of \<open>do_fork\<close>, from a state where the new descriptor \<open>d\<close> is filled in, to the
  woken child.
\<close>

lemma fork_links:
  assumes inv: "tree_inv s ch" and new: "p \<notin> live s" and room: "nr_process s < MAX_PROCESS"
    and t: "t = s\<lparr>procs := (procs s)(p := d), kmem := m\<rparr>"
    and d: "parent d = Some (current s)" "cptr d = None" "state d = PROC_UNINIT" "wait_state d = 0"
  shows "\<exists>i sf s6 s7. get_pid t = Some (i, t\<lparr>last_pid := i, next_safe := sf\<rparr>)
    \<and> set_links p (hash_proc p (set_pid p i (t\<lparr>last_pid := i, next_safe := sf\<rparr>))) = Some s6
    \<and> wakeup_proc p s6 = Some s7 \<and> 1 \<le> i \<and> i < MAX_PID \<and> i \<notin> set (pids s)
    \<and> tree_inv s7 (ch(current s := p # ch (current s))) \<and> proc_list s7 = p # proc_list s
    \<and> pid (procs s7 p) = i \<and> state (procs s7 p) = PROC_RUNNABLE \<and> parent (procs s7 p) = Some (current s)
    \<and> tframe (procs s7 p) = tframe d \<and> kstack (procs s7 p) = kstack d \<and> p_mm (procs s7 p) = p_mm d
    \<and> p_context (procs s7 p) = p_context d \<and> current s7 = current s \<and> initproc s7 = initproc s
    \<and> idleproc s7 = idleproc s \<and> running s7 = running s
    \<and> (proc_list s = [] \<and> last_pid s = MAX_PID \<longrightarrow> i = 1)
    \<and> (\<forall>q. q \<noteq> p \<longrightarrow> pid (procs s7 q) = pid (procs s q) \<and> state (procs s7 q) = state (procs s q))"
proof -
  let ?A = "live s"
  have tab: "ptab_inv s" and fam: "family ?A (procs s) ch"
    and un: "(\<Union>q. set (ch q)) = set (proc_list s)" and cur: "current s \<in> ?A"
    using inv by (auto simp: tree_inv_def)
  have pl: "p \<notin> set (proc_list s)" "p \<noteq> idleproc s" "p \<noteq> current s" using new cur by (auto simp: live_def)
  have "pids t = pids s" using pl(1) by (simp add: pids_def t)
  then have "pid_inv t" "int (length (proc_list t)) \<le> MAX_PROCESS"
    using tab room by (auto simp: ptab_inv_def pid_inv_def t)
  from get_pid_ok [OF this] obtain i sf where g: "get_pid t = Some (i, t\<lparr>last_pid := i, next_safe := sf\<rparr>)"
    "1 \<le> i" "i < MAX_PID" "i \<notin> set (pids s)" "sf \<le> MAX_PID" "\<forall>q \<in> set (pids s). q < i \<or> sf \<le> q"
    using \<open>pids t = pids s\<close> by auto
  have first: "proc_list s = [] \<and> last_pid s = MAX_PID \<longrightarrow> i = 1"
  proof
    assume "proc_list s = [] \<and> last_pid s = MAX_PID"
    then have "get_pid t = Some (1, t\<lparr>last_pid := 1, next_safe := MAX_PID\<rparr>)"
      by (simp add: get_pid_def t Let_def) (subst get_pid_scan.simps, simp)
    with g(1) show "i = 1" by simp
  qed
  define u where "u = hash_proc p (set_pid p i (t\<lparr>last_pid := i, next_safe := sf\<rparr>))"
  have pu: "procs u = (procs s)(p := d\<lparr>pid := i\<rparr>)"
    and fu: "proc_list u = proc_list s" "idleproc u = idleproc s" "initproc u = initproc s"
      "current u = current s" "nr_process u = nr_process s" "last_pid u = i" "next_safe u = sf"
      "hash_list u = (hash_list s)(pid_hashfn i := p # hash_list s (pid_hashfn i))"
    by (simp_all add: u_def hash_proc_def set_pid_def t Let_def)
  have "family ?A (procs u) ch" by (rule family_cong [OF fam]) (use new pu in auto)
  then have famu: "family (insert p ?A) (procs u) ch"
    using new d(2) pu by (intro family_insert) auto
  have "\<And>q. p \<notin> set (ch q)" using un pl(1) by auto
  with famu cur pl(3) d(1) pu obtain s6 where s6: "set_links p u = Some s6"
    "family (insert p ?A) (procs s6) (ch(current s := p # ch (current s)))"
    using family_set_links [OF famu, of p "current s"] by auto
  note fr = set_links_frame [OF s6(1)] and frp = set_links_proc [OF s6(1)]
  define s7 where "s7 = upd_proc p (\<lambda>d. d\<lparr>state := PROC_RUNNABLE, wait_state := 0\<rparr>) s6"
  have w: "wakeup_proc p s6 = Some s7" using fr pu d by (simp add: wakeup_proc_def s7_def)
  have pid7: "pid (procs s7 q) = (if q = p then i else pid (procs s q))"
    and st7: "state (procs s7 q) = (if q = p then PROC_RUNNABLE else state (procs s q))"
    and ws7: "wait_state (procs s7 q) = (if q = p then 0 else wait_state (procs s q))" for q
    by (simp_all add: s7_def fr frp pu)
  have f7: "proc_list s7 = p # proc_list s" "idleproc s7 = idleproc s" "initproc s7 = initproc s"
    "current s7 = current s" "nr_process s7 = nr_process s + 1" "last_pid s7 = i" "next_safe s7 = sf"
    "hash_list s7 = (hash_list s)(pid_hashfn i := p # hash_list s (pid_hashfn i))"
    by (simp_all add: s7_def fr fu)
  have live7: "live s7 = insert p ?A" by (auto simp: live_def f7)
  have pids7: "pids s7 = i # pids s" using pl(1) by (simp add: pids_def f7 pid7)
  have "ptab_inv s7"
    unfolding ptab_inv_def
  proof (intro conjI allI)
    show "distinct (proc_list s7)" "idleproc s7 \<notin> set (proc_list s7)"
      using tab pl by (auto simp: f7 ptab_inv_def)
    show "distinct (pids s7)" using tab g(4) by (simp add: pids7 ptab_inv_def)
    show "pid_inv s7" using tab g unfolding pid_inv_def pids7 ptab_inv_def f7 by auto
    show "nr_process s7 = int (length (proc_list s7)) + 1" using tab by (simp add: f7 ptab_inv_def)
    fix b
    have hl: "distinct (hash_list s b)" "set (hash_list s b) = {q \<in> set (proc_list s). pid_hashfn (pid (procs s q)) = b}"
      using tab by (auto simp: ptab_inv_def)
    have h7: "hash_list s7 b = (if b = pid_hashfn i then p # hash_list s b else hash_list s b)"
      by (simp add: f7)
    have np: "p \<notin> set (hash_list s b)" using hl(2) pl(1) by simp
    show "distinct (hash_list s7 b)"
      unfolding h7 by (rule distinct_if_Cons [OF hl(1) np])
    show "set (hash_list s7 b) = {q \<in> set (proc_list s7). pid_hashfn (pid (procs s7 q)) = b}"
    proof -
      have "{q \<in> set (proc_list s7). pid_hashfn (pid (procs s7 q)) = b}
          = (if b = pid_hashfn i then {p} else {}) \<union> {q \<in> set (proc_list s). pid_hashfn (pid (procs s q)) = b}"
        using pl(1) by (auto simp: pid7 f7)
      then show ?thesis unfolding h7 hl(2) [symmetric] by simp
    qed
  qed
  moreover have "family (live s7) (procs s7) (ch(current s := p # ch (current s)))"
    unfolding live7 by (rule family_cong [OF s6(2)]) (simp add: s7_def)
  moreover have "(\<Union>q. set ((ch(current s := p # ch (current s))) q)) = set (proc_list s7)"
    unfolding UN_upd_Cons un by (simp add: f7)
  moreover have "\<forall>q. q \<notin> set ((ch(current s := p # ch (current s))) q)"
    using inv pl(3) by (simp add: tree_inv_def)
  moreover have "current s7 \<in> live s7" using cur by (simp add: live7 f7)
  moreover have "state (procs s7 (idleproc s7)) = PROC_RUNNABLE"
    using inv pl by (simp add: st7 tree_inv_def f7)
  moreover have "\<forall>q \<in> live s7. wait_state (procs s7 q) \<noteq> 0 \<longrightarrow> state (procs s7 q) = PROC_SLEEPING"
    using inv by (auto simp: live7 st7 ws7 tree_inv_def)
  ultimately have "tree_inv s7 (ch(current s := p # ch (current s)))" by (simp add: tree_inv_def)
  moreover have "running s7 = running s" using pl(3) by (simp add: running_def st7 f7)
  moreover have "parent (procs s7 p) = Some (current s)" "tframe (procs s7 p) = tframe d"
    "kstack (procs s7 p) = kstack d" "p_mm (procs s7 p) = p_mm d" "p_context (procs s7 p) = p_context d"
    using d by (simp_all add: s7_def fr frp pu)
  moreover have "proc_list s7 = p # proc_list s" "current s7 = current s" "initproc s7 = initproc s"
    "idleproc s7 = idleproc s" by (simp_all add: f7)
  ultimately show ?thesis
    using g(1-4) s6(1) [unfolded u_def] w pid7 st7 first by auto
qed

lemma do_fork_ok:
  assumes "tree_inv s ch" "p \<notin> live s" "nr_process s < MAX_PROCESS"
    and "kmalloc_proc ops (kmem s) = (Some p, m1)" "alloc_stack ops m1 = (Some kva, m2)"
    and "copies_mm ops fl (p_mm (procs s (current s))) m2"
  shows "\<exists>i s'. do_fork ops img fl stack t s = Some (i, s') \<and> 1 \<le> i \<and> i < MAX_PID \<and> i \<notin> set (pids s)
    \<and> tree_inv s' (ch(current s := p # ch (current s))) \<and> proc_list s' = p # proc_list s
    \<and> pid (procs s' p) = i \<and> p \<in> set (proc_list s')
    \<and> initproc s' = initproc s \<and> idleproc s' = idleproc s \<and> state (procs s' p) = PROC_RUNNABLE \<and> kstack (procs s' p) = kva
    \<and> tframe (procs s' p) = t\<lparr>gpr := (gpr t)(REG_A0 := 0, REG_SP :=
        (if stack = 0 then kva + KSTACKSIZE - TRAPFRAME_SIZE else stack))\<rparr>
    \<and> c_ra (p_context (procs s' p)) = forkret img
    \<and> c_sp (p_context (procs s' p)) = kva + KSTACKSIZE - TRAPFRAME_SIZE
    \<and> current s' = current s \<and> running s' = running s
    \<and> (proc_list s = [] \<and> last_pid s = MAX_PID \<longrightarrow> i = 1)
    \<and> (\<forall>q. q \<noteq> p \<longrightarrow> pid (procs s' q) = pid (procs s q) \<and> state (procs s' q) = state (procs s q))"
proof -
  have cur: "current s \<noteq> p" using assms(1,2) by (auto simp: tree_inv_def)
  define s1 where "s1 = upd_proc p (\<lambda>_. zero_proc\<lparr>state := PROC_UNINIT, pid := - 1, p_cr3 := boot_cr3 s\<rparr>) (s\<lparr>kmem := m1\<rparr>)"
  define s2 where "s2 = upd_proc p (\<lambda>d. d\<lparr>parent := Some (current s1)\<rparr>) s1"
  define s3 where "s3 = upd_proc p (\<lambda>d. d\<lparr>kstack := kva\<rparr>) (s2\<lparr>kmem := m2\<rparr>)"
  have a: "alloc_proc ops s = (Some p, s1)" using assms(4) by (simp add: alloc_proc_def s1_def)
  have k: "setup_kstack ops p s2 = (0, s3)"
    using assms(5) by (simp add: setup_kstack_def s2_def s3_def s1_def)
  have p3: "procs s3 = (procs s)(p := zero_proc\<lparr>state := PROC_UNINIT, pid := - 1, p_cr3 := boot_cr3 s,
      parent := Some (current s), kstack := kva\<rparr>)" "current s3 = current s" "kmem s3 = m2"
    by (simp_all add: s3_def s2_def s1_def)
  have "copies_mm ops fl (p_mm (procs s3 (current s3))) (kmem s3)" using assms(6) cur p3 by simp
  from copy_mm_ok [OF this, of p] obtain x c m where
    c: "copy_mm ops fl p s3 = Some (0, s3\<lparr>procs := (procs s3)(p := (procs s3 p)\<lparr>p_mm := x, p_cr3 := c\<rparr>), kmem := m\<rparr>)"
    by blast
  define s4 where "s4 = s3\<lparr>procs := (procs s3)(p := (procs s3 p)\<lparr>p_mm := x, p_cr3 := c\<rparr>), kmem := m\<rparr>"
  define d where "d = procs (copy_thread img p stack t s4) p"
  have dd: "parent d = Some (current s)" "cptr d = None" "state d = PROC_UNINIT" "wait_state d = 0"
    "kstack d = kva" "tframe d = t\<lparr>gpr := (gpr t)(REG_A0 := 0, REG_SP :=
       (if stack = 0 then kva + KSTACKSIZE - TRAPFRAME_SIZE else stack))\<rparr>"
    "c_ra (p_context d) = forkret img" "c_sp (p_context d) = kva + KSTACKSIZE - TRAPFRAME_SIZE"
    by (simp_all add: d_def copy_thread_def s4_def p3 zero_proc_def Let_def)
  have t4: "copy_thread img p stack t s4 = s\<lparr>procs := (procs s)(p := d), kmem := m\<rparr>"
    by (simp add: d_def copy_thread_def upd_proc_def s4_def s3_def s2_def s1_def)
  from fork_links [OF assms(1-3) t4 dd(1-4)] obtain i sf s6 s7 where
    g: "get_pid (copy_thread img p stack t s4)
        = Some (i, (copy_thread img p stack t s4)\<lparr>last_pid := i, next_safe := sf\<rparr>)"
      "set_links p (hash_proc p (set_pid p i ((copy_thread img p stack t s4)\<lparr>last_pid := i, next_safe := sf\<rparr>))) = Some s6"
      "wakeup_proc p s6 = Some s7"
    and i: "1 \<le> i" "i < MAX_PID" "i \<notin> set (pids s)"
    and r: "tree_inv s7 (ch(current s := p # ch (current s)))" "proc_list s7 = p # proc_list s" "pid (procs s7 p) = i"
      "state (procs s7 p) = PROC_RUNNABLE" "tframe (procs s7 p) = tframe d" "kstack (procs s7 p) = kstack d"
      "p_context (procs s7 p) = p_context d" "initproc s7 = initproc s" "idleproc s7 = idleproc s" "current s7 = current s" "running s7 = running s"
    and f: "proc_list s = [] \<and> last_pid s = MAX_PID \<longrightarrow> i = 1"
      "\<forall>q. q \<noteq> p \<longrightarrow> pid (procs s7 q) = pid (procs s q) \<and> state (procs s7 q) = state (procs s q)"
    by blast
  have "do_fork ops img fl stack t s = Some (i, s7)"
    using assms(3) a k c g r(3) by (simp add: do_fork_def Let_def s2_def [symmetric] s4_def [symmetric])
  then show ?thesis using i r dd f by simp
qed

end
