(* ===== verification/Process_Exit.thy ===== *)
theory Process_Exit
  imports Process_Facts
begin

text \<open>
  The end of a process: the loop of \<open>do_exit\<close> that hands the children over to \<open>initproc\<close>,
  and the reaping in \<open>do_wait\<close>.
\<close>

section \<open>Handing over the children\<close>

text \<open>A family whose list at \<open>c\<close> starts with a process whose \<open>yptr\<close> is \<open>y\<close>.\<close>

definition family_at :: "pptr \<Rightarrow> pptr option \<Rightarrow> pptr set \<Rightarrow> (pptr \<Rightarrow> proc_struct)
    \<Rightarrow> (pptr \<Rightarrow> pptr list) \<Rightarrow> bool" where
  "family_at c y A ps ch \<longleftrightarrow>
     (\<forall>p \<in> A. sibs ps p (if p = c then y else None) (cptr (ps p)) (ch p)
        \<and> distinct (ch p) \<and> set (ch p) \<subseteq> A)
     \<and> (\<forall>p. p \<notin> A \<longrightarrow> ch p = [])"

lemma family_at_None: "family_at c None A ps ch \<longleftrightarrow> family A ps ch"
  by (simp add: family_at_def family_def)

lemma family_at_Nil:
  assumes "family_at c y A ps ch" "ch c = []"
  shows "family A ps ch"
proof -
  have "sibs ps p None (cptr (ps p)) (ch p)" if "p \<in> A" for p
    using assms that by (cases "p = c") (auto simp: family_at_def)
  with assms(1) show ?thesis by (auto simp: family_at_def family_def)
qed

lemma family_at_parent: "family_at c y A ps ch \<Longrightarrow> x \<in> set (ch p) \<Longrightarrow> parent (ps x) = Some p"
  by (cases "p \<in> A") (auto simp: family_at_def intro: sibs_parent)

lemma family_at_disjoint:
  assumes "family_at c y A ps ch" "x \<in> set (ch p)" "x \<in> set (ch q)"
  shows "p = q"
  using family_at_parent [OF assms(1,2)] family_at_parent [OF assms(1,3)] by simp

text \<open>The descriptors after one turn of the loop, before \<open>initproc\<close> may be woken.\<close>

definition handed_over :: "pptr \<Rightarrow> pptr \<Rightarrow> pptr \<Rightarrow> (pptr \<Rightarrow> proc_struct) \<Rightarrow> pptr \<Rightarrow> proc_struct" where
  "handed_over c init p ps z = (ps z)
     \<lparr>cptr := if z = init then Some p else if z = c then optr (ps p) else cptr (ps z),
      yptr := if z = p then None else if cptr (ps init) = Some z then Some p else yptr (ps z),
      optr := if z = p then cptr (ps init) else optr (ps z),
      parent := if z = p then Some init else parent (ps z)\<rparr>"

lemma family_handed_over:
  assumes fam: "family_at c y A ps ch" and ch: "ch c = p # xs"
    and ne: "c \<noteq> init" and mem: "c \<in> A" "init \<in> A"
  shows "family_at c (Some p) A (handed_over c init p ps) (ch(c := xs, init := p # ch init))"
proof -
  let ?ps' = "handed_over c init p ps" and ?ch' = "ch(c := xs, init := p # ch init)"
  have sp: "sibs ps q (if q = c then y else None) (cptr (ps q)) (ch q)" "distinct (ch q)" "set (ch q) \<subseteq> A"
    if "q \<in> A" for q using fam that by (auto simp: family_at_def)
  have hi: "cptr (ps init) = (case ch init of [] \<Rightarrow> None | x # _ \<Rightarrow> Some x)"
    by (rule sibs_head [OF sp(1) [OF mem(2)]])
  have pin: "p \<in> set (ch c)" using ch by simp
  have pni: "p \<notin> set (ch q)" if "q \<noteq> c" for q using family_at_disjoint [OF fam pin] that by blast
  have hin: "cptr (ps init) = Some z \<Longrightarrow> z \<in> set (ch init)" for z using hi by (auto split: list.splits)
  have keep: "sibs ?ps' q r h zs \<longleftrightarrow> sibs ps q r h zs"
    if "p \<notin> set zs" "\<And>z. cptr (ps init) = Some z \<Longrightarrow> z \<notin> set zs" for q r h zs
    using that by (intro sibs_cong) (auto simp: handed_over_def)
  have main: "sibs ?ps' q (if q = c then Some p else None) (cptr (?ps' q)) (?ch' q)" if "q \<in> A" for q
  proof -
    consider (c) "q = c" | (i) "q = init" "q \<noteq> c" | (o) "q \<noteq> init" "q \<noteq> c" by blast
    then show ?thesis
    proof cases
      case c
      have "sibs ps c (Some p) (optr (ps p)) xs" using sp(1) [OF mem(1)] ch by simp
      moreover have "p \<notin> set xs" using sp(2) [OF mem(1)] ch by simp
      moreover have "z \<notin> set xs" if "cptr (ps init) = Some z" for z
        using family_at_disjoint [OF fam hin [OF that], of c] ne ch by auto
      ultimately have "sibs ?ps' c (Some p) (optr (ps p)) xs" using keep by blast
      with c ne show ?thesis by (simp add: handed_over_def)
    next
      case i
      have "sibs ?ps' init (Some p) (cptr (ps init)) (ch init)"
      proof (cases "ch init")
        case Nil
        with hi show ?thesis by simp
      next
        case (Cons x zs)
        with hi have cx: "cptr (ps init) = Some x" by simp
        have s: "sibs ps init (Some x) (optr (ps x)) zs" "parent (ps x) = Some init"
          using sp(1) [OF mem(2)] Cons by simp_all
        have "x \<noteq> p" "p \<notin> set zs" using pni [of init] Cons ne by auto
        moreover have "x \<notin> set zs" using sp(2) [OF mem(2)] Cons by simp
        ultimately have "sibs ?ps' init (Some x) (optr (ps x)) zs" using keep [of zs] s(1) cx by auto
        with Cons cx s(2) \<open>x \<noteq> p\<close> show ?thesis by (simp add: handed_over_def)
      qed
      with i show ?thesis by (simp add: handed_over_def)
    next
      case o
      have "z \<notin> set (ch q)" if "cptr (ps init) = Some z" for z
        using family_at_disjoint [OF fam hin [OF that], of q] o(1) by auto
      with keep [of "ch q"] pni [OF o(2)] sp(1) [OF \<open>q \<in> A\<close>] o show ?thesis
        by (simp add: handed_over_def)
    qed
  qed
  have "distinct (?ch' q)" "set (?ch' q) \<subseteq> A" if "q \<in> A" for q
    using sp(2,3) [OF that] sp(2,3) [OF mem(1)] ch pni [of q] ne by (auto split: if_splits)
  moreover have "?ch' q = []" if "q \<notin> A" for q
    using fam mem that by (auto simp: family_at_def)
  ultimately show ?thesis using main by (simp add: family_at_def)
qed

definition woken :: "proc_struct \<Rightarrow> proc_struct" where
  "woken d = d\<lparr>state := PROC_RUNNABLE, wait_state := 0\<rparr>"

definition wake_init :: "bool \<Rightarrow> pptr \<Rightarrow> (pptr \<Rightarrow> proc_struct) \<Rightarrow> pptr \<Rightarrow> proc_struct" where
  "wake_init z init ps = (if z \<and> wait_state (ps init) = WT_CHILD then ps(init := woken (ps init)) else ps)"

lemma wakeup_proc_sleeping:
  "state (procs s p) = PROC_SLEEPING \<Longrightarrow> wakeup_proc p s = Some (s\<lparr>procs := (procs s)(p := woken (procs s p))\<rparr>)"
  by (simp add: wakeup_proc_def upd_proc_def woken_def)

lemma reparent_step_eq:
  assumes "current s \<noteq> initproc s" "p \<noteq> current s" "p \<noteq> initproc s" "cptr (procs s (initproc s)) \<noteq> Some p"
    and "wait_state (procs s (initproc s)) = WT_CHILD \<Longrightarrow> state (procs s (initproc s)) = PROC_SLEEPING"
  shows "reparent_step p s = Some (s\<lparr>procs := wake_init (state (procs s p) = PROC_ZOMBIE) (initproc s)
    (handed_over (current s) (initproc s) p (procs s))\<rparr>)"
proof -
  let ?c = "current s" and ?i = "initproc s"
  define s6 where "s6 = (let s1 = upd_proc ?c (\<lambda>d. d\<lparr>cptr := optr (procs s p)\<rparr>) s;
          s2 = upd_proc p (\<lambda>d. d\<lparr>yptr := None\<rparr>) s1;
          s3 = upd_proc p (\<lambda>d. d\<lparr>optr := cptr (procs s2 ?i)\<rparr>) s2;
          s4 = (case optr (procs s3 p) of None \<Rightarrow> s3
                | Some _ \<Rightarrow> (case cptr (procs s3 ?i) of None \<Rightarrow> s3
                             | Some q \<Rightarrow> upd_proc q (\<lambda>d. d\<lparr>yptr := Some p\<rparr>) s3));
          s5 = upd_proc p (\<lambda>d. d\<lparr>parent := Some ?i\<rparr>) s4
      in upd_proc ?i (\<lambda>d. d\<lparr>cptr := Some p\<rparr>) s5)"
  have ho: "s6 = s\<lparr>procs := handed_over ?c ?i p (procs s)\<rparr>"
    using assms(1-4) unfolding s6_def
    by (cases "cptr (procs s ?i)") (auto simp: handed_over_def upd_proc_def Let_def fun_eq_iff)
  have st: "state (procs s6 z) = state (procs s z)" "wait_state (procs s6 z) = wait_state (procs s z)" for z
    by (simp_all add: ho handed_over_def)
  have "reparent_step p s = (if state (procs s6 p) = PROC_ZOMBIE \<and> wait_state (procs s6 ?i) = WT_CHILD
      then wakeup_proc ?i s6 else Some s6)"
    unfolding reparent_step_def s6_def Let_def by (rule refl)
  also have "\<dots> = Some (s6\<lparr>procs := wake_init (state (procs s p) = PROC_ZOMBIE) ?i (procs s6)\<rparr>)"
    using assms(5) wakeup_proc_sleeping [of s6 ?i] by (simp add: st wake_init_def)
  finally show ?thesis by (simp add: ho)
qed

lemma family_at_cong:
  assumes "family_at c y A ps ch"
    and "\<And>p. yptr (ps' p) = yptr (ps p) \<and> optr (ps' p) = optr (ps p) \<and> parent (ps' p) = parent (ps p)
      \<and> cptr (ps' p) = cptr (ps p)"
  shows "family_at c y A ps' ch"
proof -
  have "sibs ps' p r h xs \<longleftrightarrow> sibs ps p r h xs" for p r h xs using assms(2) by (intro sibs_cong) auto
  with assms show ?thesis by (simp add: family_at_def)
qed

text \<open>What the hand-over leaves alone, in every descriptor.\<close>

definition same_core :: "proc_struct \<Rightarrow> proc_struct \<Rightarrow> bool" where
  "same_core d e \<longleftrightarrow> pid d = pid e \<and> kstack d = kstack e \<and> p_mm d = p_mm e \<and> p_cr3 d = p_cr3 e
     \<and> exit_code d = exit_code e \<and> p_flags d = p_flags e \<and> tframe d = tframe e
     \<and> p_context d = p_context e \<and> runs d = runs e"

lemma same_core_trans: "same_core d e \<Longrightarrow> same_core e f \<Longrightarrow> same_core d f"
  by (simp add: same_core_def)

lemma same_core_refl: "same_core d d"
  by (simp add: same_core_def)

lemma reparent_loop_ok:
  assumes "family_at c y A (procs s) ch" "c = current s" "init = initproc s" "c \<noteq> init" "c \<in> A" "init \<in> A"
    and "init \<notin> set (ch c)" "c \<notin> set (ch c)" "ch c = xs"
    and "wait_state (procs s init) = WT_CHILD \<Longrightarrow> state (procs s init) = PROC_SLEEPING"
  shows "\<exists>s'. reparent_loop s = Some s' \<and> s' = s\<lparr>procs := procs s'\<rparr>
    \<and> family A (procs s') (ch(c := [], init := rev xs @ ch init))
    \<and> (\<forall>z. same_core (procs s' z) (procs s z))
    \<and> (\<forall>z. z \<noteq> init \<longrightarrow> state (procs s' z) = state (procs s z) \<and> wait_state (procs s' z) = wait_state (procs s z))
    \<and> (if (\<exists>x \<in> set xs. state (procs s x) = PROC_ZOMBIE) \<and> wait_state (procs s init) = WT_CHILD
       then state (procs s' init) = PROC_RUNNABLE \<and> wait_state (procs s' init) = 0
       else state (procs s' init) = state (procs s init) \<and> wait_state (procs s' init) = wait_state (procs s init))"
  using assms
proof (induction xs arbitrary: s ch y)
  case Nil
  have "sibs (procs s) c y (cptr (procs s c)) (ch c)" using Nil.prems(1,5) by (auto simp: family_at_def)
  then have "cptr (procs s c) = None" using Nil.prems(9) by simp
  then have "reparent_loop s = Some s" using Nil.prems(2) by (subst reparent_loop.simps) simp
  moreover have "ch(c := [], init := rev [] @ ch init) = ch" using Nil.prems(9) by (simp add: fun_eq_iff)
  moreover have "family A (procs s) (ch(c := [], init := rev [] @ ch init))"
    unfolding calculation(2) by (rule family_at_Nil [OF Nil.prems(1,9)])
  ultimately show ?case by (intro exI [of _ s] conjI) (assumption | simp add: same_core_refl)+
next
  case (Cons p xs)
  have si: "sibs (procs s) init None (cptr (procs s init)) (ch init)"
    using Cons.prems(1,4,6) by (auto simp: family_at_def)
  have "sibs (procs s) c y (cptr (procs s c)) (ch c)" using Cons.prems(1,5) by (auto simp: family_at_def)
  then have hd: "cptr (procs s c) = Some p" using Cons.prems(9) by simp
  have pc: "p \<in> set (ch c)" using Cons.prems(9) by simp
  have "p \<notin> set (ch init)" using family_at_disjoint [OF Cons.prems(1) pc] Cons.prems(4) by blast
  then have np: "cptr (procs s init) \<noteq> Some p" using sibs_head [OF si] by (auto split: list.splits)
  have ne: "p \<noteq> c" "p \<noteq> init" using Cons.prems(7,8) pc by auto
  define ps' where "ps' = wake_init (state (procs s p) = PROC_ZOMBIE) init (handed_over c init p (procs s))"
  define s1 where "s1 = s\<lparr>procs := ps'\<rparr>"
  have step: "reparent_step p s = Some s1"
    using reparent_step_eq [of s p] Cons.prems(2-4,10) ne np by (simp add: s1_def ps'_def)
  have loop: "reparent_loop s = reparent_loop s1"
    using hd step Cons.prems(2) by (subst reparent_loop.simps) simp
  have "distinct (ch c)" using Cons.prems(1,5) by (auto simp: family_at_def)
  then have pxs: "p \<notin> set xs" using Cons.prems(9) by simp
  have fam1: "family_at c (Some p) A ps' (ch(c := xs, init := p # ch init))"
    using family_handed_over [OF Cons.prems(1,9,4-6)]
    by (rule family_at_cong) (auto simp: ps'_def wake_init_def woken_def)
  have st: "z \<noteq> init \<Longrightarrow> state (ps' z) = state (procs s z) \<and> wait_state (ps' z) = wait_state (procs s z)"
    and core: "same_core (ps' z) (procs s z)" for z
    by (auto simp: ps'_def wake_init_def woken_def handed_over_def same_core_def)
  have w1: "state (procs s p) = PROC_ZOMBIE \<and> wait_state (procs s init) = WT_CHILD
      \<Longrightarrow> state (ps' init) = PROC_RUNNABLE \<and> wait_state (ps' init) = 0"
    and w2: "\<not> (state (procs s p) = PROC_ZOMBIE \<and> wait_state (procs s init) = WT_CHILD)
      \<Longrightarrow> state (ps' init) = state (procs s init) \<and> wait_state (ps' init) = wait_state (procs s init)"
    by (auto simp: ps'_def wake_init_def woken_def handed_over_def)
  have wt: "WT_CHILD \<noteq> 0" by (simp add: WT_CHILD_def WT_INTERRUPTED_def)
  have "\<exists>s'. reparent_loop s1 = Some s' \<and> s' = s1\<lparr>procs := procs s'\<rparr>
    \<and> family A (procs s') ((ch(c := xs, init := p # ch init))
        (c := [], init := rev xs @ (ch(c := xs, init := p # ch init)) init))
    \<and> (\<forall>z. same_core (procs s' z) (procs s1 z))
    \<and> (\<forall>z. z \<noteq> init \<longrightarrow> state (procs s' z) = state (procs s1 z) \<and> wait_state (procs s' z) = wait_state (procs s1 z))
    \<and> (if (\<exists>x \<in> set xs. state (procs s1 x) = PROC_ZOMBIE) \<and> wait_state (procs s1 init) = WT_CHILD
       then state (procs s' init) = PROC_RUNNABLE \<and> wait_state (procs s' init) = 0
       else state (procs s' init) = state (procs s1 init) \<and> wait_state (procs s' init) = wait_state (procs s1 init))"
  proof (rule Cons.IH)
    show "family_at c (Some p) A (procs s1) (ch(c := xs, init := p # ch init))" using fam1 by (simp add: s1_def)
    show "init \<notin> set ((ch(c := xs, init := p # ch init)) c)" "c \<notin> set ((ch(c := xs, init := p # ch init)) c)"
      "(ch(c := xs, init := p # ch init)) c = xs"
      using Cons.prems(4,7-9) by auto
    show "state (procs s1 init) = PROC_SLEEPING" if "wait_state (procs s1 init) = WT_CHILD"
    proof (cases "state (procs s p) = PROC_ZOMBIE \<and> wait_state (procs s init) = WT_CHILD")
      case True
      from w1 [OF this] that wt show ?thesis by (simp add: s1_def)
    next
      case False
      from w2 [OF this] that Cons.prems(10) show ?thesis by (simp add: s1_def)
    qed
  qed (use Cons.prems in \<open>auto simp: s1_def\<close>)
  then obtain s' where r: "reparent_loop s1 = Some s'" "s' = s1\<lparr>procs := procs s'\<rparr>"
    "family A (procs s') ((ch(c := xs, init := p # ch init))
        (c := [], init := rev xs @ (ch(c := xs, init := p # ch init)) init))"
    "\<And>z. same_core (procs s' z) (ps' z)"
    "\<And>z. z \<noteq> init \<Longrightarrow> state (procs s' z) = state (ps' z) \<and> wait_state (procs s' z) = wait_state (ps' z)"
    "if (\<exists>x \<in> set xs. state (ps' x) = PROC_ZOMBIE) \<and> wait_state (ps' init) = WT_CHILD
       then state (procs s' init) = PROC_RUNNABLE \<and> wait_state (procs s' init) = 0
       else state (procs s' init) = state (ps' init) \<and> wait_state (procs s' init) = wait_state (ps' init)"
    by (auto simp: s1_def)
  have zz: "(\<exists>x \<in> set xs. state (ps' x) = PROC_ZOMBIE) \<longleftrightarrow> (\<exists>x \<in> set xs. state (procs s x) = PROC_ZOMBIE)"
    using Cons.prems(7,9) st by (metis list.set_intros(2))
  have "(ch(c := xs, init := p # ch init)) (c := [], init := rev xs @ (ch(c := xs, init := p # ch init)) init)
      = ch(c := [], init := rev (p # xs) @ ch init)"
    using Cons.prems(4) by (auto simp: fun_eq_iff)
  with r(3) have "family A (procs s') (ch(c := [], init := rev (p # xs) @ ch init))" by simp
  moreover have "s' = s\<lparr>procs := procs s'\<rparr>" using r(2) by (simp add: s1_def)
  moreover have "same_core (procs s' z) (procs s z)" for z using same_core_trans [OF r(4) core] .
  moreover have "z \<noteq> init \<longrightarrow> state (procs s' z) = state (procs s z) \<and> wait_state (procs s' z) = wait_state (procs s z)" for z
    using r(5) [of z] st [of z] by simp
  moreover have "if (\<exists>x \<in> set (p # xs). state (procs s x) = PROC_ZOMBIE) \<and> wait_state (procs s init) = WT_CHILD
       then state (procs s' init) = PROC_RUNNABLE \<and> wait_state (procs s' init) = 0
       else state (procs s' init) = state (procs s init) \<and> wait_state (procs s' init) = wait_state (procs s init)"
  proof (cases "state (procs s p) = PROC_ZOMBIE \<and> wait_state (procs s init) = WT_CHILD")
    case True
    from w1 [OF this] wt r(6) True show ?thesis by simp
  next
    case False
    then have "(\<exists>x \<in> set (p # xs). state (procs s x) = PROC_ZOMBIE) \<and> wait_state (procs s init) = WT_CHILD
        \<longleftrightarrow> (\<exists>x \<in> set xs. state (procs s x) = PROC_ZOMBIE) \<and> wait_state (procs s init) = WT_CHILD" by auto
    then show ?thesis using r(6) [unfolded zz] w2 [OF False] by (simp only:)
  qed
  moreover have "reparent_loop s = Some s'" using r(1) loop by simp
  ultimately show ?case by blast
qed

section \<open>Exit\<close>

text \<open>Giving up the address space changes nothing the invariant looks at.\<close>

lemma release_mm_frame:
  assumes "release_mm ops mm s = Some s'"
  shows "\<exists>m cr. s' = s\<lparr>procs := (procs s)(current s := (procs s (current s))\<lparr>p_mm := None\<rparr>), kmem := m, satp := cr\<rparr>"
proof -
  from assms obtain m where "s' = upd_proc (current s) (\<lambda>d. d\<lparr>p_mm := None\<rparr>) ((lcr3 (boot_cr3 s) s)\<lparr>kmem := m\<rparr>)"
    by (auto simp: release_mm_def split: prod.splits)
  then have "s' = s\<lparr>procs := (procs s)(current s := (procs s (current s))\<lparr>p_mm := None\<rparr>), kmem := m,
      satp := 0x8000000000000000 OR drop_bit 12 (boot_cr3 s)\<rparr>"
    by (simp add: lcr3_def upd_proc_def)
  then show ?thesis by blast
qed

definition freed_mm :: "'m mem_ops \<Rightarrow> 'm kstate \<Rightarrow> 'm kstate option" where
  "freed_mm ops s = (case p_mm (procs s (current s)) of None \<Rightarrow> Some s | Some mm \<Rightarrow> release_mm ops mm s)"

lemma freed_mm_frame:
  assumes "freed_mm ops s = Some s'"
  shows "\<exists>m cr. s' = s\<lparr>procs := (procs s)(current s := (procs s (current s))\<lparr>p_mm := None\<rparr>), kmem := m, satp := cr\<rparr>"
proof (cases "p_mm (procs s (current s))")
  case None
  then have "(procs s (current s))\<lparr>p_mm := None\<rparr> = procs s (current s)" by simp
  with assms None have "s' = s\<lparr>procs := (procs s)(current s := (procs s (current s))\<lparr>p_mm := None\<rparr>),
      kmem := kmem s, satp := satp s\<rparr>" by (simp add: freed_mm_def fun_upd_idem)
  then show ?thesis by blast
next
  case (Some mm)
  with assms show ?thesis by (intro release_mm_frame) (simp add: freed_mm_def)
qed

lemma UN_move:
  assumes "c \<noteq> i"
  shows "(\<Union>q. set ((ch(c := [], i := rev (ch c) @ ch i)) q)) = (\<Union>q. set (ch q))"
proof (intro equalityI subsetI)
  fix x assume "x \<in> (\<Union>q. set (ch q))"
  then obtain q where q: "x \<in> set (ch q)" by blast
  have "x \<in> set ((ch(c := [], i := rev (ch c) @ ch i)) (if q = c then i else q))" using assms q by auto
  then show "x \<in> (\<Union>q. set ((ch(c := [], i := rev (ch c) @ ch i)) q))" by blast
qed (use assms in \<open>auto split: if_splits\<close>)

lemma exit_prepare_ok:
  assumes inv: "tree_inv s ch" and ini: "init_child s ch" and run: "running s"
    and cur: "current s \<noteq> idleproc s" "current s \<noteq> initproc s" and mem: "freed_mm ops s \<noteq> None"
  shows "\<exists>s'. exit_prepare ops code s = Some s'
    \<and> tree_inv s' (ch(current s := [], initproc s := rev (ch (current s)) @ ch (initproc s)))
    \<and> state (procs s' (current s)) = PROC_ZOMBIE \<and> exit_code (procs s' (current s)) = code
    \<and> p_mm (procs s' (current s)) = None \<and> proc_list s' = proc_list s \<and> current s' = current s
    \<and> initproc s' = initproc s \<and> idleproc s' = idleproc s
    \<and> (\<forall>par. parent (procs s (current s)) = Some par \<longrightarrow> wait_state (procs s par) = WT_CHILD
         \<longrightarrow> state (procs s' par) = PROC_RUNNABLE)
    \<and> ((\<exists>x \<in> set (ch (current s)). state (procs s x) = PROC_ZOMBIE)
         \<longrightarrow> wait_state (procs s (initproc s)) = WT_CHILD \<longrightarrow> state (procs s' (initproc s)) = PROC_RUNNABLE)"
proof -
  let ?c = "current s" and ?i = "initproc s" and ?A = "live s"
  from mem obtain s1 where s1: "freed_mm ops s = Some s1" by blast
  from freed_mm_frame [OF this] obtain m cr where
    e1: "s1 = s\<lparr>procs := (procs s)(?c := (procs s ?c)\<lparr>p_mm := None\<rparr>), kmem := m, satp := cr\<rparr>" by blast
  define s2 where "s2 = upd_proc ?c (\<lambda>d. d\<lparr>state := PROC_ZOMBIE, exit_code := code\<rparr>) s1"
  have fam: "family ?A (procs s) ch" and cA: "?c \<in> ?A" using inv by (auto simp: tree_inv_def)
  have cl: "?c \<in> set (proc_list s)" using cA cur(1) by (simp add: live_def)
  from tree_inv_parent [OF inv cl] obtain par where
    par: "?c \<in> set (ch par)" "parent (procs s ?c) = Some par" "par \<in> ?A" by blast
  have ii: "?i \<in> set (ch (idleproc s))" using ini by (simp add: init_child_def)
  have iA: "?i \<in> ?A" using tree_inv_ch [OF inv ii] by (simp add: live_def)
  have wt: "WT_CHILD \<noteq> 0" by (simp add: WT_CHILD_def WT_INTERRUPTED_def)
  have sl: "state (procs s p) = PROC_SLEEPING" if "p \<in> ?A" "wait_state (procs s p) = WT_CHILD" for p
    using inv that wt by (auto simp: tree_inv_def)
  have cw: "wait_state (procs s ?c) = 0"
    using inv run cA by (force simp: tree_inv_def running_def)
  have cni: "?c \<noteq> par" \<comment> \<open>the parent of a runnable process is another one\<close> if "wait_state (procs s par) = WT_CHILD"
    using sl [OF par(3) that] run by (auto simp: running_def)
  have cw2: "wait_state (procs s ?c) \<noteq> WT_CHILD" using cw wt by simp
  have p2: "procs s2 = (procs s)(?c := (procs s ?c)\<lparr>p_mm := None, state := PROC_ZOMBIE, exit_code := code\<rparr>)"
    "current s2 = ?c" "initproc s2 = ?i" "idleproc s2 = idleproc s" "proc_list s2 = proc_list s"
    "hash_list s2 = hash_list s" "nr_process s2 = nr_process s" "last_pid s2 = last_pid s"
    "next_safe s2 = next_safe s"
    by (simp_all add: s2_def e1)
  define s3 where "s3 = (if wait_state (procs s par) = WT_CHILD
    then s2\<lparr>procs := (procs s2)(par := woken (procs s2 par))\<rparr> else s2)"
  have w3: "(if wait_state (procs s2 par) = WT_CHILD then wakeup_proc par s2 else Some s2) = Some s3"
    using cni sl [OF par(3)] cw wt wakeup_proc_sleeping [of s2 par]
    by (cases "wait_state (procs s par) = WT_CHILD"; cases "par = ?c") (auto simp: s3_def p2)
  have st3: "state (procs s3 z) = (if z = ?c then PROC_ZOMBIE
      else if z = par \<and> wait_state (procs s par) = WT_CHILD then PROC_RUNNABLE else state (procs s z))" for z
    using cw2 by (cases "par = ?c") (simp_all add: s3_def p2 woken_def)
  have ws3: "wait_state (procs s3 z) = (if z = par \<and> wait_state (procs s par) = WT_CHILD then 0
      else wait_state (procs s z))" for z
    using cw2 by (cases "par = ?c") (simp_all add: s3_def p2 woken_def)
  have f3: "exit_code (procs s3 ?c) = code" "p_mm (procs s3 ?c) = None" "current s3 = ?c" "initproc s3 = ?i"
    "idleproc s3 = idleproc s" "proc_list s3 = proc_list s" "hash_list s3 = hash_list s"
    "nr_process s3 = nr_process s" "last_pid s3 = last_pid s" "next_safe s3 = next_safe s"
    using cw2 by (cases "par = ?c"; simp add: s3_def p2 woken_def)+
  have pid3: "pid (procs s3 z) = pid (procs s z)" and l3: "yptr (procs s3 z) = yptr (procs s z) \<and>
    optr (procs s3 z) = optr (procs s z) \<and> parent (procs s3 z) = parent (procs s z) \<and> cptr (procs s3 z) = cptr (procs s z)" for z
    by (auto simp: s3_def p2 woken_def)
  have "family ?A (procs s3) ch" by (rule family_cong [OF fam l3])
  then have fat: "family_at ?c None ?A (procs s3) ch" by (simp add: family_at_None)
  have ni: "?i \<notin> set (ch ?c)" using family_disjoint [OF fam ii, of ?c] cur(1) by auto
  have nc: "?c \<notin> set (ch ?c)" using inv by (simp add: tree_inv_def)
  have "wait_state (procs s3 ?i) = WT_CHILD \<Longrightarrow> state (procs s3 ?i) = PROC_SLEEPING"
    using sl [OF iA] wt cur(2) by (simp add: st3 ws3 split: if_splits)
  from reparent_loop_ok [OF fat f3(3) [symmetric] f3(4) [symmetric] cur(2) cA iA ni nc refl this]
  obtain s4 where r: "reparent_loop s3 = Some s4" and e4: "s4 = s3\<lparr>procs := procs s4\<rparr>"
    and fam4: "family ?A (procs s4) (ch(?c := [], ?i := rev (ch ?c) @ ch ?i))"
    and core: "\<And>z. same_core (procs s4 z) (procs s3 z)"
    and st4: "\<And>z. z \<noteq> ?i \<Longrightarrow> state (procs s4 z) = state (procs s3 z) \<and> wait_state (procs s4 z) = wait_state (procs s3 z)"
    and wi: "if (\<exists>x \<in> set (ch ?c). state (procs s3 x) = PROC_ZOMBIE) \<and> wait_state (procs s3 ?i) = WT_CHILD
       then state (procs s4 ?i) = PROC_RUNNABLE \<and> wait_state (procs s4 ?i) = 0
       else state (procs s4 ?i) = state (procs s3 ?i) \<and> wait_state (procs s4 ?i) = wait_state (procs s3 ?i)"
    by blast
  have f4: "proc_list s4 = proc_list s" "idleproc s4 = idleproc s" "initproc s4 = ?i" "current s4 = ?c"
    "hash_list s4 = hash_list s" "nr_process s4 = nr_process s" "last_pid s4 = last_pid s"
    "next_safe s4 = next_safe s"
    by (subst e4, simp add: f3)+
  have "current s1 = ?c" "parent (procs s1 ?c) = Some par" by (simp_all add: e1 par(2))
  then have "exit_prepare ops code s
      = Option.bind (if wait_state (procs s2 par) = WT_CHILD then wakeup_proc par s2 else Some s2) reparent_loop"
    using cur s1 unfolding exit_prepare_def freed_mm_def s2_def Let_def by simp
  then have ex: "exit_prepare ops code s = Some s4" using w3 r by simp
  have "ptab_inv s4"
    using inv core by (intro ptab_inv_cong [of s s4]) (simp_all add: tree_inv_def f4 same_core_def pid3)
  moreover have "live s4 = ?A" by (simp add: live_def f4)
  moreover have "(\<Union>q. set ((ch(?c := [], ?i := rev (ch ?c) @ ch ?i)) q)) = (\<Union>q. set (ch q))"
    using cur(2) by (rule UN_move)
  moreover have "\<forall>q. q \<notin> set ((ch(?c := [], ?i := rev (ch ?c) @ ch ?i)) q)"
    using inv ni by (simp add: tree_inv_def)
  moreover have "current s4 \<in> ?A" using cA by (simp add: f4)
  moreover have idle: "idleproc s \<noteq> ?i"
    using tree_inv_ch [OF inv ii] inv by (auto simp: tree_inv_def ptab_inv_def)
  have "state (procs s4 (idleproc s)) = PROC_RUNNABLE"
    using st4 [OF idle] st3 [of "idleproc s"] inv cur(1) by (simp add: tree_inv_def)
  moreover have slp: "state (procs s4 z) = PROC_SLEEPING" if "z \<in> ?A" "wait_state (procs s4 z) \<noteq> 0" for z
  proof -
    have 3: "state (procs s3 z) = PROC_SLEEPING" if "wait_state (procs s3 z) \<noteq> 0"
      using inv that \<open>z \<in> ?A\<close> cw by (auto simp: st3 ws3 tree_inv_def split: if_splits)
    show ?thesis
    proof (cases "z = ?i")
      case True
      with that(2) wi 3 show ?thesis by (auto split: if_splits)
    next
      case False
      with st4 that(2) 3 show ?thesis by simp
    qed
  qed
  ultimately have "tree_inv s4 (ch(?c := [], ?i := rev (ch ?c) @ ch ?i))"
    using inv fam4 by (simp add: tree_inv_def f4)
  moreover have "state (procs s4 ?c) = PROC_ZOMBIE" using st4 [OF cur(2)] by (simp add: st3)
  moreover have "exit_code (procs s4 ?c) = code" "p_mm (procs s4 ?c) = None"
    using core [of ?c] f3(1,2) by (simp_all add: same_core_def)
  moreover have wake_par: "state (procs s4 par) = PROC_RUNNABLE" if w: "wait_state (procs s par) = WT_CHILD"
  proof (cases "par = ?i")
    case True
    have "wait_state (procs s3 ?i) \<noteq> WT_CHILD" using True w wt by (simp add: ws3)
    with wi True st3 [of par] cni [OF w] w show ?thesis by auto
  next
    case False
    with st4 [OF False] st3 [of par] cni [OF w] w show ?thesis by auto
  qed
  moreover have "state (procs s4 ?i) = PROC_RUNNABLE"
    if x: "\<exists>x \<in> set (ch ?c). state (procs s x) = PROC_ZOMBIE" and w: "wait_state (procs s ?i) = WT_CHILD"
  proof (cases "par = ?i")
    case True
    with wake_par w show ?thesis by simp
  next
    case False
    from x obtain x where x: "x \<in> set (ch ?c)" "state (procs s x) = PROC_ZOMBIE" by blast
    have "\<not> (x = par \<and> wait_state (procs s par) = WT_CHILD)" using sl [OF par(3)] x(2) by auto
    then have "state (procs s3 x) = PROC_ZOMBIE" using st3 [of x] x(2) by auto
    then have "\<exists>x \<in> set (ch ?c). state (procs s3 x) = PROC_ZOMBIE" using x(1) by blast
    moreover have "wait_state (procs s3 ?i) = WT_CHILD" using False w by (simp add: ws3)
    ultimately show ?thesis using wi by simp
  qed
  ultimately show ?thesis using ex f4 par(2) by auto
qed

text \<open>C5: Exit: a process other than \<open>idleproc\<close> and \<open>initproc\<close> that gives up its address
  space turns into a zombie with its exit code and is never chosen again by the scheduling that
  follows; all its children become the youngest children of \<open>initproc\<close>, in reverse order; a
  parent that waits for a child is woken, and so is \<open>initproc\<close> when one of the children it gets
  is a zombie; the process table and the family tree stay well-formed and a runnable process runs.\<close>

theorem do_exit_hands_over:
  assumes "tree_inv s ch" "init_child s ch" "running s"
    and "current s \<noteq> idleproc s" "current s \<noteq> initproc s" "freed_mm ops s \<noteq> None"
  shows "\<exists>s'. do_exit ops code s = Some s'
    \<and> tree_inv s' (ch(current s := [], initproc s := rev (ch (current s)) @ ch (initproc s)))
    \<and> running s' \<and> current s' \<noteq> current s
    \<and> state (procs s' (current s)) = PROC_ZOMBIE \<and> exit_code (procs s' (current s)) = code
    \<and> p_mm (procs s' (current s)) = None
    \<and> (\<forall>par. parent (procs s (current s)) = Some par \<longrightarrow> wait_state (procs s par) = WT_CHILD
         \<longrightarrow> state (procs s' par) = PROC_RUNNABLE)
    \<and> ((\<exists>x \<in> set (ch (current s)). state (procs s x) = PROC_ZOMBIE)
         \<longrightarrow> wait_state (procs s (initproc s)) = WT_CHILD \<longrightarrow> state (procs s' (initproc s)) = PROC_RUNNABLE)"
proof -
  from exit_prepare_ok [OF assms, of code] obtain s1 where
    1: "exit_prepare ops code s = Some s1"
    "tree_inv s1 (ch(current s := [], initproc s := rev (ch (current s)) @ ch (initproc s)))"
    and z: "state (procs s1 (current s)) = PROC_ZOMBIE" "exit_code (procs s1 (current s)) = code"
    "p_mm (procs s1 (current s)) = None" "current s1 = current s" 
    and w: "\<forall>par. parent (procs s (current s)) = Some par \<longrightarrow> wait_state (procs s par) = WT_CHILD
         \<longrightarrow> state (procs s1 par) = PROC_RUNNABLE"
      "(\<exists>x \<in> set (ch (current s)). state (procs s x) = PROC_ZOMBIE)
         \<longrightarrow> wait_state (procs s (initproc s)) = WT_CHILD \<longrightarrow> state (procs s1 (initproc s)) = PROC_RUNNABLE"
    by blast
  from schedule_ok [OF 1(2)] obtain s' where 2: "schedule s1 = Some s'"
    "tree_inv s' (ch(current s := [], initproc s := rev (ch (current s)) @ ch (initproc s)))" "running s'"
    "\<And>p. state (procs s' p) = state (procs s1 p)" "\<And>p. exit_code (procs s' p) = exit_code (procs s1 p)"
    "\<And>p. p_mm (procs s' p) = p_mm (procs s1 p)" by blast
  have "current s' \<noteq> current s" using 2(3,4) z(1) by (auto simp: running_def)
  then show ?thesis using 1(1) 2 z w by (simp add: do_exit_def)
qed

end
