(* ===== verification/Process_Wait.thy ===== *)
theory Process_Wait
  imports Process_Exit
begin

text \<open>
  \<open>do_wait\<close> and \<open>do_kill\<close>: which child is reaped, what reaping leaves behind, when the caller
  sleeps, and what a kill does to its target.
\<close>

section \<open>Looking for a zombie\<close>

lemma wait_children_found:
  assumes "sibs ps par y h (as @ p # bs)" "\<forall>a \<in> set as. state (ps a) \<noteq> PROC_ZOMBIE" "state (ps p) = PROC_ZOMBIE"
  shows "wait_children ps h b = Some (Some p, True)"
  using assms
proof (induction as arbitrary: y h b)
  case Nil
  then show ?case by (subst wait_children.simps) simp
next
  case (Cons a as)
  have "wait_children ps (optr (ps a)) True = Some (Some p, True)"
    by (rule Cons.IH [where y = "Some a"]) (use Cons.prems in simp_all)
  with Cons.prems show ?case by (subst wait_children.simps) simp
qed

lemma wait_children_none:
  assumes "sibs ps par y h xs" "\<forall>a \<in> set xs. state (ps a) \<noteq> PROC_ZOMBIE"
  shows "wait_children ps h b = Some (None, b \<or> xs \<noteq> [])"
  using assms
proof (induction xs arbitrary: y h b)
  case Nil
  then show ?case by (subst wait_children.simps) simp
next
  case (Cons a as)
  have "wait_children ps (optr (ps a)) True = Some (None, True \<or> as \<noteq> [])"
    by (rule Cons.IH [where y = "Some a"]) (use Cons.prems in simp_all)
  with Cons.prems show ?case by (subst wait_children.simps) simp
qed

lemma tree_inv_sibs:
  assumes "tree_inv s ch"
  shows "sibs (procs s) (current s) None (cptr (procs s (current s))) (ch (current s))"
  using assms by (auto simp: tree_inv_def family_def)

section \<open>Reaping\<close>

lemma unhash_frame:
  "procs (unhash_proc p s) = procs s" "proc_list (unhash_proc p s) = proc_list s"
  "idleproc (unhash_proc p s) = idleproc s" "initproc (unhash_proc p s) = initproc s"
  "current (unhash_proc p s) = current s" "nr_process (unhash_proc p s) = nr_process s"
  "last_pid (unhash_proc p s) = last_pid s" "next_safe (unhash_proc p s) = next_safe s"
  "kmem (unhash_proc p s) = kmem s" "hash_list (unhash_proc p s) b = remove1 p (hash_list s b)"
  by (simp_all add: unhash_proc_def)

lemma UN_remove:
  assumes "ch c = as @ p # bs" "distinct (ch c)" "\<And>q. q \<noteq> c \<Longrightarrow> p \<notin> set (ch q)"
  shows "(\<Union>q. set ((ch(c := as @ bs)) q)) = (\<Union>q. set (ch q)) - {p}"
proof -
  have e: "set ((ch(c := as @ bs)) q) = set (ch q) - {p}" for q
    using assms(1,2) assms(3) [of q] by auto
  show ?thesis unfolding e by blast
qed

lemma unlink_ok:
  assumes inv: "tree_inv s ch" and ch: "ch c = as @ p # bs" and leaf: "ch p = []" and ne: "p \<noteq> current s"
    and s1: "s1 = s\<lparr>kmem := m\<rparr>"
  shows "\<exists>s'. remove_links p (unhash_proc p s1) = Some s' \<and> tree_inv s' (ch(c := as @ bs))
    \<and> proc_list s' = remove1 p (proc_list s) \<and> current s' = current s \<and> initproc s' = initproc s
    \<and> idleproc s' = idleproc s \<and> kmem s' = m \<and> p \<notin> live s'
    \<and> (\<forall>q. state (procs s' q) = state (procs s q) \<and> kstack (procs s' q) = kstack (procs s q)
         \<and> pid (procs s' q) = pid (procs s q))"
proof -
  let ?u = "unhash_proc p s1"
  have fam: "family (live s) (procs s) ch" and tab: "ptab_inv s"
    and un: "(\<Union>q. set (ch q)) = set (proc_list s)" using inv by (auto simp: tree_inv_def)
  have pin: "p \<in> set (ch c)" using ch by simp
  have pl: "p \<in> set (proc_list s)" by (rule tree_inv_ch [OF inv pin])
  have pi: "p \<noteq> idleproc s" using pl tab by (auto simp: ptab_inv_def)
  have "family (live s) (procs ?u) ch" using fam by (simp add: unhash_frame s1)
  from family_remove_links [OF this ch] obtain s' where s': "remove_links p ?u = Some s'"
    "family (live s) (procs s') (ch(c := as @ bs))" by blast
  note fr = remove_links_frame [OF s'(1), unfolded unhash_frame] and frp = remove_links_proc [OF s'(1), unfolded unhash_frame]
  have f: "proc_list s' = remove1 p (proc_list s)" "idleproc s' = idleproc s" "initproc s' = initproc s"
    "current s' = current s" "nr_process s' = nr_process s - 1" "last_pid s' = last_pid s"
    "next_safe s' = next_safe s" "kmem s' = m" "\<And>b. hash_list s' b = remove1 p (hash_list s b)"
    and g: "\<And>q. pid (procs s' q) = pid (procs s q)" "\<And>q. state (procs s' q) = state (procs s q)"
    "\<And>q. wait_state (procs s' q) = wait_state (procs s q)" "\<And>q. kstack (procs s' q) = kstack (procs s q)"
    by (simp_all add: fr frp unhash_frame s1)
  have dl: "distinct (proc_list s)" using tab by (simp add: ptab_inv_def)
  have setl: "set (proc_list s') = set (proc_list s) - {p}" using dl by (simp add: f)
  have lv: "live s' = live s - {p}" using pi unfolding live_def setl by (simp add: f insert_Diff_if)
  have other: "p \<notin> set (ch q)" if "q \<noteq> c" for q using family_disjoint [OF fam pin] that by blast
  have pc: "p \<noteq> c" using leaf ch by auto
  have dch: "distinct (ch c)" by (rule family_distinct [OF fam])
  have "family (live s - {p}) (procs s') (ch(c := as @ bs))"
  proof (rule family_Diff [OF s'(2)])
    show "(ch(c := as @ bs)) p = []" using leaf pc by simp
    show "p \<notin> set ((ch(c := as @ bs)) q)" for q using other [of q] dch ch by auto
  qed
  moreover have "ptab_inv s'"
    unfolding ptab_inv_def
  proof (intro conjI allI)
    have pids: "set (pids s') \<subseteq> set (pids s)" by (auto simp: pids_def g setl)
    show "distinct (proc_list s')" using dl by (simp add: f)
    have "inj_on (\<lambda>q. pid (procs s q)) (set (proc_list s))" using tab by (simp add: ptab_inv_def pids_def distinct_map)
    then have "inj_on (\<lambda>q. pid (procs s q)) (set (proc_list s'))"
      by (rule inj_on_subset) (auto simp: setl)
    with dl show "distinct (pids s')" by (simp add: pids_def distinct_map g f)
    show "pid_inv s'" using tab pids by (auto simp: pid_inv_def f ptab_inv_def)
    show "idleproc s' \<notin> set (proc_list s')" using tab by (simp add: setl f ptab_inv_def)
    show "nr_process s' = int (length (proc_list s')) + 1"
    proof -
      have "length (proc_list s) = Suc (length (remove1 p (proc_list s)))"
        using pl length_pos_if_in_set [OF pl] by (simp add: length_remove1)
      then show ?thesis using tab by (simp add: f ptab_inv_def)
    qed
    fix b
    have hb: "distinct (hash_list s b)" "set (hash_list s b) = {q \<in> set (proc_list s). pid_hashfn (pid (procs s q)) = b}"
      using tab by (auto simp: ptab_inv_def)
    show "distinct (hash_list s' b)" using hb(1) by (simp add: f)
    have "set (hash_list s' b) = set (hash_list s b) - {p}" using hb(1) by (simp add: f)
    then show "set (hash_list s' b) = {q \<in> set (proc_list s'). pid_hashfn (pid (procs s' q)) = b}"
      unfolding hb(2) setl g by blast
  qed
  moreover have "(\<Union>q. set ((ch(c := as @ bs)) q)) = set (proc_list s')"
    using UN_remove [of ch c as p bs] ch dch other un setl by simp
  moreover have "\<forall>q. q \<notin> set ((ch(c := as @ bs)) q)"
  proof
    fix q
    have "q \<notin> set (ch q)" using inv by (simp add: tree_inv_def)
    then show "q \<notin> set ((ch(c := as @ bs)) q)" using ch by (cases "q = c") auto
  qed
  moreover have "current s' \<in> live s'" using inv ne by (simp add: lv f tree_inv_def)
  moreover have "state (procs s' (idleproc s')) = PROC_RUNNABLE" using inv by (simp add: f g tree_inv_def)
  moreover have "\<forall>q \<in> live s'. wait_state (procs s' q) \<noteq> 0 \<longrightarrow> state (procs s' q) = PROC_SLEEPING"
    using inv by (simp add: lv g tree_inv_def)
  ultimately have "tree_inv s' (ch(c := as @ bs))" by (simp add: tree_inv_def lv)
  then show ?thesis using s'(1) f g lv by auto
qed

lemma tree_inv_kmem: "tree_inv s ch \<Longrightarrow> tree_inv (s\<lparr>kmem := m\<rparr>) ch"
  by (rule tree_inv_cong) (auto simp: tree_inv_def live_def)

lemma reap_ok:
  assumes inv: "tree_inv s ch" and ch: "ch c = as @ p # bs" and leaf: "ch p = []" and ne: "p \<noteq> current s"
    and p: "p \<noteq> initproc s" "KERNBASE \<le> kstack (procs s p)"
    and free: "\<And>m. free_stack ops (kstack (procs s p)) m \<noteq> None"
  shows "\<exists>s'. reap ops code_store p s = Some s' \<and> tree_inv s' (ch(c := as @ bs))
    \<and> proc_list s' = remove1 p (proc_list s) \<and> p \<notin> live s' \<and> current s' = current s
    \<and> (\<forall>q. state (procs s' q) = state (procs s q) \<and> pid (procs s' q) = pid (procs s q))"
proof -
  have pin: "p \<in> set (ch c)" using ch by simp
  have pi: "p \<noteq> idleproc s" using tree_inv_ch [OF inv pin] inv by (auto simp: tree_inv_def ptab_inv_def)
  define m where "m = (if code_store \<noteq> 0
    then store_user_int ops (p_mm (procs s (current s))) code_store (exit_code (procs s p)) (kmem s) else kmem s)"
  have e: "(if code_store \<noteq> 0 then s\<lparr>kmem := store_user_int ops (p_mm (procs s (current s))) code_store
    (exit_code (procs s p)) (kmem s)\<rparr> else s) = s\<lparr>kmem := m\<rparr>" by (simp add: m_def)
  from unlink_ok [OF inv ch leaf ne refl, of m] obtain s2 where
    2: "remove_links p (unhash_proc p (s\<lparr>kmem := m\<rparr>)) = Some s2" "tree_inv s2 (ch(c := as @ bs))"
    "proc_list s2 = remove1 p (proc_list s)" "current s2 = current s" "p \<notin> live s2"
    "\<And>q. state (procs s2 q) = state (procs s q)" "\<And>q. kstack (procs s2 q) = kstack (procs s q)"
    "\<And>q. pid (procs s2 q) = pid (procs s q)" by blast
  from free [of "kmem s2"] obtain m' where m': "free_stack ops (kstack (procs s p)) (kmem s2) = Some m'" by blast
  define s3 where "s3 = s2\<lparr>kmem := kfree_proc ops p m'\<rparr>"
  have "reap ops code_store p s = Some s3"
    using pi p 2(1) m' e by (simp add: reap_def put_kstack_def 2(7) s3_def not_less [symmetric] Let_def)
  moreover have "tree_inv s3 (ch(c := as @ bs))" using 2(2) unfolding s3_def by (rule tree_inv_kmem)
  ultimately show ?thesis using 2 by (auto simp: s3_def live_def)
qed

text \<open>C6: Wait for any child: the first zombie in the caller's list of children, which has no children left since they
  went to \<open>initproc\<close> when it died, is reaped. The call returns 0, the child is off the process list, the hash lists and the family tree, its
  stack and its descriptor are freed, the table and the tree stay well-formed.\<close>

theorem do_wait_reaps:
  assumes "tree_inv s ch" "init_child s ch" "running s" "ch (current s) = as @ p # bs" "ch p = []"
    and "\<forall>a \<in> set as. state (procs s a) \<noteq> PROC_ZOMBIE" "state (procs s p) = PROC_ZOMBIE" "p \<noteq> initproc s"
    and "KERNBASE \<le> kstack (procs s p)" "\<And>m. free_stack ops (kstack (procs s p)) m \<noteq> None"
  shows "\<exists>s'. do_wait ops 0 0 s = Some (Returned 0 s') \<and> tree_inv s' (ch(current s := as @ bs))
    \<and> proc_list s' = remove1 p (proc_list s) \<and> p \<notin> live s' \<and> find_proc (pid (procs s p)) s' = None
    \<and> current s' = current s \<and> running s'"
proof -
  have ne: "p \<noteq> current s" using assms(3,7) by (auto simp: running_def)
  from reap_ok [OF assms(1,4,5) ne assms(8-10), of 0] obtain s' where
    r: "reap ops 0 p s = Some s'" "tree_inv s' (ch(current s := as @ bs))"
    "proc_list s' = remove1 p (proc_list s)" "p \<notin> live s'" "current s' = current s"
    "\<And>q. state (procs s' q) = state (procs s q)" "\<And>q. pid (procs s' q) = pid (procs s q)" by blast
  have "wait_scan 0 s = Some (Some p, True)"
    using wait_children_found [OF tree_inv_sibs [OF assms(1), unfolded assms(4)] assms(6,7)]
    by (simp add: wait_scan_def)
  with r(1) have w: "do_wait ops 0 0 s = Some (Returned 0 s')" by (simp add: do_wait_def wait_repeat_def)
  have "find_proc (pid (procs s p)) s' \<noteq> Some q" for q
  proof
    assume "find_proc (pid (procs s p)) s' = Some q"
    then have q: "q \<in> set (proc_list s')" "pid (procs s q) = pid (procs s p)"
      using find_proc_iff [of s'] r(2,7) by (auto simp: tree_inv_def)
    have "p \<in> set (ch (current s))" using assms(4) by simp
    then have "p \<in> set (proc_list s)" by (rule tree_inv_ch [OF assms(1)])
    moreover have "q \<in> set (proc_list s)" using q(1) r(3) set_remove1_subset [of p "proc_list s"] by auto
    ultimately have "q = p" using q(2) ptab_pid_inject [of s] assms(1) by (auto simp: tree_inv_def)
    with q(1) r(4) show False by (simp add: live_def)
  qed
  then have "find_proc (pid (procs s p)) s' = None" by (cases "find_proc (pid (procs s p)) s'") auto
  with w r assms(3) show ?thesis by (auto simp: running_def)
qed

text \<open>Wait without a zombie: with children but no zombie among them the caller goes to
  sleep waiting for a child and another process runs; without children it gets \<open>E_BAD_PROC\<close> and
  nothing changes.\<close>

theorem do_wait_blocks:
  assumes "tree_inv s ch" "current s \<noteq> idleproc s" "\<forall>a \<in> set (ch (current s)). state (procs s a) \<noteq> PROC_ZOMBIE"
  shows "if ch (current s) = [] then do_wait ops 0 0 s = Some (Returned (- errno_val E_BAD_PROC) s)
    else (\<exists>s'. do_wait ops 0 0 s = Some (Blocked s') \<and> tree_inv s' ch \<and> running s' \<and> current s' \<noteq> current s
      \<and> state (procs s' (current s)) = PROC_SLEEPING \<and> wait_state (procs s' (current s)) = WT_CHILD
      \<and> (\<forall>p. p \<noteq> current s \<longrightarrow> state (procs s' p) = state (procs s p)))"
proof -
  have w: "wait_scan 0 s = Some (None, ch (current s) \<noteq> [])"
    using wait_children_none [OF tree_inv_sibs [OF assms(1)] assms(3)] by (simp add: wait_scan_def)
  define s1 where "s1 = upd_proc (current s) (\<lambda>d. d\<lparr>state := PROC_SLEEPING, wait_state := WT_CHILD\<rparr>) s"
  have "tree_inv s1 ch"
    by (rule tree_inv_cong [OF assms(1)]) (use assms(1,2) in \<open>auto simp: s1_def tree_inv_def\<close>)
  from schedule_ok [OF this] obtain s' where s': "schedule s1 = Some s'" "tree_inv s' ch" "running s'"
    "\<And>p. state (procs s' p) = state (procs s1 p)" "\<And>p. wait_state (procs s' p) = wait_state (procs s1 p)"
    by blast
  have "current s' \<noteq> current s" using s'(3,4) by (auto simp: running_def s1_def)
  then show ?thesis
    using w s' by (auto simp: do_wait_def wait_repeat_def s1_def [symmetric]) (simp_all add: s1_def)
qed

text \<open>Kill: the target is the listed process with that pid. It gets the exiting flag; when it
  waits interruptibly it becomes runnable, otherwise its state is untouched. A pid nobody has
  gives \<open>E_INVAL\<close>, a process already exiting \<open>E_KILLED\<close>, and nothing changes.\<close>

theorem do_kill_marks_target:
  assumes "tree_inv s ch"
  shows "(i \<notin> set (pids s) \<longrightarrow> do_kill i s = Some (- errno_val E_INVAL, s))
    \<and> (\<forall>p \<in> set (proc_list s). pid (procs s p) = i \<longrightarrow>
        (if p_flags (procs s p) AND PF_EXITING \<noteq> 0 then do_kill i s = Some (- errno_val E_KILLED, s)
         else \<exists>s'. do_kill i s = Some (0, s') \<and> tree_inv s' ch
           \<and> p_flags (procs s' p) = p_flags (procs s p) OR PF_EXITING
           \<and> state (procs s' p) = (if wait_state (procs s p) AND WT_INTERRUPTED \<noteq> 0 then PROC_RUNNABLE
                                   else state (procs s p))
           \<and> (\<forall>q. q \<noteq> p \<longrightarrow> procs s' q = procs s q)))"
proof (intro conjI ballI impI)
  have tab: "ptab_inv s" using assms by (simp add: tree_inv_def)
  {
    assume "i \<notin> set (pids s)"
    then have "find_proc i s \<noteq> Some q" for q using find_proc_iff [OF tab] by (auto simp: pids_def)
    then have "find_proc i s = None" by (cases "find_proc i s") auto
    then show "do_kill i s = Some (- errno_val E_INVAL, s)" by (simp add: do_kill_def)
  }
  fix p assume p: "p \<in> set (proc_list s)" "pid (procs s p) = i"
  then have f: "find_proc i s = Some p" using find_proc_iff [OF tab] by simp
  let ?fl = "\<lambda>d. d\<lparr>p_flags := p_flags d OR PF_EXITING\<rparr>"
  define s1 where "s1 = upd_proc p ?fl s"
  have pl: "p \<in> live s" using p by (simp add: live_def)
  have sl: "state (procs s p) = PROC_SLEEPING" if "wait_state (procs s p) AND WT_INTERRUPTED \<noteq> 0"
    using assms pl that by (auto simp: tree_inv_def)
  show "if p_flags (procs s p) AND PF_EXITING \<noteq> 0 then do_kill i s = Some (- errno_val E_KILLED, s)
      else \<exists>s'. do_kill i s = Some (0, s') \<and> tree_inv s' ch
           \<and> p_flags (procs s' p) = p_flags (procs s p) OR PF_EXITING
           \<and> state (procs s' p) = (if wait_state (procs s p) AND WT_INTERRUPTED \<noteq> 0 then PROC_RUNNABLE
                                   else state (procs s p))
           \<and> (\<forall>q. q \<noteq> p \<longrightarrow> procs s' q = procs s q)"
  proof (cases "p_flags (procs s p) AND PF_EXITING = 0")
    case False
    then show ?thesis using f by (simp add: do_kill_def)
  next
    case True
    have inv1: "tree_inv s1 ch"
      by (rule tree_inv_cong [OF assms]) (use assms in \<open>auto simp: s1_def tree_inv_def\<close>)
    show ?thesis
    proof (cases "wait_state (procs s p) AND WT_INTERRUPTED = 0")
      case t: True
      then have "do_kill i s = Some (0, s1)" using f True by (simp add: do_kill_def s1_def)
      then show ?thesis using t True inv1 by (auto simp: s1_def)
    next
      case w: False
      define s2 where "s2 = upd_proc p (\<lambda>d. d\<lparr>state := PROC_RUNNABLE, wait_state := 0\<rparr>) s1"
      have "do_kill i s = Some (0, s2)"
        using f True w sl by (simp add: do_kill_def s1_def s2_def wakeup_proc_def)
      moreover have "tree_inv s2 ch"
        by (rule tree_inv_cong [OF inv1]) (use inv1 in \<open>auto simp: s2_def tree_inv_def\<close>)
      ultimately show ?thesis using w True by (auto simp: s2_def s1_def)
    qed
  qed
qed

end
