(* ===== verification/Process_Props.thy ===== *)
theory Process_Props
  imports Process_Wait
begin

text \<open>
  The properties of process creation, scheduling and start, the two error paths of \<open>do_fork\<close>,
  and a small concrete system on which the hypotheses of the properties are checked: \<open>idleproc\<close>
  is descriptor 0, \<open>initproc\<close> 1, with the chain of children 1, 2, 3; process 2 runs.
\<close>

section \<open>A concrete system\<close>

text \<open>The memory: the next fresh pointer and the number of free stacks.\<close>

definition demo_ops :: "(nat \<times> nat) mem_ops" where
  "demo_ops = \<lparr>kmalloc_proc = (\<lambda>(a, n). (Some a, (a + 1, n))),
     kfree_proc = (\<lambda>_ m. m),
     alloc_stack = (\<lambda>(a, n). case n of 0 \<Rightarrow> (None, (a, n)) | Suc k \<Rightarrow> (Some (KERNBASE + of_nat a * 8192), (a, k))),
     free_stack = (\<lambda>_ (a, n). Some (a, n + 1)),
     mm_create_op = (\<lambda>m. (None, m)), mm_destroy_op = (\<lambda>_ m. Some m),
     mm_count_inc_op = (\<lambda>_ m. m), mm_count_dec_op = (\<lambda>_ m. (0, m)),
     setup_pgdir_op = (\<lambda>_ m. (0, m)), put_pgdir_op = (\<lambda>_ m. Some m),
     dup_mmap_op = (\<lambda>_ _ m. Some (0, m)), exit_mmap_op = (\<lambda>_ m. Some m), mm_cr3 = (\<lambda>_ _. 0),
     user_mem_check_op = (\<lambda>_ _ _ _ _. True), load_user_byte = (\<lambda>_ _ _. 0),
     store_user_int = (\<lambda>_ _ _ m. m), load_icode_op = (\<lambda>_ _ m. Some ((0, Some 9, 0), m))\<rparr>"

definition demo_img :: kimage where
  "demo_img = \<lparr>kernel_thread_entry = 0xFFFFFFFFC0200100, forkret = 0xFFFFFFFFC0200200,
     bootstack = 0xFFFFFFFFC0300000, sstatus = 0\<rparr>"

definition demo_proc :: "proc_state \<Rightarrow> nat \<Rightarrow> pptr option \<Rightarrow> pptr option \<Rightarrow> proc_struct" where
  "demo_proc st n par c = zero_proc\<lparr>state := st, pid := int n, parent := par, cptr := c,
     kstack := 0xFFFFFFFFC0300000 + of_nat n * 8192\<rparr>"

definition demo_state :: "proc_state \<Rightarrow> nat option \<Rightarrow> (nat \<times> nat) kstate" where
  "demo_state st mm = \<lparr>procs = (\<lambda>p.
       if p = 0 then demo_proc PROC_RUNNABLE 0 None (Some 1)
       else if p = 1 then (demo_proc PROC_SLEEPING 1 (Some 0) (Some 2))\<lparr>wait_state := WT_CHILD\<rparr>
       else if p = 2 then (demo_proc PROC_RUNNABLE 2 (Some 1) (Some 3))\<lparr>p_mm := mm\<rparr>
       else if p = 3 then demo_proc st 3 (Some 2) None
       else zero_proc),
     proc_list = [3, 2, 1], hash_list = (\<lambda>b. filter (\<lambda>p. pid_hashfn (int p) = b) [3, 2, 1]),
     idleproc = 0, initproc = 1, current = 2, nr_process = 4, last_pid = 3, next_safe = MAX_PID,
     boot_cr3 = 0x80205000, satp = 0, cpu = \<lparr>c_ra = 0, c_sp = 0, c_s = (\<lambda>_. 0)\<rparr>, kmem = (4, 8)\<rparr>"

definition demo_ch :: "pptr \<Rightarrow> pptr list" where
  "demo_ch p = (if p < 3 then [p + 1] else [])"

lemma demo_ptab: "ptab_inv (demo_state st mm)"
  unfolding ptab_inv_def
proof (intro conjI allI)
  show "distinct (hash_list (demo_state st mm) b)" for b by (simp add: demo_state_def)
  show "set (hash_list (demo_state st mm) b)
    = {p \<in> set (proc_list (demo_state st mm)). pid_hashfn (pid (procs (demo_state st mm) p)) = b}" for b
    by (auto simp: demo_state_def demo_proc_def split: if_splits)
qed (auto simp: demo_state_def demo_proc_def pids_def pid_inv_def MAX_PID_def)

lemma demo_inv: "tree_inv (demo_state st mm) demo_ch"
  unfolding tree_inv_def
proof (intro conjI demo_ptab)
  show "family (live (demo_state st mm)) (procs (demo_state st mm)) demo_ch"
    by (auto simp: family_def live_def demo_state_def demo_proc_def demo_ch_def zero_proc_def)
  show "(\<Union>q. set (demo_ch q)) = set (proc_list (demo_state st mm))"
  proof -
    have "(\<Union>q. set (demo_ch q)) = Suc ` {..<3}" by (auto simp: demo_ch_def)
    also have "\<dots> = {3, 2, 1}" by (auto simp: lessThan_Suc numeral_3_eq_3)
    finally show ?thesis by (simp add: demo_state_def)
  qed
qed (auto simp: demo_ch_def live_def demo_state_def demo_proc_def zero_proc_def)

lemma demo_running: "running (demo_state st mm)" and demo_init: "init_child (demo_state st mm) demo_ch"
  by (simp_all add: running_def init_child_def demo_state_def demo_proc_def demo_ch_def)

section \<open>Fork\<close>

text \<open>C4: Fork, on success: with the process table and the family tree well-formed, room for a
  process, a descriptor and a stack from the allocators and the address space copied, \<open>do_fork\<close>
  returns a pid that no listed process has, and the new descriptor is listed, runnable, the
  youngest child of the current process, at the front of the process list and found by
  \<open>find_proc\<close>. Its trap frame is the given one in every field but two: the return value \<open>a0\<close> is
  0, and \<open>sp\<close> is the stack passed in or, for 0, the place of the trap frame on the new kernel
  stack. Its context starts in \<open>forkret\<close> there; the invariant holds again.\<close>

theorem do_fork_creates_child:
  assumes "tree_inv s ch" "p \<notin> live s" "nr_process s < MAX_PROCESS"
    and "kmalloc_proc ops (kmem s) = (Some p, m1)" "alloc_stack ops m1 = (Some kva, m2)"
    and "copies_mm ops fl (p_mm (procs s (current s))) m2"
  shows "\<exists>i s'. do_fork ops img fl stack t s = Some (i, s') \<and> 1 \<le> i \<and> i < MAX_PID \<and> i \<notin> set (pids s)
    \<and> tree_inv s' (ch(current s := p # ch (current s))) \<and> find_proc i s' = Some p
    \<and> state (procs s' p) = PROC_RUNNABLE \<and> kstack (procs s' p) = kva
    \<and> proc_list s' = p # proc_list s
    \<and> tframe (procs s' p) = t\<lparr>gpr := (gpr t)(REG_A0 := 0, REG_SP :=
        (if stack = 0 then kva + KSTACKSIZE - TRAPFRAME_SIZE else stack))\<rparr>
    \<and> c_ra (p_context (procs s' p)) = forkret img
    \<and> c_sp (p_context (procs s' p)) = kva + KSTACKSIZE - TRAPFRAME_SIZE
    \<and> current s' = current s \<and> running s' = running s"
proof -
  from do_fork_ok [OF assms, of img stack t] obtain i s' where
    r: "do_fork ops img fl stack t s = Some (i, s')" "1 \<le> i" "i < MAX_PID" "i \<notin> set (pids s)"
    "tree_inv s' (ch(current s := p # ch (current s)))" "pid (procs s' p) = i" "p \<in> set (proc_list s')"
    "proc_list s' = p # proc_list s"
    and r': "state (procs s' p) = PROC_RUNNABLE" "kstack (procs s' p) = kva"
    "tframe (procs s' p) = t\<lparr>gpr := (gpr t)(REG_A0 := 0, REG_SP :=
        (if stack = 0 then kva + KSTACKSIZE - TRAPFRAME_SIZE else stack))\<rparr>"
    "c_ra (p_context (procs s' p)) = forkret img"
    "c_sp (p_context (procs s' p)) = kva + KSTACKSIZE - TRAPFRAME_SIZE"
    "current s' = current s" "running s' = running s" by blast
  have "ptab_inv s'" using r(5) by (simp add: tree_inv_def)
  from find_proc_iff [OF this, of i p] r(6,7) have "find_proc i s' = Some p" by simp
  with r r' show ?thesis by blast
qed

theorem do_fork_creates_child_witness:
  "\<exists>i s'. do_fork demo_ops demo_img 0 0 zero_tf (demo_state PROC_ZOMBIE None) = Some (i, s')
    \<and> i \<notin> set (pids (demo_state PROC_ZOMBIE None)) \<and> find_proc i s' = Some 4"
proof -
  have "4 \<notin> live (demo_state PROC_ZOMBIE None)" by (simp add: live_def demo_state_def)
  moreover have "nr_process (demo_state PROC_ZOMBIE None) < MAX_PROCESS" by (simp add: demo_state_def MAX_PROCESS_def)
  moreover have "kmalloc_proc demo_ops (kmem (demo_state PROC_ZOMBIE None)) = (Some 4, (5, 8))"
    by (simp add: demo_ops_def demo_state_def)
  moreover have "alloc_stack demo_ops (5, 8) = (Some (KERNBASE + 5 * 8192), (5, 7))"
    by (simp add: demo_ops_def numeral_eq_Suc)
  moreover have "copies_mm demo_ops 0 (p_mm (procs (demo_state PROC_ZOMBIE None)
      (current (demo_state PROC_ZOMBIE None)))) (5, 7)"
    by (simp add: copies_mm_def demo_state_def)
  ultimately show ?thesis
    using do_fork_creates_child [OF demo_inv, of 4 PROC_ZOMBIE None demo_ops "(5, 8)" _ "(5, 7)" 0 demo_img 0 zero_tf]
    by blast
qed

text \<open>When no kernel stack can be allocated, \<open>do_fork\<close> does not return \<open>E_NO_MEM\<close>: it
  jumps to \<open>bad_fork_cleanup_kstack\<close>, which frees the stack that was never allocated, and the
  kernel panics on address 0.\<close>

theorem do_fork_panics_without_stack:
  assumes "nr_process s < MAX_PROCESS"
    and "kmalloc_proc ops (kmem s) = (Some p, m1)" "alloc_stack ops m1 = (None, m2)"
  shows "do_fork ops img fl stack t s = None"
  using assms
  by (simp add: do_fork_def alloc_proc_def setup_kstack_def put_kstack_def Let_def zero_proc_def KERNBASE_def)

theorem do_fork_panics_without_stack_witness:
  "do_fork demo_ops demo_img 0 0 zero_tf ((demo_state PROC_ZOMBIE None)\<lparr>kmem := (4, 0)\<rparr>) = None"
  by (rule do_fork_panics_without_stack [of _ _ 4 "(5, 0)" "(5, 0)"])
    (simp_all add: demo_state_def demo_ops_def MAX_PROCESS_def)

text \<open>When the address space cannot be copied, \<open>do_fork\<close> returns \<open>E_NO_MEM\<close> with the
  process table unchanged, but only the descriptor is freed: the memory is that after the
  allocation of the stack, with the stack still taken.\<close>

theorem do_fork_leaks_stack:
  assumes "nr_process s < MAX_PROCESS" "p \<noteq> current s"
    and "kmalloc_proc ops (kmem s) = (Some p, m1)" "alloc_stack ops m1 = (Some kva, m2)"
    and "p_mm (procs s (current s)) = Some old" "fl AND CLONE_VM = 0" "mm_create_op ops m2 = (None, m3)"
  shows "\<exists>s'. do_fork ops img fl stack t s = Some (- errno_val E_NO_MEM, s')
    \<and> kmem s' = kfree_proc ops p m3 \<and> proc_list s' = proc_list s \<and> hash_list s' = hash_list s
    \<and> nr_process s' = nr_process s \<and> (\<forall>q. q \<noteq> p \<longrightarrow> procs s' q = procs s q)"
  using assms by (simp add: do_fork_def alloc_proc_def setup_kstack_def copy_mm_def Let_def)

theorem do_fork_leaks_stack_witness:
  "\<exists>s'. do_fork demo_ops demo_img 0 0 zero_tf (demo_state PROC_ZOMBIE (Some 9)) = Some (- 4, s')
    \<and> snd (kmem (demo_state PROC_ZOMBIE (Some 9))) = 8 \<and> snd (kmem s') = 7"
proof -
  have "alloc_stack demo_ops (5, 8) = (Some (KERNBASE + 5 * 8192), (5, 7))"
    by (simp add: demo_ops_def numeral_eq_Suc)
  moreover have "kmalloc_proc demo_ops (kmem (demo_state PROC_ZOMBIE (Some 9))) = (Some 4, (5, 8))"
    "mm_create_op demo_ops (5, 7) = (None, (5, 7))" "kfree_proc demo_ops 4 (5, 7) = (5, 7)"
    by (simp_all add: demo_ops_def demo_state_def)
  moreover have "nr_process (demo_state PROC_ZOMBIE (Some 9)) < MAX_PROCESS"
    "4 \<noteq> current (demo_state PROC_ZOMBIE (Some 9))"
    "p_mm (procs (demo_state PROC_ZOMBIE (Some 9)) (current (demo_state PROC_ZOMBIE (Some 9)))) = Some 9"
    "snd (kmem (demo_state PROC_ZOMBIE (Some 9))) = 8"
    by (simp_all add: demo_state_def MAX_PROCESS_def)
  ultimately show ?thesis
    using do_fork_leaks_stack [of "demo_state PROC_ZOMBIE (Some 9)" 4 demo_ops "(5, 8)" _ "(5, 7)" 9 0 "(5, 7)"
        demo_img 0 zero_tf]
    by fastforce
qed

section \<open>Scheduling\<close>

text \<open>\<open>schedule\<close> goes around the circular process list from behind the current process: the
  first runnable process on the way runs next, the current one itself last, and \<open>idleproc\<close> when
  no process is runnable. Its run count goes up; on a switch the page table register and the
  registers are those of the next process, and those of the previous one are saved.\<close>

theorem schedule_round_robin:
  assumes "current s \<noteq> idleproc s" "proc_list s = as @ current s # bs" "current s \<notin> set as"
    and "n = (case find (\<lambda>p. state (procs s p) = PROC_RUNNABLE) (bs @ as @ [current s]) of
      Some p \<Rightarrow> p | None \<Rightarrow> idleproc s)"
  shows "\<exists>s'. schedule s = Some s' \<and> current s' = n \<and> runs (procs s' n) = runs (procs s n) + 1
    \<and> (\<forall>p. p \<noteq> n \<longrightarrow> runs (procs s' p) = runs (procs s p))
    \<and> (\<forall>p. state (procs s' p) = state (procs s p))
    \<and> (n \<noteq> current s \<longrightarrow> satp s' = 0x8000000000000000 OR drop_bit 12 (p_cr3 (procs s n))
        \<and> cpu s' = p_context (procs s n) \<and> p_context (procs s' (current s)) = cpu s)"
proof -
  from schedule_eq [OF sched_order_rot [OF assms(1-3)]] assms(4) obtain s' where
    s': "schedule s = Some s'" "current s' = n" "runs (procs s' n) = runs (procs s n) + 1"
    "\<forall>p. p \<noteq> n \<longrightarrow> runs (procs s' p) = runs (procs s p)"
    "n \<noteq> current s \<longrightarrow> satp s' = 0x8000000000000000 OR drop_bit 12 (p_cr3 (procs s n))
        \<and> cpu s' = p_context (procs s n) \<and> p_context (procs s' (current s)) = cpu s"
    and eq: "\<And>p b r c. (procs s' p)\<lparr>need_resched := b, runs := r, p_context := c\<rparr>
         = (procs s p)\<lparr>need_resched := b, runs := r, p_context := c\<rparr>"
    unfolding next_proc_def by blast
  have "state (procs s' p) = state (procs s p)" for p using sched_fields [OF eq [where p = p]] by simp
  with s' show ?thesis by blast
qed

theorem schedule_round_robin_witness:
  "\<exists>s'. schedule (demo_state PROC_RUNNABLE None) = Some s' \<and> current s' = 3"
  using schedule_round_robin [of "demo_state PROC_RUNNABLE None" "[3]" "[1]" 3]
  by (auto simp: demo_state_def demo_proc_def)

theorem do_exit_hands_over_witness:
  "\<exists>s'. do_exit demo_ops 5 (demo_state PROC_ZOMBIE (Some 9)) = Some s'
    \<and> tree_inv s' (demo_ch(2 := [], 1 := [3, 2]))
    \<and> state (procs s' 2) = PROC_ZOMBIE \<and> exit_code (procs s' 2) = 5 \<and> state (procs s' 1) = PROC_RUNNABLE"
proof -
  let ?s = "demo_state PROC_ZOMBIE (Some 9)"
  have c: "current ?s = 2" "initproc ?s = 1" "idleproc ?s = 0" by (simp_all add: demo_state_def)
  have "freed_mm demo_ops ?s \<noteq> None"
    by (simp add: freed_mm_def demo_state_def release_mm_def demo_ops_def)
  moreover have "demo_ch 2 = [3]" "demo_ch 1 = [2]" by (simp_all add: demo_ch_def)
  moreover have "parent (procs ?s 2) = Some 1" "wait_state (procs ?s 1) = WT_CHILD"
    by (simp_all add: demo_state_def demo_proc_def)
  ultimately show ?thesis
    using do_exit_hands_over [OF demo_inv demo_init demo_running, of PROC_ZOMBIE "Some 9" demo_ops 5]
    unfolding c by fastforce
qed

theorem do_wait_reaps_witness:
  "\<exists>s'. do_wait demo_ops 0 0 (demo_state PROC_ZOMBIE None) = Some (Returned 0 s')
    \<and> proc_list s' = [2, 1] \<and> find_proc 3 s' = None"
proof -
  let ?s = "demo_state PROC_ZOMBIE None"
  have c: "current ?s = 2" "initproc ?s = 1" "proc_list ?s = [3, 2, 1]" by (simp_all add: demo_state_def)
  have p: "pid (procs ?s 3) = 3" "state (procs ?s 3) = PROC_ZOMBIE" "KERNBASE \<le> kstack (procs ?s 3)"
    by (simp_all add: demo_state_def demo_proc_def KERNBASE_def)
  have "demo_ch (current ?s) = [] @ 3 # []" "demo_ch 3 = []" by (simp_all add: demo_ch_def c)
  moreover have "free_stack demo_ops k m \<noteq> None" for k m by (cases m) (simp add: demo_ops_def)
  ultimately show ?thesis
    using do_wait_reaps [OF demo_inv demo_init demo_running, of PROC_ZOMBIE None "[]" 3 "[]" demo_ops] p c
    by auto
qed

theorem do_wait_blocks_witness:
  "\<exists>s'. do_wait demo_ops 0 0 (demo_state PROC_RUNNABLE None) = Some (Blocked s')
    \<and> state (procs s' 2) = PROC_SLEEPING"
  using do_wait_blocks [OF demo_inv, of PROC_RUNNABLE None demo_ops]
  by (auto simp: demo_state_def demo_ch_def demo_proc_def)

theorem do_kill_marks_target_witness:
  "\<exists>s'. do_kill 3 (demo_state PROC_RUNNABLE None) = Some (0, s') \<and> p_flags (procs s' 3) = PF_EXITING"
proof -
  let ?s = "demo_state PROC_RUNNABLE None"
  have p: "3 \<in> set (proc_list ?s)" "pid (procs ?s 3) = 3" "p_flags (procs ?s 3) = 0"
    by (simp_all add: demo_state_def demo_proc_def zero_proc_def)
  from do_kill_marks_target [OF demo_inv, THEN conjunct2, rule_format, OF p(1,2)] p(3)
  show ?thesis by auto
qed

section \<open>Start\<close>

text \<open>C7: Started on an empty table with the initial value of \<open>last_pid\<close> and memory for two
  descriptors and a stack, \<open>proc_init\<close> sets up \<open>idleproc\<close> with pid 0, which runs, and
  \<open>initproc\<close> with pid 1, runnable, its only child, whose thread starts at the given function; the
  invariant of the process subsystem holds.\<close>

theorem proc_init_boots:
  assumes "nr_process s = 0" "last_pid s = MAX_PID" "next_safe s = MAX_PID" "idle \<noteq> p"
    and "kmalloc_proc ops (kmem s) = (Some idle, m0)" "kmalloc_proc ops m0 = (Some p, m1)"
    and "alloc_stack ops m1 = (Some kva, m2)"
  shows "\<exists>s' ch. proc_init ops img init_main s = Some s' \<and> tree_inv s' ch \<and> init_child s' ch \<and> running s'
    \<and> current s' = idle \<and> idleproc s' = idle \<and> initproc s' = p \<and> proc_list s' = [p]
    \<and> pid (procs s' idle) = 0 \<and> pid (procs s' p) = 1 \<and> state (procs s' p) = PROC_RUNNABLE
    \<and> kstack (procs s' p) = kva"
proof -
  let ?ch = "\<lambda>_. [] :: pptr list"
  define s0 where "s0 = s\<lparr>proc_list := [], hash_list := (\<lambda>_. [])\<rparr>"
  define s1 where "s1 = upd_proc idle (\<lambda>_. zero_proc\<lparr>state := PROC_UNINIT, pid := - 1, p_cr3 := boot_cr3 s0\<rparr>)
    (s0\<lparr>kmem := m0\<rparr>)"
  define s4 where "s4 = (let s2 = upd_proc idle (\<lambda>d. d\<lparr>pid := 0, state := PROC_RUNNABLE, kstack := bootstack img,
        need_resched := True\<rparr>) (s1\<lparr>idleproc := idle\<rparr>);
      s3 = set_proc_name idle (name_bytes ''idle'') s2
    in s3\<lparr>nr_process := nr_process s3 + 1, current := idle\<rparr>)"
  have a: "alloc_proc ops s0 = (Some idle, s1)" using assms(5) by (simp add: alloc_proc_def s0_def s1_def)
  have f4: "proc_list s4 = []" "hash_list s4 = (\<lambda>_. [])" "idleproc s4 = idle" "current s4 = idle"
    "nr_process s4 = 1" "last_pid s4 = MAX_PID" "next_safe s4 = MAX_PID" "kmem s4 = m0"
    using assms(1-3) by (simp_all add: s4_def s1_def s0_def set_proc_name_def Let_def)
  have g4: "state (procs s4 idle) = PROC_RUNNABLE" "wait_state (procs s4 idle) = 0" "cptr (procs s4 idle) = None"
    "p_mm (procs s4 idle) = None" "pid (procs s4 idle) = 0"
    by (simp_all add: s4_def s1_def set_proc_name_def Let_def zero_proc_def)
  have "tree_inv s4 ?ch"
    by (simp add: tree_inv_def ptab_inv_def pid_inv_def pids_def live_def family_def f4 g4 MAX_PID_def)
  moreover have "p \<notin> live s4" using assms(4) by (simp add: live_def f4)
  moreover have "nr_process s4 < MAX_PROCESS" by (simp add: f4 MAX_PROCESS_def)
  moreover have "kmalloc_proc ops (kmem s4) = (Some p, m1)" using assms(6) by (simp add: f4)
  moreover note assms(7)
  moreover have "copies_mm ops (0 OR CLONE_VM) (p_mm (procs s4 (current s4))) m2" by (simp add: copies_mm_def f4 g4)
  ultimately have "\<exists>i s5. kernel_thread ops img init_main 0 0 s4 = Some (i, s5) \<and> i = 1
      \<and> tree_inv s5 (?ch(current s4 := p # ?ch (current s4))) \<and> proc_list s5 = p # proc_list s4
      \<and> pid (procs s5 p) = i \<and> idleproc s5 = idleproc s4 \<and> state (procs s5 p) = PROC_RUNNABLE
      \<and> kstack (procs s5 p) = kva \<and> current s5 = current s4 \<and> running s5 = running s4
      \<and> pid (procs s5 idle) = pid (procs s4 idle)"
    unfolding kernel_thread_def using f4(1,6) assms(4) do_fork_ok [of s4 ?ch p ops m1 kva m2 "0 OR CLONE_VM"] by blast
  then obtain s5 where 5: "kernel_thread ops img init_main 0 0 s4 = Some (1, s5)"
    "tree_inv s5 (?ch(idle := [p]))" "proc_list s5 = [p]" "pid (procs s5 p) = 1" "idleproc s5 = idle"
    "state (procs s5 p) = PROC_RUNNABLE" "kstack (procs s5 p) = kva" "current s5 = idle" "running s5"
    and idle5: "pid (procs s5 idle) = 0"
    using f4 g4 by (auto simp: running_def)
  define s6 where "s6 = set_proc_name p (name_bytes ''init'') (s5\<lparr>initproc := p\<rparr>)"
  have "find_proc 1 s5 = Some p"
    using find_proc_iff [of s5 1 p] 5 by (simp add: tree_inv_def)
  moreover have "proc_init ops img init_main s = (case kernel_thread ops img init_main 0 0 s4 of
        None \<Rightarrow> None
      | Some (i, s5) \<Rightarrow>
          if i \<le> 0 then None
          else (case find_proc i s5 of
              None \<Rightarrow> None
            | Some init \<Rightarrow>
                let s6 = set_proc_name init (name_bytes ''init'') (s5\<lparr>initproc := init\<rparr>)
                in if pid (procs s6 idle) = 0 \<and> pid (procs s6 init) = 1 then Some s6 else None))"
    unfolding proc_init_def s0_def [symmetric] a s4_def Let_def prod.case option.case by (rule refl)
  ultimately have "proc_init ops img init_main s = Some s6"
    using 5 idle5 assms(4) by (simp add: s6_def set_proc_name_def)
  moreover have "tree_inv s6 (?ch(idle := [p]))"
    by (rule tree_inv_cong [OF 5(2)]) (use 5 in \<open>auto simp: s6_def set_proc_name_def tree_inv_def\<close>)
  ultimately show ?thesis using 5 idle5
    by (intro exI [of _ s6] exI [of _ "?ch(idle := [p])"])
      (auto simp: s6_def set_proc_name_def init_child_def running_def)
qed

theorem proc_init_boots_witness:
  "\<exists>s'. proc_init demo_ops demo_img 0xFFFFFFFFC0200400
      ((demo_state PROC_RUNNABLE None)\<lparr>nr_process := 0, last_pid := MAX_PID\<rparr>) = Some s'
    \<and> current s' = 4 \<and> proc_list s' = [5] \<and> pid (procs s' 5) = 1"
proof -
  let ?s = "(demo_state PROC_RUNNABLE None)\<lparr>nr_process := 0, last_pid := MAX_PID\<rparr>"
  have "kmalloc_proc demo_ops (kmem ?s) = (Some 4, (5, 8))" "kmalloc_proc demo_ops (5, 8) = (Some 5, (6, 8))"
    "nr_process ?s = 0" "last_pid ?s = MAX_PID" "next_safe ?s = MAX_PID"
    by (simp_all add: demo_ops_def demo_state_def)
  moreover have "alloc_stack demo_ops (6, 8) = (Some (KERNBASE + 6 * 8192), (6, 7))"
    by (simp add: demo_ops_def numeral_eq_Suc)
  ultimately show ?thesis
    using proc_init_boots [where s = ?s and idle = 4 and p = 5 and ops = demo_ops and img = demo_img
        and init_main = "0xFFFFFFFFC0200400"] by fastforce
qed

end
