(* ===== verification/Sched.thy ===== *)
theory Sched
  imports Proc_Table
begin

text \<open>
  The scheduling framework of \<open>lab8/kern/schedule/sched.c\<close>: a scheduling class as a record of
  functions, \<open>wakeup_proc\<close> and \<open>schedule\<close> on top of it, the round-robin class of
  \<open>lab6/kern/schedule/default_sched_c.c\<close>, and the timer list. The locale \<open>sched_policy\<close> states
  what the framework needs of a class; its interpretation shows that round robin provides it.
\<close>

section \<open>State\<close>

record sproc =
  s_state :: proc_state
  s_wait :: u32
  s_resched :: bool
  s_runs :: int
  s_slice :: int
  s_rq :: bool

record run_queue =
  run_list :: "pptr list"
  proc_num :: u32
  max_time_slice :: int

record stimer =
  tm_id :: nat
  expires :: u32
  tm_proc :: pptr

text \<open>A process is linked into the run queue (\<open>run_link\<close> not empty) when it is on \<open>run_list\<close>;
  a timer is linked when it is on \<open>timer_list\<close>.\<close>

record sched =
  sps :: "pptr \<Rightarrow> sproc"
  scur :: pptr
  sidle :: pptr
  rq :: run_queue
  timer_list :: "stimer list"

record 's sched_class =
  sc_init :: "'s \<Rightarrow> 's"
  sc_enqueue :: "pptr \<Rightarrow> 's \<Rightarrow> 's option"
  sc_dequeue :: "pptr \<Rightarrow> 's \<Rightarrow> 's option"
  sc_pick_next :: "'s \<Rightarrow> pptr option"
  sc_proc_tick :: "pptr \<Rightarrow> 's \<Rightarrow> 's"

definition upd_sp :: "pptr \<Rightarrow> (sproc \<Rightarrow> sproc) \<Rightarrow> 'a sched_scheme \<Rightarrow> 'a sched_scheme" where
  "upd_sp p f s = s\<lparr>sps := (sps s)(p := f (sps s p))\<rparr>"

lemma upd_sp_simps [simp]:
  "sps (upd_sp p f s) = (sps s)(p := f (sps s p))" "scur (upd_sp p f s) = scur s"
  "sidle (upd_sp p f s) = sidle s" "rq (upd_sp p f s) = rq s" "timer_list (upd_sp p f s) = timer_list s"
  by (simp_all add: upd_sp_def)

definition MAX_TIME_SLICE :: int where "MAX_TIME_SLICE = 5"

section \<open>The round-robin class\<close>

definition RR_init :: "'a sched_scheme \<Rightarrow> 'a sched_scheme" where
  "RR_init s = s\<lparr>rq := (rq s)\<lparr>run_list := [], proc_num := 0\<rparr>\<rparr>"

definition RR_enqueue :: "pptr \<Rightarrow> 'a sched_scheme \<Rightarrow> 'a sched_scheme option" where
  "RR_enqueue p s =
     (if p \<in> set (run_list (rq s)) then None
      else let s1 = s\<lparr>rq := (rq s)\<lparr>run_list := run_list (rq s) @ [p]\<rparr>\<rparr>;
               s2 = (if s_slice (sps s1 p) = 0 \<or> s_slice (sps s1 p) > max_time_slice (rq s1)
                     then upd_sp p (\<lambda>d. d\<lparr>s_slice := max_time_slice (rq s1)\<rparr>) s1 else s1);
               s3 = upd_sp p (\<lambda>d. d\<lparr>s_rq := True\<rparr>) s2
           in Some (s3\<lparr>rq := (rq s3)\<lparr>proc_num := proc_num (rq s3) + 1\<rparr>\<rparr>))"

definition RR_dequeue :: "pptr \<Rightarrow> 'a sched_scheme \<Rightarrow> 'a sched_scheme option" where
  "RR_dequeue p s =
     (if p \<notin> set (run_list (rq s)) \<or> \<not> s_rq (sps s p) then None
      else Some (s\<lparr>rq := (rq s)\<lparr>run_list := remove1 p (run_list (rq s)),
                                  proc_num := proc_num (rq s) - 1\<rparr>\<rparr>))"

definition RR_pick_next :: "'a sched_scheme \<Rightarrow> pptr option" where
  "RR_pick_next s = (case run_list (rq s) of [] \<Rightarrow> None | p # _ \<Rightarrow> Some p)"

definition RR_proc_tick :: "pptr \<Rightarrow> 'a sched_scheme \<Rightarrow> 'a sched_scheme" where
  "RR_proc_tick p s =
     (let s1 = (if s_slice (sps s p) > 0 then upd_sp p (\<lambda>d. d\<lparr>s_slice := s_slice d - 1\<rparr>) s else s)
      in if s_slice (sps s1 p) = 0 then upd_sp p (\<lambda>d. d\<lparr>s_resched := True\<rparr>) s1 else s1)"

definition RR_class :: "'a sched_scheme sched_class" where
  "RR_class = \<lparr>sc_init = RR_init, sc_enqueue = RR_enqueue, sc_dequeue = RR_dequeue,
     sc_pick_next = RR_pick_next, sc_proc_tick = RR_proc_tick\<rparr>"

lemma RR_class_simps [simp]:
  "sc_init RR_class = RR_init" "sc_enqueue RR_class = RR_enqueue" "sc_dequeue RR_class = RR_dequeue"
  "sc_pick_next RR_class = RR_pick_next" "sc_proc_tick RR_class = RR_proc_tick"
  by (simp_all add: RR_class_def)

section \<open>The framework\<close>

definition sched_class_enqueue :: "'a sched_scheme sched_class \<Rightarrow> pptr \<Rightarrow> 'a sched_scheme
    \<Rightarrow> 'a sched_scheme option" where
  "sched_class_enqueue cls p s = (if p \<noteq> sidle s then sc_enqueue cls p s else Some s)"

definition sched_class_dequeue :: "'a sched_scheme sched_class \<Rightarrow> pptr \<Rightarrow> 'a sched_scheme
    \<Rightarrow> 'a sched_scheme option" where
  "sched_class_dequeue cls p s = sc_dequeue cls p s"

definition sched_class_pick_next :: "'a sched_scheme sched_class \<Rightarrow> 'a sched_scheme \<Rightarrow> pptr option" where
  "sched_class_pick_next cls s = sc_pick_next cls s"

definition sched_class_proc_tick :: "'a sched_scheme sched_class \<Rightarrow> pptr \<Rightarrow> 'a sched_scheme
    \<Rightarrow> 'a sched_scheme" where
  "sched_class_proc_tick cls p s =
     (if p \<noteq> sidle s then sc_proc_tick cls p s else upd_sp p (\<lambda>d. d\<lparr>s_resched := True\<rparr>) s)"

definition sched_init :: "'a sched_scheme sched_class \<Rightarrow> 'a sched_scheme \<Rightarrow> 'a sched_scheme" where
  "sched_init cls s =
     sc_init cls (s\<lparr>timer_list := [], rq := (rq s)\<lparr>max_time_slice := MAX_TIME_SLICE\<rparr>\<rparr>)"

definition swakeup_proc :: "'a sched_scheme sched_class \<Rightarrow> pptr \<Rightarrow> 'a sched_scheme
    \<Rightarrow> 'a sched_scheme option" where
  "swakeup_proc cls p s =
     (if s_state (sps s p) = PROC_ZOMBIE then None
      else if s_state (sps s p) \<noteq> PROC_RUNNABLE
      then let s1 = upd_sp p (\<lambda>d. d\<lparr>s_state := PROC_RUNNABLE, s_wait := 0\<rparr>) s
           in if p \<noteq> scur s1 then sched_class_enqueue cls p s1 else Some s1
      else Some s)"

text \<open>\<open>proc_run\<close> is \<open>Process.proc_run\<close>; here it matters that \<open>next\<close> becomes the current process.\<close>

definition sschedule :: "'a sched_scheme sched_class \<Rightarrow> 'a sched_scheme \<Rightarrow> 'a sched_scheme option" where
  "sschedule cls s =
     (let s1 = upd_sp (scur s) (\<lambda>d. d\<lparr>s_resched := False\<rparr>) s
      in case (if s_state (sps s1 (scur s1)) = PROC_RUNNABLE
               then sched_class_enqueue cls (scur s1) s1 else Some s1) of
           None \<Rightarrow> None
         | Some s2 \<Rightarrow>
             let pick = sched_class_pick_next cls s2
             in case (case pick of Some p \<Rightarrow> sched_class_dequeue cls p s2 | None \<Rightarrow> Some s2) of
                  None \<Rightarrow> None
                | Some s3 \<Rightarrow>
                    let nxt = (case pick of Some p \<Rightarrow> p | None \<Rightarrow> sidle s3);
                        s4 = upd_sp nxt (\<lambda>d. d\<lparr>s_runs := s_runs d + 1\<rparr>) s3
                    in Some (if nxt \<noteq> scur s4 then s4\<lparr>scur := nxt\<rparr> else s4))"

section \<open>Timers\<close>

definition timer_init :: "nat \<Rightarrow> pptr \<Rightarrow> u32 \<Rightarrow> stimer" where
  "timer_init i p e = \<lparr>tm_id = i, expires = e, tm_proc = p\<rparr>"

text \<open>The loop of \<open>add_timer\<close>: the timer to insert becomes relative to those it passes, the one
  it stops at relative to it.\<close>

fun timer_insert :: "stimer \<Rightarrow> stimer list \<Rightarrow> stimer list" where
  "timer_insert t [] = [t]"
| "timer_insert t (n # ts) =
     (if expires t < expires n then t # n\<lparr>expires := expires n - expires t\<rparr> # ts
      else n # timer_insert (t\<lparr>expires := expires t - expires n\<rparr>) ts)"

definition add_timer :: "stimer \<Rightarrow> 'a sched_scheme \<Rightarrow> 'a sched_scheme option" where
  "add_timer t s =
     (if expires t = 0 then None
      else if tm_id t \<in> set (map tm_id (timer_list s)) then None
      else Some (s\<lparr>timer_list := timer_insert t (timer_list s)\<rparr>))"

fun timer_remove :: "nat \<Rightarrow> stimer list \<Rightarrow> stimer list" where
  "timer_remove i [] = []"
| "timer_remove i (t # ts) =
     (if tm_id t = i
      then (case ts of
              [] \<Rightarrow> []
            | n # ns \<Rightarrow> if expires t \<noteq> 0 then n\<lparr>expires := expires n + expires t\<rparr> # ns else n # ns)
      else t # timer_remove i ts)"

definition del_timer :: "nat \<Rightarrow> 'a sched_scheme \<Rightarrow> 'a sched_scheme" where
  "del_timer i s = s\<lparr>timer_list := timer_remove i (timer_list s)\<rparr>"

text \<open>The loop of \<open>run_timer_list\<close> over the timers that have reached 0.\<close>

fun fire_timers :: "'a sched_scheme sched_class \<Rightarrow> stimer list \<Rightarrow> 'a sched_scheme
    \<Rightarrow> 'a sched_scheme option" where
  "fire_timers cls [] s = Some s"
| "fire_timers cls (t # ts) s =
     (if expires t = 0
      then (let w = s_wait (sps s (tm_proc t))
            in if w \<noteq> 0 \<and> w AND WT_INTERRUPTED = 0 then None
               else (case swakeup_proc cls (tm_proc t) s of
                       None \<Rightarrow> None
                     | Some s1 \<Rightarrow> fire_timers cls ts (del_timer (tm_id t) s1)))
      else Some s)"

definition run_timer_list :: "'a sched_scheme sched_class \<Rightarrow> 'a sched_scheme
    \<Rightarrow> 'a sched_scheme option" where
  "run_timer_list cls s =
     map_option (\<lambda>s'. sched_class_proc_tick cls (scur s') s')
       (case timer_list s of
          [] \<Rightarrow> Some s
        | t # ts \<Rightarrow>
            if expires t = 0 then None
            else let tl' = t\<lparr>expires := expires t - 1\<rparr> # ts
                 in fire_timers cls tl' (s\<lparr>timer_list := tl'\<rparr>))"

definition WT_TIMER :: u32 where "WT_TIMER = 2 OR WT_INTERRUPTED"

text \<open>\<open>do_sleep\<close> up to and with its call of \<open>schedule\<close>, and what follows when the process runs again.\<close>

definition do_sleep :: "'a sched_scheme sched_class \<Rightarrow> nat \<Rightarrow> u32 \<Rightarrow> 'a sched_scheme
    \<Rightarrow> 'a sched_scheme option" where
  "do_sleep cls i time s =
     (if time = 0 then Some s
      else Option.bind (add_timer (timer_init i (scur s) time)
          (upd_sp (scur s) (\<lambda>d. d\<lparr>s_state := PROC_SLEEPING, s_wait := WT_TIMER\<rparr>) s))
        (sschedule cls))"

definition do_sleep_resume :: "nat \<Rightarrow> 'a sched_scheme \<Rightarrow> 'a sched_scheme" where
  "do_sleep_resume i s = del_timer i s"

section \<open>What the framework needs of a class\<close>

text \<open>
  \<open>q\<close> is the set of queued processes, as a list without repetition. The laws leave the order
  open; enqueueing and dequeueing change neither states nor the current process.
\<close>

definition same_view :: "'a sched_scheme \<Rightarrow> 'a sched_scheme \<Rightarrow> bool" where
  "same_view s s' \<longleftrightarrow> scur s' = scur s \<and> sidle s' = sidle s \<and> timer_list s' = timer_list s
     \<and> (\<forall>p. s_state (sps s' p) = s_state (sps s p) \<and> s_wait (sps s' p) = s_wait (sps s p)
          \<and> s_runs (sps s' p) = s_runs (sps s p))"

locale sched_policy =
  fixes cls :: "'a sched_scheme sched_class"
    and q :: "'a sched_scheme \<Rightarrow> pptr list"
    and ok :: "'a sched_scheme \<Rightarrow> bool"
  assumes enqueue_ok: "ok s \<Longrightarrow> p \<notin> set (q s) \<Longrightarrow>
      \<exists>s'. sc_enqueue cls p s = Some s' \<and> ok s' \<and> set (q s') = insert p (set (q s)) \<and> same_view s s'"
    and dequeue_ok: "ok s \<Longrightarrow> p \<in> set (q s) \<Longrightarrow>
      \<exists>s'. sc_dequeue cls p s = Some s' \<and> ok s' \<and> set (q s') = set (q s) - {p} \<and> same_view s s'"
    and pick_ok: "ok s \<Longrightarrow> sc_pick_next cls s = None \<longleftrightarrow> q s = []"
      "ok s \<Longrightarrow> sc_pick_next cls s = Some p \<Longrightarrow> p \<in> set (q s)"
    and ok_upd: "ok s \<Longrightarrow> (\<And>d. s_rq (f d) = s_rq d) \<Longrightarrow> ok (upd_sp p f s)"
      "q (upd_sp p f s) = q s"
    and ok_cur: "ok s \<Longrightarrow> ok (s\<lparr>scur := c\<rparr>)" "q (s\<lparr>scur := c\<rparr>) = q s"
    and ok_tm: "ok s \<Longrightarrow> ok (s\<lparr>timer_list := ts\<rparr>)" "q (s\<lparr>timer_list := ts\<rparr>) = q s"

text \<open>The queue holds exactly the runnable processes other than the current one and \<open>idleproc\<close>.\<close>

definition rq_exact :: "('a sched_scheme \<Rightarrow> pptr list) \<Rightarrow> 'a sched_scheme \<Rightarrow> bool" where
  "rq_exact q s \<longleftrightarrow>
     set (q s) = {p. s_state (sps s p) = PROC_RUNNABLE \<and> p \<noteq> scur s \<and> p \<noteq> sidle s}"

text \<open>A timer may fire for a process that is no zombie and waits, if at all, interruptibly.\<close>

definition may_fire :: "'a sched_scheme \<Rightarrow> pptr \<Rightarrow> bool" where
  "may_fire s p \<longleftrightarrow> s_state (sps s p) \<noteq> PROC_ZOMBIE
     \<and> (s_wait (sps s p) = 0 \<or> s_wait (sps s p) AND WT_INTERRUPTED \<noteq> 0)"

context sched_policy
begin

lemma wakeup_exact:
  assumes "ok s" "rq_exact q s" "s_state (sps s p) \<noteq> PROC_ZOMBIE"
  shows "\<exists>s'. swakeup_proc cls p s = Some s' \<and> ok s' \<and> rq_exact q s' \<and> scur s' = scur s \<and> sidle s' = sidle s
    \<and> timer_list s' = timer_list s \<and> s_state (sps s' p) = PROC_RUNNABLE
    \<and> (\<forall>r. r \<noteq> p \<longrightarrow> s_state (sps s' r) = s_state (sps s r) \<and> s_wait (sps s' r) = s_wait (sps s r))
    \<and> (s_state (sps s p) \<noteq> PROC_RUNNABLE \<longrightarrow> s_wait (sps s' p) = 0)
    \<and> (s_state (sps s p) = PROC_RUNNABLE \<longrightarrow> s' = s)"
proof (cases "s_state (sps s p) = PROC_RUNNABLE")
  case True
  with assms show ?thesis by (simp add: swakeup_proc_def)
next
  case False
  define s1 where "s1 = upd_sp p (\<lambda>d. d\<lparr>s_state := PROC_RUNNABLE, s_wait := 0\<rparr>) s"
  have ok1: "ok s1" unfolding s1_def by (rule ok_upd(1) [OF assms(1)]) simp
  have q1: "q s1 = q s" by (simp add: s1_def ok_upd(2))
  have nq: "p \<notin> set (q s1)" using assms(2) False by (simp add: q1 rq_exact_def)
  show ?thesis
  proof (cases "p = scur s \<or> p = sidle s")
    case True
    then have "swakeup_proc cls p s = Some s1"
      using False assms(3) by (auto simp: swakeup_proc_def s1_def sched_class_enqueue_def Let_def)
    moreover have "rq_exact q s1" using assms(2) True unfolding rq_exact_def q1 by (auto simp: s1_def)
    ultimately show ?thesis using ok1 False by (auto simp: s1_def)
  next
    case ncur: False
    from enqueue_ok [OF ok1 nq] obtain s2 where s2: "sc_enqueue cls p s1 = Some s2" "ok s2"
      "set (q s2) = insert p (set (q s1))" "same_view s1 s2" by blast
    then have "swakeup_proc cls p s = Some s2"
      using False assms(3) ncur by (simp add: swakeup_proc_def s1_def [symmetric] sched_class_enqueue_def Let_def)
        (simp add: s1_def)
    moreover have "rq_exact q s2"
      using assms(2) ncur s2(4) unfolding rq_exact_def s2(3) q1 by (auto simp: s1_def same_view_def)
    ultimately show ?thesis using s2(2,4) False by (auto simp: s1_def same_view_def)
  qed
qed

lemma schedule_exact:
  assumes "ok s" "rq_exact q s" "s_state (sps s (sidle s)) = PROC_RUNNABLE"
  shows "\<exists>s'. sschedule cls s = Some s' \<and> ok s' \<and> rq_exact q s'
    \<and> s_state (sps s' (scur s')) = PROC_RUNNABLE \<and> sidle s' = sidle s \<and> timer_list s' = timer_list s
    \<and> (scur s' = sidle s \<longleftrightarrow> (\<forall>p. s_state (sps s p) = PROC_RUNNABLE \<longrightarrow> p = sidle s))
    \<and> (\<forall>p. s_state (sps s' p) = s_state (sps s p) \<and> s_wait (sps s' p) = s_wait (sps s p))"
proof -
  define s1 where "s1 = upd_sp (scur s) (\<lambda>d. d\<lparr>s_resched := False\<rparr>) s"
  have ok1: "ok s1" unfolding s1_def by (rule ok_upd(1) [OF assms(1)]) simp
  have q1: "q s1 = q s" by (simp add: s1_def ok_upd(2))
  have v1: "same_view s s1" by (simp add: s1_def same_view_def)
  let ?run = "{p. s_state (sps s p) = PROC_RUNNABLE \<and> p \<noteq> sidle s}"
  have "\<exists>s2. (if s_state (sps s1 (scur s1)) = PROC_RUNNABLE then sched_class_enqueue cls (scur s1) s1 else Some s1)
      = Some s2 \<and> ok s2 \<and> set (q s2) = ?run \<and> same_view s1 s2"
  proof (cases "s_state (sps s (scur s)) = PROC_RUNNABLE \<and> scur s \<noteq> sidle s")
    case True
    have "scur s \<notin> set (q s1)" using assms(2) by (simp add: q1 rq_exact_def)
    from enqueue_ok [OF ok1 this] obtain s2 where s2: "sc_enqueue cls (scur s) s1 = Some s2" "ok s2"
      "set (q s2) = insert (scur s) (set (q s1))" "same_view s1 s2" by blast
    have "set (q s2) = ?run" unfolding s2(3) q1 assms(2) [unfolded rq_exact_def] using True by auto
    with s2 True show ?thesis
      by (intro exI [of _ s2]) (simp add: sched_class_enqueue_def s1_def)
  next
    case False
    have "set (q s1) = ?run" unfolding q1 assms(2) [unfolded rq_exact_def] using False by auto
    moreover have "(if s_state (sps s1 (scur s1)) = PROC_RUNNABLE then sched_class_enqueue cls (scur s1) s1
        else Some s1) = Some s1"
      using False by (auto simp: sched_class_enqueue_def s1_def)
    ultimately show ?thesis using ok1 by (intro exI [of _ s1]) (simp add: same_view_def)
  qed
  then obtain s2 where s2: "(if s_state (sps s1 (scur s1)) = PROC_RUNNABLE then sched_class_enqueue cls (scur s1) s1
      else Some s1) = Some s2" "ok s2" "set (q s2) = ?run" "same_view s1 s2" by blast
  have "\<exists>s3. (case sched_class_pick_next cls s2 of Some p \<Rightarrow> sched_class_dequeue cls p s2 | None \<Rightarrow> Some s2) = Some s3
      \<and> ok s3 \<and> same_view s2 s3
      \<and> (case sched_class_pick_next cls s2 of None \<Rightarrow> ?run = {} \<and> set (q s3) = {}
         | Some p \<Rightarrow> p \<in> ?run \<and> set (q s3) = ?run - {p})"
  proof (cases "sc_pick_next cls s2")
    case None
    then have "q s2 = []" using pick_ok(1) [OF s2(2)] by simp
    then have "?run = {}" using s2(3) by simp
    with None s2(2) \<open>q s2 = []\<close> show ?thesis by (simp add: sched_class_pick_next_def same_view_def)
  next
    case (Some p)
    have pq: "p \<in> set (q s2)" by (rule pick_ok(2) [OF s2(2) Some])
    from dequeue_ok [OF s2(2) pq] obtain s3 where s3: "sc_dequeue cls p s2 = Some s3" "ok s3"
      "set (q s3) = set (q s2) - {p}" "same_view s2 s3" by blast
    have "p \<in> ?run" using pq unfolding s2(3) .
    then show ?thesis using s3(1,2,4) unfolding s3(3) s2(3)
      by (intro exI [of _ s3]) (simp add: sched_class_pick_next_def sched_class_dequeue_def Some s3(3) s2(3))
  qed
  then obtain s3 where s3: "(case sched_class_pick_next cls s2 of Some p \<Rightarrow> sched_class_dequeue cls p s2
      | None \<Rightarrow> Some s2) = Some s3" "ok s3" "same_view s2 s3"
    "case sched_class_pick_next cls s2 of None \<Rightarrow> ?run = {} \<and> set (q s3) = {}
         | Some p \<Rightarrow> p \<in> ?run \<and> set (q s3) = ?run - {p}" by blast
  define n where "n = (case sched_class_pick_next cls s2 of Some p \<Rightarrow> p | None \<Rightarrow> sidle s3)"
  define s4 where "s4 = upd_sp n (\<lambda>d. d\<lparr>s_runs := s_runs d + 1\<rparr>) s3"
  define s5 where "s5 = (if n \<noteq> scur s4 then s4\<lparr>scur := n\<rparr> else s4)"
  have "sschedule cls s = Some s5"
    unfolding sschedule_def Let_def s1_def [symmetric] s2(1) option.case s3(1) n_def [symmetric] s4_def [symmetric]
      s5_def [symmetric] by (rule refl)
  moreover have ok4: "ok s4" unfolding s4_def by (rule ok_upd(1) [OF s3(2)]) simp
  then have "ok s5" using ok_cur(1) by (simp add: s5_def)
  moreover have q5: "q s5 = q s3" by (simp add: s5_def s4_def ok_cur(2) ok_upd(2))
  have sv: "same_view s s3" using v1 s2(4) s3(3) by (simp add: same_view_def)
  have st5: "s_state (sps s5 p) = s_state (sps s p)" "s_wait (sps s5 p) = s_wait (sps s p)" for p
    using sv by (simp_all add: s5_def s4_def same_view_def)
  have c5: "scur s5 = n" "sidle s5 = sidle s" "timer_list s5 = timer_list s"
    using sv by (simp_all add: s5_def s4_def same_view_def)
  have nn: "set (q s3) = ?run - {n} \<and> (n \<in> ?run \<or> n = sidle s \<and> ?run = {})"
  proof (cases "sched_class_pick_next cls s2")
    case None
    with s3(4) sv show ?thesis by (simp add: n_def same_view_def)
  next
    case (Some p)
    with s3(4) show ?thesis by (simp add: n_def)
  qed
  have "rq_exact q s5" unfolding rq_exact_def q5 st5 c5 nn [THEN conjunct1] by blast
  moreover have "s_state (sps s5 (scur s5)) = PROC_RUNNABLE" using nn [THEN conjunct2] assms(3) unfolding st5 c5 by blast
  moreover have "scur s5 = sidle s \<longleftrightarrow> (\<forall>p. s_state (sps s p) = PROC_RUNNABLE \<longrightarrow> p = sidle s)"
    using nn [THEN conjunct2] unfolding c5 by blast
  ultimately show ?thesis using st5 c5 by (intro exI [of _ s5]) simp
qed

text \<open>Firing: the processes of the timers at 0 become runnable, nothing else changes state.\<close>

lemma fire_exact:
  assumes "ok s" "rq_exact q s" "timer_list s = ts"
    and "\<forall>t \<in> set (takeWhile (\<lambda>t. expires t = 0) ts). may_fire s (tm_proc t)"
  shows "\<exists>s'. fire_timers cls ts s = Some s' \<and> ok s' \<and> rq_exact q s'
    \<and> timer_list s' = dropWhile (\<lambda>t. expires t = 0) ts \<and> scur s' = scur s \<and> sidle s' = sidle s
    \<and> (\<forall>p. s_state (sps s' p)
         = (if p \<in> tm_proc ` set (takeWhile (\<lambda>t. expires t = 0) ts) then PROC_RUNNABLE else s_state (sps s p)))"
  using assms
proof (induction ts arbitrary: s)
  case Nil
  then show ?case by simp
next
  case (Cons t ts)
  show ?case
  proof (cases "expires t = 0")
    case False
    with Cons.prems show ?thesis by simp
  next
    case True
    let ?p = "tm_proc t"
    have mf: "may_fire s ?p" using Cons.prems(4) True by simp
    then have nz: "s_state (sps s ?p) \<noteq> PROC_ZOMBIE" by (simp add: may_fire_def)
    from wakeup_exact [OF Cons.prems(1,2) nz] obtain s1 where
      w: "swakeup_proc cls ?p s = Some s1" "ok s1" "rq_exact q s1" "scur s1 = scur s" "sidle s1 = sidle s"
      "timer_list s1 = timer_list s" "s_state (sps s1 ?p) = PROC_RUNNABLE"
      "\<And>r. r \<noteq> ?p \<Longrightarrow> s_state (sps s1 r) = s_state (sps s r) \<and> s_wait (sps s1 r) = s_wait (sps s r)"
      "s_state (sps s ?p) \<noteq> PROC_RUNNABLE \<longrightarrow> s_wait (sps s1 ?p) = 0"
      "s_state (sps s ?p) = PROC_RUNNABLE \<longrightarrow> s1 = s" by blast
    define s2 where "s2 = del_timer (tm_id t) s1"
    have s2: "s2 = s1\<lparr>timer_list := ts\<rparr>"
      using w(6) Cons.prems(3) True by (auto simp: s2_def del_timer_def split: list.splits)
    have mf1: "may_fire s2 ?p"
      using mf w(7,9,10) by (cases "s_state (sps s ?p) = PROC_RUNNABLE") (auto simp: may_fire_def s2)
    have "may_fire s2 r" if "may_fire s r" for r
      using that w(8) [of r] mf1 by (cases "r = ?p") (auto simp: may_fire_def s2)
    then have "\<forall>t \<in> set (takeWhile (\<lambda>t. expires t = 0) ts). may_fire s2 (tm_proc t)"
      using Cons.prems(4) True by simp
    moreover have "ok s2" "rq_exact q s2" "timer_list s2 = ts"
      using w(2,3) ok_tm by (simp_all add: s2 rq_exact_def)
    ultimately obtain s3 where s3: "fire_timers cls ts s2 = Some s3" "ok s3" "rq_exact q s3"
      "timer_list s3 = dropWhile (\<lambda>t. expires t = 0) ts" "scur s3 = scur s2" "sidle s3 = sidle s2"
      "\<And>p. s_state (sps s3 p)
         = (if p \<in> tm_proc ` set (takeWhile (\<lambda>t. expires t = 0) ts) then PROC_RUNNABLE else s_state (sps s2 p))"
      using Cons.IH by blast
    have "fire_timers cls (t # ts) s = Some s3"
      using True mf w(1) s3(1) by (simp add: may_fire_def Let_def s2_def)
    moreover have "s_state (sps s3 p) = (if p \<in> tm_proc ` set (takeWhile (\<lambda>t. expires t = 0) (t # ts))
        then PROC_RUNNABLE else s_state (sps s p))" for p
      using s3(7) [of p] w(7) w(8) [of p] True by (cases "p = ?p") (simp_all add: s2)
    ultimately show ?thesis using s3 w(4,5) True by (simp add: s2)
  qed
qed

end

end
