(* ===== verification/Sched_Facts.thy ===== *)
theory Sched_Facts
  imports Sched
begin

text \<open>
  Round robin provides the laws of \<open>sched_policy\<close>, is first come first served, and starves
  nobody; the timer list keeps every timer's absolute deadline.
\<close>

section \<open>Round robin\<close>

definition rr_queue :: "'a sched_scheme \<Rightarrow> pptr list" where
  "rr_queue s = run_list (rq s)"

definition rr_ok :: "'a sched_scheme \<Rightarrow> bool" where
  "rr_ok s \<longleftrightarrow> distinct (run_list (rq s)) \<and> (\<forall>p \<in> set (run_list (rq s)). s_rq (sps s p))
     \<and> proc_num (rq s) = of_nat (length (run_list (rq s)))"

lemma RR_enqueue_eq:
  assumes "p \<notin> set (run_list (rq s))"
  shows "\<exists>s'. RR_enqueue p s = Some s' \<and> run_list (rq s') = run_list (rq s) @ [p]
    \<and> proc_num (rq s') = proc_num (rq s) + 1 \<and> same_view s s'
    \<and> (\<forall>r. s_rq (sps s' r) = (s_rq (sps s r) \<or> r = p))"
  using assms by (auto simp: RR_enqueue_def Let_def same_view_def)

interpretation rr: sched_policy RR_class rr_queue rr_ok
proof
  fix s :: "'a sched_scheme" and p
  assume ok: "rr_ok s" and p: "p \<notin> set (rr_queue s)"
  from RR_enqueue_eq [of p s] p obtain s' where s': "RR_enqueue p s = Some s'"
    "run_list (rq s') = run_list (rq s) @ [p]" "proc_num (rq s') = proc_num (rq s) + 1" "same_view s s'"
    "\<forall>r. s_rq (sps s' r) = (s_rq (sps s r) \<or> r = p)" by (auto simp: rr_queue_def)
  then have "rr_ok s'" "set (rr_queue s') = insert p (set (rr_queue s))"
    using ok p by (auto simp: rr_ok_def rr_queue_def)
  with s' show "\<exists>s'. sc_enqueue RR_class p s = Some s' \<and> rr_ok s' \<and> set (rr_queue s') = insert p (set (rr_queue s))
    \<and> same_view s s'" by auto
next
  fix s :: "'a sched_scheme" and p
  assume ok: "rr_ok s" and p: "p \<in> set (rr_queue s)"
  define s' where "s' = s\<lparr>rq := (rq s)\<lparr>run_list := remove1 p (run_list (rq s)), proc_num := proc_num (rq s) - 1\<rparr>\<rparr>"
  have d: "distinct (run_list (rq s))" using ok by (simp add: rr_ok_def)
  have "length (run_list (rq s)) = Suc (length (remove1 p (run_list (rq s))))"
    using p length_pos_if_in_set [of p "run_list (rq s)"] by (simp add: length_remove1 rr_queue_def)
  then have n: "of_nat (length (run_list (rq s))) - 1 = (of_nat (length (remove1 p (run_list (rq s)))) :: u32)"
    by simp
  have "RR_dequeue p s = Some s'" using ok p by (simp add: RR_dequeue_def rr_ok_def rr_queue_def s'_def)
  moreover have "rr_ok s'" using ok d n by (auto simp: rr_ok_def s'_def)
  moreover have "set (rr_queue s') = set (rr_queue s) - {p}" using d by (simp add: rr_queue_def s'_def)
  moreover have "same_view s s'" by (simp add: same_view_def s'_def)
  ultimately show "\<exists>s'. sc_dequeue RR_class p s = Some s' \<and> rr_ok s' \<and> set (rr_queue s') = set (rr_queue s) - {p}
    \<and> same_view s s'" by auto
qed (auto simp: RR_pick_next_def rr_queue_def rr_ok_def upd_sp_def split: list.splits)

text \<open>C8: The run queue is exact: \<open>schedule\<close> from a state whose queue holds exactly the
  runnable processes besides the current one and \<open>idleproc\<close> leads to such a state again, without
  a failed assertion; a runnable process is current afterwards, and \<open>idleproc\<close> only when no other
  process is runnable.\<close>

theorem rr_schedule_keeps_queue_exact:
  assumes "rr_ok s" "rq_exact rr_queue s" "s_state (sps s (sidle s)) = PROC_RUNNABLE"
  shows "\<exists>s'. sschedule RR_class s = Some s' \<and> rr_ok s' \<and> rq_exact rr_queue s'
    \<and> s_state (sps s' (scur s')) = PROC_RUNNABLE
    \<and> (scur s' = sidle s \<longleftrightarrow> (\<forall>p. s_state (sps s p) = PROC_RUNNABLE \<longrightarrow> p = sidle s))
    \<and> (\<forall>p. s_state (sps s' p) = s_state (sps s p))"
  using rr.schedule_exact [OF assms] by blast

section \<open>First come, first served\<close>

datatype sevent = Ev_schedule | Ev_wake pptr | Ev_sleep u32 | Ev_tick

fun sstep :: "sevent \<Rightarrow> sched \<Rightarrow> sched option" where
  "sstep Ev_schedule s = sschedule RR_class s"
| "sstep (Ev_wake p) s = swakeup_proc RR_class p s"
| "sstep (Ev_sleep w) s = Some (upd_sp (scur s) (\<lambda>d. d\<lparr>s_state := PROC_SLEEPING, s_wait := w\<rparr>) s)"
| "sstep Ev_tick s = run_timer_list RR_class s"

fun sexec :: "sevent list \<Rightarrow> sched \<Rightarrow> sched option" where
  "sexec [] s = Some s"
| "sexec (e # es) s = Option.bind (sstep e s) (sexec es)"

lemma wake_appends:
  assumes "swakeup_proc RR_class p s = Some s'"
  shows "\<exists>cs. run_list (rq s') = run_list (rq s) @ cs"
  using assms
  by (auto simp: swakeup_proc_def sched_class_enqueue_def RR_enqueue_def Let_def split: if_splits)

lemma fire_appends:
  assumes "fire_timers RR_class ts s = Some s'"
  shows "\<exists>cs. run_list (rq s') = run_list (rq s) @ cs"
  using assms
proof (induction ts arbitrary: s)
  case Nil
  then show ?case by simp
next
  case (Cons t ts)
  show ?case
  proof (cases "expires t = 0")
    case True
    with Cons.prems obtain s1 where s1: "swakeup_proc RR_class (tm_proc t) s = Some s1"
      "fire_timers RR_class ts (del_timer (tm_id t) s1) = Some s'"
      by (auto simp: Let_def split: if_splits option.splits)
    from wake_appends [OF s1(1)] Cons.IH [OF s1(2)] show ?thesis by (auto simp: del_timer_def)
  qed (use Cons.prems in simp)
qed

lemma tick_run_list: "run_list (rq (sched_class_proc_tick RR_class p s)) = run_list (rq s)"
  by (simp add: sched_class_proc_tick_def RR_proc_tick_def Let_def)

lemma step_appends:
  assumes "sstep e s = Some s'" "e \<noteq> Ev_schedule"
  shows "\<exists>cs. run_list (rq s') = run_list (rq s) @ cs"
proof (cases e)
  case (Ev_wake p)
  with assms wake_appends show ?thesis by simp
next
  case (Ev_sleep w)
  with assms show ?thesis by auto
next
  case Ev_tick
  show ?thesis
  proof (cases "timer_list s")
    case Nil
    with assms Ev_tick show ?thesis by (auto simp: run_timer_list_def tick_run_list)
  next
    case (Cons t ts)
    with assms Ev_tick obtain s1 where
      "fire_timers RR_class (t\<lparr>expires := expires t - 1\<rparr> # ts)
        (s\<lparr>timer_list := t\<lparr>expires := expires t - 1\<rparr> # ts\<rparr>) = Some s1"
      "s' = sched_class_proc_tick RR_class (scur s1) s1"
      by (auto simp: run_timer_list_def Let_def split: if_splits simp del: fire_timers.simps)
    with fire_appends [OF this(1)] show ?thesis by (simp add: tick_run_list)
  qed
qed (use assms in simp)

lemma schedule_fifo:
  assumes "sschedule RR_class s = Some s'" "run_list (rq s) = p # ps"
  shows "scur s' = p \<and> (\<exists>cs. run_list (rq s') = ps @ cs)"
proof -
  define s1 where "s1 = upd_sp (scur s) (\<lambda>d. d\<lparr>s_resched := False\<rparr>) s"
  from assms(1) obtain s2 where s2: "(if s_state (sps s1 (scur s1)) = PROC_RUNNABLE
      then sched_class_enqueue RR_class (scur s1) s1 else Some s1) = Some s2"
    and rest: "(let pick = sched_class_pick_next RR_class s2
       in case (case pick of Some p \<Rightarrow> sched_class_dequeue RR_class p s2 | None \<Rightarrow> Some s2) of
            None \<Rightarrow> None
          | Some s3 \<Rightarrow>
              let nxt = (case pick of Some p \<Rightarrow> p | None \<Rightarrow> sidle s3);
                  s4 = upd_sp nxt (\<lambda>d. d\<lparr>s_runs := s_runs d + 1\<rparr>) s3
              in Some (if nxt \<noteq> scur s4 then s4\<lparr>scur := nxt\<rparr> else s4)) = Some s'"
    unfolding sschedule_def s1_def by (auto simp: Let_def split: option.splits)
  have "\<exists>cs. run_list (rq s2) = run_list (rq s1) @ cs"
    using s2 by (auto simp: sched_class_enqueue_def RR_enqueue_def Let_def split: if_splits)
  then obtain cs where r2: "run_list (rq s2) = p # ps @ cs" using assms(2) by (auto simp: s1_def)
  then have "sched_class_pick_next RR_class s2 = Some p" by (simp add: sched_class_pick_next_def RR_pick_next_def)
  with rest obtain s3 where s3: "RR_dequeue p s2 = Some s3"
    "s' = (let s4 = upd_sp p (\<lambda>d. d\<lparr>s_runs := s_runs d + 1\<rparr>) s3 in if p \<noteq> scur s4 then s4\<lparr>scur := p\<rparr> else s4)"
    by (auto simp: sched_class_dequeue_def Let_def split: option.splits)
  have "run_list (rq s3) = ps @ cs" using s3(1) r2 by (auto simp: RR_dequeue_def split: if_splits)
  then show ?thesis using s3(2) by (auto simp: Let_def)
qed

text \<open>C9: Round robin starves nobody: a process with \<open>k\<close> others before it in the run queue is the
  current process at some point of every run with more than \<open>k\<close> calls of \<open>schedule\<close>, whatever
  wake-ups, timer ticks and sleeps happen in between.\<close>

theorem rr_no_starvation:
  assumes "sexec es s = Some s'" "run_list (rq s) = as @ p # bs"
    and "length as < length (filter (\<lambda>e. e = Ev_schedule) es)"
  shows "\<exists>es1 es2 s1. es = es1 @ es2 \<and> sexec es1 s = Some s1 \<and> scur s1 = p"
  using assms
proof (induction es arbitrary: s as bs)
  case Nil
  then show ?case by simp
next
  case (Cons e es)
  from Cons.prems(1) obtain s1 where s1: "sstep e s = Some s1" "sexec es s1 = Some s'"
    by (auto simp: bind_eq_Some_conv)
  have go: ?case if "\<exists>es1 es2 s2. es = es1 @ es2 \<and> sexec es1 s1 = Some s2 \<and> scur s2 = p"
  proof -
    from that obtain es1 es2 s2 where "es = es1 @ es2" "sexec es1 s1 = Some s2" "scur s2 = p" by blast
    with s1(1) show ?thesis by (intro exI [of _ "e # es1"] exI [of _ es2] exI [of _ s2]) simp
  qed
  show ?case
  proof (cases "e = Ev_schedule")
    case False
    from step_appends [OF s1(1) False] Cons.prems(2) obtain cs where "run_list (rq s1) = as @ p # (bs @ cs)" by auto
    from Cons.IH [OF s1(2) this] Cons.prems(3) False show ?thesis by (intro go) simp
  next
    case True
    show ?thesis
    proof (cases as)
      case Nil
      with Cons.prems(2) schedule_fifo [of s s1 p bs] s1(1) True have "scur s1 = p" by simp
      with s1(1) show ?thesis by (intro exI [of _ "[e]"] exI [of _ es] exI [of _ s1]) simp
    next
      case (Cons a as')
      with Cons.prems(2) schedule_fifo [of s s1 a "as' @ p # bs"] s1(1) True obtain cs where
        "run_list (rq s1) = as' @ p # (bs @ cs)" by auto
      from Cons.IH [OF s1(2) this] Cons.prems(3) True Cons show ?thesis by (intro go) simp
    qed
  qed
qed

section \<open>Timers\<close>

text \<open>The absolute deadlines of a timer list, from a base.\<close>

fun deadlines :: "nat \<Rightarrow> stimer list \<Rightarrow> (nat \<times> nat \<times> pptr) list" where
  "deadlines b [] = []"
| "deadlines b (t # ts) = (tm_id t, b + unat (expires t), tm_proc t) # deadlines (b + unat (expires t)) ts"

lemma deadlines_ge: "x \<in> set (deadlines b ts) \<Longrightarrow> b \<le> fst (snd x)"
  by (induction ts arbitrary: b) fastforce+

lemma map_fst_deadlines: "map fst (deadlines b ts) = map tm_id ts"
  by (induction ts arbitrary: b) auto

lemma timer_insert_deadlines:
  "deadlines b (timer_insert t ts)
    = filter (\<lambda>x. fst (snd x) \<le> b + unat (expires t)) (deadlines b ts)
      @ (tm_id t, b + unat (expires t), tm_proc t)
      # filter (\<lambda>x. b + unat (expires t) < fst (snd x)) (deadlines b ts)"
proof (induction t ts arbitrary: b rule: timer_insert.induct)
  case (1 t)
  then show ?case by simp
next
  case (2 t n ts)
  show ?case
  proof (cases "expires t < expires n")
    case True
    then have lt: "unat (expires t) < unat (expires n)" by (simp add: word_less_nat_alt)
    have "unat (expires n - expires t) = unat (expires n) - unat (expires t)"
      using True by (simp add: unat_sub less_imp_le)
    then have d: "deadlines b (timer_insert t (n # ts))
        = (tm_id t, b + unat (expires t), tm_proc t) # deadlines b (n # ts)" using True lt by simp
    have "\<forall>x \<in> set (deadlines b (n # ts)). b + unat (expires t) < fst (snd x)"
      using lt deadlines_ge [of _ "b + unat (expires n)" ts] by fastforce
    then have "filter (\<lambda>x. fst (snd x) \<le> b + unat (expires t)) (deadlines b (n # ts)) = []"
      "filter (\<lambda>x. b + unat (expires t) < fst (snd x)) (deadlines b (n # ts)) = deadlines b (n # ts)"
      by (auto simp: filter_empty_conv filter_id_conv simp del: deadlines.simps)
    with d show ?thesis by simp
  next
    case False
    then have le: "unat (expires n) \<le> unat (expires t)" by (simp add: word_le_nat_alt not_less)
    have u: "unat (expires t - expires n) = unat (expires t) - unat (expires n)"
      using False by (simp add: unat_sub not_less)
    show ?thesis using 2 [OF False, of "b + unat (expires n)"] False le by (simp add: u)
  qed
qed

text \<open>Adding a timer: every timer keeps its absolute deadline, and the new one is placed at
  its own, behind the timers with an earlier or the same deadline.\<close>

theorem add_timer_deadlines:
  assumes "expires t \<noteq> 0" "tm_id t \<notin> set (map tm_id (timer_list s))"
  shows "\<exists>s'. add_timer t s = Some s' \<and> deadlines 0 (timer_list s')
    = filter (\<lambda>x. fst (snd x) \<le> unat (expires t)) (deadlines 0 (timer_list s))
      @ (tm_id t, unat (expires t), tm_proc t)
      # filter (\<lambda>x. unat (expires t) < fst (snd x)) (deadlines 0 (timer_list s))"
  using assms timer_insert_deadlines [of 0 t "timer_list s"] by (simp add: add_timer_def)

lemma timer_remove_deadlines:
  assumes "distinct (map tm_id ts)" "\<forall>x \<in> set (deadlines b ts). fst (snd x) < 2 ^ 32"
  shows "deadlines b (timer_remove i ts) = filter (\<lambda>x. fst x \<noteq> i) (deadlines b ts)"
  using assms
proof (induction ts arbitrary: b)
  case Nil
  then show ?case by simp
next
  case (Cons t ts)
  show ?case
  proof (cases "tm_id t = i")
    case True
    have "i \<notin> fst ` set (deadlines c ts)" for c
      using Cons.prems(1) True arg_cong [OF map_fst_deadlines [of c ts], of set] by auto
    then have keep: "filter (\<lambda>x. fst x \<noteq> i) (deadlines c ts) = deadlines c ts" for c
      by (force simp: filter_id_conv)
    show ?thesis
    proof (cases ts)
      case Nil
      with True show ?thesis by simp
    next
      case (Cons n ns)
      have "b + unat (expires t) + unat (expires n) < 2 ^ 32" using Cons.prems(2) Cons by simp
      then have "unat (expires n + expires t) = unat (expires n) + unat (expires t)"
        by (subst unat_add_lem [THEN iffD1]) simp_all
      then show ?thesis using True Cons keep [of "b + unat (expires t)"] by (simp add: ac_simps)
    qed
  next
    case False
    with Cons show ?thesis by simp
  qed
qed

text \<open>Deleting a timer: exactly that timer goes, every other keeps its absolute deadline.\<close>

theorem del_timer_deadlines:
  assumes "distinct (map tm_id (timer_list s))" "\<forall>x \<in> set (deadlines 0 (timer_list s)). fst (snd x) < 2 ^ 32"
  shows "deadlines 0 (timer_list (del_timer i s)) = filter (\<lambda>x. fst x \<noteq> i) (deadlines 0 (timer_list s))"
  using timer_remove_deadlines [OF assms, of i] by (simp add: del_timer_def)

lemma deadlines_Suc: "deadlines (Suc b) ts = map (\<lambda>(i, d, p). (i, Suc d, p)) (deadlines b ts)"
  by (induction ts arbitrary: b) simp_all

lemma deadlines_tick:
  assumes "expires t \<noteq> 0"
  shows "deadlines 0 (t\<lparr>expires := expires t - 1\<rparr> # ts) = map (\<lambda>(i, d, p). (i, d - 1, p)) (deadlines 0 (t # ts))"
proof -
  obtain n where n: "unat (expires t) = Suc n" using assms by (cases "unat (expires t)") (auto simp: unat_eq_0)
  then have "unat (expires t - 1) = n" using assms by (simp add: unat_minus_one)
  then show ?thesis using n by (simp add: deadlines_Suc comp_def case_prod_unfold)
qed

lemma tick_image:
  assumes "\<forall>x \<in> X. 0 < fst (snd x)"
  shows "(i, 0, p) \<in> (\<lambda>(i, d, p). (i, d - 1, p)) ` X \<longleftrightarrow> (i, 1 :: nat, p) \<in> X"
proof
  assume "(i, 0, p) \<in> (\<lambda>(i, d, p). (i, d - 1, p)) ` X"
  then obtain d where d: "(i, d, p) \<in> X" "d - 1 = 0" by auto
  with assms have "d = 1" by fastforce
  with d show "(i, 1, p) \<in> X" by simp
next
  assume "(i, 1, p) \<in> X"
  then show "(i, 0, p) \<in> (\<lambda>(i, d, p). (i, d - 1, p)) ` X" by (rule rev_image_eqI) simp
qed

lemma deadlines_dropWhile:
  "deadlines 0 (dropWhile (\<lambda>t. expires t = 0) ts) = filter (\<lambda>x. fst (snd x) \<noteq> 0) (deadlines 0 ts)"
proof (induction ts)
  case (Cons t ts)
  show ?case
  proof (cases "expires t = 0")
    case False
    have "\<forall>x \<in> set (deadlines 0 (t # ts)). fst (snd x) \<noteq> 0"
      using False deadlines_ge [of _ "unat (expires t)" ts] by (fastforce simp: unat_eq_0)
    then have "filter (\<lambda>x. fst (snd x) \<noteq> 0) (deadlines 0 (t # ts)) = deadlines 0 (t # ts)"
      by (simp add: filter_id_conv)
    with False show ?thesis by (simp del: deadlines.simps)
  qed (use Cons in simp)
qed simp

lemma deadlines_takeWhile:
  "p \<in> tm_proc ` set (takeWhile (\<lambda>t. expires t = 0) ts) \<longleftrightarrow> (\<exists>i. (i, 0, p) \<in> set (deadlines 0 ts))"
proof (induction ts)
  case (Cons t ts)
  show ?case
  proof (cases "expires t = 0")
    case True
    with Cons show ?thesis by auto
  next
    case False
    have "(i, 0, p) \<notin> set (deadlines 0 (t # ts))" for i
      using False deadlines_ge [of "(i, 0, p)" "unat (expires t)" ts] by (auto simp: unat_eq_0)
    with False show ?thesis by simp
  qed
qed simp

text \<open>C10: A clock tick: when no timer on the list is already due, every deadline comes one tick
  closer, the timers that were one tick away are gone and exactly their processes have become
  runnable; the run queue stays exact.\<close>

theorem run_timer_list_fires_due:
  assumes "rr_ok s" "rq_exact rr_queue s" "\<forall>x \<in> set (deadlines 0 (timer_list s)). 0 < fst (snd x)"
    and "\<And>i p. (i, 1, p) \<in> set (deadlines 0 (timer_list s)) \<Longrightarrow> s_state (sps s p) \<noteq> PROC_ZOMBIE
      \<and> (s_wait (sps s p) = 0 \<or> s_wait (sps s p) AND WT_INTERRUPTED \<noteq> 0)"
  shows "\<exists>s'. run_timer_list RR_class s = Some s' \<and> rr_ok s' \<and> rq_exact rr_queue s'
    \<and> deadlines 0 (timer_list s')
      = map (\<lambda>(i, d, p). (i, d - 1, p)) (filter (\<lambda>x. 1 < fst (snd x)) (deadlines 0 (timer_list s)))
    \<and> (\<forall>p. s_state (sps s' p) = (if \<exists>i. (i, 1, p) \<in> set (deadlines 0 (timer_list s)) then PROC_RUNNABLE
         else s_state (sps s p)))"
proof -
  have tick: "rr_ok (sched_class_proc_tick RR_class c t)" "rq_exact rr_queue (sched_class_proc_tick RR_class c t)"
    "timer_list (sched_class_proc_tick RR_class c t) = timer_list t"
    "s_state (sps (sched_class_proc_tick RR_class c t) p) = s_state (sps t p)"
    if "rr_ok t" "rq_exact rr_queue t" for t :: "'a sched_scheme" and c p
    using that
    by (auto simp: sched_class_proc_tick_def RR_proc_tick_def Let_def rr_ok_def rq_exact_def rr_queue_def)
  show ?thesis
  proof (cases "timer_list s")
    case Nil
    with tick [OF assms(1,2)] show ?thesis by (simp add: run_timer_list_def)
  next
    case (Cons t ts)
    let ?D = "deadlines 0 (timer_list s)"
    define tl' where "tl' = t\<lparr>expires := expires t - 1\<rparr> # ts"
    have et: "expires t \<noteq> 0" using assms(3) Cons by (simp add: unat_gt_0)
    have D': "deadlines 0 tl' = map (\<lambda>(i, d, p). (i, d - 1, p)) ?D"
      using deadlines_tick [OF et, of ts] unfolding tl'_def Cons .
    have due: "(\<exists>i. (i, 0, p) \<in> set (deadlines 0 tl')) \<longleftrightarrow> (\<exists>i. (i, 1, p) \<in> set ?D)" for p
      unfolding D' set_map using tick_image [OF assms(3)] by blast
    let ?s = "s\<lparr>timer_list := tl'\<rparr>"
    have "rr_ok ?s" "rq_exact rr_queue ?s"
      using assms(1,2) by (simp_all add: rr_ok_def rq_exact_def rr_queue_def)
    moreover have "\<forall>t \<in> set (takeWhile (\<lambda>t. expires t = 0) tl'). may_fire ?s (tm_proc t)"
    proof
      fix u assume "u \<in> set (takeWhile (\<lambda>t. expires t = 0) tl')"
      then have "\<exists>i. (i, 1, tm_proc u) \<in> set ?D" using deadlines_takeWhile [of "tm_proc u" tl'] due by blast
      with assms(4) show "may_fire ?s (tm_proc u)" by (auto simp: may_fire_def)
    qed
    ultimately obtain s1 where s1: "fire_timers RR_class tl' ?s = Some s1" "rr_ok s1" "rq_exact rr_queue s1"
      "timer_list s1 = dropWhile (\<lambda>t. expires t = 0) tl'"
      "\<And>p. s_state (sps s1 p) = (if p \<in> tm_proc ` set (takeWhile (\<lambda>t. expires t = 0) tl')
         then PROC_RUNNABLE else s_state (sps ?s p))"
      using rr.fire_exact [of ?s tl'] by auto
    have "run_timer_list RR_class s = Some (sched_class_proc_tick RR_class (scur s1) s1)"
      using Cons et s1(1) [unfolded tl'_def] by (simp add: run_timer_list_def Let_def del: fire_timers.simps)
    moreover have "deadlines 0 (timer_list s1) = map (\<lambda>(i, d, p). (i, d - 1, p)) (filter (\<lambda>x. 1 < fst (snd x)) ?D)"
      unfolding s1(4) deadlines_dropWhile D' filter_map
      by (rule arg_cong [where f = "map _"], rule filter_cong) auto
    moreover have "s_state (sps s1 p) = (if \<exists>i. (i, 1, p) \<in> set ?D then PROC_RUNNABLE else s_state (sps s p))" for p
      unfolding s1(5) deadlines_takeWhile due by simp
    ultimately show ?thesis using tick [OF s1(2,3)] by auto
  qed
qed

section \<open>A concrete scheduler state\<close>

text \<open>Process 1 runs, 2 is queued, 3 and 4 sleep on timers that are due in one and three ticks.\<close>

definition demo_sched :: sched where
  "demo_sched = \<lparr>sps = (\<lambda>p. \<lparr>s_state = (if p \<le> 2 then PROC_RUNNABLE else PROC_SLEEPING),
       s_wait = (if p \<le> 2 then 0 else WT_TIMER), s_resched = False, s_runs = 0, s_slice = 5, s_rq = True\<rparr>),
     scur = 1, sidle = 0, rq = \<lparr>run_list = [2], proc_num = 1, max_time_slice = 5\<rparr>,
     timer_list = [\<lparr>tm_id = 7, expires = 1, tm_proc = 3\<rparr>, \<lparr>tm_id = 8, expires = 2, tm_proc = 4\<rparr>]\<rparr>"

lemma demo_sched_ok: "rr_ok demo_sched" "rq_exact rr_queue demo_sched"
  by (auto simp: demo_sched_def rr_ok_def rq_exact_def rr_queue_def)

theorem rr_schedule_keeps_queue_exact_witness:
  "\<exists>s'. sschedule RR_class demo_sched = Some s' \<and> rq_exact rr_queue s' \<and> scur s' \<noteq> 0"
proof -
  have "s_state (sps demo_sched (sidle demo_sched)) = PROC_RUNNABLE"
    "s_state (sps demo_sched 1) = PROC_RUNNABLE \<and> sidle demo_sched = 0"
    by (simp_all add: demo_sched_def)
  with rr_schedule_keeps_queue_exact [OF demo_sched_ok] show ?thesis by fastforce
qed

theorem rr_no_starvation_witness:
  "\<exists>es1 es2 s1. [Ev_tick, Ev_wake 4, Ev_schedule] = es1 @ es2 \<and> sexec es1 demo_sched = Some s1 \<and> scur s1 = 2"
proof -
  have "run_list (rq demo_sched) = [] @ 2 # []" by (simp add: demo_sched_def)
  moreover have "sexec [Ev_tick, Ev_wake 4, Ev_schedule] demo_sched \<noteq> None" by code_simp
  then obtain s' where "sexec [Ev_tick, Ev_wake 4, Ev_schedule] demo_sched = Some s'" by blast
  ultimately show ?thesis using rr_no_starvation [of "[Ev_tick, Ev_wake 4, Ev_schedule]" demo_sched s' "[]" 2 "[]"]
    by simp
qed

theorem add_timer_deadlines_witness:
  "\<exists>s'. add_timer (timer_init 9 5 2) demo_sched = Some s'
    \<and> deadlines 0 (timer_list s') = [(7, 1, 3), (9, 2, 5), (8, 3, 4)]"
proof -
  have d: "deadlines 0 (timer_list demo_sched) = [(7, 1, 3), (8, 3, 4)]"
    and i: "map tm_id (timer_list demo_sched) = [7, 8]" by (simp_all add: demo_sched_def)
  show ?thesis using add_timer_deadlines [of "timer_init 9 5 2" demo_sched] unfolding d i
    by (simp add: timer_init_def)
qed

theorem del_timer_deadlines_witness:
  "deadlines 0 (timer_list (del_timer 7 demo_sched)) = [(8, 3, 4)]"
  using del_timer_deadlines [of demo_sched 7] by (simp add: demo_sched_def)

theorem run_timer_list_fires_due_witness:
  "\<exists>s'. run_timer_list RR_class demo_sched = Some s' \<and> deadlines 0 (timer_list s') = [(8, 2, 4)]
    \<and> s_state (sps s' 3) = PROC_RUNNABLE \<and> s_state (sps s' 4) = PROC_SLEEPING"
proof -
  have d: "deadlines 0 (timer_list demo_sched) = [(7, 1, 3), (8, 3, 4)]" by (simp add: demo_sched_def)
  have 3: "s_state (sps demo_sched 3) = PROC_SLEEPING" "s_wait (sps demo_sched 3) = WT_TIMER"
    "s_state (sps demo_sched 4) = PROC_SLEEPING"
    by (simp_all add: demo_sched_def)
  have w: "WT_TIMER AND WT_INTERRUPTED \<noteq> 0" by (simp add: WT_TIMER_def WT_INTERRUPTED_def)
  have "\<forall>x \<in> set (deadlines 0 (timer_list demo_sched)). 0 < fst (snd x)" by (simp add: d)
  moreover have "\<And>i p. (i, 1, p) \<in> set (deadlines 0 (timer_list demo_sched)) \<Longrightarrow>
      s_state (sps demo_sched p) \<noteq> PROC_ZOMBIE
      \<and> (s_wait (sps demo_sched p) = 0 \<or> s_wait (sps demo_sched p) AND WT_INTERRUPTED \<noteq> 0)"
    using 3 w by (auto simp: d)
  ultimately obtain s' where s': "run_timer_list RR_class demo_sched = Some s'"
    "deadlines 0 (timer_list s') = map (\<lambda>(i, d, p). (i, d - 1, p))
        (filter (\<lambda>x. 1 < fst (snd x)) (deadlines 0 (timer_list demo_sched)))"
    "\<And>p. s_state (sps s' p) = (if \<exists>i. (i, 1, p) \<in> set (deadlines 0 (timer_list demo_sched)) then PROC_RUNNABLE
         else s_state (sps demo_sched p))"
    using run_timer_list_fires_due [OF demo_sched_ok] by blast
  have "s_state (sps s' 3) = PROC_RUNNABLE" "s_state (sps s' 4) = PROC_SLEEPING"
    unfolding s'(3) using 3(3) by (auto simp: d)
  then show ?thesis using s'(1,2) by (simp add: d)
qed

end
