(* ===== verification/Sync.thy ===== *)
theory Sync
  imports Sched_Facts
begin

text \<open>
  Wait queues and semaphores: \<open>lab8/kern/sync/wait.c\<close> and \<open>lab8/kern/sync/sem.c\<close>, on the
  scheduler state. A \<open>wait_t\<close> and a \<open>wait_queue_t\<close> are numbered; the queue of the semaphore \<open>n\<close>
  is the wait queue \<open>n\<close>. \<open>w_linked\<close> says that \<open>wait_link\<close> is not empty. \<open>down\<close> is split where it
  calls \<open>schedule\<close>: \<open>down_begin\<close> is what runs before another process does, \<open>down_resume\<close> what
  the caller does when it runs again.
\<close>

section \<open>State\<close>

record wait_t =
  w_proc :: pptr
  w_flags :: u32
  w_queue :: nat
  w_linked :: bool

record sync = sched +
  waits :: "nat \<Rightarrow> wait_t"
  wait_queues :: "nat \<Rightarrow> nat list"
  sem_value :: "nat \<Rightarrow> int"

definition upd_wait :: "nat \<Rightarrow> (wait_t \<Rightarrow> wait_t) \<Rightarrow> sync \<Rightarrow> sync" where
  "upd_wait w f s = s\<lparr>waits := (waits s)(w := f (waits s w))\<rparr>"

definition WT_KSEM :: u32 where "WT_KSEM = 0x100"

section \<open>Wait queues\<close>

definition wait_init :: "nat \<Rightarrow> pptr \<Rightarrow> sync \<Rightarrow> sync" where
  "wait_init w p s = upd_wait w (\<lambda>d. d\<lparr>w_proc := p, w_flags := WT_INTERRUPTED, w_linked := False\<rparr>) s"

definition wait_queue_init :: "nat \<Rightarrow> sync \<Rightarrow> sync" where
  "wait_queue_init q s = s\<lparr>wait_queues := (wait_queues s)(q := [])\<rparr>"

definition wait_queue_add :: "nat \<Rightarrow> nat \<Rightarrow> sync \<Rightarrow> sync option" where
  "wait_queue_add q w s =
     (if w_linked (waits s w) then None
      else Some (upd_wait w (\<lambda>d. d\<lparr>w_queue := q, w_linked := True\<rparr>)
             (s\<lparr>wait_queues := (wait_queues s)(q := wait_queues s q @ [w])\<rparr>)))"

definition wait_queue_del :: "nat \<Rightarrow> nat \<Rightarrow> sync \<Rightarrow> sync option" where
  "wait_queue_del q w s =
     (if \<not> w_linked (waits s w) \<or> w_queue (waits s w) \<noteq> q then None
      else Some (upd_wait w (\<lambda>d. d\<lparr>w_linked := False\<rparr>)
             (s\<lparr>wait_queues := (wait_queues s)(q := remove1 w (wait_queues s q))\<rparr>)))"

fun succ_in :: "nat \<Rightarrow> nat list \<Rightarrow> nat option" where
  "succ_in w [] = None"
| "succ_in w (x # xs) = (if x = w then (case xs of [] \<Rightarrow> None | y # _ \<Rightarrow> Some y) else succ_in w xs)"

definition wait_queue_next :: "nat \<Rightarrow> nat \<Rightarrow> sync \<Rightarrow> nat option option" where
  "wait_queue_next q w s =
     (if \<not> w_linked (waits s w) \<or> w_queue (waits s w) \<noteq> q then None else Some (succ_in w (wait_queues s q)))"

definition wait_queue_prev :: "nat \<Rightarrow> nat \<Rightarrow> sync \<Rightarrow> nat option option" where
  "wait_queue_prev q w s =
     (if \<not> w_linked (waits s w) \<or> w_queue (waits s w) \<noteq> q then None else Some (succ_in w (rev (wait_queues s q))))"

definition wait_queue_first :: "nat \<Rightarrow> sync \<Rightarrow> nat option" where
  "wait_queue_first q s = (case wait_queues s q of [] \<Rightarrow> None | w # _ \<Rightarrow> Some w)"

definition wait_queue_last :: "nat \<Rightarrow> sync \<Rightarrow> nat option" where
  "wait_queue_last q s = (case rev (wait_queues s q) of [] \<Rightarrow> None | w # _ \<Rightarrow> Some w)"

definition wait_queue_empty :: "nat \<Rightarrow> sync \<Rightarrow> bool" where
  "wait_queue_empty q s \<longleftrightarrow> wait_queues s q = []"

definition wait_in_queue :: "nat \<Rightarrow> sync \<Rightarrow> bool" where
  "wait_in_queue w s \<longleftrightarrow> w_linked (waits s w)"

definition wakeup_wait :: "nat \<Rightarrow> nat \<Rightarrow> u32 \<Rightarrow> bool \<Rightarrow> sync \<Rightarrow> sync option" where
  "wakeup_wait q w flags del s =
     Option.bind (if del then wait_queue_del q w s else Some s) (\<lambda>s1.
       let s2 = upd_wait w (\<lambda>d. d\<lparr>w_flags := flags\<rparr>) s1
       in swakeup_proc RR_class (w_proc (waits s2 w)) s2)"

definition wakeup_first :: "nat \<Rightarrow> u32 \<Rightarrow> bool \<Rightarrow> sync \<Rightarrow> sync option" where
  "wakeup_first q flags del s =
     (case wait_queue_first q s of None \<Rightarrow> Some s | Some w \<Rightarrow> wakeup_wait q w flags del s)"

text \<open>The two loops of \<open>wakeup_queue\<close>.\<close>

partial_function (option) wakeup_all_del :: "nat \<Rightarrow> u32 \<Rightarrow> sync \<Rightarrow> sync option" where
  "wakeup_all_del q flags s =
     (case wait_queue_first q s of
        None \<Rightarrow> Some s
      | Some w \<Rightarrow> Option.bind (wakeup_wait q w flags True s) (wakeup_all_del q flags))"

partial_function (option) wakeup_all_keep :: "nat \<Rightarrow> u32 \<Rightarrow> nat \<Rightarrow> sync \<Rightarrow> sync option" where
  "wakeup_all_keep q flags w s =
     Option.bind (wakeup_wait q w flags False s) (\<lambda>s1.
       case wait_queue_next q w s1 of
         None \<Rightarrow> None
       | Some None \<Rightarrow> Some s1
       | Some (Some w') \<Rightarrow> wakeup_all_keep q flags w' s1)"

declare wakeup_all_del.simps [code] wakeup_all_keep.simps [code]

definition wakeup_queue :: "nat \<Rightarrow> u32 \<Rightarrow> bool \<Rightarrow> sync \<Rightarrow> sync option" where
  "wakeup_queue q flags del s =
     (case wait_queue_first q s of
        None \<Rightarrow> Some s
      | Some w \<Rightarrow> if del then wakeup_all_del q flags s else wakeup_all_keep q flags w s)"

definition wait_current_set :: "nat \<Rightarrow> nat \<Rightarrow> u32 \<Rightarrow> sync \<Rightarrow> sync option" where
  "wait_current_set q w wst s =
     wait_queue_add q w (upd_sp (scur s) (\<lambda>d. d\<lparr>s_state := PROC_SLEEPING, s_wait := wst\<rparr>)
       (wait_init w (scur s) s))"

definition wait_current_del :: "nat \<Rightarrow> nat \<Rightarrow> sync \<Rightarrow> sync option" where
  "wait_current_del q w s = (if wait_in_queue w s then wait_queue_del q w s else Some s)"

section \<open>Semaphores\<close>

definition sem_init :: "nat \<Rightarrow> int \<Rightarrow> sync \<Rightarrow> sync" where
  "sem_init n v s = wait_queue_init n (s\<lparr>sem_value := (sem_value s)(n := v)\<rparr>)"

definition up_with :: "nat \<Rightarrow> u32 \<Rightarrow> sync \<Rightarrow> sync option" where
  "up_with n wst s =
     (case wait_queue_first n s of
        None \<Rightarrow> Some (s\<lparr>sem_value := (sem_value s)(n := sem_value s n + 1)\<rparr>)
      | Some w \<Rightarrow> if s_wait (sps s (w_proc (waits s w))) \<noteq> wst then None
                  else wakeup_wait n w wst True s)"

definition up :: "nat \<Rightarrow> sync \<Rightarrow> sync option" where
  "up n s = up_with n WT_KSEM s"

text \<open>\<open>w\<close> is the wait descriptor on the caller's stack; the flag says whether the caller got the
  semaphore without sleeping.\<close>

definition down_begin :: "nat \<Rightarrow> nat \<Rightarrow> u32 \<Rightarrow> sync \<Rightarrow> (bool \<times> sync) option" where
  "down_begin n w wst s =
     (if sem_value s n > 0 then Some (True, s\<lparr>sem_value := (sem_value s)(n := sem_value s n - 1)\<rparr>)
      else map_option (Pair False) (Option.bind (wait_current_set n w wst s) (sschedule RR_class)))"

definition down_resume :: "nat \<Rightarrow> nat \<Rightarrow> u32 \<Rightarrow> sync \<Rightarrow> (u32 \<times> sync) option" where
  "down_resume n w wst s =
     map_option (\<lambda>s1. (if w_flags (waits s1 w) \<noteq> wst then w_flags (waits s1 w) else 0, s1))
       (wait_current_del n w s)"

text \<open>\<open>down\<close> asserts that \<open>__down\<close> returned 0.\<close>

definition down :: "nat \<Rightarrow> nat \<Rightarrow> sync \<Rightarrow> (bool \<times> sync) option" where
  "down n w s = down_begin n w WT_KSEM s"

definition down_finish :: "nat \<Rightarrow> nat \<Rightarrow> sync \<Rightarrow> sync option" where
  "down_finish n w s =
     (case down_resume n w WT_KSEM s of Some (f, s1) \<Rightarrow> if f = 0 then Some s1 else None | None \<Rightarrow> None)"

definition try_down :: "nat \<Rightarrow> sync \<Rightarrow> bool \<times> sync" where
  "try_down n s = (if sem_value s n > 0 then (True, s\<lparr>sem_value := (sem_value s)(n := sem_value s n - 1)\<rparr>)
     else (False, s))"

section \<open>The abstract semaphore\<close>

text \<open>A counter and the processes that wait, first come first served; \<open>aup\<close> hands the unit to
  the first of them.\<close>

type_synonym asem = "int \<times> pptr list"

fun aup :: "asem \<Rightarrow> asem" where
  "aup (v, ps) = (case ps of [] \<Rightarrow> (v + 1, []) | p # ps' \<Rightarrow> (v, ps'))"

fun adown :: "pptr \<Rightarrow> asem \<Rightarrow> asem" where
  "adown p (v, ps) = (if v > 0 then (v - 1, ps) else (v, ps @ [p]))"

definition sem_abs :: "nat \<Rightarrow> sync \<Rightarrow> asem" where
  "sem_abs n s = (sem_value s n, map (\<lambda>w. w_proc (waits s w)) (wait_queues s n))"

text \<open>Well-formed: the waits are linked into this queue, their processes sleep on the semaphore,
  and a positive value means that nobody waits.\<close>

definition sem_wf :: "nat \<Rightarrow> sync \<Rightarrow> bool" where
  "sem_wf n s \<longleftrightarrow> 0 \<le> sem_value s n \<and> (0 < sem_value s n \<longrightarrow> wait_queues s n = [])
     \<and> distinct (wait_queues s n) \<and> distinct (map (\<lambda>w. w_proc (waits s w)) (wait_queues s n))
     \<and> (\<forall>w \<in> set (wait_queues s n). w_linked (waits s w) \<and> w_queue (waits s w) = n
          \<and> s_state (sps s (w_proc (waits s w))) = PROC_SLEEPING
          \<and> s_wait (sps s (w_proc (waits s w))) = WT_KSEM)"

lemma sem_wf_cong:
  assumes "sem_wf n s" "sem_value s' n = sem_value s n" "wait_queues s' n = wait_queues s n" "waits s' = waits s"
    and "\<And>p. p \<in> set (snd (sem_abs n s)) \<Longrightarrow> s_state (sps s' p) = s_state (sps s p) \<and> s_wait (sps s' p) = s_wait (sps s p)"
  shows "sem_wf n s'"
  using assms by (simp add: sem_wf_def sem_abs_def)

text \<open>The scheduler does not touch waits, queues and values.\<close>

lemma RR_enqueue_more:
  assumes "RR_enqueue p (s :: sync) = Some s'"
  shows "waits s' = waits s" "wait_queues s' = wait_queues s" "sem_value s' = sem_value s"
  using assms by (auto simp: RR_enqueue_def Let_def upd_sp_def split: if_splits)

lemma swakeup_more:
  assumes "swakeup_proc RR_class p (s :: sync) = Some s'"
  shows "waits s' = waits s" "wait_queues s' = wait_queues s" "sem_value s' = sem_value s"
  using assms RR_enqueue_more
  by (auto simp: swakeup_proc_def sched_class_enqueue_def Let_def upd_sp_def split: if_splits)

lemma sschedule_more:
  assumes "sschedule RR_class (s :: sync) = Some s'"
  shows "waits s' = waits s" "wait_queues s' = wait_queues s" "sem_value s' = sem_value s"
proof -
  define s1 where "s1 = upd_sp (scur s) (\<lambda>d. d\<lparr>s_resched := False\<rparr>) s"
  from assms obtain s2 where s2: "(if s_state (sps s1 (scur s1)) = PROC_RUNNABLE
      then sched_class_enqueue RR_class (scur s1) s1 else Some s1) = Some s2"
    and rest: "(let pick = sched_class_pick_next RR_class s2
       in case (case pick of Some p \<Rightarrow> sched_class_dequeue RR_class p s2 | None \<Rightarrow> Some s2) of
            None \<Rightarrow> None
          | Some s3 \<Rightarrow>
              let nxt = (case pick of Some p \<Rightarrow> p | None \<Rightarrow> sidle s3);
                  s4 = upd_sp nxt (\<lambda>d. d\<lparr>s_runs := s_runs d + 1\<rparr>) s3
              in Some (if nxt \<noteq> scur s4 then s4\<lparr>scur := nxt\<rparr> else s4)) = Some s'"
    unfolding sschedule_def s1_def by (auto simp: Let_def split: option.splits)
  have 2: "waits s2 = waits s" "wait_queues s2 = wait_queues s" "sem_value s2 = sem_value s"
    using s2 RR_enqueue_more [of "scur s1" s1 s2]
    by (auto simp: sched_class_enqueue_def s1_def upd_sp_def split: if_splits)
  from rest obtain s3 where s3: "(case sched_class_pick_next RR_class s2 of
      Some p \<Rightarrow> sched_class_dequeue RR_class p s2 | None \<Rightarrow> Some s2) = Some s3"
    by (auto simp: Let_def split: option.splits)
  have 3: "waits s3 = waits s2" "wait_queues s3 = wait_queues s2" "sem_value s3 = sem_value s2"
    using s3 by (auto simp: sched_class_dequeue_def RR_dequeue_def split: option.splits if_splits)
  have "waits s' = waits s3 \<and> wait_queues s' = wait_queues s3 \<and> sem_value s' = sem_value s3"
    using rest s3 by (auto simp: Let_def upd_sp_def)
  with 2 3 show "waits s' = waits s" "wait_queues s' = wait_queues s" "sem_value s' = sem_value s" by simp_all
qed

end
