(* ===== verification/Sync_Facts.thy ===== *)
theory Sync_Facts
  imports Sync
begin

text \<open>The semaphore of the kernel implements the abstract semaphore: \<open>up\<close> is \<open>aup\<close>, \<open>down\<close> is
  \<open>adown\<close>, and the process that \<open>up\<close> wakes finds the unit handed to it.\<close>

lemma view_cong:
  assumes "sps s' = sps (s :: sync)" "rq s' = rq s" "scur s' = scur s" "sidle s' = sidle s"
  shows "rr_ok s' = rr_ok s" "rq_exact rr_queue s' = rq_exact rr_queue s"
  using assms by (simp_all add: rr_ok_def rq_exact_def rr_queue_def)

text \<open>C11: \<open>up\<close> refines the abstract semaphore: without waiters the value goes up by one, otherwise
  the first waiter leaves the queue and becomes runnable, and when it runs it finds that it has
  the semaphore. The scheduler and the semaphore stay well-formed, no assertion fails, and no other
  process changes state.\<close>

theorem up_refines:
  assumes "sem_wf n s" "rr_ok s" "rq_exact rr_queue s"
  shows "\<exists>s'. up n s = Some s' \<and> sem_abs n s' = aup (sem_abs n s) \<and> sem_wf n s' \<and> rr_ok s'
    \<and> rq_exact rr_queue s'
    \<and> (\<forall>w ws. wait_queues s n = w # ws \<longrightarrow>
         s_state (sps s' (w_proc (waits s w))) = PROC_RUNNABLE \<and> down_finish n w s' = Some s')
    \<and> (\<forall>p. p \<noteq> hd (snd (sem_abs n s)) \<or> snd (sem_abs n s) = [] \<longrightarrow> s_state (sps s' p) = s_state (sps s p))"
proof (cases "wait_queues s n")
  case Nil
  define s' where "s' = s\<lparr>sem_value := (sem_value s)(n := sem_value s n + 1)\<rparr>"
  have "up n s = Some s'" using Nil by (simp add: up_def up_with_def wait_queue_first_def s'_def)
  moreover have "rr_ok s'" "rq_exact rr_queue s'" using view_cong [of s' s] assms(2,3) by (simp_all add: s'_def)
  moreover have "sem_abs n s' = aup (sem_abs n s)" "sem_wf n s'" using Nil assms(1)
    by (simp_all add: sem_abs_def sem_wf_def s'_def)
  ultimately show ?thesis using Nil by (intro exI [of _ s']) (simp add: s'_def)
next
  case (Cons w ws)
  let ?p = "w_proc (waits s w)"
  have w: "w_linked (waits s w)" "w_queue (waits s w) = n" "s_state (sps s ?p) = PROC_SLEEPING"
    "s_wait (sps s ?p) = WT_KSEM"
    using assms(1) Cons by (simp_all add: sem_wf_def)
  define s2 where "s2 = s\<lparr>wait_queues := (wait_queues s)(n := ws),
    waits := (waits s)(w := (waits s w)\<lparr>w_linked := False, w_flags := WT_KSEM\<rparr>)\<rparr>"
  have u: "up n s = swakeup_proc RR_class ?p s2"
    using w Cons
    by (simp add: up_def up_with_def wait_queue_first_def wakeup_wait_def wait_queue_del_def upd_wait_def s2_def Let_def)
  have "rr_ok s2" "rq_exact rr_queue s2" using view_cong [of s2 s] assms(2,3) by (simp_all add: s2_def)
  moreover have "s_state (sps s2 ?p) \<noteq> PROC_ZOMBIE" using w(3) by (simp add: s2_def)
  ultimately obtain s' where s': "swakeup_proc RR_class ?p s2 = Some s'" "rr_ok s'" "rq_exact rr_queue s'"
    "s_state (sps s' ?p) = PROC_RUNNABLE"
    "\<And>r. r \<noteq> ?p \<Longrightarrow> s_state (sps s' r) = s_state (sps s2 r) \<and> s_wait (sps s' r) = s_wait (sps s2 r)"
    using rr.wakeup_exact [of s2 ?p] by blast
  note m = swakeup_more [OF s'(1)]
  have wp: "w_proc (waits s' x) = w_proc (waits s x)" for x by (simp add: m s2_def)
  have "sem_abs n s' = aup (sem_abs n s)" using Cons by (simp add: sem_abs_def wp) (simp add: m s2_def)
  moreover have "sem_wf n s'"
  proof -
    have "w_linked (waits s' x) \<and> w_queue (waits s' x) = n \<and> s_state (sps s' (w_proc (waits s' x))) = PROC_SLEEPING
        \<and> s_wait (sps s' (w_proc (waits s' x))) = WT_KSEM" if x: "x \<in> set ws" for x
    proof -
      have "?p \<notin> (\<lambda>v. w_proc (waits s v)) ` set ws" using assms(1) Cons by (simp add: sem_wf_def)
      then have "w_proc (waits s x) \<noteq> ?p" using x by (metis image_eqI)
      moreover have "x \<noteq> w" using calculation by auto
      ultimately have "x \<noteq> w" "w_proc (waits s x) \<noteq> ?p" by simp_all
      with s'(5) [of "w_proc (waits s x)"] assms(1) Cons x show ?thesis by (simp add: sem_wf_def wp) (simp add: m s2_def)
    qed
    moreover have "wait_queues s' n = ws" "sem_value s' n = sem_value s n" by (simp_all add: m s2_def)
    ultimately show ?thesis using assms(1) Cons by (simp add: sem_wf_def wp)
  qed
  moreover have "down_finish n w s' = Some s'"
    by (simp add: down_finish_def down_resume_def wait_current_del_def wait_in_queue_def m s2_def)
  moreover have "hd (snd (sem_abs n s)) = ?p" using Cons by (simp add: sem_abs_def)
  ultimately show ?thesis using u s' Cons by (intro exI [of _ s']) (simp add: sem_abs_def s2_def)
qed

text \<open>C12: \<open>down\<close> refines the abstract semaphore: with a positive value the caller takes a unit and
  goes on; otherwise it is appended to the waiting processes, sleeps, and another process runs. The
  scheduler and the semaphore stay well-formed and no assertion fails.\<close>

theorem down_refines:
  assumes "sem_wf n s" "rr_ok s" "rq_exact rr_queue s" "s_state (sps s (scur s)) = PROC_RUNNABLE"
    and "scur s \<noteq> sidle s" "s_state (sps s (sidle s)) = PROC_RUNNABLE" "w \<notin> set (wait_queues s n)"
  shows "\<exists>s'. down n w s = Some (0 < sem_value s n, s') \<and> sem_abs n s' = adown (scur s) (sem_abs n s)
    \<and> sem_wf n s' \<and> rr_ok s' \<and> rq_exact rr_queue s'
    \<and> (if 0 < sem_value s n then scur s' = scur s
       else scur s' \<noteq> scur s \<and> s_state (sps s' (scur s)) = PROC_SLEEPING)"
proof (cases "0 < sem_value s n")
  case True
  define s' where "s' = s\<lparr>sem_value := (sem_value s)(n := sem_value s n - 1)\<rparr>"
  have "rr_ok s'" "rq_exact rr_queue s'" using view_cong [of s' s] assms(2,3) by (simp_all add: s'_def)
  with True assms(1) show ?thesis
    by (intro exI [of _ s']) (auto simp: down_def down_begin_def s'_def sem_abs_def sem_wf_def)
next
  case False
  let ?c = "scur s"
  define s1 where "s1 = s\<lparr>sps := (sps s)(?c := (sps s ?c)\<lparr>s_state := PROC_SLEEPING, s_wait := WT_KSEM\<rparr>),
    wait_queues := (wait_queues s)(n := wait_queues s n @ [w]),
    waits := (waits s)(w := (waits s w)\<lparr>w_proc := ?c, w_flags := WT_INTERRUPTED, w_queue := n, w_linked := True\<rparr>)\<rparr>"
  have b: "wait_current_set n w WT_KSEM s = Some s1"
    by (simp add: wait_current_set_def wait_queue_add_def wait_init_def upd_wait_def upd_sp_def s1_def)
  have "rr_ok s1" using assms(2) by (simp add: rr_ok_def s1_def)
  moreover have "rq_exact rr_queue s1"
    using assms(3) by (auto simp: rq_exact_def rr_queue_def s1_def)
  moreover have "s_state (sps s1 (sidle s1)) = PROC_RUNNABLE" using assms(5,6) by (simp add: s1_def)
  ultimately obtain s' where s': "sschedule RR_class s1 = Some s'" "rr_ok s'" "rq_exact rr_queue s'"
    "s_state (sps s' (scur s')) = PROC_RUNNABLE"
    "\<And>p. s_state (sps s' p) = s_state (sps s1 p) \<and> s_wait (sps s' p) = s_wait (sps s1 p)"
    using rr.schedule_exact [of s1] by blast
  note m = sschedule_more [OF s'(1)]
  have d: "down n w s = Some (0 < sem_value s n, s')"
    using False b s'(1) by (simp add: down_def down_begin_def)
  have cs: "s_state (sps s' ?c) = PROC_SLEEPING" using s'(5) by (simp add: s1_def)
  then have "scur s' \<noteq> ?c" using s'(4) by auto
  have nc: "?c \<noteq> w_proc (waits s x)" if "x \<in> set (wait_queues s n)" for x
    using assms(1,4) that by (auto simp: sem_wf_def)
  have v0: "sem_value s n = 0" using assms(1) False by (simp add: sem_wf_def)
  have wn: "\<forall>x \<in> set (wait_queues s n). x \<noteq> w" using assms(7) by auto
  have map_eq: "map (\<lambda>x. w_proc (waits s' x)) (wait_queues s n) = map (\<lambda>x. w_proc (waits s x)) (wait_queues s n)"
    using wn by (simp add: m s1_def)
  have q': "wait_queues s' n = wait_queues s n @ [w]" "sem_value s' n = 0" "w_proc (waits s' w) = ?c"
    using v0 by (simp_all add: m s1_def)
  have "sem_abs n s' = adown ?c (sem_abs n s)" using v0 map_eq q' by (simp add: sem_abs_def)
  moreover have "sem_wf n s'"
    unfolding sem_wf_def q' map_append map_eq
  proof (intro conjI)
    show "\<forall>x \<in> set (wait_queues s n @ [w]). w_linked (waits s' x) \<and> w_queue (waits s' x) = n
        \<and> s_state (sps s' (w_proc (waits s' x))) = PROC_SLEEPING \<and> s_wait (sps s' (w_proc (waits s' x))) = WT_KSEM"
    proof
      fix x assume "x \<in> set (wait_queues s n @ [w])"
      then consider "x = w" | "x \<in> set (wait_queues s n)" "x \<noteq> w" using wn by auto
      then show "w_linked (waits s' x) \<and> w_queue (waits s' x) = n
        \<and> s_state (sps s' (w_proc (waits s' x))) = PROC_SLEEPING \<and> s_wait (sps s' (w_proc (waits s' x))) = WT_KSEM"
      proof cases
        case 1
        with cs s'(5) [of ?c] show ?thesis by (simp add: m s1_def)
      next
        case 2
        with assms(1) s'(5) [of "w_proc (waits s x)"] nc [OF 2(1)] show ?thesis
          by (simp add: sem_wf_def m s1_def)
      qed
    qed
  qed (use assms(1,7) nc q'(3) in \<open>auto simp: sem_wf_def\<close>)
  ultimately show ?thesis using d s' False cs \<open>scur s' \<noteq> ?c\<close> by (intro exI [of _ s']) simp
qed

section \<open>Concrete semaphores\<close>

text \<open>Semaphore 0 is free; on semaphore 1 process 3 waits with the wait descriptor 30.\<close>

definition demo_sync :: sync where
  "demo_sync = \<lparr>sps = (\<lambda>p. \<lparr>s_state = (if p \<le> 2 then PROC_RUNNABLE else PROC_SLEEPING),
       s_wait = (if p \<le> 2 then 0 else WT_KSEM), s_resched = False, s_runs = 0, s_slice = 5, s_rq = True\<rparr>),
     scur = 1, sidle = 0, rq = \<lparr>run_list = [2], proc_num = 1, max_time_slice = 5\<rparr>, timer_list = [],
     waits = (\<lambda>w. \<lparr>w_proc = 3, w_flags = WT_INTERRUPTED, w_queue = 1, w_linked = w = 30\<rparr>),
     wait_queues = (\<lambda>n. if n = 1 then [30] else []), sem_value = (\<lambda>n. if n = 0 then 1 else 0)\<rparr>"

lemma demo_sync_ok: "rr_ok demo_sync" "rq_exact rr_queue demo_sync" "sem_wf n demo_sync"
  by (auto simp: demo_sync_def rr_ok_def rq_exact_def rr_queue_def sem_wf_def)

theorem up_refines_witness:
  "\<exists>s'. up 1 demo_sync = Some s' \<and> sem_abs 1 s' = (0, []) \<and> s_state (sps s' 3) = PROC_RUNNABLE"
proof -
  have q: "wait_queues demo_sync 1 = 30 # []" "w_proc (waits demo_sync 30) = 3"
    "sem_abs 1 demo_sync = (0, [3])" by (simp_all add: demo_sync_def sem_abs_def)
  from up_refines [OF demo_sync_ok(3,1,2), of 1] q show ?thesis by fastforce
qed

theorem down_refines_witness:
  "\<exists>s'. down 1 40 demo_sync = Some (False, s') \<and> sem_abs 1 s' = (0, [3, 1])"
proof -
  have q: "sem_value demo_sync 1 = 0" "scur demo_sync = 1" "sem_abs 1 demo_sync = (0, [3])"
    "s_state (sps demo_sync (scur demo_sync)) = PROC_RUNNABLE" "scur demo_sync \<noteq> sidle demo_sync"
    "s_state (sps demo_sync (sidle demo_sync)) = PROC_RUNNABLE" "40 \<notin> set (wait_queues demo_sync 1)"
    by (simp_all add: demo_sync_def sem_abs_def)
  from down_refines [OF demo_sync_ok(3,1,2) q(4-7)] show ?thesis unfolding q(1-3) by auto
qed

end
