(* ===== verification/String_Lib.thy ===== *)
theory String_Lib
  imports Prelude
begin

text \<open>
  \<open>lab8/libs/string.c\<close>, on a memory of bytes. Pointers are natural numbers (objects do not wrap
  around the address space); a scan that never meets its end does not return and is \<open>None\<close>.
\<close>

type_synonym bmem = "nat \<Rightarrow> u8"

definition chr :: "char \<Rightarrow> u8" where "chr c = of_char c"

text \<open>The codes, for evaluation.\<close>

lemma chr_codes [code_unfold]:
  "chr CHR '' '' = 32" "chr CHR ''0'' = 48" "chr CHR ''9'' = 57" "chr CHR ''a'' = 97"
  "chr CHR ''z'' = 122" "chr CHR ''A'' = 65" "chr CHR ''Z'' = 90" "chr CHR ''+'' = 43"
  "chr CHR ''-'' = 45" "chr CHR ''x'' = 120" "chr CHR ''t'' = 116" "chr CHR ''c'' = 99"
  "chr CHR ''e'' = 101" "chr CHR ''s'' = 115" "chr CHR ''l'' = 108" "chr CHR ''d'' = 100"
  "chr CHR ''u'' = 117" "chr CHR ''o'' = 111" "chr CHR ''p'' = 112" "chr CHR ''%'' = 37"
  "chr CHR ''*'' = 42" "chr CHR ''.'' = 46" "chr CHR ''#'' = 35" "chr CHR ''~'' = 126"
  "chr CHR ''?'' = 63" "chr CHR ''1'' = 49"
  by (simp_all add: chr_def)

section \<open>Strings\<close>

partial_function (option) strlen_loop :: "bmem \<Rightarrow> nat \<Rightarrow> nat \<Rightarrow> nat option" where
  "strlen_loop m s cnt = (if m s = 0 then Some cnt else strlen_loop m (s + 1) (cnt + 1))"

definition strlen :: "bmem \<Rightarrow> nat \<Rightarrow> nat option" where
  "strlen m s = strlen_loop m s 0"

function strnlen_loop :: "bmem \<Rightarrow> nat \<Rightarrow> nat \<Rightarrow> nat \<Rightarrow> nat" where
  "strnlen_loop m s len cnt = (if cnt < len \<and> m s \<noteq> 0 then strnlen_loop m (s + 1) len (cnt + 1) else cnt)"
  by pat_completeness auto
termination by (relation "measure (\<lambda>(_, _, len, cnt). len - cnt)") auto

declare strnlen_loop.simps [simp del]

definition strnlen :: "bmem \<Rightarrow> nat \<Rightarrow> nat \<Rightarrow> nat" where
  "strnlen m s len = strnlen_loop m s len 0"

partial_function (option) strcpy_loop :: "nat \<Rightarrow> nat \<Rightarrow> bmem \<Rightarrow> bmem option" where
  "strcpy_loop p src m =
     (let m' = m(p := m src) in if m src = 0 then Some m' else strcpy_loop (p + 1) (src + 1) m')"

definition strcpy :: "nat \<Rightarrow> nat \<Rightarrow> bmem \<Rightarrow> bmem option" where
  "strcpy dst src m = strcpy_loop dst src m"

fun strncpy_loop :: "nat \<Rightarrow> nat \<Rightarrow> nat \<Rightarrow> bmem \<Rightarrow> bmem" where
  "strncpy_loop p src 0 m = m"
| "strncpy_loop p src (Suc len) m =
     (let m' = m(p := m src) in strncpy_loop (p + 1) (if m' p \<noteq> 0 then src + 1 else src) len m')"

definition strncpy :: "nat \<Rightarrow> nat \<Rightarrow> nat \<Rightarrow> bmem \<Rightarrow> bmem" where
  "strncpy dst src len m = strncpy_loop dst src len m"

definition strcat :: "nat \<Rightarrow> nat \<Rightarrow> bmem \<Rightarrow> bmem option" where
  "strcat dst src m = (case strlen m dst of None \<Rightarrow> None | Some n \<Rightarrow> strcpy (dst + n) src m)"

partial_function (option) strcmp :: "bmem \<Rightarrow> nat \<Rightarrow> nat \<Rightarrow> int option" where
  "strcmp m s1 s2 =
     (if m s1 \<noteq> 0 \<and> m s1 = m s2 then strcmp m (s1 + 1) (s2 + 1)
      else Some (uint (m s1) - uint (m s2)))"

fun strncmp :: "bmem \<Rightarrow> nat \<Rightarrow> nat \<Rightarrow> nat \<Rightarrow> int" where
  "strncmp m s1 s2 0 = 0"
| "strncmp m s1 s2 (Suc n) =
     (if m s1 \<noteq> 0 \<and> m s1 = m s2 then strncmp m (s1 + 1) (s2 + 1) n
      else uint (m s1) - uint (m s2))"

partial_function (option) strchr :: "bmem \<Rightarrow> nat \<Rightarrow> u8 \<Rightarrow> nat option option" where
  "strchr m s c =
     (if m s = 0 then Some None else if m s = c then Some (Some s) else strchr m (s + 1) c)"

partial_function (option) strfind :: "bmem \<Rightarrow> nat \<Rightarrow> u8 \<Rightarrow> nat option" where
  "strfind m s c = (if m s = 0 \<or> m s = c then Some s else strfind m (s + 1) c)"

declare strlen_loop.simps [code] strcpy_loop.simps [code] strcmp.simps [code] strchr.simps [code]
  strfind.simps [code]

section \<open>Numbers\<close>

definition digit_of :: "u8 \<Rightarrow> nat option" where
  "digit_of c =
     (if chr CHR ''0'' \<le> c \<and> c \<le> chr CHR ''9'' then Some (unat (c - chr CHR ''0''))
      else if chr CHR ''a'' \<le> c \<and> c \<le> chr CHR ''z'' then Some (unat (c - chr CHR ''a'') + 10)
      else if chr CHR ''A'' \<le> c \<and> c \<le> chr CHR ''Z'' then Some (unat (c - chr CHR ''A'') + 10)
      else None)"

text \<open>The digits; \<open>val\<close> is a \<open>long\<close>, which wraps.\<close>

partial_function (option) strtol_digits :: "bmem \<Rightarrow> nat \<Rightarrow> nat \<Rightarrow> u64 \<Rightarrow> (u64 \<times> nat) option" where
  "strtol_digits m base s val =
     (case digit_of (m s) of
        None \<Rightarrow> Some (val, s)
      | Some dig \<Rightarrow>
          if dig \<ge> base then Some (val, s)
          else strtol_digits m base (s + 1) (val * of_nat base + of_nat dig))"

partial_function (option) skip_blank :: "bmem \<Rightarrow> nat \<Rightarrow> nat option" where
  "skip_blank m s = (if m s = chr CHR '' '' \<or> m s = 9 then skip_blank m (s + 1) else Some s)"

declare strtol_digits.simps [code] skip_blank.simps [code]

definition strtol_prefix :: "bmem \<Rightarrow> nat \<Rightarrow> nat \<Rightarrow> nat \<times> nat" where
  "strtol_prefix m s base =
     (if (base = 0 \<or> base = 16) \<and> m s = chr CHR ''0'' \<and> m (s + 1) = chr CHR ''x'' then (s + 2, 16)
      else if base = 0 \<and> m s = chr CHR ''0'' then (s + 1, 8)
      else if base = 0 then (s, 10)
      else (s, base))"

definition strtol :: "bmem \<Rightarrow> nat \<Rightarrow> nat \<Rightarrow> (int \<times> nat) option" where
  "strtol m s base =
     Option.bind (skip_blank m s) (\<lambda>s1.
       let (neg, s2) = (if m s1 = chr CHR ''+'' then (False, s1 + 1)
                        else if m s1 = chr CHR ''-'' then (True, s1 + 1) else (False, s1));
           (s3, b) = strtol_prefix m s2 base
       in map_option (\<lambda>(val, e). (sint (if neg then - val else val), e)) (strtol_digits m b s3 0))"

section \<open>Memory\<close>

fun memset_loop :: "nat \<Rightarrow> u8 \<Rightarrow> nat \<Rightarrow> bmem \<Rightarrow> bmem" where
  "memset_loop p c 0 m = m"
| "memset_loop p c (Suc n) m = memset_loop (p + 1) c n (m(p := c))"

definition memset :: "nat \<Rightarrow> u8 \<Rightarrow> nat \<Rightarrow> bmem \<Rightarrow> bmem" where
  "memset s c n m = memset_loop s c n m"

fun copy_up :: "nat \<Rightarrow> nat \<Rightarrow> nat \<Rightarrow> bmem \<Rightarrow> bmem" where
  "copy_up d s 0 m = m"
| "copy_up d s (Suc n) m = copy_up (d + 1) (s + 1) n (m(d := m s))"

text \<open>\<open>*--d = *--s\<close>: the pointers are behind the blocks.\<close>

fun copy_down :: "nat \<Rightarrow> nat \<Rightarrow> nat \<Rightarrow> bmem \<Rightarrow> bmem" where
  "copy_down d s 0 m = m"
| "copy_down d s (Suc n) m = copy_down (d - 1) (s - 1) n (m(d - 1 := m (s - 1)))"

definition memmove :: "nat \<Rightarrow> nat \<Rightarrow> nat \<Rightarrow> bmem \<Rightarrow> bmem" where
  "memmove d s n m = (if s < d \<and> s + n > d then copy_down (d + n) (s + n) n m else copy_up d s n m)"

definition memcpy :: "nat \<Rightarrow> nat \<Rightarrow> nat \<Rightarrow> bmem \<Rightarrow> bmem" where
  "memcpy d s n m = copy_up d s n m"

fun memcmp :: "bmem \<Rightarrow> nat \<Rightarrow> nat \<Rightarrow> nat \<Rightarrow> int" where
  "memcmp m s1 s2 0 = 0"
| "memcmp m s1 s2 (Suc n) =
     (if m s1 \<noteq> m s2 then uint (m s1) - uint (m s2) else memcmp m (s1 + 1) (s2 + 1) n)"

section \<open>Facts\<close>

text \<open>The string \<open>xs\<close> is stored at \<open>s\<close>, with its final null.\<close>

definition cstr :: "bmem \<Rightarrow> nat \<Rightarrow> u8 list \<Rightarrow> bool" where
  "cstr m s xs \<longleftrightarrow> 0 \<notin> set xs \<and> (\<forall>i < length xs. m (s + i) = xs ! i) \<and> m (s + length xs) = 0"

lemma cstr_Nil [simp]: "cstr m s [] \<longleftrightarrow> m s = 0"
  by (simp add: cstr_def)

lemma cstr_Cons [simp]: "cstr m s (x # xs) \<longleftrightarrow> m s = x \<and> x \<noteq> 0 \<and> cstr m (s + 1) xs"
proof -
  have "(\<forall>i < length (x # xs). m (s + i) = (x # xs) ! i)
      \<longleftrightarrow> m s = x \<and> (\<forall>i < length xs. m (s + 1 + i) = xs ! i)"
    by (auto simp: nth_Cons less_Suc_eq_0_disj split: nat.splits)
  then show ?thesis by (auto simp: cstr_def)
qed

lemma strlen_cstr: "cstr m s xs \<Longrightarrow> strlen m s = Some (length xs)"
proof -
  have "cstr m s xs \<Longrightarrow> strlen_loop m s k = Some (k + length xs)" for k
    by (induction xs arbitrary: s k) (subst strlen_loop.simps, simp)+
  then show "cstr m s xs \<Longrightarrow> strlen m s = Some (length xs)" by (simp add: strlen_def)
qed

lemma strnlen_loop_cstr: "cstr m s xs \<Longrightarrow> strnlen_loop m s n k = max k (min n (k + length xs))"
proof (induction xs arbitrary: s k)
  case Nil
  then show ?case by (subst strnlen_loop.simps) (auto simp: max_def min_def)
next
  case (Cons x xs)
  show ?case
  proof (cases "k < n")
    case True
    with Cons.prems have "strnlen_loop m s n k = strnlen_loop m (s + 1) n (k + 1)"
      by (subst strnlen_loop.simps) simp
    with Cons.IH [of "s + 1" "k + 1"] Cons.prems True show ?thesis by simp
  next
    case False
    then show ?thesis by (subst strnlen_loop.simps) simp
  qed
qed

lemma memset_loop_eq: "memset_loop p c n m = (\<lambda>a. if p \<le> a \<and> a < p + n then c else m a)"
  by (induction n arbitrary: p m) (auto simp: fun_eq_iff)

lemma memset_eq: "memset p c n m = (\<lambda>a. if p \<le> a \<and> a < p + n then c else m a)"
  by (simp add: memset_def memset_loop_eq)

lemma copy_up_eq:
  assumes "d \<le> s \<or> s + n \<le> d"
  shows "copy_up d s n m = (\<lambda>a. if d \<le> a \<and> a < d + n then m (s + (a - d)) else m a)"
  using assms
proof (induction n arbitrary: d s m)
  case (Suc n)
  have e: "Suc (s + a - Suc d) = s + a - d" if "Suc d \<le> a" for a using that by simp
  have "copy_up (d + 1) (s + 1) n (m(d := m s))
      = (\<lambda>a. if d + 1 \<le> a \<and> a < d + 1 + n then (m(d := m s)) (s + 1 + (a - (d + 1))) else (m(d := m s)) a)"
    using Suc.prems by (intro Suc.IH) auto
  also have "\<dots> = (\<lambda>a. if d \<le> a \<and> a < d + Suc n then m (s + (a - d)) else m a)"
    using Suc.prems e by (intro ext) (auto simp: not_less_eq_eq)
  finally show ?case by simp
qed (auto simp: fun_eq_iff)

lemma copy_down_eq:
  assumes "s < d"
  shows "copy_down (d + n) (s + n) n m = (\<lambda>a. if d \<le> a \<and> a < d + n then m (s + (a - d)) else m a)"
proof (induction n arbitrary: m)
  case (Suc n)
  have "copy_down (d + Suc n) (s + Suc n) (Suc n) m = copy_down (d + n) (s + n) n (m(d + n := m (s + n)))"
    by simp
  also have "\<dots> = (\<lambda>a. if d \<le> a \<and> a < d + n then (m(d + n := m (s + n))) (s + (a - d)) else (m(d + n := m (s + n))) a)"
    by (rule Suc.IH)
  also have "\<dots> = (\<lambda>a. if d \<le> a \<and> a < d + Suc n then m (s + (a - d)) else m a)"
    using assms by (intro ext) (auto simp: less_Suc_eq)
  finally show ?case .
qed (auto simp: fun_eq_iff)

lemma memmove_eq:
  "memmove d s n m = (\<lambda>a. if d \<le> a \<and> a < d + n then m (s + (a - d)) else m a)"
proof (cases "s < d \<and> s + n > d")
  case True
  then show ?thesis using copy_down_eq by (simp add: memmove_def)
next
  case False
  then have "d \<le> s \<or> s + n \<le> d" by auto
  from copy_up_eq [OF this] False show ?thesis by (auto simp: memmove_def)
qed

text \<open>\<open>memmove\<close> copies the block as it was before the call, whether the two blocks overlap or
  not and in whichever direction, and leaves every other byte alone.\<close>

theorem memmove_correct:
  "memmove d s n m = (\<lambda>a. if d \<le> a \<and> a < d + n then m (s + (a - d)) else m a)"
  by (rule memmove_eq)

text \<open>\<open>strcmp\<close> on two strings returns, and decides their order: 0 exactly when they are equal,
  and otherwise the difference of the first bytes where they differ, the end of a string counting
  as a byte below all others.\<close>

theorem strcmp_orders:
  assumes "cstr m s1 xs" "cstr m s2 ys"
  shows "\<exists>r. strcmp m s1 s2 = Some r \<and> (r = 0 \<longleftrightarrow> xs = ys)
    \<and> (r < 0 \<longleftrightarrow> (\<exists>us v vs. ys = us @ v # vs \<and> (xs = us \<or> (\<exists>w ws. xs = us @ w # ws \<and> w < v))))"
  using assms
proof (induction xs arbitrary: s1 s2 ys)
  case Nil
  show ?case
  proof (cases ys)
    case ys: (Cons y ys')
    with Nil have "uint y \<noteq> 0" by (simp add: uint_0_iff)
    then have "0 < uint y" using uint_ge_0 [of y] by linarith
    with Nil ys show ?thesis by (subst strcmp.simps) auto
  qed (use Nil in \<open>subst strcmp.simps, simp\<close>)
next
  case (Cons x xs)
  show ?case
  proof (cases ys)
    case Nil
    with Cons.prems have "uint x \<noteq> 0" "0 \<le> uint x" by (simp_all add: uint_0_iff)
    with Cons.prems Nil show ?thesis by (subst strcmp.simps) auto
  next
    case ys: (Cons y ys')
    show ?thesis
    proof (cases "x = y")
      case True
      with Cons.prems ys have "strcmp m s1 s2 = strcmp m (s1 + 1) (s2 + 1)"
        by (subst strcmp.simps) simp
      moreover obtain r where r: "strcmp m (s1 + 1) (s2 + 1) = Some r" "r = 0 \<longleftrightarrow> xs = ys'"
        "r < 0 \<longleftrightarrow> (\<exists>us v vs. ys' = us @ v # vs \<and> (xs = us \<or> (\<exists>w ws. xs = us @ w # ws \<and> w < v)))"
        using Cons.IH [of "s1 + 1" "s2 + 1" ys'] Cons.prems(1) Cons.prems(2) [unfolded ys]
        unfolding cstr_Cons by blast
      moreover have "(\<exists>us v vs. ys = us @ v # vs \<and> (x # xs = us \<or> (\<exists>w ws. x # xs = us @ w # ws \<and> w < v)))
          \<longleftrightarrow> (\<exists>us v vs. ys' = us @ v # vs \<and> (xs = us \<or> (\<exists>w ws. xs = us @ w # ws \<and> w < v)))" (is "?L \<longleftrightarrow> ?R")
      proof
        assume ?L
        then obtain us v vs where u: "ys = us @ v # vs" "x # xs = us \<or> (\<exists>w ws. x # xs = us @ w # ws \<and> w < v)"
          by blast
        then obtain us' where "us = x # us'" using ys True by (cases us) auto
        with u ys show ?R by auto
      next
        assume ?R
        then obtain us v vs where "ys' = us @ v # vs" "xs = us \<or> (\<exists>w ws. xs = us @ w # ws \<and> w < v)" by blast
        then have "ys = (x # us) @ v # vs" "x # xs = x # us \<or> (\<exists>w ws. x # xs = (x # us) @ w # ws \<and> w < v)"
          using ys True by auto
        then show ?L by blast
      qed
      ultimately show ?thesis using ys True by (intro exI [of _ r]) simp
    next
      case False
      with Cons.prems ys have r: "strcmp m s1 s2 = Some (uint x - uint y)" by (subst strcmp.simps) simp
      have "(\<exists>us v vs. ys = us @ v # vs \<and> (x # xs = us \<or> (\<exists>w ws. x # xs = us @ w # ws \<and> w < v))) \<longleftrightarrow> x < y"
        using False ys by (auto simp: Cons_eq_append_conv)
      moreover have "uint x \<noteq> uint y" "x < y \<longleftrightarrow> uint x < uint y"
        using False by (simp_all add: word_uint_eq_iff word_less_def)
      ultimately show ?thesis using r False ys by (intro exI [of _ "uint x - uint y"]) simp
    qed
  qed
qed

theorem strcmp_orders_witness:
  "\<exists>r. strcmp (\<lambda>a. [97, 98, 0, 97, 99, 0] ! a) 0 3 = Some r \<and> r < 0"
proof -
  have "cstr (\<lambda>a. [97, 98, 0, 97, 99, 0] ! a) 0 [97, 98]" "cstr (\<lambda>a. [97, 98, 0, 97, 99, 0] ! a) 3 [97, 99]"
    by (simp_all add: cstr_def nth_Cons' less_Suc_eq)
  from strcmp_orders [OF this] show ?thesis
    by (auto intro!: exI [of _ "[97]"])
qed

end
