(* ===== verification/Printfmt.thy ===== *)
theory Printfmt
  imports String_Lib
begin

text \<open>
  \<open>lab8/libs/printfmt.c\<close>. The characters given to \<open>putch\<close> are collected in a list; the format is
  the list of its bytes without the final null (reading behind it gives the null); the arguments
  are words or strings. A missing or mistyped argument is \<open>None\<close>. The \<open>int\<close>s of the code that
  come from the format are unbounded here.
\<close>

section \<open>Numbers\<close>

definition hex_digits :: "u8 list" where
  "hex_digits = map chr ''0123456789abcdef''"

lemma hex_digits_code [code]:
  "hex_digits = [48, 49, 50, 51, 52, 53, 54, 55, 56, 57, 97, 98, 99, 100, 101, 102]"
  by (simp add: hex_digits_def chr_def)

text \<open>\<open>do_div(result, base)\<close> divides \<open>result\<close> and gives the remainder. Base 0 and 1 do not end.\<close>

partial_function (option) printnum :: "nat \<Rightarrow> nat \<Rightarrow> int \<Rightarrow> u8 \<Rightarrow> u8 list option" where
  "printnum num base width padc =
     (if base = 0 then None
      else Option.bind (if num \<ge> base then printnum (num div base) base (width - 1) padc
                        else Some (replicate (nat (width - 1)) padc))
             (\<lambda>pre. Some (pre @ [hex_digits ! (num mod base)])))"

declare printnum.simps [code]

datatype parg = A_word u64 | A_str "u8 list option"

definition arg_int :: "u64 \<Rightarrow> int" where
  "arg_int w = sint (ucast w :: u32)"

definition getuint :: "u64 \<Rightarrow> nat \<Rightarrow> nat" where
  "getuint w lflag = (if lflag \<ge> 1 then unat w else unat (ucast w :: u32))"

definition getint :: "u64 \<Rightarrow> nat \<Rightarrow> int" where
  "getint w lflag = (if lflag \<ge> 1 then sint w else arg_int w)"

definition lit :: "string \<Rightarrow> u8 list" where
  "lit s = map chr s"

definition MAXERROR :: int where "MAXERROR = 24"

fun error_string :: "nat \<Rightarrow> u8 list option" where
  "error_string n =
     (if n = 1 then Some (lit ''unspecified error'') else if n = 2 then Some (lit ''bad process'')
      else if n = 3 then Some (lit ''invalid parameter'') else if n = 4 then Some (lit ''out of memory'')
      else if n = 5 then Some (lit ''out of processes'') else if n = 6 then Some (lit ''segmentation fault'')
      else if n = 8 then Some (lit ''invalid elf file'') else if n = 9 then Some (lit ''process is killed'')
      else if n = 10 then Some (lit ''panic failure'') else if n = 13 then Some (lit ''no such device'')
      else if n = 14 then Some (lit ''device not available'') else if n = 15 then Some (lit ''device/file is busy'')
      else if n = 16 then Some (lit ''no such file or directory'') else if n = 17 then Some (lit ''is a directory'')
      else if n = 18 then Some (lit ''not a directory'') else if n = 19 then Some (lit ''cross device link'')
      else if n = 20 then Some (lit ''unimplemented feature'') else if n = 21 then Some (lit ''illegal seek'')
      else if n = 22 then Some (lit ''too many files are open'')
      else if n = 23 then Some (lit ''file or directory already exists'')
      else if n = 24 then Some (lit ''directory is not empty'') else None)"

section \<open>The formats\<close>

text \<open>The loop that prints a string: the output, and the width left.\<close>

fun put_str :: "bool \<Rightarrow> int \<Rightarrow> int \<Rightarrow> u8 list \<Rightarrow> u8 list \<times> int" where
  "put_str alt prec width [] = ([], width)"
| "put_str alt prec width (ch # p) =
     (if prec < 0 \<or> prec - 1 \<ge> 0
      then (let (o1, w) = put_str alt (if prec < 0 then prec else prec - 1) (width - 1) p
            in ((if alt \<and> (ch < chr CHR '' '' \<or> ch > chr CHR ''~'') then chr CHR ''?'' else ch) # o1, w))
      else ([], width))"

definition fmt_str :: "u8 \<Rightarrow> bool \<Rightarrow> int \<Rightarrow> int \<Rightarrow> u8 list \<Rightarrow> u8 list" where
  "fmt_str padc alt prec width p =
     (let n = (if prec < 0 then length p else min (nat prec) (length p));
          (pad, w1) = (if width > 0 \<and> padc \<noteq> chr CHR ''-''
                       then (replicate (nat (width - int n)) padc, min 0 (width - int n))
                       else ([], width));
          (body, w2) = put_str alt prec w1 p
      in pad @ body @ replicate (nat w2) (chr CHR '' ''))"

definition fmt_signed :: "int \<Rightarrow> int \<Rightarrow> u8 \<Rightarrow> u8 list option" where
  "fmt_signed n width padc =
     (if n < 0 then map_option ((#) (chr CHR ''-'')) (printnum (nat (- n)) 10 width padc)
      else printnum (nat n) 10 width padc)"

text \<open>\<open>%e\<close>: the most negative \<open>int\<close> stays negative and indexes the table out of its bounds.\<close>

definition fmt_err :: "int \<Rightarrow> u8 list option" where
  "fmt_err err0 =
     (let err = (if err0 < 0 then - err0 else err0)
      in if err0 = - (2 ^ 31) then None
         else if err > MAXERROR \<or> error_string (nat err) = None
         then map_option (\<lambda>d. lit ''error '' @ d) (fmt_signed err (- 1) (chr CHR '' ''))
         else map_option (fmt_str (chr CHR '' '') False (- 1) (- 1)) (error_string (nat err)))"

fun take_digits :: "int \<Rightarrow> u8 list \<Rightarrow> int \<times> u8 list" where
  "take_digits prec [] = (prec, [])"
| "take_digits prec (c # cs) =
     (if c < chr CHR ''0'' \<or> c > chr CHR ''9'' then (prec, c # cs)
      else take_digits (prec * 10 + int (unat (c - chr CHR ''0''))) cs)"

text \<open>
  Where \<open>vprintfmt\<close> is: between escapes, or inside one, with the text behind its percent sign and
  the flags read so far.
\<close>

datatype fstate = Outer | Inner "u8 list" u8 int int nat bool

definition process_precision :: "int \<Rightarrow> int \<Rightarrow> int \<times> int" where
  "process_precision width prec = (if width < 0 then (prec, - 1) else (width, prec))"

text \<open>The conversions: what they print, and the arguments left. \<open>None\<close> in the inner option means
  that the character is no conversion.\<close>

definition convert :: "u8 \<Rightarrow> u8 \<Rightarrow> int \<Rightarrow> int \<Rightarrow> nat \<Rightarrow> bool \<Rightarrow> parg list
    \<Rightarrow> (u8 list \<times> parg list) option option" where
  "convert ch padc width prec lflag alt args =
     (let word = (\<lambda>f. case args of A_word w # as \<Rightarrow> map_option (\<lambda>o1. (o1, as)) (f w) | _ \<Rightarrow> None)
      in if ch = chr CHR ''c'' then Some (word (\<lambda>w. Some [ucast w]))
         else if ch = chr CHR ''e'' then Some (word (\<lambda>w. fmt_err (arg_int w)))
         else if ch = chr CHR ''s'' then Some (case args of
             A_str p # as \<Rightarrow> Some (fmt_str padc alt prec width (case p of None \<Rightarrow> lit ''(null)'' | Some x \<Rightarrow> x), as)
           | _ \<Rightarrow> None)
         else if ch = chr CHR ''d'' then Some (word (\<lambda>w. fmt_signed (getint w lflag) width padc))
         else if ch = chr CHR ''u'' then Some (word (\<lambda>w. printnum (getuint w lflag) 10 width padc))
         else if ch = chr CHR ''o'' then Some (word (\<lambda>w. printnum (getuint w lflag) 8 width padc))
         else if ch = chr CHR ''p'' then Some (word (\<lambda>w. map_option (\<lambda>d. lit ''0x'' @ d) (printnum (unat w) 16 width padc)))
         else if ch = chr CHR ''x'' then Some (word (\<lambda>w. printnum (getuint w lflag) 16 width padc))
         else if ch = chr CHR ''%'' then Some (Some ([ch], args))
         else None)"

partial_function (option) vprintfmt :: "fstate \<Rightarrow> u8 list \<Rightarrow> parg list \<Rightarrow> u8 list option" where
  "vprintfmt st fmt args =
     (case st of
        Outer \<Rightarrow>
          (case fmt of
             [] \<Rightarrow> Some []
           | ch # rest \<Rightarrow>
               if ch = chr CHR ''%'' then vprintfmt (Inner rest (chr CHR '' '') (- 1) (- 1) 0 False) rest args
               else Option.bind (vprintfmt Outer rest args) (\<lambda>o1. Some (ch # o1)))
      | Inner start padc width prec lflag alt \<Rightarrow>
          (let ch = (case fmt of [] \<Rightarrow> 0 | c # _ \<Rightarrow> c); rest = tl fmt
           in if ch = chr CHR ''-'' then vprintfmt (Inner start (chr CHR ''-'') width prec lflag alt) rest args
              else if ch = chr CHR ''0'' then vprintfmt (Inner start (chr CHR ''0'') width prec lflag alt) rest args
              else if chr CHR ''1'' \<le> ch \<and> ch \<le> chr CHR ''9'' then
                (let (p1, rest1) = take_digits 0 fmt; (w, p) = process_precision width p1
                 in vprintfmt (Inner start padc w p lflag alt) rest1 args)
              else if ch = chr CHR ''*'' then
                (case args of
                   A_word a # as \<Rightarrow>
                     (let (w, p) = process_precision width (arg_int a)
                      in vprintfmt (Inner start padc w p lflag alt) rest as)
                 | _ \<Rightarrow> None)
              else if ch = chr CHR ''.'' then
                vprintfmt (Inner start padc (if width < 0 then 0 else width) prec lflag alt) rest args
              else if ch = chr CHR ''#'' then vprintfmt (Inner start padc width prec lflag True) rest args
              else if ch = chr CHR ''l'' then vprintfmt (Inner start padc width prec (lflag + 1) alt) rest args
              else (case convert ch padc width prec lflag alt args of
                  None \<Rightarrow> Option.bind (vprintfmt Outer start args) (\<lambda>o1. Some (chr CHR ''%'' # o1))
                | Some None \<Rightarrow> None
                | Some (Some (o1, as)) \<Rightarrow> Option.bind (vprintfmt Outer rest as) (\<lambda>o2. Some (o1 @ o2)))))"

declare vprintfmt.simps [code]

definition printfmt :: "u8 list \<Rightarrow> parg list \<Rightarrow> u8 list option" where
  "printfmt fmt args = vprintfmt Outer fmt args"

text \<open>One step of the format loop at a time.\<close>

lemma vp_Nil: "vprintfmt Outer [] args = Some []"
  by (subst vprintfmt.simps) simp

lemma vp_char: "ch \<noteq> 37 \<Longrightarrow> vprintfmt Outer (ch # rest) args = map_option ((#) ch) (vprintfmt Outer rest args)"
  by (subst vprintfmt.simps) (simp add: chr_codes map_option_case split: option.split)

lemma vp_percent: "vprintfmt Outer (37 # rest) args = vprintfmt (Inner rest 32 (- 1) (- 1) 0 False) rest args"
  by (subst vprintfmt.simps) (simp add: chr_codes)

lemma vp_minus: "vprintfmt (Inner start padc width prec lflag alt) (45 # rest) args
    = vprintfmt (Inner start 45 width prec lflag alt) rest args"
  by (subst vprintfmt.simps) (simp add: chr_codes)

lemma vp_width:
  assumes "take_digits 0 (ch # rest) = (p, rest')" "49 \<le> ch" "ch \<le> 57" "width < 0"
  shows "vprintfmt (Inner start padc width prec lflag alt) (ch # rest) args
    = vprintfmt (Inner start padc p (- 1) lflag alt) rest' args"
proof -
  have "ch \<noteq> 45" "ch \<noteq> 48" using assms(2) by auto
  with assms show ?thesis by (subst vprintfmt.simps) (simp add: chr_codes process_precision_def)
qed

lemma vp_convert:
  assumes "ch \<notin> {45, 48, 42, 46, 35, 108}" "\<not> (49 \<le> ch \<and> ch \<le> 57)"
    and "convert ch padc width prec lflag alt args = Some (Some (o1, args'))"
  shows "vprintfmt (Inner start padc width prec lflag alt) (ch # rest) args
    = map_option ((@) o1) (vprintfmt Outer rest args')"
proof -
  have n: "(49 \<le> ch \<and> ch \<le> 57) = False" using assms(2) by blast
  show ?thesis
    using assms(1,3) by (subst vprintfmt.simps) (simp add: chr_codes n map_option_case split: option.split)
qed

section \<open>Printing into a buffer\<close>

record sprintbuf =
  sb_buf :: nat
  sb_ebuf :: nat
  sb_cnt :: nat

definition sprintputch :: "u8 \<Rightarrow> sprintbuf \<times> bmem \<Rightarrow> sprintbuf \<times> bmem" where
  "sprintputch ch = (\<lambda>(b, m).
     let b1 = b\<lparr>sb_cnt := sb_cnt b + 1\<rparr>
     in if sb_buf b1 < sb_ebuf b1 then (b1\<lparr>sb_buf := sb_buf b1 + 1\<rparr>, m(sb_buf b1 := ch)) else (b1, m))"

text \<open>\<open>str\<close> is 0 for \<open>NULL\<close>. With \<open>size\<close> 0 the end of the buffer lies before its start.\<close>

definition vsnprintf :: "nat \<Rightarrow> nat \<Rightarrow> u8 list \<Rightarrow> parg list \<Rightarrow> bmem \<Rightarrow> (int \<times> bmem) option" where
  "vsnprintf str sz fmt args m =
     (if str = 0 \<or> sz = 0 then Some (- errno_val E_INVAL, m)
      else map_option (\<lambda>chars.
        let (b, m1) = fold sprintputch chars (\<lparr>sb_buf = str, sb_ebuf = str + sz - 1, sb_cnt = 0\<rparr>, m)
        in (int (sb_cnt b), m1(sb_buf b := 0))) (vprintfmt Outer fmt args))"

definition snprintf :: "nat \<Rightarrow> nat \<Rightarrow> u8 list \<Rightarrow> parg list \<Rightarrow> bmem \<Rightarrow> (int \<times> bmem) option" where
  "snprintf str sz fmt args m = vsnprintf str sz fmt args m"

lemma fold_sprintputch:
  assumes "sb_buf b \<le> sb_ebuf b"
  shows "fold sprintputch chars (b, m)
    = (let k = min (length chars) (sb_ebuf b - sb_buf b)
       in (b\<lparr>sb_buf := sb_buf b + k, sb_cnt := sb_cnt b + length chars\<rparr>,
           (\<lambda>a. if sb_buf b \<le> a \<and> a < sb_buf b + k then chars ! (a - sb_buf b) else m a)))"
  using assms
proof (induction chars arbitrary: b m)
  case Nil
  then show ?case by (auto simp: Let_def fun_eq_iff)
next
  case (Cons c cs)
  show ?case
  proof (cases "sb_buf b < sb_ebuf b")
    case True
    let ?b = "b\<lparr>sb_cnt := sb_cnt b + 1, sb_buf := sb_buf b + 1\<rparr>"
    have k: "min (length (c # cs)) (sb_ebuf b - sb_buf b) = Suc (min (length cs) (sb_ebuf b - (sb_buf b + 1)))"
      using True by (simp add: Suc_diff_Suc)
    have "fold sprintputch (c # cs) (b, m) = fold sprintputch cs (?b, m(sb_buf b := c))"
      using True by (simp add: sprintputch_def Let_def)
    also have "\<dots> = (let k = min (length cs) (sb_ebuf b - (sb_buf b + 1))
       in (b\<lparr>sb_buf := sb_buf b + 1 + k, sb_cnt := sb_cnt b + 1 + length cs\<rparr>,
           (\<lambda>a. if sb_buf b + 1 \<le> a \<and> a < sb_buf b + 1 + k then cs ! (a - (sb_buf b + 1)) else (m(sb_buf b := c)) a)))"
      using Cons.IH [of ?b "m(sb_buf b := c)"] True by (simp add: Let_def fun_upd_def cong: if_cong)
    also have "\<dots> = (let k = min (length (c # cs)) (sb_ebuf b - sb_buf b)
       in (b\<lparr>sb_buf := sb_buf b + k, sb_cnt := sb_cnt b + length (c # cs)\<rparr>,
           (\<lambda>a. if sb_buf b \<le> a \<and> a < sb_buf b + k then (c # cs) ! (a - sb_buf b) else m a)))"
      unfolding k by (auto simp: Let_def fun_eq_iff nth_Cons' not_less_eq_eq le_Suc_eq diff_Suc)
    finally show ?thesis .
  next
    case False
    with Cons.prems have "sb_ebuf b = sb_buf b" by simp
    with Cons.IH [of "b\<lparr>sb_cnt := sb_cnt b + 1\<rparr>" m] show ?thesis
      by (simp add: sprintputch_def Let_def) (auto simp: fun_eq_iff)
  qed
qed

text \<open>C14: Printing into a buffer never leaves it: whatever is printed, only the \<open>size\<close> bytes at
  \<open>str\<close> change; they hold the text, cut off when it is too long, with a final null; the result is
  the length of the whole text.\<close>

theorem vsnprintf_stays_in_buffer:
  assumes "str \<noteq> 0" "0 < sz" "vprintfmt Outer fmt args = Some out"
  shows "\<exists>m'. vsnprintf str sz fmt args m = Some (int (length out), m')
    \<and> (\<forall>i < min (length out) (sz - 1). m' (str + i) = out ! i)
    \<and> m' (str + min (length out) (sz - 1)) = 0
    \<and> (\<forall>a. a < str \<or> str + sz \<le> a \<longrightarrow> m' a = m a)"
proof -
  have le: "sb_buf \<lparr>sb_buf = str, sb_ebuf = str + sz - 1, sb_cnt = 0\<rparr>
      \<le> sb_ebuf \<lparr>sb_buf = str, sb_ebuf = str + sz - 1, sb_cnt = 0\<rparr>"
    using assms(2) by simp
  show ?thesis
    using assms fold_sprintputch [OF le, of out m]
    by (auto simp: vsnprintf_def Let_def min_def)
qed

section \<open>Printing and reading numbers\<close>

text \<open>The digits of a number, most significant first.\<close>

function digits :: "nat \<Rightarrow> nat \<Rightarrow> nat list" where
  "digits b n = (if n < b \<or> b < 2 then [n] else digits b (n div b) @ [n mod b])"
  by pat_completeness auto
termination by (relation "measure snd") (auto intro: div_less_dividend)

declare digits.simps [simp del]

lemma printnum_digits:
  assumes "2 \<le> b" "w \<le> 1"
  shows "printnum n b w pad = Some (map ((!) hex_digits) (digits b n))"
  using assms
proof (induction b n arbitrary: w rule: digits.induct)
  case (1 b n)
  show ?case
  proof (cases "n < b")
    case True
    with 1 show ?thesis by (subst printnum.simps, subst digits.simps) simp
  next
    case False
    with 1 have "printnum (n div b) b (w - 1) pad = Some (map ((!) hex_digits) (digits b (n div b)))" by simp
    with 1 False show ?thesis by (subst printnum.simps, subst digits.simps) simp
  qed
qed

lemma digits_less: "2 \<le> b \<Longrightarrow> d \<in> set (digits b n) \<Longrightarrow> d < b"
proof (induction b n rule: digits.induct)
  case (1 b n)
  show ?case
  proof (cases "n < b")
    case True
    with "1.prems" show ?thesis by (subst (asm) digits.simps) simp
  next
    case False
    with "1.prems" consider "d \<in> set (digits b (n div b))" | "d = n mod b"
      by (subst (asm) (2) digits.simps) auto
    then show ?thesis using 1 False by cases auto
  qed
qed

lemma digits_value: "2 \<le> b \<Longrightarrow> fold (\<lambda>d v. v * b + d) (digits b n) 0 = n"
proof (induction b n rule: digits.induct)
  case (1 b n)
  show ?case
  proof (cases "n < b")
    case True
    then show ?thesis by (subst digits.simps) simp
  next
    case False
    with 1 have "fold (\<lambda>d v. v * b + d) (digits b (n div b)) 0 = n div b" by simp
    with False "1.prems" show ?thesis by (subst digits.simps) simp
  qed
qed

text \<open>\<open>strtol\<close> reads a digit that \<open>printnum\<close> wrote.\<close>

lemma digit_of_hex: "d < 16 \<Longrightarrow> digit_of (hex_digits ! d) = Some d \<and> hex_digits ! d \<noteq> 0"
proof -
  have "\<forall>d < 16. digit_of (hex_digits ! d) = Some d \<and> hex_digits ! d \<noteq> 0" by code_simp
  then show "d < 16 \<Longrightarrow> digit_of (hex_digits ! d) = Some d \<and> hex_digits ! d \<noteq> 0" by simp
qed

lemma strtol_digits_read:
  assumes "\<forall>d \<in> set ds. d < b" "b \<le> 16" "cstr m s (map ((!) hex_digits) ds)"
  shows "strtol_digits m b s v = Some (fold (\<lambda>d v. v * of_nat b + of_nat d) ds v, s + length ds)"
  using assms
proof (induction ds arbitrary: s v)
  case Nil
  have "digit_of 0 = None" by code_simp
  with Nil show ?case by (subst strtol_digits.simps) simp
next
  case (Cons d ds)
  have "digit_of (m s) = Some d" using Cons.prems digit_of_hex [of d] by auto
  with Cons.prems Cons.IH [of "s + 1" "v * of_nat b + of_nat d"] show ?case
    by (subst strtol_digits.simps) simp
qed

lemma fold_of_nat:
  "fold (\<lambda>d v. v * of_nat b + of_nat d) ds (of_nat a :: u64) = of_nat (fold (\<lambda>d v. v * b + d) ds a)"
proof (induction ds arbitrary: a)
  case (Cons d ds)
  from Cons [of "a * b + d"] show ?case by simp
qed simp

text \<open>C13: What \<open>printnum\<close> prints in base 8, 10 or 16 without padding, \<open>strtol\<close> reads back: the
  number is below the sign bit of a \<open>long\<close>, and the end pointer is at the end of the text.\<close>

theorem strtol_reads_printnum:
  assumes "b \<in> {8, 10, 16}" "n < 2 ^ 63" "w \<le> 1" "printnum n b w pad = Some out" "cstr m s out"
  shows "strtol m s b = Some (int n, s + length out)"
proof -
  have b: "2 \<le> b" "b \<le> 16" using assms(1) by auto
  let ?ds = "digits b n"
  have out: "out = map ((!) hex_digits) ?ds" using printnum_digits [OF b(1) assms(3), of n pad] assms(4) by simp
  have dl: "\<forall>d \<in> set ?ds. d < b" using digits_less [OF b(1)] by blast
  have ne: "?ds \<noteq> []" by (subst digits.simps) simp
  then obtain d ds where d: "?ds = d # ds" by (cases ?ds) auto
  have d16: "d < 16" using dl d b(2) by simp
  have m0: "m s = hex_digits ! d" using assms(5) out d by simp
  have sep: "\<forall>k < 16. hex_digits ! k \<notin> {chr CHR '' '', 9, chr CHR ''+'', chr CHR ''-'', chr CHR ''x''}" by code_simp
  have blank: "skip_blank m s = Some s" using sep d16 m0 by (subst skip_blank.simps) auto
  have nx: "m (s + 1) \<noteq> chr CHR ''x''"
  proof (cases ds)
    case Nil
    then have "m (s + 1) = 0" using assms(5) out d by simp
    moreover have "chr CHR ''x'' \<noteq> 0" by code_simp
    ultimately show ?thesis by simp
  next
    case (Cons e es)
    then have "m (s + 1) = hex_digits ! e" "e < 16" using assms(5) out d dl b(2) by auto
    with sep show ?thesis by auto
  qed
  have "strtol m s b = map_option (\<lambda>(val, e). (sint val, e)) (strtol_digits m b s 0)"
    using sep d16 m0 nx b(1) by (auto simp: strtol_def blank strtol_prefix_def Let_def)
  also have "strtol_digits m b s 0 = Some (of_nat n, s + length out)"
    using strtol_digits_read [OF dl b(2), of m s 0] assms(5) fold_of_nat [of b ?ds 0] digits_value [OF b(1), of n]
    by (simp add: out)
  finally have "strtol m s b = Some (sint (of_nat n :: u64), s + length out)" by simp
  moreover have "sint (of_nat n :: u64) = int n"
    using assms(2) by (simp add: signed_of_nat signed_take_bit_int_eq_self_iff)
  ultimately show ?thesis by simp
qed

theorem strtol_reads_printnum_witness:
  "strtol (\<lambda>a. (lit ''2a'' @ [0]) ! a) 0 16 = Some (42, 2)"
proof -
  have "printnum 42 16 0 0 = Some (lit ''2a'')" by code_simp
  moreover have "cstr (\<lambda>a. (lit ''2a'' @ [0]) ! a) 0 (lit ''2a'')"
    by (simp add: cstr_def lit_def less_Suc_eq chr_def)
  ultimately show ?thesis using strtol_reads_printnum [of 16 42 0 0 "lit ''2a''"] by (simp add: lit_def)
qed

theorem vsnprintf_stays_in_buffer_witness:
  "\<exists>m'. vsnprintf 100 2 [37, 100, 33] [A_word 42] (\<lambda>_. 1) = Some (3, m') \<and> m' 101 = 0 \<and> m' 102 = 1"
proof -
  have c: "convert 100 32 (- 1) (- 1) 0 False [A_word 42] = Some (Some ([52, 50], []))" by code_simp
  have t: "vprintfmt Outer [37, 100, 33] [A_word 42] = Some [52, 50, 33]"
    by (simp add: vp_percent vp_convert [OF _ _ c] vp_char vp_Nil)
  obtain m' where m: "vsnprintf 100 2 [37, 100, 33] [A_word 42] (\<lambda>_. 1) = Some (int (length [52 :: u8, 50, 33]), m')"
    "m' (100 + min (length [52 :: u8, 50, 33]) (2 - 1)) = 0" "\<forall>a. a < 100 \<or> 100 + 2 \<le> a \<longrightarrow> m' a = 1"
    using vsnprintf_stays_in_buffer [OF _ _ t, of 100 2 "\<lambda>_. 1"] by force
  show ?thesis using m(1,2) m(3) [rule_format, of 102] by (intro exI [of _ m']) simp
qed

text \<open>The flag that should pad a number on the right fills it with dashes on the left.\<close>

theorem printfmt_left_flag_prints_dashes:
  "printfmt (lit ''%-5d|'') [A_word 42] = Some (lit ''---42|'')
   \<and> printfmt (lit ''%5d|'') [A_word 42] = Some (lit ''   42|'')"
proof -
  have l: "lit ''%-5d|'' = [37, 45, 53, 100, 124]" "lit ''%5d|'' = [37, 53, 100, 124]"
    "lit ''---42|'' = [45, 45, 45, 52, 50, 124]" "lit ''   42|'' = [32, 32, 32, 52, 50, 124]" by code_simp+
  have d: "take_digits 0 [53, 100, 124] = (5, [100, 124])" by code_simp
  have c: "convert 100 45 5 (- 1) 0 False [A_word 42] = Some (Some ([45, 45, 45, 52, 50], []))"
    "convert 100 32 5 (- 1) 0 False [A_word 42] = Some (Some ([32, 32, 32, 52, 50], []))" by code_simp+
  show ?thesis
    by (simp add: l printfmt_def vp_percent vp_minus vp_width [OF d] vp_convert [OF _ _ c(1)] vp_convert [OF _ _ c(2)]
        vp_char vp_Nil)
qed
end
