(* ===== verification/Bitmap.thy ===== *)
theory Bitmap
  imports Prelude
begin

text \<open>
  \<open>lab8/kern/fs/sfs/bitmap.c\<close>: a bitmap of 32-bit words in which a set bit is a free block. The
  two \<open>kmalloc\<close>s of \<open>bitmap_create\<close> are flags that say whether they succeed.
\<close>

record bitmap =
  nbits :: u32
  nwords :: u32
  bmap :: "u32 list"

text \<open>The macro computes in 64 bits and casts back to the type of its first argument.\<close>

definition ROUNDUP_DIV :: "u32 \<Rightarrow> u64 \<Rightarrow> u32" where
  "ROUNDUP_DIV a n = ucast ((ucast a + n - 1) div n)"

text \<open>The loop that marks the leftover bits.\<close>

function clear_over :: "nat \<Rightarrow> u32 \<Rightarrow> u32" where
  "clear_over over w = (if over < 32 then clear_over (over + 1) (w XOR push_bit over 1) else w)"
  by pat_completeness auto
termination by (relation "measure (\<lambda>(over, _). 32 - over)") auto

declare clear_over.simps [simp del]

text \<open>\<open>WORD_BITS\<close> has the type of \<open>sizeof\<close>, so the arithmetic with it is done in 64 bits. The
  outer \<open>None\<close> is a failed assertion, the inner one the null pointer.\<close>

definition bitmap_create :: "bool \<Rightarrow> bool \<Rightarrow> u32 \<Rightarrow> bitmap option option" where
  "bitmap_create kmalloc1 kmalloc2 nb =
     (if \<not> (nb \<noteq> 0 \<and> ucast nb + 32 > (ucast nb :: u64)) then None
      else if \<not> kmalloc1 then Some None
      else let nw = ROUNDUP_DIV nb 32
           in if \<not> kmalloc2 then Some None
              else let map0 = replicate (unat nw) (- 1)
                   in if (ucast nb :: u64) \<noteq> ucast nw * 32
                      then let ix = nw - 1; over = ucast (ucast nb - ucast ix * 32 :: u64) :: u32
                           in if (ucast nb :: u64) div 32 \<noteq> ucast ix \<or> \<not> (over > 0 \<and> over < 32) then None
                              else Some (Some \<lparr>nbits = nb, nwords = nw,
                                     bmap = map0[unat ix := clear_over (unat over) (map0 ! unat ix)]\<rparr>)
                      else Some (Some \<lparr>nbits = nb, nwords = nw, bmap = map0\<rparr>))"

function find_offset :: "u32 \<Rightarrow> nat \<Rightarrow> nat option" where
  "find_offset w off =
     (if off < 32 then (if w AND push_bit off 1 \<noteq> 0 then Some off else find_offset w (off + 1)) else None)"
  by pat_completeness auto
termination by (relation "measure (\<lambda>(_, off). 32 - off)") auto

declare find_offset.simps [simp del]

fun find_word :: "nat \<Rightarrow> u32 list \<Rightarrow> nat option" where
  "find_word ix [] = None"
| "find_word ix (w # ws) = (if w \<noteq> 0 then Some ix else find_word (ix + 1) ws)"

definition bitmap_alloc :: "bitmap \<Rightarrow> (errno + nat \<times> bitmap) option" where
  "bitmap_alloc b =
     (case find_word 0 (take (unat (nwords b)) (bmap b)) of
        None \<Rightarrow> Some (Inl E_NO_MEM)
      | Some ix \<Rightarrow>
          (case find_offset (bmap b ! ix) 0 of
             None \<Rightarrow> None
           | Some off \<Rightarrow> Some (Inr (ix * 32 + off,
                 b\<lparr>bmap := (bmap b)[ix := (bmap b ! ix) XOR push_bit off 1]\<rparr>))))"

definition bitmap_translate :: "bitmap \<Rightarrow> u32 \<Rightarrow> (nat \<times> u32) option" where
  "bitmap_translate b index =
     (if index < nbits b then Some (unat (index div 32), push_bit (unat (index mod 32)) 1) else None)"

definition bitmap_test :: "bitmap \<Rightarrow> u32 \<Rightarrow> bool option" where
  "bitmap_test b index =
     (case bitmap_translate b index of None \<Rightarrow> None | Some (w, msk) \<Rightarrow> Some ((bmap b ! w) AND msk \<noteq> 0))"

definition bitmap_free :: "bitmap \<Rightarrow> u32 \<Rightarrow> bitmap option" where
  "bitmap_free b index =
     (case bitmap_translate b index of
        None \<Rightarrow> None
      | Some (w, msk) \<Rightarrow>
          if (bmap b ! w) AND msk \<noteq> 0 then None
          else Some (b\<lparr>bmap := (bmap b)[w := (bmap b ! w) OR msk]\<rparr>))"

definition bitmap_getdata :: "bitmap \<Rightarrow> u32 list \<times> nat" where
  "bitmap_getdata b = (bmap b, 4 * unat (nwords b))"

section \<open>The set of free blocks\<close>

definition free_bits :: "bitmap \<Rightarrow> nat set" where
  "free_bits b = {i. i < 32 * length (bmap b) \<and> bit (bmap b ! (i div 32)) (i mod 32)}"

definition bm_inv :: "bitmap \<Rightarrow> bool" where
  "bm_inv b \<longleftrightarrow> length (bmap b) = unat (nwords b) \<and> unat (nbits b) \<le> 32 * unat (nwords b)
     \<and> (\<forall>i \<in> free_bits b. i < unat (nbits b))"

lemma bit_clear_over:
  "k < 32 \<Longrightarrow> bit (clear_over n w) k \<longleftrightarrow> (if n \<le> k then \<not> bit w k else bit w k)"
proof (induction n w rule: clear_over.induct)
  case (1 n w)
  show ?case
  proof (cases "n < 32")
    case True
    then have st: "clear_over n w = clear_over (n + 1) (w XOR push_bit n 1)" by (subst clear_over.simps) simp
    have "bit (w XOR push_bit n 1) k \<longleftrightarrow> (if k = n then \<not> bit w k else bit w k)"
      using \<open>k < 32\<close> by (auto simp: bit_simps)
    with 1(1) [OF True \<open>k < 32\<close>] show ?thesis unfolding st by auto
  next
    case False
    with \<open>k < 32\<close> show ?thesis by (subst clear_over.simps) auto
  qed
qed

lemma unat_ROUNDUP_DIV_32: "unat (ROUNDUP_DIV nb 32) = (unat nb + 31) div 32"
proof -
  have lt: "unat nb < 2 ^ 32" using unsigned_less [of nb, where ?'a = nat] by simp
  have a: "ucast nb + 32 - 1 = (ucast nb + 31 :: u64)" by simp
  have b: "unat (ucast nb + 31 :: u64) = unat nb + 31"
    using lt by (simp add: unat_word_ariths unsigned_ucast_eq take_bit_nat_eq_self)
  have "unat ((ucast nb + 32 - 1) div 32 :: u64) = (unat nb + 31) div 32" unfolding a by (simp add: unat_div b)
  then show ?thesis using lt
    by (simp add: ROUNDUP_DIV_def unsigned_ucast_eq take_bit_nat_eq_self)
qed

lemma and_push_bit_1: "w AND push_bit k 1 \<noteq> 0 \<longleftrightarrow> bit w k" if "k < 32" for w :: u32
proof
  assume "bit w k"
  then have "bit (w AND push_bit k 1) k" using that by (simp add: bit_simps)
  then show "w AND push_bit k 1 \<noteq> 0" by (metis bit_0_eq bot_apply bot_bool_def)
next
  assume "w AND push_bit k 1 \<noteq> 0"
  then obtain i where "bit (w AND push_bit k 1) i" by (auto simp: bit_eq_iff)
  then show "bit w k" by (auto simp: bit_simps)
qed

lemma find_offset_step:
  "off < 32 \<Longrightarrow> find_offset w off = (if bit w off then Some off else find_offset w (off + 1))"
  by (subst find_offset.simps) (simp only: and_push_bit_1 if_True)

lemma find_offset_Some:
  assumes "bit w k" "k < 32" "\<forall>j < k. off \<le> j \<longrightarrow> \<not> bit w j" "off \<le> k"
  shows "find_offset w off = Some k"
  using assms
proof (induction "k - off" arbitrary: off)
  case 0
  then show ?case by (simp add: find_offset_step)
next
  case (Suc n)
  then have "\<not> bit w off" "off < k" by auto
  moreover have "find_offset w (off + 1) = Some k" using Suc \<open>off < k\<close> by (intro Suc.hyps(1)) auto
  ultimately show ?case using Suc.prems(2) by (simp add: find_offset_step)
qed

text \<open>One bit of one word changes.\<close>

lemma free_bits_upd:
  assumes "ix < length (bmap b)" "k < 32" "\<And>j. j < 32 \<Longrightarrow> bit w' j = (if j = k then v else bit (bmap b ! ix) j)"
  shows "free_bits (b\<lparr>bmap := (bmap b)[ix := w']\<rparr>)
    = (if v then insert (ix * 32 + k) (free_bits b) else free_bits b - {ix * 32 + k})"
proof (rule set_eqI)
  fix j
  have dm: "(ix * 32 + k) div 32 = ix" "(ix * 32 + k) mod 32 = k" using assms(2) by simp_all
  have j: "j = ix * 32 + k" if "j div 32 = ix" "j mod 32 = k" using that div_mult_mod_eq [of j 32] by simp
  have b: "bit w' (j mod 32) = (if j mod 32 = k then v else bit (bmap b ! ix) (j mod 32))" by (rule assms(3)) simp
  have lt: "ix * 32 + k < 32 * length (bmap b)" using assms(1,2) by linarith
  show "j \<in> free_bits (b\<lparr>bmap := (bmap b)[ix := w']\<rparr>)
      \<longleftrightarrow> j \<in> (if v then insert (ix * 32 + k) (free_bits b) else free_bits b - {ix * 32 + k})"
  proof (cases "j div 32 = ix")
    case True
    show ?thesis
    proof (cases "j mod 32 = k")
      case True
      with \<open>j div 32 = ix\<close> j have "j = ix * 32 + k" by simp
      with assms(1) b lt dm show ?thesis by (simp add: free_bits_def)
    next
      case False
      then have "j \<noteq> ix * 32 + k" using dm by auto
      with True False b assms(1) show ?thesis by (simp add: free_bits_def)
    qed
  next
    case False
    then have "j \<noteq> ix * 32 + k" using dm by auto
    with False assms(1) show ?thesis by (simp add: free_bits_def nth_list_update)
  qed
qed

lemma find_word_cases:
  "(case find_word k ws of None \<Rightarrow> \<forall>w \<in> set ws. w = 0
    | Some i \<Rightarrow> k \<le> i \<and> i - k < length ws \<and> ws ! (i - k) \<noteq> 0 \<and> (\<forall>j < i - k. ws ! j = 0))"
proof (induction ws arbitrary: k)
  case (Cons w ws)
  show ?case
  proof (cases "w = 0")
    case True
    show ?thesis
    proof (cases "find_word (Suc k) ws")
      case None
      with Cons [of "Suc k"] True show ?thesis by simp
    next
      case (Some i)
      with Cons [of "Suc k"] have i: "Suc k \<le> i" "i - Suc k < length ws" "ws ! (i - Suc k) \<noteq> 0"
        "\<forall>j < i - Suc k. ws ! j = 0" by simp_all
      have d: "i - k = Suc (i - Suc k)" using i(1) by simp
      have "(w # ws) ! j = 0" if "j < i - k" for j using that i(4) True d by (cases j) auto
      with True Some i d show ?thesis by simp
    qed
  qed simp
qed simp

lemma least_bit: "w \<noteq> 0 \<Longrightarrow> \<exists>k < 32. bit w k \<and> (\<forall>j < k. \<not> bit w j)" for w :: u32
proof -
  assume "w \<noteq> 0"
  then obtain i where i: "bit w i" by (auto simp: bit_eq_iff)
  define k where "k = (LEAST i. bit w i)"
  have "bit w k" unfolding k_def by (rule LeastI [of _ i]) (rule i)
  moreover from this have "k < 32" using bit_imp_le_length [of w k] by simp
  moreover have "\<not> bit w j" if "j < k" for j using not_less_Least that unfolding k_def by blast
  ultimately show ?thesis by blast
qed

text \<open>The words of a fresh bitmap, and the blocks they make free.\<close>

lemma div32_up: "n mod 32 \<noteq> 0 \<Longrightarrow> (n + 31) div 32 = n div 32 + 1" for n :: nat
proof -
  assume r: "n mod 32 \<noteq> 0"
  define q r where "q = n div 32" and "r = n mod 32"
  have n: "n = 32 * q + r" "r < 32" "0 < r" using r by (simp_all add: q_def r_def)
  show ?thesis unfolding q_def [symmetric] by (rule div_nat_eqI) (simp_all add: n, use n in simp_all)
qed

lemma div32_exact: "n \<noteq> (n + 31) div 32 * 32 \<longleftrightarrow> n mod 32 \<noteq> 0" for n :: nat
proof (cases "n mod 32 = 0")
  case True
  then show ?thesis by (simp add: div_add1_eq mod_0_imp_dvd)
next
  case False
  have "n \<noteq> (n div 32 + 1) * 32" by (metis add_right_cancel mod_mult_self2_is_0 False)
  with False show ?thesis unfolding div32_up [OF False] by blast
qed

lemma fresh_words:
  fixes n :: nat and ws :: "u32 list"
  assumes "0 < n" "L = (n + 31) div 32" "length ws = L"
    and "\<And>w. w < L - 1 \<or> n mod 32 = 0 \<and> w < L \<Longrightarrow> ws ! w = - 1"
    and "n mod 32 \<noteq> 0 \<Longrightarrow> ws ! (L - 1) = clear_over (n mod 32) (- 1)"
  shows "{i. i < 32 * length ws \<and> bit (ws ! (i div 32)) (i mod 32)} = {..<n}"
proof (rule set_eqI)
  fix i :: nat
  have i: "i = i div 32 * 32 + i mod 32" "i mod 32 < 32" by simp_all
  have n: "n = n div 32 * 32 + n mod 32" "n mod 32 < 32" by simp_all
  show "i \<in> {i. i < 32 * length ws \<and> bit (ws ! (i div 32)) (i mod 32)} \<longleftrightarrow> i \<in> {..<n}"
  proof (cases "n mod 32 = 0")
    case True
    then have L: "32 * L = n" using assms(2) n by (simp add: div_add1_eq)
    have "ws ! (i div 32) = - 1" if "i < n" using assms(4) [of "i div 32"] True L that i by linarith
    with i(2) L assms(3) show ?thesis by (auto simp: bit_minus_1_iff)
  next
    case False
    then have L: "L = n div 32 + 1" unfolding assms(2) by (rule div32_up)
    consider "i div 32 < n div 32" | "i div 32 = n div 32" | "i div 32 > n div 32" by linarith
    then show ?thesis
    proof cases
      case 1
      then have "ws ! (i div 32) = - 1" using assms(4) [of "i div 32"] L by simp
      moreover have "i < n" using 1 i n by linarith
      moreover have "i < 32 * L" using L 1 i n by linarith
      ultimately show ?thesis using i(2) assms(3) by (simp add: bit_minus_1_iff)
    next
      case 2
      have "ws ! (i div 32) = clear_over (n mod 32) (- 1)" using assms(5) False L 2 by simp
      moreover have "i < n \<longleftrightarrow> i mod 32 < n mod 32" using 2 i n by linarith
      moreover have "i < 32 * L" using L 2 i n by linarith
      ultimately show ?thesis using i(2) assms(3) by (simp add: bit_clear_over bit_minus_1_iff not_le)
    next
      case 3
      then have "32 * L \<le> i" "n \<le> i" using L i n by linarith+
      then show ?thesis using assms(3) by simp
    qed
  qed
qed

text \<open>A fresh bitmap of a non-zero number of blocks has exactly the blocks below that number
  free: no assertion of \<open>bitmap_create\<close> fails, and the leftover bits of the last word are in use.\<close>

theorem bitmap_create_fresh:
  assumes "nb \<noteq> 0"
  shows "\<exists>b. bitmap_create True True nb = Some (Some b) \<and> bm_inv b \<and> nbits b = nb
    \<and> free_bits b = {..<unat nb}"
proof -
  define n where "n = unat nb"
  define L where "L = (n + 31) div 32"
  have n0: "0 < n" unfolding n_def using assms by (simp only: unat_gt_0 not_False_eq_True)
  have lt: "n < 2 ^ 32" unfolding n_def using unsigned_less [of nb, where ?'a = nat] by simp
  define nw where "nw = ROUNDUP_DIV nb 32"
  have uw: "unat nw = L" unfolding nw_def L_def n_def by (rule unat_ROUNDUP_DIV_32)
  have Lle: "L \<le> 2 ^ 27" using lt by (simp add: L_def)
  have L1: "1 \<le> L" using n0 by (simp add: L_def)
  have c64: "unat (ucast nb :: u64) = n" "unat (ucast nw :: u64) = L"
    using lt Lle by (simp_all add: unsigned_ucast_eq take_bit_nat_eq_self n_def [symmetric] uw)
  have A: "nb \<noteq> 0 \<and> ucast nb + 32 > (ucast nb :: u64)"
    using assms lt c64 by (simp add: word_less_nat_alt unat_word_ariths)
  have eq: "(ucast nb :: u64) \<noteq> ucast nw * 32 \<longleftrightarrow> n \<noteq> L * 32"
    using lt Lle c64 by (simp add: word_unat_eq_iff unat_word_ariths)
  have eq': "n \<noteq> L * 32 \<longleftrightarrow> n mod 32 \<noteq> 0" unfolding L_def by (rule div32_exact)
  show ?thesis
  proof (cases "n mod 32 = 0")
    case True
    define b where "b = \<lparr>nbits = nb, nwords = nw, bmap = replicate L (- 1)\<rparr>"
    have cr: "bitmap_create True True nb = Some (Some b)"
      unfolding bitmap_create_def nw_def [symmetric] b_def using A eq eq' True uw by (simp add: Let_def)
    have fb: "free_bits b = {..<n}" unfolding free_bits_def
      by (rule fresh_words [OF n0 L_def]) (use True in \<open>auto simp: b_def\<close>)
    have "bm_inv b" unfolding bm_inv_def fb by (simp add: b_def uw n_def [symmetric] L_def)
    with cr fb show ?thesis by (simp add: b_def n_def)
  next
    case False
    define ix where "ix = nw - 1"
    have uix: "unat ix = L - 1" using uw L1 by (simp add: ix_def unat_sub word_le_nat_alt)
    have cix: "unat (ucast ix :: u64) = L - 1"
      using Lle by (simp add: unsigned_ucast_eq take_bit_nat_eq_self uix)
    have L: "L = n div 32 + 1" unfolding L_def by (rule div32_up) (rule False)
    have nL: "n div 32 = L - 1" "n - (L - 1) * 32 = n mod 32" "(L - 1) * 32 \<le> n"
      unfolding L by (simp_all add: minus_div_mult_eq_mod)
    have m: "unat (ucast ix * 32 :: u64) = (L - 1) * 32" using Lle cix by (simp add: unat_word_ariths)
    have sb: "unat (ucast nb - ucast ix * 32 :: u64) = n mod 32"
      using nL m c64 by (simp add: unat_sub word_le_nat_alt)
    define over where "over = (ucast (ucast nb - ucast ix * 32 :: u64) :: u32)"
    have uo: "unat over = n mod 32" unfolding over_def by (simp add: unsigned_ucast_eq take_bit_nat_eq_self sb)
    have B: "(ucast nb :: u64) div 32 = ucast ix" using c64 cix nL by (simp add: word_unat_eq_iff unat_div)
    have C: "over > 0 \<and> over < 32" using uo False by (simp add: word_less_nat_alt)
    define b where "b = \<lparr>nbits = nb, nwords = nw, bmap = (replicate L (- 1))[L - 1 := clear_over (n mod 32) (- 1)]\<rparr>"
    have cr: "bitmap_create True True nb = Some (Some b)"
      unfolding bitmap_create_def nw_def [symmetric] Let_def ix_def [symmetric] over_def [symmetric] b_def uix uw uo
      using A eq eq' False B C L1 by simp
    have fb: "free_bits b = {..<n}" unfolding free_bits_def
      by (rule fresh_words [OF n0 L_def]) (use False L1 in \<open>auto simp: b_def\<close>)
    have "bm_inv b" unfolding bm_inv_def fb by (simp add: b_def uw n_def [symmetric] L_def)
    with cr fb show ?thesis by (simp add: b_def n_def)
  qed
qed

theorem bitmap_create_fresh_witness:
  "\<exists>b. bitmap_create True True 40 = Some (Some b) \<and> bm_inv b \<and> free_bits b = {..<40}"
  using bitmap_create_fresh [of 40] by auto

lemma bitmap_alloc_cases:
  assumes "bm_inv b"
  shows "if free_bits b = {} then bitmap_alloc b = Some (Inl E_NO_MEM)
   else \<exists>i b'. bitmap_alloc b = Some (Inr (i, b')) \<and> i \<in> free_bits b \<and> (\<forall>j \<in> free_bits b. i \<le> j)
     \<and> free_bits b' = free_bits b - {i} \<and> nbits b' = nbits b \<and> nwords b' = nwords b \<and> bm_inv b'"
proof -
  have tk [simp]: "take (unat (nwords b)) (bmap b) = bmap b" using assms by (simp add: bm_inv_def)
  show ?thesis
  proof (cases "find_word 0 (bmap b)")
  case None
  with find_word_cases [where k = 0 and ws = "bmap b"] have z: "\<forall>w \<in> set (bmap b). w = 0" by simp
  have "free_bits b = {}"
  proof -
    have "\<not> bit (bmap b ! (i div 32)) (i mod 32)" if "i < 32 * length (bmap b)" for i
    proof -
      have "i div 32 < length (bmap b)" using that by (simp add: less_mult_imp_div_less mult.commute)
      then have "bmap b ! (i div 32) = 0" using z nth_mem by blast
      then show ?thesis by simp
    qed
    then show ?thesis by (auto simp: free_bits_def)
  qed
  with None show ?thesis by (simp add: bitmap_alloc_def)
next
  case (Some ix)
  with find_word_cases [where k = 0 and ws = "bmap b"] have ix: "ix < length (bmap b)" "bmap b ! ix \<noteq> 0"
    "\<forall>j < ix. bmap b ! j = 0" by simp_all
  from least_bit [OF ix(2)] obtain off where off: "off < 32" "bit (bmap b ! ix) off"
    "\<forall>j < off. \<not> bit (bmap b ! ix) j" by blast
  let ?i = "ix * 32 + off"
  define b' where "b' = b\<lparr>bmap := (bmap b)[ix := (bmap b ! ix) XOR push_bit off 1]\<rparr>"
  have "find_offset (bmap b ! ix) 0 = Some off" using off by (intro find_offset_Some) auto
  then have al: "bitmap_alloc b = Some (Inr (?i, b'))" using Some by (simp add: bitmap_alloc_def b'_def)
  have dm: "?i div 32 = ix" "?i mod 32 = off" using off(1) by simp_all
  have inf: "?i \<in> free_bits b" using ix(1) off by (simp add: free_bits_def dm)
  moreover have "?i \<le> j" if "j \<in> free_bits b" for j
  proof (rule ccontr)
    assume "\<not> ?i \<le> j"
    then have lt: "j < ix * 32 + off" by simp
    have j: "j = j div 32 * 32 + j mod 32" by simp
    have "j div 32 < ix \<or> j div 32 = ix \<and> j mod 32 < off"
    proof (cases "j div 32" ix rule: linorder_cases)
      case equal
      with lt j show ?thesis by linarith
    next
      case greater
      then have "ix * 32 + 32 \<le> j div 32 * 32" by simp
      with lt j off(1) show ?thesis by linarith
    qed simp
    then have "\<not> bit (bmap b ! (j div 32)) (j mod 32)" using ix(3) off(3) by auto
    with that show False by (simp add: free_bits_def)
  qed
  moreover have "free_bits b' = free_bits b - {?i}"
    using free_bits_upd [of ix b off "(bmap b ! ix) XOR push_bit off 1" False] ix(1) off(1,2)
    by (simp add: b'_def bit_simps)
  moreover from this have "bm_inv b'" using assms unfolding bm_inv_def by (simp add: b'_def)
  ultimately show ?thesis using al by (auto simp: b'_def)
  qed
qed

text \<open>C15: Allocation from the bitmap takes the lowest free block: with no free block it reports
  \<open>E_NO_MEM\<close>, otherwise it returns the least free index, which is the only one that stops being
  free; the assertion behind the scan never fails.\<close>

theorem bitmap_alloc_least:
  assumes "bm_inv b"
  shows "if free_bits b = {} then bitmap_alloc b = Some (Inl E_NO_MEM)
   else \<exists>i b'. bitmap_alloc b = Some (Inr (i, b')) \<and> i \<in> free_bits b \<and> (\<forall>j \<in> free_bits b. i \<le> j)
     \<and> free_bits b' = free_bits b - {i} \<and> nbits b' = nbits b \<and> nwords b' = nwords b \<and> bm_inv b'"
  using assms by (rule bitmap_alloc_cases)

lemma bitmap_free_cases:
  assumes "bm_inv b" "i < nbits b"
  shows "if unat i \<in> free_bits b then bitmap_free b i = None
    else \<exists>b'. bitmap_free b i = Some b' \<and> free_bits b' = insert (unat i) (free_bits b) \<and> bm_inv b'
      \<and> bitmap_test b' i = Some True"
proof -
  let ?w = "unat (i div 32)" and ?k = "unat (i mod 32)"
  have d: "?w = unat i div 32" "?k = unat i mod 32" by (simp_all add: unat_div unat_mod)
  have k: "?k < 32" by (simp add: d)
  have ei: "?w * 32 + ?k = unat i" unfolding d by (rule div_mult_mod_eq)
  have lt: "unat i < unat (nbits b)" using assms(2) by (simp add: word_less_nat_alt)
  then have lw: "?w < length (bmap b)" using assms(1) by (auto simp: bm_inv_def d)
  have fr: "unat i \<in> free_bits b \<longleftrightarrow> bit (bmap b ! ?w) ?k"
    using lw by (auto simp: free_bits_def d)
  show ?thesis
  proof (cases "unat i \<in> free_bits b")
    case True
    then have "(bmap b ! ?w) AND push_bit ?k 1 \<noteq> 0" using fr and_push_bit_1 [OF k] by blast
    with True assms(2) show ?thesis by (simp add: bitmap_free_def bitmap_translate_def)
  next
    case False
    then have z: "(bmap b ! ?w) AND push_bit ?k 1 = 0" using fr and_push_bit_1 [OF k] by blast
    define b' where "b' = b\<lparr>bmap := (bmap b)[?w := (bmap b ! ?w) OR push_bit ?k 1]\<rparr>"
    have "bitmap_free b i = Some b'" using z assms(2) by (simp add: bitmap_free_def bitmap_translate_def b'_def)
    moreover have fb: "free_bits b' = insert (unat i) (free_bits b)"
      using free_bits_upd [of ?w b ?k "(bmap b ! ?w) OR push_bit ?k 1" True] lw k ei
      by (simp add: b'_def bit_simps)
    moreover have "bm_inv b'" using assms(1) fb lt by (auto simp: bm_inv_def b'_def)
    moreover have "bitmap_test b' i = Some True"
    proof -
      have "bit (bmap b' ! ?w) ?k" using lw k by (simp add: b'_def bit_simps)
      then have "(bmap b' ! ?w) AND push_bit ?k 1 \<noteq> 0" using and_push_bit_1 [OF k] by blast
      then show ?thesis using assms(2) by (simp add: bitmap_test_def bitmap_translate_def b'_def)
    qed
    ultimately show ?thesis using False by auto
  qed
qed

text \<open>Freeing an allocated block of the disk makes exactly that block free again, so that
  allocating and freeing it is the identity on the free blocks; freeing a free block fails the
  assertion.\<close>

theorem bitmap_free_restores:
  assumes "bm_inv b" "i < nbits b"
  shows "if unat i \<in> free_bits b then bitmap_free b i = None
    else \<exists>b'. bitmap_free b i = Some b' \<and> free_bits b' = insert (unat i) (free_bits b) \<and> bm_inv b'
      \<and> bitmap_test b' i = Some True"
  using assms by (rule bitmap_free_cases)

lemma bitmap_test_iff:
  assumes "bm_inv b" "i < nbits b"
  shows "bitmap_test b i = Some (unat i \<in> free_bits b)"
proof -
  have "bitmap_test b i = Some (bit (bmap b ! (unat i div 32)) (unat i mod 32))"
    using assms(2) and_push_bit_1 [of "unat i mod 32"]
    by (simp add: bitmap_test_def bitmap_translate_def unat_div unat_mod)
  moreover have "unat i < 32 * length (bmap b)"
    using assms by (auto simp: bm_inv_def word_less_nat_alt)
  ultimately show ?thesis by (simp add: free_bits_def)
qed

lemma bitmap_free_nbits: "bitmap_free b i = Some b' \<Longrightarrow> nbits b' = nbits b"
  by (auto simp: bitmap_free_def split: option.splits if_splits)

definition demo_bitmap :: bitmap where
  "demo_bitmap = \<lparr>nbits = 20, nwords = 1, bmap = [0]\<rparr>"

lemma free_bits_demo: "free_bits demo_bitmap = {}"
  by (simp add: free_bits_def demo_bitmap_def)

lemma bm_inv_demo: "bm_inv demo_bitmap"
  unfolding bm_inv_def free_bits_demo by (simp add: demo_bitmap_def)

theorem bitmap_alloc_least_witness: "bitmap_alloc demo_bitmap = Some (Inl E_NO_MEM)"
  using bitmap_alloc_least [OF bm_inv_demo] by (simp add: free_bits_demo)

theorem bitmap_free_restores_witness:
  "\<exists>b'. bitmap_free demo_bitmap 3 = Some b' \<and> free_bits b' = {3} \<and> bitmap_test b' 3 = Some True"
proof -
  have "(3 :: u32) < nbits demo_bitmap" by (simp add: demo_bitmap_def)
  from bitmap_free_restores [OF bm_inv_demo this] show ?thesis by (auto simp: free_bits_demo)
qed

end
