(* ===== verification/Page_Table.thy ===== *)
theory Page_Table
  imports First_Fit "HOL-Library.Monad_Syntax"
begin

text \<open>
  The three-level page tables of \<open>lab5/kern/mm/pmm.c\<close>: \<open>get_pte\<close>, \<open>page_insert\<close>,
  \<open>page_remove\<close>, \<open>unmap_range\<close>, \<open>exit_range\<close>, \<open>copy_range\<close> and \<open>pgdir_alloc_page\<close>, on the
  first-fit manager of theory \<open>First_Fit\<close>.

  A page is named by its index in the array \<open>pages\<close>; its contents are 512 words of 64 bits. A
  pointer to a page-table entry is the page that holds the entry and the entry's index. The
  translation buffer is not modelled, so \<open>tlb_invalidate\<close> has no effect.
\<close>

section \<open>Addresses and entries\<close>

definition PGSIZE :: u64 where "PGSIZE = 4096"
definition PTSIZE :: u64 where "PTSIZE = 0x200000"
definition PDSIZE :: u64 where "PDSIZE = 0x40000000"
definition NPTEENTRY :: nat where "NPTEENTRY = 512"

definition USERBASE :: u64 where "USERBASE = 0x00200000"
definition USERTOP :: u64 where "USERTOP = 0x80000000"

definition USER_ACCESS :: "u64 \<Rightarrow> u64 \<Rightarrow> bool" where
  "USER_ACCESS start endp \<longleftrightarrow> USERBASE \<le> start \<and> start < endp \<and> endp \<le> USERTOP"

definition PTE_V :: u64 where "PTE_V = 0x001"
definition PTE_R :: u64 where "PTE_R = 0x002"
definition PTE_W :: u64 where "PTE_W = 0x004"
definition PTE_X :: u64 where "PTE_X = 0x008"
definition PTE_U :: u64 where "PTE_U = 0x010"
definition PTE_USER :: u64 where "PTE_USER = PTE_R OR PTE_W OR PTE_X OR PTE_U OR PTE_V"
definition READ_WRITE :: u64 where "READ_WRITE = PTE_R OR PTE_W OR PTE_V"

definition PDX1 :: "u64 \<Rightarrow> nat" where "PDX1 la = unat (drop_bit 30 la AND 0x1FF)"
definition PDX0 :: "u64 \<Rightarrow> nat" where "PDX0 la = unat (drop_bit 21 la AND 0x1FF)"
definition PTX :: "u64 \<Rightarrow> nat" where "PTX la = unat (drop_bit 12 la AND 0x1FF)"

definition ROUNDDOWN :: "u64 \<Rightarrow> u64 \<Rightarrow> u64" where "ROUNDDOWN a n = a - a mod n"
definition ROUNDUP :: "u64 \<Rightarrow> u64 \<Rightarrow> u64" where "ROUNDUP a n = ROUNDDOWN (a + n - 1) n"

text \<open>\<open>nbase\<close> is the frame number of the first page of the memory, \<open>npage\<close> the end of it.\<close>

definition nbase :: nat where "nbase = 0x80000"
definition npage :: nat where "npage = 0x88000"

definition page2ppn :: "nat \<Rightarrow> u64" where "page2ppn page = of_nat (page + nbase)"
definition page2pa :: "nat \<Rightarrow> u64" where "page2pa page = push_bit 12 (page2ppn page)"

text \<open>\<open>pa2page\<close> panics above the memory; below it, the index is negative and the descriptor is
  outside the array. \<open>KADDR\<close> is defined on the same addresses.\<close>

definition pa2page :: "u64 \<Rightarrow> nat option" where
  "pa2page pa = (let ppn = unat (drop_bit 12 pa) in if nbase \<le> ppn \<and> ppn < npage then Some (ppn - nbase) else None)"

definition KADDR :: "u64 \<Rightarrow> nat option" where "KADDR = pa2page"

definition PTE_ADDR :: "u64 \<Rightarrow> u64" where "PTE_ADDR pte = push_bit 2 (pte AND NOT 0x3FF)"

definition pte2page :: "u64 \<Rightarrow> nat option" where
  "pte2page pte = (if pte AND PTE_V = 0 then None else pa2page (PTE_ADDR pte))"

text \<open>The parameter \<open>type\<close> of \<open>pte_create\<close> is an \<open>int\<close>, extended with its sign.\<close>

definition pte_create :: "u64 \<Rightarrow> u32 \<Rightarrow> u64" where
  "pte_create ppn type = push_bit 10 ppn OR PTE_V OR scast type"

section \<open>The state\<close>

record vmem =
  fa :: free_area
  mem :: "nat \<Rightarrow> nat \<Rightarrow> u64"
  swap_init_ok :: bool

type_synonym pteptr = "nat \<times> nat"

abbreviation rd :: "vmem \<Rightarrow> pteptr \<Rightarrow> u64" where
  "rd s e \<equiv> mem s (fst e) (snd e)"

definition wr :: "pteptr \<Rightarrow> u64 \<Rightarrow> vmem \<Rightarrow> vmem" where
  "wr e v s = s\<lparr>mem := (mem s)(fst e := (mem s (fst e))(snd e := v))\<rparr>"

definition fill_page :: "nat \<Rightarrow> (nat \<Rightarrow> u64) \<Rightarrow> vmem \<Rightarrow> vmem" where
  "fill_page p ws s = s\<lparr>mem := (mem s)(p := ws)\<rparr>"

definition page_ref :: "nat \<Rightarrow> vmem \<Rightarrow> int" where
  "page_ref p s = pg_ref (pages (fa s) p)"

definition set_page_ref :: "nat \<Rightarrow> int \<Rightarrow> vmem \<Rightarrow> vmem" where
  "set_page_ref p r s = s\<lparr>fa := upd_page p (\<lambda>d. d\<lparr>pg_ref := r\<rparr>) (fa s)\<rparr>"

definition page_ref_inc :: "nat \<Rightarrow> vmem \<Rightarrow> vmem" where
  "page_ref_inc p s = set_page_ref p (page_ref p s + 1) s"

definition page_ref_dec :: "nat \<Rightarrow> vmem \<Rightarrow> vmem" where
  "page_ref_dec p s = set_page_ref p (page_ref p s - 1) s"

text \<open>
  \<open>alloc_pages(1)\<close>. When no page is left and swapping is on, the loop calls
  \<open>swap_out(check_mm_struct, ...)\<close>; outside the self checks \<open>check_mm_struct\<close> is the null
  pointer, whose field \<open>sm_priv\<close> the victim search reads: that is the value \<open>None\<close>.
\<close>

definition alloc_page :: "vmem \<Rightarrow> (nat option \<times> vmem) option" where
  "alloc_page s = do {
     (r, f) \<leftarrow> default_alloc_pages 1 (fa s);
     if r = None \<and> swap_init_ok s then None else Some (r, s\<lparr>fa := f\<rparr>) }"

definition free_page :: "nat \<Rightarrow> vmem \<Rightarrow> vmem option" where
  "free_page p s = do { f \<leftarrow> default_free_pages p 1 (fa s); Some (s\<lparr>fa := f\<rparr>) }"

section \<open>The operations\<close>

text \<open>One level of \<open>get_pte\<close>: the table that the directory entry points to, allocated and
  zeroed when the entry is not valid and the caller asks for it.\<close>

definition pde_table :: "pteptr \<Rightarrow> bool \<Rightarrow> vmem \<Rightarrow> (nat option \<times> vmem) option" where
  "pde_table pdep create s =
     (if rd s pdep AND PTE_V = 0
      then if \<not> create then Some (None, s)
           else do {
             (r, s) \<leftarrow> alloc_page s;
             case r of
               None \<Rightarrow> Some (None, s)
             | Some page \<Rightarrow> do {
                 let s = set_page_ref page 1 s;
                 k \<leftarrow> KADDR (page2pa page);
                 let s = fill_page k (\<lambda>_. 0) s;
                 let s = wr pdep (pte_create (page2ppn page) (ucast (PTE_U OR PTE_V))) s;
                 t \<leftarrow> KADDR (PTE_ADDR (rd s pdep));
                 Some (Some t, s) } }
      else do { t \<leftarrow> KADDR (PTE_ADDR (rd s pdep)); Some (Some t, s) })"

definition get_pte :: "nat \<Rightarrow> u64 \<Rightarrow> bool \<Rightarrow> vmem \<Rightarrow> (pteptr option \<times> vmem) option" where
  "get_pte pgdir la create s = do {
     (r1, s) \<leftarrow> pde_table (pgdir, PDX1 la) create s;
     case r1 of
       None \<Rightarrow> Some (None, s)
     | Some t1 \<Rightarrow> do {
         (r0, s) \<leftarrow> pde_table (t1, PDX0 la) create s;
         case r0 of None \<Rightarrow> Some (None, s) | Some t0 \<Rightarrow> Some (Some (t0, PTX la), s) } }"

definition get_page :: "nat \<Rightarrow> u64 \<Rightarrow> vmem \<Rightarrow> (nat option \<times> pteptr option) option" where
  "get_page pgdir la s = do {
     (r, s) \<leftarrow> get_pte pgdir la False s;
     case r of
       None \<Rightarrow> Some (None, None)
     | Some ptep \<Rightarrow>
         if rd s ptep AND PTE_V \<noteq> 0 then do { p \<leftarrow> pte2page (rd s ptep); Some (Some p, r) } else Some (None, r) }"

definition page_remove_pte :: "pteptr \<Rightarrow> vmem \<Rightarrow> vmem option" where
  "page_remove_pte ptep s =
     (if rd s ptep AND PTE_V \<noteq> 0
      then do {
        page \<leftarrow> pte2page (rd s ptep);
        let s = page_ref_dec page s;
        s \<leftarrow> (if page_ref page s = 0 then free_page page s else Some s);
        Some (wr ptep 0 s) }
      else Some s)"

definition page_remove :: "nat \<Rightarrow> u64 \<Rightarrow> vmem \<Rightarrow> vmem option" where
  "page_remove pgdir la s = do {
     (r, s) \<leftarrow> get_pte pgdir la False s;
     case r of None \<Rightarrow> Some s | Some ptep \<Rightarrow> page_remove_pte ptep s }"

text \<open>The result 0 of \<open>page_insert\<close> is \<open>None\<close> here, an error is \<open>Some\<close> of its number.\<close>

definition page_insert :: "nat \<Rightarrow> nat \<Rightarrow> u64 \<Rightarrow> u32 \<Rightarrow> vmem \<Rightarrow> (errno option \<times> vmem) option" where
  "page_insert pgdir page la perm s = do {
     (r, s) \<leftarrow> get_pte pgdir la True s;
     case r of
       None \<Rightarrow> Some (Some E_NO_MEM, s)
     | Some ptep \<Rightarrow> do {
         let s = page_ref_inc page s;
         s \<leftarrow> (if rd s ptep AND PTE_V \<noteq> 0
              then do {
                p \<leftarrow> pte2page (rd s ptep);
                if p = page then Some (page_ref_dec page s) else page_remove_pte ptep s }
              else Some s);
         Some (None, wr ptep (pte_create (page2ppn page) (ucast PTE_V OR perm)) s) } }"

text \<open>\<open>pgdir_alloc_page\<close>; the call of \<open>swap_map_swappable\<close> is under \<open>check_mm_struct != NULL\<close>,
  which holds in the self checks only.\<close>

definition pgdir_alloc_page :: "nat \<Rightarrow> u64 \<Rightarrow> u32 \<Rightarrow> vmem \<Rightarrow> (nat option \<times> vmem) option" where
  "pgdir_alloc_page pgdir la perm s = do {
     (r, s) \<leftarrow> alloc_page s;
     case r of
       None \<Rightarrow> Some (None, s)
     | Some page \<Rightarrow> do {
         (e, s) \<leftarrow> page_insert pgdir page la perm s;
         if e \<noteq> None then do { s \<leftarrow> free_page page s; Some (None, s) } else Some (Some page, s) } }"

text \<open>The loop of \<open>unmap_range\<close>, from \<open>do\<close> on.\<close>

partial_function (option) unmap_loop :: "nat \<Rightarrow> u64 \<Rightarrow> u64 \<Rightarrow> vmem \<Rightarrow> vmem option" where
  "unmap_loop pgdir start endp s = do {
     (r, s) \<leftarrow> get_pte pgdir start False s;
     (start, s) \<leftarrow>
       (case r of
          None \<Rightarrow> Some (ROUNDDOWN (start + PTSIZE) PTSIZE, s)
        | Some ptep \<Rightarrow> do {
            s \<leftarrow> (if rd s ptep \<noteq> 0 then page_remove_pte ptep s else Some s);
            Some (start + PGSIZE, s) });
     if start \<noteq> 0 \<and> start < endp then unmap_loop pgdir start endp s else Some s }"

declare unmap_loop.simps [code]

definition unmap_range :: "nat \<Rightarrow> u64 \<Rightarrow> u64 \<Rightarrow> vmem \<Rightarrow> vmem option" where
  "unmap_range pgdir start endp s =
     (if start mod PGSIZE = 0 \<and> endp mod PGSIZE = 0 \<and> USER_ACCESS start endp
      then unmap_loop pgdir start endp s else None)"

text \<open>\<open>exit_range\<close>: the test that a page table holds no valid entry, the loop over the page
  tables of one directory, which also says whether the directory can go, and the outer loop.\<close>

definition pt_unused :: "nat \<Rightarrow> vmem \<Rightarrow> bool" where
  "pt_unused pt s \<longleftrightarrow> (\<forall>i \<in> set [0..<NPTEENTRY]. mem s pt i AND PTE_V = 0)"

partial_function (option) exit_inner :: "nat \<Rightarrow> u64 \<Rightarrow> u64 \<Rightarrow> u64 \<Rightarrow> bool \<Rightarrow> vmem \<Rightarrow> (bool \<times> vmem) option" where
  "exit_inner pd0 d1start d0start endp free_pd0 s = do {
     (free_pd0, s) \<leftarrow>
       (let pde0 = mem s pd0 (PDX0 d0start) in
        if pde0 AND PTE_V \<noteq> 0
        then do {
          pt \<leftarrow> pa2page (PTE_ADDR pde0);
          if pt_unused pt s
          then do { s \<leftarrow> free_page pt s; Some (free_pd0, wr (pd0, PDX0 d0start) 0 s) }
          else Some (free_pd0, s) }
        else Some (False, s));
     let d0start = d0start + PTSIZE;
     if d0start \<noteq> 0 \<and> d0start < d1start + PDSIZE \<and> d0start < endp
     then exit_inner pd0 d1start d0start endp free_pd0 s else Some (free_pd0, s) }"

declare exit_inner.simps [code]

partial_function (option) exit_loop :: "nat \<Rightarrow> u64 \<Rightarrow> u64 \<Rightarrow> u64 \<Rightarrow> vmem \<Rightarrow> vmem option" where
  "exit_loop pgdir d1start d0start endp s = do {
     s \<leftarrow>
       (let pde1 = mem s pgdir (PDX1 d1start) in
        if pde1 AND PTE_V \<noteq> 0
        then do {
          pd0 \<leftarrow> pa2page (PTE_ADDR pde1);
          (free_pd0, s) \<leftarrow> exit_inner pd0 d1start d0start endp True s;
          if free_pd0
          then do { s \<leftarrow> free_page pd0 s; Some (wr (pgdir, PDX1 d1start) 0 s) }
          else Some s }
        else Some s);
     let d1start = d1start + PDSIZE;
     if d1start \<noteq> 0 \<and> d1start < endp then exit_loop pgdir d1start d1start endp s else Some s }"

declare exit_loop.simps [code]

definition exit_range :: "nat \<Rightarrow> u64 \<Rightarrow> u64 \<Rightarrow> vmem \<Rightarrow> vmem option" where
  "exit_range pgdir start endp s =
     (if start mod PGSIZE = 0 \<and> endp mod PGSIZE = 0 \<and> USER_ACCESS start endp
      then exit_loop pgdir (ROUNDDOWN start PDSIZE) (ROUNDDOWN start PTSIZE) endp s else None)"

text \<open>\<open>copy_range\<close>; running out of memory for the copy fails an assertion.\<close>

partial_function (option) copy_loop :: "nat \<Rightarrow> nat \<Rightarrow> u64 \<Rightarrow> u64 \<Rightarrow> vmem \<Rightarrow> (errno option \<times> vmem) option" where
  "copy_loop to from start endp s = do {
     (r, s) \<leftarrow> get_pte from start False s;
     (e, start, s) \<leftarrow>
       (case r of
          None \<Rightarrow> Some (None, ROUNDDOWN (start + PTSIZE) PTSIZE, s)
        | Some ptep \<Rightarrow>
            if rd s ptep AND PTE_V \<noteq> 0
            then do {
              (n, s) \<leftarrow> get_pte to start True s;
              if n = None then Some (Some E_NO_MEM, start, s)
              else do {
                let perm = ucast (rd s ptep AND PTE_USER);
                page \<leftarrow> pte2page (rd s ptep);
                (r, s) \<leftarrow> alloc_page s;
                npg \<leftarrow> r;
                let s = fill_page npg (mem s page) s;
                (e, s) \<leftarrow> page_insert to npg start perm s;
                if e = None then Some (None, start + PGSIZE, s) else None } }
            else Some (None, start + PGSIZE, s));
     if e \<noteq> None then Some (e, s)
     else if start \<noteq> 0 \<and> start < endp then copy_loop to from start endp s
     else Some (None, s) }"

declare copy_loop.simps [code]

definition copy_range :: "nat \<Rightarrow> nat \<Rightarrow> u64 \<Rightarrow> u64 \<Rightarrow> vmem \<Rightarrow> (errno option \<times> vmem) option" where
  "copy_range to from start endp s =
     (if start mod PGSIZE = 0 \<and> endp mod PGSIZE = 0 \<and> USER_ACCESS start endp
      then copy_loop to from start endp s else None)"

end
