(* ===== verification/Page_Table_Facts.thy ===== *)
theory Page_Table_Facts
  imports Page_Table
begin

text \<open>
  What the page-table operations keep: the tables of a set of page directories form trees that
  share no page with each other, with the mapped pages or with the free list, and the reference
  count of every other page is the number of entries that map it.
\<close>

section \<open>Entries\<close>

definition NPG :: nat where "NPG = npage - nbase"

lemma bit_small: "unat w < 2 ^ k \<Longrightarrow> k \<le> n \<Longrightarrow> \<not> bit w n" for w :: "'a::len word"
proof -
  assume w: "unat w < 2 ^ k" "k \<le> n"
  have "(2::nat) ^ k \<le> 2 ^ n" using w(2) by (rule power_increasing) simp
  with w(1) have "unat w div 2 ^ n = 0" by (simp only: div_less less_le_trans)
  then have "\<not> bit (unat w) n" by (simp only: bit_iff_odd) simp
  then show "\<not> bit w n" by (simp add: bit_unsigned_iff possible_bit_def)
qed

lemma bit_scast_small:
  fixes t :: u32
  assumes "unat t < 1024" "10 \<le> n"
  shows "\<not> bit (scast t :: u64) n"
  using assms bit_small [of t 10] by (simp add: bit_signed_iff min_def)

lemma bit_3FF: "bit (0x3FF :: u64) n \<longleftrightarrow> n < 10"
proof -
  have m: "(0x3FF :: u64) = mask 10" by (simp add: mask_eq_exp_minus_1)
  show ?thesis unfolding m by (auto simp add: bit_mask_iff simp del: mask_numeral)
qed

lemma bit_PTE_ADDR: "bit (PTE_ADDR x) n \<longleftrightarrow> n < 64 \<and> 12 \<le> n \<and> bit x (n - 2)"
  unfolding PTE_ADDR_def bit_push_bit_iff bit_and_iff bit_not_iff bit_3FF possible_bit_word
  by (auto dest: bit_imp_le_length)

lemma bit_pte_create:
  "unat t < 1024 \<Longrightarrow> 10 \<le> n \<Longrightarrow> n < 64 \<Longrightarrow> bit (pte_create p t) n \<longleftrightarrow> bit p (n - 10)"
  using bit_scast_small [of t n]
  by (simp add: pte_create_def bit_push_bit_iff bit_or_iff PTE_V_def bit_1_iff)

lemma drop_PTE_ADDR:
  assumes "unat p < 1048576" "unat t < 1024"
  shows "drop_bit 12 (PTE_ADDR (pte_create p t)) = p"
proof (rule bit_word_eqI)
  fix n assume "n < LENGTH(64)"
  then have n: "n < 64" by simp
  show "bit (drop_bit 12 (PTE_ADDR (pte_create p t))) n = bit p n"
  proof (cases "n < 20")
    case True
    then show ?thesis by (simp add: bit_drop_bit_eq bit_PTE_ADDR bit_pte_create assms(2))
  next
    case False
    then have "\<not> bit p n" using bit_small [of p 20 n] assms(1) by simp
    then show ?thesis by (auto simp add: bit_drop_bit_eq bit_PTE_ADDR bit_pte_create assms(2))
  qed
qed

lemma unat_page2ppn: "i < NPG \<Longrightarrow> unat (page2ppn i) = i + nbase"
proof -
  assume "i < NPG"
  then have "i + nbase < 2 ^ 64" by (simp add: NPG_def npage_def nbase_def)
  then show ?thesis unfolding page2ppn_def unat_of_nat by (simp add: take_bit_nat_eq_self)
qed

lemma page2ppn_bound: "i < NPG \<Longrightarrow> unat (page2ppn i) < 1048576"
  by (simp add: unat_page2ppn) (simp add: NPG_def npage_def nbase_def)

lemma pa2page_drop: "drop_bit 12 pa = page2ppn i \<Longrightarrow> i < NPG \<Longrightarrow> pa2page pa = Some i"
  by (simp add: pa2page_def unat_page2ppn Let_def) (simp add: NPG_def)

lemma pa2page_pte [simp]:
  "i < NPG \<Longrightarrow> unat t < 1024 \<Longrightarrow> pa2page (PTE_ADDR (pte_create (page2ppn i) t)) = Some i"
  by (rule pa2page_drop) (simp_all add: drop_PTE_ADDR page2ppn_bound)

lemma KADDR_page2pa [simp]: "i < NPG \<Longrightarrow> KADDR (page2pa i) = Some i"
  unfolding KADDR_def
proof (rule pa2page_drop)
  assume i: "i < NPG"
  have b: "\<not> bit (page2ppn i) n" if "20 \<le> n" for n by (rule bit_small [where k = 20]) (use page2ppn_bound [OF i] that in simp_all)
  show "drop_bit 12 (page2pa i) = page2ppn i"
  proof (rule bit_word_eqI)
    fix n
    show "bit (drop_bit 12 (page2pa i)) n = bit (page2ppn i) n"
    proof (cases "n < 20")
      case False
      with b [of n] show ?thesis by (simp add: page2pa_def bit_drop_bit_eq bit_push_bit_iff)
    qed (simp add: page2pa_def bit_drop_bit_eq bit_push_bit_iff)
  qed
qed

lemma PTE_V_pte [simp]: "pte_create p t AND PTE_V \<noteq> 0"
proof -
  have "bit (pte_create p t AND PTE_V) 0" by (simp add: pte_create_def PTE_V_def bit_simps)
  then show ?thesis by (metis bit_0_eq bot_apply bot_bool_def)
qed

lemma pa2page_less: "pa2page pa = Some p \<Longrightarrow> p < NPG"
  by (auto simp: pa2page_def NPG_def Let_def split: if_splits)

section \<open>The page allocator underneath\<close>

lemma alloc_page_ok:
  assumes inv: "fl_inv (fa s) xs" and ne: "free_frames (fa s) xs \<noteq> {}"
  obtains p f xs' where "alloc_page s = Some (Some p, s\<lparr>fa := f\<rparr>)" "fl_inv f xs'"
    "p \<in> free_frames (fa s) xs" "free_frames f xs' = free_frames (fa s) xs - {p}"
    "\<And>i. pg_ref (pages f i) = pg_ref (pages (fa s) i)"
    "\<And>i. PageReserved (pages f i) = PageReserved (pages (fa s) i)"
proof -
  from ne obtain x xs0 where xs: "xs = x # xs0" by (cases xs) (auto simp: free_frames_def)
  then have x: "x \<in> set xs" "1 \<le> pg_property (pages (fa s) x)" using fl_inv_pos [OF inv, of x] by auto
  have nf: "\<not> nr_free (fa s) < 1"
    using fl_inv_card [OF inv] free_frames_finite [of "fa s" xs] ne by (metis card_gt_0_iff less_one not_gr0)
  have "find (\<lambda>y. 1 \<le> pg_property (pages (fa s) y)) xs = Some x" using x xs by simp
  with default_alloc_eq [OF inv, of 1] nf
  have al: "default_alloc_pages 1 (fa s) = Some (Some x, take_block x 1 (fa s))" by simp
  from take_block_ok [OF inv x(1) _ x(2)] obtain xs' where "fl_inv (take_block x 1 (fa s)) xs'"
    "x \<in> free_frames (fa s) xs" "free_frames (take_block x 1 (fa s)) xs' = free_frames (fa s) xs - {x}" by auto
  with al show ?thesis using that [of x "take_block x 1 (fa s)" xs'] by (simp add: alloc_page_def)
qed

lemma alloc_page_empty:
  assumes inv: "fl_inv (fa s) xs" and e: "free_frames (fa s) xs = {}"
  shows "alloc_page s = (if swap_init_ok s then None else Some (None, s))"
proof -
  have "nr_free (fa s) < 1" using fl_inv_card [OF inv] e by simp
  with default_alloc_eq [OF inv, of 1] show ?thesis by (simp add: alloc_page_def)
qed

lemma default_free_1:
  assumes inv: "fl_inv f xs" and q: "q \<notin> free_frames f xs" "\<not> PageReserved (pages f q)"
    and above: "xs = [] \<or> (\<exists>x \<in> set xs. q < x)"
  obtains f' xs' where "default_free_pages q 1 f = Some f'" "fl_inv f' xs'"
    "free_frames f' xs' = insert q (free_frames f xs)"
    "\<And>i. i \<noteq> q \<Longrightarrow> pg_ref (pages f' i) = pg_ref (pages f i)"
    "\<And>i. i \<noteq> q \<Longrightarrow> PageReserved (pages f' i) = PageReserved (pages f i)"
proof -
  have rng: "\<forall>i \<in> {q..<q + 1}. i \<notin> free_frames f xs \<and> \<not> PageReserved (pages f i)" using q by simp
  from free_code_ok [OF inv _ rng above] obtain s1 lk b s6 xs' where
    r: "clear_pages q 1 f = Some s1" "insert_block q (flinks s1) = Some lk"
    "merge_prev q ((upd_page q SetPageProperty (upd_page q (\<lambda>d. d\<lparr>pg_property := 1\<rparr>) s1))
          \<lparr>nr_free := nr_free s1 + 1, flinks := lk\<rparr>) = (b, s6)"
    "fl_inv (merge_next b s6) xs'"
    "free_frames (merge_next b s6) xs' = free_frames f xs \<union> {q..<q + 1}" by auto
  have d: "default_free_pages q 1 f = Some (merge_next b s6)"
    using r(1-3) by (simp add: default_free_pages_def page_simps Let_def)
  have m1: "pg_ref (pages s6 i) = pg_ref (pages s1 i) \<and> PageReserved (pages s6 i) = PageReserved (pages s1 i)" for i
    using r(3) by (auto simp: merge_prev_def Let_def page_simps split: if_splits)
  have m2: "pg_ref (pages (merge_next b s6) i) = pg_ref (pages s6 i)
      \<and> PageReserved (pages (merge_next b s6) i) = PageReserved (pages s6 i)" for i
    by (auto simp: merge_next_def Let_def page_simps)
  have m3: "pages s1 i = pages f i" if "i \<noteq> q" for i
    using r(1) that by (auto simp: page_simps split: if_splits)
  show ?thesis using that [OF d r(4)] r(5) m1 m2 m3 by auto
qed

lemma fl_inv_set_ref:
  assumes "fl_inv f xs" "p \<notin> free_frames f xs"
  shows "fl_inv (upd_page p (\<lambda>d. d\<lparr>pg_ref := r\<rparr>) f) xs"
    and "free_frames (upd_page p (\<lambda>d. d\<lparr>pg_ref := r\<rparr>) f) xs = free_frames f xs"
proof -
  let ?f = "upd_page p (\<lambda>d. d\<lparr>pg_ref := r\<rparr>) f"
  have pp: "pg_property (pages ?f i) = pg_property (pages f i)" for i by (simp add: page_simps)
  have be: "bend ?f i = bend f i" for i by (simp add: bend_def pp)
  show "free_frames ?f xs = free_frames f xs" by (simp add: free_frames_def be)
  show "fl_inv ?f xs"
  proof (rule fl_invI)
    show "dl (flinks ?f) FreeList (map PgLink xs)" using fl_inv_dl [OF assms(1)] by (simp add: page_simps)
    show "fl_ordered ?f xs" using fl_inv_ordered [OF assms(1)] fl_ordered_cong [of xs f ?f] pp by simp
    show "0 < pg_property (pages ?f x)" if "x \<in> set xs" for x using fl_inv_pos [OF assms(1) that] by (simp add: pp)
    show "\<not> PageReserved (pages ?f i) \<and> pg_ref (pages ?f i) = 0" if "x \<in> set xs" "x \<le> i" "i < bend ?f x" for x i
    proof -
      have "i \<in> free_frames f xs" using that by (auto simp: free_frames_def be)
      then have "i \<noteq> p" using assms(2) by auto
      with fl_inv_frames [OF assms(1) that(1,2)] that(3) show ?thesis by (simp add: be page_simps)
    qed
    show "PageProperty (pages ?f i) \<longleftrightarrow> i \<in> set xs" for i
      using fl_inv_property [OF assms(1), of i] by (auto simp: page_simps)
    show "nr_free ?f = (\<Sum>x\<leftarrow>xs. pg_property (pages ?f x))"
      unfolding pp using fl_inv_nr_free [OF assms(1)] by (simp add: page_simps)
  qed
qed

end
