(* ===== verification/Page_Table_Inv.thy ===== *)
theory Page_Table_Inv
  imports Page_Table_Facts
begin

text \<open>
  The invariant \<open>pt_ok\<close> of the page tables under a set \<open>R\<close> of page directories, and its
  preservation by \<open>get_pte\<close>. Only the entries of user addresses are considered: the first two
  entries of a page directory cover everything below \<open>USERTOP\<close>.
\<close>

section \<open>The trees\<close>

definition sub :: "vmem \<Rightarrow> nat \<Rightarrow> nat \<Rightarrow> nat option" where
  "sub s a i = (if mem s a i AND PTE_V = 0 then None else pa2page (PTE_ADDR (mem s a i)))"

definition dirs :: "vmem \<Rightarrow> nat set \<Rightarrow> nat set" where
  "dirs s R = {p. \<exists>r \<in> R. \<exists>i < 2. sub s r i = Some p}"

definition pts :: "vmem \<Rightarrow> nat set \<Rightarrow> nat set" where
  "pts s R = {p. \<exists>a \<in> dirs s R. \<exists>i < 512. sub s a i = Some p}"

definition slots :: "vmem \<Rightarrow> nat set \<Rightarrow> (nat \<times> nat) set" where
  "slots s R = R \<times> {..<2} \<union> dirs s R \<times> {..<512}"

definition tables :: "vmem \<Rightarrow> nat set \<Rightarrow> nat set" where
  "tables s R = R \<union> dirs s R \<union> pts s R"

definition maps :: "vmem \<Rightarrow> nat set \<Rightarrow> nat \<Rightarrow> (nat \<times> nat) set" where
  "maps s R q = {e \<in> pts s R \<times> {..<512}. sub s (fst e) (snd e) = Some q}"

text \<open>The entry that maps an address, 0 where a table is missing.\<close>

definition pt_of :: "vmem \<Rightarrow> nat \<Rightarrow> u64 \<Rightarrow> nat option" where
  "pt_of s r la = Option.bind (sub s r (PDX1 la)) (\<lambda>a. sub s a (PDX0 la))"

definition leaf :: "vmem \<Rightarrow> nat \<Rightarrow> u64 \<Rightarrow> u64" where
  "leaf s r la = (case pt_of s r la of None \<Rightarrow> 0 | Some b \<Rightarrow> mem s b (PTX la))"

text \<open>\<open>tree_ok\<close> is the shape of the trees, \<open>pt_ok\<close> adds the mapped pages and their counts.\<close>

definition tree_ok :: "nat set \<Rightarrow> vmem \<Rightarrow> nat list \<Rightarrow> bool" where
  "tree_ok R s xs \<longleftrightarrow> fl_inv (fa s) xs \<and> (\<forall>q \<in> free_frames (fa s) xs. q < NPG)
     \<and> (\<forall>a i. (a, i) \<in> slots s R \<longrightarrow> mem s a i AND PTE_V \<noteq> 0 \<longrightarrow> sub s a i \<noteq> None)
     \<and> (\<forall>a i b j p. (a, i) \<in> slots s R \<longrightarrow> (b, j) \<in> slots s R \<longrightarrow>
          sub s a i = Some p \<longrightarrow> sub s b j = Some p \<longrightarrow> a = b \<and> i = j)
     \<and> (\<forall>a i p. (a, i) \<in> slots s R \<longrightarrow> sub s a i = Some p \<longrightarrow> p \<notin> R)
     \<and> tables s R \<inter> free_frames (fa s) xs = {}"

definition leaves_ok :: "nat set \<Rightarrow> vmem \<Rightarrow> nat list \<Rightarrow> bool" where
  "leaves_ok R s xs \<longleftrightarrow>
     (\<forall>b \<in> pts s R. \<forall>i < 512. mem s b i AND PTE_V \<noteq> 0 \<longrightarrow>
        (\<exists>q. sub s b i = Some q \<and> q \<notin> tables s R \<and> q \<notin> free_frames (fa s) xs \<and> \<not> PageReserved (pages (fa s) q)))"

definition counts_ok :: "nat set \<Rightarrow> vmem \<Rightarrow> bool" where
  "counts_ok R s \<longleftrightarrow> (\<forall>q. q \<notin> tables s R \<longrightarrow> page_ref q s = int (card (maps s R q)))"

definition pt_ok :: "nat set \<Rightarrow> vmem \<Rightarrow> nat list \<Rightarrow> bool" where
  "pt_ok R s xs \<longleftrightarrow> tree_ok R s xs \<and> leaves_ok R s xs \<and> counts_ok R s"

lemma index_bounds: "PDX1 la < 512" "PDX0 la < 512" "PTX la < 512"
proof -
  have "unat (w AND 0x1FF) < 512" for w :: u64
  proof -
    have "(0x1FF :: u64) = mask 9" by (simp add: mask_eq_exp_minus_1)
    then have "w AND 0x1FF = take_bit 9 w" by (simp add: take_bit_eq_mask)
    then have "unat (w AND 0x1FF) = take_bit 9 (unat w)" by (simp only: unsigned_take_bit_eq)
    also have "\<dots> < 2 ^ 9" by (rule take_bit_nat_less_exp)
    finally show ?thesis by simp
  qed
  then show "PDX1 la < 512" "PDX0 la < 512" "PTX la < 512" by (simp_all only: PDX1_def PDX0_def PTX_def)
qed

lemma PDX1_user: "la < USERTOP \<Longrightarrow> PDX1 la < 2"
proof -
  assume la: "la < USERTOP"
  then have "unat la < 0x80000000" by (simp add: USERTOP_def word_less_nat_alt)
  then have "unat (la div 2 ^ 30) < 2" by (simp add: unat_div less_mult_imp_div_less)
  then have "unat (drop_bit 30 la) < 2" by (simp only: drop_bit_eq_div)
  moreover have "unat (w AND 0x1FF) \<le> unat w" for w :: u64
  proof -
    have "(0x1FF :: u64) = mask 9" by (simp add: mask_eq_exp_minus_1)
    then have "w AND 0x1FF = take_bit 9 w" by (simp add: take_bit_eq_mask)
    then show ?thesis by (simp add: unsigned_take_bit_eq)
  qed
  ultimately show ?thesis unfolding PDX1_def by (metis le_less_trans)
qed

section \<open>Disjointness\<close>

lemma tree_inj:
  assumes "tree_ok R s xs" "(a, i) \<in> slots s R" "(b, j) \<in> slots s R" "sub s a i = Some p" "sub s b j = Some p"
  shows "a = b \<and> i = j"
  using assms unfolding tree_ok_def by blast

lemma tree_not_root:
  assumes "tree_ok R s xs" "(a, i) \<in> slots s R" "sub s a i = Some p"
  shows "p \<notin> R"
  using assms unfolding tree_ok_def by blast

lemma tree_res:
  assumes "tree_ok R s xs" "(a, i) \<in> slots s R" "mem s a i AND PTE_V \<noteq> 0"
  shows "\<exists>p. sub s a i = Some p"
  using assms unfolding tree_ok_def by blast

lemma slots_root: "r \<in> R \<Longrightarrow> i < 2 \<Longrightarrow> (r, i) \<in> slots s R"
  and slots_dir: "a \<in> dirs s R \<Longrightarrow> i < 512 \<Longrightarrow> (a, i) \<in> slots s R"
  by (auto simp: slots_def)

lemma sub_dirs: "r \<in> R \<Longrightarrow> i < 2 \<Longrightarrow> sub s r i = Some q \<Longrightarrow> q \<in> dirs s R"
  and sub_pts: "a \<in> dirs s R \<Longrightarrow> j < 512 \<Longrightarrow> sub s a j = Some q \<Longrightarrow> q \<in> pts s R"
  unfolding dirs_def pts_def by blast+

lemma slot_target: "(a, i) \<in> slots s R \<Longrightarrow> sub s a i = Some q \<Longrightarrow> q \<in> tables s R"
  using sub_dirs sub_pts unfolding slots_def tables_def by blast

lemma tree_disjoint:
  assumes "tree_ok R s xs"
  shows "R \<inter> dirs s R = {}" "R \<inter> pts s R = {}" "dirs s R \<inter> pts s R = {}"
proof -
  show 1: "R \<inter> dirs s R = {}"
    using tree_not_root [OF assms slots_root] by (fastforce simp: dirs_def)
  show "R \<inter> pts s R = {}"
    using tree_not_root [OF assms slots_dir] by (fastforce simp: pts_def)
  show "dirs s R \<inter> pts s R = {}"
  proof (rule ccontr)
    assume "dirs s R \<inter> pts s R \<noteq> {}"
    then obtain p where p: "p \<in> dirs s R" "p \<in> pts s R" by auto
    then obtain r i where r: "r \<in> R" "i < 2" "sub s r i = Some p" by (auto simp: dirs_def)
    from p obtain a j where a: "a \<in> dirs s R" "j < 512" "sub s a j = Some p" by (auto simp: pts_def)
    from tree_inj [OF assms slots_root [OF r(1,2)] slots_dir [OF a(1,2)] r(3) a(3)] have "r = a" by simp
    with r(1) a(1) 1 show False by auto
  qed
qed

lemma sub_less: "sub s a i = Some p \<Longrightarrow> p < NPG"
  by (auto simp: sub_def dest: pa2page_less split: if_splits)

lemma finite_pts: "finite (pts s R)"
  by (rule finite_subset [of _ "{..<NPG}"]) (auto simp: pts_def dest: sub_less)

lemma finite_maps: "finite (maps s R q)"
  unfolding maps_def by (rule finite_subset [of _ "pts s R \<times> {..<512}"]) (auto simp: finite_pts)

lemma sub_unused: "mem s a i AND PTE_V = 0 \<longleftrightarrow> sub s a i = None"
  if "tree_ok R s xs" "(a, i) \<in> slots s R"
  using tree_res [OF that] by (auto simp: sub_def)

section \<open>Filling a directory entry\<close>

definition new_table :: "pteptr \<Rightarrow> nat \<Rightarrow> free_area \<Rightarrow> vmem \<Rightarrow> vmem" where
  "new_table e p f s = wr e (pte_create (page2ppn p) (ucast (PTE_U OR PTE_V)))
     (fill_page p (\<lambda>_. 0) (set_page_ref p 1 (s\<lparr>fa := f\<rparr>)))"

lemma new_table_sel:
  "fa (new_table e p f s) = upd_page p (\<lambda>d. d\<lparr>pg_ref := 1\<rparr>) f"
  "swap_init_ok (new_table e p f s) = swap_init_ok s"
  "a \<noteq> p \<Longrightarrow> (a, i) \<noteq> e \<Longrightarrow> mem (new_table e p f s) a i = mem s a i"
  "fst e \<noteq> p \<Longrightarrow> mem (new_table e p f s) p i = 0"
  by (cases e, auto simp: new_table_def wr_def fill_page_def set_page_ref_def)+

lemma sub_new_table:
  assumes "p < NPG" "fst e \<noteq> p"
  shows "sub (new_table e p f s) a i = (if (a, i) = e then Some p else if a = p then None else sub s a i)"
proof -
  have t: "unat (ucast (PTE_U OR PTE_V) :: u32) < 1024" by (simp add: PTE_U_def PTE_V_def)
  show ?thesis
    by (cases e) (use assms pa2page_pte [OF assms(1) t] in
        \<open>auto simp: sub_def new_table_def wr_def fill_page_def set_page_ref_def\<close>)
qed

lemma pde_table_eq:
  "sub s a i = Some p \<Longrightarrow> pde_table (a, i) c s = Some (Some p, s)"
  "mem s a i AND PTE_V = 0 \<Longrightarrow> pde_table (a, i) False s = Some (None, s)"
  "mem s a i AND PTE_V = 0 \<Longrightarrow> alloc_page s = Some (None, s) \<Longrightarrow> pde_table (a, i) True s = Some (None, s)"
  by (auto simp: pde_table_def sub_def KADDR_def split: if_splits)

lemma pde_table_new:
  assumes "mem s a i AND PTE_V = 0" "alloc_page s = Some (Some p, s\<lparr>fa := f\<rparr>)" "p < NPG" "a \<noteq> p"
  shows "pde_table (a, i) True s = Some (Some p, new_table (a, i) p f s)"
proof -
  have "sub (new_table (a, i) p f s) a i = Some p" by (simp add: sub_new_table assms)
  then have "KADDR (PTE_ADDR (mem (new_table (a, i) p f s) a i)) = Some p"
    by (simp add: sub_def KADDR_def split: if_splits)
  with assms show ?thesis by (simp add: pde_table_def new_table_def [symmetric])
qed

text \<open>The trees after a fresh page became a table.\<close>

lemma filled_sets:
  fixes f :: free_area
  assumes ok: "tree_ok R s xs" and e: "(a, i) \<in> slots s R" and none: "sub s a i = None"
    and p: "p \<in> free_frames (fa s) xs"
  defines "s' \<equiv> new_table (a, i) p f s"
  shows "dirs s' R = (if a \<in> R then insert p (dirs s R) else dirs s R)"
    and "pts s' R = (if a \<in> R then pts s R else insert p (pts s R))"
    and "p \<notin> tables s R" "p < NPG"
    and "\<And>b j. sub s' b j = (if (b, j) = (a, i) then Some p else if b = p then None else sub s b j)"
proof -
  show pN: "p < NPG" and pt: "p \<notin> tables s R" using ok p by (auto simp: tree_ok_def)
  have ap: "a \<noteq> p" using e pt by (auto simp: slots_def tables_def)
  show sb: "sub s' b j = (if (b, j) = (a, i) then Some p else if b = p then None else sub s b j)" for b j
    using sub_new_table [OF pN, of "(a, i)"] ap by (simp add: s'_def)
  have aR: "a \<in> R \<and> i < 2 \<and> a \<notin> dirs s R \<or> a \<notin> R \<and> a \<in> dirs s R \<and> i < 512"
    using e tree_disjoint(1) [OF ok] by (auto simp: slots_def)
  have pn: "p \<notin> R" "p \<notin> dirs s R" using pt by (auto simp: tables_def)
  have img: "(\<exists>r \<in> A. \<exists>j < n. sub s' r j = Some x) \<longleftrightarrow> a \<in> A \<and> i < n \<and> x = p \<or> (\<exists>r \<in> A. \<exists>j < n. sub s r j = Some x)"
    if "p \<notin> A" for A n x
  proof
    assume "a \<in> A \<and> i < n \<and> x = p \<or> (\<exists>r \<in> A. \<exists>j < n. sub s r j = Some x)"
    then show "\<exists>r \<in> A. \<exists>j < n. sub s' r j = Some x"
    proof
      assume "\<exists>r \<in> A. \<exists>j < n. sub s r j = Some x"
      then obtain r j where r: "r \<in> A" "j < n" "sub s r j = Some x" by auto
      then have "sub s' r j = Some x" using none that by (auto simp: sb)
      with r show ?thesis by auto
    qed (auto simp: sb)
  qed (auto simp: sb split: if_splits)
  show d: "dirs s' R = (if a \<in> R then insert p (dirs s R) else dirs s R)"
    using aR unfolding dirs_def img [OF pn(1)] by auto
  show "pts s' R = (if a \<in> R then pts s R else insert p (pts s R))"
  proof (cases "a \<in> R")
    case True
    have np: "sub s' p j = None" for j using ap by (simp add: sb)
    from True aR pn d show ?thesis
      unfolding pts_def using img [OF pn(2)] np by auto
  next
    case False
    then have "dirs s' R = dirs s R" using d by simp
    with False aR show ?thesis unfolding pts_def using img [OF pn(2)] by auto
  qed
qed

lemma filled_tree:
  assumes ok: "tree_ok R s xs" and e: "(a, i) \<in> slots s R" and none: "sub s a i = None"
    and p: "p \<in> free_frames (fa s) xs"
    and f: "fl_inv f xs'" "free_frames f xs' = free_frames (fa s) xs - {p}"
  shows "tree_ok R (new_table (a, i) p f s) xs'"
proof -
  let ?s = "new_table (a, i) p f s"
  note S = filled_sets(1,2) [OF ok e none p, where f = f] filled_sets(3,4) [OF ok e none p]
    filled_sets(5) [OF ok e none p, where f = f]
  have tb: "tables ?s R = insert p (tables s R)" using S(1,2) by (auto simp: tables_def)
  have sl: "slots ?s R = slots s R \<union> (if a \<in> R then {p} \<times> {..<512} else {})"
    using S(1) by (auto simp: slots_def)
  have pnf: "p \<notin> free_frames f xs'" using f(2) by simp
  have fl: "fl_inv (fa ?s) xs'" "free_frames (fa ?s) xs' = free_frames (fa s) xs - {p}"
    using fl_inv_set_ref [OF f(1) pnf, of 1] f(2) by (simp_all add: new_table_sel)
  have pns: "p \<noteq> a" using e S(3) by (auto simp: slots_def tables_def)
  have zero: "mem ?s p j = 0" for j using new_table_sel(4) [of "(a, i)" p] pns by simp
  have slot: "(b, j) \<in> slots s R \<or> sub ?s b j = None \<and> mem ?s b j = 0" if "(b, j) \<in> slots ?s R" for b j
    using that zero pns unfolding sl by (auto simp: S(5) split: if_splits)
  have old: "b \<noteq> p" if "(b, j) \<in> slots s R" for b j
    using that S(3) by (auto simp: slots_def tables_def)
  have ran: "q \<in> tables s R" if "(b, j) \<in> slots s R" "sub s b j = Some q" for b j q
    using slot_target [OF that] .
  show ?thesis
    unfolding tree_ok_def
  proof (intro conjI allI impI ballI)
    show "fl_inv (fa ?s) xs'" by (rule fl(1))
    show "q < NPG" if "q \<in> free_frames (fa ?s) xs'" for q
      using that ok unfolding fl(2) by (auto simp: tree_ok_def)
    show "sub ?s b j \<noteq> None" if "(b, j) \<in> slots ?s R" "mem ?s b j AND PTE_V \<noteq> 0" for b j
    proof (cases "(b, j) = (a, i)")
      case False
      from slot [OF that(1)] that(2) have b: "(b, j) \<in> slots s R" by auto
      then have "mem ?s b j = mem s b j" using new_table_sel(3) [of b p j "(a, i)"] False old by auto
      with tree_res [OF ok b] that(2) old [OF b] False show ?thesis by (auto simp: S(5))
    qed (simp add: S(5))
    show "q \<notin> R" if "(b, j) \<in> slots ?s R" "sub ?s b j = Some q" for b j q
    proof (cases "(b, j) = (a, i)")
      case True
      with that(2) S(3) show ?thesis by (auto simp: S(5) tables_def)
    next
      case False
      with that slot [OF that(1)] tree_not_root [OF ok, of b j q] show ?thesis by (auto simp: S(5) split: if_splits)
    qed
    show "tables ?s R \<inter> free_frames (fa ?s) xs' = {}"
      using ok unfolding tb fl(2) by (auto simp: tree_ok_def)
    fix b j c k q
    assume A: "(b, j) \<in> slots ?s R" "(c, k) \<in> slots ?s R" "sub ?s b j = Some q" "sub ?s c k = Some q"
    from A(1,3) A(2,4) slot have B: "(b, j) \<in> slots s R" "(c, k) \<in> slots s R" by fastforce+
    have "(b, j) = (c, k)"
    proof (cases "(b, j) = (a, i) \<or> (c, k) = (a, i)")
      case True
      with A(3,4) have "q = p" by (auto simp: S(5))
      with True A(3,4) ran [OF B(1)] ran [OF B(2)] S(3) old [OF B(1)] old [OF B(2)] show ?thesis
        by (auto simp: S(5) split: if_splits)
    next
      case False
      with A(3,4) old [OF B(1)] old [OF B(2)] have "sub s b j = Some q" "sub s c k = Some q"
        by (auto simp: S(5) split: if_splits)
      from tree_inj [OF ok B this] show ?thesis by simp
    qed
    then show "b = c" "j = k" by simp_all
  qed
qed

lemma filled_rest:
  fixes f :: free_area
  assumes ok: "pt_ok R s xs" and e: "(a, i) \<in> slots s R" and none: "sub s a i = None"
    and p: "p \<in> free_frames (fa s) xs"
    and f: "fl_inv f xs'" "free_frames f xs' = free_frames (fa s) xs - {p}"
      "\<And>j. pg_ref (pages f j) = pg_ref (pages (fa s) j)"
      "\<And>j. PageReserved (pages f j) = PageReserved (pages (fa s) j)"
  defines "s' \<equiv> new_table (a, i) p f s"
  shows "pt_ok R s' xs'" "free_frames (fa s') xs' = free_frames (fa s) xs - {p}"
    and "tables s' R = insert p (tables s R)"
    and "q \<noteq> p \<Longrightarrow> page_ref q s' = page_ref q s"
    and "PageReserved (pages (fa s') q) = PageReserved (pages (fa s) q)"
    and "b \<notin> tables s' R \<Longrightarrow> mem s' b = mem s b"
    and "r \<in> R \<Longrightarrow> la < USERTOP \<Longrightarrow> leaf s' r la = leaf s r la"
proof -
  have tok: "tree_ok R s xs" and lok: "leaves_ok R s xs" and cok: "counts_ok R s" using ok by (simp_all add: pt_ok_def)
  note S = filled_sets(1,2) [OF tok e none p, where f = f, folded s'_def]
    filled_sets(3,4) [OF tok e none p] filled_sets(5) [OF tok e none p, where f = f, folded s'_def]
  show tb: "tables s' R = insert p (tables s R)" using S(1,2) by (auto simp: tables_def)
  have pnf: "p \<notin> free_frames f xs'" using f(2) by simp
  show fr: "free_frames (fa s') xs' = free_frames (fa s) xs - {p}"
    using fl_inv_set_ref [OF f(1) pnf, of 1] f(2) by (simp add: new_table_sel s'_def)
  have pa: "a \<noteq> p" "a \<in> tables s R" using e S(3) by (auto simp: slots_def tables_def)
  show ref: "page_ref q s' = page_ref q s" if "q \<noteq> p" for q
    using that f(3) by (simp add: page_ref_def s'_def new_table_sel page_simps)
  show res: "PageReserved (pages (fa s') q) = PageReserved (pages (fa s) q)" for q
    using f(4) by (simp add: s'_def new_table_sel page_simps)
  have zero: "mem s' p j = 0" for j using new_table_sel(4) [of "(a, i)" p] pa by (simp add: s'_def)
  have same: "mem s' b j = mem s b j" if "b \<noteq> p" "(b, j) \<noteq> (a, i)" for b j
    using new_table_sel(3) [OF that] by (simp add: s'_def)
  have abs: "a \<notin> pts s R" using e tree_disjoint(2,3) [OF tok] by (auto simp: slots_def)
  show "mem s' b = mem s b" if "b \<notin> tables s' R" for b
    by (rule ext) (use that tb pa in \<open>auto intro: same\<close>)
  have memp: "mem s' b j = mem s b j" if "b \<in> pts s R" for b j
    using that abs S(3) by (intro same) (auto simp: tables_def)
  have subp: "sub s' b j = sub s b j" if "b \<in> pts s R" for b j
    using memp [OF that] by (simp add: sub_def)
  have lok': "leaves_ok R s' xs'"
    unfolding leaves_ok_def
  proof (intro ballI allI impI)
    fix b j assume b: "b \<in> pts s' R" "j < 512" "mem s' b j AND PTE_V \<noteq> 0"
    then have bp: "b \<in> pts s R" using S(2) zero by (auto split: if_splits)
    then obtain q where "sub s b j = Some q" "q \<notin> tables s R" "q \<notin> free_frames (fa s) xs"
      "\<not> PageReserved (pages (fa s) q)"
      using lok b memp unfolding leaves_ok_def by metis
    then show "\<exists>q. sub s' b j = Some q \<and> q \<notin> tables s' R \<and> q \<notin> free_frames (fa s') xs' \<and> \<not> PageReserved (pages (fa s') q)"
      using p by (intro exI [of _ q]) (auto simp: subp [OF bp] tb fr res)
  qed
  have mp: "maps s' R q = maps s R q" for q
  proof -
    have "sub s' p j = None" for j using pa by (simp add: S(5))
    then show ?thesis unfolding maps_def S(2) using subp by auto
  qed
  have cok': "counts_ok R s'" using cok unfolding counts_ok_def mp tb by (auto simp: ref)
  show "pt_ok R s' xs'"
    unfolding pt_ok_def using filled_tree [OF tok e none p f(1,2)] lok' cok' by (simp add: s'_def)
  show "leaf s' r la = leaf s r la" if r: "r \<in> R" and la: "la < USERTOP" for r la
  proof (cases "sub s r (PDX1 la)")
    case None
    then show ?thesis using pa zero S(3) r by (auto simp: leaf_def pt_of_def S(5) tables_def)
  next
    case (Some d)
    then have d: "d \<in> dirs s R" using sub_dirs [OF r PDX1_user [OF la]] by simp
    have s1: "sub s' r (PDX1 la) = Some d" using Some none r S(3) by (auto simp: S(5) tables_def)
    show ?thesis
    proof (cases "sub s d (PDX0 la)")
      case None
      then show ?thesis using Some s1 zero d S(3) by (auto simp: leaf_def pt_of_def S(5) tables_def)
    next
      case (Some t)
      have t: "t \<in> pts s R" by (rule sub_pts [OF d index_bounds(2) Some])
      have "sub s' d (PDX0 la) = Some t" using Some none d S(3) by (auto simp: S(5) tables_def)
      with s1 \<open>sub s r (PDX1 la) = Some d\<close> Some memp [OF t] show ?thesis by (simp add: leaf_def pt_of_def)
    qed
  qed
qed

end
