(* ===== verification/Page_Table_Ops.thy ===== *)
theory Page_Table_Ops
  imports Page_Table_Inv
begin

text \<open>
  \<open>get_pte\<close>, \<open>page_insert\<close> and \<open>page_remove\<close> on page tables that satisfy \<open>pt_ok\<close>.
\<close>

section \<open>Growing the trees\<close>

text \<open>What \<open>get_pte\<close> may do: turn free pages into tables, and nothing else.\<close>

definition grown :: "nat set \<Rightarrow> vmem \<Rightarrow> nat list \<Rightarrow> vmem \<Rightarrow> nat list \<Rightarrow> bool" where
  "grown R s xs s' xs' \<longleftrightarrow> pt_ok R s' xs' \<and> swap_init_ok s' = swap_init_ok s
     \<and> tables s R \<subseteq> tables s' R \<and> tables s' R \<subseteq> tables s R \<union> free_frames (fa s) xs
     \<and> free_frames (fa s') xs' = free_frames (fa s) xs - tables s' R
     \<and> (\<forall>q. q \<notin> tables s' R \<longrightarrow> page_ref q s' = page_ref q s \<and> mem s' q = mem s q)
     \<and> (\<forall>q. PageReserved (pages (fa s') q) = PageReserved (pages (fa s) q))
     \<and> (\<forall>r \<in> R. \<forall>la. la < USERTOP \<longrightarrow> leaf s' r la = leaf s r la)"

lemma grown_refl: "pt_ok R s xs \<Longrightarrow> grown R s xs s xs"
  by (auto simp: grown_def pt_ok_def tree_ok_def)

lemma grownD:
  assumes "grown R s xs s' xs'"
  shows "pt_ok R s' xs'" "swap_init_ok s' = swap_init_ok s" "tables s R \<subseteq> tables s' R"
    and "tables s' R \<subseteq> tables s R \<union> free_frames (fa s) xs"
    and "free_frames (fa s') xs' = free_frames (fa s) xs - tables s' R"
    and "q \<notin> tables s' R \<Longrightarrow> page_ref q s' = page_ref q s"
    and "q \<notin> tables s' R \<Longrightarrow> mem s' q = mem s q"
    and "PageReserved (pages (fa s') q) = PageReserved (pages (fa s) q)"
    and "r \<in> R \<Longrightarrow> la < USERTOP \<Longrightarrow> leaf s' r la = leaf s r la"
  using assms unfolding grown_def by simp_all

lemma grown_trans:
  assumes 1: "grown R s xs s1 ys" and 2: "grown R s1 ys s2 zs"
  shows "grown R s xs s2 zs"
  unfolding grown_def
proof (intro conjI allI impI ballI)
  note d1 = grownD [OF 1] and d2 = grownD [OF 2]
  show "pt_ok R s2 zs" "swap_init_ok s2 = swap_init_ok s" using d1(2) d2(1,2) by simp_all
  show "tables s R \<subseteq> tables s2 R" using d1(3) d2(3) by (rule subset_trans)
  show "tables s2 R \<subseteq> tables s R \<union> free_frames (fa s) xs" using d2(4) d1(4,5) by blast
  show "free_frames (fa s2) zs = free_frames (fa s) xs - tables s2 R" using d2(5,3) d1(5) by blast
  show "page_ref q s2 = page_ref q s" "mem s2 q = mem s q" if "q \<notin> tables s2 R" for q
  proof -
    have "q \<notin> tables s1 R" using that d2(3) by blast
    then show "page_ref q s2 = page_ref q s" "mem s2 q = mem s q"
      using d1(6,7) d2(6,7) [OF that] by simp_all
  qed
  show "PageReserved (pages (fa s2) q) = PageReserved (pages (fa s) q)" for q using d1(8) d2(8) by simp
  show "leaf s2 r la = leaf s r la" if "r \<in> R" "la < USERTOP" for r la
    using d1(9) [OF that] d2(9) [OF that] by simp
qed

lemma new_swap [simp]: "swap_init_ok (new_table e p f s) = swap_init_ok s"
  by (rule new_table_sel)

lemma pde_table_ok:
  assumes ok: "pt_ok R s xs" and e: "(a, i) \<in> slots s R"
    and sw: "swap_init_ok s \<longrightarrow> free_frames (fa s) xs \<noteq> {}"
  obtains (full) "pde_table (a, i) True s = Some (None, s)" "free_frames (fa s) xs = {}"
  | (table) t s' xs' where "pde_table (a, i) True s = Some (Some t, s')" "grown R s xs s' xs'" "sub s' a i = Some t"
      "card (free_frames (fa s) xs) \<le> card (free_frames (fa s') xs') + 1"
      "\<And>b j u. (b, j) \<in> slots s R \<Longrightarrow> sub s b j = Some u \<Longrightarrow> sub s' b j = Some u"
proof (cases "sub s a i")
  case (Some t)
  then show ?thesis using table [OF pde_table_eq(1) [OF Some] grown_refl [OF ok]] by simp
next
  case None
  have tok: "tree_ok R s xs" and inv: "fl_inv (fa s) xs" using ok by (simp_all add: pt_ok_def tree_ok_def)
  have V: "mem s a i AND PTE_V = 0" using sub_unused [OF tok e] None by simp
  show ?thesis
  proof (cases "free_frames (fa s) xs = {}")
    case True
    with sw alloc_page_empty [OF inv True] have "alloc_page s = Some (None, s)" by simp
    from full [OF pde_table_eq(3) [OF V this] True] show ?thesis .
  next
    case False
    from alloc_page_ok [OF inv False] obtain p f ys where al: "alloc_page s = Some (Some p, s\<lparr>fa := f\<rparr>)"
      and f: "fl_inv f ys" and p: "p \<in> free_frames (fa s) xs" and fr: "free_frames f ys = free_frames (fa s) xs - {p}"
      and g: "\<And>i. pg_ref (pages f i) = pg_ref (pages (fa s) i)"
      "\<And>i. PageReserved (pages f i) = PageReserved (pages (fa s) i)" by blast
    let ?s = "new_table (a, i) p f s"
    note S = filled_sets(3,4) [OF tok e None p] filled_sets(5) [OF tok e None p, where f = f]
    note F = filled_rest [OF ok e None p f fr g]
    have tb: "tables s R \<inter> free_frames (fa s) xs = {}" using tok by (simp add: tree_ok_def)
    have gr: "grown R s xs ?s ys"
      unfolding grown_def F(2,3)
      using F(1) F(4-7) p tb by (auto simp: F(3))
    have pa: "a \<noteq> p" using e S(1) by (auto simp: slots_def tables_def)
    have "sub ?s a i = Some p" by (simp add: S(3))
    moreover have "card (free_frames (fa s) xs) \<le> card (free_frames (fa ?s) ys) + 1"
      unfolding F(2) using p free_frames_finite [of "fa s" xs] by (simp add: card_Diff_singleton)
    moreover have "sub ?s b j = Some u" if "(b, j) \<in> slots s R" "sub s b j = Some u" for b j u
      using that None S(1) by (auto simp: S(3) slots_def tables_def)
    ultimately show ?thesis using table [OF pde_table_new [OF V al S(2) pa] gr] by blast
  qed
qed

lemma get_pte_create:
  assumes ok: "pt_ok R s xs" and r: "r \<in> R" and la: "la < USERTOP"
    and sw: "swap_init_ok s \<longrightarrow> 2 \<le> card (free_frames (fa s) xs)"
  obtains (full) s' xs' where "get_pte r la True s = Some (None, s')" "grown R s xs s' xs'" "card (free_frames (fa s) xs) < 2"
  | (entry) b s' xs' where "get_pte r la True s = Some (Some (b, PTX la), s')" "grown R s xs s' xs'"
      "pt_of s' r la = Some b" "card (free_frames (fa s) xs) \<le> card (free_frames (fa s') xs') + 2"
proof -
  have ne: "swap_init_ok s \<longrightarrow> free_frames (fa s) xs \<noteq> {}" using sw by auto
  show ?thesis
  proof (rule pde_table_ok [OF ok slots_root [OF r PDX1_user [OF la]] ne], goal_cases full table)
    case full
    then show ?thesis using that(1) [of s xs] grown_refl [OF ok] by (simp add: get_pte_def)
  next
    case (table d s1 ys)
    have ok1: "pt_ok R s1 ys" using table(2) by (simp add: grown_def)
    have d: "d \<in> dirs s1 R" by (rule sub_dirs [OF r PDX1_user [OF la] table(3)])
    have "swap_init_ok s1 = swap_init_ok s" using table(2) by (simp add: grown_def)
    then have ne1: "swap_init_ok s1 \<longrightarrow> free_frames (fa s1) ys \<noteq> {}" using sw table(4) by auto
    show ?thesis
    proof (rule pde_table_ok [OF ok1 slots_dir [OF d index_bounds(2) [of la]] ne1], goal_cases full inner)
      case full
      then show ?thesis using that(1) [of s1 ys] table by (simp add: get_pte_def)
    next
      case (inner t s2 zs)
      have "sub s2 r (PDX1 la) = Some d"
        by (rule inner(5) [OF slots_root [OF r PDX1_user [OF la]] table(3)])
      with inner(3) have "pt_of s2 r la = Some t" by (simp add: pt_of_def)
      with that(2) [of t s2 zs] table inner grown_trans [OF table(2) inner(2)] show ?thesis
        by (simp add: get_pte_def)
    qed
  qed
qed

lemma get_pte_found: "pt_of s r la = Some b \<Longrightarrow> get_pte r la c s = Some (Some (b, PTX la), s)"
  by (auto simp: pt_of_def bind_eq_Some_conv get_pte_def pde_table_eq(1))

lemma get_pte_lookup:
  assumes ok: "pt_ok R s xs" and r: "r \<in> R" and la: "la < USERTOP"
  shows "get_pte r la False s = Some (map_option (\<lambda>b. (b, PTX la)) (pt_of s r la), s)"
proof -
  have tok: "tree_ok R s xs" using ok by (simp add: pt_ok_def)
  have e1: "(r, PDX1 la) \<in> slots s R" by (rule slots_root [OF r PDX1_user [OF la]])
  show ?thesis
  proof (cases "sub s r (PDX1 la)")
    case None
    then have "mem s r (PDX1 la) AND PTE_V = 0" using sub_unused [OF tok e1] by simp
    with None show ?thesis by (simp add: get_pte_def pde_table_eq(2) pt_of_def)
  next
    case (Some d)
    then have e0: "(d, PDX0 la) \<in> slots s R"
      by (intro slots_dir sub_dirs [OF r PDX1_user [OF la]] index_bounds)
    show ?thesis
    proof (cases "sub s d (PDX0 la)")
      case None
      then have "mem s d (PDX0 la) AND PTE_V = 0" using sub_unused [OF tok e0] by simp
      with Some None show ?thesis by (simp add: get_pte_def pde_table_eq(1) pde_table_eq(2) pt_of_def)
    next
      case (Some t)
      with \<open>sub s r (PDX1 la) = Some d\<close> show ?thesis by (simp add: get_pte_def pde_table_eq(1) pt_of_def)
    qed
  qed
qed

section \<open>Changing the page descriptors and one entry\<close>

lemma fa_upd_sets [simp]:
  "sub (s\<lparr>fa := f\<rparr>) = sub s" "dirs (s\<lparr>fa := f\<rparr>) R = dirs s R" "pts (s\<lparr>fa := f\<rparr>) R = pts s R"
  "slots (s\<lparr>fa := f\<rparr>) R = slots s R" "tables (s\<lparr>fa := f\<rparr>) R = tables s R" "maps (s\<lparr>fa := f\<rparr>) R q = maps s R q"
  "pt_of (s\<lparr>fa := f\<rparr>) r la = pt_of s r la" "leaf (s\<lparr>fa := f\<rparr>) r la = leaf s r la"
proof -
  show 1: "sub (s\<lparr>fa := f\<rparr>) = sub s" by (simp add: sub_def fun_eq_iff)
  then show 2: "dirs (s\<lparr>fa := f\<rparr>) R = dirs s R" by (simp add: dirs_def)
  with 1 show 3: "pts (s\<lparr>fa := f\<rparr>) R = pts s R" by (simp add: pts_def)
  with 1 2 show "slots (s\<lparr>fa := f\<rparr>) R = slots s R" "tables (s\<lparr>fa := f\<rparr>) R = tables s R"
    "maps (s\<lparr>fa := f\<rparr>) R q = maps s R q" by (simp_all add: slots_def tables_def maps_def)
  show "pt_of (s\<lparr>fa := f\<rparr>) r la = pt_of s r la" "leaf (s\<lparr>fa := f\<rparr>) r la = leaf s r la"
    using 1 by (simp_all add: pt_of_def leaf_def cong: option.case_cong)
qed

lemma fa_upd_ok:
  assumes "tree_ok R s xs" "fl_inv f ys" "\<forall>q \<in> free_frames f ys. q < NPG" "tables s R \<inter> free_frames f ys = {}"
  shows "tree_ok R (s\<lparr>fa := f\<rparr>) ys"
  using assms by (simp add: tree_ok_def)

lemma wr_fa: "wr e v (s\<lparr>fa := f\<rparr>) = (wr e v s)\<lparr>fa := f\<rparr>" "fa (wr e v s) = fa s"
  "swap_init_ok (wr e v s) = swap_init_ok s" "wr e v (wr e u s) = wr e v s"
  by (simp_all add: wr_def)

lemma sub_wr: "(a, i) \<noteq> e \<Longrightarrow> sub (wr e v s) a i = sub s a i"
  by (cases e) (auto simp: sub_def wr_def)

lemma mem_wr: "mem (wr e v s) a i = (if (a, i) = e then v else mem s a i)"
  by (cases e) (auto simp: wr_def)

lemma card_swap:
  assumes "finite A"
  shows "int (card ((A - {x}) \<union> (if P then {x} else {}))) = int (card A) + (if P then 1 else 0) - (if x \<in> A then 1 else 0)"
proof (cases "x \<in> A")
  case True
  then obtain B where "A = insert x B" "x \<notin> B" by (meson mk_disjoint_insert)
  with assms show ?thesis by simp
next
  case False
  with assms show ?thesis by simp
qed

lemma leaf_write:
  fixes v :: u64
  assumes tok: "tree_ok R s xs" and b: "b \<in> pts s R" "j < 512"
  defines "s' \<equiv> wr (b, j) v s"
  shows "dirs s' R = dirs s R" "pts s' R = pts s R" "tables s' R = tables s R" "tree_ok R s' xs"
    and "r \<in> R \<Longrightarrow> la < USERTOP \<Longrightarrow> pt_of s' r la = pt_of s r la"
    and "int (card (maps s' R q)) = int (card (maps s R q))
       + (if sub s' b j = Some q then 1 else 0) - (if sub s b j = Some q then 1 else 0)"
proof -
  have bn: "b \<notin> R" "b \<notin> dirs s R" using b(1) tree_disjoint [OF tok] by auto
  have sb: "sub s' a i = sub s a i" if "a \<noteq> b" for a i unfolding s'_def by (rule sub_wr) (use that in simp)
  show d: "dirs s' R = dirs s R" unfolding dirs_def using sb bn(1) by (metis (no_types, lifting))
  show p: "pts s' R = pts s R" unfolding pts_def d using sb bn(2) by (metis (no_types, lifting))
  show t: "tables s' R = tables s R" by (simp add: tables_def d p)
  have sl: "slots s' R = slots s R" by (simp add: slots_def d)
  have ns: "a \<noteq> b" if "(a, i) \<in> slots s R" for a i using that bn by (auto simp: slots_def)
  have fa: "fa s' = fa s" by (simp add: s'_def wr_fa)
  have ms: "mem s' a i = mem s a i" if "a \<noteq> b" for a i using that by (simp add: s'_def mem_wr)
  show "tree_ok R s' xs"
    unfolding tree_ok_def fa t sl
  proof (intro conjI allI impI)
    show "fl_inv (fa s) xs" "\<forall>q \<in> free_frames (fa s) xs. q < NPG" "tables s R \<inter> free_frames (fa s) xs = {}"
      using tok by (simp_all add: tree_ok_def)
    show "sub s' a i \<noteq> None" if "(a, i) \<in> slots s R" "mem s' a i AND PTE_V \<noteq> 0" for a i
      using that tree_res [OF tok that(1)] ns [OF that(1)] by (simp add: sb ms)
    show "q \<notin> R" if "(a, i) \<in> slots s R" "sub s' a i = Some q" for a i q
      using that tree_not_root [OF tok that(1)] ns [OF that(1)] by (simp add: sb)
    fix a i c k q
    assume A: "(a, i) \<in> slots s R" "(c, k) \<in> slots s R" "sub s' a i = Some q" "sub s' c k = Some q"
    have "sub s a i = Some q" "sub s c k = Some q" using A sb ns by fastforce+
    from tree_inj [OF tok A(1,2) this] show "a = c" "i = k" by simp_all
  qed
  show "pt_of s' r la = pt_of s r la" if r: "r \<in> R" and la: "la < USERTOP" for r la
  proof (cases "sub s r (PDX1 la)")
    case None
    have "r \<noteq> b" using r bn by auto
    then show ?thesis by (simp add: pt_of_def None sb)
  next
    case (Some d)
    then have "d \<in> dirs s R" by (rule sub_dirs [OF r PDX1_user [OF la]])
    then have "d \<noteq> b" "r \<noteq> b" using r bn by auto
    then show ?thesis by (simp add: pt_of_def Some sb)
  qed
  have mem: "(b, j) \<in> maps s R q \<longleftrightarrow> sub s b j = Some q" using b by (simp add: maps_def)
  have "maps s' R q = (maps s R q - {(b, j)}) \<union> (if sub s' b j = Some q then {(b, j)} else {})"
  proof (rule set_eqI)
    fix e :: "nat \<times> nat"
    obtain c k where e: "e = (c, k)" by (cases e)
    have "sub s' c k = sub s c k" if "(c, k) \<noteq> (b, j)" using that unfolding s'_def by (rule sub_wr)
    then show "e \<in> maps s' R q \<longleftrightarrow> e \<in> (maps s R q - {(b, j)}) \<union> (if sub s' b j = Some q then {(b, j)} else {})"
      using b unfolding e maps_def p by (cases "(c, k) = (b, j)") auto
  qed
  then show "int (card (maps s' R q)) = int (card (maps s R q))
       + (if sub s' b j = Some q then 1 else 0) - (if sub s b j = Some q then 1 else 0)"
    using card_swap [OF finite_maps, of s R q "(b, j)"] mem by simp
qed

lemma pt_of_inj:
  assumes tok: "tree_ok R s xs" and "r \<in> R" "r' \<in> R" "la < USERTOP" "la' < USERTOP"
    and "pt_of s r la = Some b" "pt_of s r' la' = Some b"
  shows "r = r' \<and> PDX1 la = PDX1 la' \<and> PDX0 la = PDX0 la'"
proof -
  from assms(6,7) obtain d d' where d: "sub s r (PDX1 la) = Some d" "sub s d (PDX0 la) = Some b"
    "sub s r' (PDX1 la') = Some d'" "sub s d' (PDX0 la') = Some b"
    by (auto simp: pt_of_def bind_eq_Some_conv)
  have "d \<in> dirs s R" "d' \<in> dirs s R" using d assms(2-5) by (auto intro: sub_dirs PDX1_user)
  then have "d = d' \<and> PDX0 la = PDX0 la'"
    using tree_inj [OF tok] d by (blast intro: slots_dir index_bounds)
  with d tree_inj [OF tok] assms(2-5) show ?thesis by (blast intro: slots_root PDX1_user)
qed

definition same_page :: "u64 \<Rightarrow> u64 \<Rightarrow> bool" where
  "same_page la la' \<longleftrightarrow> PDX1 la = PDX1 la' \<and> PDX0 la = PDX0 la' \<and> PTX la = PTX la'"

lemma leaf_wr:
  assumes tok: "tree_ok R s xs" and r: "r \<in> R" "r' \<in> R" "la < USERTOP" "la' < USERTOP" and b: "pt_of s r la = Some b"
  shows "leaf (wr (b, PTX la) v s) r' la' = (if r' = r \<and> same_page la' la then v else leaf s r' la')"
proof -
  from b obtain d where d: "sub s r (PDX1 la) = Some d" "sub s d (PDX0 la) = Some b"
    by (auto simp: pt_of_def bind_eq_Some_conv)
  have bp: "b \<in> pts s R" using sub_pts [OF sub_dirs [OF r(1) PDX1_user [OF r(3)] d(1)] index_bounds(2) d(2)] .
  have po: "pt_of (wr (b, PTX la) v s) r' la' = pt_of s r' la'"
    by (rule leaf_write(5) [OF tok bp index_bounds(3) r(2,4)])
  show ?thesis
  proof (cases "pt_of s r' la' = Some b \<and> PTX la' = PTX la")
    case True
    with pt_of_inj [OF tok r b] po show ?thesis by (auto simp: leaf_def same_page_def mem_wr)
  next
    case False
    then have "\<not> (r' = r \<and> same_page la' la)" using b by (auto simp: same_page_def pt_of_def)
    with False po show ?thesis by (auto simp: leaf_def mem_wr split: option.splits)
  qed
qed

lemma pt_of_pts: "r \<in> R \<Longrightarrow> la < USERTOP \<Longrightarrow> pt_of s r la = Some b \<Longrightarrow> b \<in> pts s R"
  by (auto simp: pt_of_def bind_eq_Some_conv intro: sub_pts sub_dirs PDX1_user index_bounds)

section \<open>Mapping and unmapping a page\<close>

lemma pages_set_ref: "pages (fa (set_page_ref p r s)) = (pages (fa s))(p := (pages (fa s) p)\<lparr>pg_ref := r\<rparr>)"
  by (simp add: set_page_ref_def page_simps)

lemma set_ref_mem [simp]: "mem (set_page_ref p r s) = mem s"
  by (simp add: set_page_ref_def)

lemma page_ref_set: "page_ref q (set_page_ref p r s) = (if q = p then r else page_ref q s)"
  by (simp add: page_ref_def pages_set_ref)

lemma set_ref_as_fa: "set_page_ref p r s = s\<lparr>fa := fa (set_page_ref p r s)\<rparr>"
  by (simp add: set_page_ref_def)

lemma page_ref_wr [simp]: "page_ref q (wr e v s) = page_ref q s"
  by (simp add: page_ref_def wr_fa)

text \<open>The leaves and counts after an entry was replaced and the descriptors were updated.\<close>

lemma leaf_write_ok:
  fixes f :: free_area and v :: u64
  assumes ok: "pt_ok R s xs" and b: "b \<in> pts s R" "j < 512"
    and f: "fl_inv f ys" "\<forall>q \<in> free_frames f ys. q < NPG" "tables s R \<inter> free_frames f ys = {}"
  defines "s' \<equiv> (wr (b, j) v s)\<lparr>fa := f\<rparr>"
  assumes new: "v AND PTE_V \<noteq> 0 \<Longrightarrow> \<exists>p. sub s' b j = Some p \<and> p \<notin> tables s R \<and> p \<notin> free_frames f ys
      \<and> \<not> PageReserved (pages f p)"
    and keep: "\<And>q. q \<notin> tables s R \<Longrightarrow> \<not> PageReserved (pages (fa s) q) \<Longrightarrow> q \<notin> free_frames (fa s) xs \<Longrightarrow>
       maps s' R q \<noteq> {} \<Longrightarrow> q \<notin> free_frames f ys \<and> \<not> PageReserved (pages f q)"
    and ref: "\<And>q. q \<notin> tables s R \<Longrightarrow> pg_ref (pages f q) = page_ref q s
       + (if sub s' b j = Some q then 1 else 0) - (if sub s b j = Some q then 1 else 0)"
  shows "pt_ok R s' ys"
proof -
  have tok: "tree_ok R s xs" and lok: "leaves_ok R s xs" and cok: "counts_ok R s" using ok by (simp_all add: pt_ok_def)
  note L = leaf_write [OF tok b, where v = v]
  have sets: "pts s' R = pts s R" "tables s' R = tables s R" using L(2,3) by (simp_all add: s'_def)
  have tok': "tree_ok R s' ys" unfolding s'_def by (rule fa_upd_ok [OF L(4) f(1,2)]) (use f(3) L(3) in simp)
  have sb: "sub s' a i = sub s a i" if "(a, i) \<noteq> (b, j)" for a i using sub_wr [OF that] by (simp add: s'_def)
  have ms: "mem s' a i = (if (a, i) = (b, j) then v else mem s a i)" for a i by (simp add: s'_def mem_wr)
  have lok': "leaves_ok R s' ys"
    unfolding leaves_ok_def sets
  proof (intro ballI allI impI)
    fix c k assume c: "c \<in> pts s R" "k < 512" "mem s' c k AND PTE_V \<noteq> 0"
    show "\<exists>q. sub s' c k = Some q \<and> q \<notin> tables s R \<and> q \<notin> free_frames (fa s') ys \<and> \<not> PageReserved (pages (fa s') q)"
    proof (cases "(c, k) = (b, j)")
      case True
      with c(3) new ms show ?thesis by (simp add: s'_def)
    next
      case False
      with c ms have "mem s c k AND PTE_V \<noteq> 0" by auto
      with lok c obtain q where q: "sub s c k = Some q" "q \<notin> tables s R" "q \<notin> free_frames (fa s) xs"
        "\<not> PageReserved (pages (fa s) q)" unfolding leaves_ok_def by blast
      have "(c, k) \<in> maps s' R q" using c sb [OF False] q(1) by (simp add: maps_def sets)
      with keep [OF q(2,4,3)] q sb [OF False] show ?thesis by (auto simp: s'_def)
    qed
  qed
  have "counts_ok R s'"
    unfolding counts_ok_def sets
  proof (intro allI impI)
    fix q assume q: "q \<notin> tables s R"
    with cok have "page_ref q s = int (card (maps s R q))" by (simp add: counts_ok_def)
    with L(6) [of q] ref [OF q] show "page_ref q s' = int (card (maps s' R q))"
      by (simp add: s'_def page_ref_def)
  qed
  with tok' lok' show ?thesis by (simp add: pt_ok_def)
qed

end
