(* ===== verification/Page_Table_Props.thy ===== *)
theory Page_Table_Props
  imports Page_Table_Ops
begin

text \<open>
  Mapping and unmapping a page: \<open>page_insert\<close> and \<open>page_remove\<close> change the entry of one page and
  keep the trees, the free list and the reference counts consistent.
\<close>

lemma unat_small_take_bit: "unat w < 1024 \<longleftrightarrow> take_bit 10 w = w" for w :: u32
proof
  assume "unat w < 1024"
  then have "unat (take_bit 10 w) = unat w" by (simp add: unsigned_take_bit_eq take_bit_nat_eq_self)
  then show "take_bit 10 w = w" by (simp only: word_unat_eq_iff)
next
  assume "take_bit 10 w = w"
  then have "unat w = take_bit 10 (unat w)" by (metis unsigned_take_bit_eq)
  also have "\<dots> < 2 ^ 10" by (rule take_bit_nat_less_exp)
  finally show "unat w < 1024" by simp
qed

lemma perm_small: "unat perm < 1024 \<Longrightarrow> unat (ucast PTE_V OR perm :: u32) < 1024"
proof -
  assume p: "unat perm < 1024"
  have "unat (ucast PTE_V :: u32) < 1024" by (simp add: PTE_V_def)
  with p show ?thesis unfolding unat_small_take_bit by (simp add: take_bit_or)
qed

lemma set_ref_ok:
  assumes "fl_inv (fa s) xs" "p \<notin> free_frames (fa s) xs"
  shows "fl_inv (fa (set_page_ref p r s)) xs"
    and "free_frames (fa (set_page_ref p r s)) xs = free_frames (fa s) xs"
    and "PageReserved (pages (fa (set_page_ref p r s)) q) = PageReserved (pages (fa s) q)"
  using fl_inv_set_ref [OF assms] by (simp_all add: set_page_ref_def page_simps)

lemma leaf_sub:
  assumes "pt_ok R s xs" "b \<in> pts s R" "j < 512"
  shows "mem s b j AND PTE_V = 0 \<longleftrightarrow> sub s b j = None" "sub s b j = Some q \<Longrightarrow> pte2page (mem s b j) = Some q"
    and "sub s b j = Some q \<Longrightarrow> q \<notin> tables s R \<and> q \<notin> free_frames (fa s) xs \<and> \<not> PageReserved (pages (fa s) q) \<and> 0 < page_ref q s"
proof -
  have lok: "leaves_ok R s xs" and cok: "counts_ok R s" using assms(1) by (simp_all add: pt_ok_def)
  show "mem s b j AND PTE_V = 0 \<longleftrightarrow> sub s b j = None" using lok assms(2,3) by (auto simp: leaves_ok_def sub_def)
  show "sub s b j = Some q \<Longrightarrow> pte2page (mem s b j) = Some q" by (auto simp: sub_def pte2page_def split: if_splits)
  assume q: "sub s b j = Some q"
  then have "mem s b j AND PTE_V \<noteq> 0" by (auto simp: sub_def)
  with lok assms(2,3) q have t: "q \<notin> tables s R \<and> q \<notin> free_frames (fa s) xs \<and> \<not> PageReserved (pages (fa s) q)"
    unfolding leaves_ok_def by fastforce
  have "(b, j) \<in> maps s R q" using q assms(2,3) by (simp add: maps_def)
  then have "0 < card (maps s R q)" using finite_maps by (metis card_gt_0_iff empty_iff)
  with t cok show "q \<notin> tables s R \<and> q \<notin> free_frames (fa s) xs \<and> \<not> PageReserved (pages (fa s) q) \<and> 0 < page_ref q s"
    by (simp add: counts_ok_def)
qed

lemma mapped_ref:
  assumes ok: "pt_ok R s xs" and r: "r \<in> R" and la: "la < USERTOP" and q: "pte2page (leaf s r la) = Some q"
  shows "0 < page_ref q s"
proof -
  obtain b where pt: "pt_of s r la = Some b"
    using q by (cases "pt_of s r la") (simp_all add: leaf_def pte2page_def)
  then have "sub s b (PTX la) = Some q" using q by (simp add: leaf_def sub_def pte2page_def)
  with leaf_sub(3) [OF ok pt_of_pts [OF r la pt] index_bounds(3)] show ?thesis by simp
qed

text \<open>\<open>page_insert\<close> after \<open>get_pte\<close> found the entry.\<close>

definition insert_refs :: "nat \<Rightarrow> nat option \<Rightarrow> vmem \<Rightarrow> vmem" where
  "insert_refs page old s =
     (let s = page_ref_inc page s in case old of None \<Rightarrow> s | Some q \<Rightarrow> page_ref_dec q s)"

lemma page_insert_entry:
  assumes g: "get_pte r la True s = Some (Some e, s1)" and e: "e = (b, j)"
    and ok: "pt_ok R s1 ys" and b: "b \<in> pts s1 R" "j < 512"
    and last: "\<And>q. sub s1 b j = Some q \<Longrightarrow> q \<noteq> page \<Longrightarrow> 1 < page_ref q s1"
  shows "page_insert r page la perm s = Some (None,
    (wr e (pte_create (page2ppn page) (ucast PTE_V OR perm)) s1)\<lparr>fa := fa (insert_refs page (sub s1 b j) s1)\<rparr>)"
proof -
  note L = leaf_sub [OF ok b]
  have m: "rd (page_ref_inc page s1) e = mem s1 b j" by (simp add: e page_ref_inc_def)
  have F: "insert_refs page x s1 = s1\<lparr>fa := fa (insert_refs page x s1)\<rparr>" for x
    by (cases x) (simp_all add: insert_refs_def page_ref_inc_def page_ref_dec_def set_page_ref_def)
  show ?thesis
  proof (cases "sub s1 b j")
    case None
    with L(1) m g have "page_insert r page la perm s = Some (None,
       wr e (pte_create (page2ppn page) (ucast PTE_V OR perm)) (insert_refs page None s1))"
      by (simp add: page_insert_def insert_refs_def)
    with None F [of None] show ?thesis by (metis wr_fa(1))
  next
    case (Some q)
    then have V: "rd (page_ref_inc page s1) e AND PTE_V \<noteq> 0" and q: "pte2page (rd (page_ref_inc page s1) e) = Some q"
      using L(1,2) m by auto
    have "page_insert r page la perm s = Some (None,
       wr e (pte_create (page2ppn page) (ucast PTE_V OR perm)) (insert_refs page (Some q) s1))"
    proof (cases "q = page")
      case True
      with g V q show ?thesis by (simp add: page_insert_def insert_refs_def)
    next
      case False
      then have "page_ref q (page_ref_dec q (page_ref_inc page s1)) \<noteq> 0"
        using last [OF Some] by (simp add: page_ref_dec_def page_ref_inc_def page_ref_set)
      with V q have "page_remove_pte e (page_ref_inc page s1) = Some (wr e 0 (page_ref_dec q (page_ref_inc page s1)))"
        by (simp add: page_remove_pte_def Let_def)
      with False g V q show ?thesis by (simp add: page_insert_def insert_refs_def wr_fa(4))
    qed
    with Some F [of "Some q"] show ?thesis by (metis wr_fa(1))
  qed
qed

text \<open>What else \<open>page_insert\<close> keeps: \<open>old\<close> is the page whose entry was replaced.\<close>

definition inserted :: "nat set \<Rightarrow> vmem \<Rightarrow> nat list \<Rightarrow> nat \<Rightarrow> nat option \<Rightarrow> bool \<Rightarrow> vmem \<Rightarrow> nat list \<Rightarrow> bool" where
  "inserted R s xs page old ins s' xs' \<longleftrightarrow> swap_init_ok s' = swap_init_ok s
     \<and> tables s R \<subseteq> tables s' R \<and> tables s' R \<subseteq> tables s R \<union> free_frames (fa s) xs
     \<and> free_frames (fa s') xs' = free_frames (fa s) xs - tables s' R
     \<and> (card (free_frames (fa s) xs) \<le> card (free_frames (fa s') xs') + 2 \<or> card (free_frames (fa s) xs) < 2)
     \<and> (\<forall>q. q \<notin> tables s' R \<longrightarrow> mem s' q = mem s q \<and>
          page_ref q s' = page_ref q s + (if ins \<and> q = page then 1 else 0) - (if old = Some q then 1 else 0))
     \<and> (\<forall>q. PageReserved (pages (fa s') q) = PageReserved (pages (fa s) q))"

lemma page_insert_ok:
  assumes ok: "pt_ok R s xs" and r: "r \<in> R" and la: "la < USERTOP" and perm: "unat perm < 1024"
    and page: "page < NPG" "page \<notin> tables s R" "page \<notin> free_frames (fa s) xs" "\<not> PageReserved (pages (fa s) page)"
    and sw: "swap_init_ok s \<longrightarrow> 2 \<le> card (free_frames (fa s) xs)"
    and last: "\<forall>q. pte2page (leaf s r la) = Some q \<and> q \<noteq> page \<longrightarrow> 1 < page_ref q s"
  shows "\<exists>res s' xs'. page_insert r page la perm s = Some (res, s') \<and> pt_ok R s' xs'
    \<and> (res = None \<or> res = Some E_NO_MEM \<and> card (free_frames (fa s) xs) < 2)
    \<and> (\<forall>r' \<in> R. \<forall>la' < USERTOP. leaf s' r' la' =
         (if res = None \<and> r' = r \<and> same_page la' la then pte_create (page2ppn page) (ucast PTE_V OR perm)
          else leaf s r' la'))
    \<and> inserted R s xs page (if res = None then pte2page (leaf s r la) else None) (res = None) s' xs'"
proof (rule get_pte_create [OF ok r la sw], goal_cases full entry)
  case (full s1 ys)
  then have "page_insert r page la perm s = Some (Some E_NO_MEM, s1)" by (simp add: page_insert_def)
  moreover have "inserted R s xs page None False s1 ys"
    using grownD(2-8) [OF full(2)] full(3) by (auto simp: inserted_def)
  ultimately show ?case using full grownD(1,9) [OF full(2)]
    by (intro exI [of _ "Some E_NO_MEM"] exI [of _ s1] exI [of _ ys]) simp
next
  case (entry b s1 ys)
  note G = grownD [OF entry(2)]
  have tok: "tree_ok R s1 ys" and inv: "fl_inv (fa s1) ys" using G(1) by (simp_all add: pt_ok_def tree_ok_def)
  have b: "b \<in> pts s1 R" by (rule pt_of_pts [OF r la entry(3)])
  note j = index_bounds(3) [of la]
  note L = leaf_sub [OF G(1) b j]
  let ?v = "pte_create (page2ppn page) (ucast PTE_V OR perm)"
  let ?old = "sub s1 b (PTX la)"
  have pg: "page \<notin> tables s1 R" "page \<notin> free_frames (fa s1) ys" using page(2,3) G(4,5) by auto
  have leaf1: "leaf s r la = mem s1 b (PTX la)" using G(9) [OF r la] entry(3) by (simp add: leaf_def)
  have last1: "1 < page_ref q s1" if "?old = Some q" "q \<noteq> page" for q
    using last that L(2,3) [OF that(1)] leaf1 G(6) [of q] by simp
  let ?F = "fa (insert_refs page ?old s1)"
  have F: "fl_inv ?F ys" "free_frames ?F ys = free_frames (fa s1) ys"
    "\<And>q. PageReserved (pages ?F q) = PageReserved (pages (fa s1) q)"
    "\<And>q. pg_ref (pages ?F q) = page_ref q s1 + (if q = page then 1 else 0) - (if ?old = Some q then 1 else 0)"
  proof -
    note S1 = set_ref_ok [OF inv pg(2)]
    have "fl_inv ?F ys \<and> free_frames ?F ys = free_frames (fa s1) ys
      \<and> (\<forall>q. PageReserved (pages ?F q) = PageReserved (pages (fa s1) q))
      \<and> (\<forall>q. pg_ref (pages ?F q) = page_ref q s1 + (if q = page then 1 else 0) - (if ?old = Some q then 1 else 0))"
    proof (cases ?old)
      case None
      with S1 show ?thesis by (simp add: insert_refs_def page_ref_inc_def pages_set_ref page_ref_def)
    next
      case (Some q)
      let ?t = "page_ref_inc page s1"
      have "fl_inv (fa ?t) ys" "q \<notin> free_frames (fa ?t) ys"
        using S1 L(3) [OF Some] by (simp_all add: page_ref_inc_def)
      note S2 = set_ref_ok [OF this]
      from S1 S2 Some show ?thesis
        by (auto simp: insert_refs_def page_ref_inc_def page_ref_dec_def pages_set_ref page_ref_def)
    qed
    then show "fl_inv ?F ys" "free_frames ?F ys = free_frames (fa s1) ys"
      "\<And>q. PageReserved (pages ?F q) = PageReserved (pages (fa s1) q)"
      "\<And>q. pg_ref (pages ?F q) = page_ref q s1 + (if q = page then 1 else 0) - (if ?old = Some q then 1 else 0)"
      by blast+
  qed
  let ?s = "(wr (b, PTX la) ?v s1)\<lparr>fa := ?F\<rparr>"
  have pi: "page_insert r page la perm s = Some (None, ?s)"
    using page_insert_entry [OF entry(1) refl G(1) b j] last1 by blast
  have new: "sub ?s b (PTX la) = Some page"
    using pa2page_pte [OF page(1) perm_small [OF perm]] by (simp add: sub_def mem_wr)
  have "pt_ok R ?s ys"
  proof (rule leaf_write_ok [OF G(1) b j F(1)])
    show "\<forall>q \<in> free_frames ?F ys. q < NPG" "tables s1 R \<inter> free_frames ?F ys = {}"
      using tok unfolding F(2) by (simp_all add: tree_ok_def)
    show "\<exists>p. sub ?s b (PTX la) = Some p \<and> p \<notin> tables s1 R \<and> p \<notin> free_frames ?F ys \<and> \<not> PageReserved (pages ?F p)"
      using new pg page(4) G(8) unfolding F(2,3) by simp
    show "q \<notin> free_frames ?F ys \<and> \<not> PageReserved (pages ?F q)"
      if "\<not> PageReserved (pages (fa s1) q)" "q \<notin> free_frames (fa s1) ys" for q
      using that unfolding F(2,3) by simp
    show "pg_ref (pages ?F q) = page_ref q s1 + (if sub ?s b (PTX la) = Some q then 1 else 0) - (if ?old = Some q then 1 else 0)" for q
      unfolding F(4) new by simp
  qed
  moreover have "leaf ?s r' la' = (if r' = r \<and> same_page la' la then ?v else leaf s r' la')"
    if "r' \<in> R" "la' < USERTOP" for r' la'
    using leaf_wr [OF tok r that(1) la that(2) entry(3)] G(9) [OF that] by simp
  moreover have "inserted R s xs page (pte2page (leaf s r la)) True ?s ys"
  proof -
    have old: "?old = pte2page (leaf s r la)" by (simp add: leaf1 sub_def pte2page_def)
    have tb: "tables ?s R = tables s1 R" using leaf_write(3) [OF tok b j] by simp
    have m: "mem ?s q = mem s1 q" if "q \<notin> tables s1 R" for q
      using that b by (auto simp: wr_def tables_def)
    show ?thesis
      unfolding inserted_def tb
      using G(2-8) F m entry(4) old by (auto simp: wr_fa page_ref_def)
  qed
  ultimately show ?case using pi by (intro exI [of _ None] exI [of _ ?s] exI [of _ ys]) simp
qed

lemma free_frame_ref: "fl_inv f ys \<Longrightarrow> q \<in> free_frames f ys \<Longrightarrow> pg_ref (pages f q) = 0"
  using fl_inv_frames [of f ys _ q] by (auto simp: free_frames_def)

text \<open>An entry that held the last mapping of its page, overwritten: no entry maps the page then.\<close>

lemma last_mapping_gone:
  assumes ok: "pt_ok R s xs" and b: "b \<in> pts s R" "j < 512"
    and q: "sub s b j = Some q" "page_ref q s = 1" "sub ((wr (b, j) v s)\<lparr>fa := f\<rparr>) b j \<noteq> Some q"
  shows "maps ((wr (b, j) v s)\<lparr>fa := f\<rparr>) R q = {}"
proof -
  let ?s = "(wr (b, j) v s)\<lparr>fa := f\<rparr>"
  have tok: "tree_ok R s xs" and cok: "counts_ok R s" using ok by (simp_all add: pt_ok_def)
  have "q \<notin> tables s R" using leaf_sub(3) [OF ok b q(1)] by simp
  then have "int (card (maps s R q)) = 1" using cok q(2) by (simp add: counts_ok_def)
  moreover have "int (card (maps ?s R q)) = int (card (maps s R q)) - 1"
    using leaf_write(6) [OF tok b, of v q] q(1,3) by simp
  ultimately have "card (maps ?s R q) = 0" by simp
  with finite_maps show ?thesis by simp
qed

text \<open>\<open>page_insert\<close> over an entry that holds the last mapping of another page: that page is freed.\<close>

lemma page_insert_frees:
  assumes ok: "pt_ok R s xs" and r: "r \<in> R" and la: "la < USERTOP" and perm: "unat perm < 1024"
    and page: "page < NPG" "page \<notin> tables s R" "page \<notin> free_frames (fa s) xs" "\<not> PageReserved (pages (fa s) page)"
    and q: "pte2page (leaf s r la) = Some q" "q \<noteq> page" "page_ref q s = 1"
    and above: "xs = [] \<or> (\<exists>x \<in> set xs. q < x)"
  shows "\<exists>s' xs'. page_insert r page la perm s = Some (None, s') \<and> pt_ok R s' xs'
    \<and> (\<forall>r' \<in> R. \<forall>la' < USERTOP. leaf s' r' la' =
         (if r' = r \<and> same_page la' la then pte_create (page2ppn page) (ucast PTE_V OR perm) else leaf s r' la'))
    \<and> tables s' R = tables s R \<and> free_frames (fa s') xs' = insert q (free_frames (fa s) xs)"
proof -
  have tok: "tree_ok R s xs" and inv: "fl_inv (fa s) xs" using ok by (simp_all add: pt_ok_def tree_ok_def)
  obtain b where pt: "pt_of s r la = Some b"
    using q(1) by (cases "pt_of s r la") (simp_all add: leaf_def pte2page_def)
  have b: "b \<in> pts s R" by (rule pt_of_pts [OF r la pt])
  note j = index_bounds(3) [of la]
  have sq: "sub s b (PTX la) = Some q" using q(1) pt by (simp add: leaf_def sub_def pte2page_def)
  note Q = leaf_sub(3) [OF ok b j sq] and V = leaf_sub(1) [OF ok b j]
  let ?v = "pte_create (page2ppn page) (ucast PTE_V OR perm)"
  let ?t = "page_ref_dec q (page_ref_inc page s)"
  have I: "fl_inv (fa ?t) xs" "free_frames (fa ?t) xs = free_frames (fa s) xs"
    "\<And>p. PageReserved (pages (fa ?t) p) = PageReserved (pages (fa s) p)"
  proof -
    note S1 = set_ref_ok [OF inv page(3)]
    have "fl_inv (fa (page_ref_inc page s)) xs" "q \<notin> free_frames (fa (page_ref_inc page s)) xs"
      using S1 Q by (simp_all add: page_ref_inc_def)
    note S2 = set_ref_ok [OF this]
    show "fl_inv (fa ?t) xs" "free_frames (fa ?t) xs = free_frames (fa s) xs"
      "\<And>p. PageReserved (pages (fa ?t) p) = PageReserved (pages (fa s) p)"
      using S1 S2 by (simp_all add: page_ref_inc_def page_ref_dec_def)
  qed
  have tr: "pg_ref (pages (fa ?t) p) = page_ref p s + (if p = page then 1 else 0) - (if p = q then 1 else 0)" for p
    using q(2) by (auto simp: page_ref_dec_def page_ref_inc_def pages_set_ref page_ref_def)
  have "q \<notin> free_frames (fa ?t) xs" "\<not> PageReserved (pages (fa ?t) q)" using Q I by simp_all
  from default_free_1 [OF I(1) this above] obtain f ys where d: "default_free_pages q 1 (fa ?t) = Some f"
    and F: "fl_inv f ys" "free_frames f ys = insert q (free_frames (fa s) xs)"
      "\<And>i. i \<noteq> q \<Longrightarrow> pg_ref (pages f i) = pg_ref (pages (fa ?t) i)"
      "\<And>i. i \<noteq> q \<Longrightarrow> PageReserved (pages f i) = PageReserved (pages (fa s) i)" unfolding I by blast
  have fq: "pg_ref (pages f q) = 0" by (rule free_frame_ref [OF F(1)]) (simp add: F(2))
  let ?s = "(wr (b, PTX la) ?v s)\<lparr>fa := f\<rparr>"
  have run: "page_insert r page la perm s = Some (None, ?s)"
  proof -
    have "get_pte r la True s = Some (Some (b, PTX la), s)" by (rule get_pte_found [OF pt])
    moreover have "page_ref q ?t = 0" using tr [of q] q(2,3) by (simp add: page_ref_def)
    moreover have "rd (page_ref_inc page s) (b, PTX la) = leaf s r la" using pt by (simp add: leaf_def page_ref_inc_def)
    moreover have "leaf s r la AND PTE_V \<noteq> 0" using V sq pt by (simp add: leaf_def)
    moreover have "?t\<lparr>fa := f\<rparr> = s\<lparr>fa := f\<rparr>" by (simp add: page_ref_dec_def page_ref_inc_def set_page_ref_def)
    ultimately show ?thesis
      using q d by (simp add: page_insert_def page_remove_pte_def free_page_def Let_def wr_fa)
  qed
  have new: "sub ?s b (PTX la) = Some page"
    using pa2page_pte [OF page(1) perm_small [OF perm]] by (simp add: sub_def mem_wr)
  have "pt_ok R ?s ys"
  proof (rule leaf_write_ok [OF ok b j F(1)])
    show "\<forall>p \<in> free_frames f ys. p < NPG" "tables s R \<inter> free_frames f ys = {}"
      using tok Q sub_less [OF sq] unfolding F(2) by (auto simp: tree_ok_def)
    show "\<exists>p. sub ?s b (PTX la) = Some p \<and> p \<notin> tables s R \<and> p \<notin> free_frames f ys \<and> \<not> PageReserved (pages f p)"
      using new page q(2) F(2,4) by simp
    show "p \<notin> free_frames f ys \<and> \<not> PageReserved (pages f p)"
      if p: "\<not> PageReserved (pages (fa s) p)" "p \<notin> free_frames (fa s) xs" "maps ?s R p \<noteq> {}" for p
    proof -
      have "p \<noteq> q" using last_mapping_gone [OF ok b j sq q(3)] new q(2) p(3) by auto
      with p F(2,4) show ?thesis by simp
    qed
    show "pg_ref (pages f p) = page_ref p s + (if sub ?s b (PTX la) = Some p then 1 else 0)
        - (if sub s b (PTX la) = Some p then 1 else 0)" for p
      unfolding new sq using F(3) [of p] tr [of p] fq q(2,3) by (cases "p = q") auto
  qed
  moreover have "leaf ?s r' la' = (if r' = r \<and> same_page la' la then ?v else leaf s r' la')"
    if "r' \<in> R" "la' < USERTOP" for r' la'
    using leaf_wr [OF tok r that(1) la that(2) pt] by simp
  moreover have "tables ?s R = tables s R" using leaf_write(3) [OF tok b j] by simp
  ultimately show ?thesis using run F(2) by (intro exI [of _ ?s] exI [of _ ys]) simp
qed

text \<open>An address space with no page mapped, over the example free area.\<close>

definition demo_vm :: vmem where
  "demo_vm = \<lparr>fa = ex_area, mem = (\<lambda>_ _. 0), swap_init_ok = False\<rparr>"

lemma demo_vm_ok: "pt_ok {0} demo_vm [2, 8]"
proof -
  have sb: "sub demo_vm a i = None" for a i by (simp add: sub_def demo_vm_def)
  have mz: "mem demo_vm a i = 0" for a i by (simp add: demo_vm_def)
  have d: "dirs demo_vm {0} = {}" "pts demo_vm {0} = {}" by (simp_all add: dirs_def pts_def sb)
  have t: "tables demo_vm {0} = {0}" by (simp add: tables_def d)
  have f: "fa demo_vm = ex_area" by (simp add: demo_vm_def)
  have "tree_ok {0} demo_vm [2, 8]"
    unfolding tree_ok_def t f ex_area_frames using ex_area_inv
    by (auto simp: sb mz NPG_def npage_def nbase_def)
  moreover have "page_ref q demo_vm = 0" for q
    by (simp add: page_ref_def f ex_area_def used_page_def SetPageProperty_def)
  ultimately show ?thesis by (simp add: pt_ok_def leaves_ok_def counts_ok_def maps_def d)
qed

lemma demo_vm_leaf: "leaf demo_vm r la = 0"
  by (simp add: leaf_def pt_of_def sub_def demo_vm_def)

lemma demo_vm_free: "free_frames (fa demo_vm) [2, 8] = {2..<5} \<union> {8..<13}"
  by (simp add: demo_vm_def ex_area_frames)

text \<open>C16: \<open>page_insert\<close> keeps the page tables consistent: the tables of all page directories stay
  disjoint from each other, from the mapped pages and from the free list, and every reference
  count stays the number of entries that map the page. It maps the page at the given address with
  the given permissions and changes no other mapping of any address space. A different page that
  was mapped there is freed exactly when this was its last mapping, and the free pages change in no
  other way than by those taken for new tables. It fails, with \<open>E_NO_MEM\<close> and no mapping changed,
  only when fewer than two pages are free. Where it frees a page, the free list is assumed to hold
  a block above that page or to be empty, since freeing at the end of a non-empty list corrupts it
  (\<open>default_free_tail_self_loop\<close>); with swapping on, two free pages are assumed.\<close>

theorem page_insert_maps:
  assumes ok: "pt_ok R s xs" and r: "r \<in> R" and la: "la < USERTOP" and perm: "unat perm < 1024"
    and page: "page < NPG" "page \<notin> tables s R" "page \<notin> free_frames (fa s) xs" "\<not> PageReserved (pages (fa s) page)"
    and sw: "swap_init_ok s \<longrightarrow> 2 \<le> card (free_frames (fa s) xs)"
    and below: "\<And>q. pte2page (leaf s r la) = Some q \<Longrightarrow> q \<noteq> page \<Longrightarrow> page_ref q s = 1 \<Longrightarrow>
        xs = [] \<or> (\<exists>x \<in> set xs. q < x)"
  shows "\<exists>res s' xs'. page_insert r page la perm s = Some (res, s') \<and> pt_ok R s' xs'
    \<and> (res = None \<or> res = Some E_NO_MEM \<and> card (free_frames (fa s) xs) < 2)
    \<and> (\<forall>r' \<in> R. \<forall>la' < USERTOP. leaf s' r' la' =
         (if res = None \<and> r' = r \<and> same_page la' la then pte_create (page2ppn page) (ucast PTE_V OR perm)
          else leaf s r' la'))
    \<and> free_frames (fa s') xs' = (free_frames (fa s) xs - tables s' R)
        \<union> {q. res = None \<and> pte2page (leaf s r la) = Some q \<and> q \<noteq> page \<and> page_ref q s = 1}"
proof (cases "\<exists>q. pte2page (leaf s r la) = Some q \<and> q \<noteq> page \<and> page_ref q s = 1")
  case True
  then obtain q where q: "pte2page (leaf s r la) = Some q" "q \<noteq> page" "page_ref q s = 1" by blast
  from page_insert_frees [OF ok r la perm page q below [OF q]] obtain s' xs' where
    run: "page_insert r page la perm s = Some (None, s')" "pt_ok R s' xs'"
    "\<forall>r' \<in> R. \<forall>la' < USERTOP. leaf s' r' la' =
       (if r' = r \<and> same_page la' la then pte_create (page2ppn page) (ucast PTE_V OR perm) else leaf s r' la')"
    and fr: "tables s' R = tables s R" "free_frames (fa s') xs' = insert q (free_frames (fa s) xs)" by blast
  have "tables s R \<inter> free_frames (fa s) xs = {}" using ok by (simp add: pt_ok_def tree_ok_def)
  then have "free_frames (fa s') xs' = (free_frames (fa s) xs - tables s' R)
      \<union> {p. (None :: errno option) = None \<and> pte2page (leaf s r la) = Some p \<and> p \<noteq> page \<and> page_ref p s = 1}"
    using fr q by auto
  with run show ?thesis by (intro exI [of _ None] exI [of _ s'] exI [of _ xs']) simp
next
  case False
  have "\<forall>q. pte2page (leaf s r la) = Some q \<and> q \<noteq> page \<longrightarrow> 1 < page_ref q s"
    using mapped_ref [OF ok r la] False by force
  from page_insert_ok [OF ok r la perm page sw this] obtain res s' xs' where
    run: "page_insert r page la perm s = Some (res, s')" "pt_ok R s' xs'"
      "res = None \<or> res = Some E_NO_MEM \<and> card (free_frames (fa s) xs) < 2"
      "\<forall>r' \<in> R. \<forall>la' < USERTOP. leaf s' r' la' =
         (if res = None \<and> r' = r \<and> same_page la' la then pte_create (page2ppn page) (ucast PTE_V OR perm)
          else leaf s r' la')"
    and "free_frames (fa s') xs' = free_frames (fa s) xs - tables s' R"
    unfolding inserted_def by blast
  with False have "free_frames (fa s') xs' = (free_frames (fa s) xs - tables s' R)
      \<union> {q. res = None \<and> pte2page (leaf s r la) = Some q \<and> q \<noteq> page \<and> page_ref q s = 1}" by auto
  with run show ?thesis by (intro exI [of _ res] exI [of _ s'] exI [of _ xs']) (intro conjI; assumption)
qed

lemma demo_vm_page:
  assumes "p \<in> {1, 20}"
  shows "p < NPG" "p \<notin> tables demo_vm {0}" "p \<notin> free_frames (fa demo_vm) [2, 8]"
    "\<not> PageReserved (pages (fa demo_vm) p)"
proof -
  show "p < NPG" "p \<notin> free_frames (fa demo_vm) [2, 8]"
    using assms by (auto simp: NPG_def npage_def nbase_def demo_vm_free)
  show "p \<notin> tables demo_vm {0}" using assms by (auto simp: tables_def dirs_def pts_def sub_def demo_vm_def)
  show "\<not> PageReserved (pages (fa demo_vm) p)" using assms
    by (auto simp: demo_vm_def ex_area_def used_page_def PageReserved_def)
qed

theorem page_insert_maps_witness:
  "\<exists>s' xs'. page_insert 0 20 0x800000 0x16 demo_vm = Some (None, s') \<and> pt_ok {0} s' xs'
     \<and> leaf s' 0 0x800000 = pte_create (page2ppn 20) (ucast PTE_V OR 0x16)"
proof -
  have la: "(0x800000 :: u64) < USERTOP" by (simp add: USERTOP_def)
  have c: "card ({2..<5} \<union> {8..<13 :: nat}) = 8" by (subst card_Un_disjoint) auto
  from page_insert_maps [OF demo_vm_ok, of 0 "0x800000" "0x16" 20] la c
  show ?thesis by (auto simp: demo_vm_page demo_vm_free demo_vm_leaf pte2page_def same_page_def)
qed

text \<open>C17: \<open>page_remove\<close> clears the entry of a mapped page and changes no other mapping; the
  reference counts stay exact, and the page returns to the free list exactly when this was its
  last mapping. The free list is assumed to hold a block above the page in that case, since freeing
  at the end of a non-empty list corrupts it (\<open>default_free_tail_self_loop\<close>).\<close>

theorem page_remove_unmaps:
  assumes ok: "pt_ok R s xs" and r: "r \<in> R" and la: "la < USERTOP"
    and below: "\<And>q. pte2page (leaf s r la) = Some q \<Longrightarrow> page_ref q s = 1 \<Longrightarrow> xs = [] \<or> (\<exists>x \<in> set xs. q < x)"
  shows "\<exists>s' xs'. page_remove r la s = Some s' \<and> pt_ok R s' xs'
    \<and> (\<forall>r' \<in> R. \<forall>la' < USERTOP. leaf s' r' la' =
         (if r' = r \<and> same_page la' la \<and> leaf s r la AND PTE_V \<noteq> 0 then 0 else leaf s r' la'))
    \<and> free_frames (fa s') xs' = free_frames (fa s) xs \<union> {q. pte2page (leaf s r la) = Some q \<and> page_ref q s = 1}"
proof (cases "pt_of s r la")
  case None
  then have "leaf s r la = 0" by (simp add: leaf_def)
  with None get_pte_lookup [OF ok r la] ok show ?thesis
    by (intro exI [of _ s] exI [of _ xs]) (simp add: page_remove_def pte2page_def)
next
  case (Some b)
  have tok: "tree_ok R s xs" and inv: "fl_inv (fa s) xs" using ok by (simp_all add: pt_ok_def tree_ok_def)
  have b: "b \<in> pts s R" by (rule pt_of_pts [OF r la Some])
  note j = index_bounds(3) [of la]
  note L = leaf_sub [OF ok b j]
  have leaf: "leaf s r la = mem s b (PTX la)" using Some by (simp add: leaf_def)
  have go: "page_remove r la s = page_remove_pte (b, PTX la) s"
    using get_pte_lookup [OF ok r la] Some by (simp add: page_remove_def)
  show ?thesis
  proof (cases "sub s b (PTX la)")
    case None
    then have "mem s b (PTX la) AND PTE_V = 0" using L(1) by simp
    with go leaf ok show ?thesis
      by (intro exI [of _ s] exI [of _ xs]) (simp add: page_remove_pte_def pte2page_def)
  next
    case (Some q)
    note Q = L(3) [OF Some] and V = L(1) and q = L(2) [OF Some]
    let ?t = "page_ref_dec q s"
    have T: "fl_inv (fa ?t) xs" "free_frames (fa ?t) xs = free_frames (fa s) xs"
      "\<And>p. PageReserved (pages (fa ?t) p) = PageReserved (pages (fa s) p)"
      using set_ref_ok [OF inv, of q] Q by (simp_all add: page_ref_dec_def)
    have Tr: "pg_ref (pages (fa ?t) p) = page_ref p s - (if p = q then 1 else 0)" for p
      by (simp add: page_ref_dec_def pages_set_ref page_ref_def)
    obtain f ys where f: "(if page_ref q ?t = 0 then free_page q ?t else Some ?t) = Some (?t\<lparr>fa := f\<rparr>)"
      and F: "fl_inv f ys" "free_frames f ys = free_frames (fa s) xs \<union> {p. p = q \<and> page_ref q s = 1}"
        "\<And>p. pg_ref (pages f p) = page_ref p s - (if p = q then 1 else 0)"
        "\<And>p. p \<noteq> q \<Longrightarrow> PageReserved (pages f p) = PageReserved (pages (fa s) p)"
        "page_ref q s \<noteq> 1 \<Longrightarrow> \<not> PageReserved (pages f q)"
    proof (cases "page_ref q s = 1")
      case True
      have ab: "xs = [] \<or> (\<exists>x \<in> set xs. q < x)" using below q leaf True by simp
      have "q \<notin> free_frames (fa ?t) xs" "\<not> PageReserved (pages (fa ?t) q)" using Q T(2,3) by simp_all
      from default_free_1 [OF T(1) this ab] obtain f ys where "default_free_pages q 1 (fa ?t) = Some f" "fl_inv f ys"
        "free_frames f ys = insert q (free_frames (fa ?t) xs)"
        "\<And>i. i \<noteq> q \<Longrightarrow> pg_ref (pages f i) = pg_ref (pages (fa ?t) i)"
        "\<And>i. i \<noteq> q \<Longrightarrow> PageReserved (pages f i) = PageReserved (pages (fa ?t) i)" by blast
      moreover from this have "pg_ref (pages f q) = 0" using free_frame_ref [of f ys q] by simp
      moreover have "page_ref q ?t = 0" using True by (simp add: page_ref_dec_def page_ref_set)
      ultimately show ?thesis using that [of f ys] T True Tr by (auto simp: free_page_def)
    next
      case False
      then have "page_ref q ?t \<noteq> 0" by (simp add: page_ref_dec_def page_ref_set)
      with False show ?thesis using that [of "fa ?t" xs] T Tr Q by auto
    qed
    let ?s = "(wr (b, PTX la) 0 s)\<lparr>fa := f\<rparr>"
    have "?t\<lparr>fa := f\<rparr> = s\<lparr>fa := f\<rparr>" by (simp add: page_ref_dec_def set_page_ref_def)
    with go f V q Some have run: "page_remove r la s = Some ?s"
      by (simp add: page_remove_pte_def Let_def wr_fa(1))
    have none: "sub ?s b (PTX la) = None" by (simp add: sub_def mem_wr)
    have "pt_ok R ?s ys"
    proof (rule leaf_write_ok [OF ok b j F(1)])
      show "\<forall>p \<in> free_frames f ys. p < NPG" "tables s R \<inter> free_frames f ys = {}"
        using tok Q sub_less [OF Some] unfolding F(2) by (auto simp: tree_ok_def)
      show "pg_ref (pages f p) = page_ref p s + (if sub ?s b (PTX la) = Some p then 1 else 0)
          - (if sub s b (PTX la) = Some p then 1 else 0)" for p
        unfolding F(3) none Some by simp
      show "p \<notin> free_frames f ys \<and> \<not> PageReserved (pages f p)"
        if p: "p \<notin> tables s R" "\<not> PageReserved (pages (fa s) p)" "p \<notin> free_frames (fa s) xs" "maps ?s R p \<noteq> {}" for p
      proof (cases "p = q \<and> page_ref q s = 1")
        case True
        with last_mapping_gone [OF ok b j Some] none p(4) show ?thesis by auto
      next
        case False
        with p F(2,4,5) show ?thesis by (cases "p = q") auto
      qed
    qed simp
    moreover have "leaf ?s r' la' = (if r' = r \<and> same_page la' la then 0 else leaf s r' la')"
      if "r' \<in> R" "la' < USERTOP" for r' la'
      using leaf_wr [OF tok r that(1) la that(2) \<open>pt_of s r la = Some b\<close>] by simp
    moreover have "leaf s r la AND PTE_V \<noteq> 0" using V Some leaf by simp
    moreover have "free_frames f ys = free_frames (fa s) xs \<union> {p. pte2page (leaf s r la) = Some p \<and> page_ref p s = 1}"
      using F(2) q leaf by auto
    ultimately show ?thesis using run by (intro exI [of _ ?s] exI [of _ ys]) simp
  qed
qed

theorem page_remove_unmaps_witness:
  "\<exists>s s' xs xs'. pt_ok {0} s xs \<and> leaf s 0 0x800000 \<noteq> 0 \<and> page_remove 0 0x800000 s = Some s' \<and> pt_ok {0} s' xs'
     \<and> leaf s' 0 0x800000 = 0"
proof -
  have la: "(0x800000 :: u64) < USERTOP" by (simp add: USERTOP_def)
  have c: "card ({2..<5} \<union> {8..<13 :: nat}) = 8" by (subst card_Un_disjoint) auto
  from page_insert_ok [OF demo_vm_ok, of 0 "0x800000" "0x16" 1] la c
  obtain s xs where s: "pt_ok {0} s xs" "leaf s 0 0x800000 = pte_create (page2ppn 1) (ucast PTE_V OR 0x16)"
    by (auto simp: demo_vm_page demo_vm_free demo_vm_leaf pte2page_def same_page_def)
  have V: "leaf s 0 0x800000 AND PTE_V \<noteq> 0" unfolding s(2) by simp
  have "unat (ucast PTE_V OR 0x16 :: u32) < 1024" by (rule perm_small) simp
  then have q: "pte2page (leaf s 0 0x800000) = Some 1"
    unfolding s(2) pte2page_def using pa2page_pte [of 1] by (simp add: NPG_def npage_def nbase_def)
  have "1 < x" if "x \<in> set xs" for x
  proof -
    have inv: "fl_inv (fa s) xs" and tok: "tree_ok {0} s xs" using s(1) by (simp_all add: pt_ok_def tree_ok_def)
    then have x: "x \<in> free_frames (fa s) xs"
      using that fl_inv_pos [OF inv that] by (auto simp: free_frames_def bend_def)
    obtain b where b: "pt_of s 0 0x800000 = Some b" using V by (auto simp: leaf_def split: option.splits)
    have bp: "b \<in> pts s {0}" by (rule pt_of_pts [OF _ la b]) simp
    have m: "mem s b (PTX 0x800000) = leaf s 0 0x800000" using b by (simp add: leaf_def)
    with q V have "sub s b (PTX 0x800000) = Some 1" by (simp add: sub_def pte2page_def)
    from leaf_sub(3) [OF s(1) bp index_bounds(3) this] x have "x \<noteq> 1" by auto
    moreover have "x \<noteq> 0" using x tok by (auto simp: tree_ok_def tables_def)
    ultimately show ?thesis by linarith
  qed
  then have "xs = [] \<or> (\<exists>x \<in> set xs. 1 < x)" by (cases xs) auto
  with page_remove_unmaps [OF s(1), of 0 "0x800000"] la q
  obtain s' xs' where "page_remove 0 0x800000 s = Some s'" "pt_ok {0} s' xs'" "leaf s' 0 0x800000 = 0"
    using V by (auto simp: same_page_def)
  with s(1) V show ?thesis by (intro exI [of _ s] exI [of _ s'] exI [of _ xs] exI [of _ xs']) auto
qed

end
