(* ===== verification/Vmm.thy ===== *)
theory Vmm
  imports Page_Table
begin

text \<open>
  The virtual memory areas of \<open>lab5/kern/mm/vmm.c\<close>: \<open>find_vma\<close> with its one-entry cache,
  \<open>insert_vma_struct\<close>, \<open>mm_map\<close> and \<open>user_mem_check\<close>.

  The list \<open>mmap_list\<close> is the list of the areas in the order of its links. An area is named by
  its value: the code never changes an area once it is linked. The pointer \<open>vm_mm\<close> back to the
  \<open>mm\<close> is left out, since nothing reads it.
\<close>

section \<open>Data\<close>

definition VM_READ :: u32 where "VM_READ = 1"
definition VM_WRITE :: u32 where "VM_WRITE = 2"
definition VM_EXEC :: u32 where "VM_EXEC = 4"
definition VM_STACK :: u32 where "VM_STACK = 8"

record vma_struct =
  vm_start :: u64
  vm_end :: u64
  vm_flags :: u32

record mm_struct =
  mmap_list :: "vma_struct list"
  mmap_cache :: "vma_struct option"
  pgdir :: "nat option"
  map_count :: int
  sm_priv :: bool
  mm_count :: int
  mm_lock :: bool

definition KERNTOP :: u64 where "KERNTOP = KERNBASE + 0x7E00000"

definition KERN_ACCESS :: "u64 \<Rightarrow> u64 \<Rightarrow> bool" where
  "KERN_ACCESS start endp \<longleftrightarrow> KERNBASE \<le> start \<and> start < endp \<and> endp \<le> KERNTOP"

section \<open>Operations\<close>

text \<open>The first argument says whether \<open>kmalloc\<close> finds memory; \<open>sm_priv\<close> is set when swapping is on.\<close>

definition mm_create :: "bool \<Rightarrow> bool \<Rightarrow> mm_struct option" where
  "mm_create kmalloc swap_on =
     (if kmalloc
      then Some \<lparr>mmap_list = [], mmap_cache = None, pgdir = None, map_count = 0, sm_priv = swap_on,
                 mm_count = 0, mm_lock = False\<rparr>
      else None)"

definition vma_create :: "bool \<Rightarrow> u64 \<Rightarrow> u64 \<Rightarrow> u32 \<Rightarrow> vma_struct option" where
  "vma_create kmalloc start endp flags =
     (if kmalloc then Some \<lparr>vm_start = start, vm_end = endp, vm_flags = flags\<rparr> else None)"

definition covers :: "vma_struct \<Rightarrow> u64 \<Rightarrow> bool" where
  "covers v a \<longleftrightarrow> vm_start v \<le> a \<and> a < vm_end v"

definition find_vma :: "u64 \<Rightarrow> mm_struct \<Rightarrow> vma_struct option \<times> mm_struct" where
  "find_vma addr mm =
     (let vma = (case mmap_cache mm of
                   Some v \<Rightarrow> if covers v addr then Some v else find (\<lambda>v. covers v addr) (mmap_list mm)
                 | None \<Rightarrow> find (\<lambda>v. covers v addr) (mmap_list mm))
      in (vma, if vma \<noteq> None then mm\<lparr>mmap_cache := vma\<rparr> else mm))"

definition check_vma_overlap :: "vma_struct \<Rightarrow> vma_struct \<Rightarrow> bool" where
  "check_vma_overlap v w \<longleftrightarrow>
     vm_start v < vm_end v \<and> vm_end v \<le> vm_start w \<and> vm_start w < vm_end w"

text \<open>The scan stops at the first area that starts above the new one; \<open>pre\<close> are the areas before it.\<close>

definition insert_vma_struct :: "vma_struct \<Rightarrow> mm_struct \<Rightarrow> mm_struct option" where
  "insert_vma_struct vma mm =
     (if \<not> vm_start vma < vm_end vma then None
      else let pre = takeWhile (\<lambda>v. \<not> vm_start v > vm_start vma) (mmap_list mm);
               post = dropWhile (\<lambda>v. \<not> vm_start v > vm_start vma) (mmap_list mm)
           in if pre \<noteq> [] \<and> \<not> check_vma_overlap (last pre) vma then None
              else if post \<noteq> [] \<and> \<not> check_vma_overlap vma (hd post) then None
              else Some (mm\<lparr>mmap_list := pre @ vma # post, map_count := map_count mm + 1\<rparr>))"

definition mm_map :: "bool \<Rightarrow> u64 \<Rightarrow> u64 \<Rightarrow> u32 \<Rightarrow> mm_struct \<Rightarrow> (errno option \<times> mm_struct) option" where
  "mm_map kmalloc addr len flags mm =
     (let start = ROUNDDOWN addr PGSIZE; endp = ROUNDUP (addr + len) PGSIZE in
      if \<not> USER_ACCESS start endp then Some (Some E_INVAL, mm)
      else case find_vma start mm of
             (Some v, mm) \<Rightarrow>
               if endp > vm_start v then Some (Some E_INVAL, mm)
               else (case vma_create kmalloc start endp flags of
                       None \<Rightarrow> Some (Some E_NO_MEM, mm)
                     | Some vma \<Rightarrow> map_option (Pair None) (insert_vma_struct vma mm))
           | (None, mm) \<Rightarrow>
               (case vma_create kmalloc start endp flags of
                  None \<Rightarrow> Some (Some E_NO_MEM, mm)
                | Some vma \<Rightarrow> map_option (Pair None) (insert_vma_struct vma mm)))"

definition mm_destroy :: "mm_struct \<Rightarrow> unit option" where
  "mm_destroy mm = (if mm_count mm = 0 then Some () else None)"

lemma find_vma_covers: "fst (find_vma a mm) = Some v \<Longrightarrow> covers v a"
  by (auto simp: find_vma_def Let_def find_Some_iff split: option.splits if_splits)

lemma find_vma_list [simp]: "mmap_list (snd (find_vma a mm)) = mmap_list mm"
  by (simp add: find_vma_def Let_def)

text \<open>The loop of \<open>user_mem_check\<close>: it ends because \<open>find_vma\<close> only returns areas around \<open>start\<close>,
  so that \<open>start = vma->vm_end\<close> moves upwards.\<close>

definition vma_permits :: "vma_struct \<Rightarrow> bool \<Rightarrow> u64 \<Rightarrow> bool" where
  "vma_permits v wflag start \<longleftrightarrow>
     vm_flags v AND (if wflag then VM_WRITE else VM_READ) \<noteq> 0
     \<and> \<not> (wflag \<and> vm_flags v AND VM_STACK \<noteq> 0 \<and> start < vm_start v + PGSIZE)"

function check_loop :: "mm_struct \<Rightarrow> u64 \<Rightarrow> u64 \<Rightarrow> bool \<Rightarrow> bool \<times> mm_struct" where
  "check_loop mm start endp wflag =
     (if start < endp
      then (case fst (find_vma start mm) of
              None \<Rightarrow> (False, snd (find_vma start mm))
            | Some v \<Rightarrow>
                if start < vm_start v then (False, snd (find_vma start mm))
                else if \<not> vma_permits v wflag start then (False, snd (find_vma start mm))
                else check_loop (snd (find_vma start mm)) (vm_end v) endp wflag)
      else (True, mm))"
  by pat_completeness auto
termination
proof (relation "measure (\<lambda>(mm, start, endp, wflag). unat endp - unat start)")
  fix mm start endp wflag v
  assume "start < endp" "fst (find_vma start mm) = Some v"
  then have "start < vm_end v" "start < endp" using find_vma_covers by (auto simp: covers_def)
  then show "((snd (find_vma start mm), vm_end v, endp, wflag), (mm, start, endp, wflag))
      \<in> measure (\<lambda>(mm, start, endp, wflag). unat endp - unat start)"
    by (simp add: word_less_nat_alt)
qed simp

declare check_loop.simps [simp del]

definition user_mem_check :: "mm_struct option \<Rightarrow> u64 \<Rightarrow> u64 \<Rightarrow> bool \<Rightarrow> bool \<times> mm_struct option" where
  "user_mem_check mmo addr len wflag =
     (case mmo of
        Some mm \<Rightarrow>
          if \<not> USER_ACCESS addr (addr + len) then (False, mmo)
          else map_prod id Some (check_loop mm addr (addr + len) wflag)
      | None \<Rightarrow> (KERN_ACCESS addr (addr + len), None))"

section \<open>The invariant of the areas\<close>

definition mm_inv :: "mm_struct \<Rightarrow> bool" where
  "mm_inv mm \<longleftrightarrow> sorted_wrt (\<lambda>v w. vm_end v \<le> vm_start w) (mmap_list mm)
     \<and> (\<forall>v \<in> set (mmap_list mm). vm_start v < vm_end v)
     \<and> (\<forall>v. mmap_cache mm = Some v \<longrightarrow> v \<in> set (mmap_list mm))
     \<and> map_count mm = int (length (mmap_list mm))"

lemma sorted_disjoint:
  assumes "sorted_wrt (\<lambda>v w. vm_end v \<le> vm_start w) vs" "\<forall>v \<in> set vs. vm_start v < vm_end v"
    and "v \<in> set vs" "w \<in> set vs" "covers v a" "covers w a"
  shows "v = w"
  using assms
proof (induction vs)
  case (Cons x vs)
  then have "x = v \<longrightarrow> w \<in> set vs \<longrightarrow> vm_end v \<le> vm_start w" "x = w \<longrightarrow> v \<in> set vs \<longrightarrow> vm_end w \<le> vm_start v" by auto
  with Cons show ?case by (auto simp: covers_def)
qed simp

lemma find_vma_eq:
  assumes "mm_inv mm"
  shows "fst (find_vma a mm) = find (\<lambda>v. covers v a) (mmap_list mm)" "mm_inv (snd (find_vma a mm))"
    and "fst (find_vma a mm) = Some v \<longleftrightarrow> v \<in> set (mmap_list mm) \<and> covers v a"
proof -
  let ?f = "find (\<lambda>v. covers v a) (mmap_list mm)"
  have s: "sorted_wrt (\<lambda>v w. vm_end v \<le> vm_start w) (mmap_list mm)" "\<forall>v \<in> set (mmap_list mm). vm_start v < vm_end v"
    using assms by (simp_all add: mm_inv_def)
  have c: "?f = Some v" if "v \<in> set (mmap_list mm)" "covers v a" for v
  proof (cases ?f)
    case None
    with that show ?thesis by (auto simp: find_None_iff)
  next
    case (Some w)
    then have "w \<in> set (mmap_list mm)" "covers w a" by (auto simp: find_Some_iff)
    with sorted_disjoint [OF s that(1) this(1) that(2) this(2)] Some show ?thesis by simp
  qed
  show f: "fst (find_vma a mm) = ?f"
    using c assms by (auto simp: find_vma_def Let_def mm_inv_def split: option.splits)
  show "fst (find_vma a mm) = Some v \<longleftrightarrow> v \<in> set (mmap_list mm) \<and> covers v a"
    unfolding f using c by (auto simp: find_Some_iff)
  have "x \<in> set (mmap_list mm)" if "?f = Some x" for x using that by (auto simp: find_Some_iff)
  with f assms show "mm_inv (snd (find_vma a mm))" by (auto simp: find_vma_def Let_def mm_inv_def)
qed

end
