(* ===== verification/Vmm_Facts.thy ===== *)
theory Vmm_Facts
  imports Vmm
begin

text \<open>
  The areas of an address space stay sorted and disjoint, the cache of \<open>find_vma\<close> never shows, and
  \<open>user_mem_check\<close> decides whether every byte of a user buffer may be accessed.
\<close>

section \<open>Looking up\<close>

text \<open>C18: \<open>find_vma\<close> returns the one area that contains the address, or none, whatever its cache
  holds: it is equal to the search of the list without the cache. It changes only the cache. An area contains the
  addresses from \<open>vm_start\<close> up to but not including \<open>vm_end\<close>; the comment on the function counts
  \<open>vm_end\<close> as well (\<open>find_vma_misses_end\<close>).\<close>

theorem find_vma_ignores_cache:
  assumes "mm_inv mm"
  shows "fst (find_vma a mm) = find (\<lambda>v. covers v a) (mmap_list mm)
    \<and> (\<forall>v. fst (find_vma a mm) = Some v \<longleftrightarrow> v \<in> set (mmap_list mm) \<and> covers v a)
    \<and> mm_inv (snd (find_vma a mm)) \<and> mmap_list (snd (find_vma a mm)) = mmap_list mm"
  using find_vma_eq [OF assms] by simp

text \<open>At the end address of an area \<open>find_vma\<close> does not find the area: without another area there
  it finds nothing.\<close>

lemma find_vma_misses_end:
  assumes "mm_inv mm"
  shows "fst (find_vma (vm_end v) mm) \<noteq> Some v"
    and "\<forall>w \<in> set (mmap_list mm). w = v \<or> vm_end v < vm_start w \<or> vm_end w \<le> vm_end v \<Longrightarrow>
      fst (find_vma (vm_end v) mm) = None"
proof -
  note F = find_vma_eq(3) [OF assms, of "vm_end v"]
  show "fst (find_vma (vm_end v) mm) \<noteq> Some v" unfolding F covers_def by simp
  assume none: "\<forall>w \<in> set (mmap_list mm). w = v \<or> vm_end v < vm_start w \<or> vm_end w \<le> vm_end v"
  then have "fst (find_vma (vm_end v) mm) \<noteq> Some w" for w unfolding F covers_def by fastforce
  then show "fst (find_vma (vm_end v) mm) = None" by auto
qed

section \<open>Inserting\<close>

definition disjoint_from :: "vma_struct \<Rightarrow> mm_struct \<Rightarrow> bool" where
  "disjoint_from v mm \<longleftrightarrow> (\<forall>w \<in> set (mmap_list mm). vm_end w \<le> vm_start v \<or> vm_end v \<le> vm_start w)"

lemma sorted_last:
  assumes "sorted_wrt (\<lambda>v w. vm_end v \<le> vm_start w) vs" "\<forall>v \<in> set vs. vm_start v < vm_end v" "v \<in> set vs"
  shows "vm_end v \<le> vm_end (last vs)"
proof (cases vs rule: rev_cases)
  case (snoc us u)
  with assms show ?thesis by (auto simp: sorted_wrt_append intro: order_trans less_imp_le)
qed (use assms in simp)

lemma sorted_hd:
  assumes "sorted_wrt (\<lambda>v w. vm_end v \<le> vm_start w) vs" "\<forall>v \<in> set vs. vm_start v < vm_end v" "v \<in> set vs"
  shows "vm_start (hd vs) \<le> vm_start v"
proof (cases vs)
  case (Cons u us)
  with assms show ?thesis by (auto intro: order_trans less_imp_le)
qed (use assms in simp)

lemma insert_vma_eq:
  assumes inv: "mm_inv mm"
  shows "if vm_start v < vm_end v \<and> disjoint_from v mm
    then \<exists>mm'. insert_vma_struct v mm = Some mm' \<and> mm_inv mm' \<and> set (mmap_list mm') = insert v (set (mmap_list mm))
    else insert_vma_struct v mm = None"
proof (cases "vm_start v < vm_end v")
  case v: True
  let ?P = "\<lambda>w. \<not> vm_start w > vm_start v"
  define pre where "pre = takeWhile ?P (mmap_list mm)"
  define post where "post = dropWhile ?P (mmap_list mm)"
  have all: "mmap_list mm = pre @ post" by (simp add: pre_def post_def)
  have s: "sorted_wrt (\<lambda>v w. vm_end v \<le> vm_start w) (pre @ post)" "\<forall>w \<in> set (pre @ post). vm_start w < vm_end w"
    using inv by (simp_all add: mm_inv_def all)
  have sp: "sorted_wrt (\<lambda>v w. vm_end v \<le> vm_start w) pre" "sorted_wrt (\<lambda>v w. vm_end v \<le> vm_start w) post"
    "\<forall>w \<in> set pre. vm_start w < vm_end w" "\<forall>w \<in> set post. vm_start w < vm_end w"
    using s by (auto simp: sorted_wrt_append)
  have lo: "vm_start w \<le> vm_start v" if "w \<in> set pre" for w
    using that set_takeWhileD unfolding pre_def by fastforce
  have hdp: "vm_start v < vm_start (hd post)" if "post \<noteq> []"
    using hd_dropWhile [of ?P "mmap_list mm"] that unfolding post_def by simp
  have hi: "vm_start v < vm_start w" if "w \<in> set post" for w
    using sorted_hd [OF sp(2,4) that] hdp that by (cases post) auto
  have c1: "(pre \<noteq> [] \<and> \<not> check_vma_overlap (last pre) v) \<longleftrightarrow> \<not> (\<forall>w \<in> set pre. vm_end w \<le> vm_start v)"
  proof (cases "pre = []")
    case False
    then have l: "last pre \<in> set pre" by simp
    have "vm_end w \<le> vm_end (last pre)" if "w \<in> set pre" for w using sorted_last [OF sp(1,3) that] .
    with l sp(3) v show ?thesis by (auto simp: check_vma_overlap_def intro: order_trans)
  qed simp
  have c2: "(post \<noteq> [] \<and> \<not> check_vma_overlap v (hd post)) \<longleftrightarrow> \<not> (\<forall>w \<in> set post. vm_end v \<le> vm_start w)"
  proof (cases "post = []")
    case False
    then have l: "hd post \<in> set post" by simp
    have "vm_start (hd post) \<le> vm_start w" if "w \<in> set post" for w using sorted_hd [OF sp(2,4) that] .
    with l sp(4) v show ?thesis by (auto simp: check_vma_overlap_def intro: order_trans)
  qed simp
  have d: "disjoint_from v mm \<longleftrightarrow> (\<forall>w \<in> set pre. vm_end w \<le> vm_start v) \<and> (\<forall>w \<in> set post. vm_end v \<le> vm_start w)"
  proof -
    have "vm_end v \<le> vm_start w \<longleftrightarrow> False" if "w \<in> set pre" for w using lo [OF that] v by auto
    moreover have "vm_end w \<le> vm_start v \<longleftrightarrow> False" if "w \<in> set post" for w
      using hi [OF that] sp(4) that by fastforce
    ultimately show ?thesis by (auto simp: disjoint_from_def all)
  qed
  let ?mm = "mm\<lparr>mmap_list := pre @ v # post, map_count := map_count mm + 1\<rparr>"
  have ins: "insert_vma_struct v mm = (if disjoint_from v mm then Some ?mm else None)"
    using v c1 c2 d unfolding insert_vma_struct_def Let_def pre_def [symmetric] post_def [symmetric] by auto
  have "mm_inv ?mm" if dj: "disjoint_from v mm"
    using inv s v dj unfolding d by (auto simp: mm_inv_def all sorted_wrt_append)
  with ins v show ?thesis by (auto simp: all)
qed (simp add: insert_vma_struct_def)

text \<open>C19: Inserting a non-empty area that is disjoint from every area of the address space succeeds,
  keeps the list sorted and disjoint, the counter exact and the cache valid, and adds just this
  area; with an empty area or one that overlaps another the assertions fail.\<close>

theorem insert_vma_keeps_order:
  assumes "mm_inv mm"
  shows "if vm_start v < vm_end v \<and> disjoint_from v mm
    then \<exists>mm'. insert_vma_struct v mm = Some mm' \<and> mm_inv mm' \<and> set (mmap_list mm') = insert v (set (mmap_list mm))
    else insert_vma_struct v mm = None"
  by (rule insert_vma_eq [OF assms])

section \<open>Mapping a range\<close>

lemma mm_inv_find: "mm_inv mm \<Longrightarrow> mm_inv (snd (find_vma a mm))"
  by (rule find_vma_eq(2))

lemma disjoint_find [simp]: "disjoint_from v (snd (find_vma a mm)) = disjoint_from v mm"
  by (simp add: disjoint_from_def)

lemma mm_map_eq:
  "mm_map room addr len flags mm =
     (let start = ROUNDDOWN addr PGSIZE; endp = ROUNDUP (addr + len) PGSIZE;
          ins = (if room then map_option (Pair None)
              (insert_vma_struct \<lparr>vm_start = start, vm_end = endp, vm_flags = flags\<rparr> (snd (find_vma start mm)))
            else Some (Some E_NO_MEM, snd (find_vma start mm)))
      in if \<not> USER_ACCESS start endp then Some (Some E_INVAL, mm)
         else case fst (find_vma start mm) of
                Some v \<Rightarrow> if endp > vm_start v then Some (Some E_INVAL, snd (find_vma start mm)) else ins
              | None \<Rightarrow> ins)"
  by (simp add: mm_map_def vma_create_def Let_def split: prod.split option.split)

text \<open>C20: \<open>mm_map\<close> refuses, with \<open>E_INVAL\<close>, a range outside the user addresses and a range whose
  first page lies in an area. A range whose first page is unmapped but that runs into a later area
  is not refused: the assertion in \<open>check_vma_overlap\<close> stops the kernel, unless there is no memory
  for a new area (\<open>room\<close>, the answer of \<open>kmalloc\<close>, is false), which gives \<open>E_NO_MEM\<close> first. Otherwise
  the area of the rounded range is added. With an error the areas stay as they are.\<close>

theorem mm_map_outcomes:
  fixes room :: bool and addr len :: u64 and flags :: u32
  assumes inv: "mm_inv mm"
  defines "start \<equiv> ROUNDDOWN addr PGSIZE" and "endp \<equiv> ROUNDUP (addr + len) PGSIZE"
  defines "v \<equiv> \<lparr>vm_start = start, vm_end = endp, vm_flags = flags\<rparr>"
  shows "if \<not> USER_ACCESS start endp then mm_map room addr len flags mm = Some (Some E_INVAL, mm)
    else if \<exists>w \<in> set (mmap_list mm). covers w start
      then \<exists>mm'. mm_map room addr len flags mm = Some (Some E_INVAL, mm') \<and> mm_inv mm' \<and> mmap_list mm' = mmap_list mm
    else if \<not> room
      then \<exists>mm'. mm_map room addr len flags mm = Some (Some E_NO_MEM, mm') \<and> mm_inv mm' \<and> mmap_list mm' = mmap_list mm
    else if \<exists>w \<in> set (mmap_list mm). start < vm_start w \<and> vm_start w < endp then mm_map room addr len flags mm = None
    else \<exists>mm'. mm_map room addr len flags mm = Some (None, mm') \<and> mm_inv mm'
      \<and> set (mmap_list mm') = insert v (set (mmap_list mm))"
proof (cases "USER_ACCESS start endp")
  case acc: True
  then have se: "start < endp" by (simp add: USER_ACCESS_def)
  let ?mm = "snd (find_vma start mm)"
  have I0: "mm_inv ?mm" "mmap_list ?mm = mmap_list mm" using mm_inv_find [OF inv] by simp_all
  show ?thesis
  proof (cases "fst (find_vma start mm)")
    case (Some w)
    then have w: "w \<in> set (mmap_list mm)" "covers w start" using find_vma_eq(3) [OF inv] by blast+
    then have "vm_start w < endp" using se by (auto simp: covers_def)
    with Some acc have "mm_map room addr len flags mm = Some (Some E_INVAL, ?mm)"
      by (simp add: mm_map_eq start_def [symmetric] endp_def [symmetric])
    with acc w I0 show ?thesis by auto
  next
    case None
    have nc: "\<not> covers w start" if "w \<in> set (mmap_list mm)" for w
      using find_vma_eq(3) [OF inv, of start w] that None by simp
    have run: "mm_map room addr len flags mm =
        (if room then map_option (Pair None) (insert_vma_struct v ?mm) else Some (Some E_NO_MEM, ?mm))"
      using acc None by (simp add: mm_map_eq start_def [symmetric] endp_def [symmetric] v_def [symmetric])
    have ord: "vm_start w < vm_end w" if "w \<in> set (mmap_list mm)" for w
      using inv that by (auto simp: mm_inv_def)
    have vv: "vm_start v = start" "vm_end v = endp" by (simp_all add: v_def)
    have dj: "disjoint_from v mm \<longleftrightarrow> \<not> (\<exists>w \<in> set (mmap_list mm). start < vm_start w \<and> vm_start w < endp)"
    proof -
      have "vm_end w \<le> start \<or> endp \<le> vm_start w \<longleftrightarrow> \<not> (start < vm_start w \<and> vm_start w < endp)"
        if "w \<in> set (mmap_list mm)" for w
        using nc [OF that] ord [OF that] se unfolding covers_def by (simp add: not_le not_less) auto
      then show ?thesis unfolding disjoint_from_def vv by blast
    qed
    have nc': "\<not> (\<exists>w \<in> set (mmap_list mm). covers w start)" using nc by blast
    have I: "if start < endp \<and> disjoint_from v mm
      then \<exists>mm'. insert_vma_struct v ?mm = Some mm' \<and> mm_inv mm' \<and> set (mmap_list mm') = insert v (set (mmap_list mm))
      else insert_vma_struct v ?mm = None"
      using insert_vma_eq [OF mm_inv_find [OF inv, of start], of v] unfolding vv find_vma_list disjoint_find .
    show ?thesis
    proof (cases "room \<and> disjoint_from v mm")
      case True
      with I se obtain mm' where "insert_vma_struct v ?mm = Some mm'" "mm_inv mm'"
        "set (mmap_list mm') = insert v (set (mmap_list mm))" by auto
      with run acc nc' True dj show ?thesis by auto
    next
      case False
      then have "room \<Longrightarrow> insert_vma_struct v ?mm = None" using I by simp
      with run acc nc' False dj I0 show ?thesis by (cases room) auto
    qed
  qed
qed (simp add: mm_map_def Let_def start_def endp_def)

section \<open>Checking a user buffer\<close>

lemma check_loop_step:
  "check_loop mm start endp w = (if start < endp
     then (case fst (find_vma start mm) of
             None \<Rightarrow> (False, snd (find_vma start mm))
           | Some v \<Rightarrow> if vma_permits v w start then check_loop (snd (find_vma start mm)) (vm_end v) endp w
                      else (False, snd (find_vma start mm)))
     else (True, mm))"
proof (cases "fst (find_vma start mm)")
  case None
  then show ?thesis by (subst check_loop.simps) simp
next
  case (Some v)
  then have "\<not> start < vm_start v" using find_vma_covers [OF Some] by (auto simp: covers_def)
  with Some show ?thesis by (subst check_loop.simps) simp
qed

text \<open>A byte may be accessed when its area grants the access and, for a write to a stack area, the
  byte is not in the lowest page of the area.\<close>

definition may_access :: "mm_struct \<Rightarrow> bool \<Rightarrow> u64 \<Rightarrow> bool" where
  "may_access mm w a \<longleftrightarrow> (\<exists>v \<in> set (mmap_list mm). covers v a \<and> vma_permits v w a)"

lemma vma_permits_mono: "vma_permits v w a \<Longrightarrow> a \<le> b \<Longrightarrow> vma_permits v w b"
  by (auto simp: vma_permits_def)

lemma may_access_find:
  "mm_inv mm \<Longrightarrow> may_access mm w a \<longleftrightarrow> (\<exists>v. fst (find_vma a mm) = Some v \<and> vma_permits v w a)"
  using find_vma_eq(3) [of mm a] by (auto simp: may_access_def)

lemma check_loop_ok:
  "mm_inv mm \<Longrightarrow> (fst (check_loop mm start endp w) \<longleftrightarrow> (\<forall>a. start \<le> a \<and> a < endp \<longrightarrow> may_access mm w a))
    \<and> mm_inv (snd (check_loop mm start endp w)) \<and> mmap_list (snd (check_loop mm start endp w)) = mmap_list mm"
proof (induction mm start endp w rule: check_loop.induct)
  case (1 mm start endp w)
  let ?mm = "snd (find_vma start mm)"
  have inv': "mm_inv ?mm" by (rule find_vma_eq(2) [OF "1.prems"])
  show ?case
  proof (cases "start < endp")
    case lt: True
    show ?thesis
    proof (cases "fst (find_vma start mm)")
      case None
      then have "\<not> may_access mm w start" using may_access_find [OF "1.prems"] by simp
      with None lt inv' show ?thesis by (subst (1 2 3) check_loop_step) auto
    next
      case (Some v)
      have v: "v \<in> set (mmap_list mm)" "covers v start" using find_vma_eq(3) [OF "1.prems"] Some by blast+
      show ?thesis
      proof (cases "vma_permits v w start")
        case False
        then have "\<not> may_access mm w start" using may_access_find [OF "1.prems"] Some by simp
        with Some lt False inv' show ?thesis by (subst (1 2 3) check_loop_step) auto
      next
        case True
        have step: "check_loop mm start endp w = check_loop ?mm (vm_end v) endp w"
          by (subst check_loop_step) (simp add: lt Some True)
        have IH: "(fst (check_loop ?mm (vm_end v) endp w) \<longleftrightarrow> (\<forall>a. vm_end v \<le> a \<and> a < endp \<longrightarrow> may_access ?mm w a))
          \<and> mm_inv (snd (check_loop ?mm (vm_end v) endp w)) \<and> mmap_list (snd (check_loop ?mm (vm_end v) endp w)) = mmap_list ?mm"
          using "1.IH" [OF lt Some _ _ inv'] v(2) True by (simp add: covers_def not_less)
        have same: "may_access ?mm w a = may_access mm w a" for a by (simp add: may_access_def)
        have own: "may_access mm w a" if "start \<le> a" "a < vm_end v" for a
          using v that vma_permits_mono [OF True that(1)] unfolding may_access_def covers_def
          by (intro bexI [of _ v]) auto
        have "(\<forall>a. vm_end v \<le> a \<and> a < endp \<longrightarrow> may_access mm w a) \<longleftrightarrow> (\<forall>a. start \<le> a \<and> a < endp \<longrightarrow> may_access mm w a)"
          using own v(2) by (meson covers_def leI less_imp_le order.trans)
        with IH show ?thesis unfolding step same by simp
      qed
    qed
  next
    case False
    then show ?thesis using "1.prems" by (subst (1 2 3) check_loop_step) auto
  qed
qed

text \<open>C21: \<open>user_mem_check\<close> always returns, because each round moves to the end of the area around
  the current address; for a process it accepts a buffer exactly when the buffer is a non-empty
  range of user addresses every byte of which lies in an area that grants the access, above the
  guard page for a write to a stack. It changes nothing but the cache.\<close>

theorem user_mem_check_exact:
  assumes "mm_inv mm"
  shows "\<exists>mm'. user_mem_check (Some mm) addr len w =
      (USER_ACCESS addr (addr + len) \<and> (\<forall>a. addr \<le> a \<and> a < addr + len \<longrightarrow> may_access mm w a), Some mm')
    \<and> mm_inv mm' \<and> mmap_list mm' = mmap_list mm"
proof (cases "USER_ACCESS addr (addr + len)")
  case True
  obtain r mm' where c: "check_loop mm addr (addr + len) w = (r, mm')" by (cases "check_loop mm addr (addr + len) w")
  with check_loop_ok [OF assms, of addr "addr + len" w] True show ?thesis
    by (simp add: user_mem_check_def)
qed (use assms in \<open>simp add: user_mem_check_def\<close>)

section \<open>An address space with two areas\<close>

definition demo_mm :: mm_struct where
  "demo_mm = \<lparr>mmap_list = [\<lparr>vm_start = 0x800000, vm_end = 0x802000, vm_flags = 7\<rparr>,
      \<lparr>vm_start = 0x7ff00000, vm_end = 0x80000000, vm_flags = 11\<rparr>],
    mmap_cache = None, pgdir = Some 0, map_count = 2, sm_priv = False, mm_count = 1, mm_lock = False\<rparr>"

lemma demo_mm_inv: "mm_inv demo_mm"
  by (simp add: mm_inv_def demo_mm_def)

theorem find_vma_ignores_cache_witness:
  "fst (find_vma 0x801000 demo_mm) = Some \<lparr>vm_start = 0x800000, vm_end = 0x802000, vm_flags = 7\<rparr>"
  using find_vma_ignores_cache [OF demo_mm_inv, of "0x801000"] by (simp add: demo_mm_def covers_def)

theorem insert_vma_keeps_order_witness:
  "insert_vma_struct \<lparr>vm_start = 0x801000, vm_end = 0x803000, vm_flags = 1\<rparr> demo_mm = None
   \<and> (\<exists>mm'. insert_vma_struct \<lparr>vm_start = 0x802000, vm_end = 0x803000, vm_flags = 1\<rparr> demo_mm = Some mm' \<and> mm_inv mm')"
  using insert_vma_keeps_order [OF demo_mm_inv, of "\<lparr>vm_start = 0x801000, vm_end = 0x803000, vm_flags = 1\<rparr>"]
    insert_vma_keeps_order [OF demo_mm_inv, of "\<lparr>vm_start = 0x802000, vm_end = 0x803000, vm_flags = 1\<rparr>"]
  by (auto simp: demo_mm_def disjoint_from_def)

theorem mm_map_outcomes_witness:
  "mm_map True 0x7fe00000 0x200000 3 demo_mm = None
   \<and> (\<exists>mm'. mm_map False 0x802004 100 3 demo_mm = Some (Some E_NO_MEM, mm') \<and> mmap_list mm' = mmap_list demo_mm)
   \<and> (\<exists>mm'. mm_map True 0x802004 100 3 demo_mm = Some (None, mm') \<and> mm_inv mm')"
  using mm_map_outcomes [OF demo_mm_inv, of "0x7fe00000" "0x200000" True 3] mm_map_outcomes [OF demo_mm_inv, of "0x802004" 100 True 3]
    mm_map_outcomes [OF demo_mm_inv, of "0x802004" 100 False 3]
  by (simp add: demo_mm_def ROUNDDOWN_def ROUNDUP_def PGSIZE_def USER_ACCESS_def USERBASE_def USERTOP_def covers_def)
     blast

theorem user_mem_check_exact_witness:
  "fst (user_mem_check (Some demo_mm) 0x801000 0x1001 False) = False"
proof -
  have "\<not> may_access demo_mm False 0x802000" by (simp add: may_access_def demo_mm_def covers_def)
  moreover have "(0x801000 :: u64) \<le> 0x802000 \<and> 0x802000 < 0x801000 + (0x1001 :: u64)" by simp
  ultimately show ?thesis using user_mem_check_exact [OF demo_mm_inv, of "0x801000" "0x1001" False] by auto
qed

end
