(* ===== verification/Cow.thy ===== *)
theory Cow
  imports Vmm Page_Table
begin

text \<open>
  Copying an address space and handling a page fault: \<open>dup_mmap\<close>, \<open>exit_mmap\<close> and \<open>do_pgfault\<close> of
  \<open>lab5/kern/mm/vmm.c\<close>, and the copy-on-write functions of \<open>lab5/kern/mm/cow.c\<close>.

  The argument \<open>km\<close> says for the i-th \<open>kmalloc\<close> of a call whether it finds memory. An error return
  is \<open>Some\<close> of its number, the return value 0 is \<open>None\<close>, inside the \<open>option\<close> whose \<open>None\<close> is a
  failed assertion or an access through a null pointer.
\<close>

section \<open>Copying the areas\<close>

text \<open>The loop shared by \<open>dup_mmap\<close> and \<open>cow_copy_mmap\<close>, which differ in the copying of one range;
  the areas come in the order of \<open>list_prev\<close>.\<close>

fun copy_areas :: "(u64 \<Rightarrow> u64 \<Rightarrow> vmem \<Rightarrow> (errno option \<times> vmem) option) \<Rightarrow> (nat \<Rightarrow> bool) \<Rightarrow> nat \<Rightarrow>
    vma_struct list \<Rightarrow> mm_struct \<Rightarrow> vmem \<Rightarrow> (errno option \<times> mm_struct \<times> vmem) option" where
  "copy_areas copy km i [] to s = Some (None, to, s)"
| "copy_areas copy km i (v # vs) to s =
     (case vma_create (km i) (vm_start v) (vm_end v) (vm_flags v) of
        None \<Rightarrow> Some (Some E_NO_MEM, to, s)
      | Some nvma \<Rightarrow> do {
          to \<leftarrow> insert_vma_struct nvma to;
          (e, s) \<leftarrow> copy (vm_start v) (vm_end v) s;
          if e \<noteq> None then Some (Some E_NO_MEM, to, s) else copy_areas copy km (i + 1) vs to s })"

definition dup_mmap :: "(nat \<Rightarrow> bool) \<Rightarrow> mm_struct \<Rightarrow> mm_struct \<Rightarrow> vmem \<Rightarrow> (errno option \<times> mm_struct \<times> vmem) option" where
  "dup_mmap km to from s = do {
     td \<leftarrow> pgdir to; fd \<leftarrow> pgdir from;
     copy_areas (copy_range td fd) km 0 (rev (mmap_list from)) to s }"

fun unmap_areas :: "nat \<Rightarrow> vma_struct list \<Rightarrow> vmem \<Rightarrow> vmem option" where
  "unmap_areas d [] s = Some s"
| "unmap_areas d (v # vs) s = do { s \<leftarrow> unmap_range d (vm_start v) (vm_end v) s; unmap_areas d vs s }"

fun exit_areas :: "nat \<Rightarrow> vma_struct list \<Rightarrow> vmem \<Rightarrow> vmem option" where
  "exit_areas d [] s = Some s"
| "exit_areas d (v # vs) s = do { s \<leftarrow> exit_range d (vm_start v) (vm_end v) s; exit_areas d vs s }"

definition exit_mmap :: "mm_struct \<Rightarrow> vmem \<Rightarrow> vmem option" where
  "exit_mmap mm s =
     (if mm_count mm \<noteq> 0 then None
      else if mmap_list mm = [] then Some s
      else do {
        d \<leftarrow> pgdir mm;
        s \<leftarrow> unmap_areas d (mmap_list mm) s;
        exit_areas d (mmap_list mm) s })"

section \<open>Copy on write: \<open>cow.c\<close>\<close>

definition setup_pgdir :: "nat \<Rightarrow> mm_struct \<Rightarrow> vmem \<Rightarrow> (errno option \<times> mm_struct \<times> vmem) option" where
  "setup_pgdir boot_pgdir mm s = do {
     (r, s) \<leftarrow> alloc_page s;
     case r of
       None \<Rightarrow> Some (Some E_NO_MEM, mm, s)
     | Some page \<Rightarrow> do {
         d \<leftarrow> KADDR (page2pa page);
         Some (None, mm\<lparr>pgdir := Some d\<rparr>, fill_page d (mem s boot_pgdir) s) } }"

definition put_pgdir :: "mm_struct \<Rightarrow> vmem \<Rightarrow> vmem option" where
  "put_pgdir mm s = do { d \<leftarrow> pgdir mm; free_page d s }"

definition check_and_prepare_page :: "pteptr \<Rightarrow> vmem \<Rightarrow> (u32 \<times> vmem) option" where
  "check_and_prepare_page ptep s =
     (if rd s ptep AND PTE_V \<noteq> 0
      then let s = wr ptep (rd s ptep AND NOT PTE_W) s
           in Some (ucast (rd s ptep AND PTE_USER AND NOT PTE_W), s)
      else None)"

definition insert_page :: "nat \<Rightarrow> pteptr \<Rightarrow> u64 \<Rightarrow> u32 \<Rightarrow> vmem \<Rightarrow> vmem option" where
  "insert_page to ptep start perm s = do {
     page \<leftarrow> pte2page (rd s ptep);
     (e, s) \<leftarrow> page_insert to page start perm s;
     if e = None then Some s else None }"

partial_function (option) cow_loop :: "nat \<Rightarrow> nat \<Rightarrow> u64 \<Rightarrow> u64 \<Rightarrow> vmem \<Rightarrow> vmem option" where
  "cow_loop to from start endp s =
     (if start < endp
      then do {
        (r, s) \<leftarrow> get_pte from start False s;
        case r of
          None \<Rightarrow> cow_loop to from (ROUNDDOWN (start + PTSIZE) PTSIZE) endp s
        | Some ptep \<Rightarrow> do {
            s \<leftarrow> (case check_and_prepare_page ptep s of
                    None \<Rightarrow> Some s
                  | Some (perm, s) \<Rightarrow> insert_page to ptep start perm s);
            cow_loop to from (start + PGSIZE) endp s } }
      else Some s)"

declare cow_loop.simps [code]

definition cow_copy_range :: "nat \<Rightarrow> nat \<Rightarrow> u64 \<Rightarrow> u64 \<Rightarrow> vmem \<Rightarrow> vmem option" where
  "cow_copy_range to from start endp s =
     (if start mod PGSIZE = 0 \<and> endp mod PGSIZE = 0 \<and> USER_ACCESS start endp
      then cow_loop to from start endp s else None)"

definition cow_copy_mmap :: "(nat \<Rightarrow> bool) \<Rightarrow> mm_struct \<Rightarrow> mm_struct \<Rightarrow> vmem \<Rightarrow> (errno option \<times> mm_struct \<times> vmem) option" where
  "cow_copy_mmap km to from s = do {
     td \<leftarrow> pgdir to; fd \<leftarrow> pgdir from;
     copy_areas (\<lambda>a b s. map_option (Pair None) (cow_copy_range td fd a b s)) km 0 (rev (mmap_list from)) to s }"

text \<open>\<open>lock_mm\<close> takes a free lock at once; waiting for a held lock is not modelled.\<close>

definition lock_mm :: "mm_struct \<Rightarrow> mm_struct option" where
  "lock_mm mm = (if mm_lock mm then None else Some (mm\<lparr>mm_lock := True\<rparr>))"

definition unlock_mm :: "mm_struct \<Rightarrow> mm_struct option" where
  "unlock_mm mm = (if mm_lock mm then Some (mm\<lparr>mm_lock := False\<rparr>) else None)"

text \<open>The result has the return value, the \<open>mm\<close> the child is given, if any, and the old \<open>mm\<close>.
  \<open>ret\<close> starts at 0 and the jumps to \<open>bad_mm\<close> and \<open>bad_pgdir_cleanup_mm\<close> do not set it. The first
  \<open>kmalloc\<close> is that of \<open>mm_create\<close>.\<close>

definition cow_copy_mm :: "nat \<Rightarrow> (nat \<Rightarrow> bool) \<Rightarrow> mm_struct option \<Rightarrow> vmem \<Rightarrow>
    (errno option \<times> mm_struct option \<times> mm_struct option \<times> vmem) option" where
  "cow_copy_mm boot_pgdir km oldmm s =
     (case oldmm of
        None \<Rightarrow> Some (None, None, oldmm, s)
      | Some old \<Rightarrow>
          (case mm_create (km 0) (swap_init_ok s) of
             None \<Rightarrow> Some (None, None, oldmm, s)
           | Some mm \<Rightarrow> do {
               (e, mm, s) \<leftarrow> setup_pgdir boot_pgdir mm s;
               if e \<noteq> None then do { mm_destroy mm; Some (None, None, oldmm, s) }
               else do {
                 old \<leftarrow> lock_mm old;
                 (ret, mm, s) \<leftarrow> cow_copy_mmap (\<lambda>i. km (i + 1)) mm old s;
                 old \<leftarrow> unlock_mm old;
                 if ret \<noteq> None
                 then do {
                   s \<leftarrow> exit_mmap mm s;
                   s \<leftarrow> put_pgdir mm s;
                   mm_destroy mm;
                   Some (ret, None, Some old, s) }
                 else Some (None, Some (mm\<lparr>mm_count := mm_count mm + 1\<rparr>), Some old, s) } }))"

section \<open>Page faults\<close>

definition cow_pgfault :: "nat \<Rightarrow> u64 \<Rightarrow> vmem \<Rightarrow> (errno option \<times> vmem) option" where
  "cow_pgfault d addr s = do {
     (r, s) \<leftarrow> get_pte d addr False s;
     ptep \<leftarrow> r;
     let perm = ucast ((rd s ptep AND PTE_USER) OR PTE_W);
     page \<leftarrow> pte2page (rd s ptep);
     (n, s) \<leftarrow> alloc_page s;
     npg \<leftarrow> n;
     let s = fill_page npg (mem s page) s;
     let start = ROUNDDOWN addr PGSIZE;
     let s = wr ptep 0 s;
     (ret, s) \<leftarrow> page_insert d npg start perm s;
     (r, s) \<leftarrow> get_pte d addr False s;
     Some (ret, s) }"

text \<open>\<open>swap_in\<close>; the reading of the swap entry from the disk is the argument \<open>swapfs_read\<close>.\<close>

definition swap_in :: "(u64 \<Rightarrow> (nat \<Rightarrow> u64) option) \<Rightarrow> nat \<Rightarrow> u64 \<Rightarrow> vmem \<Rightarrow> (nat \<times> vmem) option" where
  "swap_in swapfs_read d addr s = do {
     (r, s) \<leftarrow> alloc_page s;
     result \<leftarrow> r;
     (e, s) \<leftarrow> get_pte d addr False s;
     ptep \<leftarrow> e;
     let s = (case swapfs_read (rd s ptep) of None \<Rightarrow> s | Some ws \<Rightarrow> fill_page result ws s);
     Some (result, s) }"

text \<open>The test for copy on write is \<open>(*ptep & PTE_V) & ~(*ptep & PTE_W)\<close>. The call of
  \<open>swap_map_swappable\<close>, which queues the page for replacement, is left to theory \<open>Swap\<close>.\<close>

definition do_pgfault :: "(u64 \<Rightarrow> (nat \<Rightarrow> u64) option) \<Rightarrow> mm_struct \<Rightarrow> u64 \<Rightarrow> vmem \<Rightarrow>
    (errno option \<times> mm_struct \<times> vmem) option" where
  "do_pgfault swapfs_read mm addr s =
     (case find_vma addr mm of
        (None, mm) \<Rightarrow> Some (Some E_INVAL, mm, s)
      | (Some vma, mm) \<Rightarrow>
          if vm_start vma > addr then Some (Some E_INVAL, mm, s)
          else let perm = ucast PTE_U OR (if vm_flags vma AND VM_WRITE \<noteq> 0 then ucast READ_WRITE else 0);
                   addr = ROUNDDOWN addr PGSIZE
               in do {
                 d \<leftarrow> pgdir mm;
                 (r, s) \<leftarrow> get_pte d addr True s;
                 if r = None then Some (Some E_NO_MEM, mm, s)
                 else do {
                   (r, s) \<leftarrow> get_pte d addr False s;
                   ptep \<leftarrow> r;
                   if (rd s ptep AND PTE_V) AND NOT (rd s ptep AND PTE_W) \<noteq> 0
                   then do { (e, s) \<leftarrow> cow_pgfault d addr s; Some (e, mm, s) }
                   else if rd s ptep = 0
                   then do {
                     (p, s) \<leftarrow> pgdir_alloc_page d addr perm s;
                     Some (if p = None then Some E_NO_MEM else None, mm, s) }
                   else if swap_init_ok s
                   then do {
                     (page, s) \<leftarrow> swap_in swapfs_read d addr s;
                     (e, s) \<leftarrow> page_insert d page addr perm s;
                     Some (if e \<noteq> None then Some E_NO_MEM else None, mm, s) }
                   else Some (Some E_NO_MEM, mm, s) } })"

end
