(* ===== verification/Cow_Facts.thy ===== *)
theory Cow_Facts
  imports Cow Page_Table_Props Vmm_Facts
begin

text \<open>
  Page faults: a fault on a page that is not mapped yet gets a page of its own, a fault on a mapped
  page, writable or not, is taken for copy on write and loses count of the old page.
\<close>

section \<open>A fault on a mapped page\<close>

text \<open>The test before copy on write looks at \<open>PTE_V\<close> only: the complement of \<open>*ptep & PTE_W\<close> has
  every bit but that of \<open>PTE_W\<close> set.\<close>

lemma cow_test: "(x AND PTE_V) AND NOT (x AND PTE_W) \<noteq> 0 \<longleftrightarrow> x AND PTE_V \<noteq> 0" for x :: u64
proof -
  have "(x AND PTE_V) AND NOT (x AND PTE_W) = x AND PTE_V"
    by (rule bit_word_eqI) (auto simp: bit_simps PTE_V_def PTE_W_def)
  then show ?thesis by simp
qed

lemma user_perm_small: "unat (ucast ((x AND PTE_USER) OR PTE_W) :: u32) < 1024"
proof -
  have m: "PTE_USER = mask 5"
    by (simp add: PTE_USER_def PTE_V_def PTE_R_def PTE_W_def PTE_X_def PTE_U_def mask_eq_exp_minus_1)
  have "(x AND PTE_USER) OR PTE_W = take_bit 5 (x OR PTE_W)"
    unfolding m take_bit_eq_mask [symmetric] take_bit_or by (simp add: PTE_W_def)
  then have "unat ((x AND PTE_USER) OR PTE_W) = take_bit 5 (unat (x OR PTE_W))" by (simp only: unsigned_take_bit_eq)
  also have "\<dots> < 2 ^ 5" by (rule take_bit_nat_less_exp)
  finally have "unat ((x AND PTE_USER) OR PTE_W) < 32" by simp
  moreover have "unat (ucast ((x AND PTE_USER) OR PTE_W) :: u32) \<le> unat ((x AND PTE_USER) OR PTE_W)"
    unfolding unsigned_ucast_eq by (rule take_bit_nat_less_eq_self)
  ultimately show ?thesis by linarith
qed

lemma cow_pgfault_eq:
  assumes ok: "pt_ok R s xs" and r: "r \<in> R" and la: "la < USERTOP" "ROUNDDOWN la PGSIZE = la"
    and q: "pte2page (leaf s r la) = Some q" and free: "free_frames (fa s) xs \<noteq> {}"
  obtains p s' where "cow_pgfault r la s = Some (None, s')" "p \<in> free_frames (fa s) xs"
    "leaf s' r la = pte_create (page2ppn p) (ucast PTE_V OR ucast ((leaf s r la AND PTE_USER) OR PTE_W))"
    "mem s' p = mem s q" "page_ref q s' = page_ref q s" "tables s' R = tables s R"
    "int (card (maps s' R q)) = int (card (maps s R q)) - 1"
proof -
  have tok: "tree_ok R s xs" and inv: "fl_inv (fa s) xs" using ok by (simp_all add: pt_ok_def tree_ok_def)
  from q obtain b where b: "pt_of s r la = Some b" by (auto simp: leaf_def pte2page_def split: option.splits)
  have bp: "b \<in> pts s R" by (rule pt_of_pts [OF r la(1) b])
  note j = index_bounds(3) [of la]
  have leaf: "leaf s r la = mem s b (PTX la)" using b by (simp add: leaf_def)
  have sq: "sub s b (PTX la) = Some q" using q leaf by (auto simp: pte2page_def sub_def split: if_splits)
  note Q = leaf_sub(3) [OF ok bp j sq]
  obtain p f xs' where al: "alloc_page s = Some (Some p, s\<lparr>fa := f\<rparr>)" and p: "p \<in> free_frames (fa s) xs"
    and fr: "\<And>i. pg_ref (pages f i) = pg_ref (pages (fa s) i)"
    using alloc_page_ok [OF inv free] by metis
  have pN: "p < NPG" and pt: "p \<notin> tables s R" using tok p by (auto simp: tree_ok_def)
  have pq: "p \<noteq> q" "p \<noteq> b" using p Q bp pt by (auto simp: tables_def)
  let ?perm = "ucast ((leaf s r la AND PTE_USER) OR PTE_W) :: u32"
  let ?v = "pte_create (page2ppn p) (ucast PTE_V OR ?perm)"
  let ?e = "(b, PTX la)"
  let ?s2 = "fill_page p (mem s q) (s\<lparr>fa := f\<rparr>)"
  let ?s3 = "wr ?e 0 ?s2"
  let ?s' = "wr ?e ?v (page_ref_inc p ?s3)"
  have sub2: "sub ?s2 a i = sub s a i" if "a \<noteq> p" for a i using that by (simp add: sub_def fill_page_def)
  have bn: "b \<notin> R" "b \<notin> dirs s R" using bp tree_disjoint [OF tok] by auto
  have path: "pt_of t r la = Some b" if "\<And>a i. a \<noteq> p \<Longrightarrow> a \<noteq> b \<Longrightarrow> sub t a i = sub s a i" for t
  proof -
    from b obtain d where d: "sub s r (PDX1 la) = Some d" "sub s d (PDX0 la) = Some b"
      by (auto simp: pt_of_def bind_eq_Some_conv)
    have "d \<in> dirs s R" by (rule sub_dirs [OF r PDX1_user [OF la(1)] d(1)])
    then have "d \<noteq> p" "d \<noteq> b" "r \<noteq> p" "r \<noteq> b" using pt bn r by (auto simp: tables_def)
    with d that show ?thesis by (simp add: pt_of_def)
  qed
  have sub3: "sub ?s3 a i = sub s a i" if "a \<noteq> p" "a \<noteq> b" for a i
    using that sub2 sub_wr [of a i ?e 0 ?s2] by simp
  have pi: "page_insert r p la ?perm ?s3 = Some (None, ?s')"
  proof -
    have "get_pte r la True ?s3 = Some (Some ?e, ?s3)" by (rule get_pte_found [OF path [OF sub3]])
    moreover have "rd (page_ref_inc p ?s3) ?e AND PTE_V = 0" by (simp add: page_ref_inc_def mem_wr)
    ultimately show ?thesis by (simp add: page_insert_def)
  qed
  have subn: "sub ?s' a i = sub s a i" if "a \<noteq> p" "a \<noteq> b" for a i
  proof -
    have "mem ?s' a = mem ?s3 a" using that(2) by (simp add: wr_def page_ref_inc_def)
    then have "sub ?s' a i = sub ?s3 a i" by (simp only: sub_def)
    with sub3 that show ?thesis by simp
  qed
  have m: "rd s ?e = leaf s r la" "rd ?s2 ?e = leaf s r la" using pq leaf by (simp_all add: fill_page_def)
  have run: "cow_pgfault r la s = Some (None, ?s')"
    using get_pte_found [OF b, of False] q al pi la(2) m get_pte_found [OF path [OF subn], of False]
    by (simp add: cow_pgfault_def fill_page_def)
  have sn: "sub ?s' b (PTX la) = Some p"
    using pa2page_pte [OF pN perm_small [OF user_perm_small]] by (simp add: sub_def mem_wr)
  have subb: "sub ?s' b i = sub s b i" if "i \<noteq> PTX la" for i
    using that pq(2) by (simp add: sub_def mem_wr page_ref_inc_def fill_page_def)
  have d: "dirs ?s' R = dirs s R"
  proof -
    have "sub ?s' a i = sub s a i" if "a \<in> R" for a i using subn [of a i] that pt bn(1) by (auto simp: tables_def)
    then show ?thesis by (simp add: dirs_def cong: bex_cong)
  qed
  have pts: "pts ?s' R = pts s R"
  proof -
    have "sub ?s' a i = sub s a i" if "a \<in> dirs s R" for a i using subn [of a i] that pt bn(2) by (auto simp: tables_def)
    then show ?thesis by (simp add: pts_def d cong: bex_cong)
  qed
  have tb: "tables ?s' R = tables s R" by (simp add: tables_def d pts)
  have pp: "p \<notin> pts s R" using pt by (simp add: tables_def)
  have mp: "maps ?s' R q = maps s R q - {?e}"
  proof (rule set_eqI)
    fix x :: "nat \<times> nat"
    obtain c k where x: "x = (c, k)" by (cases x)
    show "x \<in> maps ?s' R q \<longleftrightarrow> x \<in> maps s R q - {?e}"
    proof (cases "c = b")
      case True
      with sn subb [of k] pq(1) show ?thesis unfolding x maps_def pts by (cases "k = PTX la") auto
    next
      case False
      have "sub ?s' c k = sub s c k" if "c \<in> pts s R" using subn [of c k] False pp that by blast
      with False show ?thesis unfolding x maps_def pts by auto
    qed
  qed
  have "?e \<in> maps s R q" using bp j sq by (simp add: maps_def)
  then have card: "int (card (maps ?s' R q)) = int (card (maps s R q)) - 1"
    unfolding mp using card.remove [OF finite_maps, of ?e s R q] by simp
  have lf: "leaf ?s' r la = ?v" using path [OF subn] by (simp add: leaf_def mem_wr)
  have "mem ?s' p = mem s q" using pq by (simp add: wr_def page_ref_inc_def fill_page_def)
  moreover have "page_ref q ?s' = page_ref q s"
    using pq fr by (simp add: page_ref_inc_def page_ref_set page_ref_def wr_fa pages_set_ref fill_page_def)
  ultimately show ?thesis using that [OF run p lf] tb card by blast
qed

lemma rounddown_page:
  "ROUNDDOWN a PGSIZE \<le> a" "ROUNDDOWN (ROUNDDOWN a PGSIZE) PGSIZE = ROUNDDOWN a PGSIZE"
proof -
  have m: "unat (a mod 4096) \<le> unat a" "unat (a mod 4096) = unat a mod 4096" by (simp_all add: unat_mod)
  have u: "unat (a - a mod 4096) = unat a - unat a mod 4096" using m by (simp add: unat_sub word_le_nat_alt)
  show "ROUNDDOWN a PGSIZE \<le> a" by (simp add: ROUNDDOWN_def PGSIZE_def word_le_nat_alt u)
  have n: "(unat a - unat a mod 4096) mod 4096 = 0" by (simp add: minus_mod_eq_mult_div)
  have "unat ((a - a mod 4096) mod 4096) = (unat a - unat a mod 4096) mod 4096" by (simp only: unat_mod u) simp
  then have "unat ((a - a mod 4096) mod 4096) = 0" using n by (simp only:)
  then have "(a - a mod 4096) mod 4096 = 0" by (simp only: unat_eq_0)
  then show "ROUNDDOWN (ROUNDDOWN a PGSIZE) PGSIZE = ROUNDDOWN a PGSIZE" by (simp add: ROUNDDOWN_def PGSIZE_def)
qed

lemma do_pgfault_enter:
  assumes inv: "mm_inv mm" and v: "v \<in> set (mmap_list mm)" "covers v addr" and d: "pgdir mm = Some r"
    and g: "get_pte r (ROUNDDOWN addr PGSIZE) True s = Some (Some e, s1)"
      "get_pte r (ROUNDDOWN addr PGSIZE) False s1 = Some (Some e, s1)"
  defines "perm \<equiv> ucast PTE_U OR (if vm_flags v AND VM_WRITE \<noteq> 0 then ucast READ_WRITE else 0)"
  shows "do_pgfault io mm addr s =
    (if rd s1 e AND PTE_V \<noteq> 0
     then map_option (\<lambda>(e, s). (e, snd (find_vma addr mm), s)) (cow_pgfault r (ROUNDDOWN addr PGSIZE) s1)
     else if rd s1 e = 0
     then map_option (\<lambda>(p, s). (if p = None then Some E_NO_MEM else None, snd (find_vma addr mm), s))
            (pgdir_alloc_page r (ROUNDDOWN addr PGSIZE) perm s1)
     else if swap_init_ok s1
     then do {
       (page, s) \<leftarrow> swap_in io r (ROUNDDOWN addr PGSIZE) s1;
       (e, s) \<leftarrow> page_insert r page (ROUNDDOWN addr PGSIZE) perm s;
       Some (if e \<noteq> None then Some E_NO_MEM else None, snd (find_vma addr mm), s) }
     else Some (Some E_NO_MEM, snd (find_vma addr mm), s1))"
proof -
  obtain mm' where fv: "find_vma addr mm = (Some v, mm')"
    using find_vma_eq(3) [OF inv, of addr v] v by (cases "find_vma addr mm") auto
  then have d': "pgdir mm' = Some r" using d by (auto simp: find_vma_def Let_def split: if_splits)
  have nv: "\<not> vm_start v > addr" using v(2) by (auto simp: covers_def)
  show ?thesis
    using nv d' g unfolding do_pgfault_def fv cow_test
    by (simp add: perm_def [symmetric] Let_def split: option.split prod.split)
       (simp add: map_option_case split: option.split)
qed

text \<open>A page fault in an area whose page is mapped, read-only or not, is handled as copy on write:
  the address is mapped, writable, to a fresh page with the same contents, but the entry of the old
  page is cleared without its reference count going down. The count is too high from then on, so
  the old page is never freed.\<close>

theorem do_pgfault_loses_page:
  assumes "mm_inv mm" "v \<in> set (mmap_list mm)" "covers v addr" "pgdir mm = Some r"
    and ok: "pt_ok R s xs" and r: "r \<in> R" and addr: "addr < USERTOP"
    and q: "pte2page (leaf s r (ROUNDDOWN addr PGSIZE)) = Some q" and free: "free_frames (fa s) xs \<noteq> {}"
  shows "\<exists>p s'. do_pgfault io mm addr s = Some (None, snd (find_vma addr mm), s') \<and> p \<in> free_frames (fa s) xs
    \<and> pte2page (leaf s' r (ROUNDDOWN addr PGSIZE)) = Some p \<and> mem s' p = mem s q
    \<and> page_ref q s' = page_ref q s \<and> int (card (maps s' R q)) = int (card (maps s R q)) - 1
    \<and> \<not> counts_ok R s'"
proof -
  let ?la = "ROUNDDOWN addr PGSIZE"
  have la: "?la < USERTOP" using rounddown_page(1) addr by (rule le_less_trans)
  obtain p s' where c: "cow_pgfault r ?la s = Some (None, s')" "p \<in> free_frames (fa s) xs"
    "leaf s' r ?la = pte_create (page2ppn p) (ucast PTE_V OR ucast ((leaf s r ?la AND PTE_USER) OR PTE_W))"
    "mem s' p = mem s q" "page_ref q s' = page_ref q s" "tables s' R = tables s R"
    "int (card (maps s' R q)) = int (card (maps s R q)) - 1"
    using cow_pgfault_eq [OF ok r la rounddown_page(2) q free] by metis
  from q obtain b where b: "pt_of s r ?la = Some b" by (auto simp: leaf_def pte2page_def split: option.splits)
  have V: "rd s (b, PTX ?la) AND PTE_V \<noteq> 0" using q b by (auto simp: leaf_def pte2page_def split: if_splits)
  have run: "do_pgfault io mm addr s = Some (None, snd (find_vma addr mm), s')"
    using do_pgfault_enter [OF assms(1-4) get_pte_found [OF b] get_pte_found [OF b]] V c(1) by simp
  have "p < NPG" using ok c(2) by (auto simp: pt_ok_def tree_ok_def)
  then have lp: "pte2page (leaf s' r ?la) = Some p"
    using pa2page_pte [OF _ perm_small [OF user_perm_small]] unfolding c(3) pte2page_def by simp
  have bp: "b \<in> pts s R" by (rule pt_of_pts [OF r la b])
  have sq: "sub s b (PTX ?la) = Some q" using q b by (auto simp: leaf_def pte2page_def sub_def split: if_splits)
  have "q \<notin> tables s R" using leaf_sub(3) [OF ok bp index_bounds(3) sq] by simp
  then have "page_ref q s = int (card (maps s R q))" "q \<notin> tables s' R"
    using ok c(6) by (simp_all add: pt_ok_def counts_ok_def)
  then have "\<not> counts_ok R s'" using c(5,7) unfolding counts_ok_def by (intro notI) (drule spec [of _ q], simp)
  with run c lp show ?thesis by blast
qed

section \<open>A fault on a page that is not mapped\<close>

lemma get_pte_enough:
  assumes "pt_ok R s xs" "r \<in> R" "la < USERTOP" and n: "2 \<le> card (free_frames (fa s) xs)"
  obtains b s' xs' where "get_pte r la True s = Some (Some (b, PTX la), s')" "grown R s xs s' xs'"
    "pt_of s' r la = Some b" "card (free_frames (fa s) xs) \<le> card (free_frames (fa s') xs') + 2"
proof (rule get_pte_create [OF assms(1-3)])
  show "swap_init_ok s \<longrightarrow> 2 \<le> card (free_frames (fa s) xs)" using n by simp
qed (use n that in auto)

lemma alloc_pt_ok:
  assumes ok: "pt_ok R s xs" and f: "fl_inv f ys" "free_frames f ys = free_frames (fa s) xs - {p}"
    and g: "\<And>i. pg_ref (pages f i) = pg_ref (pages (fa s) i)"
      "\<And>i. PageReserved (pages f i) = PageReserved (pages (fa s) i)"
  shows "pt_ok R (s\<lparr>fa := f\<rparr>) ys"
proof -
  have tok: "tree_ok R s xs" and lok: "leaves_ok R s xs" and cok: "counts_ok R s" using ok by (simp_all add: pt_ok_def)
  have "tree_ok R (s\<lparr>fa := f\<rparr>) ys" by (rule fa_upd_ok [OF tok f(1)]) (use tok f(2) in \<open>auto simp: tree_ok_def\<close>)
  moreover have "leaves_ok R (s\<lparr>fa := f\<rparr>) ys" using lok unfolding leaves_ok_def by (simp add: f(2) g(2)) blast
  moreover have "counts_ok R (s\<lparr>fa := f\<rparr>)" using cok g(1) by (simp add: counts_ok_def page_ref_def)
  ultimately show ?thesis by (simp add: pt_ok_def)
qed

definition vma_perm :: "vma_struct \<Rightarrow> u32" where
  "vma_perm v = ucast PTE_U OR (if vm_flags v AND VM_WRITE \<noteq> 0 then ucast READ_WRITE else 0)"

lemma vma_perm_values: "vma_perm v = (if vm_flags v AND VM_WRITE \<noteq> 0 then 0x17 else 0x10)"
  by (simp add: vma_perm_def PTE_U_def READ_WRITE_def PTE_R_def PTE_W_def PTE_V_def)

text \<open>C22: With at least five pages free, a page fault in an area, on a page that was never mapped, maps
  a page that was free, accessible to the user and writable if the area is, changes no other mapping of any address
  space and keeps the page tables consistent. In an area that may not be written, the new entry
  grants no read access either.\<close>

theorem do_pgfault_maps_page:
  assumes inv: "mm_inv mm" and v: "v \<in> set (mmap_list mm)" "covers v addr" and d: "pgdir mm = Some r"
    and ok: "pt_ok R s xs" and r: "r \<in> R" and addr: "addr < USERTOP"
    and none: "leaf s r (ROUNDDOWN addr PGSIZE) = 0" and free: "5 \<le> card (free_frames (fa s) xs)"
  shows "\<exists>p s' xs'. do_pgfault io mm addr s = Some (None, snd (find_vma addr mm), s') \<and> pt_ok R s' xs'
    \<and> p \<in> free_frames (fa s) xs
    \<and> (\<forall>r' \<in> R. \<forall>la' < USERTOP. leaf s' r' la' =
         (if r' = r \<and> same_page la' (ROUNDDOWN addr PGSIZE) then pte_create (page2ppn p) (ucast PTE_V OR vma_perm v)
          else leaf s r' la'))
    \<and> (vm_flags v AND VM_WRITE = 0 \<longrightarrow> leaf s' r (ROUNDDOWN addr PGSIZE) AND (PTE_R OR PTE_W OR PTE_X) = 0)"
proof -
  let ?la = "ROUNDDOWN addr PGSIZE"
  have la: "?la < USERTOP" using rounddown_page(1) addr by (rule le_less_trans)
  have "2 \<le> card (free_frames (fa s) xs)" using free by simp
  from get_pte_enough [OF ok r la this] obtain b s1 ys where
    g: "get_pte r ?la True s = Some (Some (b, PTX ?la), s1)" "grown R s xs s1 ys" "pt_of s1 r ?la = Some b"
      "card (free_frames (fa s) xs) \<le> card (free_frames (fa s1) ys) + 2" .
  note G = grownD [OF g(2)]
  have tok: "tree_ok R s1 ys" and inv1: "fl_inv (fa s1) ys" using G(1) by (simp_all add: pt_ok_def tree_ok_def)
  have z: "rd s1 (b, PTX ?la) = 0" using G(9) [OF r la] none g(3) by (simp add: leaf_def)
  have ne: "free_frames (fa s1) ys \<noteq> {}" using g(4) free by auto
  from alloc_page_ok [OF inv1 ne] obtain p f zs where al: "alloc_page s1 = Some (Some p, s1\<lparr>fa := f\<rparr>)"
    and f: "fl_inv f zs" and p: "p \<in> free_frames (fa s1) ys" and fr: "free_frames f zs = free_frames (fa s1) ys - {p}"
    and gg: "\<And>i. pg_ref (pages f i) = pg_ref (pages (fa s1) i)"
      "\<And>i. PageReserved (pages f i) = PageReserved (pages (fa s1) i)" by blast
  let ?s2 = "s1\<lparr>fa := f\<rparr>"
  have ok2: "pt_ok R ?s2 zs" by (rule alloc_pt_ok [OF G(1) f fr gg])
  have pN: "p < NPG" "p \<notin> tables ?s2 R" "p \<notin> free_frames (fa ?s2) zs" "\<not> PageReserved (pages (fa ?s2) p)"
  proof -
    show "p < NPG" "p \<notin> tables ?s2 R" "p \<notin> free_frames (fa ?s2) zs" using tok p fr by (auto simp: tree_ok_def)
    show "\<not> PageReserved (pages (fa ?s2) p)"
      using p fl_inv_frames [OF inv1] gg(2) by (auto simp: free_frames_def)
  qed
  have c2: "2 \<le> card (free_frames (fa ?s2) zs)"
    using g(4) free fr p free_frames_finite [of "fa s1" ys] by (simp add: card_Diff_singleton)
  have lf2: "leaf ?s2 r ?la = 0" using g(3) z by (simp add: leaf_def)
  have pm: "unat (vma_perm v) < 1024" by (simp add: vma_perm_values)
  have "\<forall>q. pte2page (leaf ?s2 r ?la) = Some q \<and> q \<noteq> p \<longrightarrow> 1 < page_ref q ?s2" using lf2 by (simp add: pte2page_def)
  from page_insert_ok [OF ok2 r la pm pN _ this] c2 obtain s3 ws where
    pi: "page_insert r p ?la (vma_perm v) ?s2 = Some (None, s3)" "pt_ok R s3 ws"
    and lv: "\<forall>r' \<in> R. \<forall>la' < USERTOP. leaf s3 r' la' = (if r' = r \<and> same_page la' ?la
        then pte_create (page2ppn p) (ucast PTE_V OR vma_perm v) else leaf ?s2 r' la')" by fastforce
  have "pgdir_alloc_page r ?la (vma_perm v) s1 = Some (Some p, s3)"
    using al pi(1) by (simp add: pgdir_alloc_page_def)
  then have run: "do_pgfault io mm addr s = Some (None, snd (find_vma addr mm), s3)"
    using do_pgfault_enter [OF inv v d g(1) get_pte_found [OF g(3)]] z by (simp add: vma_perm_def)
  have lv': "\<forall>r' \<in> R. \<forall>la' < USERTOP. leaf s3 r' la' = (if r' = r \<and> same_page la' ?la
        then pte_create (page2ppn p) (ucast PTE_V OR vma_perm v) else leaf s r' la')"
    using lv G(9) by simp
  have ps: "p \<in> free_frames (fa s) xs" using p G(5) by simp
  have ro: "leaf s3 r ?la AND (PTE_R OR PTE_W OR PTE_X) = 0" if "vm_flags v AND VM_WRITE = 0"
  proof -
    have "leaf s3 r ?la = pte_create (page2ppn p) (ucast PTE_V OR 0x10)"
      using lv' r la that by (simp add: same_page_def vma_perm_values)
    also have "\<dots> = push_bit 10 (page2ppn p) OR 0x11" by (simp add: pte_create_def PTE_V_def or.assoc)
    finally have e: "leaf s3 r ?la = push_bit 10 (page2ppn p) OR 0x11" .
    have "push_bit 10 (page2ppn p) AND 0xE = 0"
    proof (rule bit_word_eqI)
      fix n
      have "bit (0xE :: u64) n \<Longrightarrow> n < 4" using bit_small [of "0xE :: u64" 4 n] by (cases "n < 4") auto
      then show "bit (push_bit 10 (page2ppn p) AND 0xE) n = bit 0 n" by (auto simp: bit_and_iff bit_push_bit_iff)
    qed
    then show ?thesis unfolding e by (simp add: PTE_R_def PTE_W_def PTE_X_def bit.conj_disj_distrib2)
  qed
  show ?thesis using run pi(2) ps lv' ro by blast
qed

section \<open>Example faults\<close>

lemma demo_addr: "ROUNDDOWN 0x801234 PGSIZE = 0x801000" "(0x801234 :: u64) < USERTOP" "(0x801000 :: u64) < USERTOP"
  by (simp_all add: ROUNDDOWN_def PGSIZE_def USERTOP_def)

lemma demo_area:
  "\<lparr>vm_start = 0x800000, vm_end = 0x802000, vm_flags = 7\<rparr> \<in> set (mmap_list demo_mm)"
  "covers \<lparr>vm_start = 0x800000, vm_end = 0x802000, vm_flags = 7\<rparr> 0x801234" "pgdir demo_mm = Some 0"
  by (simp_all add: demo_mm_def covers_def)

lemma demo_vm_card: "card (free_frames (fa demo_vm) [2, 8]) = 8"
  unfolding demo_vm_free by (subst card_Un_disjoint) auto

lemma demo_perm: "vma_perm \<lparr>vm_start = 0x800000, vm_end = 0x802000, vm_flags = 7\<rparr> = 0x17"
  by (simp add: vma_perm_values VM_WRITE_def)

theorem do_pgfault_maps_page_witness:
  "\<exists>p s' xs'. do_pgfault (\<lambda>_. None) demo_mm 0x801234 demo_vm = Some (None, snd (find_vma 0x801234 demo_mm), s')
     \<and> pt_ok {0} s' xs' \<and> leaf s' 0 0x801000 = pte_create (page2ppn p) (ucast PTE_V OR 0x17)"
proof -
  have "leaf demo_vm 0 (ROUNDDOWN 0x801234 PGSIZE) = 0" "5 \<le> card (free_frames (fa demo_vm) [2, 8])"
    by (simp_all add: demo_vm_leaf demo_vm_card)
  from do_pgfault_maps_page [OF demo_mm_inv demo_area demo_vm_ok _ demo_addr(2) this, of "\<lambda>_. None"] obtain p s' xs'
    where r: "do_pgfault (\<lambda>_. None) demo_mm 0x801234 demo_vm = Some (None, snd (find_vma 0x801234 demo_mm), s')"
      "pt_ok {0} s' xs'" and l: "\<forall>r' \<in> {0}. \<forall>la' < USERTOP. leaf s' r' la' =
         (if r' = 0 \<and> same_page la' (ROUNDDOWN 0x801234 PGSIZE) then pte_create (page2ppn p) (ucast PTE_V OR 0x17)
          else leaf demo_vm r' la')" unfolding demo_perm by blast
  have "leaf s' 0 0x801000 = pte_create (page2ppn p) (ucast PTE_V OR 0x17)"
    using l demo_addr(3) unfolding demo_addr(1) by (simp add: same_page_def)
  with r show ?thesis by blast
qed

theorem do_pgfault_loses_page_witness:
  "\<exists>s p s'. do_pgfault (\<lambda>_. None) demo_mm 0x801234 s = Some (None, snd (find_vma 0x801234 demo_mm), s')
     \<and> page_ref 20 s = 1 \<and> page_ref 20 s' = 1 \<and> pte2page (leaf s' 0 0x801000) = Some p \<and> \<not> counts_ok {0} s'"
proof -
  have "\<forall>q. pte2page (leaf demo_vm 0 0x801000) = Some q \<and> q \<noteq> 20 \<longrightarrow> 1 < page_ref q demo_vm"
    by (simp add: demo_vm_leaf pte2page_def)
  from page_insert_ok [OF demo_vm_ok _ demo_addr(3) _ demo_vm_page _ this, of "0x16"] demo_vm_card
  obtain s xs where s: "pt_ok {0} s xs" "leaf s 0 0x801000 = pte_create (page2ppn 20) (ucast PTE_V OR 0x16)"
    and ins: "inserted {0} demo_vm [2, 8] 20 (pte2page (leaf demo_vm 0 0x801000)) True s xs"
    using demo_addr(3) by (auto simp: same_page_def)
  have "unat (ucast PTE_V OR 0x16 :: u32) < 1024" by (rule perm_small) simp
  then have q: "pte2page (leaf s 0 (ROUNDDOWN 0x801234 PGSIZE)) = Some 20"
    unfolding demo_addr(1) s(2) pte2page_def using pa2page_pte [of 20] by (simp add: NPG_def npage_def nbase_def)
  have ne: "free_frames (fa s) xs \<noteq> {}" using ins demo_vm_card unfolding inserted_def by fastforce
  obtain b where b: "pt_of s 0 0x801000 = Some b" using q by (auto simp: demo_addr leaf_def pte2page_def split: option.splits)
  have bp: "b \<in> pts s {0}" by (rule pt_of_pts [OF _ demo_addr(3) b]) simp
  have "sub s b (PTX 0x801000) = Some 20" using q b by (auto simp: demo_addr leaf_def pte2page_def sub_def split: if_splits)
  then have "20 \<notin> tables s {0}" using leaf_sub(3) [OF s(1) bp index_bounds(3)] by blast
  moreover have "page_ref 20 demo_vm = 0" by (simp add: page_ref_def demo_vm_def ex_area_def used_page_def)
  ultimately have "page_ref 20 s = 1" using ins unfolding inserted_def by (simp add: demo_vm_leaf pte2page_def)
  with do_pgfault_loses_page [OF demo_mm_inv demo_area s(1) _ demo_addr(2) q ne, of "\<lambda>_. None"] show ?thesis
    by (auto simp: demo_addr)
qed

end
