(* ===== verification/Swap.thy ===== *)
theory Swap
  imports Dlist_Heap
begin

text \<open>
  The page replacement managers: \<open>swap_fifo.c\<close> of \<open>lab3\<close> and of \<open>lab5\<close>, \<open>swap_clock.c\<close> and
  \<open>swap_lru.c\<close> of \<open>lab3\<close>, on the doubly linked list behind \<open>pra_list_head\<close>. A page is named by the
  index of its descriptor. The page-table side of \<open>swap_lru.c\<close> (making pages unreadable) is not
  modelled.
\<close>

section \<open>The managers\<close>

datatype pranode = PraHead | PraLink (pra_page: nat)

record pra =
  plinks :: "pranode links"
  visited :: "nat \<Rightarrow> bool"
  curr_ptr :: pranode

definition fifo_init_mm :: "pra \<Rightarrow> pra" where
  "fifo_init_mm s = s\<lparr>plinks := list_init PraHead (plinks s)\<rparr>"

subsection \<open>First in, first out\<close>

definition fifo_map_swappable :: "nat \<Rightarrow> pra \<Rightarrow> pra" where
  "fifo_map_swappable page s = s\<lparr>plinks := list_add PraHead (PraLink page) (plinks s)\<rparr>"

text \<open>The victim is \<open>None\<close> for the null pointer.\<close>

definition fifo_swap_out_victim :: "pra \<Rightarrow> (nat option \<times> pra) option" where
  "fifo_swap_out_victim s =
     (let entry = list_prev PraHead (plinks s) in
      if entry \<noteq> PraHead
      then Some (Some (pra_page entry), s\<lparr>plinks := list_del entry (plinks s)\<rparr>)
      else Some (None, s))"

text \<open>The version of \<open>lab5\<close> adds at the other end and does not test for an empty list: it then takes
  the header for a page, which is the outer \<open>None\<close>.\<close>

definition fifo5_map_swappable :: "nat \<Rightarrow> pra \<Rightarrow> pra" where
  "fifo5_map_swappable page s = s\<lparr>plinks := list_add_before PraHead (PraLink page) (plinks s)\<rparr>"

definition fifo5_swap_out_victim :: "pra \<Rightarrow> (nat option \<times> pra) option" where
  "fifo5_swap_out_victim s =
     (case list_next PraHead (plinks s) of
        PraHead \<Rightarrow> None
      | PraLink page \<Rightarrow> Some (Some page, s\<lparr>plinks := list_del (PraLink page) (plinks s)\<rparr>))"

subsection \<open>Clock\<close>

definition clock_init_mm :: "pra \<Rightarrow> pra" where
  "clock_init_mm s = s\<lparr>plinks := list_init PraHead (plinks s), curr_ptr := PraHead\<rparr>"

definition clock_map_swappable :: "nat \<Rightarrow> pra \<Rightarrow> pra" where
  "clock_map_swappable page s =
     s\<lparr>plinks := list_add (prv (plinks s) PraHead) (PraLink page) (plinks s), visited := (visited s)(page := True)\<rparr>"

text \<open>The loop of the victim search; on an empty list it takes the header for a page.\<close>

partial_function (option) clock_loop :: "pra \<Rightarrow> (nat \<times> pra) option" where
  "clock_loop s =
     (let c = (if curr_ptr s = PraHead then list_next PraHead (plinks s) else curr_ptr s) in
      case c of
        PraHead \<Rightarrow> None
      | PraLink p \<Rightarrow>
          if visited s p
          then clock_loop (s\<lparr>visited := (visited s)(p := False), curr_ptr := list_next (PraLink p) (plinks s)\<rparr>)
          else let n = list_next (PraLink p) (plinks s)
               in Some (p, s\<lparr>plinks := list_del (prv (plinks s) n) (plinks s), curr_ptr := n\<rparr>))"

declare clock_loop.simps [code]

definition clock_swap_out_victim :: "pra \<Rightarrow> (nat option \<times> pra) option" where
  "clock_swap_out_victim s = map_option (\<lambda>(p, s). (Some p, s)) (clock_loop s)"

subsection \<open>Least recently used\<close>

definition lru_init_mm :: "pra \<Rightarrow> pra" where
  "lru_init_mm s = s\<lparr>plinks := list_init PraHead (plinks s)\<rparr>"

definition lru_map_swappable :: "nat \<Rightarrow> pra \<Rightarrow> pra" where
  "lru_map_swappable page s = s\<lparr>plinks := list_add PraHead (PraLink page) (plinks s)\<rparr>"

definition lru_swap_out_victim :: "pra \<Rightarrow> (nat option \<times> pra) option" where
  "lru_swap_out_victim s =
     (let entry = list_prev PraHead (plinks s) in
      if entry \<noteq> PraHead
      then Some (Some (pra_page entry), s\<lparr>plinks := list_del entry (plinks s)\<rparr>)
      else Some (None, s))"

text \<open>The loop of \<open>lru_pgfault\<close> that moves the page of a fault to the front of the list.\<close>

partial_function (option) lru_move :: "nat \<Rightarrow> pranode \<Rightarrow> pra \<Rightarrow> pra option" where
  "lru_move page le s =
     (case list_prev le (plinks s) of
        PraHead \<Rightarrow> Some s
      | PraLink p \<Rightarrow>
          if page = p
          then Some (s\<lparr>plinks := list_add PraHead (PraLink p) (list_del (PraLink p) (plinks s))\<rparr>)
          else lru_move page (PraLink p) s)"

declare lru_move.simps [code]

definition lru_touch :: "nat \<Rightarrow> pra \<Rightarrow> pra option" where
  "lru_touch page s = lru_move page PraHead s"

section \<open>The interface\<close>

text \<open>
  What \<open>swap.c\<close> relies on: a manager keeps the mapped pages, a new page joins them, and a victim is
  taken from them and leaves. \<open>q s xs\<close>: the manager holds the pages \<open>xs\<close>.
\<close>

locale swap_manager =
  fixes q :: "'s \<Rightarrow> nat list \<Rightarrow> bool"
    and map_swappable :: "nat \<Rightarrow> 's \<Rightarrow> 's"
    and swap_out_victim :: "'s \<Rightarrow> (nat option \<times> 's) option"
  assumes map_ok: "q s xs \<Longrightarrow> p \<notin> set xs \<Longrightarrow> \<exists>ys. q (map_swappable p s) ys \<and> set ys = insert p (set xs)"
    and victim_ok: "q s xs \<Longrightarrow> xs \<noteq> [] \<Longrightarrow>
      \<exists>p s' ys. swap_out_victim s = Some (Some p, s') \<and> q s' ys \<and> p \<in> set xs \<and> set ys = set xs - {p}"
begin

text \<open>The victims of a loop that swaps out \<open>n\<close> pages, as \<open>swap_out\<close> does.\<close>

fun victims :: "nat \<Rightarrow> 's \<Rightarrow> (nat list \<times> 's) option" where
  "victims 0 s = Some ([], s)"
| "victims (Suc n) s =
     (case swap_out_victim s of
        Some (Some p, s') \<Rightarrow> map_option (\<lambda>(ps, t). (p # ps, t)) (victims n s')
      | _ \<Rightarrow> None)"

lemma victims_ok:
  "q s xs \<Longrightarrow> n \<le> card (set xs) \<Longrightarrow>
    \<exists>ps t ys. victims n s = Some (ps, t) \<and> length ps = n \<and> distinct ps \<and> set ps \<subseteq> set xs
      \<and> q t ys \<and> set ys = set xs - set ps"
proof (induction n arbitrary: s xs)
  case (Suc n)
  then have "xs \<noteq> []" by auto
  from victim_ok [OF Suc.prems(1) this] obtain p s' ys where
    v: "swap_out_victim s = Some (Some p, s')" "q s' ys" "p \<in> set xs" "set ys = set xs - {p}" by blast
  have "n \<le> card (set ys)" using Suc.prems(2) v(3,4) by simp
  from Suc.IH [OF v(2) this] obtain ps t zs where
    "victims n s' = Some (ps, t)" "length ps = n" "distinct ps" "set ps \<subseteq> set ys" "q t zs" "set zs = set ys - set ps"
    by blast
  then have "victims (Suc n) s = Some (p # ps, t)" "length (p # ps) = Suc n" "distinct (p # ps)"
    "set (p # ps) \<subseteq> set xs" "q t zs" "set zs = set xs - set (p # ps)" using v by auto
  then show ?case by blast
qed auto

end

section \<open>The queues\<close>

text \<open>\<open>pq s xs\<close>: the list behind \<open>pra_list_head\<close> holds the pages \<open>xs\<close> in this order.\<close>

definition pq :: "pra \<Rightarrow> nat list \<Rightarrow> bool" where
  "pq s xs \<longleftrightarrow> dl (plinks s) PraHead (map PraLink xs)"

lemma pq_distinct: "pq s xs \<Longrightarrow> distinct xs"
  by (auto simp: pq_def dest!: dl_distinct simp: distinct_map)

lemma link_notin: "p \<notin> set xs \<Longrightarrow> PraLink p \<notin> set (PraHead # map PraLink xs)"
  by auto

lemma fifo_map_ok: "pq s xs \<Longrightarrow> p \<notin> set xs \<Longrightarrow> pq (fifo_map_swappable p s) (p # xs)"
  using dl_add_after_head [OF _ link_notin, of "plinks s" xs p] by (simp add: pq_def fifo_map_swappable_def list_add_def)

lemma fifo5_map_ok: "pq s xs \<Longrightarrow> p \<notin> set xs \<Longrightarrow> pq (fifo5_map_swappable p s) (xs @ [p])"
  using dl_add_before_head [OF _ link_notin, of "plinks s" xs p] by (simp add: pq_def fifo5_map_swappable_def)

lemma pq_del:
  assumes "pq s (as @ p # bs)"
  shows "pq (s\<lparr>plinks := list_del (PraLink p) (plinks s)\<rparr>) (as @ bs)"
  using assms dl_del [of "plinks s" PraHead "map PraLink as" "PraLink p" "map PraLink bs"] by (simp add: pq_def)

lemma fifo_victim_ok:
  assumes "pq s (xs @ [p])"
  shows "\<exists>s'. fifo_swap_out_victim s = Some (Some p, s') \<and> pq s' xs \<and> visited s' = visited s"
proof -
  have "prv (plinks s) PraHead = PraLink p" using assms by (simp add: pq_def dl_prv_head)
  with pq_del [of s xs p "[]"] assms show ?thesis by (simp add: fifo_swap_out_victim_def list_prev_def)
qed

lemma fifo5_victim_ok:
  assumes "pq s (p # xs)"
  shows "\<exists>s'. fifo5_swap_out_victim s = Some (Some p, s') \<and> pq s' xs \<and> visited s' = visited s"
proof -
  have "nxt (plinks s) PraHead = PraLink p" using assms by (simp add: pq_def dl_nxt_head)
  with pq_del [of s "[]" p xs] assms show ?thesis by (simp add: fifo5_swap_out_victim_def list_next_def)
qed

interpretation fifo: swap_manager pq fifo_map_swappable fifo_swap_out_victim
proof
  fix s xs p assume "pq s xs" "p \<notin> set xs"
  from fifo_map_ok [OF this] show "\<exists>ys. pq (fifo_map_swappable p s) ys \<and> set ys = insert p (set xs)"
    by (intro exI [of _ "p # xs"]) simp
next
  fix s xs assume a: "pq s xs" "xs \<noteq> ([] :: nat list)"
  then obtain ys p where xs: "xs = ys @ [p]" by (cases xs rule: rev_cases) auto
  with a fifo_victim_ok [of s ys p] pq_distinct [OF a(1)]
  show "\<exists>p s' ys. fifo_swap_out_victim s = Some (Some p, s') \<and> pq s' ys \<and> p \<in> set xs \<and> set ys = set xs - {p}"
    by auto
qed

interpretation fifo5: swap_manager pq fifo5_map_swappable fifo5_swap_out_victim
proof
  fix s xs p assume "pq s xs" "p \<notin> set xs"
  from fifo5_map_ok [OF this] show "\<exists>ys. pq (fifo5_map_swappable p s) ys \<and> set ys = insert p (set xs)"
    by (intro exI [of _ "xs @ [p]"]) simp
next
  fix s xs assume a: "pq s xs" "xs \<noteq> ([] :: nat list)"
  then obtain ys p where xs: "xs = p # ys" by (cases xs) auto
  with a fifo5_victim_ok [of s p ys] pq_distinct [OF a(1)]
  show "\<exists>p s' ys. fifo5_swap_out_victim s = Some (Some p, s') \<and> pq s' ys \<and> p \<in> set xs \<and> set ys = set xs - {p}"
    by auto
qed

end
