(* ===== verification/Swap_Facts.thy ===== *)
theory Swap_Facts
  imports Swap
begin

text \<open>
  The victim search of the clock always ends, and finds the page that the second-chance rule names.
\<close>

section \<open>The hand\<close>

definition hand :: "nat list \<Rightarrow> pranode" where
  "hand rest = (case rest of [] \<Rightarrow> PraHead | p # _ \<Rightarrow> PraLink p)"

text \<open>The hand stands in front of \<open>rest\<close>.\<close>

definition clock_at :: "pra \<Rightarrow> nat list \<Rightarrow> nat list \<Rightarrow> bool" where
  "clock_at s pre rest \<longleftrightarrow> pq s (pre @ rest) \<and> curr_ptr s = hand rest"

lemma next_link:
  assumes "pq s (pre @ p # rest)"
  shows "list_next (PraLink p) (plinks s) = hand rest" "prv (plinks s) (hand rest) = PraLink p"
proof -
  have d: "dl (plinks s) PraHead (map PraLink pre @ PraLink p # map PraLink rest)" using assms by (simp add: pq_def)
  show "list_next (PraLink p) (plinks s) = hand rest"
    using dl_nxt_elem [OF d] by (cases rest) (simp_all add: list_next_def hand_def)
  show "prv (plinks s) (hand rest) = PraLink p"
  proof (cases rest)
    case Nil
    with dl_prv_head [OF d] show ?thesis by (simp add: hand_def)
  next
    case (Cons r rs)
    with d have "dl (plinks s) PraHead ((map PraLink pre @ [PraLink p]) @ PraLink r # map PraLink rs)" by simp
    from dl_prv_elem [OF this] Cons show ?thesis by (simp add: hand_def)
  qed
qed

lemma pq_upd [simp]: "pq (s\<lparr>visited := v\<rparr>) xs = pq s xs" "pq (s\<lparr>curr_ptr := c\<rparr>) xs = pq s xs"
  by (simp_all add: pq_def)

lemma clock_step:
  assumes "clock_at s pre (p # rest)"
  shows "clock_loop s = (if visited s p
     then clock_loop (s\<lparr>visited := (visited s)(p := False), curr_ptr := hand rest\<rparr>)
     else Some (p, s\<lparr>plinks := list_del (PraLink p) (plinks s), curr_ptr := hand rest\<rparr>))"
proof -
  have c: "curr_ptr s = PraLink p" using assms by (simp add: clock_at_def hand_def)
  have n: "list_next (PraLink p) (plinks s) = hand rest" "prv (plinks s) (hand rest) = PraLink p"
    using next_link [of s pre p rest] assms by (simp_all add: clock_at_def)
  show ?thesis by (subst clock_loop.simps) (simp add: c n Let_def)
qed

lemma clock_wrap:
  assumes "pq s xs" "xs \<noteq> []"
  shows "clock_loop (s\<lparr>curr_ptr := PraHead\<rparr>) = clock_loop (s\<lparr>curr_ptr := hand xs\<rparr>)"
proof -
  obtain x xs' where xs: "xs = x # xs'" using assms(2) by (cases xs) auto
  then have n: "list_next PraHead (plinks s) = PraLink x" using assms(1) by (simp add: pq_def dl_nxt_head list_next_def)
  show ?thesis
    by (subst (1 2) clock_loop.simps) (cases "visited s x"; simp add: n xs hand_def Let_def)
qed

text \<open>The hand passes over visited pages and clears their bits.\<close>

definition clear :: "nat set \<Rightarrow> pra \<Rightarrow> pra" where
  "clear A s = s\<lparr>visited := \<lambda>x. visited s x \<and> x \<notin> A\<rparr>"

lemma visited_clear: "visited (clear A s) x \<longleftrightarrow> visited s x \<and> x \<notin> A"
  by (simp add: clear_def)

lemma clock_pass:
  assumes "clock_at s pre (us @ rest)" "\<forall>u \<in> set us. visited s u"
  shows "clock_loop s = clock_loop ((clear (set us) s)\<lparr>curr_ptr := hand rest\<rparr>)
    \<and> clock_at ((clear (set us) s)\<lparr>curr_ptr := hand rest\<rparr>) (pre @ us) rest"
  using assms
proof (induction us arbitrary: pre s)
  case Nil
  then have "(clear {} s)\<lparr>curr_ptr := hand rest\<rparr> = s" by (simp add: clock_at_def clear_def)
  with Nil show ?case by simp
next
  case (Cons u us)
  let ?s = "s\<lparr>visited := (visited s)(u := False), curr_ptr := hand (us @ rest)\<rparr>"
  have d: "u \<notin> set us" using pq_distinct [of s "pre @ (u # us) @ rest"] Cons.prems(1) by (simp add: clock_at_def)
  have "clock_loop s = clock_loop ?s"
    using clock_step [of s pre u "us @ rest"] Cons.prems by simp
  moreover have "clock_at ?s (pre @ [u]) (us @ rest)" using Cons.prems(1) by (simp add: clock_at_def pq_def)
  moreover have "\<forall>x \<in> set us. visited ?s x" using Cons.prems(2) d by auto
  moreover have "(clear (set us) ?s)\<lparr>curr_ptr := hand rest\<rparr> = (clear (set (u # us)) s)\<lparr>curr_ptr := hand rest\<rparr>"
    unfolding clear_def by (rule pra.equality) auto
  ultimately show ?case using Cons.IH [of ?s "pre @ [u]"] by simp
qed

lemma clock_found:
  assumes "clock_at s pre (us @ v # ws)" "\<forall>u \<in> set us. visited s u" "\<not> visited s v"
  shows "\<exists>s'. clock_loop s = Some (v, s') \<and> clock_at s' (pre @ us) ws \<and> visited s' = visited (clear (set us) s)"
proof -
  let ?s = "(clear (set us) s)\<lparr>curr_ptr := hand (v # ws)\<rparr>"
  from clock_pass [OF assms(1,2)] have p: "clock_loop s = clock_loop ?s" "clock_at ?s (pre @ us) (v # ws)" by auto
  have "\<not> visited ?s v" using assms(3) by (simp add: clear_def)
  with clock_step [OF p(2)] p(1)
  have "clock_loop s = Some (v, ?s\<lparr>plinks := list_del (PraLink v) (plinks ?s), curr_ptr := hand ws\<rparr>)" by simp
  moreover have "pq (?s\<lparr>plinks := list_del (PraLink v) (plinks ?s)\<rparr>) ((pre @ us) @ ws)"
    by (rule pq_del) (use p(2) in \<open>simp add: clock_at_def\<close>)
  ultimately show ?thesis by (simp add: clock_at_def pq_def)
qed

text \<open>Where every page behind the hand was visited, the search goes on from the first page.\<close>

lemma clock_round:
  assumes "clock_at s pre rest" "\<forall>u \<in> set rest. visited s u" "pre @ rest \<noteq> []"
  shows "clock_loop s = clock_loop ((clear (set rest) s)\<lparr>curr_ptr := hand (pre @ rest)\<rparr>)
    \<and> clock_at ((clear (set rest) s)\<lparr>curr_ptr := hand (pre @ rest)\<rparr>) [] (pre @ rest)"
proof -
  have "clock_at s pre (rest @ [])" using assms(1) by simp
  from clock_pass [OF this assms(2)] have p: "clock_loop s = clock_loop ((clear (set rest) s)\<lparr>curr_ptr := PraHead\<rparr>)"
    "pq (clear (set rest) s) (pre @ rest)" by (simp_all add: clock_at_def hand_def)
  with clock_wrap [OF p(2) assms(3)] show ?thesis by (simp add: clock_at_def)
qed

text \<open>The victim by the second-chance rule: going round from the hand, the first page that was not
  visited, or the page at the hand when all were.\<close>

definition second_chance :: "(nat \<Rightarrow> bool) \<Rightarrow> nat list \<Rightarrow> nat" where
  "second_chance vis ring = (case find (\<lambda>p. \<not> vis p) ring of Some v \<Rightarrow> v | None \<Rightarrow> hd ring)"

lemma split_unvisited:
  assumes "\<exists>p \<in> set ps. \<not> vis p"
  obtains us v ws where "ps = us @ v # ws" "\<forall>u \<in> set us. vis u" "\<not> vis v"
  using assms split_list_first_prop [of ps "\<lambda>p. \<not> vis p"] by auto

lemma find_split: "\<forall>u \<in> set us. vis u \<Longrightarrow> \<not> vis v \<Longrightarrow> find (\<lambda>p. \<not> vis p) (us @ v # ws) = Some v"
  by (induction us) auto

lemma takeWhile_split: "\<forall>u \<in> set us. vis u \<Longrightarrow> \<not> vis v \<Longrightarrow> takeWhile vis (us @ v # ws) = us"
  by (induction us) auto

lemma remove1_mid: "distinct (as @ v # bs) \<Longrightarrow> remove1 v (as @ v # bs) = as @ bs"
  by (induction as) auto

lemma clock_victim:
  assumes at: "clock_at s pre rest" and ne: "pre @ rest \<noteq> []"
  defines "v \<equiv> second_chance (visited s) (rest @ pre)"
  shows "\<exists>s'. clock_loop s = Some (v, s') \<and> (\<exists>as bs. pre @ rest = as @ v # bs \<and> clock_at s' as bs)
    \<and> visited s' = visited (clear (set (takeWhile (visited s) (rest @ pre))) s)"
proof (cases "\<exists>p \<in> set rest. \<not> visited s p")
  case True
  then obtain us w ws where r: "rest = us @ w # ws" "\<forall>u \<in> set us. visited s u" "\<not> visited s w"
    by (rule split_unvisited)
  have v: "v = w" "takeWhile (visited s) (rest @ pre) = us"
    using find_split [OF r(2,3), of "ws @ pre"] takeWhile_split [OF r(2,3), of "ws @ pre"]
    by (simp_all add: v_def second_chance_def r(1))
  from clock_found [OF at [unfolded r(1)] r(2,3)] show ?thesis unfolding v(2) unfolding v(1) r(1)
    by (metis append_assoc)
next
  case all: False
  let ?s1 = "(clear (set rest) s)\<lparr>curr_ptr := hand (pre @ rest)\<rparr>"
  from clock_round [OF at _ ne] all have R: "clock_loop s = clock_loop ?s1" "clock_at ?s1 [] (pre @ rest)" by auto
  have dist: "distinct (pre @ rest)" using at pq_distinct unfolding clock_at_def by blast
  note vis1 = visited_clear
  show ?thesis
  proof (cases "\<exists>p \<in> set pre. \<not> visited s p")
    case True
    then obtain us w ws where p: "pre = us @ w # ws" "\<forall>u \<in> set us. visited s u" "\<not> visited s w"
      by (rule split_unvisited)
    have v: "v = w" "takeWhile (visited s) (rest @ pre) = rest @ us"
    proof -
      have "\<forall>u \<in> set (rest @ us). visited s u" using p(2) all by auto
      from find_split [OF this p(3), of ws] takeWhile_split [OF this p(3), of ws]
      show "v = w" "takeWhile (visited s) (rest @ pre) = rest @ us"
        by (simp_all add: v_def second_chance_def p(1))
    qed
    have "clock_at ?s1 [] (us @ w # (ws @ rest))" "\<forall>u \<in> set us. visited ?s1 u" "\<not> visited ?s1 w"
      using R(2) p dist by (auto simp: vis1)
    from clock_found [OF this] R(1) obtain s' where s': "clock_loop s = Some (w, s')" "clock_at s' us (ws @ rest)"
      "visited s' = visited (clear (set us) ?s1)" by auto
    moreover have "visited (clear (set us) ?s1) = visited (clear (set (rest @ us)) s)" by (auto simp: clear_def)
    ultimately show ?thesis unfolding v(2) unfolding v(1) p(1) by (metis append_assoc append_Cons)
  next
    case False
    with all have av: "\<forall>p \<in> set (rest @ pre). visited s p" by auto
    then have v: "v = hd (rest @ pre)" "takeWhile (visited s) (rest @ pre) = rest @ pre"
      by (auto simp: v_def second_chance_def find_None_iff takeWhile_eq_all_conv split: option.splits
          dest!: find_Some_iff [THEN iffD1] nth_mem)
    show ?thesis
    proof (cases rest)
      case (Cons w ws)
      have "clock_at ?s1 [] (pre @ w # ws)" "\<forall>u \<in> set pre. visited ?s1 u" "\<not> visited ?s1 w"
        using R(2) Cons av dist by (auto simp: vis1)
      from clock_found [OF this] R(1) obtain s' where "clock_loop s = Some (w, s')" "clock_at s' pre ws"
        "visited s' = visited (clear (set pre) ?s1)" by auto
      moreover have "visited (clear (set pre) ?s1) = visited (clear (set (rest @ pre)) s)" by (auto simp: clear_def)
      ultimately show ?thesis unfolding v(2) unfolding v(1) using Cons by auto
    next
      case Nil
      then obtain w ws where pre: "pre = w # ws" using ne by (cases pre) auto
      have "\<forall>u \<in> set (pre @ rest). visited ?s1 u" using av Nil by (simp add: vis1)
      moreover have "[] @ (pre @ rest) \<noteq> []" using ne by simp
      ultimately have R2:
        "clock_loop s = clock_loop ((clear (set pre) ?s1)\<lparr>curr_ptr := hand pre\<rparr>)"
        "clock_at ((clear (set pre) ?s1)\<lparr>curr_ptr := hand pre\<rparr>) [] ([] @ w # ws)"
        using clock_round [OF R(2)] R(1) Nil pre by auto
      have "\<not> visited ((clear (set pre) ?s1)\<lparr>curr_ptr := hand pre\<rparr>) w" by (simp add: clear_def pre)
      from clock_found [OF R2(2) _ this] R2(1) obtain s' where "clock_loop s = Some (w, s')" "clock_at s' [] ws"
        "visited s' = visited (clear {} ((clear (set pre) ?s1)\<lparr>curr_ptr := hand pre\<rparr>))" by auto
      moreover have "visited (clear {} ((clear (set pre) ?s1)\<lparr>curr_ptr := hand pre\<rparr>)) = visited (clear (set (rest @ pre)) s)"
        by (auto simp: clear_def)
      ultimately show ?thesis unfolding v(2) unfolding v(1) using Nil pre by auto
    qed
  qed
qed

text \<open>C23: The victim search of the clock always ends when a page is mapped, after at most two rounds:
  its victim is the first page from the hand on that was not visited, or the page at the hand when
  all were; the victim leaves the list, the hand stands behind its place, and exactly the pages the
  hand passed lose their visited bit.\<close>

theorem clock_second_chance:
  assumes "clock_at s pre rest" "pre @ rest \<noteq> []"
  shows "\<exists>v s' as bs. clock_swap_out_victim s = Some (Some v, s') \<and> v = second_chance (visited s) (rest @ pre)
    \<and> pre @ rest = as @ v # bs \<and> clock_at s' as bs
    \<and> (\<forall>p. visited s' p \<longleftrightarrow> visited s p \<and> p \<notin> set (takeWhile (visited s) (rest @ pre)))"
proof -
  from clock_victim [OF assms] obtain v s' as bs where r: "clock_loop s = Some (v, s')"
    "v = second_chance (visited s) (rest @ pre)" "pre @ rest = as @ v # bs" "clock_at s' as bs"
    "visited s' = visited (clear (set (takeWhile (visited s) (rest @ pre))) s)" by blast
  then show ?thesis
    by (intro exI [of _ v] exI [of _ s'] exI [of _ as] exI [of _ bs]) (simp add: clock_swap_out_victim_def visited_clear)
qed

text \<open>Three pages, all visited: the clock goes round once and takes the first.\<close>

definition demo_pra :: pra where
  "demo_pra = clock_map_swappable 9 (clock_map_swappable 5 (clock_map_swappable 7
     (clock_init_mm \<lparr>plinks = \<lparr>prv = (\<lambda>x. x), nxt = (\<lambda>x. x)\<rparr>, visited = (\<lambda>_. False), curr_ptr = PraHead\<rparr>)))"

lemma clock_map_ok:
  assumes "pq s xs" "p \<notin> set xs"
  shows "pq (clock_map_swappable p s) (xs @ [p])"
proof (cases xs rule: rev_cases)
  case Nil
  with assms have "prv (plinks s) PraHead = PraHead" by (simp add: pq_def dl_prv_head)
  with dl_add_after_head [OF _ link_notin, of "plinks s" xs p] assms Nil show ?thesis
    by (simp add: pq_def clock_map_swappable_def list_add_def)
next
  case (snoc ys y)
  with assms have h: "prv (plinks s) PraHead = PraLink y" by (simp add: pq_def dl_prv_head)
  have "dl (plinks s) PraHead (map PraLink ys @ PraLink y # [])" using assms(1) snoc by (simp add: pq_def)
  from dl_add_after [OF this, of "PraLink p"] assms(2) snoc h show ?thesis
    by (auto simp: pq_def clock_map_swappable_def list_add_def)
qed

lemma demo_pra_at: "clock_at demo_pra [7, 5, 9] []"
proof -
  let ?i = "clock_init_mm \<lparr>plinks = \<lparr>prv = (\<lambda>x. x), nxt = (\<lambda>x. x)\<rparr>, visited = (\<lambda>_. False), curr_ptr = PraHead\<rparr>"
  have "pq ?i []" by (simp add: pq_def clock_init_mm_def dl_init)
  then have "pq demo_pra ((([] @ [7]) @ [5]) @ [9])"
    unfolding demo_pra_def by (intro clock_map_ok) simp_all
  then show ?thesis by (simp add: clock_at_def hand_def demo_pra_def clock_map_swappable_def clock_init_mm_def)
qed

theorem clock_second_chance_witness:
  "\<exists>s' as bs. clock_swap_out_victim demo_pra = Some (Some 7, s') \<and> clock_at s' as bs \<and> as @ 7 # bs = [7, 5, 9]"
proof -
  have "visited demo_pra p \<longleftrightarrow> p \<in> {5, 7, 9}" for p
    by (auto simp: demo_pra_def clock_map_swappable_def clock_init_mm_def)
  with clock_second_chance [OF demo_pra_at] show ?thesis by (fastforce simp: second_chance_def)
qed

section \<open>The managers keep the contract\<close>

definition cq :: "pra \<Rightarrow> nat list \<Rightarrow> bool" where
  "cq s xs \<longleftrightarrow> (\<exists>pre rest. xs = pre @ rest \<and> clock_at s pre rest)"

interpretation clock: swap_manager cq clock_map_swappable clock_swap_out_victim
proof
  fix s xs p assume q: "cq s xs" and p: "p \<notin> set xs"
  then obtain pre rest where a: "xs = pre @ rest" "clock_at s pre rest" by (auto simp: cq_def)
  have m: "pq (clock_map_swappable p s) (xs @ [p])" by (rule clock_map_ok) (use a p in \<open>auto simp: clock_at_def\<close>)
  have c: "curr_ptr (clock_map_swappable p s) = hand rest" using a(2) by (simp add: clock_at_def clock_map_swappable_def)
  have "cq (clock_map_swappable p s) (xs @ [p])"
  proof (cases rest)
    case Nil
    with m c a show ?thesis unfolding cq_def clock_at_def by (intro exI [of _ "xs @ [p]"] exI [of _ "[]"]) simp
  next
    case (Cons r rs)
    with m c a show ?thesis unfolding cq_def clock_at_def
      by (intro exI [of _ pre] exI [of _ "rest @ [p]"]) (simp add: hand_def)
  qed
  then show "\<exists>ys. cq (clock_map_swappable p s) ys \<and> set ys = insert p (set xs)" by (intro exI [of _ "xs @ [p]"]) simp
next
  fix s xs assume q: "cq s xs" and ne: "xs \<noteq> ([] :: nat list)"
  then obtain pre rest where a: "xs = pre @ rest" "clock_at s pre rest" by (auto simp: cq_def)
  from clock_victim [OF a(2)] ne a(1) obtain v s' as bs where r: "clock_loop s = Some (v, s')"
    "xs = as @ v # bs" "clock_at s' as bs" by auto
  have "distinct xs" using a pq_distinct unfolding clock_at_def by blast
  with r(2) have "set (as @ bs) = set xs - {v}" by auto
  moreover have "cq s' (as @ bs)" using r(3) by (auto simp: cq_def)
  ultimately show "\<exists>p s' ys. clock_swap_out_victim s = Some (Some p, s') \<and> cq s' ys \<and> p \<in> set xs \<and> set ys = set xs - {p}"
    using r(1,2) by (intro exI [of _ v] exI [of _ s'] exI [of _ "as @ bs"]) (simp add: clock_swap_out_victim_def)
qed

interpretation lru: swap_manager pq lru_map_swappable lru_swap_out_victim
proof -
  have "lru_map_swappable = fifo_map_swappable" "lru_swap_out_victim = fifo_swap_out_victim"
    by (simp_all add: fun_eq_iff lru_map_swappable_def fifo_map_swappable_def lru_swap_out_victim_def fifo_swap_out_victim_def)
  then show "swap_manager pq lru_map_swappable lru_swap_out_victim" using fifo.swap_manager_axioms by simp
qed

text \<open>A fault on a mapped page makes it the most recently used one.\<close>

lemma lru_move_ok:
  assumes "pq s (as @ p # us @ vs)"
  shows "lru_move p (hand vs) s = Some (s\<lparr>plinks := list_add PraHead (PraLink p) (list_del (PraLink p) (plinks s))\<rparr>)"
  using assms
proof (induction us arbitrary: vs rule: rev_induct)
  case Nil
  then have "list_prev (hand vs) (plinks s) = PraLink p" using next_link(2) [of s as p vs] by (simp add: list_prev_def)
  then show ?case by (subst lru_move.simps) simp
next
  case (snoc u us)
  have "list_prev (hand vs) (plinks s) = PraLink u"
    using next_link(2) [of s "as @ p # us" u vs] snoc.prems by (simp add: list_prev_def)
  moreover have "p \<noteq> u" using pq_distinct [OF snoc.prems] by auto
  moreover have "lru_move p (hand (u # vs)) s = Some (s\<lparr>plinks := list_add PraHead (PraLink p) (list_del (PraLink p) (plinks s))\<rparr>)"
    by (rule snoc.IH) (use snoc.prems in simp)
  ultimately show ?case by (subst lru_move.simps) (simp add: hand_def)
qed

lemma lru_touch_front:
  assumes "pq s (as @ p # bs)"
  shows "\<exists>s'. lru_touch p s = Some s' \<and> pq s' (p # as @ bs)"
proof -
  let ?d = "s\<lparr>plinks := list_del (PraLink p) (plinks s)\<rparr>"
  have "pq ?d (as @ bs)" by (rule pq_del [OF assms])
  moreover have "p \<notin> set (as @ bs)" using pq_distinct [OF assms] by auto
  ultimately have "pq (fifo_map_swappable p ?d) (p # as @ bs)" by (rule fifo_map_ok)
  moreover have "lru_touch p s = Some (fifo_map_swappable p ?d)"
    using lru_move_ok [of s as p bs "[]"] assms by (simp add: lru_touch_def hand_def fifo_map_swappable_def)
  ultimately show ?thesis by blast
qed

text \<open>The two versions of the first-in-first-out manager choose the same victims: one keeps the queue
  backwards.\<close>

lemma fifo_versions_agree:
  assumes "pq s (rev xs)" "pq t xs" "xs \<noteq> []"
  shows "\<exists>s' t'. fifo_swap_out_victim s = Some (Some (hd xs), s') \<and> fifo5_swap_out_victim t = Some (Some (hd xs), t')
    \<and> pq s' (rev (tl xs)) \<and> pq t' (tl xs)"
proof -
  from assms(3) obtain x ys where xs: "xs = x # ys" by (cases xs) auto
  with fifo_victim_ok [of s "rev ys" x] fifo5_victim_ok [of t x ys] assms show ?thesis by auto
qed

end
