(* ===== verification/Dining.thy ===== *)
theory Dining
  imports Sync
begin

text \<open>
  The philosophers of \<open>lab8/kern/sync/check_sync.c\<close> that use semaphores. Each philosopher is a kernel
  thread; what it still has to run of the current turn of its loop is a list of statements, and one
  step runs the first statement of one philosopher, whichever the scheduler picks. The semaphores are
  the abstract ones of \<open>Sync\<close>, which \<open>up\<close> and \<open>down\<close> implement (\<open>Sync_Facts\<close>); the process of
  philosopher \<open>i\<close> is numbered \<open>i\<close>. Output is left out.
\<close>

section \<open>The program\<close>

datatype phi = THINKING | HUNGRY | EATING

datatype sem_id = Mutex | Self nat

datatype phi_stmt =
    Down sem_id
  | Waiting sem_id   \<comment> \<open>inside \<open>down\<close>, in the queue or just taken out of it\<close>
  | Up sem_id
  | SetState phi
  | TestPhi nat
  | Sleep

definition PHILS :: nat where "PHILS = 5"

definition TIMES :: nat where "TIMES = 4"

text \<open>\<open>i - 1 + N\<close> is written so that it is not cut off at 0.\<close>

definition LEFT :: "nat \<Rightarrow> nat" where "LEFT i = (i + PHILS - 1) mod PHILS"

definition RIGHT :: "nat \<Rightarrow> nat" where "RIGHT i = (i + 1) mod PHILS"

record table =
  state_sema :: "nat \<Rightarrow> phi"
  sems :: "sem_id \<Rightarrow> asem"
  code :: "nat \<Rightarrow> phi_stmt list"
  iter :: "nat \<Rightarrow> nat"

definition phi_take_forks_sema :: "nat \<Rightarrow> phi_stmt list" where
  "phi_take_forks_sema i =
     [Down Mutex,
      SetState HUNGRY,
      TestPhi i,
      Up Mutex,
      Down (Self i)]"

definition phi_put_forks_sema :: "nat \<Rightarrow> phi_stmt list" where
  "phi_put_forks_sema i =
     [Down Mutex,
      SetState THINKING,
      TestPhi (LEFT i),
      TestPhi (RIGHT i),
      Up Mutex]"

text \<open>\<open>phi_test_sema j\<close> called by philosopher \<open>i\<close>, which goes on with \<open>rest\<close>.\<close>

definition phi_test_sema :: "nat \<Rightarrow> nat \<Rightarrow> phi_stmt list \<Rightarrow> table \<Rightarrow> table" where
  "phi_test_sema i j rest t =
     (if state_sema t j = HUNGRY \<and> state_sema t (LEFT j) \<noteq> EATING \<and> state_sema t (RIGHT j) \<noteq> EATING
      then t\<lparr>state_sema := (state_sema t)(j := EATING), code := (code t)(i := Up (Self j) # rest)\<rparr>
      else t\<lparr>code := (code t)(i := rest)\<rparr>)"

text \<open>A turn of the loop; the loop ends after \<open>TIMES\<close> turns.\<close>

definition philosopher_using_semaphore :: "nat \<Rightarrow> table \<Rightarrow> table option" where
  "philosopher_using_semaphore i t =
     (if iter t i < TIMES
      then Some (t\<lparr>iter := (iter t)(i := iter t i + 1),
                  code := (code t)(i := Sleep # phi_take_forks_sema i @ Sleep # phi_put_forks_sema i)\<rparr>)
      else None)"

definition phi_step :: "nat \<Rightarrow> table \<Rightarrow> table option" where
  "phi_step i t =
     (case code t i of
        [] \<Rightarrow> philosopher_using_semaphore i t
      | Down x # c \<Rightarrow>
          Some (t\<lparr>sems := (sems t)(x := adown i (sems t x)),
                  code := (code t)(i := if fst (sems t x) > 0 then c else Waiting x # c)\<rparr>)
      | Waiting x # c \<Rightarrow> if i \<in> set (snd (sems t x)) then None else Some (t\<lparr>code := (code t)(i := c)\<rparr>)
      | Up x # c \<Rightarrow> Some (t\<lparr>sems := (sems t)(x := aup (sems t x)), code := (code t)(i := c)\<rparr>)
      | SetState v # c \<Rightarrow> Some (t\<lparr>state_sema := (state_sema t)(i := v), code := (code t)(i := c)\<rparr>)
      | TestPhi j # c \<Rightarrow> Some (phi_test_sema i j c t)
      | Sleep # c \<Rightarrow> Some (t\<lparr>code := (code t)(i := c)\<rparr>))"

inductive table_step :: "table \<Rightarrow> table \<Rightarrow> bool" where
  run: "i < PHILS \<Longrightarrow> phi_step i t = Some t' \<Longrightarrow> table_step t t'"

text \<open>The table after \<open>check_sync\<close> has initialised the semaphores and started the threads.\<close>

definition check_sync :: table where
  "check_sync = \<lparr>state_sema = (\<lambda>i. THINKING), sems = (\<lambda>x. (if x = Mutex then 1 else 0, [])),
     code = (\<lambda>i. []), iter = (\<lambda>i. 0)\<rparr>"

text \<open>Philosopher \<open>i\<close> eats: \<open>phi_take_forks_sema\<close> has returned and \<open>phi_put_forks_sema\<close> has not taken the
  mutex.\<close>

definition eats :: "table \<Rightarrow> nat \<Rightarrow> bool" where
  "eats t i \<longleftrightarrow> code t i = Sleep # phi_put_forks_sema i \<or> code t i = phi_put_forks_sema i"

definition has_quit :: "table \<Rightarrow> nat \<Rightarrow> bool" where
  "has_quit t i \<longleftrightarrow> code t i = [] \<and> iter t i = TIMES"

section \<open>Every run ends\<close>

text \<open>The number of steps a statement can take, and a whole table.\<close>

fun stmt_work :: "phi_stmt \<Rightarrow> nat" where
  "stmt_work (Down x) = 2"
| "stmt_work (TestPhi j) = 2"
| "stmt_work st = 1"

definition phi_work :: "table \<Rightarrow> nat \<Rightarrow> nat" where
  "phi_work t i = sum_list (map stmt_work (code t i)) + 19 * (TIMES - iter t i)"

definition work :: "table \<Rightarrow> nat" where
  "work t = (\<Sum>i<PHILS. phi_work t i)"

lemma phi_step_work:
  assumes "phi_step i t = Some t'"
  shows "phi_work t' i < phi_work t i" "j \<noteq> i \<Longrightarrow> phi_work t' j = phi_work t j"
  using assms
  by (auto simp: phi_step_def phi_work_def philosopher_using_semaphore_def phi_test_sema_def
      phi_take_forks_sema_def phi_put_forks_sema_def split: list.splits phi_stmt.splits if_splits)

lemma table_step_work:
  assumes "table_step t t'"
  shows "work t' < work t"
  using assms
proof cases
  case (run i)
  have "work t' = phi_work t' i + (\<Sum>j \<in> {..<PHILS} - {i}. phi_work t' j)"
    "work t = phi_work t i + (\<Sum>j \<in> {..<PHILS} - {i}. phi_work t j)"
    using run(1) by (auto simp: work_def sum.remove)
  moreover have "(\<Sum>j \<in> {..<PHILS} - {i}. phi_work t' j) = (\<Sum>j \<in> {..<PHILS} - {i}. phi_work t j)"
    using phi_step_work(2) [OF run(2)] by (intro sum.cong) auto
  ultimately show ?thesis using phi_step_work(1) [OF run(2)] by simp
qed

lemma run_length:
  assumes "(table_step ^^ k) t t'"
  shows "work t' + k \<le> work t"
  using assms
proof (induction k arbitrary: t')
  case (Suc k)
  then obtain u where "(table_step ^^ k) t u" "table_step u t'" by auto
  with Suc.IH [of u] table_step_work [of u t'] show ?case by simp
qed simp

lemma work_check_sync: "work check_sync = 380"
  by (simp add: work_def phi_work_def check_sync_def PHILS_def TIMES_def)

section \<open>The invariant\<close>

text \<open>The points of the program, and the rest of the code at each.\<close>

datatype point = Head | Think | TakeDown | TakeWait | SetHungry | TestSelf | UpSelf | TakeUp
  | DownSelf | WaitSelf | Eat | PutDown | PutWait | SetThinking | TestLeft | UpLeft | TestRight
  | UpRight | PutUp

fun code_at :: "nat \<Rightarrow> point \<Rightarrow> phi_stmt list" where
  "code_at i Head = []"
| "code_at i Think = Sleep # phi_take_forks_sema i @ Sleep # phi_put_forks_sema i"
| "code_at i TakeDown = phi_take_forks_sema i @ Sleep # phi_put_forks_sema i"
| "code_at i TakeWait = Waiting Mutex # drop 1 (phi_take_forks_sema i) @ Sleep # phi_put_forks_sema i"
| "code_at i SetHungry = drop 1 (phi_take_forks_sema i) @ Sleep # phi_put_forks_sema i"
| "code_at i TestSelf = drop 2 (phi_take_forks_sema i) @ Sleep # phi_put_forks_sema i"
| "code_at i UpSelf = Up (Self i) # drop 3 (phi_take_forks_sema i) @ Sleep # phi_put_forks_sema i"
| "code_at i TakeUp = drop 3 (phi_take_forks_sema i) @ Sleep # phi_put_forks_sema i"
| "code_at i DownSelf = drop 4 (phi_take_forks_sema i) @ Sleep # phi_put_forks_sema i"
| "code_at i WaitSelf = Waiting (Self i) # Sleep # phi_put_forks_sema i"
| "code_at i Eat = Sleep # phi_put_forks_sema i"
| "code_at i PutDown = phi_put_forks_sema i"
| "code_at i PutWait = Waiting Mutex # drop 1 (phi_put_forks_sema i)"
| "code_at i SetThinking = drop 1 (phi_put_forks_sema i)"
| "code_at i TestLeft = drop 2 (phi_put_forks_sema i)"
| "code_at i UpLeft = Up (Self (LEFT i)) # drop 3 (phi_put_forks_sema i)"
| "code_at i TestRight = drop 3 (phi_put_forks_sema i)"
| "code_at i UpRight = Up (Self (RIGHT i)) # drop 4 (phi_put_forks_sema i)"
| "code_at i PutUp = drop 4 (phi_put_forks_sema i)"

text \<open>The points inside the critical section, those where the mutex is waited for, the semaphore that
  is about to be raised, and the tests still to be made.\<close>

definition critical :: "point set" where
  "critical = {SetHungry, TestSelf, UpSelf, TakeUp, SetThinking, TestLeft, UpLeft, TestRight, UpRight, PutUp}"

definition mutex_waits :: "point set" where
  "mutex_waits = {TakeWait, PutWait}"

fun raises :: "nat \<Rightarrow> point \<Rightarrow> nat option" where
  "raises i UpSelf = Some i"
| "raises i UpLeft = Some (LEFT i)"
| "raises i UpRight = Some (RIGHT i)"
| "raises i p = None"

fun tests :: "nat \<Rightarrow> point \<Rightarrow> nat set" where
  "tests i TestSelf = {i}"
| "tests i TestLeft = {LEFT i, RIGHT i}"
| "tests i UpLeft = {RIGHT i}"
| "tests i TestRight = {RIGHT i}"
| "tests i p = {}"

text \<open>The owner of the mutex: in the critical section, or just handed the mutex.\<close>

definition owns :: "(nat \<Rightarrow> point) \<Rightarrow> table \<Rightarrow> nat \<Rightarrow> bool" where
  "owns pcs t i \<longleftrightarrow> pcs i \<in> critical \<or> pcs i \<in> mutex_waits \<and> i \<notin> set (snd (sems t Mutex))"

definition mutex_ok :: "(nat \<Rightarrow> point) \<Rightarrow> nat option \<Rightarrow> table \<Rightarrow> bool" where
  "mutex_ok pcs own t \<longleftrightarrow> (\<forall>i<PHILS. owns pcs t i \<longleftrightarrow> own = Some i)
     \<and> fst (sems t Mutex) = (if own = None then 1 else 0) \<and> (own = None \<longrightarrow> snd (sems t Mutex) = [])
     \<and> distinct (snd (sems t Mutex)) \<and> (\<forall>i \<in> set (snd (sems t Mutex)). i < PHILS \<and> pcs i \<in> mutex_waits)
     \<and> (\<forall>i. own = Some i \<longrightarrow> i < PHILS)"

text \<open>The semaphore of philosopher \<open>i\<close> and its state: \<open>r\<close> says that the owner of the mutex is about to
  raise the semaphore.\<close>

fun self_ok :: "nat \<Rightarrow> bool \<Rightarrow> point \<Rightarrow> phi \<Rightarrow> asem \<Rightarrow> bool" where
  "self_ok i r TestSelf x s = (x = HUNGRY \<and> s = (0, []) \<and> \<not> r)"
| "self_ok i r UpSelf x s = (x = EATING \<and> s = (0, []) \<and> r)"
| "self_ok i r TakeUp x s = (x = HUNGRY \<and> s = (0, []) \<and> \<not> r \<or> x = EATING \<and> s = (1, []) \<and> \<not> r)"
| "self_ok i r DownSelf x s =
     (x = HUNGRY \<and> s = (0, []) \<and> \<not> r \<or> x = EATING \<and> (s = (0, []) \<and> r \<or> s = (1, []) \<and> \<not> r))"
| "self_ok i r WaitSelf x s =
     (s = (0, [i]) \<and> (x = HUNGRY \<and> \<not> r \<or> x = EATING \<and> r) \<or> s = (0, []) \<and> x = EATING \<and> \<not> r)"
| "self_ok i r p x s =
     (s = (0, []) \<and> \<not> r \<and> x = (if p \<in> {Eat, PutDown, PutWait, SetThinking} then EATING else THINKING))"

definition raised :: "(nat \<Rightarrow> point) \<Rightarrow> nat option \<Rightarrow> nat \<Rightarrow> bool" where
  "raised pcs own i \<longleftrightarrow> (\<exists>j. own = Some j \<and> raises j (pcs j) = Some i)"

definition hungry_ok :: "(nat \<Rightarrow> point) \<Rightarrow> nat option \<Rightarrow> table \<Rightarrow> nat \<Rightarrow> bool" where
  "hungry_ok pcs own t i \<longleftrightarrow> state_sema t i = HUNGRY \<longrightarrow>
     state_sema t (LEFT i) = EATING \<or> state_sema t (RIGHT i) = EATING
     \<or> (\<exists>j. own = Some j \<and> i \<in> tests j (pcs j))"

definition table_ok :: "(nat \<Rightarrow> point) \<Rightarrow> nat option \<Rightarrow> table \<Rightarrow> bool" where
  "table_ok pcs own t \<longleftrightarrow> mutex_ok pcs own t
     \<and> (\<forall>i<PHILS. code t i = code_at i (pcs i))
     \<and> (\<forall>i<PHILS. self_ok i (raised pcs own i) (pcs i) (state_sema t i) (sems t (Self i)))
     \<and> (\<forall>i<PHILS. \<not> (state_sema t i = EATING \<and> state_sema t (RIGHT i) = EATING))
     \<and> (\<forall>i<PHILS. hungry_ok pcs own t i)
     \<and> (\<forall>i<PHILS. iter t i \<le> TIMES)"

lemma PHILS_cases:
  assumes "i < PHILS"
  obtains "i = 0" | "i = 1" | "i = 2" | "i = 3" | "i = 4"
  using assms by (auto simp: PHILS_def numeral_eq_Suc less_Suc_eq)

lemma neighbours:
  assumes "i < PHILS"
  shows "LEFT i < PHILS" "RIGHT i < PHILS" "LEFT (RIGHT i) = i" "RIGHT (LEFT i) = i"
    "LEFT i \<noteq> i" "RIGHT i \<noteq> i" "LEFT i \<noteq> RIGHT i"
  by (rule PHILS_cases [OF assms]; simp add: LEFT_def RIGHT_def PHILS_def)+

lemma raised_simps:
  "raised pcs (Some j) k \<longleftrightarrow> raises j (pcs j) = Some k"
  "\<not> raised pcs None k"
  by (simp_all add: raised_def)

lemma hungry_simps:
  "hungry_ok pcs (Some j) t k \<longleftrightarrow> (state_sema t k = HUNGRY \<longrightarrow>
     state_sema t (LEFT k) = EATING \<or> state_sema t (RIGHT k) = EATING \<or> k \<in> tests j (pcs j))"
  "hungry_ok pcs None t k \<longleftrightarrow> (state_sema t k = HUNGRY \<longrightarrow>
     state_sema t (LEFT k) = EATING \<or> state_sema t (RIGHT k) = EATING)"
  by (simp_all add: hungry_ok_def)

lemma check_sync_ok: "table_ok (\<lambda>i. Head) None check_sync"
  by (simp add: table_ok_def mutex_ok_def owns_def critical_def mutex_waits_def raised_def hungry_ok_def
      check_sync_def)


text \<open>A step of \<open>i\<close> that changes neither the mutex nor its owner.\<close>

lemma frame_mutex:
  assumes "mutex_ok pcs own t" "sems t' Mutex = sems t Mutex" "(p \<in> critical) = (pcs i \<in> critical)"
    "(p \<in> mutex_waits) = (pcs i \<in> mutex_waits)"
  shows "mutex_ok (pcs(i := p)) own t'"
  using assms by (auto simp: mutex_ok_def owns_def)

lemma owner:
  assumes "table_ok pcs own t" "i < PHILS"
  shows "pcs i \<in> critical \<Longrightarrow> own = Some i" "pcs i \<notin> critical \<Longrightarrow> pcs i \<notin> mutex_waits \<Longrightarrow> own \<noteq> Some i"
  using assms by (auto simp: table_ok_def mutex_ok_def owns_def)

lemma move:
  assumes "table_ok pcs own t" "code t' = (code t)(i := code_at i p)" "mutex_ok (pcs(i := p)) own' t'"
    and "\<And>k. k < PHILS \<Longrightarrow> iter t' k \<le> TIMES"
    and "\<And>k. k < PHILS \<Longrightarrow> self_ok k (raised pcs own k) (pcs k) (state_sema t k) (sems t (Self k)) \<Longrightarrow>
      self_ok k (raised (pcs(i := p)) own' k) ((pcs(i := p)) k) (state_sema t' k) (sems t' (Self k))"
    and "\<And>k. k < PHILS \<Longrightarrow> hungry_ok pcs own t k \<Longrightarrow> hungry_ok (pcs(i := p)) own' t' k"
    and "\<And>k. k < PHILS \<Longrightarrow> \<not> (state_sema t k = EATING \<and> state_sema t (RIGHT k) = EATING) \<Longrightarrow>
      \<not> (state_sema t' k = EATING \<and> state_sema t' (RIGHT k) = EATING)"
  shows "table_ok (pcs(i := p)) own' t'"
  using assms by (simp add: table_ok_def)

text \<open>A move of a philosopher that does not own the mutex changes its own semaphore at most.\<close>

lemma free_move:
  assumes "table_ok pcs own t" "i < PHILS" "own \<noteq> Some i" "p \<notin> critical" "p \<notin> mutex_waits"
    and "code t' = (code t)(i := code_at i p)" "\<And>k. k < PHILS \<Longrightarrow> iter t' k \<le> TIMES"
    and "state_sema t' = state_sema t" "sems t' Mutex = sems t Mutex" "pcs i \<notin> mutex_waits"
    and "\<And>k. k \<noteq> i \<Longrightarrow> sems t' (Self k) = sems t (Self k)"
    and "\<And>r. self_ok i r (pcs i) (state_sema t i) (sems t (Self i)) \<Longrightarrow>
      self_ok i r p (state_sema t i) (sems t' (Self i))"
  shows "table_ok (pcs(i := p)) own t'"
proof -
  have c: "pcs i \<notin> critical"
    using owner(1) [OF assms(1,2)] assms(3) by blast
  have r: "raised (pcs(i := p)) own k = raised pcs own k" for k
    using assms(3) by (auto simp: raised_def)
  show ?thesis
    using assms(1,6)
  proof (rule move)
    show "mutex_ok (pcs(i := p)) own t'"
      using assms c by (intro frame_mutex) (auto simp: table_ok_def)
    show "hungry_ok (pcs(i := p)) own t' k" if "hungry_ok pcs own t k" for k
      using that assms(3,8) by (auto simp: hungry_ok_def)
    show "self_ok k (raised (pcs(i := p)) own k) ((pcs(i := p)) k) (state_sema t' k) (sems t' (Self k))"
      if "self_ok k (raised pcs own k) (pcs k) (state_sema t k) (sems t (Self k))" for k
      using that assms(8,11,12) r by (cases "k = i") simp_all
  qed (use assms in auto)
qed

text \<open>A move inside the critical section.\<close>

lemma own_move:
  assumes "table_ok pcs (Some i) t" "i < PHILS" "pcs i \<in> critical" "p \<in> critical"
    and "code t' = (code t)(i := code_at i p)" "iter t' = iter t" "sems t' Mutex = sems t Mutex"
    and "self_ok i (raises i (pcs i) = Some i) (pcs i) (state_sema t i) (sems t (Self i)) \<Longrightarrow>
      self_ok i (raises i p = Some i) p (state_sema t' i) (sems t' (Self i))"
    and "\<And>k. k < PHILS \<Longrightarrow> k \<noteq> i \<Longrightarrow> pcs k \<notin> critical \<Longrightarrow>
      self_ok k (raises i (pcs i) = Some k) (pcs k) (state_sema t k) (sems t (Self k)) \<Longrightarrow>
      self_ok k (raises i p = Some k) (pcs k) (state_sema t' k) (sems t' (Self k))"
    and "\<And>k. k < PHILS \<Longrightarrow> hungry_ok pcs (Some i) t k \<Longrightarrow> hungry_ok (pcs(i := p)) (Some i) t' k"
    and "\<And>k. k < PHILS \<Longrightarrow> \<not> (state_sema t k = EATING \<and> state_sema t (RIGHT k) = EATING) \<Longrightarrow>
      \<not> (state_sema t' k = EATING \<and> state_sema t' (RIGHT k) = EATING)"
  shows "table_ok (pcs(i := p)) (Some i) t'"
  using assms(1,5)
proof (rule move)
  show "mutex_ok (pcs(i := p)) (Some i) t'"
    using assms(1,3,4,7) by (intro frame_mutex) (auto simp: table_ok_def critical_def mutex_waits_def)
  show "self_ok k (raised (pcs(i := p)) (Some i) k) ((pcs(i := p)) k) (state_sema t' k) (sems t' (Self k))"
    if k: "k < PHILS" and s: "self_ok k (raised pcs (Some i) k) (pcs k) (state_sema t k) (sems t (Self k))" for k
  proof (cases "k = i")
    case True
    with s assms(8) show ?thesis by (simp add: raised_simps)
  next
    case False
    then have "pcs k \<notin> critical" using owner(1) [OF assms(1) k] by auto
    with False k s assms(9) show ?thesis by (simp add: raised_simps)
  qed
qed (use assms in \<open>auto simp: table_ok_def\<close>)

lemma self_tested:
  "self_ok k False p HUNGRY s \<Longrightarrow> p \<notin> critical \<Longrightarrow> self_ok k True p EATING s"
  by (cases p) (simp_all add: critical_def split: if_splits)

lemma self_raised:
  "self_ok k True p x s \<Longrightarrow> p \<notin> critical \<Longrightarrow> self_ok k False p x (aup s)"
  by (cases p) (auto simp: critical_def split: if_splits)

lemma step_free:
  assumes "table_ok pcs own t" "i < PHILS" "phi_step i t = Some t'"
    and "pcs i \<in> {Head, Think, DownSelf, WaitSelf, Eat}"
  shows "\<exists>p. table_ok (pcs(i := p)) own t'"
proof -
  have o: "own \<noteq> Some i" "pcs i \<notin> mutex_waits"
    using owner(2) [OF assms(1,2)] assms(4) by (auto simp: critical_def mutex_waits_def)
  have c: "code t i = code_at i (pcs i)" "\<And>k. k < PHILS \<Longrightarrow> iter t k \<le> TIMES"
    using assms(1,2) by (simp_all add: table_ok_def)
  note fm = free_move [OF assms(1,2) o(1) _ _ _ _ _ _ o(2)]
  note simps = phi_step_def phi_take_forks_sema_def phi_put_forks_sema_def
  note st = assms(3) c(1)
  from assms(4) consider "pcs i = Head" | "pcs i = Think" | "pcs i = DownSelf" | "pcs i = WaitSelf" | "pcs i = Eat"
    by blast
  then show ?thesis
  proof cases
    case 1
    with st c(2) show ?thesis
      by (intro exI [of _ Think] fm)
        (auto simp: simps philosopher_using_semaphore_def critical_def mutex_waits_def split: if_splits)
  next
    case 2
    with st c(2) show ?thesis
      by (intro exI [of _ TakeDown] fm) (auto simp: simps critical_def mutex_waits_def)
  next
    case 3
    with st c(2) show ?thesis
      by (intro exI [of _ "if fst (sems t (Self i)) > 0 then Eat else WaitSelf"] fm)
        (auto simp: simps critical_def mutex_waits_def split: if_splits)
  next
    case 4
    with st c(2) show ?thesis
      by (intro exI [of _ Eat] fm) (auto simp: simps critical_def mutex_waits_def split: if_splits)
  next
    case 5
    with st c(2) show ?thesis
      by (intro exI [of _ PutDown] fm) (auto simp: simps critical_def mutex_waits_def)
  qed
qed


text \<open>A test of \<open>j\<close> by the owner, who then raises the semaphore of \<open>j\<close> or goes on, and the raising.\<close>

lemma own_test:
  assumes "table_ok pcs (Some i) t" "i < PHILS" "j < PHILS" "pcs i \<in> critical" "pn \<in> critical" "pu \<in> critical"
    and "raises i (pcs i) = None" "raises i pn = None" "raises i pu = Some j"
    and "tests i (pcs i) \<subseteq> insert j (tests i pn)" "tests i pu = tests i pn"
    and "code_at i pu = Up (Self j) # code_at i pn"
    and "\<And>x s. self_ok i False (pcs i) x s \<Longrightarrow> self_ok i False pn x s"
    and "\<And>s. j = i \<Longrightarrow> self_ok i False (pcs i) HUNGRY s \<Longrightarrow> self_ok i True pu EATING s"
    and "\<And>x s. j \<noteq> i \<Longrightarrow> self_ok i False (pcs i) x s \<Longrightarrow> self_ok i False pu x s"
  shows "\<exists>p. table_ok (pcs(i := p)) (Some i) (phi_test_sema i j (code_at i pn) t)"
proof (cases "state_sema t j = HUNGRY \<and> state_sema t (LEFT j) \<noteq> EATING \<and> state_sema t (RIGHT j) \<noteq> EATING")
  case True
  define t' where "t' = t\<lparr>state_sema := (state_sema t)(j := EATING), code := (code t)(i := code_at i pu)\<rparr>"
  have "table_ok (pcs(i := pu)) (Some i) t'"
    using assms(1,2,4,6)
  proof (rule own_move)
    show "hungry_ok (pcs(i := pu)) (Some i) t' k" if "hungry_ok pcs (Some i) t k" for k
      using that assms(10,11) True by (auto simp: hungry_simps t'_def)
    show "\<not> (state_sema t' k = EATING \<and> state_sema t' (RIGHT k) = EATING)"
      if "k < PHILS" "\<not> (state_sema t k = EATING \<and> state_sema t (RIGHT k) = EATING)" for k
      using that True neighbours [OF that(1)] neighbours [OF assms(3)] by (auto simp: t'_def)
    show "self_ok i (raises i pu = Some i) pu (state_sema t' i) (sems t' (Self i))"
      if "self_ok i (raises i (pcs i) = Some i) (pcs i) (state_sema t i) (sems t (Self i))"
      using that assms(7,9,14,15) True by (cases "j = i") (simp_all add: t'_def)
    show "self_ok k (raises i pu = Some k) (pcs k) (state_sema t' k) (sems t' (Self k))"
      if "k \<noteq> i" "pcs k \<notin> critical"
        "self_ok k (raises i (pcs i) = Some k) (pcs k) (state_sema t k) (sems t (Self k))" for k
      using that assms(7,9) True self_tested [of k "pcs k"] by (cases "k = j") (simp_all add: t'_def)
  qed (use assms in \<open>simp_all add: t'_def\<close>)
  moreover have "phi_test_sema i j (code_at i pn) t = t'"
    using True assms(12) by (simp add: phi_test_sema_def t'_def)
  ultimately show ?thesis by auto
next
  case False
  define t' where "t' = t\<lparr>code := (code t)(i := code_at i pn)\<rparr>"
  have "table_ok (pcs(i := pn)) (Some i) t'"
    using assms(1,2,4,5)
  proof (rule own_move)
    show "hungry_ok (pcs(i := pn)) (Some i) t' k" if "hungry_ok pcs (Some i) t k" for k
      using that assms(10) False by (cases "k = j") (auto simp: hungry_simps t'_def)
  qed (use assms in \<open>auto simp: t'_def\<close>)
  moreover have "phi_test_sema i j (code_at i pn) t = t'"
    using False by (auto simp add: phi_test_sema_def t'_def)
  ultimately show ?thesis by auto
qed

lemma own_raise:
  assumes "table_ok pcs (Some i) t" "i < PHILS" "pcs i \<in> critical" "pn \<in> critical"
    and "raises i (pcs i) = Some j" "raises i pn = None" "tests i (pcs i) = tests i pn"
    and "\<And>s x. j = i \<Longrightarrow> self_ok i True (pcs i) x s \<Longrightarrow> self_ok i False pn x (aup s)"
    and "\<And>x s. j \<noteq> i \<Longrightarrow> self_ok i False (pcs i) x s \<Longrightarrow> self_ok i False pn x s"
    and "t' = t\<lparr>sems := (sems t)(Self j := aup (sems t (Self j))), code := (code t)(i := code_at i pn)\<rparr>"
  shows "table_ok (pcs(i := pn)) (Some i) t'"
  using assms(1-4)
proof (rule own_move)
  show "self_ok k (raises i pn = Some k) (pcs k) (state_sema t' k) (sems t' (Self k))"
    if "k \<noteq> i" "pcs k \<notin> critical"
      "self_ok k (raises i (pcs i) = Some k) (pcs k) (state_sema t k) (sems t (Self k))" for k
    using that assms(5,6,10) self_raised [of k "pcs k"] by (cases "k = j") auto
  show "self_ok i (raises i pn = Some i) pn (state_sema t' i) (sems t' (Self i))"
    if "self_ok i (raises i (pcs i) = Some i) (pcs i) (state_sema t i) (sems t (Self i))"
    using that assms(5,6,8,9,10) by (cases "j = i") simp_all
qed (use assms in \<open>auto simp: hungry_simps\<close>)

lemma step_own:
  assumes "table_ok pcs own t" "i < PHILS" "phi_step i t = Some t'" "pcs i \<in> critical - {TakeUp, PutUp}"
  shows "\<exists>p. table_ok (pcs(i := p)) own t'"
proof -
  have o: "own = Some i" using owner(1) [OF assms(1,2)] assms(4) by blast
  have ok: "table_ok pcs (Some i) t" using assms(1) o by simp
  have c: "code t i = code_at i (pcs i)"
    using assms(1,2) by (simp add: table_ok_def)
  note simps = phi_step_def phi_take_forks_sema_def phi_put_forks_sema_def
  note nb = neighbours [OF assms(2)] neighbours(3,4)
  note st = assms(3) c
  from assms(4) consider "pcs i = SetHungry" | "pcs i = TestSelf" | "pcs i = UpSelf" | "pcs i = SetThinking"
    | "pcs i = TestLeft" | "pcs i = UpLeft" | "pcs i = TestRight" | "pcs i = UpRight"
    by (auto simp: critical_def)
  then have "\<exists>p. table_ok (pcs(i := p)) (Some i) t'"
  proof cases
    case 1
    then have "state_sema t i = THINKING"
      using ok assms(2) by (fastforce simp: table_ok_def)
    with 1 st show ?thesis
      by (intro exI [of _ TestSelf] own_move [OF ok assms(2)])
        (auto simp: simps critical_def hungry_simps split: if_splits)
  next
    case 2
    then have "t' = phi_test_sema i i (code_at i TakeUp) t" using st by (simp add: simps)
    with 2 show ?thesis
      using own_test [OF ok assms(2) assms(2), of TakeUp UpSelf] by (simp add: simps critical_def)
  next
    case 3
    then have "t' = t\<lparr>sems := (sems t)(Self i := aup (sems t (Self i))), code := (code t)(i := code_at i TakeUp)\<rparr>"
      using st by (simp add: simps)
    with 3 show ?thesis
      using own_raise [OF ok assms(2), of TakeUp i t'] by (auto simp: critical_def)
  next
    case 4
    with st nb show ?thesis
      by (intro exI [of _ TestLeft] own_move [OF ok assms(2)])
        (auto simp: simps critical_def hungry_simps split: if_splits)
  next
    case 5
    then have "t' = phi_test_sema i (LEFT i) (code_at i TestRight) t" using st by (simp add: simps)
    with 5 nb show ?thesis
      using own_test [OF ok assms(2) nb(1), of TestRight UpLeft] by (simp add: simps critical_def)
  next
    case 6
    then have "t' = t\<lparr>sems := (sems t)(Self (LEFT i) := aup (sems t (Self (LEFT i)))), code := (code t)(i := code_at i TestRight)\<rparr>"
      using st by (simp add: simps)
    with 6 nb show ?thesis
      using own_raise [OF ok assms(2), of TestRight "LEFT i" t'] by (auto simp: critical_def)
  next
    case 7
    then have "t' = phi_test_sema i (RIGHT i) (code_at i PutUp) t" using st by (simp add: simps)
    with 7 nb show ?thesis
      using own_test [OF ok assms(2) nb(2), of PutUp UpRight] by (simp add: simps critical_def)
  next
    case 8
    then have "t' = t\<lparr>sems := (sems t)(Self (RIGHT i) := aup (sems t (Self (RIGHT i)))), code := (code t)(i := code_at i PutUp)\<rparr>"
      using st by (simp add: simps)
    with 8 nb show ?thesis
      using own_raise [OF ok assms(2), of PutUp "RIGHT i" t'] by (auto simp: critical_def)
  qed
  with o show ?thesis by simp
qed


text \<open>A move that changes the mutex only; nothing is raised or tested before or after it.\<close>

lemma mutex_move:
  assumes "table_ok pcs own t" "i < PHILS" "mutex_ok (pcs(i := p)) own' t'"
    and "t' = t\<lparr>sems := (sems t)(Mutex := m), code := (code t)(i := code_at i p)\<rparr>"
    and "\<And>k. raised (pcs(i := p)) own' k \<longleftrightarrow> raised pcs own k"
    and "\<And>k. hungry_ok pcs own t k \<Longrightarrow> hungry_ok (pcs(i := p)) own' t' k"
    and "\<And>r x s. self_ok i r (pcs i) x s \<Longrightarrow> self_ok i r p x s"
  shows "table_ok (pcs(i := p)) own' t'"
  using assms(1) _ assms(3)
proof (rule move)
  show "self_ok k (raised (pcs(i := p)) own' k) ((pcs(i := p)) k) (state_sema t' k) (sems t' (Self k))"
    if "self_ok k (raised pcs own k) (pcs k) (state_sema t k) (sems t (Self k))" for k
    using that assms(4,5,7) by (cases "k = i") simp_all
qed (use assms in \<open>auto simp: table_ok_def\<close>)

lemma step_down:
  assumes "table_ok pcs own t" "i < PHILS" "phi_step i t = Some t'"
    and "pcs i = TakeDown \<and> pw = TakeWait \<and> pn = SetHungry \<or> pcs i = PutDown \<and> pw = PutWait \<and> pn = SetThinking"
  shows "\<exists>p own'. table_ok (pcs(i := p)) own' t'"
proof -
  have c: "code t i = code_at i (pcs i)" and m: "mutex_ok pcs own t"
    using assms(1,2) by (simp_all add: table_ok_def)
  have o: "own \<noteq> Some i"
    using owner(2) [OF assms(1,2)] assms(4) by (auto simp: critical_def mutex_waits_def)
  have ni: "i \<notin> set (snd (sems t Mutex))"
    using m assms(4) by (auto simp: mutex_ok_def mutex_waits_def)
  note crit = critical_def mutex_waits_def
  note simps = phi_step_def phi_take_forks_sema_def phi_put_forks_sema_def
  show ?thesis
  proof (cases own)
    case None
    then obtain v where v: "sems t Mutex = (1, [])" "own = None"
      using m by (auto simp: mutex_ok_def prod_eq_iff)
    have "table_ok (pcs(i := pn)) (Some i) t'"
    proof (rule mutex_move [OF assms(1,2)])
      show "t' = t\<lparr>sems := (sems t)(Mutex := (0, [])), code := (code t)(i := code_at i pn)\<rparr>"
        using assms(3,4) c v by (auto simp: simps)
      then show "mutex_ok (pcs(i := pn)) (Some i) t'"
        using m v assms(2,4) by (auto simp: mutex_ok_def owns_def crit)
      show "hungry_ok (pcs(i := pn)) (Some i) t' k" if "hungry_ok pcs own t k" for k
        using that v \<open>t' = _\<close> by (auto simp: hungry_simps)
    qed (use assms(4) v in \<open>auto simp: raised_def\<close>)
    then show ?thesis by blast
  next
    case (Some j)
    then have v: "sems t Mutex = (0, snd (sems t Mutex))" "j \<noteq> i"
      using m o by (auto simp: mutex_ok_def prod_eq_iff)
    have "table_ok (pcs(i := pw)) own t'"
    proof (rule mutex_move [OF assms(1,2)])
      show t': "t' = t\<lparr>sems := (sems t)(Mutex := (0, snd (sems t Mutex) @ [i])), code := (code t)(i := code_at i pw)\<rparr>"
        using assms(3,4) c v(1) by (cases "sems t Mutex") (auto simp: simps)
      show "mutex_ok (pcs(i := pw)) own t'"
        unfolding t' using m v assms(2,4) ni Some by (auto simp: mutex_ok_def owns_def crit)
      show "hungry_ok (pcs(i := pw)) own t' k" if "hungry_ok pcs own t k" for k
        using that Some v(2) t' by (auto simp: hungry_simps)
    qed (use assms(4) Some v in \<open>auto simp: raised_def\<close>)
    then show ?thesis by blast
  qed
qed

lemma step_wake:
  assumes "table_ok pcs own t" "i < PHILS" "phi_step i t = Some t'"
    and "pcs i = TakeWait \<and> pn = SetHungry \<or> pcs i = PutWait \<and> pn = SetThinking"
  shows "\<exists>p own'. table_ok (pcs(i := p)) own' t'"
proof -
  have c: "code t i = code_at i (pcs i)" and m: "mutex_ok pcs own t"
    using assms(1,2) by (simp_all add: table_ok_def)
  note crit = critical_def mutex_waits_def
  note simps = phi_step_def phi_take_forks_sema_def phi_put_forks_sema_def
  have ni: "i \<notin> set (snd (sems t Mutex))"
    using assms(3,4) c by (auto simp: simps split: if_splits)
  then have o: "own = Some i"
    using m assms(2,4) by (auto simp: mutex_ok_def owns_def crit)
  have "table_ok (pcs(i := pn)) own t'"
  proof (rule mutex_move [OF assms(1,2)])
    show t': "t' = t\<lparr>sems := (sems t)(Mutex := sems t Mutex), code := (code t)(i := code_at i pn)\<rparr>"
      using assms(3,4) c ni by (auto simp: simps)
    show "mutex_ok (pcs(i := pn)) own t'"
      unfolding t' using m assms(2,4) o ni by (auto simp: mutex_ok_def owns_def crit)
    show "hungry_ok (pcs(i := pn)) own t' k" if "hungry_ok pcs own t k" for k
      using that o t' assms(4) by (auto simp: hungry_simps)
  qed (use assms(4) o in \<open>auto simp: raised_def\<close>)
  then show ?thesis by blast
qed

lemma step_up:
  assumes "table_ok pcs own t" "i < PHILS" "phi_step i t = Some t'"
    and "pcs i = TakeUp \<and> pn = DownSelf \<or> pcs i = PutUp \<and> pn = Head"
  shows "\<exists>p own'. table_ok (pcs(i := p)) own' t'"
proof -
  have c: "code t i = code_at i (pcs i)" and m: "mutex_ok pcs own t"
    using assms(1,2) by (simp_all add: table_ok_def)
  note crit = critical_def mutex_waits_def
  note simps = phi_step_def phi_take_forks_sema_def phi_put_forks_sema_def
  have o: "own = Some i"
    using owner(1) [OF assms(1,2)] assms(4) by (auto simp: crit)
  obtain q where q: "sems t Mutex = (0, q)"
    using m o by (cases "sems t Mutex") (auto simp: mutex_ok_def)
  have wq: "distinct q" "\<And>j. j \<in> set q \<Longrightarrow> j < PHILS \<and> j \<noteq> i \<and> pcs j \<in> mutex_waits"
    using m q assms(4) by (auto simp: mutex_ok_def crit)
  define own' where "own' = (case q of [] \<Rightarrow> None | j # _ \<Rightarrow> Some j)"
  have quiet: "raises j (pcs j) = None" "tests j (pcs j) = {}" if "own' = Some j" for j
    using that wq(2) [of j] by (auto simp: own'_def mutex_waits_def split: list.splits)
  have ne: "own' \<noteq> Some i"
    using wq(2) by (auto simp: own'_def split: list.splits)
  have "table_ok (pcs(i := pn)) own' t'"
  proof (rule mutex_move [OF assms(1,2)])
    show t': "t' = t\<lparr>sems := (sems t)(Mutex := aup (0, q)), code := (code t)(i := code_at i pn)\<rparr>"
      using assms(3,4) c q by (auto simp: simps)
    have others: "owns pcs t k \<longleftrightarrow> k = i" if "k < PHILS" for k
      using m o that by (auto simp: mutex_ok_def)
    show "mutex_ok (pcs(i := pn)) own' t'"
    proof (cases q)
      case Nil
      have "\<not> owns (pcs(i := pn)) t' k" if "k < PHILS" for k
        using others [OF that] assms(4) Nil q unfolding t' by (auto simp: owns_def crit)
      with Nil show ?thesis
        by (simp add: mutex_ok_def own'_def t')
    next
      case (Cons j js)
      then have j: "j < PHILS" "j \<noteq> i" "pcs j \<in> mutex_waits" "j \<notin> set js"
        using wq(1) wq(2) [of j] by auto
      have "owns (pcs(i := pn)) t' k \<longleftrightarrow> k = j" if "k < PHILS" for k
        using others [OF that] assms(4) Cons q j unfolding t' by (auto simp: owns_def crit)
      with Cons j wq show ?thesis
        by (auto simp: mutex_ok_def own'_def t')
    qed
    show "hungry_ok (pcs(i := pn)) own' t' k" if "hungry_ok pcs own t k" for k
      using that o assms(4) by (auto simp: hungry_ok_def t')
  qed (use assms(4) o ne quiet in \<open>auto simp: raised_def\<close>)
  then show ?thesis by blast
qed

lemma step_ok:
  assumes "table_ok pcs own t" "table_step t t'"
  shows "\<exists>pcs' own'. table_ok pcs' own' t'"
  using assms(2)
proof cases
  case (run i)
  have "\<exists>p own'. table_ok (pcs(i := p)) own' t'"
  proof (cases "pcs i \<in> {Head, Think, DownSelf, WaitSelf, Eat} \<or> pcs i \<in> critical - {TakeUp, PutUp}")
    case True
    then show ?thesis
      using step_free [OF assms(1) run] step_own [OF assms(1) run] by blast
  next
    case False
    then show ?thesis
      using step_down [OF assms(1) run, of TakeWait SetHungry] step_down [OF assms(1) run, of PutWait SetThinking]
        step_wake [OF assms(1) run, of SetHungry] step_wake [OF assms(1) run, of SetThinking]
        step_up [OF assms(1) run, of DownSelf] step_up [OF assms(1) run, of Head]
      by (cases "pcs i") (simp_all add: critical_def)
  qed
  then show ?thesis by blast
qed

lemma reachable_ok:
  assumes "table_step\<^sup>*\<^sup>* check_sync t"
  shows "\<exists>pcs own. table_ok pcs own t"
  using assms
proof (induction rule: rtranclp_induct)
  case base
  show ?case using check_sync_ok by blast
next
  case (step y z)
  then show ?case using step_ok by blast
qed


section \<open>What the table guarantees\<close>

lemma eats_state:
  assumes "table_ok pcs own t" "i < PHILS" "eats t i"
  shows "state_sema t i = EATING"
proof -
  have c: "code t i = code_at i (pcs i)"
    and s: "self_ok i (raised pcs own i) (pcs i) (state_sema t i) (sems t (Self i))"
    using assms(1,2) by (simp_all add: table_ok_def)
  have "pcs i = Eat \<or> pcs i = PutDown"
    using c assms(3) unfolding eats_def phi_put_forks_sema_def phi_take_forks_sema_def
    by (cases "pcs i") (simp_all add: phi_put_forks_sema_def phi_take_forks_sema_def)
  with s show ?thesis by auto
qed

text \<open>Whoever owns the mutex can run.\<close>

lemma owner_runs:
  assumes "table_ok pcs (Some j) t"
  shows "phi_step j t \<noteq> None"
proof -
  have j: "j < PHILS" "owns pcs t j" "code t j = code_at j (pcs j)"
    using assms by (auto simp: table_ok_def mutex_ok_def)
  then show ?thesis
    by (cases "pcs j") (auto simp: owns_def critical_def mutex_waits_def phi_step_def
        phi_take_forks_sema_def phi_put_forks_sema_def)
qed

text \<open>When nobody owns the mutex, a philosopher that cannot run has quit, or is hungry and waits.\<close>

lemma stuck_without_owner:
  assumes "table_ok pcs None t" "i < PHILS" "phi_step i t = None"
  shows "has_quit t i \<and> state_sema t i = THINKING \<and> sems t (Self i) = (0, []) \<or> state_sema t i = HUNGRY"
proof -
  have c: "code t i = code_at i (pcs i)" "iter t i \<le> TIMES" "\<not> owns pcs t i" "snd (sems t Mutex) = []"
    and s: "self_ok i False (pcs i) (state_sema t i) (sems t (Self i))"
    using assms(1,2) by (auto simp: table_ok_def mutex_ok_def raised_simps)
  have "pcs i = Head \<or> pcs i = WaitSelf"
    using assms(3) c(1,3,4)
    by (cases "pcs i") (auto simp: owns_def critical_def mutex_waits_def phi_step_def
        phi_take_forks_sema_def phi_put_forks_sema_def)
  then show ?thesis
  proof
    assume "pcs i = Head"
    then show ?thesis
      using c(1,2) s assms(3)
      by (auto simp: has_quit_def phi_step_def philosopher_using_semaphore_def split: if_splits)
  next
    assume "pcs i = WaitSelf"
    then show ?thesis
      using c(1) s assms(3) by (auto simp: phi_step_def split: if_splits)
  qed
qed

lemma stuck_all_quit:
  assumes "table_ok pcs own t" "\<And>t'. \<not> table_step t t'"
  shows "sems t Mutex = (1, [])"
    "\<And>i. i < PHILS \<Longrightarrow> has_quit t i \<and> state_sema t i = THINKING \<and> sems t (Self i) = (0, [])"
proof -
  have st: "phi_step i t = None" if "i < PHILS" for i
    using assms(2) that table_step.run [of i t] by (cases "phi_step i t") auto
  have own: "own = None"
  proof (cases own)
    case (Some j)
    then have "j < PHILS" using assms(1) by (auto simp: table_ok_def mutex_ok_def)
    with Some show ?thesis using owner_runs assms(1) st by blast
  qed
  then show "sems t Mutex = (1, [])"
    using assms(1) by (auto simp: table_ok_def mutex_ok_def prod_eq_iff)
  fix i
  assume i: "i < PHILS"
  have h: "hungry_ok pcs None t i"
    using assms(1) own i by (simp add: table_ok_def)
  note q = stuck_without_owner [OF assms(1) [unfolded own]]
  from q [OF i st [OF i]] show "has_quit t i \<and> state_sema t i = THINKING \<and> sems t (Self i) = (0, [])"
  proof
    assume "state_sema t i = HUNGRY"
    with h have "state_sema t (LEFT i) = EATING \<or> state_sema t (RIGHT i) = EATING"
      by (simp add: hungry_simps)
    then show ?thesis
      using q [OF neighbours(1) [OF i] st [OF neighbours(1) [OF i]]]
        q [OF neighbours(2) [OF i] st [OF neighbours(2) [OF i]]] by auto
  qed simp
qed

lemma run_to_end:
  "\<exists>k t'. (table_step ^^ k) t t' \<and> (\<forall>u. \<not> table_step t' u)"
proof (induction "work t" arbitrary: t rule: less_induct)
  case less
  show ?case
  proof (cases "\<exists>u. table_step t u")
    case True
    then obtain u where u: "table_step t u" by blast
    with less table_step_work obtain k t' where "(table_step ^^ k) u t'" "\<forall>v. \<not> table_step t' v" by blast
    with u relpowp_Suc_I2 [of table_step] show ?thesis by blast
  next
    case False
    then show ?thesis by (intro exI [of _ 0] exI [of _ t]) simp
  qed
qed

text \<open>C24: Neighbours never eat at the same time, in every state that the threads of \<open>check_sync\<close> reach
  under any scheduling.\<close>

theorem neighbours_never_eat_together:
  assumes "table_step\<^sup>*\<^sup>* check_sync t" "i < PHILS" "eats t i"
  shows "\<not> eats t (LEFT i) \<and> \<not> eats t (RIGHT i)"
proof -
  obtain pcs own where ok: "table_ok pcs own t" using reachable_ok [OF assms(1)] by blast
  note nb = neighbours [OF assms(2)]
  have "\<not> (state_sema t k = EATING \<and> state_sema t (RIGHT k) = EATING)" if "k < PHILS" for k
    using ok that by (simp add: table_ok_def)
  from this [OF assms(2)] this [OF nb(1)] show ?thesis
    using eats_state [OF ok assms(2,3)] eats_state [OF ok nb(1)] eats_state [OF ok nb(2)] nb(4) by auto
qed

fun run_phis :: "nat list \<Rightarrow> table \<Rightarrow> table option" where
  "run_phis [] t = Some t"
| "run_phis (i # is) t = (if i < PHILS then Option.bind (phi_step i t) (run_phis is) else None)"

lemma run_phis_steps: "run_phis is t = Some t' \<Longrightarrow> table_step\<^sup>*\<^sup>* t t'"
proof (induction "is" arbitrary: t)
  case (Cons i "is")
  then obtain u where "i < PHILS" "phi_step i t = Some u" "run_phis is u = Some t'"
    by (auto split: if_splits simp: bind_eq_Some_conv)
  with Cons.IH show ?case by (meson converse_rtranclp_into_rtranclp table_step.run)
qed simp

text \<open>Philosophers 0 and 2 eat; 1 sits between them.\<close>

theorem neighbours_never_eat_together_witness:
  "\<exists>t. table_step\<^sup>*\<^sup>* check_sync t \<and> eats t 0 \<and> eats t 2 \<and> \<not> eats t 1"
proof -
  define t where "t = the (run_phis [0,0,0,0,0,0,0,0,2,2,2,2,2,2,2,2] check_sync)"
  have r: "run_phis [0,0,0,0,0,0,0,0,2,2,2,2,2,2,2,2] check_sync = Some t \<and> eats t 0 \<and> eats t 2"
    unfolding t_def
    by (simp add: PHILS_def TIMES_def phi_step_def check_sync_def philosopher_using_semaphore_def phi_test_sema_def
        phi_take_forks_sema_def phi_put_forks_sema_def LEFT_def RIGHT_def eats_def)
  then have "table_step\<^sup>*\<^sup>* check_sync t" using run_phis_steps by blast
  with neighbours_never_eat_together [of t 0] r show ?thesis by (auto simp: RIGHT_def PHILS_def)
qed

text \<open>C25: The philosophers neither deadlock nor starve: a run of the threads of \<open>check_sync\<close> has at most
  380 steps whatever the scheduler does, and when nobody can go on, everyone has eaten \<open>TIMES\<close> times and
  quit, and states and semaphores are back to what they were at the start.\<close>

theorem philosophers_all_quit:
  assumes "(table_step ^^ k) check_sync t"
  shows "k \<le> 380 \<and> ((\<forall>t'. \<not> table_step t t') \<longrightarrow>
    sems t Mutex = (1, []) \<and>
    (\<forall>i<PHILS. has_quit t i \<and> state_sema t i = THINKING \<and> sems t (Self i) = (0, [])))"
proof -
  have "table_step\<^sup>*\<^sup>* check_sync t" using assms by (rule relpowp_imp_rtranclp)
  then obtain pcs own where "table_ok pcs own t" using reachable_ok by blast
  then show ?thesis
    using run_length [OF assms] work_check_sync stuck_all_quit by auto
qed

theorem philosophers_all_quit_witness:
  "\<exists>k t. k \<le> 380 \<and> (table_step ^^ k) check_sync t \<and> (\<forall>i<PHILS. has_quit t i)"
proof -
  obtain k t where "(table_step ^^ k) check_sync t" "\<forall>u. \<not> table_step t u"
    using run_to_end by blast
  with philosophers_all_quit [of k t] show ?thesis by blast
qed

end
