(* ===== verification/Iobuf.thy ===== *)
theory Iobuf
  imports String_Lib
begin

text \<open>
  \<open>lab8/kern/fs/iobuf.c\<close>: the record of a transfer between a buffer and a data area in the byte
  memory of \<open>String_Lib\<close>. The error \<open>-E_NO_MEM\<close> is \<open>Some E_NO_MEM\<close>, the result 0 is \<open>None\<close>; a failed
  assertion is the outer \<open>None\<close>.
\<close>

record iobuf =
  io_base :: nat
  io_offset :: int
  io_len :: nat
  io_resid :: nat

definition iobuf_used :: "iobuf \<Rightarrow> nat" where
  "iobuf_used iob = io_len iob - io_resid iob"

definition iobuf_init :: "nat \<Rightarrow> nat \<Rightarrow> int \<Rightarrow> iobuf" where
  "iobuf_init base len offset = \<lparr>io_base = base, io_offset = offset, io_len = len, io_resid = len\<rparr>"

definition iobuf_skip :: "nat \<Rightarrow> iobuf \<Rightarrow> iobuf option" where
  "iobuf_skip n iob =
     (if io_resid iob \<ge> n
      then Some (iob\<lparr>io_base := io_base iob + n, io_offset := io_offset iob + int n, io_resid := io_resid iob - n\<rparr>)
      else None)"

text \<open>The result has the return value, the number of bytes copied, the record and the memory.\<close>

definition iobuf_move :: "iobuf \<Rightarrow> nat \<Rightarrow> nat \<Rightarrow> bool \<Rightarrow> bmem \<Rightarrow> (errno option \<times> nat \<times> iobuf \<times> bmem) option" where
  "iobuf_move iob data len m2b m =
     (let alen = (if io_resid iob > len then len else io_resid iob) in
      if alen > 0
      then (let src = (if m2b then data else io_base iob); dst = (if m2b then io_base iob else data) in
            case iobuf_skip alen iob of
              None \<Rightarrow> None
            | Some iob' \<Rightarrow> Some (if len - alen = 0 then None else Some E_NO_MEM, alen, iob', memmove dst src alen m))
      else Some (if len = 0 then None else Some E_NO_MEM, alen, iob, m))"

definition iobuf_move_zeros :: "iobuf \<Rightarrow> nat \<Rightarrow> bmem \<Rightarrow> (errno option \<times> nat \<times> iobuf \<times> bmem) option" where
  "iobuf_move_zeros iob len m =
     (let alen = (if io_resid iob > len then len else io_resid iob) in
      if alen > 0
      then (case iobuf_skip alen iob of
              None \<Rightarrow> None
            | Some iob' \<Rightarrow> Some (if len - alen = 0 then None else Some E_NO_MEM, alen, iob', memset (io_base iob) 0 alen m))
      else Some (if len = 0 then None else Some E_NO_MEM, alen, iob, m))"

section \<open>Transfers\<close>

definition iob_ok :: "iobuf \<Rightarrow> bool" where
  "iob_ok iob \<longleftrightarrow> io_resid iob \<le> io_len iob"

lemma iobuf_init_ok: "iob_ok (iobuf_init base len offset)"
  by (simp add: iob_ok_def iobuf_init_def)

text \<open>A move never fails its assertion; it copies as much as both sides hold, says so, and moves the
  record on by as much.\<close>

lemma iobuf_move_eq:
  "iobuf_move iob data len m2b m =
     (let alen = min (io_resid iob) len in
      Some (if len \<le> io_resid iob then None else Some E_NO_MEM, alen,
        iob\<lparr>io_base := io_base iob + alen, io_offset := io_offset iob + int alen, io_resid := io_resid iob - alen\<rparr>,
        (\<lambda>a. let dst = (if m2b then io_base iob else data); src = (if m2b then data else io_base iob)
             in if dst \<le> a \<and> a < dst + alen then m (src + (a - dst)) else m a)))"
proof (cases "min (io_resid iob) len = 0")
  case True
  have "(\<lambda>a. if x \<le> a \<and> a < x then y a else m a) = m" for x :: nat and y
    by (rule ext) auto
  with True show ?thesis
    by (auto simp: iobuf_move_def iobuf_skip_def Let_def min_def split: if_splits)
qed (auto simp: iobuf_move_def iobuf_skip_def memmove_eq Let_def min_def)

text \<open>Two moves in a row into a buffer are one move of both pieces, when the data lies apart from the
  buffer: this is how the callers fill a buffer block by block.\<close>

lemma iobuf_move_twice:
  assumes "iobuf_move iob data n True m = Some (None, n, iob1, m1)"
    and "iobuf_move iob1 (data + n) k True m1 = Some (None, k, iob2, m2)"
    and "data + n + k \<le> io_base iob \<or> io_base iob + n + k \<le> data"
  shows "iobuf_move iob data (n + k) True m = Some (None, n + k, iob2, m2)"
proof -
  from assms(1) have 1: "n \<le> io_resid iob"
    "iob1 = iob\<lparr>io_base := io_base iob + n, io_offset := io_offset iob + int n, io_resid := io_resid iob - n\<rparr>"
    "m1 = (\<lambda>a. if io_base iob \<le> a \<and> a < io_base iob + n then m (data + (a - io_base iob)) else m a)"
    by (auto simp: iobuf_move_eq Let_def min_def split: if_splits)
  from assms(2) have 2: "k \<le> io_resid iob - n"
    "iob2 = iob\<lparr>io_base := io_base iob + n + k, io_offset := io_offset iob + int n + int k, io_resid := io_resid iob - n - k\<rparr>"
    "m2 = (\<lambda>a. if io_base iob + n \<le> a \<and> a < io_base iob + n + k then m1 (data + n + (a - (io_base iob + n))) else m1 a)"
    by (auto simp: iobuf_move_eq Let_def min_def 1(2) split: if_splits)
  let ?m = "\<lambda>a. if io_base iob \<le> a \<and> a < io_base iob + (n + k) then m (data + (a - io_base iob)) else m a"
  have m2: "m2 = ?m"
    unfolding 2(3) 1(3) using assms(3) by (rule_tac ext) auto
  have r: "iob2 = iob\<lparr>io_base := io_base iob + (n + k), io_offset := io_offset iob + int (n + k),
      io_resid := io_resid iob - (n + k)\<rparr>"
    using 2(2) by (simp add: add.assoc)
  from 1(1) 2(1) have le: "n + k \<le> io_resid iob"
    by linarith
  then show ?thesis
    unfolding m2 r by (simp add: iobuf_move_eq Let_def min_absorb2)
qed

end
