(* ===== verification/Disk0.thy ===== *)
theory Disk0
  imports Iobuf
begin

text \<open>
  The disk device: \<open>lab8/kern/fs/devs/dev_disk0.c\<close> over the disk of \<open>lab8/kern/driver/ide.c\<close> and
  \<open>ramdisk.c\<close>. The disk is an image of bytes, and the buffers are regions of the kernel's byte memory.
  Operations are run one at a time, so the semaphore \<open>disk0_sem\<close> is left out. A copy that leaves the
  image is \<open>None\<close>.
\<close>

definition SECTSIZE :: nat where "SECTSIZE = 512"

definition MAX_NSECS :: nat where "MAX_NSECS = 128"

definition MAX_DISK_NSECS :: nat where "MAX_DISK_NSECS = 0x10000000"

definition DISK0_BLKSIZE :: nat where "DISK0_BLKSIZE = 4096"

definition DISK0_BUFSIZE :: nat where "DISK0_BUFSIZE = 4 * DISK0_BLKSIZE"

definition DISK0_BLK_NSECT :: nat where "DISK0_BLK_NSECT = DISK0_BLKSIZE div SECTSIZE"

record disk0 =
  d_blocks :: nat
  ide_size :: nat
  dimage :: "nat \<Rightarrow> u8"
  disk0_buffer :: nat
  kbytes :: bmem

text \<open>\<open>dev->size - secno\<close> is unsigned: past the end it is larger than any \<open>nsecs\<close>.\<close>

definition ramdisk_nsecs :: "nat \<Rightarrow> nat \<Rightarrow> 'a disk0_scheme \<Rightarrow> nat" where
  "ramdisk_nsecs secno nsecs d = (if secno \<le> ide_size d then min nsecs (ide_size d - secno) else nsecs)"

definition ramdisk_read :: "nat \<Rightarrow> nat \<Rightarrow> nat \<Rightarrow> 'a disk0_scheme \<Rightarrow> 'a disk0_scheme option" where
  "ramdisk_read secno dst nsecs d =
     (let n = ramdisk_nsecs secno nsecs d in
      if secno + n \<le> ide_size d
      then Some (d\<lparr>kbytes := (\<lambda>a. if dst \<le> a \<and> a < dst + n * SECTSIZE
                             then dimage d (secno * SECTSIZE + (a - dst)) else kbytes d a)\<rparr>)
      else None)"

definition ramdisk_write :: "nat \<Rightarrow> nat \<Rightarrow> nat \<Rightarrow> 'a disk0_scheme \<Rightarrow> 'a disk0_scheme option" where
  "ramdisk_write secno src nsecs d =
     (let n = ramdisk_nsecs secno nsecs d in
      if secno + n \<le> ide_size d
      then Some (d\<lparr>dimage := (\<lambda>a. if secno * SECTSIZE \<le> a \<and> a < secno * SECTSIZE + n * SECTSIZE
                             then kbytes d (src + (a - secno * SECTSIZE)) else dimage d a)\<rparr>)
      else None)"

definition ide_read_secs :: "u32 \<Rightarrow> nat \<Rightarrow> nat \<Rightarrow> 'a disk0_scheme \<Rightarrow> 'a disk0_scheme option" where
  "ide_read_secs secno dst nsecs d =
     (if \<not> nsecs \<le> MAX_NSECS then None
      else if \<not> (unat secno < MAX_DISK_NSECS \<and> unat secno + nsecs \<le> MAX_DISK_NSECS) then None
      else ramdisk_read (unat secno) dst nsecs d)"

definition ide_write_secs :: "u32 \<Rightarrow> nat \<Rightarrow> nat \<Rightarrow> 'a disk0_scheme \<Rightarrow> 'a disk0_scheme option" where
  "ide_write_secs secno src nsecs d =
     (if \<not> nsecs \<le> MAX_NSECS then None
      else if \<not> (unat secno < MAX_DISK_NSECS \<and> unat secno + nsecs \<le> MAX_DISK_NSECS) then None
      else ramdisk_write (unat secno) src nsecs d)"

text \<open>The two block operations; the sector numbers are computed in 32 bits.\<close>

definition disk0_read_blks_nolock :: "u32 \<Rightarrow> u32 \<Rightarrow> 'a disk0_scheme \<Rightarrow> 'a disk0_scheme option" where
  "disk0_read_blks_nolock blkno nblks d =
     ide_read_secs (blkno * of_nat DISK0_BLK_NSECT) (disk0_buffer d) (unat (nblks * of_nat DISK0_BLK_NSECT)) d"

definition disk0_write_blks_nolock :: "u32 \<Rightarrow> u32 \<Rightarrow> 'a disk0_scheme \<Rightarrow> 'a disk0_scheme option" where
  "disk0_write_blks_nolock blkno nblks d =
     ide_write_secs (blkno * of_nat DISK0_BLK_NSECT) (disk0_buffer d) (unat (nblks * of_nat DISK0_BLK_NSECT)) d"

text \<open>The loop of \<open>disk0_io\<close>, a buffer full at a time.\<close>

function disk0_loop :: "bool \<Rightarrow> u32 \<Rightarrow> nat \<Rightarrow> iobuf \<Rightarrow> 'a disk0_scheme \<Rightarrow> (iobuf \<times> 'a disk0_scheme) option" where
  "disk0_loop wrt blkno resid iob d =
     (if resid = 0 then Some (iob, d)
      else if wrt
      then (case iobuf_move iob (disk0_buffer d) DISK0_BUFSIZE False (kbytes d) of
              None \<Rightarrow> None
            | Some (_, copied, iob1, m) \<Rightarrow>
                if \<not> (copied \<noteq> 0 \<and> copied \<le> resid \<and> copied mod DISK0_BLKSIZE = 0) then None
                else (case disk0_write_blks_nolock blkno (of_nat (copied div DISK0_BLKSIZE)) (d\<lparr>kbytes := m\<rparr>) of
                        None \<Rightarrow> None
                      | Some d1 \<Rightarrow> disk0_loop wrt (blkno + of_nat (copied div DISK0_BLKSIZE)) (resid - copied) iob1 d1))
      else let alen = (if DISK0_BUFSIZE > resid then resid else DISK0_BUFSIZE)
           in (case disk0_read_blks_nolock blkno (of_nat (alen div DISK0_BLKSIZE)) d of
                 None \<Rightarrow> None
               | Some d1 \<Rightarrow>
                   (case iobuf_move iob (disk0_buffer d1) alen True (kbytes d1) of
                      None \<Rightarrow> None
                    | Some (_, copied, iob1, m) \<Rightarrow>
                        if \<not> (copied = alen \<and> copied mod DISK0_BLKSIZE = 0) then None
                        else disk0_loop wrt (blkno + of_nat (alen div DISK0_BLKSIZE)) (resid - copied) iob1
                               (d1\<lparr>kbytes := m\<rparr>))))"
  by pat_completeness auto
termination
  by (relation "measure (\<lambda>(_, _, resid, _). resid)") (auto simp: DISK0_BUFSIZE_def DISK0_BLKSIZE_def split: if_splits)

declare disk0_loop.simps [simp del]

text \<open>\<open>blkno\<close> and \<open>nblks\<close> are 32 bits wide.\<close>

definition disk0_io :: "iobuf \<Rightarrow> bool \<Rightarrow> 'a disk0_scheme \<Rightarrow> (errno option \<times> iobuf \<times> 'a disk0_scheme) option" where
  "disk0_io iob wrt d =
     (let offset = io_offset iob; resid = io_resid iob;
          blkno = (word_of_int (offset div int DISK0_BLKSIZE) :: u32);
          nblks = (of_nat (resid div DISK0_BLKSIZE) :: u32)
      in if offset mod int DISK0_BLKSIZE \<noteq> 0 \<or> resid mod DISK0_BLKSIZE \<noteq> 0 then Some (Some E_INVAL, iob, d)
         else if unat (blkno + nblks) > d_blocks d then Some (Some E_INVAL, iob, d)
         else if nblks = 0 then Some (None, iob, d)
         else map_option (\<lambda>(iob1, d1). (None, iob1, d1)) (disk0_loop wrt blkno resid iob d))"

section \<open>One block\<close>

text \<open>The device reports no more blocks than the image has sectors for, and block numbers times 8
  stay below the sector limit. The buffer of the device lies apart from that of the caller.\<close>

definition disk_ok :: "'a disk0_scheme \<Rightarrow> bool" where
  "disk_ok d \<longleftrightarrow> d_blocks d * 8 \<le> ide_size d \<and> d_blocks d * 8 \<le> MAX_DISK_NSECS"

definition block_at :: "'a disk0_scheme \<Rightarrow> nat \<Rightarrow> nat \<Rightarrow> u8" where
  "block_at d n a = dimage d (4096 * n + a)"

definition apart :: "nat \<Rightarrow> nat \<Rightarrow> bool" where
  "apart p q \<longleftrightarrow> p + 4096 \<le> q \<or> q + 4096 \<le> p"

lemma sector_of_block:
  fixes blkno :: u32
  assumes "unat blkno * 8 < 2 ^ 32"
  shows "unat (blkno * of_nat DISK0_BLK_NSECT) = unat blkno * 8" "unat (1 * of_nat DISK0_BLK_NSECT :: u32) = 8"
  using assms by (simp_all add: DISK0_BLK_NSECT_def DISK0_BLKSIZE_def SECTSIZE_def unat_word_ariths)

lemma read_one:
  assumes "disk_ok d" "unat blkno < d_blocks d"
  shows "disk0_read_blks_nolock blkno 1 d =
    Some (d\<lparr>kbytes := (\<lambda>a. if disk0_buffer d \<le> a \<and> a < disk0_buffer d + 4096
      then block_at d (unat blkno) (a - disk0_buffer d) else kbytes d a)\<rparr>)"
proof -
  have b: "unat blkno * 8 < 2 ^ 32" "unat blkno * 8 + 8 \<le> MAX_DISK_NSECS" "unat blkno * 8 + 8 \<le> ide_size d"
    using assms by (auto simp: disk_ok_def MAX_DISK_NSECS_def)
  have n: "ramdisk_nsecs (unat blkno * 8) 8 d = 8"
    using b by (simp add: ramdisk_nsecs_def)
  have e: "unat blkno * 8 * SECTSIZE = 4096 * unat blkno" "8 * SECTSIZE = 4096"
    by (simp_all add: SECTSIZE_def)
  show ?thesis
    using b n sector_of_block [OF b(1)]
    by (simp add: disk0_read_blks_nolock_def ide_read_secs_def MAX_NSECS_def ramdisk_read_def
        block_at_def e cong: if_cong)
qed

lemma write_one:
  assumes "disk_ok d" "unat blkno < d_blocks d"
  shows "disk0_write_blks_nolock blkno 1 d =
    Some (d\<lparr>dimage := (\<lambda>a. if 4096 * unat blkno \<le> a \<and> a < 4096 * unat blkno + 4096
      then kbytes d (disk0_buffer d + (a - 4096 * unat blkno)) else dimage d a)\<rparr>)"
proof -
  have b: "unat blkno * 8 < 2 ^ 32" "unat blkno * 8 + 8 \<le> MAX_DISK_NSECS" "unat blkno * 8 + 8 \<le> ide_size d"
    using assms by (auto simp: disk_ok_def MAX_DISK_NSECS_def)
  have n: "ramdisk_nsecs (unat blkno * 8) 8 d = 8"
    using b by (simp add: ramdisk_nsecs_def)
  have e: "unat blkno * 8 * SECTSIZE = 4096 * unat blkno" "8 * SECTSIZE = 4096"
    by (simp_all add: SECTSIZE_def)
  show ?thesis
    using b n sector_of_block [OF b(1)]
    by (simp add: disk0_write_blks_nolock_def ide_write_secs_def MAX_NSECS_def ramdisk_write_def e cong: if_cong)
qed

text \<open>Reading or writing one block, from and to any memory apart from the buffer of the device.\<close>

lemma disk0_io_one:
  assumes "disk_ok d" "b < d_blocks d" "iob = iobuf_init p 4096 (int (4096 * b))" "b < 2 ^ 20"
  shows "apart p (disk0_buffer d) \<Longrightarrow> \<exists>iob' d'. disk0_io iob False d = Some (None, iob', d')
      \<and> d' = d\<lparr>kbytes := kbytes d'\<rparr> \<and> (\<forall>a<4096. kbytes d' (p + a) = block_at d b a)
      \<and> (\<forall>a. \<not> (p \<le> a \<and> a < p + 4096) \<and> \<not> (disk0_buffer d \<le> a \<and> a < disk0_buffer d + 4096)
           \<longrightarrow> kbytes d' a = kbytes d a)"
    and "\<exists>iob' d'. disk0_io iob True d = Some (None, iob', d')
      \<and> d' = d\<lparr>kbytes := kbytes d', dimage := dimage d'\<rparr>
      \<and> (\<forall>a<4096. block_at d' b a = kbytes d (p + a))
      \<and> (\<forall>n a. n \<noteq> b \<and> a < 4096 \<longrightarrow> block_at d' n a = block_at d n a)
      \<and> (\<forall>a. \<not> (disk0_buffer d \<le> a \<and> a < disk0_buffer d + 4096) \<longrightarrow> kbytes d' a = kbytes d a)"
proof -
  define blkno :: u32 where "blkno = word_of_int (io_offset iob div int DISK0_BLKSIZE)"
  have b: "blkno = word_of_nat b" "unat blkno = b" "unat (blkno + 1) = b + 1"
    using assms(3,4) by (simp_all add: blkno_def iobuf_init_def DISK0_BLKSIZE_def unat_of_nat take_bit_nat_eq_self_iff
        unat_word_ariths flip: of_nat_def)
  have i: "io_resid iob = 4096" "io_base iob = p" "io_offset iob = 4096 * int b" "io_len iob = 4096"
    using assms(3) by (simp_all add: iobuf_init_def)
  have io: "disk0_io iob wrt d = map_option (\<lambda>(iob1, d1). (None, iob1, d1)) (disk0_loop wrt blkno 4096 iob d)" for wrt
    using b(2,3) i assms(2) unfolding disk0_io_def Let_def blkno_def [symmetric]
    by (simp add: DISK0_BLKSIZE_def)
  define m0 where "m0 = (\<lambda>a. if disk0_buffer d \<le> a \<and> a < disk0_buffer d + 4096
      then block_at d b (a - disk0_buffer d) else kbytes d a)"
  define iob' where "iob' = iob\<lparr>io_base := p + 4096, io_offset := io_offset iob + 4096, io_resid := 0\<rparr>"
  show "\<exists>iob' d'. disk0_io iob False d = Some (None, iob', d')
      \<and> d' = d\<lparr>kbytes := kbytes d'\<rparr> \<and> (\<forall>a<4096. kbytes d' (p + a) = block_at d b a)
      \<and> (\<forall>a. \<not> (p \<le> a \<and> a < p + 4096) \<and> \<not> (disk0_buffer d \<le> a \<and> a < disk0_buffer d + 4096)
           \<longrightarrow> kbytes d' a = kbytes d a)"
    if ap: "apart p (disk0_buffer d)"
  proof -
    have rd: "disk0_read_blks_nolock blkno 1 d = Some (d\<lparr>kbytes := m0\<rparr>)"
      using read_one [OF assms(1), of blkno] assms(2) unfolding b(2) m0_def by simp
    have mv: "iobuf_move iob (disk0_buffer d) 4096 True m0 = Some (None, 4096, iob',
        (\<lambda>a. if p \<le> a \<and> a < p + 4096 then m0 (disk0_buffer d + (a - p)) else m0 a))"
      unfolding iobuf_move_eq Let_def i iob'_def by simp
    have "disk0_loop False blkno 4096 iob d =
        Some (iob', d\<lparr>kbytes := (\<lambda>a. if p \<le> a \<and> a < p + 4096 then m0 (disk0_buffer d + (a - p)) else m0 a)\<rparr>)"
      using rd mv by (simp add: disk0_loop.simps [of False blkno 4096] disk0_loop.simps [of False _ 0]
          DISK0_BLKSIZE_def DISK0_BUFSIZE_def)
    with ap show ?thesis
      unfolding io by (auto simp: m0_def apart_def)
  qed
  show "\<exists>iob' d'. disk0_io iob True d = Some (None, iob', d')
      \<and> d' = d\<lparr>kbytes := kbytes d', dimage := dimage d'\<rparr>
      \<and> (\<forall>a<4096. block_at d' b a = kbytes d (p + a))
      \<and> (\<forall>n a. n \<noteq> b \<and> a < 4096 \<longrightarrow> block_at d' n a = block_at d n a)
      \<and> (\<forall>a. \<not> (disk0_buffer d \<le> a \<and> a < disk0_buffer d + 4096) \<longrightarrow> kbytes d' a = kbytes d a)"
  proof -
    define m1 where "m1 = (\<lambda>a. if disk0_buffer d \<le> a \<and> a < disk0_buffer d + 4096
      then kbytes d (p + (a - disk0_buffer d)) else kbytes d a)"
    define d' where "d' = d\<lparr>kbytes := m1, dimage := (\<lambda>a. if 4096 * b \<le> a \<and> a < 4096 * b + 4096
      then m1 (disk0_buffer d + (a - 4096 * b)) else dimage d a)\<rparr>"
    have mv: "iobuf_move iob (disk0_buffer d) DISK0_BUFSIZE False (kbytes d) = Some (Some E_NO_MEM, 4096, iob', m1)"
      unfolding iobuf_move_eq Let_def i iob'_def m1_def DISK0_BUFSIZE_def DISK0_BLKSIZE_def by simp
    have "disk_ok (d\<lparr>kbytes := m1\<rparr>)" using assms(1) by (simp add: disk_ok_def)
    then have "disk0_write_blks_nolock blkno 1 (d\<lparr>kbytes := m1\<rparr>) = Some d'"
      using write_one [of "d\<lparr>kbytes := m1\<rparr>" blkno] assms(2) unfolding b(2) d'_def by (simp cong: if_cong)
    with mv have l: "disk0_loop True blkno 4096 iob d = Some (iob', d')"
      by (simp add: disk0_loop.simps [of True blkno 4096] disk0_loop.simps [of True _ 0] DISK0_BLKSIZE_def)
    have blk: "block_at d' n a = (if n = b then kbytes d (p + a) else block_at d n a)" if "a < 4096" for n a
    proof (cases "n = b")
      case False
      then consider "n + 1 \<le> b" | "b + 1 \<le> n" by linarith
      then have "\<not> (4096 * b \<le> 4096 * n + a \<and> 4096 * n + a < 4096 * b + 4096)"
        using that by cases linarith+
      with False show ?thesis by (auto simp: block_at_def d'_def)
    qed (use that in \<open>simp add: block_at_def d'_def m1_def\<close>)
    have "d' = d\<lparr>kbytes := kbytes d', dimage := dimage d'\<rparr>" by (simp add: d'_def)
    moreover have "kbytes d' = m1" by (simp add: d'_def)
    ultimately show ?thesis
      unfolding io l using blk by (auto simp: m1_def)
  qed
qed

end
