(* ===== verification/Sfs_Io.thy ===== *)
theory Sfs_Io
  imports Disk0 Bitmap
begin

text \<open>
  The file system in memory (\<open>struct sfs_fs\<close> of \<open>lab8/kern/fs/sfs/sfs.h\<close>) and its block input and
  output (\<open>lab8/kern/fs/sfs/sfs_io.c\<close>) over the disk device. A read into a local variable of the
  caller returns the bytes read; an error \<open>-E_XXX\<close> is \<open>Some E_XXX\<close>. Operations are run one at a time,
  so the semaphore \<open>io_sem\<close> is left out.
\<close>

section \<open>Numbers as bytes\<close>

definition le32 :: "u32 \<Rightarrow> u8 list" where
  "le32 w = map (\<lambda>k. ucast (drop_bit (8 * k) w)) [0, 1, 2, 3]"

definition le16 :: "u16 \<Rightarrow> u8 list" where
  "le16 w = map (\<lambda>k. ucast (drop_bit (8 * k) w)) [0, 1]"

definition rd32 :: "u8 list \<Rightarrow> u32" where
  "rd32 bs = ucast (bs ! 0) OR push_bit 8 (ucast (bs ! 1)) OR push_bit 16 (ucast (bs ! 2)) OR push_bit 24 (ucast (bs ! 3))"

definition rd16 :: "u8 list \<Rightarrow> u16" where
  "rd16 bs = ucast (bs ! 0) OR push_bit 8 (ucast (bs ! 1))"

lemma length_le [simp]: "length (le32 w) = 4" "length (le16 h) = 2"
  by (simp_all add: le32_def le16_def)

lemma rd32_le32 [simp]: "rd32 (le32 w) = w"
proof (rule bit_word_eqI)
  fix n
  assume "n < LENGTH(32)"
  then consider "n < 8" | "8 \<le> n" "n < 16" | "16 \<le> n" "n < 24" | "24 \<le> n" "n < 32" by fastforce
  then show "bit (rd32 (le32 w)) n = bit w n"
    by cases (auto simp: rd32_def le32_def bit_simps)
qed

lemma rd16_le16 [simp]: "rd16 (le16 w) = w"
proof (rule bit_word_eqI)
  fix n
  assume "n < LENGTH(16)"
  then consider "n < 8" | "8 \<le> n" "n < 16" by fastforce
  then show "bit (rd16 (le16 w)) n = bit w n"
    by cases (auto simp: rd16_def le16_def bit_simps)
qed

section \<open>The file system in memory\<close>

definition SFS_BLKSIZE :: nat where "SFS_BLKSIZE = 4096"

definition SFS_BLKN_SUPER :: u32 where "SFS_BLKN_SUPER = 0"

definition SFS_BLKN_FREEMAP :: u32 where "SFS_BLKN_FREEMAP = 2"

definition SFS_BLKBITS :: u64 where "SFS_BLKBITS = 4096 * 8"

record sfs_super =
  sup_magic :: u32
  sup_blocks :: u32
  sup_unused :: u32
  sup_info :: "u8 list"

record sfs_fs = disk0 +
  super :: sfs_super
  freemap :: bitmap
  freemap_data :: nat   \<comment> \<open>where the words of the bitmap lie in memory\<close>
  super_dirty :: bool
  sfs_buffer :: nat

definition super_bytes :: "sfs_super \<Rightarrow> u8 list" where
  "super_bytes p = le32 (sup_magic p) @ le32 (sup_blocks p) @ le32 (sup_unused p) @ sup_info p"

text \<open>Storing bytes in memory.\<close>

definition put_bytes :: "nat \<Rightarrow> u8 list \<Rightarrow> bmem \<Rightarrow> bmem" where
  "put_bytes p bs m = (\<lambda>a. if p \<le> a \<and> a < p + length bs then bs ! (a - p) else m a)"

section \<open>Block input and output\<close>

text \<open>\<open>blkno * SFS_BLKSIZE\<close> is computed in 32 bits.\<close>

definition sfs_rwblock_nolock :: "nat \<Rightarrow> u32 \<Rightarrow> bool \<Rightarrow> bool \<Rightarrow> sfs_fs \<Rightarrow> (errno option \<times> sfs_fs) option" where
  "sfs_rwblock_nolock buf blkno wrt check s =
     (if \<not> ((blkno \<noteq> 0 \<or> \<not> check) \<and> blkno < sup_blocks (super s)) then None
      else let iob = iobuf_init buf SFS_BLKSIZE (uint (blkno * of_nat SFS_BLKSIZE))
           in map_option (\<lambda>(r, iob, s). (r, s)) (disk0_io iob wrt s))"

fun sfs_rwblock :: "nat \<Rightarrow> u32 \<Rightarrow> nat \<Rightarrow> bool \<Rightarrow> sfs_fs \<Rightarrow> (errno option \<times> sfs_fs) option" where
  "sfs_rwblock buf blkno 0 wrt s = Some (None, s)"
| "sfs_rwblock buf blkno (Suc nblks) wrt s =
     (case sfs_rwblock_nolock buf blkno wrt True s of
        None \<Rightarrow> None
      | Some (Some e, s) \<Rightarrow> Some (Some e, s)
      | Some (None, s) \<Rightarrow> sfs_rwblock (buf + SFS_BLKSIZE) (blkno + 1) nblks wrt s)"

definition sfs_rblock :: "nat \<Rightarrow> u32 \<Rightarrow> nat \<Rightarrow> sfs_fs \<Rightarrow> (errno option \<times> sfs_fs) option" where
  "sfs_rblock buf blkno nblks s = sfs_rwblock buf blkno nblks False s"

definition sfs_wblock :: "nat \<Rightarrow> u32 \<Rightarrow> nat \<Rightarrow> sfs_fs \<Rightarrow> (errno option \<times> sfs_fs) option" where
  "sfs_wblock buf blkno nblks s = sfs_rwblock buf blkno nblks True s"

definition sfs_rbuf :: "nat \<Rightarrow> u32 \<Rightarrow> nat \<Rightarrow> sfs_fs \<Rightarrow> ((errno + u8 list) \<times> sfs_fs) option" where
  "sfs_rbuf len blkno offset s =
     (if \<not> (offset < SFS_BLKSIZE \<and> offset + len \<le> SFS_BLKSIZE) then None
      else (case sfs_rwblock_nolock (sfs_buffer s) blkno False True s of
              None \<Rightarrow> None
            | Some (Some e, s) \<Rightarrow> Some (Inl e, s)
            | Some (None, s) \<Rightarrow> Some (Inr (map (\<lambda>k. kbytes s (sfs_buffer s + offset + k)) [0..<len]), s)))"

definition sfs_wbuf :: "u8 list \<Rightarrow> u32 \<Rightarrow> nat \<Rightarrow> sfs_fs \<Rightarrow> (errno option \<times> sfs_fs) option" where
  "sfs_wbuf buf blkno offset s =
     (if \<not> (offset < SFS_BLKSIZE \<and> offset + length buf \<le> SFS_BLKSIZE) then None
      else (case sfs_rwblock_nolock (sfs_buffer s) blkno False True s of
              None \<Rightarrow> None
            | Some (Some e, s) \<Rightarrow> Some (Some e, s)
            | Some (None, s) \<Rightarrow>
                sfs_rwblock_nolock (sfs_buffer s) blkno True True
                  (s\<lparr>kbytes := put_bytes (sfs_buffer s + offset) buf (kbytes s)\<rparr>)))"

definition sfs_sync_super :: "sfs_fs \<Rightarrow> (errno option \<times> sfs_fs) option" where
  "sfs_sync_super s =
     (let m = memset (sfs_buffer s) 0 SFS_BLKSIZE (kbytes s)
      in sfs_rwblock_nolock (sfs_buffer s) SFS_BLKN_SUPER True False
           (s\<lparr>kbytes := put_bytes (sfs_buffer s) (super_bytes (super s)) m\<rparr>))"

definition sfs_freemap_blocks :: "sfs_super \<Rightarrow> u32" where
  "sfs_freemap_blocks p = ROUNDUP_DIV (sup_blocks p) SFS_BLKBITS"

text \<open>The words of the bitmap are in memory at \<open>freemap_data\<close>.\<close>

definition sfs_sync_freemap :: "sfs_fs \<Rightarrow> (errno option \<times> sfs_fs) option" where
  "sfs_sync_freemap s =
     sfs_wblock (freemap_data s) SFS_BLKN_FREEMAP (unat (sfs_freemap_blocks (super s)))
       (s\<lparr>kbytes := put_bytes (freemap_data s) (concat (map le32 (fst (bitmap_getdata (freemap s))))) (kbytes s)\<rparr>)"

text \<open>With no block to clear the result would be an uninitialised variable.\<close>

fun clear_blocks :: "u32 \<Rightarrow> nat \<Rightarrow> errno option \<Rightarrow> sfs_fs \<Rightarrow> (errno option \<times> sfs_fs) option" where
  "clear_blocks blkno 0 ret s = Some (ret, s)"
| "clear_blocks blkno (Suc nblks) ret s =
     (case sfs_rwblock_nolock (sfs_buffer s) blkno True True s of
        None \<Rightarrow> None
      | Some (Some e, s) \<Rightarrow> Some (Some e, s)
      | Some (None, s) \<Rightarrow> clear_blocks (blkno + 1) nblks None s)"

definition sfs_clear_block :: "u32 \<Rightarrow> nat \<Rightarrow> sfs_fs \<Rightarrow> (errno option \<times> sfs_fs) option" where
  "sfs_clear_block blkno nblks s =
     (if nblks = 0 then None
      else clear_blocks blkno nblks None (s\<lparr>kbytes := memset (sfs_buffer s) 0 SFS_BLKSIZE (kbytes s)\<rparr>))"

section \<open>What the operations do to the disk\<close>

text \<open>The device holds the file system, block numbers times the block size fit into 32 bits, and the two
  buffers lie apart.\<close>

definition io_ok :: "sfs_fs \<Rightarrow> bool" where
  "io_ok s \<longleftrightarrow> disk_ok s \<and> unat (sup_blocks (super s)) \<le> d_blocks s \<and> unat (sup_blocks (super s)) \<le> 2 ^ 20
     \<and> apart (sfs_buffer s) (disk0_buffer s)"

text \<open>\<open>t\<close> is \<open>s\<close> but for memory and disk.\<close>

definition same_fs :: "sfs_fs \<Rightarrow> sfs_fs \<Rightarrow> bool" where
  "same_fs s t \<longleftrightarrow> super t = super s \<and> freemap t = freemap s \<and> freemap_data t = freemap_data s
     \<and> super_dirty t = super_dirty s \<and> sfs_buffer t = sfs_buffer s \<and> d_blocks t = d_blocks s
     \<and> ide_size t = ide_size s \<and> disk0_buffer t = disk0_buffer s"

lemma same_fs_refl [simp]: "same_fs s s"
  by (simp add: same_fs_def)

lemma same_fs_trans: "same_fs s t \<Longrightarrow> same_fs t u \<Longrightarrow> same_fs s u"
  by (simp add: same_fs_def)

lemma same_fs_io_ok: "same_fs s t \<Longrightarrow> io_ok t = io_ok s"
  by (simp add: same_fs_def io_ok_def disk_ok_def)

text \<open>The whole block, and the bytes of a part of it.\<close>

definition bytes_at :: "'a disk0_scheme \<Rightarrow> nat \<Rightarrow> nat \<Rightarrow> nat \<Rightarrow> u8 list" where
  "bytes_at s n off len = map (\<lambda>k. block_at s n (off + k)) [0..<len]"

lemma offset_of_block:
  fixes b :: u32
  assumes "unat b < 2 ^ 20"
  shows "uint (b * of_nat SFS_BLKSIZE) = int (4096 * unat b)"
proof -
  have "unat (b * 4096) = 4096 * unat b"
    using assms by (simp add: unat_word_ariths)
  then show ?thesis
    by (simp add: SFS_BLKSIZE_def uint_nat del: of_nat_mult)
qed

lemma sfs_rwblock_nolock_read:
  assumes "io_ok s" "b \<noteq> 0" "b < sup_blocks (super s)"
  shows "\<exists>t. sfs_rwblock_nolock (sfs_buffer s) b False True s = Some (None, t) \<and> same_fs s t
    \<and> dimage t = dimage s \<and> (\<forall>a<4096. kbytes t (sfs_buffer s + a) = block_at s (unat b) a)"
proof -
  have b: "unat b < unat (sup_blocks (super s))" using assms(3) by (simp add: word_less_nat_alt)
  then have b2: "unat b < 2 ^ 20" "unat b < d_blocks s" using assms(1) by (auto simp: io_ok_def)
  have "disk_ok s" "apart (sfs_buffer s) (disk0_buffer s)" using assms(1) by (auto simp: io_ok_def)
  then obtain iob' t where t: "disk0_io (iobuf_init (sfs_buffer s) 4096 (int (4096 * unat b))) False s = Some (None, iob', t)"
    "t = s\<lparr>kbytes := kbytes t\<rparr>" "\<forall>a<4096. kbytes t (sfs_buffer s + a) = block_at s (unat b) a"
    using disk0_io_one(1) [OF _ b2(2) refl b2(1), of "sfs_buffer s"] by blast
  have "same_fs s t" "dimage t = dimage s" by (subst t(2), simp add: same_fs_def)+
  with t(1,3) show ?thesis
    using assms(2,3) offset_of_block [OF b2(1)] by (simp add: sfs_rwblock_nolock_def SFS_BLKSIZE_def)
qed

lemma sfs_rwblock_nolock_write:
  assumes "io_ok s" "b \<noteq> 0 \<or> \<not> check" "b < sup_blocks (super s)"
  shows "\<exists>t. sfs_rwblock_nolock (sfs_buffer s) b True check s = Some (None, t) \<and> same_fs s t
    \<and> (\<forall>a<4096. block_at t (unat b) a = kbytes s (sfs_buffer s + a))
    \<and> (\<forall>n a. n \<noteq> unat b \<and> a < 4096 \<longrightarrow> block_at t n a = block_at s n a)
    \<and> (\<forall>a<4096. kbytes t (sfs_buffer s + a) = kbytes s (sfs_buffer s + a))"
proof -
  have b: "unat b < unat (sup_blocks (super s))" using assms(3) by (simp add: word_less_nat_alt)
  then have b2: "unat b < 2 ^ 20" "unat b < d_blocks s" using assms(1) by (auto simp: io_ok_def)
  have ok: "disk_ok s" "apart (sfs_buffer s) (disk0_buffer s)" using assms(1) by (auto simp: io_ok_def)
  obtain iob' t where t: "disk0_io (iobuf_init (sfs_buffer s) 4096 (int (4096 * unat b))) True s = Some (None, iob', t)"
    "t = s\<lparr>kbytes := kbytes t, dimage := dimage t\<rparr>"
    "\<forall>a<4096. block_at t (unat b) a = kbytes s (sfs_buffer s + a)"
    "\<forall>n a. n \<noteq> unat b \<and> a < 4096 \<longrightarrow> block_at t n a = block_at s n a"
    "\<forall>a. \<not> (disk0_buffer s \<le> a \<and> a < disk0_buffer s + 4096) \<longrightarrow> kbytes t a = kbytes s a"
    using disk0_io_one(2) [OF ok(1) b2(2) refl b2(1), of "sfs_buffer s"] by blast
  have "same_fs s t" by (subst t(2)) (simp add: same_fs_def)
  moreover have "\<forall>a<4096. kbytes t (sfs_buffer s + a) = kbytes s (sfs_buffer s + a)"
    using t(5) ok(2) by (auto simp: apart_def)
  ultimately show ?thesis
    using t(1,3,4) assms(2,3) offset_of_block [OF b2(1)] by (simp add: sfs_rwblock_nolock_def SFS_BLKSIZE_def)
qed

lemma sfs_rbuf_ok:
  assumes "io_ok s" "b \<noteq> 0" "b < sup_blocks (super s)" "off + len \<le> 4096" "off < 4096"
  shows "\<exists>t. sfs_rbuf len b off s = Some (Inr (bytes_at s (unat b) off len), t) \<and> same_fs s t \<and> dimage t = dimage s"
proof -
  obtain t where t: "sfs_rwblock_nolock (sfs_buffer s) b False True s = Some (None, t)" "same_fs s t"
    "dimage t = dimage s" "\<forall>a<4096. kbytes t (sfs_buffer s + a) = block_at s (unat b) a"
    using sfs_rwblock_nolock_read [OF assms(1-3)] by blast
  have "map (\<lambda>k. kbytes t (sfs_buffer t + off + k)) [0..<len] = bytes_at s (unat b) off len"
    using t(2,4) assms(4) by (auto simp: bytes_at_def same_fs_def add.assoc)
  with t assms(4,5) show ?thesis by (simp add: sfs_rbuf_def SFS_BLKSIZE_def)
qed

lemma sfs_wbuf_ok:
  assumes "io_ok s" "b \<noteq> 0" "b < sup_blocks (super s)" "off + length buf \<le> 4096" "off < 4096"
  shows "\<exists>t. sfs_wbuf buf b off s = Some (None, t) \<and> same_fs s t
    \<and> (\<forall>a<4096. block_at t (unat b) a =
         (if off \<le> a \<and> a < off + length buf then buf ! (a - off) else block_at s (unat b) a))
    \<and> (\<forall>n a. n \<noteq> unat b \<and> a < 4096 \<longrightarrow> block_at t n a = block_at s n a)"
proof -
  obtain u where u: "sfs_rwblock_nolock (sfs_buffer s) b False True s = Some (None, u)" "same_fs s u"
    "dimage u = dimage s" "\<forall>a<4096. kbytes u (sfs_buffer s + a) = block_at s (unat b) a"
    using sfs_rwblock_nolock_read [OF assms(1-3)] by blast
  define v where "v = u\<lparr>kbytes := put_bytes (sfs_buffer u + off) buf (kbytes u)\<rparr>"
  have v: "same_fs s v" "dimage v = dimage s" "sfs_buffer v = sfs_buffer u" "sfs_buffer u = sfs_buffer s"
    using u(2,3) by (simp_all add: v_def same_fs_def)
  then have "io_ok v" "b < sup_blocks (super v)"
    using same_fs_io_ok [OF v(1)] assms(1,3) v(1) unfolding same_fs_def by simp_all
  then obtain t where t: "sfs_rwblock_nolock (sfs_buffer v) b True True v = Some (None, t)" "same_fs v t"
    "\<forall>a<4096. block_at t (unat b) a = kbytes v (sfs_buffer v + a)"
    "\<forall>n a. n \<noteq> unat b \<and> a < 4096 \<longrightarrow> block_at t n a = block_at v n a"
    using sfs_rwblock_nolock_write [of v b True] assms(2) by blast
  have 1: "sfs_wbuf buf b off s = Some (None, t)"
    using u(1) t(1) assms(4,5) v by (simp add: sfs_wbuf_def SFS_BLKSIZE_def v_def)
  have 2: "block_at t (unat b) a =
      (if off \<le> a \<and> a < off + length buf then buf ! (a - off) else block_at s (unat b) a)" if "a < 4096" for a
    using t(3) that u(4) v(3,4) by (auto simp: v_def put_bytes_def)
  have 3: "block_at t n a = block_at s n a" if "n \<noteq> unat b" "a < 4096" for n a
    using t(4) that v(2) by (simp add: block_at_def)
  show ?thesis
    by (intro exI [of _ t] conjI allI impI 1 same_fs_trans [OF v(1) t(2)]) (use 2 3 in blast)+
qed

lemma sfs_clear_block_ok:
  assumes "io_ok s" "b \<noteq> 0" "b < sup_blocks (super s)"
  shows "\<exists>t. sfs_clear_block b 1 s = Some (None, t) \<and> same_fs s t \<and> (\<forall>a<4096. block_at t (unat b) a = 0)
    \<and> (\<forall>n a. n \<noteq> unat b \<and> a < 4096 \<longrightarrow> block_at t n a = block_at s n a)"
proof -
  define v where "v = s\<lparr>kbytes := memset (sfs_buffer s) 0 SFS_BLKSIZE (kbytes s)\<rparr>"
  have v: "same_fs s v" "dimage v = dimage s" "sfs_buffer v = sfs_buffer s" "\<forall>a<4096. kbytes v (sfs_buffer s + a) = 0"
    unfolding v_def same_fs_def memset_eq SFS_BLKSIZE_def by auto
  then have "io_ok v" "b < sup_blocks (super v)"
    using same_fs_io_ok [OF v(1)] assms(1,3) v(1) unfolding same_fs_def by simp_all
  then obtain t where t: "sfs_rwblock_nolock (sfs_buffer v) b True True v = Some (None, t)" "same_fs v t"
    "\<forall>a<4096. block_at t (unat b) a = kbytes v (sfs_buffer v + a)"
    "\<forall>n a. n \<noteq> unat b \<and> a < 4096 \<longrightarrow> block_at t n a = block_at v n a"
    using sfs_rwblock_nolock_write [of v b True] assms(2) by blast
  have 1: "sfs_clear_block b 1 s = Some (None, t)"
    using t(1) v(3) by (simp add: sfs_clear_block_def v_def)
  have 2: "block_at t (unat b) a = 0" if "a < 4096" for a
    using t(3) v(4) that by (simp add: v(3))
  have 3: "block_at t n a = block_at s n a" if "n \<noteq> unat b" "a < 4096" for n a
    using t(4) that v(2) by (simp add: block_at_def)
  show ?thesis
    by (intro exI [of _ t] conjI allI impI 1 same_fs_trans [OF v(1) t(2)]) (use 2 3 in blast)+
qed

end
