(* ===== verification/Sfs_Inode.thy ===== *)
theory Sfs_Inode
  imports Sfs_Io
begin

text \<open>
  Blocks, block maps and directories of inodes: \<open>lab8/kern/fs/sfs/sfs_inode.c\<close>, the operations that run
  under the lock of an inode. An operation returns its result or error, the inode where it may change,
  and the file system; \<open>None\<close> is a failed assertion or a panic.
\<close>

definition SFS_NDIRECT :: nat where "SFS_NDIRECT = 12"

definition SFS_BLK_NENTRY :: nat where "SFS_BLK_NENTRY = 1024"

definition SFS_MAX_FILE_SIZE :: int where "SFS_MAX_FILE_SIZE = 1024 * 1024 * 128"

definition SFS_MAX_FNAME_LEN :: nat where "SFS_MAX_FNAME_LEN = 255"

definition SFS_TYPE_FILE :: u16 where "SFS_TYPE_FILE = 1"

definition SFS_TYPE_DIR :: u16 where "SFS_TYPE_DIR = 2"

record sfs_disk_inode =
  di_size :: u32
  di_type :: u16
  di_nlinks :: u16
  di_blocks :: u32
  di_direct :: "u32 list"
  di_indirect :: u32

record sfs_inode =
  din :: sfs_disk_inode
  sin_ino :: u32
  sin_dirty :: bool

definition set_din :: "(sfs_disk_inode \<Rightarrow> sfs_disk_inode) \<Rightarrow> sfs_inode \<Rightarrow> sfs_inode" where
  "set_din f sin = sin\<lparr>din := f (din sin)\<rparr>"

section \<open>Blocks\<close>

definition sfs_block_inuse :: "sfs_fs \<Rightarrow> u32 \<Rightarrow> bool option" where
  "sfs_block_inuse s ino =
     (if ino \<noteq> 0 \<and> ino < sup_blocks (super s) then map_option Not (bitmap_test (freemap s) ino) else None)"

definition sfs_block_alloc :: "sfs_fs \<Rightarrow> ((errno + u32) \<times> sfs_fs) option" where
  "sfs_block_alloc s =
     (case bitmap_alloc (freemap s) of
        None \<Rightarrow> None
      | Some (Inl e) \<Rightarrow> Some (Inl e, s)
      | Some (Inr (i, fm)) \<Rightarrow>
          if \<not> sup_unused (super s) > 0 then None
          else let ino = of_nat i;
                   s = s\<lparr>freemap := fm, super := (super s)\<lparr>sup_unused := sup_unused (super s) - 1\<rparr>, super_dirty := True\<rparr>
               in if sfs_block_inuse s ino \<noteq> Some True then None
                  else (case sfs_clear_block ino 1 s of
                          None \<Rightarrow> None
                        | Some (None, s) \<Rightarrow> Some (Inr ino, s)
                        | Some (Some e, s) \<Rightarrow> Some (Inl e, s)))"

definition sfs_block_free :: "u32 \<Rightarrow> sfs_fs \<Rightarrow> sfs_fs option" where
  "sfs_block_free ino s =
     (if sfs_block_inuse s ino \<noteq> Some True then None
      else map_option (\<lambda>fm. s\<lparr>freemap := fm, super := (super s)\<lparr>sup_unused := sup_unused (super s) + 1\<rparr>,
                               super_dirty := True\<rparr>)
             (bitmap_free (freemap s) ino))"

section \<open>The block map of an inode\<close>

text \<open>The label \<open>failed_cleanup\<close> of \<open>sfs_bmap_get_sub_nolock\<close>, its part that allocates a data block and
  enters it in the entry block \<open>ent\<close>, and the function; \<open>entp\<close> is the value at the pointer.\<close>

definition bmap_sub_cleanup :: "errno \<Rightarrow> u32 \<Rightarrow> u32 \<Rightarrow> sfs_fs \<Rightarrow> ((errno + u32) \<times> u32 \<times> sfs_fs) option" where
  "bmap_sub_cleanup e entp ent s =
     (if ent \<noteq> entp then map_option (\<lambda>s. (Inl e, entp, s)) (sfs_block_free ent s) else Some (Inl e, entp, s))"

definition bmap_sub_new :: "u32 \<Rightarrow> u32 \<Rightarrow> nat \<Rightarrow> sfs_fs \<Rightarrow> ((errno + u32) \<times> u32 \<times> sfs_fs) option" where
  "bmap_sub_new entp ent offset s =
     (case sfs_block_alloc s of
        None \<Rightarrow> None
      | Some (Inl e, s) \<Rightarrow> bmap_sub_cleanup e entp ent s
      | Some (Inr ino, s) \<Rightarrow>
          (case sfs_wbuf (le32 ino) ent offset s of
             None \<Rightarrow> None
           | Some (Some e, s) \<Rightarrow> Option.bind (sfs_block_free ino s) (bmap_sub_cleanup e entp ent)
           | Some (None, s) \<Rightarrow> Some (Inr ino, ent, s)))"

definition sfs_bmap_get_sub_nolock ::
    "u32 \<Rightarrow> u32 \<Rightarrow> bool \<Rightarrow> sfs_fs \<Rightarrow> ((errno + u32) \<times> u32 \<times> sfs_fs) option" where
  "sfs_bmap_get_sub_nolock entp index create s =
     (if \<not> unat index < SFS_BLK_NENTRY then None
      else let offset = unat index * 4 in
           if entp \<noteq> 0
           then (case sfs_rbuf 4 entp offset s of
                   None \<Rightarrow> None
                 | Some (Inl e, s) \<Rightarrow> Some (Inl e, entp, s)
                 | Some (Inr bs, s) \<Rightarrow>
                     if rd32 bs \<noteq> 0 \<or> \<not> create then Some (Inr (rd32 bs), entp, s)
                     else bmap_sub_new entp entp offset s)
           else if \<not> create then Some (Inr 0, entp, s)
           else (case sfs_block_alloc s of
                   None \<Rightarrow> None
                 | Some (Inl e, s) \<Rightarrow> Some (Inl e, entp, s)
                 | Some (Inr ent, s) \<Rightarrow> bmap_sub_new entp ent offset s))"

text \<open>The label \<open>out\<close> of \<open>sfs_bmap_get_nolock\<close>, and the function.\<close>

definition bmap_out :: "u32 \<Rightarrow> sfs_inode \<Rightarrow> sfs_fs \<Rightarrow> ((errno + u32) \<times> sfs_inode \<times> sfs_fs) option" where
  "bmap_out ino sin s =
     (if ino = 0 \<or> sfs_block_inuse s ino = Some True then Some (Inr ino, sin, s) else None)"

definition sfs_bmap_get_nolock ::
    "sfs_inode \<Rightarrow> u32 \<Rightarrow> bool \<Rightarrow> sfs_fs \<Rightarrow> ((errno + u32) \<times> sfs_inode \<times> sfs_fs) option" where
  "sfs_bmap_get_nolock sin index create s =
     (if unat index < SFS_NDIRECT
      then (if di_direct (din sin) ! unat index = 0 \<and> create
            then (case sfs_block_alloc s of
                    None \<Rightarrow> None
                  | Some (Inl e, s) \<Rightarrow> Some (Inl e, sin, s)
                  | Some (Inr ino, s) \<Rightarrow>
                      bmap_out ino
                        ((set_din (\<lambda>d. d\<lparr>di_direct := (di_direct d)[unat index := ino]\<rparr>) sin)\<lparr>sin_dirty := True\<rparr>) s)
            else bmap_out (di_direct (din sin) ! unat index) sin s)
      else let index = index - of_nat SFS_NDIRECT in
           if unat index < SFS_BLK_NENTRY
           then (case sfs_bmap_get_sub_nolock (di_indirect (din sin)) index create s of
                   None \<Rightarrow> None
                 | Some (Inl e, ent, s) \<Rightarrow> Some (Inl e, sin, s)
                 | Some (Inr ino, ent, s) \<Rightarrow>
                     if ent \<noteq> di_indirect (din sin)
                     then (if di_indirect (din sin) \<noteq> 0 then None
                           else bmap_out ino
                                  ((set_din (\<lambda>d. d\<lparr>di_indirect := ent\<rparr>) sin)\<lparr>sin_dirty := True\<rparr>) s)
                     else bmap_out ino sin s)
           else None)"

definition sfs_bmap_free_sub_nolock :: "u32 \<Rightarrow> u32 \<Rightarrow> sfs_fs \<Rightarrow> (errno option \<times> sfs_fs) option" where
  "sfs_bmap_free_sub_nolock ent index s =
     (if \<not> (sfs_block_inuse s ent = Some True \<and> unat index < SFS_BLK_NENTRY) then None
      else (case sfs_rbuf 4 ent (unat index * 4) s of
              None \<Rightarrow> None
            | Some (Inl e, s) \<Rightarrow> Some (Some e, s)
            | Some (Inr bs, s) \<Rightarrow>
                if rd32 bs \<noteq> 0
                then (case sfs_wbuf (le32 0) ent (unat index * 4) s of
                        None \<Rightarrow> None
                      | Some (Some e, s) \<Rightarrow> Some (Some e, s)
                      | Some (None, s) \<Rightarrow> map_option (Pair None) (sfs_block_free (rd32 bs) s))
                else Some (None, s)))"

definition sfs_bmap_free_nolock :: "sfs_inode \<Rightarrow> u32 \<Rightarrow> sfs_fs \<Rightarrow> (errno option \<times> sfs_inode \<times> sfs_fs) option" where
  "sfs_bmap_free_nolock sin index s =
     (if unat index < SFS_NDIRECT
      then (if di_direct (din sin) ! unat index \<noteq> 0
            then map_option (\<lambda>s. (None,
                     (set_din (\<lambda>d. d\<lparr>di_direct := (di_direct d)[unat index := 0]\<rparr>) sin)\<lparr>sin_dirty := True\<rparr>, s))
                   (sfs_block_free (di_direct (din sin) ! unat index) s)
            else Some (None, sin, s))
      else let index = index - of_nat SFS_NDIRECT in
           if unat index < SFS_BLK_NENTRY \<and> di_indirect (din sin) \<noteq> 0
           then map_option (\<lambda>(r, s). (r, sin, s)) (sfs_bmap_free_sub_nolock (di_indirect (din sin)) index s)
           else Some (None, sin, s))"

definition sfs_bmap_load_nolock ::
    "sfs_inode \<Rightarrow> u32 \<Rightarrow> sfs_fs \<Rightarrow> ((errno + u32) \<times> sfs_inode \<times> sfs_fs) option" where
  "sfs_bmap_load_nolock sin index s =
     (if \<not> index \<le> di_blocks (din sin) then None
      else let create = (index = di_blocks (din sin)) in
           (case sfs_bmap_get_nolock sin index create s of
              None \<Rightarrow> None
            | Some (Inl e, sin, s) \<Rightarrow> Some (Inl e, sin, s)
            | Some (Inr ino, sin, s) \<Rightarrow>
                if sfs_block_inuse s ino \<noteq> Some True then None
                else Some (Inr ino,
                       (if create then set_din (\<lambda>d. d\<lparr>di_blocks := di_blocks d + 1\<rparr>) sin else sin), s)))"

definition sfs_bmap_truncate_nolock :: "sfs_inode \<Rightarrow> sfs_fs \<Rightarrow> (errno option \<times> sfs_inode \<times> sfs_fs) option" where
  "sfs_bmap_truncate_nolock sin s =
     (if \<not> di_blocks (din sin) \<noteq> 0 then None
      else (case sfs_bmap_free_nolock sin (di_blocks (din sin) - 1) s of
              None \<Rightarrow> None
            | Some (Some e, sin, s) \<Rightarrow> Some (Some e, sin, s)
            | Some (None, sin, s) \<Rightarrow>
                Some (None, (set_din (\<lambda>d. d\<lparr>di_blocks := di_blocks d - 1\<rparr>) sin)\<lparr>sin_dirty := True\<rparr>, s)))"

text \<open>The two loops of \<open>sfs_truncfile\<close>, by the number of turns left; the first one counts \<open>nblks\<close> up.\<close>

fun truncfile_grow :: "nat \<Rightarrow> u32 \<Rightarrow> sfs_inode \<Rightarrow> sfs_fs \<Rightarrow> (errno option \<times> sfs_inode \<times> sfs_fs) option" where
  "truncfile_grow 0 nblks sin s = Some (None, sin, s)"
| "truncfile_grow (Suc k) nblks sin s =
     (case sfs_bmap_load_nolock sin nblks s of
        None \<Rightarrow> None
      | Some (Inl e, sin, s) \<Rightarrow> Some (Some e, sin, s)
      | Some (Inr _, sin, s) \<Rightarrow> truncfile_grow k (nblks + 1) sin s)"

fun truncfile_shrink :: "nat \<Rightarrow> sfs_inode \<Rightarrow> sfs_fs \<Rightarrow> (errno option \<times> sfs_inode \<times> sfs_fs) option" where
  "truncfile_shrink 0 sin s = Some (None, sin, s)"
| "truncfile_shrink (Suc k) sin s =
     (case sfs_bmap_truncate_nolock sin s of
        None \<Rightarrow> None
      | Some (Some e, sin, s) \<Rightarrow> Some (Some e, sin, s)
      | Some (None, sin, s) \<Rightarrow> truncfile_shrink k sin s)"

text \<open>The loop that \<open>sfs_truncfile\<close> chooses.\<close>

definition truncfile_loop :: "u32 \<Rightarrow> sfs_inode \<Rightarrow> sfs_fs \<Rightarrow> (errno option \<times> sfs_inode \<times> sfs_fs) option" where
  "truncfile_loop tblks sin s =
     (if di_blocks (din sin) < tblks then truncfile_grow (unat (tblks - di_blocks (din sin))) (di_blocks (din sin)) sin s
      else if tblks < di_blocks (din sin) then truncfile_shrink (unat (di_blocks (din sin) - tblks)) sin s
      else Some (None, sin, s))"

definition sfs_truncfile :: "int \<Rightarrow> sfs_inode \<Rightarrow> sfs_fs \<Rightarrow> (errno option \<times> sfs_inode \<times> sfs_fs) option" where
  "sfs_truncfile len sin s =
     (if len < 0 \<or> len > SFS_MAX_FILE_SIZE then Some (Some E_INVAL, sin, s)
      else let tblks = (word_of_int ((len + 4096 - 1) div 4096) :: u32) in
           if uint (di_size (din sin)) = len
           then (if tblks = di_blocks (din sin) then Some (None, sin, s) else None)
           else (case truncfile_loop tblks sin s of
                   None \<Rightarrow> None
                 | Some (Some e, sin, s) \<Rightarrow> Some (Some e, sin, s)
                 | Some (None, sin, s) \<Rightarrow>
                     if di_blocks (din sin) \<noteq> tblks then None
                     else Some (None, (set_din (\<lambda>d. d\<lparr>di_size := word_of_int len\<rparr>) sin)\<lparr>sin_dirty := True\<rparr>, s)))"

end
