(* ===== verification/Sfs_Map.thy ===== *)
theory Sfs_Map
  imports Sfs_Inode
begin

text \<open>
  The block map: which disk block holds each block of a file. Allocation and the operations on the map
  keep blocks apart: no block is at two places of a map, or in use and free.
\<close>

section \<open>Free blocks\<close>

definition frees :: "sfs_fs \<Rightarrow> nat set" where
  "frees s = free_bits (freemap s)"

definition nblocks :: "sfs_fs \<Rightarrow> nat" where
  "nblocks s = unat (sup_blocks (super s))"

definition fs_ok :: "sfs_fs \<Rightarrow> bool" where
  "fs_ok s \<longleftrightarrow> io_ok s \<and> bm_inv (freemap s) \<and> nblocks s \<le> unat (nbits (freemap s))
     \<and> frees s \<subseteq> {0<..<nblocks s} \<and> unat (sup_unused (super s)) = card (frees s)"

text \<open>\<open>t\<close> comes from \<open>s\<close> and no block but those of \<open>A\<close> has changed on the disk.\<close>

definition fs_step :: "nat set \<Rightarrow> sfs_fs \<Rightarrow> sfs_fs \<Rightarrow> bool" where
  "fs_step A s t \<longleftrightarrow> fs_ok t \<and> nblocks t = nblocks s
     \<and> (\<forall>n a. n \<notin> A \<and> a < 4096 \<longrightarrow> block_at t n a = block_at s n a)"

lemma fs_step_refl: "fs_ok s \<Longrightarrow> fs_step A s s"
  by (simp add: fs_step_def)

lemma fs_step_trans: "fs_step A s t \<Longrightarrow> fs_step B t u \<Longrightarrow> fs_step (A \<union> B) s u"
  by (simp add: fs_step_def)

lemma fs_step_mono: "fs_step A s t \<Longrightarrow> A \<subseteq> B \<Longrightarrow> fs_step B s t"
  by (auto simp: fs_step_def)

lemma same_fs_step:
  assumes "fs_ok s" "same_fs s t" "\<And>n a. n \<notin> A \<Longrightarrow> a < 4096 \<Longrightarrow> block_at t n a = block_at s n a"
  shows "fs_step A s t" "frees t = frees s"
  using assms same_fs_io_ok [OF assms(2)]
  by (auto simp: fs_step_def fs_ok_def same_fs_def frees_def nblocks_def)

definition in_fs :: "sfs_fs \<Rightarrow> u32 \<Rightarrow> bool" where
  "in_fs s b \<longleftrightarrow> b \<noteq> 0 \<and> unat b < nblocks s \<and> unat b \<notin> frees s"

lemma in_fs_less: "in_fs s b \<Longrightarrow> b \<noteq> 0 \<and> b < sup_blocks (super s)"
  by (simp add: in_fs_def nblocks_def word_less_nat_alt)

lemma sfs_block_inuse_iff:
  assumes "fs_ok s" "b \<noteq> 0" "unat b < nblocks s"
  shows "sfs_block_inuse s b = Some (unat b \<notin> frees s)"
proof -
  have "b < nbits (freemap s)" "b < sup_blocks (super s)"
    using assms by (auto simp: fs_ok_def word_less_nat_alt nblocks_def)
  with assms show ?thesis
    by (simp add: sfs_block_inuse_def bitmap_test_iff fs_ok_def frees_def)
qed

lemma in_fs_inuse: "fs_ok s \<Longrightarrow> in_fs s b \<Longrightarrow> sfs_block_inuse s b = Some True"
  using sfs_block_inuse_iff by (simp add: in_fs_def)

lemma finite_frees: "fs_ok s \<Longrightarrow> finite (frees s)"
  by (auto simp: fs_ok_def intro: finite_subset)

lemma nblocks_le: "fs_ok s \<Longrightarrow> nblocks s \<le> 2 ^ 20"
  by (simp add: fs_ok_def io_ok_def nblocks_def)

lemma sfs_block_alloc_ok:
  assumes "fs_ok s"
  shows "frees s = {} \<Longrightarrow> sfs_block_alloc s = Some (Inl E_NO_MEM, s)"
    and "frees s \<noteq> {} \<Longrightarrow> \<exists>b t. sfs_block_alloc s = Some (Inr b, t) \<and> unat b \<in> frees s \<and> b \<noteq> 0
      \<and> frees t = frees s - {unat b} \<and> fs_step {unat b} s t \<and> (\<forall>a<4096. block_at t (unat b) a = 0)"
proof -
  have inv: "bm_inv (freemap s)" using assms by (simp add: fs_ok_def)
  show "sfs_block_alloc s = Some (Inl E_NO_MEM, s)" if "frees s = {}"
    using bitmap_alloc_cases [OF inv] that by (simp add: sfs_block_alloc_def frees_def)
  show "\<exists>b t. sfs_block_alloc s = Some (Inr b, t) \<and> unat b \<in> frees s \<and> b \<noteq> 0
      \<and> frees t = frees s - {unat b} \<and> fs_step {unat b} s t \<and> (\<forall>a<4096. block_at t (unat b) a = 0)"
    if ne: "frees s \<noteq> {}"
  proof -
    obtain i fm where i: "bitmap_alloc (freemap s) = Some (Inr (i, fm))" "i \<in> frees s"
      "free_bits fm = frees s - {i}" "nbits fm = nbits (freemap s)" "bm_inv fm"
      using bitmap_alloc_cases [OF inv] ne unfolding frees_def by auto
    define b :: u32 where "b = of_nat i"
    have i2: "0 < i" "i < nblocks s" using assms i(2) by (auto simp: fs_ok_def)
    then have "i < 2 ^ 32" using nblocks_le [OF assms] by simp
    then have b: "unat b = i" by (simp add: b_def unat_of_nat take_bit_nat_eq_self_iff)
    then have b0: "b \<noteq> 0" using i2(1) by auto
    have card: "0 < card (frees s)" using ne finite_frees [OF assms] by (simp add: card_gt_0_iff)
    then have un: "0 < sup_unused (super s)" using assms by (simp add: fs_ok_def word_less_nat_alt)
    define t where "t = s\<lparr>freemap := fm, super := (super s)\<lparr>sup_unused := sup_unused (super s) - 1\<rparr>, super_dirty := True\<rparr>"
    have ft: "frees t = frees s - {i}" "nblocks t = nblocks s" using i(3) by (simp_all add: t_def frees_def nblocks_def)
    have "unat (sup_unused (super s) - 1) = card (frees s - {i})"
      using assms un i(2) finite_frees [OF assms] by (simp add: fs_ok_def unat_sub word_less_nat_alt word_le_nat_alt)
    then have ok: "fs_ok t"
      using assms i ft by (auto simp: fs_ok_def t_def io_ok_def disk_ok_def nblocks_def frees_def)
    have "b < sup_blocks (super t)" using i2 b ft(2) by (simp add: nblocks_def word_less_nat_alt)
    then obtain u where u: "sfs_clear_block b 1 t = Some (None, u)" "same_fs t u" "\<forall>a<4096. block_at u (unat b) a = 0"
      "\<forall>n a. n \<noteq> unat b \<and> a < 4096 \<longrightarrow> block_at u n a = block_at t n a"
      using sfs_clear_block_ok [of t b] ok b0 by (auto simp: fs_ok_def)
    have inuse: "sfs_block_inuse t b = Some True"
      using sfs_block_inuse_iff [OF ok b0] i2 b ft by simp
    have "sfs_block_alloc s = Some (Inr b, u)"
      using i(1) un inuse u(1) by (simp add: sfs_block_alloc_def b_def [symmetric] t_def [symmetric])
    moreover have "fs_step {unat b} t u" "frees u = frees t"
      using same_fs_step [OF ok u(2), of "{unat b}"] u(4) by simp_all
    moreover have "block_at t n a = block_at s n a" for n a by (simp add: t_def block_at_def)
    ultimately show ?thesis
      using u(3) ft b b0 i(2) by (intro exI [of _ b] exI [of _ u]) (simp add: fs_step_def)
  qed
qed

lemma sfs_block_free_ok:
  assumes "fs_ok s" "in_fs s b"
  shows "\<exists>t. sfs_block_free b s = Some t \<and> frees t = insert (unat b) (frees s) \<and> fs_step {} s t"
proof -
  have lt: "b < nbits (freemap s)" and nf: "unat b \<notin> free_bits (freemap s)"
    using assms by (auto simp: fs_ok_def in_fs_def word_less_nat_alt frees_def)
  obtain fm where fm: "bitmap_free (freemap s) b = Some fm" "free_bits fm = insert (unat b) (frees s)" "bm_inv fm"
    using bitmap_free_cases [OF _ lt] assms(1) nf by (auto simp: fs_ok_def frees_def)
  define t where "t = s\<lparr>freemap := fm, super := (super s)\<lparr>sup_unused := sup_unused (super s) + 1\<rparr>, super_dirty := True\<rparr>"
  have "sfs_block_free b s = Some t"
    using in_fs_inuse [OF assms] fm(1) by (simp add: sfs_block_free_def t_def)
  moreover have ft: "frees t = insert (unat b) (frees s)" "nblocks t = nblocks s"
    using fm(2) by (simp_all add: t_def frees_def nblocks_def)
  moreover have "fs_ok t"
  proof -
    have "card (frees s) \<le> card {0<..<nblocks s}"
      using assms(1) by (intro card_mono) (auto simp: fs_ok_def)
    then have "card (frees s) < 2 ^ 20" using nblocks_le [OF assms(1)] assms(2) by (simp add: in_fs_def)
    then have "unat (sup_unused (super s) + 1) = Suc (card (frees s))"
      using assms(1) by (simp add: fs_ok_def unat_word_ariths)
    moreover have "Suc (card (frees s)) = card (frees t)"
      using ft nf finite_frees [OF assms(1)] by (simp add: frees_def)
    moreover have "b \<noteq> 0" "unat b < nblocks s" using assms(2) by (simp_all add: in_fs_def)
    ultimately show ?thesis
      using assms(1) fm(3) ft bitmap_free_nbits [OF fm(1)]
      by (auto simp: fs_ok_def t_def io_ok_def disk_ok_def nblocks_def unat_gt_0)
  qed
  ultimately show ?thesis
    by (intro exI [of _ t]) (simp add: fs_step_def t_def block_at_def)
qed


section \<open>Entry blocks\<close>

definition ind_entry :: "sfs_fs \<Rightarrow> u32 \<Rightarrow> nat \<Rightarrow> u32" where
  "ind_entry s b k = rd32 (bytes_at s (unat b) (k * 4) 4)"

lemma bytes_at_cong:
  assumes "\<And>a. off \<le> a \<Longrightarrow> a < off + len \<Longrightarrow> block_at t n a = block_at s n a"
  shows "bytes_at t n off len = bytes_at s n off len"
  using assms by (simp add: bytes_at_def)

lemma bytes_at_written:
  assumes "\<And>a. off \<le> a \<Longrightarrow> a < off + length bs \<Longrightarrow> block_at t n a = bs ! (a - off)"
  shows "bytes_at t n off (length bs) = bs"
  using assms by (auto simp: bytes_at_def intro: nth_equalityI)

lemma ind_entry_step:
  assumes "fs_step A s t" "unat b \<notin> A" "k < 1024"
  shows "ind_entry t b k = ind_entry s b k"
proof -
  have "bytes_at t (unat b) (k * 4) 4 = bytes_at s (unat b) (k * 4) 4"
    using assms by (intro bytes_at_cong) (simp add: fs_step_def)
  then show ?thesis by (simp add: ind_entry_def)
qed

lemma ind_entry_zero:
  assumes "\<forall>a<4096. block_at t (unat b) a = 0" "k < 1024"
  shows "ind_entry t b k = 0"
proof -
  have "bytes_at t (unat b) (k * 4) (length (le32 0)) = le32 0"
    using assms by (intro bytes_at_written) (auto simp: le32_def nth_Cons split: nat.splits)
  then show ?thesis by (simp add: ind_entry_def)
qed

text \<open>Writing one entry.\<close>

lemma write_entry:
  assumes "fs_ok s" "in_fs s b" "k < 1024"
  shows "\<exists>t. sfs_wbuf (le32 v) b (k * 4) s = Some (None, t) \<and> frees t = frees s \<and> fs_step {unat b} s t
    \<and> (\<forall>j<1024. ind_entry t b j = (if j = k then v else ind_entry s b j))"
proof -
  have "io_ok s" using assms(1) by (simp add: fs_ok_def)
  then obtain t where t: "sfs_wbuf (le32 v) b (k * 4) s = Some (None, t)" "same_fs s t"
    "\<forall>a<4096. block_at t (unat b) a =
       (if k * 4 \<le> a \<and> a < k * 4 + 4 then le32 v ! (a - k * 4) else block_at s (unat b) a)"
    "\<forall>n a. n \<noteq> unat b \<and> a < 4096 \<longrightarrow> block_at t n a = block_at s n a"
    using sfs_wbuf_ok [of s b "k * 4" "le32 v"] in_fs_less [OF assms(2)] assms(3) by auto
  have "fs_step {unat b} s t" "frees t = frees s"
    using same_fs_step [OF assms(1) t(2), of "{unat b}"] t(4) by simp_all
  moreover have "ind_entry t b j = (if j = k then v else ind_entry s b j)" if "j < 1024" for j
  proof (cases "j = k")
    case True
    have "bytes_at t (unat b) (k * 4) (length (le32 v)) = le32 v"
      using t(3) assms(3) by (intro bytes_at_written) simp
    with True show ?thesis by (simp add: ind_entry_def)
  next
    case False
    have "bytes_at t (unat b) (j * 4) 4 = bytes_at s (unat b) (j * 4) 4"
    proof (rule bytes_at_cong)
      fix a
      assume a: "j * 4 \<le> a" "a < j * 4 + 4"
      from False consider "j + 1 \<le> k" | "k + 1 \<le> j" by linarith
      then have "\<not> (k * 4 \<le> a \<and> a < k * 4 + 4)"
        using a by cases linarith+
      moreover have "a < 4096" using a that by linarith
      ultimately show "block_at t (unat b) a = block_at s (unat b) a" using t(3) by auto
    qed
    with False show ?thesis by (simp add: ind_entry_def)
  qed
  ultimately show ?thesis using t(1) by blast
qed

lemma read_entry:
  assumes "fs_ok s" "in_fs s b" "k < 1024"
  shows "\<exists>t. sfs_rbuf 4 b (k * 4) s = Some (Inr (bytes_at s (unat b) (k * 4) 4), t) \<and> frees t = frees s
    \<and> fs_step {} s t"
proof -
  have "io_ok s" using assms(1) by (simp add: fs_ok_def)
  then obtain t where t: "sfs_rbuf 4 b (k * 4) s = Some (Inr (bytes_at s (unat b) (k * 4) 4), t)" "same_fs s t"
    "dimage t = dimage s"
    using sfs_rbuf_ok [of s b "k * 4" 4] in_fs_less [OF assms(2)] assms(3) by auto
  have "fs_step {} s t" "frees t = frees s"
    using same_fs_step [OF assms(1) t(2), of "{}"] t(3) by (simp_all add: block_at_def)
  with t(1) show ?thesis by blast
qed

lemma in_fs_alloc:
  assumes "in_fs s b" "fs_step A s t" "frees t \<subseteq> frees s"
  shows "in_fs t b"
  using assms by (auto simp: in_fs_def fs_step_def)

lemma bmap_sub_new_ok:
  assumes "fs_ok s" "in_fs s ent" "k < 1024"
  shows "frees s = {} \<Longrightarrow> bmap_sub_new entp ent (k * 4) s = bmap_sub_cleanup E_NO_MEM entp ent s"
    and "frees s \<noteq> {} \<Longrightarrow> \<exists>b t. bmap_sub_new entp ent (k * 4) s = Some (Inr b, ent, t) \<and> unat b \<in> frees s \<and> b \<noteq> 0
      \<and> frees t = frees s - {unat b} \<and> fs_step {unat b, unat ent} s t \<and> (\<forall>a<4096. block_at t (unat b) a = 0)
      \<and> (\<forall>j<1024. ind_entry t ent j = (if j = k then b else ind_entry s ent j))"
proof -
  show "bmap_sub_new entp ent (k * 4) s = bmap_sub_cleanup E_NO_MEM entp ent s" if "frees s = {}"
    using sfs_block_alloc_ok(1) [OF assms(1) that] by (simp add: bmap_sub_new_def)
  assume "frees s \<noteq> {}"
  then obtain b u where u: "sfs_block_alloc s = Some (Inr b, u)" "unat b \<in> frees s" "b \<noteq> 0"
    "frees u = frees s - {unat b}" "fs_step {unat b} s u" "\<forall>a<4096. block_at u (unat b) a = 0"
    using sfs_block_alloc_ok(2) [OF assms(1)] by blast
  have ne: "unat ent \<noteq> unat b" using assms(2) u(2) by (auto simp: in_fs_def)
  have "fs_ok u" "in_fs u ent"
    using u(4,5) in_fs_alloc [OF assms(2) u(5)] by (auto simp: fs_step_def)
  then obtain t where t: "sfs_wbuf (le32 b) ent (k * 4) u = Some (None, t)" "frees t = frees u" "fs_step {unat ent} u t"
    "\<forall>j<1024. ind_entry t ent j = (if j = k then b else ind_entry u ent j)"
    using write_entry [of u ent k b] assms(3) by blast
  have "fs_step {unat b, unat ent} s t"
    using fs_step_trans [OF u(5) t(3)] by (simp add: insert_commute)
  moreover have "block_at t (unat b) a = 0" if "a < 4096" for a
    using t(3) u(6) ne that by (simp add: fs_step_def)
  moreover have "ind_entry u ent j = ind_entry s ent j" if "j < 1024" for j
    using ind_entry_step [OF u(5) _ that] ne by simp
  ultimately show "\<exists>b t. bmap_sub_new entp ent (k * 4) s = Some (Inr b, ent, t) \<and> unat b \<in> frees s \<and> b \<noteq> 0
      \<and> frees t = frees s - {unat b} \<and> fs_step {unat b, unat ent} s t \<and> (\<forall>a<4096. block_at t (unat b) a = 0)
      \<and> (\<forall>j<1024. ind_entry t ent j = (if j = k then b else ind_entry s ent j))"
    using u t by (intro exI [of _ b] exI [of _ t]) (simp add: bmap_sub_new_def)
qed


section \<open>The map of a file\<close>

definition max_blocks :: nat where "max_blocks = SFS_NDIRECT + SFS_BLK_NENTRY"

lemma max_blocks_eq: "max_blocks = 1036" "SFS_NDIRECT = 12" "SFS_BLK_NENTRY = 1024"
  by (simp_all add: max_blocks_def SFS_NDIRECT_def SFS_BLK_NENTRY_def)

definition bmap_of :: "sfs_fs \<Rightarrow> sfs_disk_inode \<Rightarrow> nat \<Rightarrow> u32" where
  "bmap_of s d k =
     (if k < 12 then di_direct d ! k
      else if di_indirect d = 0 then 0 else ind_entry s (di_indirect d) (k - 12))"

lemma bmap_of_attrs [simp]:
  "bmap_of s (d\<lparr>di_blocks := n\<rparr>) = bmap_of s d" "bmap_of s (d\<lparr>di_size := m\<rparr>) = bmap_of s d"
  by (simp_all add: bmap_of_def fun_eq_iff)

definition map_ok :: "sfs_fs \<Rightarrow> sfs_disk_inode \<Rightarrow> bool" where
  "map_ok s d \<longleftrightarrow> length (di_direct d) = 12 \<and> (di_indirect d \<noteq> 0 \<longrightarrow> in_fs s (di_indirect d))
     \<and> (\<forall>k<max_blocks. bmap_of s d k \<noteq> 0 \<longrightarrow> in_fs s (bmap_of s d k) \<and> bmap_of s d k \<noteq> di_indirect d)
     \<and> (\<forall>j<max_blocks. \<forall>k<max_blocks. bmap_of s d j = bmap_of s d k \<and> bmap_of s d k \<noteq> 0 \<longrightarrow> j = k)"

lemma map_ok_attrs [simp]:
  "map_ok s (d\<lparr>di_blocks := n\<rparr>) = map_ok s d" "map_ok s (d\<lparr>di_size := m\<rparr>) = map_ok s d"
  by (simp_all add: map_ok_def)

lemma map_ok_step:
  assumes "map_ok s d" "fs_step A s t" "frees t \<subseteq> frees s" "di_indirect d \<noteq> 0 \<Longrightarrow> unat (di_indirect d) \<notin> A"
  shows "map_ok t d" "k < max_blocks \<Longrightarrow> bmap_of t d k = bmap_of s d k"
proof -
  have b: "bmap_of t d k = bmap_of s d k" if "k < max_blocks" for k
    using assms(2,4) that ind_entry_step by (simp add: bmap_of_def max_blocks_eq)
  then show "k < max_blocks \<Longrightarrow> bmap_of t d k = bmap_of s d k" by simp
  show "map_ok t d"
    using assms(1) in_fs_alloc [OF _ assms(2,3)] b by (auto simp: map_ok_def)
qed

lemma map_ok_extend:
  assumes "map_ok s d" "fs_step A s t" "frees t \<subseteq> frees s" "length (di_direct d') = 12" "k < max_blocks"
    and "\<And>j. j < max_blocks \<Longrightarrow> bmap_of t d' j = (if j = k then b else bmap_of s d j)"
    and "unat b \<in> frees s" "unat b \<notin> frees t" "b \<noteq> 0" "frees s \<subseteq> {..<nblocks s}"
    and "di_indirect d' = di_indirect d
      \<or> di_indirect d = 0 \<and> unat (di_indirect d') \<in> frees s - frees t \<and> di_indirect d' \<noteq> b \<and> di_indirect d' \<noteq> 0"
  shows "map_ok t d'"
proof -
  have nf: "unat x \<notin> frees s" if "in_fs s x" for x using that by (simp add: in_fs_def)
  have fresh: "in_fs t x" if "unat x \<in> frees s" "unat x \<notin> frees t" "x \<noteq> 0" for x
    using that assms(2,10) by (auto simp: in_fs_def fs_step_def)
  note keep = in_fs_alloc [OF _ assms(2,3)]
  have old: "in_fs s (bmap_of s d j)" "bmap_of s d j \<noteq> di_indirect d" if "j < max_blocks" "bmap_of s d j \<noteq> 0" for j
    using assms(1) that by (auto simp: map_ok_def)
  have ind: "di_indirect d \<noteq> 0 \<Longrightarrow> in_fs s (di_indirect d)" using assms(1) by (simp add: map_ok_def)
  have "di_indirect d' \<noteq> 0 \<longrightarrow> in_fs t (di_indirect d')"
    using assms(11) ind keep fresh by auto
  moreover have "in_fs t (bmap_of t d' j) \<and> bmap_of t d' j \<noteq> di_indirect d'"
    if j: "j < max_blocks" "bmap_of t d' j \<noteq> 0" for j
  proof (cases "j = k")
    case True
    then show ?thesis using assms(6,7,8,9,11) j(1) fresh ind nf by auto
  next
    case False
    then show ?thesis using assms(6,11) j old keep nf by fastforce
  qed
  moreover have "i = j" if "i < max_blocks" "j < max_blocks" "bmap_of t d' i = bmap_of t d' j" "bmap_of t d' j \<noteq> 0" for i j
  proof -
    have "bmap_of s d x \<noteq> b" if "x < max_blocks" for x
      using old(1) [OF that] assms(7,9) nf by auto
    then show ?thesis
      using that assms(1,5,6) by (auto simp: map_ok_def split: if_splits)
  qed
  ultimately show ?thesis using assms(4) by (simp add: map_ok_def)
qed

lemma bmap_out_ok:
  "fs_ok s \<Longrightarrow> ino \<noteq> 0 \<Longrightarrow> in_fs s ino \<Longrightarrow> bmap_out ino sin s = Some (Inr ino, sin, s)" "bmap_out 0 sin s = Some (Inr 0, sin, s)"
  by (simp_all add: bmap_out_def in_fs_inuse)

lemma index_minus:
  fixes index :: u32
  assumes "\<not> unat index < 12"
  shows "unat (index - 12) = unat index - 12"
  using assms by (simp add: unat_sub_if_size)

lemma get_existing:
  assumes "fs_ok s" "map_ok s (din sin)" "unat index < max_blocks"
    and "bmap_of s (din sin) (unat index) \<noteq> 0 \<or> \<not> create"
  shows "\<exists>t. sfs_bmap_get_nolock sin index create s = Some (Inr (bmap_of s (din sin) (unat index)), sin, t)
    \<and> frees t = frees s \<and> fs_step {} s t"
proof -
  let ?b = "bmap_of s (din sin) (unat index)" and ?d = "din sin"
  have ok: "?b \<noteq> 0 \<Longrightarrow> in_fs s ?b" using assms(2,3) by (simp add: map_ok_def)
  have out: "bmap_out ?b sin t = Some (Inr ?b, sin, t)" if "fs_step {} s t" "frees t = frees s" for t
    using bmap_out_ok in_fs_alloc [OF ok that(1)] that by (cases "?b = 0") (auto simp: fs_step_def)
  note rf = fs_step_refl [OF assms(1), of "{}"]
  have i12: "unat index - 12 < 1024" using assms(3) by (simp add: max_blocks_eq)
  consider (direct) "unat index < 12" | (none) "\<not> unat index < 12" "di_indirect ?d = 0"
    | (entry) "\<not> unat index < 12" "di_indirect ?d \<noteq> 0" by blast
  then show ?thesis
  proof cases
    case direct
    then have "sfs_bmap_get_nolock sin index create s = bmap_out ?b sin s"
      using assms(4) by (auto simp: sfs_bmap_get_nolock_def max_blocks_eq bmap_of_def)
    with out rf show ?thesis by auto
  next
    case none
    then have "?b = 0" "\<not> create" using assms(4) by (auto simp: bmap_of_def)
    with none have "sfs_bmap_get_nolock sin index create s = bmap_out ?b sin s"
      using i12 by (simp add: sfs_bmap_get_nolock_def Let_def index_minus max_blocks_eq sfs_bmap_get_sub_nolock_def)
    with out rf show ?thesis by auto
  next
    case entry
    then have i: "in_fs s (di_indirect ?d)" "unat index - 12 < 1024"
      using assms(2,3) by (auto simp: map_ok_def max_blocks_eq)
    then obtain t where t: "sfs_rbuf 4 (di_indirect ?d) ((unat index - 12) * 4) s
        = Some (Inr (bytes_at s (unat (di_indirect ?d)) ((unat index - 12) * 4) 4), t)" "frees t = frees s" "fs_step {} s t"
      using read_entry [OF assms(1)] by blast
    have "rd32 (bytes_at s (unat (di_indirect ?d)) ((unat index - 12) * 4) 4) = ?b"
      using entry by (simp add: bmap_of_def ind_entry_def)
    then have "sfs_bmap_get_sub_nolock (di_indirect ?d) (index - 12) create s = Some (Inr ?b, di_indirect ?d, t)"
      using t(1) entry i(2) assms(4) by (simp add: sfs_bmap_get_sub_nolock_def Let_def index_minus max_blocks_eq)
    then have "sfs_bmap_get_nolock sin index create s = bmap_out ?b sin t"
      using entry i(2) by (simp add: sfs_bmap_get_nolock_def Let_def index_minus max_blocks_eq)
    with out [OF t(3,2)] t(2,3) show ?thesis by auto
  qed
qed


text \<open>How many blocks a new block of the file takes: one more when it needs the entry block.\<close>

definition new_blocks :: "sfs_disk_inode \<Rightarrow> nat \<Rightarrow> nat" where
  "new_blocks d k = (if k < 12 \<or> di_indirect d \<noteq> 0 then 1 else 2)"

text \<open>\<open>d'\<close> differs from \<open>d\<close> in the map only.\<close>

definition same_attrs :: "sfs_disk_inode \<Rightarrow> sfs_disk_inode \<Rightarrow> bool" where
  "same_attrs d d' \<longleftrightarrow> di_size d' = di_size d \<and> di_type d' = di_type d \<and> di_nlinks d' = di_nlinks d
     \<and> di_blocks d' = di_blocks d"

definition entry_block :: "sfs_disk_inode \<Rightarrow> nat set" where
  "entry_block d = (if di_indirect d = 0 then {} else {unat (di_indirect d)})"

text \<open>A new block \<open>b\<close> has been entered at \<open>k\<close>: it was free and is cleared, the rest of the map is kept, the map
  is well-formed, and nothing else on the disk but the entry block has changed.\<close>

definition entered :: "sfs_fs \<Rightarrow> sfs_disk_inode \<Rightarrow> nat \<Rightarrow> u32 \<Rightarrow> sfs_fs \<Rightarrow> sfs_disk_inode \<Rightarrow> bool" where
  "entered s d k b t d' \<longleftrightarrow> unat b \<in> frees s \<and> b \<noteq> 0 \<and> (\<forall>a<4096. block_at t (unat b) a = 0)
     \<and> map_ok t d' \<and> (\<forall>j<max_blocks. bmap_of t d' j = (if j = k then b else bmap_of s d j))
     \<and> frees t \<subseteq> frees s \<and> card (frees t) + new_blocks d k = card (frees s)
     \<and> (di_indirect d' = di_indirect d \<or> di_indirect d = 0)
     \<and> frees s = frees t \<union> insert (unat b) ({unat (di_indirect d')} - {unat (di_indirect d)})
     \<and> fs_step (frees s \<union> entry_block d) s t \<and> same_attrs d d'"

lemma card_minus:
  "finite A \<Longrightarrow> x \<in> A \<Longrightarrow> card (A - {x}) + 1 = card A" for A :: "nat set"
  by (metis Suc_eq_plus1 card.remove)

lemma get_new_direct:
  assumes "fs_ok s" "map_ok s (din sin)" "unat index < 12" "di_direct (din sin) ! unat index = 0"
  shows "frees s = {} \<Longrightarrow> sfs_bmap_get_nolock sin index True s = Some (Inl E_NO_MEM, sin, s)"
    and "frees s \<noteq> {} \<Longrightarrow> \<exists>b sin' t. sfs_bmap_get_nolock sin index True s = Some (Inr b, sin', t)
      \<and> entered s (din sin) (unat index) b t (din sin') \<and> sin_ino sin' = sin_ino sin \<and> sin_dirty sin'"
proof -
  show "sfs_bmap_get_nolock sin index True s = Some (Inl E_NO_MEM, sin, s)" if "frees s = {}"
    using assms(3,4) sfs_block_alloc_ok(1) [OF assms(1) that] by (simp add: sfs_bmap_get_nolock_def max_blocks_eq)
  assume "frees s \<noteq> {}"
  then obtain b t where t: "sfs_block_alloc s = Some (Inr b, t)" "unat b \<in> frees s" "b \<noteq> 0"
    "frees t = frees s - {unat b}" "fs_step {unat b} s t" "\<forall>a<4096. block_at t (unat b) a = 0"
    using sfs_block_alloc_ok(2) [OF assms(1)] by blast
  define sin' where "sin' = (set_din (\<lambda>d. d\<lparr>di_direct := (di_direct d)[unat index := b]\<rparr>) sin)\<lparr>sin_dirty := True\<rparr>"
  have d': "di_direct (din sin') = (di_direct (din sin))[unat index := b]" "di_indirect (din sin') = di_indirect (din sin)"
    "same_attrs (din sin) (din sin')" "sin_ino sin' = sin_ino sin" "sin_dirty sin'"
    by (simp_all add: sin'_def set_din_def same_attrs_def)
  have len: "length (di_direct (din sin)) = 12" and ind: "di_indirect (din sin) \<noteq> 0 \<Longrightarrow> unat (di_indirect (din sin)) \<noteq> unat b"
    using assms(2) t(2) by (auto simp: map_ok_def in_fs_def)
  have bm: "bmap_of t (din sin') j = (if j = unat index then b else bmap_of s (din sin) j)" if "j < max_blocks" for j
    using that ind_entry_step [OF t(5), of "di_indirect (din sin)" "j - 12"] d' len ind assms(3)
    by (auto simp: bmap_of_def max_blocks_eq)
  have ls: "frees s \<subseteq> {..<nblocks s}" using assms(1) by (auto simp: fs_ok_def)
  have sub: "frees t \<subseteq> frees s" "unat b \<notin> frees t" using t(4) by auto
  have "map_ok t (din sin')"
    by (rule map_ok_extend [OF assms(2) t(5) sub(1) _ _ bm t(2) sub(2) t(3) ls])
      (use d' len assms(3) in \<open>auto simp: max_blocks_eq\<close>)
  moreover have "fs_step (frees s \<union> entry_block (din sin)) s t"
    using t(2) by (intro fs_step_mono [OF t(5)]) auto
  moreover have "card (frees t) + new_blocks (din sin) (unat index) = card (frees s)"
    using card_minus [OF finite_frees [OF assms(1)] t(2)] t(4) assms(3) by (simp add: new_blocks_def)
  ultimately have e: "entered s (din sin) (unat index) b t (din sin')"
    using t(2,3,4,6) sub(1) bm d'(2,3) by (auto simp: entered_def)
  have "in_fs t b" "fs_ok t"
    using t ls sub(2) by (auto simp: in_fs_def fs_step_def)
  then have "sfs_bmap_get_nolock sin index True s = Some (Inr b, sin', t)"
    using assms(3,4) t(1,3) bmap_out_ok(1) by (simp add: sfs_bmap_get_nolock_def max_blocks_eq sin'_def)
  with e d' show "\<exists>b sin' t. sfs_bmap_get_nolock sin index True s = Some (Inr b, sin', t)
      \<and> entered s (din sin) (unat index) b t (din sin') \<and> sin_ino sin' = sin_ino sin \<and> sin_dirty sin'" by blast
qed

lemma get_new_entry:
  assumes "fs_ok s" "map_ok s (din sin)" "\<not> unat index < 12" "unat index < max_blocks"
    and "di_indirect (din sin) \<noteq> 0" "bmap_of s (din sin) (unat index) = 0"
  shows "frees s = {} \<Longrightarrow> \<exists>t. sfs_bmap_get_nolock sin index True s = Some (Inl E_NO_MEM, sin, t)
      \<and> fs_step {} s t \<and> frees t = frees s"
    and "frees s \<noteq> {} \<Longrightarrow> \<exists>b t. sfs_bmap_get_nolock sin index True s = Some (Inr b, sin, t)
      \<and> entered s (din sin) (unat index) b t (din sin)"
proof -
  let ?e = "di_indirect (din sin)" and ?k = "unat index - 12"
  have i: "in_fs s ?e" "?k < 1024"
    using assms(2,4,5) by (auto simp: map_ok_def max_blocks_eq)
  obtain u where u: "sfs_rbuf 4 ?e (?k * 4) s = Some (Inr (bytes_at s (unat ?e) (?k * 4) 4), u)" "frees u = frees s" "fs_step {} s u"
    using read_entry [OF assms(1) i] by blast
  have "rd32 (bytes_at s (unat ?e) (?k * 4) 4) = 0"
    using assms(3,5,6) by (simp add: bmap_of_def ind_entry_def)
  then have sub: "sfs_bmap_get_sub_nolock ?e (index - 12) True s = bmap_sub_new ?e ?e (?k * 4) u"
    using u(1) assms(3,5) i(2) by (simp add: sfs_bmap_get_sub_nolock_def Let_def index_minus max_blocks_eq)
  have ok: "fs_ok u" "in_fs u ?e" using u(2,3) i(1) by (auto simp: fs_step_def in_fs_def)
  note new = bmap_sub_new_ok [OF ok i(2), of ?e]
  show "\<exists>t. sfs_bmap_get_nolock sin index True s = Some (Inl E_NO_MEM, sin, t) \<and> fs_step {} s t \<and> frees t = frees s"
    if "frees s = {}"
    using new(1) that sub u i(2) assms(3)
    by (simp add: sfs_bmap_get_nolock_def Let_def index_minus max_blocks_eq bmap_sub_cleanup_def)
  assume "frees s \<noteq> {}"
  then obtain b t where t: "bmap_sub_new ?e ?e (?k * 4) u = Some (Inr b, ?e, t)" "unat b \<in> frees s" "b \<noteq> 0"
    "frees t = frees s - {unat b}" "fs_step {unat b, unat ?e} u t" "\<forall>a<4096. block_at t (unat b) a = 0"
    "\<forall>j<1024. ind_entry t ?e j = (if j = ?k then b else ind_entry u ?e j)"
    using new(2) u(2) by auto
  have st: "fs_step {unat b, unat ?e} s t" using fs_step_trans [OF u(3) t(5)] by simp
  have bm: "bmap_of t (din sin) j = (if j = unat index then b else bmap_of s (din sin) j)" if "j < max_blocks" for j
  proof (cases "j < 12")
    case False
    then have "ind_entry t ?e (j - 12) = (if j = unat index then b else ind_entry u ?e (j - 12))"
      using t(7) that assms(3) by (auto simp: max_blocks_eq)
    moreover have "ind_entry u ?e (j - 12) = ind_entry s ?e (j - 12)"
      using that False by (intro ind_entry_step [OF u(3)]) (auto simp: max_blocks_eq)
    ultimately show ?thesis using False assms(5) by (simp add: bmap_of_def)
  qed (use assms(3) in \<open>auto simp: bmap_of_def\<close>)
  have ls: "frees s \<subseteq> {..<nblocks s}" using assms(1) by (auto simp: fs_ok_def)
  have subs: "frees t \<subseteq> frees s" "unat b \<notin> frees t" using t(4) by auto
  have "map_ok t (din sin)"
    by (rule map_ok_extend [OF assms(2) st subs(1) _ assms(4) bm t(2) subs(2) t(3) ls])
      (use assms(2) in \<open>auto simp: map_ok_def\<close>)
  moreover have "fs_step (frees s \<union> entry_block (din sin)) s t"
    using t(2) assms(5) by (intro fs_step_mono [OF st]) (auto simp: entry_block_def)
  moreover have "card (frees t) + new_blocks (din sin) (unat index) = card (frees s)"
    using card_minus [OF finite_frees [OF assms(1)] t(2)] t(4) assms(5) by (simp add: new_blocks_def)
  ultimately have e: "entered s (din sin) (unat index) b t (din sin)"
    using t(2,3,4,6) subs(1) bm by (auto simp: entered_def same_attrs_def)
  have "in_fs t b" "fs_ok t"
    using t st ls subs(2) by (auto simp: in_fs_def fs_step_def)
  then have "sfs_bmap_get_nolock sin index True s = Some (Inr b, sin, t)"
    using sub t(1,3) i(2) assms(3) bmap_out_ok(1) by (simp add: sfs_bmap_get_nolock_def Let_def index_minus max_blocks_eq)
  with e show "\<exists>b t. sfs_bmap_get_nolock sin index True s = Some (Inr b, sin, t)
      \<and> entered s (din sin) (unat index) b t (din sin)" by blast
qed


lemma get_new_both:
  assumes "fs_ok s" "map_ok s (din sin)" "\<not> unat index < 12" "unat index < max_blocks" "di_indirect (din sin) = 0"
  shows "card (frees s) < 2 \<Longrightarrow> \<exists>t. sfs_bmap_get_nolock sin index True s = Some (Inl E_NO_MEM, sin, t)
      \<and> fs_step (frees s) s t \<and> frees t = frees s"
    and "\<not> card (frees s) < 2 \<Longrightarrow> \<exists>b sin' t. sfs_bmap_get_nolock sin index True s = Some (Inr b, sin', t)
      \<and> entered s (din sin) (unat index) b t (din sin') \<and> sin_ino sin' = sin_ino sin \<and> sin_dirty sin'"
proof -
  let ?k = "unat index - 12"
  have i: "?k < 1024" using assms(4) by (auto simp: max_blocks_eq)
  have fin: "finite (frees s)" using finite_frees [OF assms(1)] .
  have ls: "frees s \<subseteq> {..<nblocks s}" using assms(1) by (auto simp: fs_ok_def)
  have none: "sfs_bmap_get_nolock sin index True s = Some (Inl E_NO_MEM, sin, s)" if "frees s = {}"
    using sfs_block_alloc_ok(1) [OF assms(1) that] assms(3,5) i
    by (simp add: sfs_bmap_get_nolock_def sfs_bmap_get_sub_nolock_def Let_def index_minus max_blocks_eq)
  have get: "sfs_bmap_get_sub_nolock 0 (index - 12) True s = bmap_sub_new 0 e (?k * 4) u"
    if "sfs_block_alloc s = Some (Inr e, u)" for e u
    using that assms(3) i by (simp add: sfs_bmap_get_sub_nolock_def Let_def index_minus max_blocks_eq)
  have alloc: "\<exists>e u. sfs_block_alloc s = Some (Inr e, u) \<and> unat e \<in> frees s \<and> e \<noteq> 0 \<and> fs_ok u \<and> in_fs u e
      \<and> frees u = frees s - {unat e} \<and> fs_step {unat e} s u \<and> (\<forall>a<4096. block_at u (unat e) a = 0)"
    if ne: "frees s \<noteq> {}"
  proof -
    obtain e u where u: "sfs_block_alloc s = Some (Inr e, u)" "unat e \<in> frees s" "e \<noteq> 0"
      "frees u = frees s - {unat e}" "fs_step {unat e} s u" "\<forall>a<4096. block_at u (unat e) a = 0"
      using sfs_block_alloc_ok(2) [OF assms(1) ne] by blast
    moreover have "fs_ok u" "in_fs u e" using u ls by (auto simp: fs_step_def in_fs_def)
    ultimately show ?thesis by blast
  qed
  show "\<exists>t. sfs_bmap_get_nolock sin index True s = Some (Inl E_NO_MEM, sin, t) \<and> fs_step (frees s) s t \<and> frees t = frees s"
    if few: "card (frees s) < 2"
  proof (cases "frees s = {}")
    case True
    with none fs_step_refl [OF assms(1)] show ?thesis by blast
  next
    case False
    then obtain e u where u: "sfs_block_alloc s = Some (Inr e, u)" "unat e \<in> frees s" "e \<noteq> 0" "fs_ok u" "in_fs u e"
      "frees u = frees s - {unat e}" "fs_step {unat e} s u" using alloc by blast
    have "card (frees u) = 0" using card_minus [OF fin u(2)] few unfolding u(6) by linarith
    then have "frees u = {}" using finite_frees [OF u(4)] by simp
    then have "bmap_sub_new 0 e (?k * 4) u = bmap_sub_cleanup E_NO_MEM 0 e u"
      using bmap_sub_new_ok(1) [OF u(4,5) i] by simp
    moreover obtain t where t: "sfs_block_free e u = Some t" "frees t = insert (unat e) (frees u)" "fs_step {} u t"
      using sfs_block_free_ok [OF u(4,5)] by blast
    ultimately have "sfs_bmap_get_sub_nolock 0 (index - 12) True s = Some (Inl E_NO_MEM, 0, t)"
      using get [OF u(1)] u(3) by (simp add: bmap_sub_cleanup_def)
    then have "sfs_bmap_get_nolock sin index True s = Some (Inl E_NO_MEM, sin, t)"
      using assms(3,5) i by (simp add: sfs_bmap_get_nolock_def Let_def index_minus max_blocks_eq)
    moreover have "fs_step (frees s) s t"
      using u(2) by (intro fs_step_mono [OF fs_step_trans [OF u(7) t(3)]]) simp
    ultimately show ?thesis using t(2) u(2,6) by auto
  qed
  assume many: "\<not> card (frees s) < 2"
  then have "frees s \<noteq> {}" by auto
  then obtain e u where u: "sfs_block_alloc s = Some (Inr e, u)" "unat e \<in> frees s" "e \<noteq> 0" "fs_ok u" "in_fs u e"
    "frees u = frees s - {unat e}" "fs_step {unat e} s u" "\<forall>a<4096. block_at u (unat e) a = 0" using alloc by blast
  have "card (frees u) \<noteq> 0" using card_minus [OF fin u(2)] many unfolding u(6) by linarith
  then have "frees u \<noteq> {}" by auto
  then obtain b t where t: "bmap_sub_new 0 e (?k * 4) u = Some (Inr b, e, t)" "unat b \<in> frees u" "b \<noteq> 0"
    "frees t = frees u - {unat b}" "fs_step {unat b, unat e} u t" "\<forall>a<4096. block_at t (unat b) a = 0"
    "\<forall>j<1024. ind_entry t e j = (if j = ?k then b else ind_entry u e j)"
    using bmap_sub_new_ok(2) [OF u(4,5) i] by blast
  define sin' where "sin' = (set_din (\<lambda>d. d\<lparr>di_indirect := e\<rparr>) sin)\<lparr>sin_dirty := True\<rparr>"
  have d': "di_direct (din sin') = di_direct (din sin)" "di_indirect (din sin') = e"
    "same_attrs (din sin) (din sin')" "sin_ino sin' = sin_ino sin" "sin_dirty sin'"
    by (simp_all add: sin'_def set_din_def same_attrs_def)
  have st: "fs_step {unat b, unat e} s t"
    using fs_step_trans [OF u(7) t(5)] by (simp add: insert_commute)
  have bm: "bmap_of t (din sin') j = (if j = unat index then b else bmap_of s (din sin) j)" if "j < max_blocks" for j
    using that d' assms(3,5) t(7) ind_entry_zero [OF u(8)] u(3) by (auto simp: bmap_of_def max_blocks_eq)
  have b: "unat b \<in> frees s" "b \<noteq> e" "0 < unat e" using t(2) u(3,6) by (auto simp: unat_gt_0)
  have sub: "frees t \<subseteq> frees s" "unat b \<notin> frees t" "unat e \<notin> frees t" using t(4) u(6) by auto
  have "map_ok t (din sin')"
    by (rule map_ok_extend [OF assms(2) st sub(1) _ assms(4) bm b(1) sub(2) t(3) ls])
      (use d' assms(2,5) u(2,3) sub(3) b(2) in \<open>auto simp: map_ok_def\<close>)
  moreover have "fs_step (frees s \<union> entry_block (din sin)) s t"
    using u(2) b(1) by (intro fs_step_mono [OF st]) auto
  moreover have "card (frees t) + new_blocks (din sin) (unat index) = card (frees s)"
    using card_minus [OF fin u(2)] card_minus [OF finite_frees [OF u(4)] t(2)] t(4) u(6) assms(3,5)
    by (simp add: new_blocks_def)
  ultimately have en: "entered s (din sin) (unat index) b t (din sin')"
    using b(1,3) t(3,4,6) sub(1) bm d'(2,3) u(2,3,6) assms(5) by (auto simp: entered_def)
  have "in_fs t b" "fs_ok t"
    using t(3) st ls b(1) sub(2) by (auto simp: in_fs_def fs_step_def)
  then have "sfs_bmap_get_nolock sin index True s = Some (Inr b, sin', t)"
    using get [OF u(1)] t(1,3) i assms(3,5) u(3) bmap_out_ok(1)
    by (simp add: sfs_bmap_get_nolock_def Let_def index_minus max_blocks_eq sin'_def)
  with en d' show "\<exists>b sin' t. sfs_bmap_get_nolock sin index True s = Some (Inr b, sin', t)
      \<and> entered s (din sin) (unat index) b t (din sin') \<and> sin_ino sin' = sin_ino sin \<and> sin_dirty sin'" by blast
qed

text \<open>All cases together.\<close>

lemma get_new:
  assumes "fs_ok s" "map_ok s (din sin)" "unat index < max_blocks" "bmap_of s (din sin) (unat index) = 0"
  shows "card (frees s) < new_blocks (din sin) (unat index) \<Longrightarrow>
      \<exists>t. sfs_bmap_get_nolock sin index True s = Some (Inl E_NO_MEM, sin, t) \<and> fs_step (frees s) s t \<and> frees t = frees s"
    and "\<not> card (frees s) < new_blocks (din sin) (unat index) \<Longrightarrow>
      \<exists>b sin' t. sfs_bmap_get_nolock sin index True s = Some (Inr b, sin', t)
        \<and> entered s (din sin) (unat index) b t (din sin') \<and> sin_ino sin' = sin_ino sin"
proof -
  have e: "card (frees s) < 1 \<longleftrightarrow> frees s = {}"
    using finite_frees [OF assms(1)] by auto
  note direct = get_new_direct [OF assms(1,2)] and entry = get_new_entry [OF assms(1,2) _ assms(3)]
    and both = get_new_both [OF assms(1,2) _ assms(3)]
  have dz: "di_direct (din sin) ! unat index = 0" if "unat index < 12"
    using that assms(4) by (simp add: bmap_of_def)
  show "\<exists>t. sfs_bmap_get_nolock sin index True s = Some (Inl E_NO_MEM, sin, t) \<and> fs_step (frees s) s t \<and> frees t = frees s"
    if few: "card (frees s) < new_blocks (din sin) (unat index)"
  proof (cases "unat index < 12")
    case True
    with few e have "frees s = {}" by (simp add: new_blocks_def)
    with direct(1) [OF True dz [OF True]] fs_step_refl [OF assms(1)] show ?thesis by blast
  next
    case False
    show ?thesis
    proof (cases "di_indirect (din sin) = 0")
      case True
      with False few both(1) show ?thesis by (simp add: new_blocks_def)
    next
      case ind: False
      with False few e have "frees s = {}" by (simp add: new_blocks_def)
      with entry(1) [OF False ind assms(4)] fs_step_mono [of "{}" s _ "frees s"] show ?thesis by auto
    qed
  qed
  show "\<exists>b sin' t. sfs_bmap_get_nolock sin index True s = Some (Inr b, sin', t)
        \<and> entered s (din sin) (unat index) b t (din sin') \<and> sin_ino sin' = sin_ino sin"
    if many: "\<not> card (frees s) < new_blocks (din sin) (unat index)"
  proof (cases "unat index < 12")
    case True
    with many e have "frees s \<noteq> {}" by (simp add: new_blocks_def)
    with direct(2) [OF True dz [OF True]] show ?thesis by blast
  next
    case False
    show ?thesis
    proof (cases "di_indirect (din sin) = 0")
      case True
      with many False have "\<not> card (frees s) < 2" by (simp add: new_blocks_def)
      with both(2) [OF False True] show ?thesis by blast
    next
      case ind: False
      with False many e have "frees s \<noteq> {}" by (simp add: new_blocks_def)
      with entry(2) [OF False ind assms(4)] show ?thesis by blast
    qed
  qed
qed

end
