(* ===== verification/Sfs_Files.thy ===== *)
theory Sfs_Files
  imports Sfs_Map
begin

text \<open>Changing the length of a file: the last block of the map, and \<open>sfs_truncfile\<close>.\<close>

section \<open>Taking a block out\<close>

lemma free_ok:
  assumes "fs_ok s" "map_ok s (din sin)" "unat index < max_blocks" "bmap_of s (din sin) (unat index) \<noteq> 0"
  shows "\<exists>sin' t. sfs_bmap_free_nolock sin index s = Some (None, sin', t)
    \<and> frees t = insert (unat (bmap_of s (din sin) (unat index))) (frees s)
    \<and> fs_step (entry_block (din sin)) s t \<and> same_attrs (din sin) (din sin') \<and> sin_ino sin' = sin_ino sin
    \<and> map_ok t (din sin') \<and> di_indirect (din sin') = di_indirect (din sin)
    \<and> (\<forall>j<max_blocks. bmap_of t (din sin') j = (if j = unat index then 0 else bmap_of s (din sin) j))"
proof -
  let ?d = "din sin" and ?b = "bmap_of s (din sin) (unat index)"
  have b: "in_fs s ?b" "?b \<noteq> di_indirect ?d" using assms(2,3,4) by (auto simp: map_ok_def)
  have mk: "map_ok t d'" if "fs_step (entry_block ?d) s t" "frees t = insert (unat ?b) (frees s)"
    "length (di_direct d') = 12" "di_indirect d' = di_indirect ?d"
    "\<And>j. j < max_blocks \<Longrightarrow> bmap_of t d' j = (if j = unat index then 0 else bmap_of s ?d j)" for t d'
  proof -
    have keep: "in_fs t x" if "in_fs s x" "x \<noteq> ?b" for x
      using that(1) that(2) [unfolded word_unat_eq_iff] \<open>fs_step _ s t\<close> \<open>frees t = _\<close>
      by (auto simp: in_fs_def fs_step_def)
    have other: "bmap_of s ?d j \<noteq> ?b" if "j < max_blocks" "j \<noteq> unat index" for j
      using that assms(2,3,4) by (auto simp: map_ok_def)
    show ?thesis
      using that(3,4,5) assms(2,4) keep other b(2) by (auto simp: map_ok_def)
  qed
  show ?thesis
  proof (cases "unat index < 12")
    case True
    define sin' where "sin' = (set_din (\<lambda>d. d\<lparr>di_direct := (di_direct d)[unat index := 0]\<rparr>) sin)\<lparr>sin_dirty := True\<rparr>"
    obtain t where t: "sfs_block_free ?b s = Some t" "frees t = insert (unat ?b) (frees s)" "fs_step {} s t"
      using sfs_block_free_ok [OF assms(1) b(1)] by blast
    have d': "di_direct (din sin') = (di_direct ?d)[unat index := 0]" "di_indirect (din sin') = di_indirect ?d"
      "same_attrs ?d (din sin')" "sin_ino sin' = sin_ino sin"
      by (simp_all add: sin'_def set_din_def same_attrs_def)
    have len: "length (di_direct ?d) = 12" using assms(2) by (simp add: map_ok_def)
    have bm: "bmap_of t (din sin') j = (if j = unat index then 0 else bmap_of s ?d j)" if "j < max_blocks" for j
      using that True len d' ind_entry_step [OF t(3), of "di_indirect ?d" "j - 12"]
      by (auto simp: bmap_of_def max_blocks_eq)
    have st: "fs_step (entry_block ?d) s t" using fs_step_mono [OF t(3)] by simp
    have "sfs_bmap_free_nolock sin index s = Some (None, sin', t)"
      using True assms(4) t(1) by (simp add: sfs_bmap_free_nolock_def max_blocks_eq bmap_of_def sin'_def)
    with mk [OF st t(2) _ d'(2) bm] st t(2) d' len bm show ?thesis by auto
  next
    case False
    let ?e = "di_indirect ?d" and ?k = "unat index - 12"
    have i: "?e \<noteq> 0" "?k < 1024" "ind_entry s ?e ?k = ?b"
      using False assms(3,4) by (auto simp: bmap_of_def max_blocks_eq split: if_splits)
    have e: "in_fs s ?e" using assms(2) i(1) by (simp add: map_ok_def)
    obtain u where u: "sfs_rbuf 4 ?e (?k * 4) s = Some (Inr (bytes_at s (unat ?e) (?k * 4) 4), u)" "frees u = frees s" "fs_step {} s u"
      using read_entry [OF assms(1) e i(2)] by blast
    have "fs_ok u" "in_fs u ?e" "in_fs u ?b" using u(2,3) e b(1) by (auto simp: fs_step_def in_fs_def)
    moreover from write_entry [OF this(1,2) i(2), of 0] obtain v where v:
      "sfs_wbuf (le32 0) ?e (?k * 4) u = Some (None, v)" "frees v = frees u" "fs_step {unat ?e} u v"
      "\<forall>j<1024. ind_entry v ?e j = (if j = ?k then 0 else ind_entry u ?e j)" by blast
    ultimately have "fs_ok v" "in_fs v ?b" by (auto simp: fs_step_def in_fs_def)
    then obtain t where t: "sfs_block_free ?b v = Some t" "frees t = insert (unat ?b) (frees v)" "fs_step {} v t"
      using sfs_block_free_ok by blast
    have st: "fs_step (entry_block ?d) s t"
      using fs_step_trans [OF fs_step_trans [OF u(3) v(3)] t(3)] i(1) by (simp add: entry_block_def)
    have fr: "frees t = insert (unat ?b) (frees s)" using t(2) v(2) u(2) by simp
    have bm: "bmap_of t ?d j = (if j = unat index then 0 else bmap_of s ?d j)" if "j < max_blocks" for j
    proof (cases "j < 12")
      case j: False
      then have jj: "j - 12 < 1024" using that by (auto simp: max_blocks_eq)
      have "ind_entry t ?e (j - 12) = (if j - 12 = ?k then 0 else ind_entry s ?e (j - 12))"
        using v(4) jj ind_entry_step [OF t(3) _ jj] ind_entry_step [OF u(3) _ jj] by simp
      moreover have "j - 12 = ?k \<longleftrightarrow> j = unat index" using j False by auto
      ultimately show ?thesis using j i(1) by (simp add: bmap_of_def)
    qed (use False in \<open>auto simp: bmap_of_def\<close>)
    have "rd32 (bytes_at s (unat ?e) (?k * 4) 4) = ?b" using i(3) by (simp add: ind_entry_def)
    then have "sfs_bmap_free_sub_nolock ?e (index - 12) s = Some (None, t)"
      using in_fs_inuse [OF assms(1) e] u(1) v(1) t(1) assms(4) i(2) False
      by (simp add: sfs_bmap_free_sub_nolock_def index_minus max_blocks_eq)
    then have "sfs_bmap_free_nolock sin index s = Some (None, sin, t)"
      using False i by (simp add: sfs_bmap_free_nolock_def Let_def index_minus max_blocks_eq)
    moreover have "length (di_direct ?d) = 12" using assms(2) by (simp add: map_ok_def)
    ultimately show ?thesis using mk [OF st fr _ refl bm] st fr bm by (auto simp: same_attrs_def)
  qed
qed

section \<open>Well-formed files\<close>

text \<open>The blocks in the map are the first \<open>di_blocks\<close> ones.\<close>

definition file_ok :: "sfs_fs \<Rightarrow> sfs_disk_inode \<Rightarrow> bool" where
  "file_ok s d \<longleftrightarrow> map_ok s d \<and> unat (di_blocks d) \<le> max_blocks
     \<and> (\<forall>k<max_blocks. bmap_of s d k \<noteq> 0 \<longleftrightarrow> k < unat (di_blocks d))"

definition owned :: "sfs_fs \<Rightarrow> sfs_disk_inode \<Rightarrow> nat set" where
  "owned s d = {unat x |x. x \<noteq> 0 \<and> (x = di_indirect d \<or> (\<exists>k<max_blocks. x = bmap_of s d k))}"

text \<open>The file has been resized: the blocks it has before and after hold the same bytes, new ones are
  cleared, every block it lost is free and every block it got was, and no other block of the disk has
  changed.\<close>

definition resized :: "sfs_fs \<Rightarrow> sfs_disk_inode \<Rightarrow> sfs_fs \<Rightarrow> sfs_disk_inode \<Rightarrow> bool" where
  "resized s d t d' \<longleftrightarrow> fs_ok t \<and> file_ok t d' \<and> frees t \<union> owned t d' = frees s \<union> owned s d
     \<and> (\<forall>k. k < unat (di_blocks d) \<and> k < unat (di_blocks d') \<longrightarrow> bmap_of t d' k = bmap_of s d k
          \<and> (\<forall>a<4096. block_at t (unat (bmap_of t d' k)) a = block_at s (unat (bmap_of s d k)) a))
     \<and> (\<forall>k. unat (di_blocks d) \<le> k \<and> k < unat (di_blocks d') \<longrightarrow> (\<forall>a<4096. block_at t (unat (bmap_of t d' k)) a = 0))
     \<and> (\<forall>n a. n \<notin> frees s \<union> owned s d \<and> a < 4096 \<longrightarrow> block_at t n a = block_at s n a)
     \<and> nblocks t = nblocks s \<and> di_size d' = di_size d \<and> di_type d' = di_type d \<and> di_nlinks d' = di_nlinks d"


lemma resizedI:
  assumes "fs_ok t" "file_ok t d'" "frees t \<union> owned t d' = frees s \<union> owned s d"
    and "\<And>k. k < unat (di_blocks d) \<Longrightarrow> k < unat (di_blocks d') \<Longrightarrow> bmap_of t d' k = bmap_of s d k"
    and "\<And>k a. k < unat (di_blocks d) \<Longrightarrow> k < unat (di_blocks d') \<Longrightarrow> a < 4096 \<Longrightarrow>
      block_at t (unat (bmap_of s d k)) a = block_at s (unat (bmap_of s d k)) a"
    and "\<And>k a. unat (di_blocks d) \<le> k \<Longrightarrow> k < unat (di_blocks d') \<Longrightarrow> a < 4096 \<Longrightarrow>
      block_at t (unat (bmap_of t d' k)) a = 0"
    and "\<And>n a. n \<notin> frees s \<Longrightarrow> n \<notin> owned s d \<Longrightarrow> a < 4096 \<Longrightarrow> block_at t n a = block_at s n a"
    and "nblocks t = nblocks s" "di_size d' = di_size d" "di_type d' = di_type d" "di_nlinks d' = di_nlinks d"
  shows "resized s d t d'"
  unfolding resized_def
proof (intro conjI allI impI)
  show "bmap_of t d' k = bmap_of s d k" if "k < unat (di_blocks d) \<and> k < unat (di_blocks d')" for k
    using that assms(4) by blast
  then show "block_at t (unat (bmap_of t d' k)) a = block_at s (unat (bmap_of s d k)) a"
    if "k < unat (di_blocks d) \<and> k < unat (di_blocks d')" "a < 4096" for k a
    using that assms(5) by simp
qed (use assms in blast)+

lemma resizedD:
  assumes "resized s d t d'"
  shows "fs_ok t" "file_ok t d'" "frees t \<union> owned t d' = frees s \<union> owned s d"
    and "\<And>k. k < unat (di_blocks d) \<Longrightarrow> k < unat (di_blocks d') \<Longrightarrow> bmap_of t d' k = bmap_of s d k"
    and "\<And>k a. k < unat (di_blocks d) \<Longrightarrow> k < unat (di_blocks d') \<Longrightarrow> a < 4096 \<Longrightarrow>
      block_at t (unat (bmap_of s d k)) a = block_at s (unat (bmap_of s d k)) a"
    and "\<And>k a. unat (di_blocks d) \<le> k \<Longrightarrow> k < unat (di_blocks d') \<Longrightarrow> a < 4096 \<Longrightarrow>
      block_at t (unat (bmap_of t d' k)) a = 0"
    and "\<And>n a. n \<notin> frees s \<Longrightarrow> n \<notin> owned s d \<Longrightarrow> a < 4096 \<Longrightarrow> block_at t n a = block_at s n a"
    and "nblocks t = nblocks s" "di_size d' = di_size d" "di_type d' = di_type d" "di_nlinks d' = di_nlinks d"
proof -
  note r = assms [unfolded resized_def]
  from r show b: "bmap_of t d' k = bmap_of s d k" if "k < unat (di_blocks d)" "k < unat (di_blocks d')" for k
    using that by blast
  from r show "block_at t (unat (bmap_of s d k)) a = block_at s (unat (bmap_of s d k)) a"
    if "k < unat (di_blocks d)" "k < unat (di_blocks d')" "a < 4096" for k a
    using that b [OF that(1,2)] by metis
qed (use assms in \<open>unfold resized_def, blast\<close>)+

lemma file_in_fs:
  assumes "file_ok s d" "k < unat (di_blocks d)"
  shows "bmap_of s d k \<noteq> 0" "in_fs s (bmap_of s d k)" "bmap_of s d k \<noteq> di_indirect d" "k < max_blocks"
  using assms by (auto simp: file_ok_def map_ok_def)

lemma owned_in_fs: "map_ok s d \<Longrightarrow> n \<in> owned s d \<Longrightarrow> n \<notin> frees s \<and> 0 < n \<and> n < nblocks s"
  by (auto simp: owned_def map_ok_def in_fs_def unat_gt_0)

lemma resized_same:
  assumes "fs_step A s t" "A \<subseteq> frees s" "frees t = frees s" "file_ok s d"
  shows "resized s d t d"
proof -
  have m: "map_ok s d" using assms(4) by (simp add: file_ok_def)
  have ind: "unat (di_indirect d) \<notin> A" if "di_indirect d \<noteq> 0"
    using m that assms(2) by (auto simp: map_ok_def in_fs_def)
  have b: "map_ok t d" "\<And>k. k < max_blocks \<Longrightarrow> bmap_of t d k = bmap_of s d k"
    using map_ok_step [OF m assms(1) _ ind] assms(3) by auto
  then have "(\<exists>k<max_blocks. x = bmap_of t d k) \<longleftrightarrow> (\<exists>k<max_blocks. x = bmap_of s d k)" for x by auto
  then have o: "owned t d = owned s d" by (simp add: owned_def)
  have same: "block_at t n a = block_at s n a" if "n \<notin> frees s" "a < 4096" for n a
    using that assms(1,2) by (auto simp: fs_step_def)
  show ?thesis
  proof (rule resizedI)
    show "file_ok t d" using assms(4) b by (simp add: file_ok_def)
    show "bmap_of t d k = bmap_of s d k" if "k < unat (di_blocks d)" for k
      using file_in_fs(4) [OF assms(4) that] b(2) by simp
    show "block_at t (unat (bmap_of s d k)) a = block_at s (unat (bmap_of s d k)) a"
      if "k < unat (di_blocks d)" "a < 4096" for k a
      using file_in_fs(2) [OF assms(4) that(1)] same that(2) by (simp add: in_fs_def)
  qed (use assms(1,3) o same in \<open>simp_all add: fs_step_def\<close>)
qed

lemma resized_trans:
  assumes "resized s d t d'" "resized t d' u d''"
    and "unat (di_blocks d) \<le> unat (di_blocks d') \<and> unat (di_blocks d') \<le> unat (di_blocks d'')
      \<or> unat (di_blocks d'') \<le> unat (di_blocks d') \<and> unat (di_blocks d') \<le> unat (di_blocks d)"
  shows "resized s d u d''"
proof -
  note r1 = resizedD [OF assms(1)] and r2 = resizedD [OF assms(2)]
  show ?thesis
  proof (rule resizedI)
    fix k
    assume k: "k < unat (di_blocks d)" "k < unat (di_blocks d'')"
    then have k': "k < unat (di_blocks d')" using assms(3) by auto
    show "bmap_of u d'' k = bmap_of s d k"
      using r1(4) [OF k(1) k'] r2(4) [OF k' k(2)] by simp
    show "block_at u (unat (bmap_of s d k)) a = block_at s (unat (bmap_of s d k)) a" if "a < 4096" for a
      using r1(4,5) [OF k(1) k'] r2(5) [OF k' k(2)] that by simp
  next
    fix k a
    assume k: "unat (di_blocks d) \<le> k" "k < unat (di_blocks d'')" "a < (4096 :: nat)"
    show "block_at u (unat (bmap_of u d'' k)) a = 0"
    proof (cases "k < unat (di_blocks d')")
      case True
      then show ?thesis using r2(4,5) [OF True k(2)] r1(6) [OF k(1) True] k(3) by simp
    next
      case False
      then show ?thesis using r2(6) k by simp
    qed
  next
    fix n a
    assume n: "n \<notin> frees s" "n \<notin> owned s d" "a < (4096 :: nat)"
    then have "n \<notin> frees t" "n \<notin> owned t d'" using r1(3) by auto
    then show "block_at u n a = block_at s n a" using r1(7) r2(7) n by simp
  qed (use r1 r2 in simp_all)
qed

lemma entered_owned:
  assumes "map_ok s d" "entered s d n b t d'" "bmap_of s d n = 0" "n < max_blocks"
  shows "frees t \<union> owned t d' = frees s \<union> owned s d"
proof -
  note e = assms(2) [unfolded entered_def]
  have be: "bmap_of t d' j = (if j = n then b else bmap_of s d j)" if "j < max_blocks" for j
    using e that by blast
  have "x \<noteq> 0 \<and> (x = di_indirect d' \<or> (\<exists>k<max_blocks. x = bmap_of t d' k)) \<longleftrightarrow>
    x \<noteq> 0 \<and> (x = di_indirect d' \<or> x = b \<or> (\<exists>k<max_blocks. x = bmap_of s d k))" for x
  proof -
    have "(\<exists>k<max_blocks. x = bmap_of t d' k) \<longleftrightarrow> x = b \<or> (\<exists>k<max_blocks. k \<noteq> n \<and> x = bmap_of s d k)"
    proof
      assume "\<exists>k<max_blocks. x = bmap_of t d' k"
      then obtain k where "k < max_blocks" "x = bmap_of t d' k" by blast
      with be [of k] show "x = b \<or> (\<exists>k<max_blocks. k \<noteq> n \<and> x = bmap_of s d k)" by (cases "k = n") auto
    next
      assume "x = b \<or> (\<exists>k<max_blocks. k \<noteq> n \<and> x = bmap_of s d k)"
      then show "\<exists>k<max_blocks. x = bmap_of t d' k"
        using be assms(4) by metis
    qed
    then show ?thesis using assms(3) by metis
  qed
  then have "owned t d' = {unat x |x. x \<noteq> 0 \<and> (x = di_indirect d' \<or> x = b \<or> (\<exists>k<max_blocks. x = bmap_of s d k))}"
    by (simp add: owned_def)
  also have "\<dots> = insert (unat b) ({unat x |x. x \<noteq> 0 \<and> x = di_indirect d'}
      \<union> {unat x |x. x \<noteq> 0 \<and> (\<exists>k<max_blocks. x = bmap_of s d k)})"
    using e by blast
  finally have o': "owned t d' = \<dots>" .
  have o: "owned s d = {unat x |x. x \<noteq> 0 \<and> x = di_indirect d} \<union> {unat x |x. x \<noteq> 0 \<and> (\<exists>k<max_blocks. x = bmap_of s d k)}"
    by (auto simp: owned_def)
  show ?thesis
  proof (cases "di_indirect d' = di_indirect d")
    case True
    then have "frees s = insert (unat b) (frees t)" using e by auto
    with o o' True show ?thesis by auto
  next
    case False
    then have z: "di_indirect d = 0" "di_indirect d' \<noteq> 0" using e by auto
    then have "unat (di_indirect d') > 0" by (simp add: unat_gt_0)
    with e z have "frees s = frees t \<union> {unat b, unat (di_indirect d')}" by auto
    with o o' z show ?thesis by auto
  qed
qed

lemma owned_attrs [simp]: "owned s (d\<lparr>di_blocks := n\<rparr>) = owned s d" "owned s (d\<lparr>di_size := m\<rparr>) = owned s d"
  by (simp_all add: owned_def)

lemma entered_resized:
  assumes "fs_ok s" "file_ok s d" "unat (di_blocks d) < max_blocks" "entered s d (unat (di_blocks d)) b t d'"
  defines "d'' \<equiv> d'\<lparr>di_blocks := di_blocks d' + 1\<rparr>"
  shows "resized s d t d''" "unat (di_blocks d'') = unat (di_blocks d) + 1" "bmap_of t d'' (unat (di_blocks d)) = b"
proof -
  let ?n = "unat (di_blocks d)"
  note e = assms(4) [unfolded entered_def]
  have at: "di_blocks d' = di_blocks d" "di_size d'' = di_size d" "di_type d'' = di_type d" "di_nlinks d'' = di_nlinks d"
    using e by (simp_all add: same_attrs_def d''_def)
  show n: "unat (di_blocks d'') = ?n + 1"
    using assms(3) at(1) by (simp add: d''_def max_blocks_eq unat_word_ariths)
  have bm: "bmap_of t d'' j = (if j = ?n then b else bmap_of s d j)" if "j < max_blocks" for j
    using e that by (simp add: d''_def)
  then show b: "bmap_of t d'' ?n = b" using assms(3) by simp
  have ms: "map_ok s d" "bmap_of s d ?n = 0" using assms(2,3) by (auto simp: file_ok_def)
  have st: "fs_step (frees s \<union> entry_block d) s t" using e by blast
  show "resized s d t d''"
  proof (rule resizedI)
    show "fs_ok t" "nblocks t = nblocks s" using st by (simp_all add: fs_step_def)
    show "file_ok t d''"
      using e bm assms(2,3) n by (auto simp: file_ok_def less_Suc_eq d''_def)
    show "frees t \<union> owned t d'' = frees s \<union> owned s d"
      using entered_owned [OF ms(1) assms(4) ms(2) assms(3)] by (simp add: d''_def)
    show "bmap_of t d'' k = bmap_of s d k" if "k < ?n" for k
      using bm [of k] that assms(3) by simp
    show "block_at t (unat (bmap_of s d k)) a = block_at s (unat (bmap_of s d k)) a" if "k < ?n" "a < 4096" for k a
    proof -
      have "unat (bmap_of s d k) \<notin> frees s \<union> entry_block d"
        using file_in_fs(2,3) [OF assms(2) that(1)] by (auto simp: in_fs_def entry_block_def word_unat_eq_iff)
      with st that(2) show ?thesis by (simp add: fs_step_def)
    qed
    show "block_at t (unat (bmap_of t d'' k)) a = 0" if "?n \<le> k" "k < unat (di_blocks d'')" "a < 4096" for k a
      using that n b e by (simp add: le_less_Suc_eq)
    show "block_at t n a = block_at s n a" if "n \<notin> frees s" "n \<notin> owned s d" "a < 4096" for n a
    proof -
      have "n \<notin> entry_block d" using that(2) by (auto simp: entry_block_def owned_def split: if_splits)
      with that st show ?thesis by (simp add: fs_step_def)
    qed
  qed (simp_all add: at)
qed


section \<open>The last block of a file\<close>

lemma index_eq: "unat (index :: u32) = unat b \<longleftrightarrow> index = b"
  by (simp add: word_unat_eq_iff)

lemma load_append:
  assumes "fs_ok s" "file_ok s (din sin)" "unat (di_blocks (din sin)) < max_blocks"
  shows "\<exists>r sin' t. sfs_bmap_load_nolock sin (di_blocks (din sin)) s = Some (r, sin', t)
    \<and> resized s (din sin) t (din sin') \<and> sin_ino sin' = sin_ino sin
    \<and> (if card (frees s) < new_blocks (din sin) (unat (di_blocks (din sin)))
       then r = Inl E_NO_MEM \<and> sin' = sin \<and> frees t = frees s
       else r = Inr (bmap_of t (din sin') (unat (di_blocks (din sin))))
         \<and> unat (di_blocks (din sin')) = unat (di_blocks (din sin)) + 1)"
proof -
  let ?d = "din sin" and ?n = "unat (di_blocks (din sin))"
  have m: "map_ok s ?d" "bmap_of s ?d ?n = 0" using assms(2,3) by (auto simp: file_ok_def)
  note new = get_new [OF assms(1) m(1) assms(3) m(2)]
  show ?thesis
  proof (cases "card (frees s) < new_blocks ?d ?n")
    case True
    with new(1) obtain t where t: "sfs_bmap_get_nolock sin (di_blocks ?d) True s = Some (Inl E_NO_MEM, sin, t)"
      "fs_step (frees s) s t" "frees t = frees s" by blast
    have "resized s ?d t ?d" using resized_same [OF t(2) subset_refl t(3) assms(2)] .
    with t(1,3) True show ?thesis by (simp add: sfs_bmap_load_nolock_def)
  next
    case False
    with new(2) obtain b sin1 t where t: "sfs_bmap_get_nolock sin (di_blocks ?d) True s = Some (Inr b, sin1, t)"
      "entered s ?d ?n b t (din sin1)" "sin_ino sin1 = sin_ino sin" by blast
    define sin' where "sin' = set_din (\<lambda>d. d\<lparr>di_blocks := di_blocks d + 1\<rparr>) sin1"
    have d': "din sin' = (din sin1)\<lparr>di_blocks := di_blocks (din sin1) + 1\<rparr>" "sin_ino sin' = sin_ino sin"
      using t(3) by (simp_all add: sin'_def set_din_def)
    note r = entered_resized [OF assms(1-3) t(2), folded d'(1)]
    have "in_fs t b"
      using file_in_fs(2) [OF resizedD(2) [OF r(1)], of ?n] r(2,3) by simp
    then have "sfs_block_inuse t b = Some True"
      using in_fs_inuse resizedD(1) [OF r(1)] by blast
    then have "sfs_bmap_load_nolock sin (di_blocks ?d) s = Some (Inr b, sin', t)"
      using t(1) by (simp add: sfs_bmap_load_nolock_def sin'_def)
    with r d'(2) False show ?thesis by simp
  qed
qed

lemma load_inside:
  assumes "fs_ok s" "file_ok s (din sin)" "index < di_blocks (din sin)"
  shows "\<exists>t. sfs_bmap_load_nolock sin index s = Some (Inr (bmap_of s (din sin) (unat index)), sin, t)
    \<and> fs_step {} s t \<and> frees t = frees s"
proof -
  let ?b = "bmap_of s (din sin) (unat index)"
  have i: "unat index < unat (di_blocks (din sin))" using assms(3) by (simp add: word_less_nat_alt)
  note f = file_in_fs [OF assms(2) i]
  have "map_ok s (din sin)" using assms(2) by (simp add: file_ok_def)
  then obtain t where t: "sfs_bmap_get_nolock sin index False s = Some (Inr ?b, sin, t)" "frees t = frees s" "fs_step {} s t"
    using get_existing [OF assms(1) _ f(4)] by blast
  have "in_fs t ?b" "fs_ok t" using f(2) t(2,3) by (auto simp: in_fs_def fs_step_def)
  then have "sfs_block_inuse t ?b = Some True" using in_fs_inuse by blast
  moreover have "(index = di_blocks (din sin)) = False" "index \<le> di_blocks (din sin)" using assms(3) by auto
  ultimately show ?thesis using t by (simp add: sfs_bmap_load_nolock_def Let_def)
qed

lemma truncate_last:
  assumes "fs_ok s" "file_ok s (din sin)" "di_blocks (din sin) \<noteq> 0"
  shows "\<exists>sin' t. sfs_bmap_truncate_nolock sin s = Some (None, sin', t) \<and> resized s (din sin) t (din sin')
    \<and> unat (di_blocks (din sin')) + 1 = unat (di_blocks (din sin)) \<and> sin_ino sin' = sin_ino sin"
proof -
  let ?d = "din sin" and ?i = "di_blocks (din sin) - 1"
  have n: "unat ?i + 1 = unat (di_blocks ?d)" using assms(3) by (simp add: unat_sub_if_size unat_gt_0 Suc_leI)
  then have i: "unat ?i < unat (di_blocks ?d)" by simp
  note f = file_in_fs [OF assms(2) i]
  have m: "map_ok s ?d" using assms(2) by (simp add: file_ok_def)
  let ?b = "bmap_of s ?d (unat ?i)"
  obtain sin1 t where t: "sfs_bmap_free_nolock sin ?i s = Some (None, sin1, t)" "frees t = insert (unat ?b) (frees s)"
    "fs_step (entry_block ?d) s t" "same_attrs ?d (din sin1)" "sin_ino sin1 = sin_ino sin"
    "map_ok t (din sin1)" "di_indirect (din sin1) = di_indirect ?d"
    "\<forall>j<max_blocks. bmap_of t (din sin1) j = (if j = unat ?i then 0 else bmap_of s ?d j)"
    using free_ok [OF assms(1) m f(4,1)] by blast
  define sin' where "sin' = (set_din (\<lambda>d. d\<lparr>di_blocks := di_blocks d - 1\<rparr>) sin1)\<lparr>sin_dirty := True\<rparr>"
  have d': "din sin' = (din sin1)\<lparr>di_blocks := ?i\<rparr>" "sin_ino sin' = sin_ino sin"
    using t(4,5) by (simp_all add: sin'_def set_din_def same_attrs_def)
  have "sfs_bmap_truncate_nolock sin s = Some (None, sin', t)"
    using t(1) assms(3) by (simp add: sfs_bmap_truncate_nolock_def sin'_def)
  moreover have "resized s ?d t (din sin')"
  proof (rule resizedI)
    show "fs_ok t" "nblocks t = nblocks s" using t(3) by (simp_all add: fs_step_def)
    show "file_ok t (din sin')"
      using t(6,8) assms(2) n d'(1) by (auto simp: file_ok_def)
    have bt: "bmap_of t (din sin') j = (if j = unat ?i then 0 else bmap_of s ?d j)" if "j < max_blocks" for j
      using t(8) that d'(1) by simp
    have "x \<noteq> 0 \<and> (\<exists>k<max_blocks. x = bmap_of s ?d k) \<longleftrightarrow>
        x = ?b \<or> x \<noteq> 0 \<and> (\<exists>k<max_blocks. x = bmap_of t (din sin') k)" for x
    proof
      assume "x \<noteq> 0 \<and> (\<exists>k<max_blocks. x = bmap_of s ?d k)"
      then obtain k where "x \<noteq> 0" "k < max_blocks" "x = bmap_of s ?d k" by blast
      with bt [of k] show "x = ?b \<or> x \<noteq> 0 \<and> (\<exists>k<max_blocks. x = bmap_of t (din sin') k)"
        by (cases "k = unat ?i") auto
    next
      assume "x = ?b \<or> x \<noteq> 0 \<and> (\<exists>k<max_blocks. x = bmap_of t (din sin') k)"
      then show "x \<noteq> 0 \<and> (\<exists>k<max_blocks. x = bmap_of s ?d k)"
        using bt f(1,4) by metis
    qed
    then have "owned s ?d = {unat x |x. x \<noteq> 0 \<and> x = di_indirect ?d} \<union>
        {unat x |x. x = ?b \<or> x \<noteq> 0 \<and> (\<exists>k<max_blocks. x = bmap_of t (din sin') k)}"
      unfolding owned_def by blast
    moreover have "owned t (din sin') = {unat x |x. x \<noteq> 0 \<and> x = di_indirect ?d} \<union>
        {unat x |x. x \<noteq> 0 \<and> (\<exists>k<max_blocks. x = bmap_of t (din sin') k)}"
      using t(7) d'(1) unfolding owned_def by auto
    ultimately show "frees t \<union> owned t (din sin') = frees s \<union> owned s ?d"
      unfolding t(2) by blast
    show "bmap_of t (din sin') k = bmap_of s ?d k" if "k < unat (di_blocks ?d)" "k < unat (di_blocks (din sin'))" for k
      using bt [of k] file_in_fs(4) [OF assms(2) that(1)] that(2) d'(1) by simp
    show "block_at t (unat (bmap_of s ?d k)) a = block_at s (unat (bmap_of s ?d k)) a"
      if "k < unat (di_blocks ?d)" "a < 4096" for k a
      using file_in_fs(3) [OF assms(2) that(1)] t(3) that(2) by (simp add: fs_step_def entry_block_def word_unat_eq_iff)
    show "block_at t n a = block_at s n a" if "n \<notin> frees s" "n \<notin> owned s ?d" "a < 4096" for n a
    proof -
      have "n \<notin> entry_block ?d" using that(2) by (auto simp: entry_block_def owned_def split: if_splits)
      with t(3) that(3) show ?thesis by (simp add: fs_step_def)
    qed
  qed (use t(4) d'(1) n in \<open>auto simp: same_attrs_def\<close>)
  ultimately show ?thesis using d' n by auto
qed


section \<open>Changing the length\<close>

lemma truncfile_grow_ok:
  assumes "fs_ok s" "file_ok s (din sin)" "unat (di_blocks (din sin)) + k \<le> max_blocks"
  shows "\<exists>r sin' t. truncfile_grow k (di_blocks (din sin)) sin s = Some (r, sin', t)
    \<and> resized s (din sin) t (din sin') \<and> unat (di_blocks (din sin)) \<le> unat (di_blocks (din sin'))
    \<and> (r = None \<and> unat (di_blocks (din sin')) = unat (di_blocks (din sin)) + k
       \<or> r = Some E_NO_MEM \<and> unat (di_blocks (din sin')) < unat (di_blocks (din sin)) + k
         \<and> card (frees t) < new_blocks (din sin') (unat (di_blocks (din sin'))))"
  using assms
proof (induction k arbitrary: sin s)
  case 0
  then show ?case
    using resized_same [OF fs_step_refl [OF 0(1)] empty_subsetI] by simp
next
  case (Suc k)
  let ?n = "unat (di_blocks (din sin))"
  have "?n < max_blocks" using Suc.prems(3) by simp
  from load_append [OF Suc.prems(1,2) this] obtain r sin1 u where l:
    "sfs_bmap_load_nolock sin (di_blocks (din sin)) s = Some (r, sin1, u)" "resized s (din sin) u (din sin1)"
    "if card (frees s) < new_blocks (din sin) ?n then r = Inl E_NO_MEM \<and> sin1 = sin \<and> frees u = frees s
     else r = Inr (bmap_of u (din sin1) ?n) \<and> unat (di_blocks (din sin1)) = ?n + 1" by blast
  show ?case
  proof (cases "card (frees s) < new_blocks (din sin) ?n")
    case True
    with l show ?thesis by simp
  next
    case False
    then have r: "r = Inr (bmap_of u (din sin1) ?n)" "unat (di_blocks (din sin1)) = ?n + 1" using l(3) by simp_all
    then have b: "di_blocks (din sin) + 1 = di_blocks (din sin1)"
      using Suc.prems(3) by (simp add: word_unat_eq_iff unat_word_ariths max_blocks_eq)
    have "unat (di_blocks (din sin1)) + k \<le> max_blocks" using r(2) Suc.prems(3) by simp
    from Suc.IH [OF resizedD(1,2) [OF l(2)] this] obtain r' sin' t where g:
      "truncfile_grow k (di_blocks (din sin1)) sin1 u = Some (r', sin', t)" "resized u (din sin1) t (din sin')"
      "unat (di_blocks (din sin1)) \<le> unat (di_blocks (din sin'))"
      "r' = None \<and> unat (di_blocks (din sin')) = unat (di_blocks (din sin1)) + k
       \<or> r' = Some E_NO_MEM \<and> unat (di_blocks (din sin')) < unat (di_blocks (din sin1)) + k
         \<and> card (frees t) < new_blocks (din sin') (unat (di_blocks (din sin')))" by blast
    have "resized s (din sin) t (din sin')"
      using resized_trans [OF l(2) g(2)] r(2) g(3) by simp
    moreover have "truncfile_grow (Suc k) (di_blocks (din sin)) sin s = Some (r', sin', t)"
      using l(1) r(1) g(1) b by simp
    ultimately show ?thesis using g(3,4) r(2) by (intro exI [of _ r'] exI [of _ sin'] exI [of _ t]) auto
  qed
qed

lemma truncfile_shrink_ok:
  assumes "fs_ok s" "file_ok s (din sin)" "k \<le> unat (di_blocks (din sin))"
  shows "\<exists>sin' t. truncfile_shrink k sin s = Some (None, sin', t) \<and> resized s (din sin) t (din sin')
    \<and> unat (di_blocks (din sin')) + k = unat (di_blocks (din sin))"
  using assms
proof (induction k arbitrary: sin s)
  case 0
  then show ?case
    using resized_same [OF fs_step_refl [OF 0(1)] empty_subsetI] by simp
next
  case (Suc k)
  then have "di_blocks (din sin) \<noteq> 0" by auto
  from truncate_last [OF Suc.prems(1,2) this] obtain sin1 u where l:
    "sfs_bmap_truncate_nolock sin s = Some (None, sin1, u)" "resized s (din sin) u (din sin1)"
    "unat (di_blocks (din sin1)) + 1 = unat (di_blocks (din sin))" by blast
  then have "k \<le> unat (di_blocks (din sin1))" using Suc.prems(3) by simp
  from Suc.IH [OF resizedD(1,2) [OF l(2)] this] obtain sin' t where g:
    "truncfile_shrink k sin1 u = Some (None, sin', t)" "resized u (din sin1) t (din sin')"
    "unat (di_blocks (din sin')) + k = unat (di_blocks (din sin1))" by blast
  have "resized s (din sin) t (din sin')"
    using resized_trans [OF l(2) g(2)] l(3) g(3) by simp
  then show ?case using l g by simp
qed

text \<open>The number of blocks that hold \<open>n\<close> bytes.\<close>

definition blocks_for :: "nat \<Rightarrow> nat" where
  "blocks_for n = (n + 4095) div 4096"

lemma truncfile_loop_ok:
  assumes "fs_ok s" "file_ok s (din sin)" "unat tblks \<le> max_blocks"
  shows "\<exists>r sin1 t. truncfile_loop tblks sin s = Some (r, sin1, t) \<and> resized s (din sin) t (din sin1)
    \<and> (r = None \<and> unat (di_blocks (din sin1)) = unat tblks
       \<or> r = Some E_NO_MEM \<and> unat (di_blocks (din sin)) \<le> unat (di_blocks (din sin1))
         \<and> unat (di_blocks (din sin1)) < unat tblks \<and> card (frees t) < 2)"
proof (cases "di_blocks (din sin)" tblks rule: linorder_cases)
  case less
  then have k: "unat (di_blocks (din sin)) + unat (tblks - di_blocks (din sin)) = unat tblks"
    by (simp add: unat_sub word_less_nat_alt word_le_nat_alt)
  then have "unat (di_blocks (din sin)) + unat (tblks - di_blocks (din sin)) \<le> max_blocks"
    using assms(3) by simp
  from truncfile_grow_ok [OF assms(1,2) this] obtain r sin1 t where
    "truncfile_grow (unat (tblks - di_blocks (din sin))) (di_blocks (din sin)) sin s = Some (r, sin1, t)"
    "resized s (din sin) t (din sin1)" "unat (di_blocks (din sin)) \<le> unat (di_blocks (din sin1))"
    "r = None \<and> unat (di_blocks (din sin1)) = unat tblks
     \<or> r = Some E_NO_MEM \<and> unat (di_blocks (din sin1)) < unat tblks
       \<and> card (frees t) < new_blocks (din sin1) (unat (di_blocks (din sin1)))"
    unfolding k by blast
  moreover have "new_blocks d n \<le> 2" for d n by (simp add: new_blocks_def)
  ultimately show ?thesis using less unfolding truncfile_loop_def by (fastforce intro: less_le_trans)
next
  case equal
  have "resized s (din sin) s (din sin)"
    using resized_same [OF fs_step_refl [OF assms(1)] empty_subsetI _ assms(2)] by simp
  then show ?thesis using equal by (simp add: truncfile_loop_def)
next
  case greater
  then have k: "unat (di_blocks (din sin) - tblks) + unat tblks = unat (di_blocks (din sin))"
    by (simp add: unat_sub word_less_nat_alt word_le_nat_alt)
  then have "unat (di_blocks (din sin) - tblks) \<le> unat (di_blocks (din sin))" by simp
  from truncfile_shrink_ok [OF assms(1,2) this] obtain sin1 t where
    "truncfile_shrink (unat (di_blocks (din sin) - tblks)) sin s = Some (None, sin1, t)"
    "resized s (din sin) t (din sin1)" "unat (di_blocks (din sin1)) + unat (di_blocks (din sin) - tblks) = unat (di_blocks (din sin))"
    by blast
  with greater k show ?thesis by (auto simp: truncfile_loop_def)
qed

text \<open>The number of blocks \<open>sfs_truncfile\<close> wants for a length within the block map.\<close>

lemma blocks_wanted:
  assumes "len \<le> max_blocks * 4096"
  shows "unat (word_of_int ((int len + 4096 - 1) div 4096) :: u32) = blocks_for len"
    and "\<not> (int len < 0 \<or> int len > SFS_MAX_FILE_SIZE)" and "unat (word_of_int (int len) :: u32) = len"
    and "blocks_for len \<le> max_blocks"
proof -
  have bl: "blocks_for len \<le> 1036" "len < 4294967296"
    using assms unfolding blocks_for_def max_blocks_eq by linarith+
  have e: "(int len + 4096 - 1) div 4096 = int (blocks_for len)"
    unfolding blocks_for_def by (simp add: zdiv_int)
  show "unat (word_of_int ((int len + 4096 - 1) div 4096) :: u32) = blocks_for len"
    using bl(1) unfolding e by (simp add: unat_of_nat take_bit_nat_eq_self_iff)
  show "\<not> (int len < 0 \<or> int len > SFS_MAX_FILE_SIZE)"
    using assms unfolding SFS_MAX_FILE_SIZE_def max_blocks_eq by linarith
  show "unat (word_of_int (int len) :: u32) = len"
    using bl(2) by (simp add: unat_of_nat take_bit_nat_eq_self_iff)
  show "blocks_for len \<le> max_blocks" using bl(1) by (simp add: max_blocks_eq)
qed

text \<open>A file that has another number of blocks than its length needs fails the assertion when it is set
  to the length it has.\<close>

lemma truncfile_asserts:
  assumes "unat (di_size (din sin)) = len" "blocks_for len \<noteq> unat (di_blocks (din sin))" "len \<le> max_blocks * 4096"
  shows "sfs_truncfile (int len) sin s = None"
proof -
  have "uint (di_size (din sin)) = int len" unfolding uint_nat using assms(1) by simp
  moreover have "word_of_int ((int len + 4096 - 1) div 4096) \<noteq> di_blocks (din sin)"
    using blocks_wanted(1) [OF assms(3)] assms(2) by auto
  ultimately show ?thesis using blocks_wanted(2) [OF assms(3)] by (simp add: sfs_truncfile_def Let_def)
qed

lemma sfs_truncfile_ok:
  assumes "fs_ok s" "file_ok s (din sin)" "unat (di_size (din sin)) = len \<Longrightarrow> blocks_for len = unat (di_blocks (din sin))"
    and "len \<le> max_blocks * 4096"
  shows "\<exists>r sin' t. sfs_truncfile (int len) sin s = Some (r, sin', t) \<and> fs_ok t \<and> file_ok t (din sin')
    \<and> resized s (din sin) t ((din sin')\<lparr>di_size := di_size (din sin)\<rparr>)
    \<and> (r = None \<and> unat (di_size (din sin')) = len \<and> unat (di_blocks (din sin')) = blocks_for len \<and> (sin' = sin \<or> sin_dirty sin')
       \<or> r = Some E_NO_MEM \<and> di_size (din sin') = di_size (din sin)
         \<and> unat (di_blocks (din sin)) \<le> unat (di_blocks (din sin'))
         \<and> unat (di_blocks (din sin')) < blocks_for len \<and> card (frees t) < 2)"
proof -
  let ?d = "din sin"
  define tblks :: u32 where "tblks = word_of_int ((int len + 4096 - 1) div 4096)"
  note B = blocks_wanted [OF assms(4)]
  have tb: "unat tblks = blocks_for len" using B(1) by (simp add: tblks_def)
  note rng = B(2) and wl = B(3)
  have sz: "uint (di_size ?d) = int len \<longleftrightarrow> unat (di_size ?d) = len"
    unfolding uint_nat by (rule of_nat_eq_iff)
  note tf = sfs_truncfile_def [of "int len" sin s]
  show ?thesis
  proof (cases "unat (di_size ?d) = len")
    case True
    then have "tblks = di_blocks ?d" using tb assms(3) [OF True] by (simp add: word_unat_eq_iff)
    then have "sfs_truncfile (int len) sin s = Some (None, sin, s)"
      using rng sz True unfolding tf tblks_def [symmetric] Let_def by simp
    moreover have "resized s ?d s ?d"
      using resized_same [OF fs_step_refl [OF assms(1)] empty_subsetI _ assms(2)] by simp
    ultimately show ?thesis using assms True by (intro exI [of _ None] exI [of _ sin] exI [of _ s]) simp
  next
    case False
    have "unat tblks \<le> max_blocks" using tb B(4) by simp
    from truncfile_loop_ok [OF assms(1,2) this] obtain r sin1 t where i:
      "truncfile_loop tblks sin s = Some (r, sin1, t)" "resized s ?d t (din sin1)"
      "r = None \<and> unat (di_blocks (din sin1)) = blocks_for len
         \<or> r = Some E_NO_MEM \<and> unat (di_blocks ?d) \<le> unat (di_blocks (din sin1))
           \<and> unat (di_blocks (din sin1)) < blocks_for len \<and> card (frees t) < 2"
      unfolding tb by blast
    have main: "sfs_truncfile (int len) sin s = (case r of Some e \<Rightarrow> Some (Some e, sin1, t)
        | None \<Rightarrow> if di_blocks (din sin1) \<noteq> tblks then None
                   else Some (None, (set_din (\<lambda>d. d\<lparr>di_size := word_of_int (int len)\<rparr>) sin1)\<lparr>sin_dirty := True\<rparr>, t))"
      unfolding tf Let_def tblks_def [symmetric] i(1) using rng sz False by (simp split: option.splits)
    note rd = resizedD [OF i(2)]
    show ?thesis
    proof (cases r)
      case None
      define sin' where "sin' = (set_din (\<lambda>d. d\<lparr>di_size := word_of_int (int len)\<rparr>) sin1)\<lparr>sin_dirty := True\<rparr>"
      have d': "din sin' = (din sin1)\<lparr>di_size := word_of_int (int len)\<rparr>" by (simp add: sin'_def set_din_def)
      have b: "unat (di_blocks (din sin1)) = blocks_for len" using i(3) None by simp
      then have "sfs_truncfile (int len) sin s = Some (None, sin', t)"
        using main None tb by (simp add: sin'_def word_unat_eq_iff)
      moreover have "(din sin')\<lparr>di_size := di_size ?d\<rparr> = din sin1" using rd(9) d' by simp
      moreover have "file_ok t (din sin')" using rd(2) d' by (simp add: file_ok_def)
      moreover have "sin_dirty sin'" by (simp add: sin'_def)
      ultimately show ?thesis
        using i(2) rd(1) d' b wl by (intro exI [of _ None] exI [of _ sin'] exI [of _ t]) simp
    next
      case (Some e)
      then have "sfs_truncfile (int len) sin s = Some (Some E_NO_MEM, sin1, t)" using main i(3) by simp
      moreover have e: "(din sin1)\<lparr>di_size := di_size ?d\<rparr> = din sin1" using rd(9) by simp
      moreover have "resized s ?d t ((din sin1)\<lparr>di_size := di_size ?d\<rparr>)" using i(2) by (simp only: e)
      ultimately show ?thesis
        using i(3) rd(1,2,9) Some by (intro exI [of _ "Some E_NO_MEM"] exI [of _ sin1] exI [of _ t]) simp
    qed
  qed
qed

end
