(* ===== verification/Sfs_Props.thy ===== *)
theory Sfs_Props
  imports Sfs_Files
begin

text \<open>What the file system promises about the blocks of a file, and where it breaks the promise.\<close>

section \<open>A small file system\<close>

text \<open>Eight blocks, of which 5, 6 and 7 are free, and an empty file.\<close>

definition demo_sfs :: sfs_fs where
  "demo_sfs = \<lparr>d_blocks = 8, ide_size = 64, dimage = (\<lambda>a. 0), disk0_buffer = 0, kbytes = (\<lambda>a. 0),
     super = \<lparr>sup_magic = 0x2f8dbe2a, sup_blocks = 8, sup_unused = 3, sup_info = replicate 32 0\<rparr>,
     freemap = \<lparr>nbits = 32, nwords = 1, bmap = [0xE0]\<rparr>, freemap_data = 8192, super_dirty = False,
     sfs_buffer = 4096\<rparr>"

definition demo_sin :: sfs_inode where
  "demo_sin = \<lparr>din = \<lparr>di_size = 0, di_type = SFS_TYPE_FILE, di_nlinks = 1, di_blocks = 0,
     di_direct = replicate 12 0, di_indirect = 0\<rparr>, sin_ino = 3, sin_dirty = False\<rparr>"

lemma frees_demo: "frees demo_sfs = {5, 6, 7}"
proof -
  have "free_bits (freemap demo_sfs) = set (filter (\<lambda>i. bit (0xE0 :: u32) i) [0..<32])"
    by (auto simp: free_bits_def demo_sfs_def)
  also have "\<dots> = {5, 6, 7}" by code_simp
  finally show ?thesis by (simp add: frees_def)
qed

lemma fs_ok_demo: "fs_ok demo_sfs"
proof -
  have "bm_inv (freemap demo_sfs)"
    using frees_demo by (simp add: frees_def bm_inv_def) (simp add: demo_sfs_def)
  then show ?thesis
    unfolding fs_ok_def frees_demo
    by (simp add: demo_sfs_def io_ok_def disk_ok_def apart_def MAX_DISK_NSECS_def nblocks_def)
qed

lemma file_ok_demo: "file_ok demo_sfs (din demo_sin)"
proof -
  have "bmap_of demo_sfs (din demo_sin) k = 0" for k
    by (simp add: bmap_of_def demo_sin_def)
  then show ?thesis
    by (simp add: file_ok_def map_ok_def) (simp add: demo_sin_def)
qed

section \<open>Finding and allocating a block\<close>

text \<open>C26: \<open>sfs_bmap_get_nolock\<close> returns the block at an index of the map, or 0. With \<open>create\<close> a missing
  block is allocated, and its entry block if there is none yet: the new block was free, is cleared and is
  put at the index, the rest of the map stays, no block is used twice, and nothing else on the disk
  changes. When there are not enough free blocks it reports \<open>E_NO_MEM\<close> and gives back what it took. No
  assertion fails.\<close>

theorem sfs_bmap_get_allocates:
  assumes "fs_ok s" "map_ok s (din sin)" "unat index < max_blocks"
  shows "\<exists>r sin' t. sfs_bmap_get_nolock sin index create s = Some (r, sin', t) \<and> fs_ok t \<and>
    (if bmap_of s (din sin) (unat index) \<noteq> 0 \<or> \<not> create
     then r = Inr (bmap_of s (din sin) (unat index)) \<and> sin' = sin \<and> frees t = frees s \<and> fs_step {} s t
     else if card (frees s) < new_blocks (din sin) (unat index)
     then r = Inl E_NO_MEM \<and> sin' = sin \<and> frees t = frees s \<and> fs_step (frees s) s t
     else \<exists>b. r = Inr b \<and> entered s (din sin) (unat index) b t (din sin') \<and> sin_ino sin' = sin_ino sin)"
proof (cases "bmap_of s (din sin) (unat index) \<noteq> 0 \<or> \<not> create")
  case True
  with get_existing [OF assms this] show ?thesis by (auto simp: fs_step_def)
next
  case False
  then have c: "bmap_of s (din sin) (unat index) = 0" "create = True" by auto
  show ?thesis
  proof (cases "card (frees s) < new_blocks (din sin) (unat index)")
    case True
    with get_new(1) [OF assms c(1)] c show ?thesis by (auto simp: fs_step_def)
  next
    case few: False
    with get_new(2) [OF assms c(1)] obtain b sin' t where
      "sfs_bmap_get_nolock sin index True s = Some (Inr b, sin', t)"
      "entered s (din sin) (unat index) b t (din sin')" "sin_ino sin' = sin_ino sin" by blast
    moreover from this(2) have "fs_ok t" by (simp add: entered_def fs_step_def)
    ultimately show ?thesis using c few by (intro exI [of _ "Inr b"] exI [of _ sin'] exI [of _ t]) simp
  qed
qed

theorem sfs_bmap_get_allocates_witness:
  "\<exists>b sin' t. sfs_bmap_get_nolock demo_sin 12 True demo_sfs = Some (Inr b, sin', t) \<and> card (frees t) = 1"
proof -
  have m: "map_ok demo_sfs (din demo_sin)" using file_ok_demo by (simp add: file_ok_def)
  have "bmap_of demo_sfs (din demo_sin) 12 = 0" "new_blocks (din demo_sin) 12 = 2"
    by (simp_all add: bmap_of_def new_blocks_def demo_sin_def)
  with sfs_bmap_get_allocates [OF fs_ok_demo m, of 12 True] show ?thesis
    by (auto simp: frees_demo entered_def max_blocks_eq)
qed

section \<open>Changing the length of a file\<close>

text \<open>C27: \<open>sfs_truncfile\<close> up to the size a block map can hold gives the file the new length and exactly
  the blocks for it, or reports \<open>E_NO_MEM\<close> and keeps the old length: the blocks the file has before and
  after hold the same bytes, new blocks are cleared, the file and the free blocks together have the same
  blocks as before, and no other block of the disk changes. The one exception is the assertion on a
  length that stays: a file with more or fewer blocks than its length needs, as a growth that ran out of
  blocks leaves it, panics when it is set to the length it has.\<close>

theorem sfs_truncfile_resizes:
  assumes "fs_ok s" "file_ok s (din sin)" "len \<le> max_blocks * 4096"
  shows "if unat (di_size (din sin)) = len \<and> unat (di_blocks (din sin)) \<noteq> blocks_for len
    then sfs_truncfile (int len) sin s = None
    else \<exists>r sin' t. sfs_truncfile (int len) sin s = Some (r, sin', t) \<and> fs_ok t \<and> file_ok t (din sin')
    \<and> resized s (din sin) t ((din sin')\<lparr>di_size := di_size (din sin)\<rparr>)
    \<and> (r = None \<and> unat (di_size (din sin')) = len \<and> unat (di_blocks (din sin')) = blocks_for len
         \<and> (sin' = sin \<or> sin_dirty sin')
       \<or> r = Some E_NO_MEM \<and> di_size (din sin') = di_size (din sin)
         \<and> unat (di_blocks (din sin)) \<le> unat (di_blocks (din sin'))
         \<and> unat (di_blocks (din sin')) < blocks_for len \<and> card (frees t) < 2)"
proof (cases "unat (di_size (din sin)) = len \<and> unat (di_blocks (din sin)) \<noteq> blocks_for len")
  case True
  then show ?thesis using truncfile_asserts [of sin len s] assms(3) by simp
next
  case False
  then have "unat (di_size (din sin)) = len \<Longrightarrow> blocks_for len = unat (di_blocks (din sin))" by simp
  from sfs_truncfile_ok [OF assms(1,2) this assms(3)] show ?thesis unfolding if_not_P [OF False] .
qed

theorem sfs_truncfile_resizes_witness:
  "(\<exists>r sin' t. sfs_truncfile 5000 demo_sin demo_sfs = Some (r, sin', t) \<and> file_ok t (din sin')
    \<and> (r = None \<longrightarrow> unat (di_blocks (din sin')) = 2))
   \<and> sfs_truncfile 5 (demo_sin\<lparr>din := (din demo_sin)\<lparr>di_size := 5\<rparr>\<rparr>) demo_sfs = None"
proof -
  let ?sin = "demo_sin\<lparr>din := (din demo_sin)\<lparr>di_size := 5\<rparr>\<rparr>"
  have b: "unat (di_size (din demo_sin)) = 0" "unat (di_size (din ?sin)) = 5" "unat (di_blocks (din ?sin)) = 0"
    by (simp_all add: demo_sin_def)
  have n: "blocks_for 5000 = 2" "5000 \<le> max_blocks * 4096" "blocks_for 5 = 1" "5 \<le> max_blocks * 4096"
    by (simp_all add: blocks_for_def max_blocks_eq)
  then have "\<exists>r sin' t. sfs_truncfile 5000 demo_sin demo_sfs = Some (r, sin', t) \<and> file_ok t (din sin')
      \<and> (r = None \<longrightarrow> unat (di_blocks (din sin')) = 2)"
    using sfs_truncfile_resizes [OF fs_ok_demo file_ok_demo n(2)] b(1) n(1) by fastforce
  moreover have "file_ok demo_sfs (din ?sin)" using file_ok_demo by (simp add: file_ok_def)
  from sfs_truncfile_resizes [OF fs_ok_demo this n(4)] b(2,3) n(3)
  have "sfs_truncfile 5 ?sin demo_sfs = None" by simp
  ultimately show ?thesis by blast
qed

text \<open>\<open>sfs_truncfile\<close> accepts lengths up to \<open>SFS_MAX_FILE_SIZE\<close>, but the block map of an inode ends
  at block 1036: making a file that has all of them longer does not report an error but panics.\<close>

theorem sfs_truncfile_panics:
  assumes "di_blocks (din sin) = 1036" "uint (di_size (din sin)) \<noteq> len" "1036 * 4096 < len" "len \<le> SFS_MAX_FILE_SIZE"
  shows "sfs_truncfile len sin s = None"
proof -
  define t :: u32 where "t = word_of_int ((len + 4096 - 1) div 4096)"
  have b: "1037 \<le> (len + 4096 - 1) div 4096" "(len + 4096 - 1) div 4096 \<le> 32768"
    using assms(3,4) unfolding SFS_MAX_FILE_SIZE_def by linarith+
  have t: "uint t = (len + 4096 - 1) div 4096"
    unfolding t_def using b by (simp add: word_of_int_inverse [OF refl])
  then have less: "di_blocks (din sin) < t" "t - di_blocks (din sin) \<noteq> 0"
    using b(1) assms(1) by (auto simp: word_less_def)
  then obtain k where k: "unat (t - di_blocks (din sin)) = Suc k"
    by (metis gr0_implies_Suc unat_gt_0)
  have "sfs_bmap_load_nolock sin 1036 s = None"
    by (simp add: sfs_bmap_load_nolock_def sfs_bmap_get_nolock_def SFS_NDIRECT_def SFS_BLK_NENTRY_def assms(1))
  then have "truncfile_loop t sin s = None"
    using less(1) k by (simp add: truncfile_loop_def assms(1))
  then show ?thesis
    using assms(2-4) by (simp add: sfs_truncfile_def Let_def t_def)
qed

theorem sfs_truncfile_panics_witness:
  "sfs_truncfile 4300000 (demo_sin\<lparr>din := (din demo_sin)\<lparr>di_blocks := 1036\<rparr>\<rparr>) demo_sfs = None"
  by (rule sfs_truncfile_panics) (simp_all add: demo_sin_def SFS_MAX_FILE_SIZE_def)

text \<open>A growth that runs out of blocks inside an entry block the file already has raises the block
  count without setting the dirty flag: only the first block of the map and a new entry block set it in
  \<open>sfs_bmap_get_nolock\<close>, and \<open>sfs_truncfile\<close> sets it on success only. So the count on the disk stays
  behind that in memory, and nothing writes it back.\<close>

lemma load_indirect_clean:
  assumes "sfs_bmap_load_nolock sin (di_blocks (din sin)) s = Some (r, sin', t)"
    and "12 \<le> unat (di_blocks (din sin))" "di_indirect (din sin) \<noteq> 0"
  shows "sin_dirty sin' = sin_dirty sin \<and> di_indirect (din sin') = di_indirect (din sin)"
  using assms
  by (auto simp: sfs_bmap_load_nolock_def sfs_bmap_get_nolock_def bmap_out_def SFS_NDIRECT_def set_din_def Let_def
      split: if_splits option.splits sum.splits prod.splits)

lemma grow_indirect_clean:
  assumes "fs_ok s" "file_ok s (din sin)" "unat (di_blocks (din sin)) + k \<le> max_blocks"
    and "12 \<le> unat (di_blocks (din sin))" "di_indirect (din sin) \<noteq> 0"
    and "truncfile_grow k (di_blocks (din sin)) sin s = Some (r, sin', t)"
  shows "sin_dirty sin' = sin_dirty sin \<and> di_indirect (din sin') = di_indirect (din sin)"
  using assms
proof (induction k arbitrary: sin s)
  case (Suc k)
  let ?n = "unat (di_blocks (din sin))"
  have "?n < max_blocks" using Suc.prems(3) by simp
  from load_append [OF Suc.prems(1,2) this] obtain r1 sin1 u where l:
    "sfs_bmap_load_nolock sin (di_blocks (din sin)) s = Some (r1, sin1, u)" "resized s (din sin) u (din sin1)"
    "r1 = Inl E_NO_MEM \<or> (\<exists>b. r1 = Inr b \<and> unat (di_blocks (din sin1)) = ?n + 1)"
    by (metis (no_types, lifting))
  note c = load_indirect_clean [OF l(1) Suc.prems(4,5)]
  from l(3) show ?case
  proof (elim disjE exE conjE)
    assume "r1 = Inl E_NO_MEM"
    with Suc.prems(6) l(1) c show ?thesis by simp
  next
    fix b assume r: "r1 = Inr b" "unat (di_blocks (din sin1)) = ?n + 1"
    then have "di_blocks (din sin) + 1 = di_blocks (din sin1)"
      using Suc.prems(3) by (simp add: word_unat_eq_iff unat_word_ariths max_blocks_eq)
    then have "truncfile_grow k (di_blocks (din sin1)) sin1 u = Some (r, sin', t)"
      using Suc.prems(6) l(1) r(1) by simp
    from Suc.IH [OF resizedD(1,2) [OF l(2)] _ _ _ this] r(2) Suc.prems(3-5) c show ?thesis by simp
  qed
qed simp

text \<open>The blocks of a file: those of the map, and the entry block.\<close>

lemma card_owned:
  assumes "file_ok s d"
  shows "finite (owned s d)" "card (owned s d) = unat (di_blocks d) + (if di_indirect d = 0 then 0 else 1)"
proof -
  let ?B = "(\<lambda>k. unat (bmap_of s d k)) ` {..<unat (di_blocks d)}" and ?I = "if di_indirect d = 0 then {} else {unat (di_indirect d)}"
  have "owned s d = {unat x |x. x \<noteq> 0 \<and> x = di_indirect d} \<union> {unat x |x. x \<noteq> 0 \<and> (\<exists>k<max_blocks. x = bmap_of s d k)}"
    unfolding owned_def by blast
  moreover have "{unat x |x. x \<noteq> 0 \<and> (\<exists>k<max_blocks. x = bmap_of s d k)} = ?B"
    using assms file_in_fs(1,4) [OF assms] unfolding file_ok_def by fastforce
  moreover have "{unat x |x. x \<noteq> 0 \<and> x = di_indirect d} = ?I" by auto
  ultimately have o: "owned s d = ?I \<union> ?B" by simp
  then show "finite (owned s d)" by simp
  have "inj_on (\<lambda>k. unat (bmap_of s d k)) {..<unat (di_blocks d)}"
  proof (rule inj_onI)
    fix j k assume "j \<in> {..<unat (di_blocks d)}" "k \<in> {..<unat (di_blocks d)}" "unat (bmap_of s d j) = unat (bmap_of s d k)"
    then have "j < unat (di_blocks d)" "k < unat (di_blocks d)" "bmap_of s d j = bmap_of s d k"
      by (simp_all add: word_unat_eq_iff)
    then show "j = k" using assms file_in_fs(1,4) [OF assms] unfolding file_ok_def map_ok_def by metis
  qed
  then have "card ?B = unat (di_blocks d)" by (simp add: card_image)
  moreover have "?I \<inter> ?B = {}"
  proof -
    have "unat (di_indirect d) \<noteq> unat (bmap_of s d k)" if "k < unat (di_blocks d)" for k
      using file_in_fs(3) [OF assms that] unfolding word_unat_eq_iff by simp
    then show ?thesis by auto
  qed
  ultimately show "card (owned s d) = unat (di_blocks d) + (if di_indirect d = 0 then 0 else 1)"
    unfolding o by (subst card_Un_disjoint) auto
qed

lemma resized_card:
  assumes "fs_ok s" "file_ok s d" "resized s d t d'"
  shows "card (frees t) + card (owned t d') = card (frees s) + card (owned s d)"
proof -
  note r = resizedD [OF assms(3)]
  have "frees t \<inter> owned t d' = {}" "frees s \<inter> owned s d = {}"
    using owned_in_fs assms(2) r(2) by (auto simp: file_ok_def)
  then show ?thesis
    using card_Un_disjoint [OF finite_frees [OF r(1)] card_owned(1) [OF r(2)]]
      card_Un_disjoint [OF finite_frees [OF assms(1)] card_owned(1) [OF assms(2)]] r(3) by simp
qed

theorem failed_growth_stays_clean:
  assumes "fs_ok s" "file_ok s (din sin)" "\<not> sin_dirty sin" "di_indirect (din sin) \<noteq> 0" "12 \<le> unat (di_blocks (din sin))"
    and "len \<le> max_blocks * 4096" "unat (di_size (din sin)) \<noteq> len" "frees s \<noteq> {}"
    and "unat (di_blocks (din sin)) + card (frees s) < blocks_for len"
  shows "\<exists>sin' t. sfs_truncfile (int len) sin s = Some (Some E_NO_MEM, sin', t) \<and> \<not> sin_dirty sin'
    \<and> unat (di_blocks (din sin')) = unat (di_blocks (din sin)) + card (frees s)"
proof -
  let ?n = "unat (di_blocks (din sin))"
  define tb :: u32 where "tb = word_of_int ((int len + 4096 - 1) div 4096)"
  note B = blocks_wanted [OF assms(6)]
  have tb: "unat tb = blocks_for len" using B(1) by (simp add: tb_def)
  let ?k = "unat (tb - di_blocks (din sin))"
  have k: "?n + ?k = blocks_for len" using assms(9) tb by (simp add: unat_sub word_le_nat_alt)
  then have "?n + ?k \<le> max_blocks" using B(4) by simp
  note K = assms(1,2) this
  from truncfile_grow_ok [OF K] obtain r sin' t where
    g: "truncfile_grow ?k (di_blocks (din sin)) sin s = Some (r, sin', t)" "resized s (din sin) t (din sin')"
    and o: "r = None \<and> unat (di_blocks (din sin')) = ?n + ?k
      \<or> r = Some E_NO_MEM \<and> card (frees t) < new_blocks (din sin') (unat (di_blocks (din sin')))" by blast
  have c: "sin_dirty sin' = sin_dirty sin" "di_indirect (din sin') = di_indirect (din sin)"
    using grow_indirect_clean [OF K assms(5,4) g(1)] by simp_all
  have card: "card (frees t) + unat (di_blocks (din sin')) = card (frees s) + ?n"
    using resized_card [OF assms(1,2) g(2)] card_owned(2) [OF assms(2)] card_owned(2) [OF resizedD(2) [OF g(2)]]
      assms(4) c(2) by simp
  then have r: "r = Some E_NO_MEM" "card (frees t) = 0"
    using o k assms(4,9) c(2) by (auto simp: new_blocks_def)
  have "uint (di_size (din sin)) \<noteq> int len" using assms(7) by (simp only: uint_nat of_nat_eq_iff not_False_eq_True)
  moreover have "truncfile_loop tb sin s = Some (Some E_NO_MEM, sin', t)"
    using g(1) r(1) assms(9) tb by (simp add: truncfile_loop_def word_less_nat_alt)
  ultimately have "sfs_truncfile (int len) sin s = Some (Some E_NO_MEM, sin', t)"
    using B(2) unfolding sfs_truncfile_def Let_def tb_def [symmetric] by simp
  with c(1) assms(3) card r(2) show ?thesis by simp
qed

end
