(* ===== verification/Vfs.thy ===== *)
theory Vfs
  imports Iobuf "HOL-Library.Monad_Syntax"
begin

text \<open>
  The virtual file system layer of \<open>lab8/kern/fs/vfs\<close>: the reference and open counts of inodes
  (\<open>inode.c\<close>), the table of named devices (\<open>vfsdev.c\<close>), the boot file system (\<open>vfs.c\<close>), the
  current directory (\<open>vfspath.c\<close>), path lookup (\<open>vfslookup.c\<close>) and \<open>vfs_open\<close> (\<open>vfsfile.c\<close>).

  An inode and a mounted file system are addresses (natural numbers); a path is the list of its
  bytes without the final zero. The code calls a file system only through the function tables
  \<open>struct inode_ops\<close> and \<open>struct fs\<close>: these are the records \<open>inode_ops\<close> and \<open>vfs_world\<close>, in which
  an absent function is \<open>None\<close>, and every definition takes them as its argument \<open>W\<close>. A function of a
  table works on the whole state, whose part \<open>vinfo\<close> is the private data of devices and file
  systems. The semaphores around the lists are left out: operations are run one at a time.
\<close>

section \<open>State and function tables\<close>

type_synonym path = "u8 list"

record vfs_dev =
  devname :: path
  devnode :: "nat option"
  dev_fs :: "nat option"
  mountable :: bool

record 's vfs =
  ref_count :: "nat \<Rightarrow> int"
  open_count :: "nat \<Rightarrow> int"
  vdev_list :: "vfs_dev list"
  bootfs_node :: "nat option"
  vinfo :: 's

record stat =
  st_mode :: u32
  st_nlinks :: nat
  st_blocks :: nat
  st_size :: nat

type_synonym ('r, 's) vop = "'s vfs \<Rightarrow> ('r \<times> 's vfs) option"

record 's inode_ops =
  vop_open :: "(nat \<Rightarrow> u32 \<Rightarrow> (errno option, 's) vop) option"
  vop_close :: "(nat \<Rightarrow> (errno option, 's) vop) option"
  vop_read :: "(nat \<Rightarrow> iobuf \<Rightarrow> (int \<times> iobuf, 's) vop) option"
  vop_write :: "(nat \<Rightarrow> iobuf \<Rightarrow> (int \<times> iobuf, 's) vop) option"
  vop_fstat :: "(nat \<Rightarrow> (errno + stat, 's) vop) option"
  vop_fsync :: "(nat \<Rightarrow> (errno option, 's) vop) option"
  vop_namefile :: "(nat \<Rightarrow> iobuf \<Rightarrow> (errno option \<times> iobuf, 's) vop) option"
  vop_getdirentry :: "(nat \<Rightarrow> iobuf \<Rightarrow> (errno option \<times> iobuf, 's) vop) option"
  vop_reclaim :: "(nat \<Rightarrow> (errno option, 's) vop) option"
  vop_gettype :: "(nat \<Rightarrow> (errno + u32, 's) vop) option"
  vop_tryseek :: "(nat \<Rightarrow> int \<Rightarrow> (errno option, 's) vop) option"
  vop_truncate :: "(nat \<Rightarrow> int \<Rightarrow> (errno option, 's) vop) option"
  vop_create :: "(nat \<Rightarrow> path \<Rightarrow> bool \<Rightarrow> (errno + nat, 's) vop) option"
  vop_lookup :: "(nat \<Rightarrow> path \<Rightarrow> (errno + nat, 's) vop) option"

record 's vfs_world =
  in_ops :: "nat \<Rightarrow> 's vfs \<Rightarrow> 's inode_ops"
  in_fs :: "nat \<Rightarrow> nat option"
  is_device :: "nat \<Rightarrow> bool"
  fs_get_root :: "nat \<Rightarrow> (nat, 's) vop"
  fs_sync :: "nat \<Rightarrow> (errno option, 's) vop"
  fs_unmount :: "nat \<Rightarrow> (errno option, 's) vop"

definition O_ACCMODE :: u32 where "O_ACCMODE = 3"
definition O_RDONLY :: u32 where "O_RDONLY = 0"
definition O_WRONLY :: u32 where "O_WRONLY = 1"
definition O_RDWR :: u32 where "O_RDWR = 2"
definition O_CREAT :: u32 where "O_CREAT = 0x4"
definition O_EXCL :: u32 where "O_EXCL = 0x8"
definition O_TRUNC :: u32 where "O_TRUNC = 0x10"
definition O_APPEND :: u32 where "O_APPEND = 0x20"

definition FS_MAX_DNAME_LEN :: nat where "FS_MAX_DNAME_LEN = 31"

definition S_IFMT :: u32 where "S_IFMT = 0x7000"
definition S_IFREG :: u32 where "S_IFREG = 0x1000"
definition S_IFDIR :: u32 where "S_IFDIR = 0x2000"
definition S_IFCHR :: u32 where "S_IFCHR = 0x4000"
definition S_IFBLK :: u32 where "S_IFBLK = 0x5000"

definition S_ISDIR :: "u32 \<Rightarrow> bool" where "S_ISDIR mode \<longleftrightarrow> mode AND S_IFMT = S_IFDIR"

section \<open>The counts of an inode: \<open>inode.c\<close>\<close>

definition MAX_INODE_COUNT :: int where "MAX_INODE_COUNT = 0x10000"

definition inode_init :: "nat \<Rightarrow> 's vfs \<Rightarrow> 's vfs" where
  "inode_init node s = s\<lparr>ref_count := (ref_count s)(node := 1), open_count := (open_count s)(node := 0)\<rparr>"

definition inode_kill :: "nat \<Rightarrow> 's vfs \<Rightarrow> 's vfs option" where
  "inode_kill node s = (if ref_count s node = 0 \<and> open_count s node = 0 then Some s else None)"

definition inode_check :: "nat \<Rightarrow> 's vfs \<Rightarrow> bool" where
  "inode_check node s \<longleftrightarrow> ref_count s node \<ge> open_count s node \<and> open_count s node \<ge> 0
     \<and> ref_count s node < MAX_INODE_COUNT \<and> open_count s node < MAX_INODE_COUNT"

text \<open>\<open>__vop_op\<close>: the function of the table, after the consistency check.\<close>

definition vop_op :: "'s vfs_world \<Rightarrow> nat \<Rightarrow> ('s inode_ops \<Rightarrow> 'f option) \<Rightarrow> 's vfs \<Rightarrow> 'f option" where
  "vop_op W node field s = (if inode_check node s then field (in_ops W node s) else None)"

definition inode_ref_inc :: "nat \<Rightarrow> 's vfs \<Rightarrow> 's vfs" where
  "inode_ref_inc node s = s\<lparr>ref_count := (ref_count s)(node := ref_count s node + 1)\<rparr>"

definition inode_ref_dec :: "'s vfs_world \<Rightarrow> nat \<Rightarrow> 's vfs \<Rightarrow> 's vfs option" where
  "inode_ref_dec W node s =
     (if ref_count s node > 0
      then let s = s\<lparr>ref_count := (ref_count s)(node := ref_count s node - 1)\<rparr>
           in if ref_count s node = 0
              then do { f \<leftarrow> vop_op W node vop_reclaim s; (_, s) \<leftarrow> f node s; Some s }
              else Some s
      else None)"

definition inode_open_inc :: "nat \<Rightarrow> 's vfs \<Rightarrow> 's vfs" where
  "inode_open_inc node s = s\<lparr>open_count := (open_count s)(node := open_count s node + 1)\<rparr>"

definition inode_open_dec :: "'s vfs_world \<Rightarrow> nat \<Rightarrow> 's vfs \<Rightarrow> 's vfs option" where
  "inode_open_dec W node s =
     (if open_count s node > 0
      then let s = s\<lparr>open_count := (open_count s)(node := open_count s node - 1)\<rparr>
           in if open_count s node = 0
              then do { f \<leftarrow> vop_op W node vop_close s; (_, s) \<leftarrow> f node s; Some s }
              else Some s
      else None)"

section \<open>Devices: \<open>vfsdev.c\<close>\<close>

definition vfs_get_root :: "'s vfs_world \<Rightarrow> path \<Rightarrow> (errno + nat, 's) vop" where
  "vfs_get_root W name s =
     (case find (\<lambda>v. devname v = name) (vdev_list s) of
        None \<Rightarrow> Some (Inl E_NO_DEV, s)
      | Some v \<Rightarrow>
          (case dev_fs v of
             Some fs \<Rightarrow> do { (node, s) \<leftarrow> fs_get_root W fs s; Some (Inr node, s) }
           | None \<Rightarrow>
               if \<not> mountable v
               then do { node \<leftarrow> devnode v; Some (Inr node, inode_ref_inc node s) }
               else Some (Inl E_NA_DEV, s)))"

definition vfs_get_devname :: "nat \<Rightarrow> 's vfs \<Rightarrow> path option" where
  "vfs_get_devname fs s = map_option devname (find (\<lambda>v. dev_fs v = Some fs) (vdev_list s))"

text \<open>The name says the opposite of the result, which is true when there is no conflict.\<close>

definition check_devname_conflict :: "path \<Rightarrow> 's vfs \<Rightarrow> bool" where
  "check_devname_conflict name s \<longleftrightarrow> \<not> (\<exists>v \<in> set (vdev_list s). devname v = name)"

text \<open>\<open>km1\<close> and \<open>km2\<close> tell whether the two \<open>kmalloc\<close> calls succeed.\<close>

definition vfs_do_add :: "'s vfs_world \<Rightarrow> bool \<Rightarrow> bool \<Rightarrow> path \<Rightarrow> nat option \<Rightarrow> nat option \<Rightarrow> bool \<Rightarrow> (errno option, 's) vop" where
  "vfs_do_add W km1 km2 name node fs mnt s =
     (if \<not> (case node of None \<Rightarrow> \<not> mnt | Some n \<Rightarrow> is_device W n) then None
      else if length name > FS_MAX_DNAME_LEN then Some (Some E_TOO_BIG, s)
      else if \<not> km1 \<or> \<not> km2 then Some (Some E_NO_MEM, s)
      else if \<not> check_devname_conflict name s then Some (Some E_EXISTS, s)
      else Some (None, s\<lparr>vdev_list := \<lparr>devname = name, devnode = node, dev_fs = fs, mountable = mnt\<rparr> # vdev_list s\<rparr>))"

definition vfs_add_fs :: "'s vfs_world \<Rightarrow> bool \<Rightarrow> bool \<Rightarrow> path \<Rightarrow> nat option \<Rightarrow> (errno option, 's) vop" where
  "vfs_add_fs W km1 km2 name fs = vfs_do_add W km1 km2 name None fs False"

definition vfs_add_dev :: "'s vfs_world \<Rightarrow> bool \<Rightarrow> bool \<Rightarrow> path \<Rightarrow> nat option \<Rightarrow> bool \<Rightarrow> (errno option, 's) vop" where
  "vfs_add_dev W km1 km2 name node mnt = vfs_do_add W km1 km2 name node None mnt"

text \<open>The index in the list of the entry that \<open>find_mount\<close> returns.\<close>

definition find_mount :: "path \<Rightarrow> 's vfs \<Rightarrow> nat option" where
  "find_mount name s = find (\<lambda>i. mountable (vdev_list s ! i) \<and> devname (vdev_list s ! i) = name) [0..<length (vdev_list s)]"

definition set_dev_fs :: "nat \<Rightarrow> nat option \<Rightarrow> 's vfs \<Rightarrow> 's vfs" where
  "set_dev_fs i fs s = s\<lparr>vdev_list := (vdev_list s)[i := (vdev_list s ! i)\<lparr>dev_fs := fs\<rparr>]\<rparr>"

definition vfs_mount :: "'s vfs_world \<Rightarrow> (nat \<Rightarrow> (errno + nat, 's) vop) \<Rightarrow> path \<Rightarrow> (errno option, 's) vop" where
  "vfs_mount W mountfunc name s =
     (case find_mount name s of
        None \<Rightarrow> Some (Some E_NO_DEV, s)
      | Some i \<Rightarrow>
          if dev_fs (vdev_list s ! i) \<noteq> None then Some (Some E_BUSY, s)
          else do {
            node \<leftarrow> devnode (vdev_list s ! i);
            (r, s) \<leftarrow> (if is_device W node then mountfunc node s else None);
            (case r of
               Inl e \<Rightarrow> Some (Some e, s)
             | Inr fs \<Rightarrow> Some (None, set_dev_fs i (Some fs) s)) })"

definition vfs_unmount :: "'s vfs_world \<Rightarrow> path \<Rightarrow> (errno option, 's) vop" where
  "vfs_unmount W name s =
     (case find_mount name s of
        None \<Rightarrow> Some (Some E_NO_DEV, s)
      | Some i \<Rightarrow>
          (case dev_fs (vdev_list s ! i) of
             None \<Rightarrow> Some (Some E_INVAL, s)
           | Some fs \<Rightarrow> do {
               (r, s) \<leftarrow> fs_sync W fs s;
               if r \<noteq> None then Some (r, s)
               else do {
                 (r, s) \<leftarrow> fs_unmount W fs s;
                 Some (r, if r = None then set_dev_fs i None s else s) } }))"

text \<open>The loop of \<open>vfs_unmount_all\<close> from the entry \<open>i\<close> on; errors only print a warning.\<close>

fun unmount_from :: "'s vfs_world \<Rightarrow> nat list \<Rightarrow> 's vfs \<Rightarrow> 's vfs option" where
  "unmount_from W [] s = Some s"
| "unmount_from W (i # is) s =
     (case (if mountable (vdev_list s ! i) then dev_fs (vdev_list s ! i) else None) of
        None \<Rightarrow> unmount_from W is s
      | Some fs \<Rightarrow> do {
          (r, s) \<leftarrow> fs_sync W fs s;
          if r \<noteq> None then unmount_from W is s
          else do {
            (r, s) \<leftarrow> fs_unmount W fs s;
            unmount_from W is (if r = None then set_dev_fs i None s else s) } })"

definition vfs_unmount_all :: "'s vfs_world \<Rightarrow> 's vfs \<Rightarrow> 's vfs option" where
  "vfs_unmount_all W s = unmount_from W [0..<length (vdev_list s)] s"

section \<open>The current directory and the boot file system\<close>

text \<open>\<open>vfs_get_curdir\<close> and \<open>vfs_set_curdir\<close> have the directory of the calling process,
  \<open>filesp->pwd\<close>, as their argument; the second returns the new one.\<close>

definition vfs_get_curdir :: "nat option \<Rightarrow> (errno + nat, 's) vop" where
  "vfs_get_curdir pwd s =
     (case pwd of None \<Rightarrow> Some (Inl E_NOENT, s) | Some node \<Rightarrow> Some (Inr node, inode_ref_inc node s))"

definition vfs_set_curdir :: "'s vfs_world \<Rightarrow> nat option \<Rightarrow> nat option \<Rightarrow> (errno option \<times> nat option, 's) vop" where
  "vfs_set_curdir W pwd dir s =
     (if pwd = dir then Some ((None, pwd), s)
      else do {
        (r, s) \<leftarrow> (case dir of
                     None \<Rightarrow> Some (None, s)
                   | Some d \<Rightarrow> do {
                       f \<leftarrow> vop_op W d vop_gettype s;
                       (r, s) \<leftarrow> f d s;
                       (case r of
                          Inl e \<Rightarrow> Some (Some e, s)
                        | Inr type \<Rightarrow> if S_ISDIR type then Some (None, inode_ref_inc d s) else Some (Some E_NOTDIR, s)) });
        if r \<noteq> None then Some ((r, pwd), s)
        else do {
          s \<leftarrow> (case pwd of None \<Rightarrow> Some s | Some old \<Rightarrow> inode_ref_dec W old s);
          Some ((None, dir), s) } })"

definition vfs_get_bootfs :: "(errno + nat, 's) vop" where
  "vfs_get_bootfs s =
     (case bootfs_node s of
        None \<Rightarrow> Some (Inl E_NOENT, s)
      | Some node \<Rightarrow> Some (Inr node, inode_ref_inc node s))"

definition change_bootfs :: "'s vfs_world \<Rightarrow> nat option \<Rightarrow> 's vfs \<Rightarrow> 's vfs option" where
  "change_bootfs W node s =
     (let old = bootfs_node s; s = s\<lparr>bootfs_node := node\<rparr>
      in case old of None \<Rightarrow> Some s | Some n \<Rightarrow> inode_ref_dec W n s)"

section \<open>Path lookup: \<open>vfslookup.c\<close>\<close>

definition colon :: u8 where "colon = 0x3A"
definition slash :: u8 where "slash = 0x2F"

text \<open>
  \<open>get_device\<close> returns the rest of the path and the inode to start from, and the path as it leaves
  it: a device name is cut off with a zero byte in the place of its colon.
\<close>

definition get_device :: "'s vfs_world \<Rightarrow> nat option \<Rightarrow> path \<Rightarrow> (path \<times> path \<times> (errno + nat), 's) vop" where
  "get_device W pwd path s =
     (let n = length (takeWhile (\<lambda>c. c \<noteq> colon \<and> c \<noteq> slash) path);
          is_colon = (n < length path \<and> path ! n = colon);
          is_slash = (n < length path \<and> path ! n = slash)
      in if \<not> is_colon \<and> \<not> (is_slash \<and> n = 0)
         then do { (r, s) \<leftarrow> vfs_get_curdir pwd s; Some ((path, path, r), s) }
         else if is_colon \<and> n > 0
         then do { (r, s) \<leftarrow> vfs_get_root W (take n path) s;
                   Some ((take n path, dropWhile (\<lambda>c. c = slash) (drop (n + 1) path), r), s) }
         else let sub = dropWhile (\<lambda>c. c = slash) (tl path)
              in if hd path = slash
                 then do { (r, s) \<leftarrow> vfs_get_bootfs s; Some ((path, sub, r), s) }
                 else do {
                   (r, s) \<leftarrow> vfs_get_curdir pwd s;
                   (case r of
                      Inl e \<Rightarrow> Some ((path, sub, Inl e), s)
                    | Inr node \<Rightarrow> do {
                        fs \<leftarrow> in_fs W node;
                        (root, s) \<leftarrow> fs_get_root W fs s;
                        s \<leftarrow> inode_ref_dec W node s;
                        Some ((path, sub, Inr root), s) }) })"

text \<open>The path that is left goes back to the caller too.\<close>

definition vfs_lookup :: "'s vfs_world \<Rightarrow> nat option \<Rightarrow> path \<Rightarrow> (path \<times> (errno + nat), 's) vop" where
  "vfs_lookup W pwd path s = do {
     ((path, sub, r), s) \<leftarrow> get_device W pwd path s;
     (case r of
        Inl e \<Rightarrow> Some ((path, Inl e), s)
      | Inr node \<Rightarrow>
          if sub \<noteq> []
          then do {
            f \<leftarrow> vop_op W node vop_lookup s;
            (r, s) \<leftarrow> f node sub s;
            s \<leftarrow> inode_ref_dec W node s;
            Some ((path, r), s) }
          else Some ((path, Inr node), s)) }"

definition vfs_lookup_parent :: "'s vfs_world \<Rightarrow> nat option \<Rightarrow> path \<Rightarrow> (path \<times> (errno + nat), 's) vop" where
  "vfs_lookup_parent W pwd path s = do {
     ((_, sub, r), s) \<leftarrow> get_device W pwd path s;
     Some ((sub, r), s) }"

definition vfs_chdir :: "'s vfs_world \<Rightarrow> nat option \<Rightarrow> path \<Rightarrow> (errno option \<times> nat option, 's) vop" where
  "vfs_chdir W pwd path s = do {
     ((_, r), s) \<leftarrow> vfs_lookup W pwd path s;
     (case r of
        Inl e \<Rightarrow> Some ((Some e, pwd), s)
      | Inr node \<Rightarrow> do {
          ((r, pwd), s) \<leftarrow> vfs_set_curdir W pwd (Some node) s;
          s \<leftarrow> inode_ref_dec W node s;
          Some ((r, pwd), s) }) }"

text \<open>\<open>vfs_set_bootfs\<close> wants a name that ends at its first colon.\<close>

definition vfs_set_bootfs :: "'s vfs_world \<Rightarrow> nat option \<Rightarrow> path option \<Rightarrow> (errno option \<times> nat option, 's) vop" where
  "vfs_set_bootfs W pwd fsname s =
     (case fsname of
        None \<Rightarrow> do { s \<leftarrow> change_bootfs W None s; Some ((None, pwd), s) }
      | Some name \<Rightarrow>
          if dropWhile (\<lambda>c. c \<noteq> colon) name \<noteq> [colon] then Some ((Some E_INVAL, pwd), s)
          else do {
            ((r, pwd), s) \<leftarrow> vfs_chdir W pwd name s;
            if r \<noteq> None then Some ((r, pwd), s)
            else do {
              (r, s) \<leftarrow> vfs_get_curdir pwd s;
              (case r of
                 Inl e \<Rightarrow> Some ((Some e, pwd), s)
               | Inr node \<Rightarrow> do { s \<leftarrow> change_bootfs W (Some node) s; Some ((None, pwd), s) }) } })"

section \<open>Opening and closing: \<open>vfsfile.c\<close>\<close>

text \<open>
  \<open>vfs_open\<close> in two steps: the inode of the path, which is looked up or created, and its opening.
  The code compares the error of the lookup with the number -16, which is \<open>-E_NOENT\<close>. It does not
  look at the error of \<open>vop_create\<close> but goes on with an inode pointer that nothing has set: that
  is \<open>None\<close>.
\<close>

definition open_find :: "'s vfs_world \<Rightarrow> nat option \<Rightarrow> path \<Rightarrow> u32 \<Rightarrow> (errno + nat, 's) vop" where
  "open_find W pwd path open_flags s =
     (let excl = (open_flags AND O_EXCL \<noteq> 0); create = (open_flags AND O_CREAT \<noteq> 0)
      in do {
        ((path, r), s) \<leftarrow> vfs_lookup W pwd path s;
        (case r of
           Inl e \<Rightarrow>
             if e = E_NOENT \<and> create
             then do {
               ((name, r), s) \<leftarrow> vfs_lookup_parent W pwd path s;
               (case r of
                  Inl e \<Rightarrow> Some (Inl e, s)
                | Inr dir \<Rightarrow> do {
                    f \<leftarrow> vop_op W dir vop_create s;
                    (r, s) \<leftarrow> f dir name excl s;
                    (case r of Inl e \<Rightarrow> None | Inr node \<Rightarrow> Some (Inr node, s)) }) }
             else Some (Inl e, s)
         | Inr node \<Rightarrow> if excl \<and> create then Some (Inl E_EXISTS, s) else Some (Inr node, s)) })"

definition open_node :: "'s vfs_world \<Rightarrow> nat \<Rightarrow> u32 \<Rightarrow> (errno + nat, 's) vop" where
  "open_node W node open_flags s = do {
     f \<leftarrow> vop_op W node vop_open s;
     (r, s) \<leftarrow> f node open_flags s;
     (case r of
        Some e \<Rightarrow> do { s \<leftarrow> inode_ref_dec W node s; Some (Inl e, s) }
      | None \<Rightarrow>
          let s = inode_open_inc node s
          in if open_flags AND O_TRUNC \<noteq> 0 \<or> open_flags AND O_CREAT \<noteq> 0
             then do {
               f \<leftarrow> vop_op W node vop_truncate s;
               (r, s) \<leftarrow> f node 0 s;
               (case r of
                  Some e \<Rightarrow> do { s \<leftarrow> inode_open_dec W node s; s \<leftarrow> inode_ref_dec W node s; Some (Inl e, s) }
                | None \<Rightarrow> Some (Inr node, s)) }
             else Some (Inr node, s)) }"

definition vfs_open :: "'s vfs_world \<Rightarrow> nat option \<Rightarrow> path \<Rightarrow> u32 \<Rightarrow> (errno + nat, 's) vop" where
  "vfs_open W pwd path open_flags s =
     (let acc = open_flags AND O_ACCMODE; can_write = (acc = O_WRONLY \<or> acc = O_RDWR)
      in if acc \<noteq> O_RDONLY \<and> \<not> can_write then Some (Inl E_INVAL, s)
         else if open_flags AND O_TRUNC \<noteq> 0 \<and> \<not> can_write then Some (Inl E_INVAL, s)
         else do {
           (r, s) \<leftarrow> open_find W pwd path open_flags s;
           (case r of Inl e \<Rightarrow> Some (Inl e, s) | Inr node \<Rightarrow> open_node W node open_flags s) })"

definition vfs_close :: "'s vfs_world \<Rightarrow> nat \<Rightarrow> 's vfs \<Rightarrow> 's vfs option" where
  "vfs_close W node s = do { s \<leftarrow> inode_open_dec W node s; inode_ref_dec W node s }"

end
