(* ===== verification/Sfs_Dir.thy ===== *)
theory Sfs_Dir
  imports Sfs_Props Vfs
begin

text \<open>
  Inodes on the disk and directories: the rest of the operations of \<open>lab8/kern/fs/sfs/sfs_inode.c\<close> that
  work on one inode. A directory has one entry per block: 4 bytes of inode number and a name of 256 bytes.
  Names and paths are lists of bytes without the final zero. Whether a \<open>kmalloc\<close> succeeds is a flag.
\<close>

section \<open>Inodes as bytes\<close>

definition SFS_TYPE_LINK :: u16 where "SFS_TYPE_LINK = 3"

definition S_IFLNK :: u32 where "S_IFLNK = 0x3000"

definition din_bytes :: "sfs_disk_inode \<Rightarrow> u8 list" where
  "din_bytes d = le32 (di_size d) @ le16 (di_type d) @ le16 (di_nlinks d) @ le32 (di_blocks d)
     @ concat (map le32 (di_direct d)) @ le32 (di_indirect d)"

definition DIN_SIZE :: nat where "DIN_SIZE = 64"

definition din_of :: "u8 list \<Rightarrow> sfs_disk_inode" where
  "din_of bs = \<lparr>di_size = rd32 bs, di_type = rd16 (drop 4 bs), di_nlinks = rd16 (drop 6 bs),
     di_blocks = rd32 (drop 8 bs), di_direct = map (\<lambda>k. rd32 (drop (12 + 4 * k) bs)) [0..<12],
     di_indirect = rd32 (drop 60 bs)\<rparr>"

definition sfs_fsync :: "sfs_inode \<Rightarrow> sfs_fs \<Rightarrow> (errno option \<times> sfs_inode \<times> sfs_fs) option" where
  "sfs_fsync sin s =
     (if sin_dirty sin
      then map_option (\<lambda>(r, s). (r, sin\<lparr>sin_dirty := (r \<noteq> None)\<rparr>, s)) (sfs_wbuf (din_bytes (din sin)) (sin_ino sin) 0 s)
      else Some (None, sin, s))"

definition sfs_gettype :: "sfs_inode \<Rightarrow> u32 option" where
  "sfs_gettype sin =
     (if di_type (din sin) = SFS_TYPE_DIR then Some S_IFDIR
      else if di_type (din sin) = SFS_TYPE_FILE then Some S_IFREG
      else if di_type (din sin) = SFS_TYPE_LINK then Some S_IFLNK
      else None)"

section \<open>Entries of a directory\<close>

record sfs_disk_entry =
  de_ino :: u32
  de_name :: "u8 list"

definition DENTRY_SIZE :: nat where "DENTRY_SIZE = 260"

definition sfs_dentry_size :: nat where "sfs_dentry_size = 256"

definition entry_of :: "u8 list \<Rightarrow> sfs_disk_entry" where
  "entry_of bs = \<lparr>de_ino = rd32 bs, de_name = (drop 4 bs)[SFS_MAX_FNAME_LEN := 0]\<rparr>"

definition entry_name :: "sfs_disk_entry \<Rightarrow> path" where
  "entry_name e = takeWhile (\<lambda>c. c \<noteq> 0) (de_name e)"

definition sfs_dirent_read_nolock ::
    "sfs_inode \<Rightarrow> int \<Rightarrow> sfs_fs \<Rightarrow> ((errno + sfs_disk_entry) \<times> sfs_inode \<times> sfs_fs) option" where
  "sfs_dirent_read_nolock sin slot s =
     (if \<not> (di_type (din sin) = SFS_TYPE_DIR \<and> slot \<ge> 0 \<and> word_of_int slot < di_blocks (din sin)) then None
      else (case sfs_bmap_load_nolock sin (word_of_int slot) s of
              None \<Rightarrow> None
            | Some (Inl e, sin, s) \<Rightarrow> Some (Inl e, sin, s)
            | Some (Inr ino, sin, s) \<Rightarrow>
                if sfs_block_inuse s ino \<noteq> Some True then None
                else (case sfs_rbuf DENTRY_SIZE ino 0 s of
                        None \<Rightarrow> None
                      | Some (Inl e, s) \<Rightarrow> Some (Inl e, sin, s)
                      | Some (Inr bs, s) \<Rightarrow> Some (Inr (entry_of bs), sin, s))))"

text \<open>\<open>nslots\<close> is an \<open>int\<close>.\<close>

definition nslots :: "sfs_inode \<Rightarrow> nat" where
  "nslots sin = nat (sint (di_blocks (din sin)))"

text \<open>The loop from slot \<open>i\<close>, with the number of slots left; the result has the inode number and the slot
  of the entry, and the value at \<open>empty_slot\<close>.\<close>

fun dirent_search_loop ::
    "path \<Rightarrow> nat \<Rightarrow> nat \<Rightarrow> int \<Rightarrow> sfs_inode \<Rightarrow> sfs_fs \<Rightarrow> ((errno + u32 \<times> int) \<times> int \<times> sfs_inode \<times> sfs_fs) option" where
  "dirent_search_loop name 0 i eslot sin s = Some (Inl E_NOENT, eslot, sin, s)"
| "dirent_search_loop name (Suc k) i eslot sin s =
     (case sfs_dirent_read_nolock sin (int i) s of
        None \<Rightarrow> None
      | Some (Inl e, sin, s) \<Rightarrow> Some (Inl e, eslot, sin, s)
      | Some (Inr en, sin, s) \<Rightarrow>
          if de_ino en = 0 then dirent_search_loop name k (i + 1) (int i) sin s
          else if name = entry_name en then Some (Inr (de_ino en, int i), eslot, sin, s)
          else dirent_search_loop name k (i + 1) eslot sin s)"

definition sfs_dirent_search_nolock ::
    "bool \<Rightarrow> sfs_inode \<Rightarrow> path \<Rightarrow> sfs_fs \<Rightarrow> ((errno + u32 \<times> int) \<times> int option \<times> sfs_inode \<times> sfs_fs) option" where
  "sfs_dirent_search_nolock km sin name s =
     (if \<not> length name \<le> SFS_MAX_FNAME_LEN then None
      else if \<not> km then Some (Inl E_NO_MEM, None, sin, s)
      else map_option (\<lambda>(r, eslot, sin, s). (r, Some eslot, sin, s))
             (dirent_search_loop name (nslots sin) 0 (int (nslots sin)) sin s))"

fun findino_loop :: "u32 \<Rightarrow> nat \<Rightarrow> nat \<Rightarrow> sfs_inode \<Rightarrow> sfs_fs \<Rightarrow> ((errno + sfs_disk_entry) \<times> sfs_inode \<times> sfs_fs) option" where
  "findino_loop ino 0 i sin s = Some (Inl E_NOENT, sin, s)"
| "findino_loop ino (Suc k) i sin s =
     (case sfs_dirent_read_nolock sin (int i) s of
        None \<Rightarrow> None
      | Some (Inl e, sin, s) \<Rightarrow> Some (Inl e, sin, s)
      | Some (Inr en, sin, s) \<Rightarrow> if de_ino en = ino then Some (Inr en, sin, s) else findino_loop ino k (i + 1) sin s)"

definition sfs_dirent_findino_nolock ::
    "sfs_inode \<Rightarrow> u32 \<Rightarrow> sfs_fs \<Rightarrow> ((errno + sfs_disk_entry) \<times> sfs_inode \<times> sfs_fs) option" where
  "sfs_dirent_findino_nolock sin ino s = findino_loop ino (nslots sin) 0 sin s"

fun getdirentry_loop :: "nat \<Rightarrow> nat \<Rightarrow> nat \<Rightarrow> sfs_inode \<Rightarrow> sfs_fs \<Rightarrow> ((errno + sfs_disk_entry) \<times> sfs_inode \<times> sfs_fs) option" where
  "getdirentry_loop slot 0 i sin s = Some (Inl E_NOENT, sin, s)"
| "getdirentry_loop slot (Suc k) i sin s =
     (case sfs_dirent_read_nolock sin (int i) s of
        None \<Rightarrow> None
      | Some (Inl e, sin, s) \<Rightarrow> Some (Inl e, sin, s)
      | Some (Inr en, sin, s) \<Rightarrow>
          if de_ino en \<noteq> 0
          then (if slot = 0 then Some (Inr en, sin, s) else getdirentry_loop (slot - 1) k (i + 1) sin s)
          else getdirentry_loop slot k (i + 1) sin s)"

definition sfs_getdirentry_sub_nolock ::
    "sfs_inode \<Rightarrow> nat \<Rightarrow> sfs_fs \<Rightarrow> ((errno + sfs_disk_entry) \<times> sfs_inode \<times> sfs_fs) option" where
  "sfs_getdirentry_sub_nolock sin slot s = getdirentry_loop slot (nslots sin) 0 sin s"

text \<open>The entry is copied from the memory of the file system's caller, at \<open>entry\<close>.\<close>

definition sfs_getdirentry ::
    "nat option \<Rightarrow> sfs_inode \<Rightarrow> iobuf \<Rightarrow> sfs_fs \<Rightarrow> (errno option \<times> iobuf \<times> sfs_inode \<times> sfs_fs) option" where
  "sfs_getdirentry km sin iob s =
     (case km of
        None \<Rightarrow> Some (Some E_NO_MEM, iob, sin, s)
      | Some entry \<Rightarrow>
          if io_offset iob < 0 \<or> io_offset iob mod int sfs_dentry_size \<noteq> 0 then Some (Some E_INVAL, iob, sin, s)
          else let slot = sint (word_of_int (io_offset iob div int sfs_dentry_size) :: u32)
               in if (word_of_int slot :: u32) > di_blocks (din sin) then Some (Some E_NOENT, iob, sin, s)
                  else (case sfs_getdirentry_sub_nolock sin (nat slot) s of
                          None \<Rightarrow> None
                        | Some (Inl e, sin, s) \<Rightarrow> Some (Some e, iob, sin, s)
                        | Some (Inr en, sin, s) \<Rightarrow>
                            (case iobuf_move iob (entry + 4) sfs_dentry_size True (put_bytes (entry + 4) (de_name en) (kbytes s)) of
                               None \<Rightarrow> None
                             | Some (r, _, iob, m) \<Rightarrow> Some (r, iob, sin, s\<lparr>kbytes := m\<rparr>))))"

section \<open>Opening, reading and writing\<close>

definition sfs_opendir :: "u32 \<Rightarrow> errno option" where
  "sfs_opendir open_flags =
     (if open_flags AND O_ACCMODE \<noteq> O_RDONLY then Some E_ISDIR
      else if open_flags AND O_APPEND \<noteq> 0 then Some E_ISDIR
      else None)"

definition sfs_openfile :: "u32 \<Rightarrow> errno option" where
  "sfs_openfile open_flags = None"

text \<open>\<open>sfs_io_nolock\<close> as it is in the repository: the part that transfers the data is an exercise left
  eslot, so that the number of bytes transferred, the second result, is always 0. The end position is
  computed in 64 bits.\<close>

definition sfs_io_nolock ::
    "int \<Rightarrow> nat \<Rightarrow> bool \<Rightarrow> sfs_inode \<Rightarrow> (errno option \<times> nat \<times> sfs_inode) option" where
  "sfs_io_nolock offset alen wrt sin =
     (if di_type (din sin) = SFS_TYPE_DIR then None
      else let endpos = sint (word_of_int (offset + int alen) :: u64)
           in if offset < 0 \<or> offset \<ge> SFS_MAX_FILE_SIZE \<or> offset > endpos then Some (Some E_INVAL, 0, sin)
              else if offset = endpos then Some (None, 0, sin)
              else if \<not> wrt \<and> offset \<ge> uint (di_size (din sin)) then Some (None, 0, sin)
              else let alen = 0
                   in Some (None, alen,
                        (if offset + int alen > uint (di_size (din sin))
                         then (set_din (\<lambda>d. d\<lparr>di_size := word_of_int (offset + int alen)\<rparr>) sin)\<lparr>sin_dirty := True\<rparr>
                         else sin)))"

definition sfs_io :: "bool \<Rightarrow> sfs_inode \<Rightarrow> iobuf \<Rightarrow> (errno option \<times> iobuf \<times> sfs_inode) option" where
  "sfs_io wrt sin iob =
     (case sfs_io_nolock (io_offset iob) (io_resid iob) wrt sin of
        None \<Rightarrow> None
      | Some (r, alen, sin) \<Rightarrow>
          if alen \<noteq> 0 then map_option (\<lambda>iob. (r, iob, sin)) (iobuf_skip alen iob) else Some (r, iob, sin))"

definition sfs_fstat :: "sfs_inode \<Rightarrow> stat option" where
  "sfs_fstat sin =
     map_option (\<lambda>mode. \<lparr>st_mode = mode, st_nlinks = unat (di_nlinks (din sin)),
         st_blocks = unat (di_blocks (din sin)), st_size = unat (di_size (din sin))\<rparr>) (sfs_gettype sin)"

text \<open>\<open>trunc\<close> is \<open>vop_truncate\<close> of the inode.\<close>

definition sfs_tryseek ::
    "(int \<Rightarrow> (errno option \<times> sfs_inode \<times> sfs_fs) option) \<Rightarrow> int \<Rightarrow> sfs_inode \<Rightarrow> sfs_fs
      \<Rightarrow> (errno option \<times> sfs_inode \<times> sfs_fs) option" where
  "sfs_tryseek trunc pos sin s =
     (if pos < 0 \<or> pos \<ge> SFS_MAX_FILE_SIZE then Some (Some E_INVAL, sin, s)
      else if pos > uint (di_size (din sin)) then trunc pos
      else Some (None, sin, s))"

end
