(* ===== verification/Sfs_Dir_Props.thy ===== *)
theory Sfs_Dir_Props
  imports Sfs_Dir
begin

text \<open>What searching and listing a directory finds, and that an inode is read back as it was written.\<close>

section \<open>The entries of a directory\<close>

definition dirents :: "sfs_fs \<Rightarrow> sfs_disk_inode \<Rightarrow> sfs_disk_entry list" where
  "dirents s d = map (\<lambda>k. entry_of (bytes_at s (unat (bmap_of s d k)) 0 DENTRY_SIZE)) [0..<unat (di_blocks d)]"

lemma length_dirents [simp]: "length (dirents s d) = unat (di_blocks d)"
  by (simp add: dirents_def)

definition dir_ok :: "sfs_fs \<Rightarrow> sfs_disk_inode \<Rightarrow> bool" where
  "dir_ok s d \<longleftrightarrow> fs_ok s \<and> file_ok s d \<and> di_type d = SFS_TYPE_DIR"

text \<open>\<open>t\<close> comes from \<open>s\<close> by reading.\<close>

definition only_read :: "sfs_fs \<Rightarrow> sfs_fs \<Rightarrow> bool" where
  "only_read s t \<longleftrightarrow> fs_step {} s t \<and> frees t = frees s"

lemma only_read_refl: "fs_ok s \<Longrightarrow> only_read s s"
  by (simp add: only_read_def fs_step_refl)

lemma only_read_trans: "only_read s t \<Longrightarrow> only_read t u \<Longrightarrow> only_read s u"
  using fs_step_trans [of "{}" s t "{}" u] by (simp add: only_read_def)

lemma only_read_file:
  assumes "only_read s t" "file_ok s d" "k < max_blocks"
  shows "bmap_of t d k = bmap_of s d k"
  using map_ok_step(2) [of s d "{}" t k] assms by (simp add: only_read_def file_ok_def)

lemma only_read_dir:
  assumes "only_read s t" "dir_ok s d"
  shows "dir_ok t d" "dirents t d = dirents s d"
proof -
  have f: "file_ok s d" using assms(2) by (simp add: dir_ok_def)
  note b = only_read_file [OF assms(1) f]
  have "map_ok t d" using map_ok_step(1) [of s d "{}" t] assms(1) f by (simp add: only_read_def file_ok_def)
  with b f show "dir_ok t d" using assms by (simp add: dir_ok_def file_ok_def only_read_def fs_step_def)
  have "bytes_at t n 0 DENTRY_SIZE = bytes_at s n 0 DENTRY_SIZE" for n
    using assms(1) by (intro bytes_at_cong) (simp add: only_read_def fs_step_def DENTRY_SIZE_def)
  with b f show "dirents t d = dirents s d" by (auto simp: dirents_def file_ok_def)
qed

lemma nslots_eq:
  assumes "file_ok s (din sin)"
  shows "nslots sin = unat (di_blocks (din sin))"
proof -
  let ?u = "uint (di_blocks (din sin))"
  have "unat (di_blocks (din sin)) \<le> 1036" using assms by (simp add: file_ok_def max_blocks_eq)
  moreover have "?u = int (unat (di_blocks (din sin)))" by (rule uint_nat)
  ultimately have "?u \<le> 1036" by linarith
  then have "?u < 2 ^ 31" by simp
  moreover have "- (2 ^ 31) \<le> ?u" by (rule order.trans [of _ 0]) simp_all
  ultimately have "signed_take_bit 31 ?u = ?u" by (simp add: signed_take_bit_int_eq_self_iff)
  then show ?thesis by (simp add: nslots_def sint_uint)
qed

lemma dirent_read_ok:
  assumes "dir_ok s (din sin)" "i < unat (di_blocks (din sin))"
  shows "\<exists>t. sfs_dirent_read_nolock sin (int i) s = Some (Inr (dirents s (din sin) ! i), sin, t) \<and> only_read s t"
proof -
  let ?w = "word_of_nat i :: u32" and ?b = "bmap_of s (din sin) i"
  have f: "fs_ok s" "file_ok s (din sin)" "di_type (din sin) = SFS_TYPE_DIR" using assms(1) by (auto simp: dir_ok_def)
  then have "i < 2 ^ 32" using assms(2) by (simp add: file_ok_def max_blocks_eq)
  then have w: "unat ?w = i" "?w < di_blocks (din sin)"
    using assms(2) by (simp_all add: unat_of_nat take_bit_nat_eq_self word_less_nat_alt)
  obtain t where t: "sfs_bmap_load_nolock sin ?w s = Some (Inr ?b, sin, t)" "only_read s t"
    using load_inside [OF f(1,2) w(2)] w(1) by (auto simp: only_read_def)
  have b: "Sfs_Map.in_fs s ?b" using file_in_fs [OF f(2), of i] assms(2) by simp
  then have bt: "Sfs_Map.in_fs t ?b" "fs_ok t" using t(2) by (auto simp: Sfs_Map.in_fs_def only_read_def fs_step_def)
  then obtain u where u: "sfs_rbuf DENTRY_SIZE ?b 0 t = Some (Inr (bytes_at t (unat ?b) 0 DENTRY_SIZE), u)"
    "same_fs t u" "dimage u = dimage t"
    using sfs_rbuf_ok [of t ?b 0 DENTRY_SIZE] in_fs_less [OF bt(1)] by (auto simp: fs_ok_def DENTRY_SIZE_def)
  have "only_read t u" using same_fs_step [OF bt(2) u(2), of "{}"] u(3) by (simp add: only_read_def block_at_def)
  moreover have "entry_of (bytes_at t (unat ?b) 0 DENTRY_SIZE) = dirents s (din sin) ! i"
  proof -
    have "dirents t (din sin) ! i = entry_of (bytes_at t (unat (bmap_of t (din sin) i)) 0 DENTRY_SIZE)"
      using assms(2) by (simp add: dirents_def)
    then show ?thesis
      using only_read_dir(2) [OF t(2) assms(1)] only_read_file [OF t(2) f(2), of i] assms(2) f(2) by (simp add: file_ok_def)
  qed
  ultimately show ?thesis
    using t u(1) w(2) f(3) in_fs_inuse [OF bt(2,1)] only_read_trans
    by (auto simp: sfs_dirent_read_nolock_def)
qed

section \<open>Searching\<close>

text \<open>The slots of the entries that name \<open>name\<close>, and the last free one of the first \<open>n\<close>.\<close>

definition matches :: "path \<Rightarrow> sfs_disk_entry \<Rightarrow> bool" where
  "matches name e \<longleftrightarrow> de_ino e \<noteq> 0 \<and> entry_name e = name"

lemma search_loop_ok:
  assumes "dir_ok s (din sin)" "i + k = unat (di_blocks (din sin))"
  shows "\<exists>r es t. dirent_search_loop name k i es0 sin s = Some (r, es, sin, t) \<and> only_read s t \<and>
    (case find (\<lambda>j. matches name (dirents s (din sin) ! j)) [i..<i + k] of
       None \<Rightarrow> r = Inl E_NOENT
     | Some j \<Rightarrow> r = Inr (de_ino (dirents s (din sin) ! j), int j))"
  using assms
proof (induction k arbitrary: i es0 s)
  case 0
  then show ?case using only_read_refl by (auto simp: dir_ok_def)
next
  case (Suc k)
  let ?e = "dirents s (din sin) ! i"
  obtain t where t: "sfs_dirent_read_nolock sin (int i) s = Some (Inr ?e, sin, t)" "only_read s t"
    using dirent_read_ok [OF Suc.prems(1), of i] Suc.prems(2) by auto
  note dt = only_read_dir [OF t(2) Suc.prems(1)]
  have u: "[i..<i + Suc k] = i # [i + 1..<i + 1 + k]" by (simp add: upt_conv_Cons)
  show ?case
  proof (cases "matches name ?e")
    case True
    then show ?thesis using t unfolding u by (auto simp: matches_def)
  next
    case False
    have "\<exists>es1. dirent_search_loop name (Suc k) i es0 sin s = dirent_search_loop name k (i + 1) es1 sin t"
      using t(1) False by (auto simp: matches_def)
    then obtain es1 where l: "dirent_search_loop name (Suc k) i es0 sin s = dirent_search_loop name k (i + 1) es1 sin t" by blast
    from Suc.IH [OF dt(1), of "i + 1" es1] Suc.prems(2) obtain r es v where
      v: "dirent_search_loop name k (i + 1) es1 sin t = Some (r, es, sin, v)" "only_read t v"
        "case find (\<lambda>j. matches name (dirents s (din sin) ! j)) [i + 1..<i + 1 + k] of
           None \<Rightarrow> r = Inl E_NOENT | Some j \<Rightarrow> r = Inr (de_ino (dirents s (din sin) ! j), int j)"
      unfolding dt(2) by auto
    then show ?thesis
      unfolding l u using False only_read_trans [OF t(2)] by (intro exI [of _ r] exI [of _ es] exI [of _ v]) simp
  qed
qed

lemma dirent_search_ok:
  assumes "dir_ok s (din sin)" "length name \<le> SFS_MAX_FNAME_LEN"
  shows "\<exists>r es t. sfs_dirent_search_nolock True sin name s = Some (r, es, sin, t) \<and> only_read s t \<and>
    (r = Inl E_NOENT \<and> (\<forall>e \<in> set (dirents s (din sin)). \<not> matches name e)
     \<or> (\<exists>j < length (dirents s (din sin)). r = Inr (de_ino (dirents s (din sin) ! j), int j)
          \<and> matches name (dirents s (din sin) ! j) \<and> (\<forall>i<j. \<not> matches name (dirents s (din sin) ! i))))"
proof -
  have n: "nslots sin = unat (di_blocks (din sin))" using assms(1) nslots_eq by (auto simp: dir_ok_def)
  let ?f = "find (\<lambda>j. matches name (dirents s (din sin) ! j)) [0..<nslots sin]"
  obtain r es t where l: "dirent_search_loop name (nslots sin) 0 (int (nslots sin)) sin s = Some (r, es, sin, t)" "only_read s t"
    "case ?f of None \<Rightarrow> r = Inl E_NOENT | Some j \<Rightarrow> r = Inr (de_ino (dirents s (din sin) ! j), int j)"
    using search_loop_ok [OF assms(1), of 0 "nslots sin" name "int (nslots sin)"] n by auto
  have d: "sfs_dirent_search_nolock True sin name s = Some (r, Some es, sin, t)"
    using l(1) assms(2) by (simp add: sfs_dirent_search_nolock_def)
  show ?thesis
  proof (cases ?f)
    case None
    then have "\<forall>e \<in> set (dirents s (din sin)). \<not> matches name e"
      by (auto simp: find_None_iff in_set_conv_nth n)
    with d l None show ?thesis by auto
  next
    case (Some j)
    then have "j < unat (di_blocks (din sin))" "matches name (dirents s (din sin) ! j)" "\<forall>i<j. \<not> matches name (dirents s (din sin) ! i)"
      by (auto simp: find_Some_iff n)
    moreover have "r = Inr (de_ino (dirents s (din sin) ! j), int j)" using l(3) Some by simp
    ultimately show ?thesis using d l(2) by auto
  qed
qed

text \<open>C32: searching a directory finds the first entry that is in use and has the name, and returns its inode
  number and slot; when there is none it reports \<open>E_NOENT\<close>. Nothing on the disk changes and no assertion
  fails for names of up to 255 bytes.\<close>

theorem dirent_search_finds:
  assumes "dir_ok s (din sin)" "length name \<le> SFS_MAX_FNAME_LEN"
  shows "\<exists>r es t. sfs_dirent_search_nolock True sin name s = Some (r, es, sin, t) \<and> only_read s t \<and>
    (r = Inl E_NOENT \<and> (\<forall>e \<in> set (dirents s (din sin)). \<not> matches name e)
     \<or> (\<exists>j < length (dirents s (din sin)). r = Inr (de_ino (dirents s (din sin) ! j), int j)
          \<and> matches name (dirents s (din sin) ! j) \<and> (\<forall>i<j. \<not> matches name (dirents s (din sin) ! i))))"
  using assms by (rule dirent_search_ok)

text \<open>A directory of one entry, the file \<open>a\<close> with inode number 3.\<close>

definition demo_dir_fs :: sfs_fs where
  "demo_dir_fs = demo_sfs\<lparr>dimage := (\<lambda>a. if a = 4 * 4096 then 3 else if a = 4 * 4096 + 4 then 0x61 else 0)\<rparr>"

definition demo_dir :: sfs_inode where
  "demo_dir = \<lparr>din = \<lparr>di_size = 256, di_type = SFS_TYPE_DIR, di_nlinks = 1, di_blocks = 1,
     di_direct = 4 # replicate 11 0, di_indirect = 0\<rparr>, sin_ino = 1, sin_dirty = False\<rparr>"

lemma fs_ok_demo_dir: "fs_ok demo_dir_fs"
proof -
  have "frees demo_dir_fs = frees demo_sfs" by (simp add: frees_def demo_dir_fs_def)
  moreover have "freemap demo_dir_fs = freemap demo_sfs" "super demo_dir_fs = super demo_sfs" "io_ok demo_dir_fs = io_ok demo_sfs"
    by (simp_all add: demo_dir_fs_def io_ok_def disk_ok_def)
  ultimately show ?thesis using fs_ok_demo by (simp add: fs_ok_def nblocks_def)
qed

lemma demo_direct: "(4 # replicate 11 0 :: u32 list) ! k = (if k = 0 then 4 else 0)" if "k < 12"
  using that by (cases k) auto

lemma dir_ok_demo: "dir_ok demo_dir_fs (din demo_dir)"
proof -
  have b: "bmap_of demo_dir_fs (din demo_dir) k = (if k = 0 then 4 else 0)" if "k < max_blocks" for k
    using that demo_direct by (simp add: bmap_of_def demo_dir_def)
  have "frees demo_dir_fs = {5, 6, 7}" using frees_demo by (simp add: frees_def demo_dir_fs_def)
  then have "Sfs_Map.in_fs demo_dir_fs 4"
    by (simp add: Sfs_Map.in_fs_def nblocks_def demo_dir_fs_def demo_sfs_def)
  moreover have "length (di_direct (din demo_dir)) = 12" "di_indirect (din demo_dir) = 0"
    "unat (di_blocks (din demo_dir)) = 1" "di_type (din demo_dir) = SFS_TYPE_DIR" by (simp_all add: demo_dir_def)
  ultimately show ?thesis
    using fs_ok_demo_dir b by (simp add: dir_ok_def file_ok_def map_ok_def max_blocks_eq)
qed

lemma demo_dirents: "map (\<lambda>e. (de_ino e, entry_name e)) (dirents demo_dir_fs (din demo_dir)) = [(3, [0x61])]"
proof -
  let ?bs = "map (\<lambda>k. if k = 0 then 3 else if k = 4 then 0x61 else 0) [0..<260] :: u8 list"
  have "bytes_at demo_dir_fs 4 0 260 = ?bs" by (auto simp: bytes_at_def block_at_def demo_dir_fs_def)
  moreover have "de_ino (entry_of ?bs) = 3" "entry_name (entry_of ?bs) = [0x61]" by code_simp+
  ultimately show ?thesis by (simp add: dirents_def demo_dir_def bmap_of_def DENTRY_SIZE_def)
qed

theorem dirent_search_finds_witness:
  "\<exists>es t. sfs_dirent_search_nolock True demo_dir [0x61] demo_dir_fs = Some (Inr (3, 0), es, demo_dir, t)"
proof -
  have "length (dirents demo_dir_fs (din demo_dir)) = 1" by (simp add: demo_dir_def)
  then obtain e where d: "dirents demo_dir_fs (din demo_dir) = [e]" by (metis One_nat_def length_0_conv length_Suc_conv)
  then have e: "de_ino e = 3" "entry_name e = [0x61]" using demo_dirents by simp_all
  have "length [0x61 :: u8] \<le> SFS_MAX_FNAME_LEN" by (simp add: SFS_MAX_FNAME_LEN_def)
  from dirent_search_finds [OF dir_ok_demo this] show ?thesis
    unfolding d using e by (auto simp: matches_def)
qed

text \<open>The length of the name is only asserted.\<close>

lemma long_name_panics: "SFS_MAX_FNAME_LEN < length name \<Longrightarrow> sfs_dirent_search_nolock km sin name s = None"
  by (simp add: sfs_dirent_search_nolock_def)

section \<open>Listing\<close>

lemma getdirentry_loop_ok:
  assumes "dir_ok s (din sin)" "i + k = unat (di_blocks (din sin))"
  shows "\<exists>t. getdirentry_loop slot k i sin s =
      Some (let es = filter (\<lambda>e. de_ino e \<noteq> 0) (drop i (dirents s (din sin)))
            in if slot < length es then Inr (es ! slot) else Inl E_NOENT, sin, t) \<and> only_read s t"
  using assms
proof (induction k arbitrary: i slot s)
  case 0
  then show ?case using only_read_refl by (auto simp: dir_ok_def)
next
  case (Suc k)
  let ?e = "dirents s (din sin) ! i"
  obtain t where t: "sfs_dirent_read_nolock sin (int i) s = Some (Inr ?e, sin, t)" "only_read s t"
    using dirent_read_ok [OF Suc.prems(1), of i] Suc.prems(2) by auto
  note dt = only_read_dir [OF t(2) Suc.prems(1)]
  have dr: "drop i (dirents s (din sin)) = ?e # drop (i + 1) (dirents s (din sin))"
    using Suc.prems(2) by (simp add: Cons_nth_drop_Suc)
  have ih: "\<exists>v. getdirentry_loop m k (i + 1) sin t =
      Some (let es = filter (\<lambda>e. de_ino e \<noteq> 0) (drop (i + 1) (dirents s (din sin)))
            in if m < length es then Inr (es ! m) else Inl E_NOENT, sin, v) \<and> only_read s v" for m
    using Suc.IH [OF dt(1), of "i + 1" m] Suc.prems(2) only_read_trans [OF t(2)] unfolding dt(2) by auto
  show ?case
  proof (cases "de_ino ?e \<noteq> 0 \<and> slot \<noteq> 0")
    case True
    then obtain m where "slot = Suc m" by (cases slot) auto
    with True ih [of m] t show ?thesis unfolding dr by (auto simp: Let_def)
  next
    case False
    with ih [of slot] t show ?thesis by (cases "de_ino ?e = 0") (auto simp: dr Let_def)
  qed
qed

text \<open>The listing numbers the entries in use from 0.\<close>

lemma getdirentry_sub_ok:
  assumes "dir_ok s (din sin)"
  shows "\<exists>t. sfs_getdirentry_sub_nolock sin slot s =
      Some (let es = filter (\<lambda>e. de_ino e \<noteq> 0) (dirents s (din sin))
            in if slot < length es then Inr (es ! slot) else Inl E_NOENT, sin, t) \<and> only_read s t"
proof -
  have "nslots sin = unat (di_blocks (din sin))" by (rule nslots_eq [of s]) (use assms in \<open>simp add: dir_ok_def\<close>)
  then show ?thesis
    using getdirentry_loop_ok [OF assms, of 0 "nslots sin" slot] by (simp add: sfs_getdirentry_sub_nolock_def)
qed

section \<open>Transfers\<close>

text \<open>A read or write of a file moves no byte; a write behind the end still changes the length.\<close>

lemma write_moves_nothing:
  "sfs_io_nolock offset n wrt sin = Some (r, k, sin') \<Longrightarrow> k = 0"
  "sfs_io wrt sin iob = Some (r, iob', sin') \<Longrightarrow> iob' = iob"
  by (auto simp: sfs_io_nolock_def sfs_io_def Let_def split: if_splits option.splits)

lemma write_behind_end:
  assumes "di_type (din sin) \<noteq> SFS_TYPE_DIR" "uint (di_size (din sin)) < offset" "offset < SFS_MAX_FILE_SIZE"
    and "0 < n" "n \<le> 2 ^ 32"
  shows "\<exists>sin'. sfs_io_nolock offset n True sin = Some (None, 0, sin') \<and> di_size (din sin') = word_of_int offset
    \<and> di_blocks (din sin') = di_blocks (din sin)"
proof -
  have "int n \<le> 4294967296" "offset < 134217728" using assms(3,5) by (simp_all add: SFS_MAX_FILE_SIZE_def)
  moreover have "0 \<le> offset" by (rule order.trans [OF uint_ge_0 less_imp_le [OF assms(2)]])
  ultimately have o: "0 \<le> offset" "offset + int n < 2 ^ 63" by simp_all
  have "signed_take_bit 63 (offset + int n) = offset + int n" by (rule signed_take_bit_int_eq_self) (use o in simp_all)
  then have "sint (word_of_int (offset + int n) :: u64) = offset + int n" by (subst signed_of_int) simp
  then show ?thesis using assms o by (simp add: sfs_io_nolock_def set_din_def)
qed

section \<open>Inodes on the disk\<close>

lemma rd_append [simp]: "rd32 (le32 w @ bs) = w" "rd16 (le16 h @ bs) = h"
proof -
  have "rd32 (le32 w @ bs) = rd32 (le32 w)" "rd16 (le16 h @ bs) = rd16 (le16 h)" by (simp_all add: rd32_def rd16_def le32_def le16_def)
  then show "rd32 (le32 w @ bs) = w" "rd16 (le16 h @ bs) = h" by simp_all
qed

lemma rd32_concat: "k < length ws \<Longrightarrow> rd32 (drop (4 * k) (concat (map le32 ws) @ bs)) = ws ! k"
proof (induction ws arbitrary: k)
  case (Cons w ws)
  show ?case
  proof (cases k)
    case (Suc j)
    then have "drop (4 * k) (concat (map le32 (w # ws)) @ bs) = drop (4 * j) (concat (map le32 ws) @ bs)" by simp
    with Cons Suc show ?thesis by simp
  qed simp
qed simp

lemma length_concat_le32 [simp]: "length (concat (map le32 ws)) = 4 * length ws"
  by (induction ws) simp_all

lemma din_round_trip:
  assumes "length (di_direct d) = 12"
  shows "din_of (din_bytes d) = d" "length (din_bytes d) = DIN_SIZE"
proof -
  let ?t = "concat (map le32 (di_direct d)) @ le32 (di_indirect d)"
  have dr: "drop 4 (din_bytes d) = le16 (di_type d) @ le16 (di_nlinks d) @ le32 (di_blocks d) @ ?t"
    "drop 6 (din_bytes d) = le16 (di_nlinks d) @ le32 (di_blocks d) @ ?t"
    "drop 8 (din_bytes d) = le32 (di_blocks d) @ ?t" "drop (12 + k) (din_bytes d) = drop k ?t"
    "drop 60 (din_bytes d) = le32 (di_indirect d)" for k
    using assms by (simp_all add: din_bytes_def)
  have "map (\<lambda>k. rd32 (drop (12 + 4 * k) (din_bytes d))) [0..<12] = di_direct d"
    using assms by (intro nth_equalityI) (simp_all add: dr(4) rd32_concat del: drop_append)
  moreover have "rd32 (din_bytes d) = di_size d" by (simp add: din_bytes_def)
  ultimately show "din_of (din_bytes d) = d" by (simp add: din_of_def dr(1-3,5))
  show "length (din_bytes d) = DIN_SIZE" using assms by (simp add: din_bytes_def DIN_SIZE_def)
qed

text \<open>After \<open>sfs_fsync\<close> the block of the inode starts with its bytes, and nothing else has changed.\<close>

lemma sfs_fsync_writes:
  assumes "fs_ok s" "Sfs_Map.in_fs s (sin_ino sin)" "length (di_direct (din sin)) = 12" "sin_dirty sin"
  shows "\<exists>t. sfs_fsync sin s = Some (None, sin\<lparr>sin_dirty := False\<rparr>, t) \<and> fs_step {unat (sin_ino sin)} s t
    \<and> frees t = frees s \<and> same_fs s t \<and> bytes_at t (unat (sin_ino sin)) 0 DIN_SIZE = din_bytes (din sin)"
proof -
  let ?b = "sin_ino sin" and ?bs = "din_bytes (din sin)"
  have io: "io_ok s" using assms(1) by (simp add: fs_ok_def)
  have l: "length ?bs = 64" using din_round_trip(2) [OF assms(3)] by (simp add: DIN_SIZE_def)
  then obtain t where t: "sfs_wbuf ?bs ?b 0 s = Some (None, t)" "same_fs s t"
    "\<forall>a<4096. block_at t (unat ?b) a = (if a < 64 then ?bs ! a else block_at s (unat ?b) a)"
    "\<forall>n a. n \<noteq> unat ?b \<and> a < 4096 \<longrightarrow> block_at t n a = block_at s n a"
    using sfs_wbuf_ok [OF io, of ?b 0 ?bs] in_fs_less [OF assms(2)] by auto
  have "bytes_at t (unat ?b) 0 (length ?bs) = ?bs" using t(3) l by (intro bytes_at_written) simp_all
  moreover have "fs_step {unat ?b} s t" "frees t = frees s"
    using same_fs_step [OF assms(1) t(2), of "{unat ?b}"] t(4) by auto
  ultimately show ?thesis using t(1,2) assms(4) l by (auto simp: sfs_fsync_def DIN_SIZE_def)
qed

end
