(* ===== verification/Sfs_Mount.thy ===== *)
theory Sfs_Mount
  imports Sfs_Dir_Props Proc_Table
begin

text \<open>
  A mounted file system: the inodes in memory of \<open>lab8/kern/fs/sfs/sfs_inode.c\<close> (loading, looking up by
  name, reclaiming), its two tables of functions for the layer above, and \<open>lab8/kern/fs/sfs/sfs_fs.c\<close>.

  An inode is an address; \<open>sins\<close> has what is in memory at it. The list of the inodes and the lists of the
  hash table are lists of addresses. \<open>km\<close> is the kernel heap as this code sees it: what the \<open>n\<close>-th call of
  \<open>kmalloc\<close> returns while the inodes at a set of addresses are in memory. A call through the table of an
  inode (\<open>vop_fsync\<close>, \<open>vop_truncate\<close>) is the function of its type, after the consistency check.
\<close>

section \<open>State\<close>

record sfs_mnt =
  mfs :: sfs_fs
  sins :: "nat \<Rightarrow> sfs_inode option"
  reclaim_count :: "nat \<Rightarrow> int"
  inode_list :: "nat list"
  hash_lists :: "nat \<Rightarrow> nat list"
  kcalls :: nat

type_synonym kalloc = "nat \<Rightarrow> nat set \<Rightarrow> nat option"

text \<open>\<open>upd_info\<close> changes the private part of the state.\<close>

definition upd_info :: "('s \<Rightarrow> 's) \<Rightarrow> 's vfs \<Rightarrow> 's vfs" where
  "upd_info f s = s\<lparr>vinfo := f (vinfo s)\<rparr>"

definition kmalloc_mnt :: "kalloc \<Rightarrow> (nat option, sfs_mnt) vop" where
  "kmalloc_mnt km s =
     Some (km (kcalls (vinfo s)) (set (inode_list (vinfo s))), upd_info (\<lambda>m. m\<lparr>kcalls := kcalls m + 1\<rparr>) s)"

text \<open>Running an operation on the inode at an address.\<close>

definition with_sin :: "(sfs_inode \<Rightarrow> sfs_fs \<Rightarrow> ('r \<times> sfs_inode \<times> sfs_fs) option) \<Rightarrow> nat \<Rightarrow> ('r, sfs_mnt) vop" where
  "with_sin f nd s = do {
     sin \<leftarrow> sins (vinfo s) nd;
     (r, sin, fs) \<leftarrow> f sin (mfs (vinfo s));
     Some (r, upd_info (\<lambda>m. m\<lparr>mfs := fs, sins := (sins m)(nd \<mapsto> sin)\<rparr>) s) }"

definition sfs_vop_fsync :: "nat \<Rightarrow> (errno option, sfs_mnt) vop" where
  "sfs_vop_fsync nd s = (if inode_check nd s then with_sin sfs_fsync nd s else None)"

definition sfs_vop_truncate :: "nat \<Rightarrow> int \<Rightarrow> (errno option, sfs_mnt) vop" where
  "sfs_vop_truncate nd len s =
     (if inode_check nd s \<and> map_option (di_type \<circ> din) (sins (vinfo s) nd) = Some SFS_TYPE_FILE
      then with_sin (sfs_truncfile len) nd s else None)"

definition sfs_vop_gettype :: "nat \<Rightarrow> (errno + u32, sfs_mnt) vop" where
  "sfs_vop_gettype nd s = do {
     sin \<leftarrow> sins (vinfo s) nd;
     t \<leftarrow> sfs_gettype sin;
     Some (Inr t, s) }"

section \<open>Inodes in memory\<close>

definition SFS_BLKN_ROOT :: u32 where "SFS_BLKN_ROOT = 1"

definition SFS_HLIST_SHIFT :: nat where "SFS_HLIST_SHIFT = 10"

definition sin_hashfn :: "u32 \<Rightarrow> nat" where
  "sin_hashfn x = unat (hash32 x SFS_HLIST_SHIFT)"

definition sfs_set_links :: "nat \<Rightarrow> u32 \<Rightarrow> sfs_mnt \<Rightarrow> sfs_mnt" where
  "sfs_set_links nd ino m =
     m\<lparr>inode_list := nd # inode_list m,
       hash_lists := (hash_lists m)(sin_hashfn ino := nd # hash_lists m (sin_hashfn ino))\<rparr>"

definition sfs_remove_links :: "nat \<Rightarrow> u32 \<Rightarrow> sfs_mnt \<Rightarrow> sfs_mnt" where
  "sfs_remove_links nd ino m =
     m\<lparr>inode_list := remove1 nd (inode_list m),
       hash_lists := (hash_lists m)(sin_hashfn ino := remove1 nd (hash_lists m (sin_hashfn ino)))\<rparr>"

text \<open>\<open>sfs_get_ops\<close> panics on any other type.\<close>

definition sfs_get_ops :: "'o \<Rightarrow> 'o \<Rightarrow> u16 \<Rightarrow> 'o option" where
  "sfs_get_ops dirops fileops type =
     (if type = SFS_TYPE_DIR then Some dirops else if type = SFS_TYPE_FILE then Some fileops else None)"

definition sfs_create_inode :: "kalloc \<Rightarrow> sfs_disk_inode \<Rightarrow> u32 \<Rightarrow> (errno + nat, sfs_mnt) vop" where
  "sfs_create_inode km d ino s = do {
     (r, s) \<leftarrow> kmalloc_mnt km s;
     (case r of
        None \<Rightarrow> Some (Inl E_NO_MEM, s)
      | Some nd \<Rightarrow> do {
          _ \<leftarrow> sfs_get_ops () () (di_type d);
          Some (Inr nd, upd_info (\<lambda>m. m\<lparr>sins := (sins m)(nd \<mapsto> \<lparr>din = d, sin_ino = ino, sin_dirty = False\<rparr>),
                                        reclaim_count := (reclaim_count m)(nd := 1)\<rparr>) (inode_init nd s)) }) }"

text \<open>The loop of \<open>lookup_sfs_nolock\<close>; following a link to an inode that has been freed is \<open>None\<close>.\<close>

fun find_ino :: "(nat \<Rightarrow> sfs_inode option) \<Rightarrow> u32 \<Rightarrow> nat list \<Rightarrow> nat option option" where
  "find_ino S ino [] = Some None"
| "find_ino S ino (nd # nds) =
     (case S nd of None \<Rightarrow> None | Some sin \<Rightarrow> if sin_ino sin = ino then Some (Some nd) else find_ino S ino nds)"

definition lookup_sfs_nolock :: "u32 \<Rightarrow> (nat option, sfs_mnt) vop" where
  "lookup_sfs_nolock ino s = do {
     r \<leftarrow> find_ino (sins (vinfo s)) ino (hash_lists (vinfo s) (sin_hashfn ino));
     (case r of
        None \<Rightarrow> Some (None, s)
      | Some nd \<Rightarrow>
          let s = inode_ref_inc nd s
          in Some (Some nd,
               if ref_count s nd = 1
               then upd_info (\<lambda>m. m\<lparr>reclaim_count := (reclaim_count m)(nd := reclaim_count m nd + 1)\<rparr>) s else s)) }"

text \<open>The part of \<open>sfs_load_inode\<close> that reads the inode from the disk, and its end.\<close>

definition load_enter :: "kalloc \<Rightarrow> u32 \<Rightarrow> sfs_disk_inode \<Rightarrow> (errno + nat, sfs_mnt) vop" where
  "load_enter km ino d s =
     (if di_nlinks d = 0 then None
      else do {
        (r, s) \<leftarrow> sfs_create_inode km d ino s;
        (case r of
           Inl e \<Rightarrow> Some (Inl e, s)
         | Inr nd \<Rightarrow> Some (Inr nd, upd_info (sfs_set_links nd ino) s)) })"

definition load_from_disk :: "kalloc \<Rightarrow> u32 \<Rightarrow> (errno + nat, sfs_mnt) vop" where
  "load_from_disk km ino s = do {
     (r, s) \<leftarrow> kmalloc_mnt km s;
     if r = None then Some (Inl E_NO_MEM, s)
     else if sfs_block_inuse (mfs (vinfo s)) ino \<noteq> Some True then None
     else do {
       (r, fs) \<leftarrow> sfs_rbuf DIN_SIZE ino 0 (mfs (vinfo s));
       let s = upd_info (\<lambda>m. m\<lparr>mfs := fs\<rparr>) s;
       (case r of Inl e \<Rightarrow> Some (Inl e, s) | Inr bs \<Rightarrow> load_enter km ino (din_of bs) s) } }"

definition sfs_load_inode :: "kalloc \<Rightarrow> u32 \<Rightarrow> (errno + nat, sfs_mnt) vop" where
  "sfs_load_inode km ino s = do {
     (r, s) \<leftarrow> lookup_sfs_nolock ino s;
     (case r of Some nd \<Rightarrow> Some (Inr nd, s) | None \<Rightarrow> load_from_disk km ino s) }"

text \<open>\<open>sfs_reclaim\<close> in two steps: what is written back, and what is freed.\<close>

definition reclaim_flush :: "nat \<Rightarrow> (errno option, sfs_mnt) vop" where
  "reclaim_flush nd s = do {
     sin \<leftarrow> sins (vinfo s) nd;
     (r, s) \<leftarrow> (if di_nlinks (din sin) = 0 then sfs_vop_truncate nd 0 s else Some (None, s));
     if r \<noteq> None then Some (r, s)
     else do {
       sin \<leftarrow> sins (vinfo s) nd;
       if sin_dirty sin then sfs_vop_fsync nd s else Some (None, s) } }"

definition reclaim_blocks :: "sfs_inode \<Rightarrow> sfs_fs \<Rightarrow> sfs_fs option" where
  "reclaim_blocks sin fs =
     (if di_nlinks (din sin) = 0
      then do { fs \<leftarrow> sfs_block_free (sin_ino sin) fs;
                if di_indirect (din sin) \<noteq> 0 then sfs_block_free (di_indirect (din sin)) fs else Some fs }
      else Some fs)"

definition reclaim_free :: "nat \<Rightarrow> (errno option, sfs_mnt) vop" where
  "reclaim_free nd s = do {
     sin \<leftarrow> sins (vinfo s) nd;
     let s = upd_info (sfs_remove_links nd (sin_ino sin)) s;
     fs \<leftarrow> reclaim_blocks sin (mfs (vinfo s));
     s \<leftarrow> inode_kill nd (upd_info (\<lambda>m. m\<lparr>mfs := fs\<rparr>) s);
     Some (None, upd_info (\<lambda>m. m\<lparr>sins := (sins m)(nd := None)\<rparr>) s) }"

definition sfs_reclaim :: "nat \<Rightarrow> (errno option, sfs_mnt) vop" where
  "sfs_reclaim nd s =
     (if \<not> (sins (vinfo s) nd \<noteq> None \<and> reclaim_count (vinfo s) nd > 0) then None
      else let s = upd_info (\<lambda>m. m\<lparr>reclaim_count := (reclaim_count m)(nd := reclaim_count m nd - 1)\<rparr>) s
           in if reclaim_count (vinfo s) nd \<noteq> 0 \<or> ref_count s nd \<noteq> 0 then Some (Some E_BUSY, s)
              else do {
                (r, s) \<leftarrow> reclaim_flush nd s;
                if r \<noteq> None then Some (r, s) else reclaim_free nd s })"

text \<open>The functions that drop a reference call no function of a table but \<open>vop_reclaim\<close>, which both
  tables have.\<close>

definition no_ops :: "'s inode_ops" where
  "no_ops = \<lparr>vop_open = None, vop_close = None, vop_read = None, vop_write = None, vop_fstat = None, vop_fsync = None,
     vop_namefile = None, vop_getdirentry = None, vop_reclaim = None, vop_gettype = None, vop_tryseek = None,
     vop_truncate = None, vop_create = None, vop_lookup = None\<rparr>"

definition sfs_base :: "sfs_mnt vfs_world" where
  "sfs_base = \<lparr>in_ops = (\<lambda>_ _. no_ops\<lparr>vop_reclaim := Some sfs_reclaim\<rparr>), in_fs = (\<lambda>_. None), is_device = (\<lambda>_. False),
     fs_get_root = (\<lambda>_ _. None), fs_sync = (\<lambda>_ _. None), fs_unmount = (\<lambda>_ _. None)\<rparr>"

section \<open>Looking up names\<close>

definition sfs_lookup_once :: "kalloc \<Rightarrow> nat \<Rightarrow> path \<Rightarrow> (errno + nat, sfs_mnt) vop" where
  "sfs_lookup_once km nd name s = do {
     (a, s) \<leftarrow> kmalloc_mnt km s;
     (r, s) \<leftarrow> with_sin (\<lambda>sin fs. map_option (\<lambda>(r, _, x). (r, x)) (sfs_dirent_search_nolock (a \<noteq> None) sin name fs)) nd s;
     (case r of Inl e \<Rightarrow> Some (Inl e, s) | Inr (ino, slot) \<Rightarrow> sfs_load_inode km ino s) }"

definition sfs_lookup :: "kalloc \<Rightarrow> nat \<Rightarrow> path \<Rightarrow> (errno + nat, sfs_mnt) vop" where
  "sfs_lookup km nd path s =
     (if path = [] \<or> hd path = slash then None
      else let s = inode_ref_inc nd s
           in do {
             sin \<leftarrow> sins (vinfo s) nd;
             if di_type (din sin) \<noteq> SFS_TYPE_DIR then do { s \<leftarrow> inode_ref_dec sfs_base nd s; Some (Inl E_NOTDIR, s) }
             else do {
               (r, s) \<leftarrow> sfs_lookup_once km nd path s;
               s \<leftarrow> inode_ref_dec sfs_base nd s;
               Some (r, s) } })"

text \<open>The loop of \<open>sfs_namefile\<close>: the names are put together from the end of the buffer. A failure has
  dropped the reference.\<close>

definition dotdot :: path where "dotdot = [0x2E, 0x2E]"

partial_function (option) namefile_loop :: "kalloc \<Rightarrow> nat \<Rightarrow> nat \<Rightarrow> nat \<Rightarrow> sfs_mnt vfs
    \<Rightarrow> ((errno + nat \<times> nat) \<times> sfs_mnt vfs) option" where
  "namefile_loop km nd ptr resid s =
     do {
       (r, s) \<leftarrow> sfs_lookup_once km nd dotdot s;
       (case r of
          Inl e \<Rightarrow> do { s \<leftarrow> inode_ref_dec sfs_base nd s; Some (Inl e, s) }
        | Inr par \<Rightarrow> do {
            sin \<leftarrow> sins (vinfo s) nd;
            s \<leftarrow> inode_ref_dec sfs_base nd s;
            if nd = par then do { s \<leftarrow> inode_ref_dec sfs_base nd s; Some (Inr (ptr, resid), s) }
            else do {
              psin \<leftarrow> sins (vinfo s) par;
              if sin_ino sin = sin_ino psin \<or> di_type (din psin) \<noteq> SFS_TYPE_DIR then None
              else do {
                (r, s) \<leftarrow> with_sin (\<lambda>sin' fs. sfs_dirent_findino_nolock sin' (sin_ino sin) fs) par s;
                (case r of
                   Inl e \<Rightarrow> do { s \<leftarrow> inode_ref_dec sfs_base par s; Some (Inl e, s) }
                 | Inr en \<Rightarrow>
                     let alen = length (entry_name en) + 1
                     in if alen > resid then do { s \<leftarrow> inode_ref_dec sfs_base par s; Some (Inl E_NO_MEM, s) }
                        else namefile_loop km par (ptr - alen) (resid - alen)
                               (upd_info (\<lambda>m. m\<lparr>mfs := (mfs m)\<lparr>kbytes :=
                                  put_bytes (ptr - alen) (entry_name en @ [slash]) (kbytes (mfs m))\<rparr>\<rparr>) s)) } } }) }"

definition sfs_namefile :: "kalloc \<Rightarrow> nat \<Rightarrow> iobuf \<Rightarrow> (errno option \<times> iobuf, sfs_mnt) vop" where
  "sfs_namefile km nd iob s =
     (if io_resid iob \<le> 2 then Some ((Some E_NO_MEM, iob), s)
      else do {
        (a, s) \<leftarrow> kmalloc_mnt km s;
        if a = None then Some ((Some E_NO_MEM, iob), s)
        else do {
          (r, s) \<leftarrow> namefile_loop km nd (io_base iob + io_resid iob) (io_resid iob - 2) (inode_ref_inc nd s);
          (case r of
             Inl e \<Rightarrow> Some ((Some e, iob), s)
           | Inr (ptr, resid) \<Rightarrow>
               let alen = io_resid iob - resid - 2; p = io_base iob + 1
               in do {
                 iob' \<leftarrow> iobuf_skip alen iob;
                 Some ((None, iob'),
                   upd_info (\<lambda>m. m\<lparr>mfs := (mfs m)\<lparr>kbytes :=
                     (memmove p ptr alen (kbytes (mfs m)))(p - 1 := slash, p + alen := 0)\<rparr>\<rparr>) s) }) } })"

end
