(* ===== verification/Sfs_Fs.thy ===== *)
theory Sfs_Fs
  imports Sfs_Mount
begin

text \<open>
  The function tables of \<open>lab8/kern/fs/sfs/sfs_inode.c\<close> as the layer above sees them, \<open>vfs_getcwd\<close> of
  \<open>vfspath.c\<close>, and synchronising, mounting and unmounting: \<open>lab8/kern/fs/sfs/sfs_fs.c\<close>.
\<close>

section \<open>The tables of directories and files\<close>

definition sfs_open :: "(u32 \<Rightarrow> errno option) \<Rightarrow> nat \<Rightarrow> u32 \<Rightarrow> (errno option, sfs_mnt) vop" where
  "sfs_open f nd open_flags s = Some (f open_flags, s)"

definition sfs_close :: "nat \<Rightarrow> (errno option, sfs_mnt) vop" where
  "sfs_close nd s = sfs_vop_fsync nd s"

definition ret_of :: "errno option \<Rightarrow> int" where
  "ret_of r = (case r of None \<Rightarrow> 0 | Some e \<Rightarrow> - errno_val e)"

definition sfs_rw :: "bool \<Rightarrow> nat \<Rightarrow> iobuf \<Rightarrow> (int \<times> iobuf, sfs_mnt) vop" where
  "sfs_rw wrt nd iob s =
     with_sin (\<lambda>sin fs. map_option (\<lambda>(r, iob, sin). ((ret_of r, iob), sin, fs)) (sfs_io wrt sin iob)) nd s"

definition sfs_vop_fstat :: "nat \<Rightarrow> (errno + stat, sfs_mnt) vop" where
  "sfs_vop_fstat nd s =
     (if inode_check nd s
      then do { sin \<leftarrow> sins (vinfo s) nd; st \<leftarrow> sfs_fstat sin; Some (Inr st, s) } else None)"

definition sfs_vop_getdirentry :: "kalloc \<Rightarrow> nat \<Rightarrow> iobuf \<Rightarrow> (errno option \<times> iobuf, sfs_mnt) vop" where
  "sfs_vop_getdirentry km nd iob s = do {
     (a, s) \<leftarrow> kmalloc_mnt km s;
     with_sin (\<lambda>sin fs. map_option (\<lambda>(r, iob, x). ((r, iob), x)) (sfs_getdirentry a sin iob fs)) nd s }"

definition sfs_vop_tryseek :: "nat \<Rightarrow> int \<Rightarrow> (errno option, sfs_mnt) vop" where
  "sfs_vop_tryseek nd pos s =
     (if pos < 0 \<or> pos \<ge> SFS_MAX_FILE_SIZE then Some (Some E_INVAL, s)
      else do {
        sin \<leftarrow> sins (vinfo s) nd;
        if pos > uint (di_size (din sin)) then sfs_vop_truncate nd pos s else Some (None, s) })"

definition sfs_node_dirops :: "kalloc \<Rightarrow> sfs_mnt inode_ops" where
  "sfs_node_dirops km =
     \<lparr>vop_open = Some (sfs_open sfs_opendir), vop_close = Some sfs_close, vop_read = None, vop_write = None,
      vop_fstat = Some sfs_vop_fstat, vop_fsync = Some (with_sin sfs_fsync), vop_namefile = Some (sfs_namefile km),
      vop_getdirentry = Some (sfs_vop_getdirentry km), vop_reclaim = Some sfs_reclaim, vop_gettype = Some sfs_vop_gettype,
      vop_tryseek = None, vop_truncate = None, vop_create = None, vop_lookup = Some (sfs_lookup km)\<rparr>"

definition sfs_node_fileops :: "sfs_mnt inode_ops" where
  "sfs_node_fileops =
     \<lparr>vop_open = Some (sfs_open sfs_openfile), vop_close = Some sfs_close, vop_read = Some (sfs_rw False),
      vop_write = Some (sfs_rw True), vop_fstat = Some sfs_vop_fstat, vop_fsync = Some (with_sin sfs_fsync),
      vop_namefile = None, vop_getdirentry = None, vop_reclaim = Some sfs_reclaim, vop_gettype = Some sfs_vop_gettype,
      vop_tryseek = Some sfs_vop_tryseek, vop_truncate = Some (\<lambda>nd len. with_sin (sfs_truncfile len) nd),
      vop_create = None, vop_lookup = None\<rparr>"

section \<open>Synchronising and unmounting\<close>

fun sync_inodes :: "nat list \<Rightarrow> sfs_mnt vfs \<Rightarrow> sfs_mnt vfs option" where
  "sync_inodes [] s = Some s"
| "sync_inodes (nd # nds) s = do { (_, s) \<leftarrow> sfs_vop_fsync nd s; sync_inodes nds s }"

definition sync_super_freemap :: "sfs_fs \<Rightarrow> (errno option \<times> sfs_fs) option" where
  "sync_super_freemap fs =
     (if super_dirty fs
      then do {
        (r, fs) \<leftarrow> sfs_sync_super (fs\<lparr>super_dirty := False\<rparr>);
        if r \<noteq> None then Some (r, fs\<lparr>super_dirty := True\<rparr>)
        else do {
          (r, fs) \<leftarrow> sfs_sync_freemap fs;
          Some (r, if r \<noteq> None then fs\<lparr>super_dirty := True\<rparr> else fs) } }
      else Some (None, fs))"

definition sfs_sync :: "(errno option, sfs_mnt) vop" where
  "sfs_sync s = do {
     s \<leftarrow> sync_inodes (inode_list (vinfo s)) s;
     (r, fs) \<leftarrow> sync_super_freemap (mfs (vinfo s));
     Some (r, upd_info (\<lambda>m. m\<lparr>mfs := fs\<rparr>) s) }"

definition sfs_get_root :: "kalloc \<Rightarrow> (nat, sfs_mnt) vop" where
  "sfs_get_root km s = do {
     (r, s) \<leftarrow> sfs_load_inode km SFS_BLKN_ROOT s;
     (case r of Inl e \<Rightarrow> None | Inr nd \<Rightarrow> Some (nd, s)) }"

definition sfs_unmount :: "(errno option, sfs_mnt) vop" where
  "sfs_unmount s =
     (if inode_list (vinfo s) \<noteq> [] then Some (Some E_BUSY, s)
      else if super_dirty (mfs (vinfo s)) then None
      else Some (None, s))"

fun cleanup_loop :: "nat \<Rightarrow> sfs_mnt vfs \<Rightarrow> sfs_mnt vfs option" where
  "cleanup_loop 0 s = Some s"
| "cleanup_loop (Suc i) s = do { (r, s) \<leftarrow> sfs_sync s; if r = None then Some s else cleanup_loop i s }"

definition sfs_cleanup :: "sfs_mnt vfs \<Rightarrow> sfs_mnt vfs option" where
  "sfs_cleanup s = cleanup_loop 32 s"

text \<open>A mounted file system as the layer above sees it; \<open>fs\<close> is its address.\<close>

definition sfs_world :: "kalloc \<Rightarrow> nat \<Rightarrow> sfs_mnt vfs_world" where
  "sfs_world km fs =
     \<lparr>in_ops = (\<lambda>nd s. case Option.bind (sins (vinfo s) nd) (\<lambda>sin. sfs_get_ops (sfs_node_dirops km) sfs_node_fileops (di_type (din sin))) of
                  None \<Rightarrow> no_ops | Some ops \<Rightarrow> ops),
      in_fs = (\<lambda>_. Some fs), is_device = (\<lambda>_. False), fs_get_root = (\<lambda>_. sfs_get_root km),
      fs_sync = (\<lambda>_. sfs_sync), fs_unmount = (\<lambda>_. sfs_unmount)\<rparr>"

section \<open>Mounting\<close>

definition SFS_MAGIC :: u32 where "SFS_MAGIC = 0x2f8dbe2a"

definition SFS_MAX_INFO_LEN :: nat where "SFS_MAX_INFO_LEN = 31"

definition SUPER_SIZE :: nat where "SUPER_SIZE = 44"

definition super_of :: "u8 list \<Rightarrow> sfs_super" where
  "super_of bs = \<lparr>sup_magic = rd32 bs, sup_blocks = rd32 (drop 4 bs), sup_unused = rd32 (drop 8 bs),
     sup_info = (take 32 (drop 12 bs))[SFS_MAX_INFO_LEN := 0]\<rparr>"

definition mem_bytes :: "nat \<Rightarrow> nat \<Rightarrow> bmem \<Rightarrow> u8 list" where
  "mem_bytes p n m = map (\<lambda>k. m (p + k)) [0..<n]"

definition words_of :: "nat \<Rightarrow> u8 list \<Rightarrow> u32 list" where
  "words_of n bs = map (\<lambda>k. rd32 (drop (4 * k) bs)) [0..<n]"

definition sfs_freemap_bits :: "sfs_super \<Rightarrow> u32" where
  "sfs_freemap_bits p = ucast ((ucast (sup_blocks p) + SFS_BLKBITS - 1) div SFS_BLKBITS * SFS_BLKBITS)"

definition sfs_init_read :: "u32 \<Rightarrow> nat \<Rightarrow> disk0 \<Rightarrow> (errno option \<times> disk0) option" where
  "sfs_init_read blkno buf d =
     map_option (\<lambda>(r, _, d). (r, d)) (disk0_io (iobuf_init buf SFS_BLKSIZE (uint (blkno * of_nat SFS_BLKSIZE))) False d)"

fun init_freemap_loop :: "u32 \<Rightarrow> nat \<Rightarrow> nat \<Rightarrow> disk0 \<Rightarrow> (errno option \<times> disk0) option" where
  "init_freemap_loop blkno 0 data d = Some (None, d)"
| "init_freemap_loop blkno (Suc n) data d = do {
     (r, d) \<leftarrow> sfs_init_read blkno data d;
     if r \<noteq> None then Some (r, d) else init_freemap_loop (blkno + 1) n (data + SFS_BLKSIZE) d }"

text \<open>The words of the bitmap are the memory at \<open>data\<close>.\<close>

definition sfs_init_freemap :: "bitmap \<Rightarrow> nat \<Rightarrow> u32 \<Rightarrow> nat \<Rightarrow> disk0 \<Rightarrow> ((errno + bitmap) \<times> disk0) option" where
  "sfs_init_freemap fm data blkno nblks d =
     (if snd (bitmap_getdata fm) \<noteq> nblks * SFS_BLKSIZE then None
      else do {
        (r, d) \<leftarrow> init_freemap_loop blkno nblks data d;
        Some (case r of Some e \<Rightarrow> Inl e
              | None \<Rightarrow> Inr (fm\<lparr>bmap := words_of (unat (nwords fm)) (mem_bytes data (nblks * SFS_BLKSIZE) (kbytes d))\<rparr>), d) })"

definition count_free :: "bitmap \<Rightarrow> nat \<Rightarrow> nat" where
  "count_free fm n = length (filter (\<lambda>i. bitmap_test fm (of_nat i) = Some True) [0..<n])"

text \<open>The part of \<open>sfs_do_mount\<close> after the superblock has been read and checked. \<open>kmap\<close> is the result of the
  \<open>kmalloc\<close> for the words of the bitmap, the flags tell whether the other two succeed.\<close>

definition mount_freemap :: "bool \<Rightarrow> bool \<Rightarrow> nat option \<Rightarrow> nat \<Rightarrow> sfs_super \<Rightarrow> disk0 \<Rightarrow> ((errno + sfs_mnt) \<times> disk0) option" where
  "mount_freemap khash kbm kmap buf sb d =
     (if \<not> khash then Some (Inl E_NO_MEM, d)
      else do {
        b \<leftarrow> bitmap_create kbm (kmap \<noteq> None) (sfs_freemap_bits sb);
        (case b of
           None \<Rightarrow> Some (Inl E_NO_MEM, d)
         | Some fm \<Rightarrow> do {
             (r, d) \<leftarrow> sfs_init_freemap fm (the kmap) SFS_BLKN_FREEMAP (unat (sfs_freemap_blocks sb)) d;
             (case r of
                Inl e \<Rightarrow> Some (Inl e, d)
              | Inr fm \<Rightarrow>
                  if of_nat (count_free fm (unat (sfs_freemap_bits sb))) \<noteq> sup_unused sb then None
                  else Some (Inr \<lparr>mfs = disk0.extend d \<lparr>super = sb, freemap = fm, freemap_data = the kmap,
                                                         super_dirty = False, sfs_buffer = buf\<rparr>,
                                 sins = (\<lambda>_. None), reclaim_count = (\<lambda>_. 0), inode_list = [], hash_lists = (\<lambda>_. []),
                                 kcalls = 0\<rparr>, d)) }) })"

definition sfs_do_mount ::
    "bool \<Rightarrow> nat option \<Rightarrow> bool \<Rightarrow> bool \<Rightarrow> nat option \<Rightarrow> nat \<Rightarrow> disk0 \<Rightarrow> ((errno + sfs_mnt) \<times> disk0) option" where
  "sfs_do_mount kfs kbuf khash kbm kmap blocksize d =
     (if blocksize \<noteq> SFS_BLKSIZE then Some (Inl E_NA_DEV, d)
      else if \<not> kfs then Some (Inl E_NO_MEM, d)
      else (case kbuf of
              None \<Rightarrow> Some (Inl E_NO_MEM, d)
            | Some buf \<Rightarrow> do {
                (r, d) \<leftarrow> sfs_init_read SFS_BLKN_SUPER buf d;
                (case r of
                   Some e \<Rightarrow> Some (Inl e, d)
                 | None \<Rightarrow>
                     let sb = super_of (mem_bytes buf SUPER_SIZE (kbytes d))
                     in if sup_magic sb \<noteq> SFS_MAGIC then Some (Inl E_INVAL, d)
                        else if unat (sup_blocks sb) > d_blocks d then Some (Inl E_INVAL, d)
                        else mount_freemap khash kbm kmap buf sb d) }))"

section \<open>The current directory as a path\<close>

text \<open>The name of the device lies at \<open>dn\<close> in memory, the variable \<open>colon\<close> at \<open>cl\<close>.\<close>

definition iob_put :: "nat \<Rightarrow> u8 list \<Rightarrow> iobuf \<Rightarrow> (errno option \<times> iobuf, sfs_mnt) vop" where
  "iob_put a bs iob s = do {
     (r, _, iob, mem) \<leftarrow> iobuf_move iob a (length bs) True (put_bytes a bs (kbytes (mfs (vinfo s))));
     Some ((r, iob), upd_info (\<lambda>m. m\<lparr>mfs := (mfs m)\<lparr>kbytes := mem\<rparr>\<rparr>) s) }"

definition vfs_getcwd :: "sfs_mnt vfs_world \<Rightarrow> nat \<Rightarrow> nat \<Rightarrow> nat option \<Rightarrow> iobuf \<Rightarrow> (errno option \<times> iobuf, sfs_mnt) vop" where
  "vfs_getcwd W dn cl pwd iob s = do {
     (r, s) \<leftarrow> vfs_get_curdir pwd s;
     (case r of
        Inl e \<Rightarrow> Some ((Some e, iob), s)
      | Inr nd \<Rightarrow> do {
          fs \<leftarrow> in_fs W nd;
          name \<leftarrow> vfs_get_devname fs s;
          ((r, iob), s) \<leftarrow> iob_put dn name iob s;
          ((r, iob), s) \<leftarrow> (if r \<noteq> None then Some ((r, iob), s) else iob_put cl [colon] iob s);
          ((r, iob), s) \<leftarrow> (if r \<noteq> None then Some ((r, iob), s)
                            else do { f \<leftarrow> vop_op W nd vop_namefile s; f nd iob s });
          s \<leftarrow> inode_ref_dec W nd s;
          Some ((r, iob), s) }) }"

end
