(* ===== verification/Sfs_Mount_Props.thy ===== *)
theory Sfs_Mount_Props
  imports Sfs_Fs
begin

text \<open>The inodes in memory: every inode of the disk is there at most once, and one that is dropped and loaded
  again is the same.\<close>

section \<open>Operations on an inode keep its number and type\<close>

named_theorems keeps_ino

definition same_id :: "sfs_inode \<Rightarrow> sfs_inode \<Rightarrow> bool" where
  "same_id sin sin' \<longleftrightarrow> sin_ino sin' = sin_ino sin \<and> di_type (din sin') = di_type (din sin)"

lemma same_id_refl [simp]: "same_id sin sin"
  by (simp add: same_id_def)

lemma same_id_trans: "same_id a b \<Longrightarrow> same_id b c \<Longrightarrow> same_id a c"
  by (simp add: same_id_def)

lemma bmap_out_keeps [keeps_ino]: "bmap_out ino sin s = Some (r, sin', t) \<Longrightarrow> same_id sin sin'"
  by (auto simp: bmap_out_def split: if_splits)

lemma bmap_get_keeps [keeps_ino]: "sfs_bmap_get_nolock sin index create s = Some (r, sin', t) \<Longrightarrow> same_id sin sin'"
  by (auto simp: sfs_bmap_get_nolock_def bmap_out_def Let_def same_id_def set_din_def split: if_splits option.splits sum.splits)

lemma bmap_load_keeps [keeps_ino]: "sfs_bmap_load_nolock sin index s = Some (r, sin', t) \<Longrightarrow> same_id sin sin'"
  by (auto simp: sfs_bmap_load_nolock_def Let_def same_id_def set_din_def split: if_splits option.splits sum.splits
      dest!: bmap_get_keeps)

lemma bmap_free_keeps [keeps_ino]: "sfs_bmap_free_nolock sin index s = Some (r, sin', t) \<Longrightarrow> same_id sin sin'"
  by (auto simp: sfs_bmap_free_nolock_def Let_def same_id_def set_din_def split: if_splits option.splits)

lemma bmap_truncate_keeps [keeps_ino]: "sfs_bmap_truncate_nolock sin s = Some (r, sin', t) \<Longrightarrow> same_id sin sin'"
  by (auto simp: sfs_bmap_truncate_nolock_def same_id_def set_din_def split: if_splits option.splits dest!: bmap_free_keeps)

lemma truncfile_grow_keeps: "truncfile_grow k n sin s = Some (r, sin', t) \<Longrightarrow> same_id sin sin'"
  by (induction k n sin s rule: truncfile_grow.induct)
     (auto split: option.splits sum.splits prod.splits dest: bmap_load_keeps intro: same_id_trans)

lemma truncfile_shrink_keeps: "truncfile_shrink k sin s = Some (r, sin', t) \<Longrightarrow> same_id sin sin'"
  by (induction k sin s rule: truncfile_shrink.induct)
     (auto split: option.splits prod.splits dest: bmap_truncate_keeps intro: same_id_trans)

lemma truncfile_keeps [keeps_ino]: "sfs_truncfile len sin s = Some (r, sin', t) \<Longrightarrow> same_id sin sin'"
proof -
  have l: "same_id a b" if "truncfile_loop n a fs = Some (r', b, fs')" for n a b fs r' fs'
    using that truncfile_grow_keeps truncfile_shrink_keeps by (auto simp: truncfile_loop_def split: if_splits)
  show "sfs_truncfile len sin s = Some (r, sin', t) \<Longrightarrow> same_id sin sin'"
    by (auto simp: sfs_truncfile_def Let_def set_din_def same_id_def split: if_splits option.splits dest!: l)
qed

lemma fsync_keeps [keeps_ino]: "sfs_fsync sin s = Some (r, sin', t) \<Longrightarrow> same_id sin sin'"
  by (auto simp: sfs_fsync_def same_id_def split: if_splits)

lemma io_keeps [keeps_ino]: "sfs_io wrt sin iob = Some (r, iob', sin') \<Longrightarrow> same_id sin sin'"
  by (auto simp: sfs_io_def sfs_io_nolock_def Let_def same_id_def set_din_def split: if_splits option.splits)

lemma dirent_read_keeps [keeps_ino]: "sfs_dirent_read_nolock sin slot s = Some (r, sin', t) \<Longrightarrow> same_id sin sin'"
  by (auto simp: sfs_dirent_read_nolock_def split: if_splits option.splits sum.splits prod.splits dest!: bmap_load_keeps)

lemma search_loop_keeps: "dirent_search_loop name k i es sin s = Some (r, es', sin', t) \<Longrightarrow> same_id sin sin'"
  by (induction name k i es sin s rule: dirent_search_loop.induct)
     (auto split: option.splits sum.splits prod.splits if_splits dest: dirent_read_keeps intro: same_id_trans)

lemma search_keeps [keeps_ino]: "sfs_dirent_search_nolock km sin name s = Some (r, es, sin', t) \<Longrightarrow> same_id sin sin'"
  by (auto simp: sfs_dirent_search_nolock_def split: if_splits dest: search_loop_keeps)

lemma findino_keeps [keeps_ino]: "sfs_dirent_findino_nolock sin ino s = Some (r, sin', t) \<Longrightarrow> same_id sin sin'"
proof -
  have "findino_loop ino k i sin s = Some (r, sin', t) \<Longrightarrow> same_id sin sin'" for k i
    by (induction ino k i sin s rule: findino_loop.induct)
       (auto split: option.splits sum.splits prod.splits if_splits dest: dirent_read_keeps intro: same_id_trans)
  then show "sfs_dirent_findino_nolock sin ino s = Some (r, sin', t) \<Longrightarrow> same_id sin sin'"
    by (auto simp: sfs_dirent_findino_nolock_def)
qed

lemma getdirentry_keeps [keeps_ino]: "sfs_getdirentry km sin iob s = Some (r, iob', sin', t) \<Longrightarrow> same_id sin sin'"
proof -
  have "getdirentry_loop slot k i sin s = Some (r, sin', t) \<Longrightarrow> same_id sin sin'" for slot k i r t
    by (induction slot k i sin s rule: getdirentry_loop.induct)
       (auto split: option.splits sum.splits prod.splits if_splits dest: dirent_read_keeps intro: same_id_trans)
  then show "sfs_getdirentry km sin iob s = Some (r, iob', sin', t) \<Longrightarrow> same_id sin sin'"
    by (auto simp: sfs_getdirentry_def sfs_getdirentry_sub_nolock_def Let_def split: if_splits option.splits sum.splits prod.splits)
qed

section \<open>The invariant of the inodes in memory\<close>

definition hashed :: "sfs_mnt \<Rightarrow> nat \<Rightarrow> nat \<Rightarrow> bool" where
  "hashed m h n \<longleftrightarrow> (\<exists>sin. sins m n = Some sin \<and> sin_hashfn (sin_ino sin) = h)"

definition links_ok :: "sfs_mnt \<Rightarrow> bool" where
  "links_ok m \<longleftrightarrow> distinct (inode_list m) \<and> (\<forall>n. n \<in> set (inode_list m) \<longleftrightarrow> sins m n \<noteq> None)
     \<and> (\<forall>h. distinct (hash_lists m h) \<and> (\<forall>n. n \<in> set (hash_lists m h) \<longleftrightarrow> hashed m h n))"

text \<open>Every inode of the disk is in memory at most once.\<close>

definition one_each :: "sfs_mnt \<Rightarrow> bool" where
  "one_each m \<longleftrightarrow> (\<forall>n n' sin sin'. sins m n = Some sin \<and> sins m n' = Some sin' \<and> sin_ino sin = sin_ino sin' \<longrightarrow> n = n')"

definition counts_ok :: "sfs_mnt vfs \<Rightarrow> bool" where
  "counts_ok s \<longleftrightarrow> (\<forall>n. sins (vinfo s) n \<noteq> None \<longrightarrow>
     0 \<le> ref_count s n \<and> reclaim_count (vinfo s) n = (if ref_count s n = 0 then 0 else 1))"

definition mnt_ok :: "sfs_mnt vfs \<Rightarrow> bool" where
  "mnt_ok s \<longleftrightarrow> links_ok (vinfo s) \<and> one_each (vinfo s) \<and> counts_ok s"

text \<open>The parts of the state that the invariant is about.\<close>

definition same_ids :: "sfs_mnt vfs \<Rightarrow> sfs_mnt vfs \<Rightarrow> bool" where
  "same_ids s t \<longleftrightarrow> inode_list (vinfo t) = inode_list (vinfo s) \<and> hash_lists (vinfo t) = hash_lists (vinfo s)
     \<and> reclaim_count (vinfo t) = reclaim_count (vinfo s) \<and> ref_count t = ref_count s
     \<and> map_option sin_ino \<circ> sins (vinfo t) = map_option sin_ino \<circ> sins (vinfo s)"

lemma same_ids_refl [simp]: "same_ids s s"
  by (simp add: same_ids_def)

lemma same_ids_trans: "same_ids s t \<Longrightarrow> same_ids t u \<Longrightarrow> same_ids s u"
  by (simp add: same_ids_def)

lemma same_ids_sins:
  assumes "same_ids s t"
  shows "sins (vinfo t) n = None \<longleftrightarrow> sins (vinfo s) n = None"
    and "sins (vinfo t) n = Some sin' \<Longrightarrow> \<exists>sin. sins (vinfo s) n = Some sin \<and> sin_ino sin = sin_ino sin'"
    and "sins (vinfo s) n = Some sin \<Longrightarrow> \<exists>sin'. sins (vinfo t) n = Some sin' \<and> sin_ino sin' = sin_ino sin"
proof -
  have "(map_option sin_ino \<circ> sins (vinfo t)) n = (map_option sin_ino \<circ> sins (vinfo s)) n"
    using assms by (simp add: same_ids_def)
  then have e: "map_option sin_ino (sins (vinfo t) n) = map_option sin_ino (sins (vinfo s) n)" by simp
  then show "sins (vinfo t) n = None \<longleftrightarrow> sins (vinfo s) n = None" by (metis map_option_is_None)
  show "sins (vinfo t) n = Some sin' \<Longrightarrow> \<exists>sin. sins (vinfo s) n = Some sin \<and> sin_ino sin = sin_ino sin'" using e by (cases "sins (vinfo s) n") auto
  show "sins (vinfo s) n = Some sin \<Longrightarrow> \<exists>sin'. sins (vinfo t) n = Some sin' \<and> sin_ino sin' = sin_ino sin" using e by (cases "sins (vinfo t) n") auto
qed

lemma same_ids_ok:
  assumes "same_ids s t" "mnt_ok s"
  shows "mnt_ok t"
proof -
  note i = same_ids_sins [OF assms(1)]
  have "hashed (vinfo t) h n \<longleftrightarrow> hashed (vinfo s) h n" for h n
    unfolding hashed_def using i(2,3) by (metis option.inject)
  moreover have "one_each (vinfo t)"
    unfolding one_each_def
  proof (intro allI impI)
    fix n n' sin sin'
    assume "sins (vinfo t) n = Some sin \<and> sins (vinfo t) n' = Some sin' \<and> sin_ino sin = sin_ino sin'"
    then obtain a b where "sins (vinfo s) n = Some a" "sins (vinfo s) n' = Some b" "sin_ino a = sin_ino b"
      using i(2) by metis
    then show "n = n'" using assms(2) by (auto simp: mnt_ok_def one_each_def)
  qed
  ultimately show ?thesis
    using assms i(1) by (simp add: mnt_ok_def links_ok_def counts_ok_def same_ids_def)
qed

section \<open>Steps that keep the identities\<close>

lemma kmalloc_mnt_ids:
  assumes "kmalloc_mnt km s = Some (r, t)"
  shows "same_ids s t" "r = km (kcalls (vinfo s)) (set (inode_list (vinfo s)))"
  using assms by (auto simp: kmalloc_mnt_def upd_info_def same_ids_def)

lemma with_sin_ids:
  assumes "with_sin f nd s = Some (r, t)"
    and "\<And>sin fs r sin' fs'. f sin fs = Some (r, sin', fs') \<Longrightarrow> same_id sin sin'"
  shows "same_ids s t"
proof -
  obtain sin r' sin' fs' where "sins (vinfo s) nd = Some sin" "f sin (mfs (vinfo s)) = Some (r', sin', fs')"
    "t = upd_info (\<lambda>m. m\<lparr>mfs := fs', sins := (sins m)(nd \<mapsto> sin')\<rparr>) s"
    using assms(1) by (auto simp: with_sin_def bind_eq_Some_conv)
  with assms(2) [of sin _ r' sin' fs'] show ?thesis by (auto simp: same_ids_def upd_info_def same_id_def fun_eq_iff)
qed

lemma upd_fs_ids: "(\<And>m. \<exists>x. f m = m\<lparr>mfs := x\<rparr>) \<Longrightarrow> same_ids s (upd_info f s)"
proof -
  assume "\<And>m. \<exists>x. f m = m\<lparr>mfs := x\<rparr>"
  then obtain x where "f (vinfo s) = (vinfo s)\<lparr>mfs := x\<rparr>" by blast
  then show ?thesis by (simp add: same_ids_def upd_info_def)
qed

lemma vop_fsync_ids: "sfs_vop_fsync nd s = Some (r, t) \<Longrightarrow> same_ids s t"
  by (auto simp: sfs_vop_fsync_def split: if_splits intro: with_sin_ids fsync_keeps)

lemma vop_truncate_ids: "sfs_vop_truncate nd len s = Some (r, t) \<Longrightarrow> same_ids s t"
  by (auto simp: sfs_vop_truncate_def split: if_splits intro: with_sin_ids truncfile_keeps)

lemma reclaim_flush_ids:
  assumes "reclaim_flush nd s = Some (r, t)"
  shows "same_ids s t"
proof -
  obtain sin where sin: "sins (vinfo s) nd = Some sin" using assms by (cases "sins (vinfo s) nd") (auto simp: reclaim_flush_def)
  define x where "x = (if di_nlinks (din sin) = 0 then sfs_vop_truncate nd 0 s else Some (None, s))"
  obtain r1 s1 where x: "x = Some (r1, s1)" using assms sin by (cases x) (auto simp: reclaim_flush_def x_def)
  have 1: "same_ids s s1" using x vop_truncate_ids by (auto simp: x_def split: if_splits)
  have "same_ids s1 t"
    using assms sin x vop_fsync_ids by (auto simp: reclaim_flush_def x_def bind_eq_Some_conv split: if_splits)
  with 1 show ?thesis by (rule same_ids_trans)
qed

section \<open>Loading an inode\<close>

lemma find_ino_eq: "\<forall>n \<in> set ns. S n \<noteq> None \<Longrightarrow> find_ino S ino ns = Some (find (\<lambda>n. sin_ino (the (S n)) = ino) ns)"
  by (induction ns) auto

definition loaded :: "sfs_mnt \<Rightarrow> u32 \<Rightarrow> nat \<Rightarrow> bool" where
  "loaded m ino n \<longleftrightarrow> (\<exists>sin. sins m n = Some sin \<and> sin_ino sin = ino)"

lemma find_ino_ok:
  assumes "links_ok m"
  shows "\<exists>r. find_ino (sins m) ino (hash_lists m (sin_hashfn ino)) = Some r
    \<and> (case r of None \<Rightarrow> \<forall>n. \<not> loaded m ino n | Some n \<Rightarrow> loaded m ino n)"
proof -
  let ?ns = "hash_lists m (sin_hashfn ino)" and ?P = "\<lambda>n. sin_ino (the (sins m n)) = ino"
  have h: "n \<in> set ?ns \<longleftrightarrow> hashed m (sin_hashfn ino) n" for n using assms by (simp add: links_ok_def)
  then have "\<forall>n \<in> set ?ns. sins m n \<noteq> None" by (auto simp: hashed_def)
  then have f: "find_ino (sins m) ino ?ns = Some (find ?P ?ns)" by (rule find_ino_eq)
  show ?thesis
  proof (cases "find ?P ?ns")
    case None
    then have "\<forall>n. \<not> loaded m ino n" using h by (auto simp: find_None_iff loaded_def hashed_def)
    with f None show ?thesis by simp
  next
    case (Some n)
    then have "n \<in> set ?ns" "?P n" by (auto simp: find_Some_iff)
    moreover from this(1) obtain sin where "sins m n = Some sin" using h [of n] by (auto simp: hashed_def)
    ultimately have "loaded m ino n" by (simp add: loaded_def)
    with f Some show ?thesis by simp
  qed
qed

text \<open>Counting a reference to an inode that is in memory.\<close>

definition counted :: "nat \<Rightarrow> sfs_mnt vfs \<Rightarrow> sfs_mnt vfs" where
  "counted nd s =
     (let s = inode_ref_inc nd s
      in if ref_count s nd = 1
         then upd_info (\<lambda>m. m\<lparr>reclaim_count := (reclaim_count m)(nd := reclaim_count m nd + 1)\<rparr>) s else s)"

lemma counted_ok:
  assumes "mnt_ok s"
  shows "mnt_ok (counted nd s)" "sins (vinfo (counted nd s)) = sins (vinfo s)" "0 < ref_count s nd \<Longrightarrow> counted nd s = inode_ref_inc nd s"
proof -
  have f: "sins (vinfo (counted nd s)) = sins (vinfo s)" "inode_list (vinfo (counted nd s)) = inode_list (vinfo s)"
    "hash_lists (vinfo (counted nd s)) = hash_lists (vinfo s)"
    "ref_count (counted nd s) = (ref_count s)(nd := ref_count s nd + 1)"
    "reclaim_count (vinfo (counted nd s)) n = reclaim_count (vinfo s) n + (if n = nd \<and> ref_count s nd = 0 then 1 else 0)" for n
    by (cases "ref_count s nd = 0"; simp add: counted_def inode_ref_inc_def upd_info_def)+
  show "sins (vinfo (counted nd s)) = sins (vinfo s)" by (rule f)
  have "links_ok (vinfo (counted nd s))" "one_each (vinfo (counted nd s))"
    using assms by (simp_all add: mnt_ok_def links_ok_def one_each_def hashed_def f)
  moreover have "counts_ok (counted nd s)" using assms by (auto simp: mnt_ok_def counts_ok_def f)
  ultimately show "mnt_ok (counted nd s)" by (simp add: mnt_ok_def)
  show "0 < ref_count s nd \<Longrightarrow> counted nd s = inode_ref_inc nd s" by (simp add: counted_def inode_ref_inc_def)
qed

lemma lookup_ok:
  assumes "mnt_ok s"
  shows "\<exists>r. lookup_sfs_nolock ino s = Some (r, case r of None \<Rightarrow> s | Some n \<Rightarrow> counted n s)
    \<and> (case r of None \<Rightarrow> \<forall>n. \<not> loaded (vinfo s) ino n | Some n \<Rightarrow> loaded (vinfo s) ino n)"
proof -
  have "links_ok (vinfo s)" using assms by (simp add: mnt_ok_def)
  then obtain r where r: "find_ino (sins (vinfo s)) ino (hash_lists (vinfo s) (sin_hashfn ino)) = Some r"
    "case r of None \<Rightarrow> \<forall>n. \<not> loaded (vinfo s) ino n | Some n \<Rightarrow> loaded (vinfo s) ino n"
    using find_ino_ok by blast
  then show ?thesis
    by (intro exI [of _ r]) (auto simp: lookup_sfs_nolock_def counted_def Let_def split: option.splits)
qed

definition added :: "nat \<Rightarrow> sfs_inode \<Rightarrow> sfs_mnt vfs \<Rightarrow> sfs_mnt vfs" where
  "added nd sin s = upd_info (sfs_set_links nd (sin_ino sin))
     (upd_info (\<lambda>m. m\<lparr>sins := (sins m)(nd \<mapsto> sin), reclaim_count := (reclaim_count m)(nd := 1)\<rparr>) (inode_init nd s))"

lemma added_ok:
  assumes "mnt_ok s" "sins (vinfo s) nd = None" "\<forall>n. \<not> loaded (vinfo s) (sin_ino sin) n"
  shows "mnt_ok (added nd sin s)" "sins (vinfo (added nd sin s)) = (sins (vinfo s))(nd \<mapsto> sin)"
proof -
  let ?t = "added nd sin s"
  show S: "sins (vinfo ?t) = (sins (vinfo s))(nd \<mapsto> sin)"
    by (simp add: added_def upd_info_def sfs_set_links_def inode_init_def)
  have il: "inode_list (vinfo ?t) = nd # inode_list (vinfo s)"
    "hash_lists (vinfo ?t) = (hash_lists (vinfo s))(sin_hashfn (sin_ino sin) := nd # hash_lists (vinfo s) (sin_hashfn (sin_ino sin)))"
    by (simp_all add: added_def upd_info_def sfs_set_links_def inode_init_def)
  have "nd \<notin> set (inode_list (vinfo s))" "\<And>h. nd \<notin> set (hash_lists (vinfo s) h)"
    using assms(1,2) by (auto simp: mnt_ok_def links_ok_def hashed_def)
  moreover have "hashed (vinfo ?t) h n \<longleftrightarrow> (if n = nd then h = sin_hashfn (sin_ino sin) else hashed (vinfo s) h n)" for h n
    by (auto simp: hashed_def S)
  ultimately have "links_ok (vinfo ?t)"
    using assms(1,2) by (auto simp: mnt_ok_def links_ok_def il S)
  moreover have "one_each (vinfo ?t)"
    unfolding one_each_def S
  proof (intro allI impI)
    fix n n' a b
    assume h: "((sins (vinfo s))(nd \<mapsto> sin)) n = Some a \<and> ((sins (vinfo s))(nd \<mapsto> sin)) n' = Some b \<and> sin_ino a = sin_ino b"
    have "sins (vinfo s) k = Some c \<Longrightarrow> sin_ino c \<noteq> sin_ino sin" for k c using assms(3) by (auto simp: loaded_def)
    moreover have "sins (vinfo s) n = Some a \<Longrightarrow> sins (vinfo s) n' = Some b \<Longrightarrow> n = n'"
      using h assms(1) by (auto simp: mnt_ok_def one_each_def)
    ultimately show "n = n'" using h by (auto split: if_splits)
  qed
  moreover have "counts_ok ?t"
    using assms(1,2) by (auto simp: mnt_ok_def counts_ok_def added_def upd_info_def sfs_set_links_def inode_init_def)
  ultimately show "mnt_ok ?t" by (simp add: mnt_ok_def)
qed

text \<open>The heap hands out no inode that is in memory.\<close>

definition heap_ok :: "kalloc \<Rightarrow> bool" where
  "heap_ok km \<longleftrightarrow> (\<forall>k L n. km k L = Some n \<longrightarrow> n \<notin> L)"

lemma load_from_disk_ok:
  assumes "load_from_disk km ino s = Some (r, t)" "mnt_ok s" "heap_ok km" "\<forall>n. \<not> loaded (vinfo s) ino n"
  shows "mnt_ok t \<and> (case r of Inl _ \<Rightarrow> same_ids s t
    | Inr n \<Rightarrow> sins (vinfo s) n = None \<and> loaded (vinfo t) ino n \<and> (\<forall>a. a \<noteq> n \<longrightarrow> sins (vinfo t) a = sins (vinfo s) a) \<and> ref_count t n = 1)"
proof -
  obtain a s1 where a: "kmalloc_mnt km s = Some (a, s1)" by (simp add: kmalloc_mnt_def)
  note i1 = kmalloc_mnt_ids(1) [OF a]
  have m1: "sins (vinfo s1) = sins (vinfo s)" "mfs (vinfo s1) = mfs (vinfo s)"
    using a by (auto simp: kmalloc_mnt_def upd_info_def)
  show ?thesis
  proof (cases "a = None")
    case True
    with assms(1) a have "r = Inl E_NO_MEM" "t = s1" by (auto simp: load_from_disk_def)
    with i1 same_ids_ok [OF i1 assms(2)] show ?thesis by simp
  next
    case False
    then have "sfs_block_inuse (mfs (vinfo s)) ino = Some True"
      using assms(1) a m1 by (auto simp: load_from_disk_def split: if_splits)
    with False assms(1) a m1 obtain b fs where b: "sfs_rbuf DIN_SIZE ino 0 (mfs (vinfo s)) = Some (b, fs)"
      by (cases "sfs_rbuf DIN_SIZE ino 0 (mfs (vinfo s))") (auto simp: load_from_disk_def)
    define s2 where "s2 = upd_info (\<lambda>m. m\<lparr>mfs := fs\<rparr>) s1"
    have i2: "same_ids s s2" unfolding s2_def by (rule same_ids_trans [OF i1], rule upd_fs_ids) blast
    have S2: "sins (vinfo s2) = sins (vinfo s)" by (simp add: s2_def upd_info_def m1)
    have rest: "load_from_disk km ino s = (case b of Inl e \<Rightarrow> Some (Inl e, s2) | Inr bs \<Rightarrow> load_enter km ino (din_of bs) s2)"
      using a False \<open>sfs_block_inuse (mfs (vinfo s)) ino = Some True\<close> b m1 by (auto simp: load_from_disk_def s2_def Let_def split: sum.split)
    show ?thesis
    proof (cases b)
      case (Inl e)
      with rest assms(1) have "r = Inl e" "t = s2" by auto
      with i2 same_ids_ok [OF i2 assms(2)] show ?thesis by simp
    next
      case (Inr bs)
      obtain c s3 where c: "kmalloc_mnt km s2 = Some (c, s3)" by (simp add: kmalloc_mnt_def)
      note k = kmalloc_mnt_ids [OF c]
      have i3: "same_ids s s3" by (rule same_ids_trans [OF i2 k(1)])
      have S3: "sins (vinfo s3) = sins (vinfo s)" using c S2 by (auto simp: kmalloc_mnt_def upd_info_def)
      let ?d = "din_of bs"
      have e: "load_enter km ino ?d s2 = Some (r, t)" using rest assms(1) Inr by simp
      then have nl: "di_nlinks ?d \<noteq> 0" by (auto simp: load_enter_def)
      show ?thesis
      proof (cases c)
        case None
        then have "r = Inl E_NO_MEM" "t = s3" using e nl c by (auto simp: load_enter_def sfs_create_inode_def)
        with i3 same_ids_ok [OF i3 assms(2)] show ?thesis by simp
      next
        case (Some nd)
        let ?sin = "\<lparr>din = ?d, sin_ino = ino, sin_dirty = False\<rparr>"
        have "r = Inr nd" "t = added nd ?sin s3"
          using e nl c Some by (auto simp: load_enter_def sfs_create_inode_def added_def bind_eq_Some_conv)
        moreover have "nd \<notin> set (inode_list (vinfo s2))" using k(2) Some assms(3) by (auto simp: heap_ok_def)
        then have n: "sins (vinfo s3) nd = None" using i2 assms(2) S3 by (simp add: same_ids_def mnt_ok_def links_ok_def)
        moreover have "\<forall>n. \<not> loaded (vinfo s3) (sin_ino ?sin) n" using assms(4) by (simp add: loaded_def S3)
        moreover have "ref_count (added nd ?sin s3) nd = 1" by (simp add: added_def upd_info_def inode_init_def)
        ultimately show ?thesis
          using added_ok [OF same_ids_ok [OF i3 assms(2)], of nd ?sin] S3 by (simp add: loaded_def)
      qed
    qed
  qed
qed

text \<open>The whole of \<open>sfs_load_inode\<close>.\<close>

lemma load_inode_ok:
  assumes "sfs_load_inode km ino s = Some (r, t)" "mnt_ok s" "heap_ok km"
  shows "mnt_ok t"
    and "r = Inr n \<Longrightarrow> loaded (vinfo t) ino n"
    and "loaded (vinfo s) ino n \<Longrightarrow> r = Inr n \<and> t = counted n s"
proof -
  obtain q where q: "lookup_sfs_nolock ino s = Some (q, case q of None \<Rightarrow> s | Some n \<Rightarrow> counted n s)"
    "case q of None \<Rightarrow> \<forall>n. \<not> loaded (vinfo s) ino n | Some n \<Rightarrow> loaded (vinfo s) ino n"
    using lookup_ok [OF assms(2)] by blast
  have "mnt_ok t \<and> (\<forall>n. r = Inr n \<longrightarrow> loaded (vinfo t) ino n) \<and> (\<forall>n. loaded (vinfo s) ino n \<longrightarrow> r = Inr n \<and> t = counted n s)"
  proof (cases q)
    case None
    then have "load_from_disk km ino s = Some (r, t)" "\<forall>n. \<not> loaded (vinfo s) ino n"
      using assms(1) q by (simp_all add: sfs_load_inode_def)
    with load_from_disk_ok [OF this(1) assms(2,3) this(2)] show ?thesis by auto
  next
    case (Some k)
    then have r: "r = Inr k" "t = counted k s" using assms(1) q(1) by (auto simp: sfs_load_inode_def)
    have k: "loaded (vinfo s) ino k" using q(2) Some by simp
    have "n = k" if "loaded (vinfo s) ino n" for n
      using that k assms(2) by (auto simp: mnt_ok_def one_each_def loaded_def)
    moreover have "loaded (vinfo t) ino k" using k counted_ok(2) [OF assms(2), of k] by (simp add: r loaded_def)
    ultimately show ?thesis using r counted_ok(1) [OF assms(2)] by auto
  qed
  then show "mnt_ok t" "r = Inr n \<Longrightarrow> loaded (vinfo t) ino n"
    "loaded (vinfo s) ino n \<Longrightarrow> r = Inr n \<and> t = counted n s" by blast+
qed

section \<open>Dropping a reference\<close>

lemma remove_links_sins [simp]: "sins (sfs_remove_links nd ino m) = sins m" "mfs (sfs_remove_links nd ino m) = mfs m"
  by (simp_all add: sfs_remove_links_def)

lemma reclaim_free_eq:
  assumes "reclaim_free nd s = Some (r, t)"
  obtains sin fs where "sins (vinfo s) nd = Some sin" "r = None"
    "t = upd_info (\<lambda>m. (sfs_remove_links nd (sin_ino sin) m)\<lparr>mfs := fs, sins := (sins m)(nd := None)\<rparr>) s"
    "di_nlinks (din sin) \<noteq> 0 \<Longrightarrow> fs = mfs (vinfo s)"
proof -
  obtain sin where sin: "sins (vinfo s) nd = Some sin" using assms by (cases "sins (vinfo s) nd") (auto simp: reclaim_free_def)
  obtain fs where fs: "reclaim_blocks sin (mfs (vinfo s)) = Some fs"
    using assms sin by (cases "reclaim_blocks sin (mfs (vinfo s))") (auto simp: reclaim_free_def upd_info_def)
  have "r = None" "t = upd_info (\<lambda>m. (sfs_remove_links nd (sin_ino sin) m)\<lparr>mfs := fs, sins := (sins m)(nd := None)\<rparr>) s"
    using assms sin fs
    by (auto simp: reclaim_free_def upd_info_def inode_kill_def Let_def split: if_splits)
  moreover have "fs = mfs (vinfo s)" if "di_nlinks (din sin) \<noteq> 0" using fs that by (simp add: reclaim_blocks_def)
  ultimately show thesis by (intro that [OF sin])
qed

lemma reclaim_free_ok:
  assumes "reclaim_free nd s = Some (r, t)" "mnt_ok s"
  shows "mnt_ok t" "sins (vinfo t) = (sins (vinfo s))(nd := None)"
proof -
  obtain sin fs where e: "sins (vinfo s) nd = Some sin"
    "t = upd_info (\<lambda>m. (sfs_remove_links nd (sin_ino sin) m)\<lparr>mfs := fs, sins := (sins m)(nd := None)\<rparr>) s"
    by (rule reclaim_free_eq [OF assms(1)]) (rule that; assumption)
  let ?h = "sin_hashfn (sin_ino sin)"
  have f: "sins (vinfo t) = (sins (vinfo s))(nd := None)" "inode_list (vinfo t) = remove1 nd (inode_list (vinfo s))"
    "hash_lists (vinfo t) = (hash_lists (vinfo s))(?h := remove1 nd (hash_lists (vinfo s) ?h))"
    "ref_count t = ref_count s" "reclaim_count (vinfo t) = reclaim_count (vinfo s)"
    by (simp_all add: e(2) upd_info_def sfs_remove_links_def)
  show "sins (vinfo t) = (sins (vinfo s))(nd := None)" by (rule f)
  have l: "links_ok (vinfo s)" using assms(2) by (simp add: mnt_ok_def)
  have h: "hashed (vinfo t) h n \<longleftrightarrow> n \<noteq> nd \<and> hashed (vinfo s) h n" for h n by (auto simp: hashed_def f)
  have "n \<in> set (hash_lists (vinfo t) h) \<longleftrightarrow> hashed (vinfo t) h n" for h n
  proof (cases "h = ?h")
    case True
    with l show ?thesis by (auto simp: h f links_ok_def)
  next
    case False
    moreover from this have "\<not> hashed (vinfo s) h nd" using e(1) by (auto simp: hashed_def)
    ultimately show ?thesis using l by (auto simp: h f links_ok_def)
  qed
  moreover have "distinct (hash_lists (vinfo t) h)" for h using l by (simp add: f links_ok_def)
  ultimately have "links_ok (vinfo t)" using l by (auto simp: links_ok_def f(1,2))
  moreover have "one_each (vinfo t)" "counts_ok t"
    using assms(2) by (auto simp: mnt_ok_def one_each_def counts_ok_def f split: if_splits)
  ultimately show "mnt_ok t" by (simp add: mnt_ok_def)
qed

lemma ref_dec_eq:
  assumes "inode_ref_dec sfs_base nd s = Some t"
  shows "0 < ref_count s nd \<and> (let s1 = s\<lparr>ref_count := (ref_count s)(nd := ref_count s nd - 1)\<rparr>
    in if ref_count s nd = 1 then \<exists>r. sfs_reclaim nd s1 = Some (r, t) else t = s1)"
  using assms by (auto simp: inode_ref_dec_def vop_op_def sfs_base_def bind_eq_Some_conv Let_def split: if_splits)

lemma ref_dec_ok:
  assumes "inode_ref_dec sfs_base nd s = Some t" "mnt_ok s"
  shows "mnt_ok t"
proof -
  let ?s1 = "s\<lparr>ref_count := (ref_count s)(nd := ref_count s nd - 1)\<rparr>"
  note d = ref_dec_eq [OF assms(1), unfolded Let_def]
  show ?thesis
  proof (cases "ref_count s nd = 1")
    case False
    with d have "t = ?s1" "0 < ref_count s nd" by auto
    with False assms(2) show ?thesis by (auto simp: mnt_ok_def counts_ok_def)
  next
    case True
    with d obtain r where r: "sfs_reclaim nd ?s1 = Some (r, t)" by auto
    define s2 where "s2 = upd_info (\<lambda>m. m\<lparr>reclaim_count := (reclaim_count m)(nd := reclaim_count m nd - 1)\<rparr>) ?s1"
    have live: "sins (vinfo s) nd \<noteq> None" using r by (auto simp: sfs_reclaim_def split: if_splits)
    then have c1: "reclaim_count (vinfo s) nd = 1" using assms(2) True by (auto simp: mnt_ok_def counts_ok_def)
    have f: "ref_count s2 = (ref_count s)(nd := 0)" "reclaim_count (vinfo s2) = (reclaim_count (vinfo s))(nd := 0)"
      "sins (vinfo s2) = sins (vinfo s)" "inode_list (vinfo s2) = inode_list (vinfo s)" "hash_lists (vinfo s2) = hash_lists (vinfo s)"
      using True c1 by (simp_all add: s2_def upd_info_def)
    have ok2: "mnt_ok s2"
      using assms(2) by (simp add: mnt_ok_def links_ok_def one_each_def counts_ok_def hashed_def f)
    have "sfs_reclaim nd ?s1 = do { (r, s) \<leftarrow> reclaim_flush nd s2; if r \<noteq> None then Some (r, s) else reclaim_free nd s }"
      using live c1 True by (simp add: sfs_reclaim_def s2_def Let_def upd_info_def)
    with r obtain r1 s3 where s3: "reclaim_flush nd s2 = Some (r1, s3)"
      "if r1 \<noteq> None then Some (r1, s3) = Some (r, t) else reclaim_free nd s3 = Some (r, t)"
      by (auto simp: bind_eq_Some_conv split: if_splits)
    have "mnt_ok s3" using same_ids_ok [OF reclaim_flush_ids [OF s3(1)] ok2] .
    with s3(2) reclaim_free_ok(1) show ?thesis by (auto split: if_splits)
  qed
qed

text \<open>Dropping a reference loads nothing.\<close>

lemma same_ids_loaded: "same_ids s t \<Longrightarrow> loaded (vinfo t) ino a \<longleftrightarrow> loaded (vinfo s) ino a"
  using same_ids_sins(2,3) [of s t] unfolding loaded_def by metis

lemma reclaim_loads_nothing:
  assumes "sfs_reclaim nd s = Some (r, t)" "loaded (vinfo t) ino a"
  shows "loaded (vinfo s) ino a"
proof -
  define s2 where "s2 = upd_info (\<lambda>m. m\<lparr>reclaim_count := (reclaim_count m)(nd := reclaim_count m nd - 1)\<rparr>) s"
  have l2: "loaded (vinfo s2) ino a = loaded (vinfo s) ino a" by (simp add: loaded_def s2_def upd_info_def)
  consider "t = s2" | r1 where "reclaim_flush nd s2 = Some (r1, t)" | s3 where "reclaim_flush nd s2 = Some (None, s3)" "reclaim_free nd s3 = Some (r, t)"
    using assms(1) unfolding sfs_reclaim_def s2_def [symmetric] Let_def by (auto simp: bind_eq_Some_conv split: if_splits)
  then show ?thesis
  proof cases
    case 1
    with assms(2) l2 show ?thesis by simp
  next
    case 2
    from same_ids_loaded [OF reclaim_flush_ids [OF this]] assms(2) l2 show ?thesis by simp
  next
    case 3
    obtain sin :: sfs_inode and fs where "t = upd_info (\<lambda>m. (sfs_remove_links nd (sin_ino sin) m)\<lparr>mfs := fs, sins := (sins m)(nd := None)\<rparr>) s3"
      by (rule reclaim_free_eq [OF 3(2)]) (rule that; assumption)
    then have "loaded (vinfo s3) ino a" using assms(2) by (auto simp: loaded_def upd_info_def split: if_splits)
    with same_ids_loaded [OF reclaim_flush_ids [OF 3(1)]] l2 show ?thesis by simp
  qed
qed

lemma ref_dec_loads_nothing:
  assumes "inode_ref_dec sfs_base nd s = Some t" "loaded (vinfo t) ino a"
  shows "loaded (vinfo s) ino a"
proof -
  let ?s1 = "s\<lparr>ref_count := (ref_count s)(nd := ref_count s nd - 1)\<rparr>"
  have "t = ?s1 \<or> (\<exists>r. sfs_reclaim nd ?s1 = Some (r, t))"
    using ref_dec_eq [OF assms(1)] by (auto simp: Let_def split: if_splits)
  then have "loaded (vinfo ?s1) ino a" using reclaim_loads_nothing assms(2) by blast
  then show ?thesis by (simp add: loaded_def)
qed

section \<open>Looking up\<close>

lemma bind_pair_Some: "Option.bind x (\<lambda>(a, b). K a b) = Some y \<longleftrightarrow> (\<exists>a b. x = Some (a, b) \<and> K a b = Some y)"
  by (cases x) auto

lemma lookup_once_ok:
  assumes "sfs_lookup_once km nd name s = Some (r, t)" "mnt_ok s" "heap_ok km"
  shows "mnt_ok t"
proof -
  obtain a s1 q s2 where s: "kmalloc_mnt km s = Some (a, s1)"
    "with_sin (\<lambda>sin fs. map_option (\<lambda>(r, _, x). (r, x)) (sfs_dirent_search_nolock (a \<noteq> None) sin name fs)) nd s1 = Some (q, s2)"
    "(case q of Inl e \<Rightarrow> Some (Inl e, s2) | Inr (ino, slot) \<Rightarrow> sfs_load_inode km ino s2) = Some (r, t)"
    using assms(1) unfolding sfs_lookup_once_def bind_pair_Some by blast
  have "same_ids s1 s2"
    by (rule with_sin_ids [OF s(2)]) (auto dest: search_keeps)
  then have ok: "mnt_ok s2"
    by (rule same_ids_ok [OF _ same_ids_ok [OF kmalloc_mnt_ids(1) [OF s(1)] assms(2)]])
  show ?thesis
  proof (cases q)
    case (Inl e)
    with s(3) ok show ?thesis by simp
  next
    case (Inr z)
    then obtain ino where "sfs_load_inode km ino s2 = Some (r, t)" using s(3) by (cases z) auto
    then show ?thesis by (rule load_inode_ok(1) [OF _ ok assms(3)])
  qed
qed

lemma ref_inc_ok: "mnt_ok s \<Longrightarrow> 0 < ref_count s nd \<Longrightarrow> mnt_ok (inode_ref_inc nd s)"
  using counted_ok(1,3) [of s nd] by simp

lemma sfs_lookup_ok:
  assumes "sfs_lookup km nd path s = Some (r, t)" "mnt_ok s" "heap_ok km" "0 < ref_count s nd"
  shows "mnt_ok t"
proof -
  let ?s = "inode_ref_inc nd s"
  have ok: "mnt_ok ?s" by (rule ref_inc_ok [OF assms(2,4)])
  obtain sin where sin: "sins (vinfo ?s) nd = Some sin"
    using assms(1) by (cases "sins (vinfo ?s) nd") (auto simp: sfs_lookup_def Let_def split: if_splits)
  show ?thesis
  proof (cases "di_type (din sin) = SFS_TYPE_DIR")
    case False
    then have "inode_ref_dec sfs_base nd ?s = Some t"
      using assms(1) sin by (auto simp: sfs_lookup_def Let_def bind_eq_Some_conv split: if_splits)
    then show ?thesis by (rule ref_dec_ok [OF _ ok])
  next
    case True
    then obtain q s1 where "sfs_lookup_once km nd path ?s = Some (q, s1)" "inode_ref_dec sfs_base nd s1 = Some t"
      using assms(1) sin by (auto simp: sfs_lookup_def Let_def bind_eq_Some_conv split: if_splits)
    then show ?thesis using ref_dec_ok lookup_once_ok [OF _ ok assms(3)] by blast
  qed
qed

text \<open>Each turn of the loop of \<open>sfs_namefile\<close> looks up the parent, drops the reference to the child and
  reads the directory.\<close>

lemma kbytes_ok: "mnt_ok s \<Longrightarrow> mnt_ok (upd_info (\<lambda>m. m\<lparr>mfs := (mfs m)\<lparr>kbytes := g m\<rparr>\<rparr>) s)"
  by (rule same_ids_ok [OF upd_fs_ids]) blast+

lemma findino_ok:
  assumes "with_sin (\<lambda>sin fs. sfs_dirent_findino_nolock sin ino fs) nd s = Some (q, t)" "mnt_ok s"
  shows "mnt_ok t"
  by (rule same_ids_ok [OF with_sin_ids [OF assms(1)] assms(2)]) (rule findino_keeps)

lemma namefile_loop_ok:
  assumes "namefile_loop km nd ptr resid s = Some y"
  shows "heap_ok km \<longrightarrow> mnt_ok s \<longrightarrow> mnt_ok (snd y)"
proof (rule namefile_loop.raw_induct [OF _ assms, where P = "\<lambda>km _ _ _ s y. heap_ok km \<longrightarrow> mnt_ok s \<longrightarrow> mnt_ok (snd y)"],
    intro impI, goal_cases)
  case (1 loop km nd ptr resid s y)
  note step = 1(2) [unfolded bind_pair_Some]
  then obtain r s1 where l: "sfs_lookup_once km nd dotdot s = Some (r, s1)" by blast
  have ok1: "mnt_ok s1" by (rule lookup_once_ok [OF l 1(4) 1(3)])
  show ?case
  proof (cases r)
    case (Inl e)
    with step l ref_dec_ok [OF _ ok1] show ?thesis by (auto simp: bind_eq_Some_conv)
  next
    case (Inr par)
    with step l obtain s2 where s2: "inode_ref_dec sfs_base nd s1 = Some s2" by (auto simp: bind_eq_Some_conv)
    have ok2: "mnt_ok s2" by (rule ref_dec_ok [OF s2 ok1])
    show ?thesis
    proof (cases "nd = par")
      case True
      with step l Inr s2 ref_dec_ok [OF _ ok2] show ?thesis by (auto simp: bind_eq_Some_conv)
    next
      case False
      with step l Inr s2 obtain ino q s3 where
        w: "with_sin (\<lambda>sin fs. sfs_dirent_findino_nolock sin ino fs) par s2 = Some (q, s3)"
        and rest: "(case q of Inl e \<Rightarrow> do { s \<leftarrow> inode_ref_dec sfs_base par s3; Some (Inl e, s) }
          | Inr en \<Rightarrow>
              let alen = length (entry_name en) + 1
              in if alen > resid then do { s \<leftarrow> inode_ref_dec sfs_base par s3; Some (Inl E_NO_MEM, s) }
                 else loop km par (ptr - alen) (resid - alen)
                   (upd_info (\<lambda>m. m\<lparr>mfs := (mfs m)\<lparr>kbytes :=
                      put_bytes (ptr - alen) (entry_name en @ [slash]) (kbytes (mfs m))\<rparr>\<rparr>) s3)) = Some y"
        by (auto simp: bind_eq_Some_conv split: if_splits)
      have ok3: "mnt_ok s3" by (rule findino_ok [OF w ok2])
      note next_turn = 1(1) [rule_format, OF _ 1(3) kbytes_ok [OF ok3]]
      show ?thesis
      proof (cases q)
        case (Inl e)
        with rest ref_dec_ok [OF _ ok3] show ?thesis by (auto simp: bind_eq_Some_conv)
      next
        case (Inr en)
        with rest ref_dec_ok [OF _ ok3] show ?thesis
          by (cases "length (entry_name en) + 1 > resid") (auto simp: bind_eq_Some_conv Let_def intro: next_turn)
      qed
    qed
  qed
qed

lemma sfs_namefile_ok:
  assumes "sfs_namefile km nd iob s = Some (q, t)" "mnt_ok s" "heap_ok km" "0 < ref_count s nd"
  shows "mnt_ok t"
proof (cases "io_resid iob \<le> 2")
  case False
  then obtain a s1 where a: "kmalloc_mnt km s = Some (a, s1)"
    using assms(1) unfolding sfs_namefile_def by (auto simp: bind_eq_Some_conv)
  note i = kmalloc_mnt_ids(1) [OF a]
  have ok1: "mnt_ok s1" by (rule same_ids_ok [OF i assms(2)])
  show ?thesis
  proof (cases "a = None")
    case True
    with assms(1) False a ok1 show ?thesis by (simp add: sfs_namefile_def)
  next
    case some: False
    have "0 < ref_count s1 nd" using assms(4) i by (simp add: same_ids_def)
    then have ok2: "mnt_ok (inode_ref_inc nd s1)" by (rule ref_inc_ok [OF ok1])
    obtain r s2 where l: "namefile_loop km nd (io_base iob + io_resid iob) (io_resid iob - 2) (inode_ref_inc nd s1) = Some (r, s2)"
      and rest: "(case r of
             Inl e \<Rightarrow> Some ((Some e, iob), s2)
           | Inr (ptr, resid) \<Rightarrow>
               let alen = io_resid iob - resid - 2; p = io_base iob + 1
               in do {
                 iob' \<leftarrow> iobuf_skip alen iob;
                 Some ((None, iob'),
                   upd_info (\<lambda>m. m\<lparr>mfs := (mfs m)\<lparr>kbytes :=
                     (memmove p ptr alen (kbytes (mfs m)))(p - 1 := slash, p + alen := 0)\<rparr>\<rparr>) s2) }) = Some (q, t)"
      using assms(1) False some a unfolding sfs_namefile_def by (auto simp: bind_eq_Some_conv)
    have ok3: "mnt_ok s2" using namefile_loop_ok [OF l] assms(3) ok2 by simp
    from rest ok3 kbytes_ok [OF ok3] show ?thesis by (auto simp: bind_eq_Some_conv Let_def split: sum.splits prod.splits)
  qed
qed (use assms in \<open>auto simp: sfs_namefile_def\<close>)

lemma sync_inodes_ids: "sync_inodes nds s = Some t \<Longrightarrow> same_ids s t"
proof (induction nds arbitrary: s)
  case (Cons nd nds)
  then obtain r s1 where s1: "sfs_vop_fsync nd s = Some (r, s1)" "sync_inodes nds s1 = Some t" by (auto simp: bind_pair_Some)
  show ?case by (rule same_ids_trans [OF vop_fsync_ids [OF s1(1)] Cons.IH [OF s1(2)]])
qed simp

lemma sfs_sync_ids:
  assumes "sfs_sync s = Some (r, t)"
  shows "same_ids s t"
proof -
  obtain s1 where s1: "sync_inodes (inode_list (vinfo s)) s = Some s1"
    using assms by (cases "sync_inodes (inode_list (vinfo s)) s") (auto simp: sfs_sync_def)
  with assms obtain fs where t: "t = upd_info (\<lambda>m. m\<lparr>mfs := fs\<rparr>) s1"
    by (auto simp: sfs_sync_def bind_pair_Some)
  have "same_ids s1 t" unfolding t by (rule upd_fs_ids) blast
  with sync_inodes_ids [OF s1] show ?thesis by (rule same_ids_trans)
qed

section \<open>Every inode is in memory at most once\<close>

text \<open>What the layer above does with a mounted file system. A caller of a lookup, and one that takes a
  further reference, holds one.\<close>

inductive mnt_step :: "kalloc \<Rightarrow> sfs_mnt vfs \<Rightarrow> sfs_mnt vfs \<Rightarrow> bool" for km where
  root: "sfs_get_root km s = Some (nd, t) \<Longrightarrow> mnt_step km s t"
| lookup: "sfs_lookup km nd path s = Some (r, t) \<Longrightarrow> 0 < ref_count s nd \<Longrightarrow> mnt_step km s t"
| ref_inc: "0 < ref_count s nd \<Longrightarrow> mnt_step km s (inode_ref_inc nd s)"
| ref_dec: "inode_ref_dec sfs_base nd s = Some t \<Longrightarrow> mnt_step km s t"
| open_inc: "mnt_step km s (inode_open_inc nd s)"
| open_dec: "inode_open_dec (sfs_world km fs) nd s = Some t \<Longrightarrow> mnt_step km s t"
| fsync: "sfs_vop_fsync nd s = Some (r, t) \<Longrightarrow> mnt_step km s t"
| truncate: "sfs_vop_truncate nd len s = Some (r, t) \<Longrightarrow> mnt_step km s t"
| rw: "sfs_rw wrt nd iob s = Some (q, t) \<Longrightarrow> mnt_step km s t"
| getdirentry: "sfs_vop_getdirentry km nd iob s = Some (q, t) \<Longrightarrow> mnt_step km s t"
| namefile: "sfs_namefile km nd iob s = Some (q, t) \<Longrightarrow> 0 < ref_count s nd \<Longrightarrow> mnt_step km s t"
| sync: "sfs_sync s = Some (r, t) \<Longrightarrow> mnt_step km s t"

lemma open_count_ids: "same_ids s (s\<lparr>open_count := c\<rparr>)"
  by (simp add: same_ids_def)

lemma open_dec_ids:
  assumes "inode_open_dec (sfs_world km fs) nd s = Some t"
  shows "same_ids s t"
proof -
  let ?s = "s\<lparr>open_count := (open_count s)(nd := open_count s nd - 1)\<rparr>"
  have "t = ?s \<or> (\<exists>r. sfs_close nd ?s = Some (r, t))"
    using assms
    by (auto simp: inode_open_dec_def vop_op_def sfs_world_def sfs_get_ops_def no_ops_def sfs_node_dirops_def sfs_node_fileops_def
        bind_eq_Some_conv Let_def split: if_splits option.splits)
  then have "same_ids ?s t" using vop_fsync_ids by (auto simp: sfs_close_def)
  then show ?thesis by (rule same_ids_trans [OF open_count_ids])
qed

lemma rw_ids: "sfs_rw wrt nd iob s = Some (q, t) \<Longrightarrow> same_ids s t"
  unfolding sfs_rw_def by (erule with_sin_ids) (auto dest: io_keeps)

lemma vop_getdirentry_ids:
  assumes "sfs_vop_getdirentry km nd iob s = Some (q, t)"
  shows "same_ids s t"
proof -
  obtain a s1 where s1: "kmalloc_mnt km s = Some (a, s1)"
    "with_sin (\<lambda>sin fs. map_option (\<lambda>(r, iob, x). ((r, iob), x)) (sfs_getdirentry a sin iob fs)) nd s1 = Some (q, t)"
    using assms unfolding sfs_vop_getdirentry_def bind_pair_Some by blast
  have "same_ids s1 t" by (rule with_sin_ids [OF s1(2)]) (auto dest: getdirentry_keeps)
  with kmalloc_mnt_ids(1) [OF s1(1)] show ?thesis by (rule same_ids_trans)
qed

lemma mnt_step_ok:
  assumes "mnt_step km s t" "mnt_ok s" "heap_ok km"
  shows "mnt_ok t"
  using assms
proof cases
  case (root nd)
  then obtain r s1 where r: "sfs_load_inode km SFS_BLKN_ROOT s = Some (r, s1)"
    "(case r of Inl e \<Rightarrow> None | Inr nd \<Rightarrow> Some (nd, s1)) = Some (nd, t)"
    unfolding sfs_get_root_def bind_pair_Some by blast
  then have "sfs_load_inode km SFS_BLKN_ROOT s = Some (r, t)" by (cases r) simp_all
  then show ?thesis by (rule load_inode_ok(1) [OF _ assms(2,3)])
next
  case (open_inc nd)
  have "same_ids s t" unfolding open_inc inode_open_inc_def by (rule open_count_ids)
  then show ?thesis by (rule same_ids_ok [OF _ assms(2)])
next
  case (lookup nd path r)
  then show ?thesis by (intro sfs_lookup_ok [OF _ assms(2,3)])
next
  case (ref_inc nd)
  then show ?thesis using ref_inc_ok [OF assms(2)] by simp
next
  case (ref_dec nd)
  then show ?thesis by (rule ref_dec_ok [OF _ assms(2)])
next
  case (open_dec fs nd)
  from open_dec_ids [OF this] show ?thesis by (rule same_ids_ok [OF _ assms(2)])
next
  case (fsync nd r)
  from vop_fsync_ids [OF this] show ?thesis by (rule same_ids_ok [OF _ assms(2)])
next
  case (truncate nd len r)
  from vop_truncate_ids [OF this] show ?thesis by (rule same_ids_ok [OF _ assms(2)])
next
  case (rw wrt nd iob q)
  from rw_ids [OF this] show ?thesis by (rule same_ids_ok [OF _ assms(2)])
next
  case (getdirentry nd iob q)
  from vop_getdirentry_ids [OF this] show ?thesis by (rule same_ids_ok [OF _ assms(2)])
next
  case (namefile nd iob q)
  then show ?thesis by (intro sfs_namefile_ok [OF _ assms(2,3)])
next
  case (sync r)
  from sfs_sync_ids [OF this] show ?thesis by (rule same_ids_ok [OF _ assms(2)])
qed

text \<open>C33: whatever the layer above does with a mounted file system, every inode of the disk is in memory
  at most once, linked exactly into the list and into its hash chain, with the reclaim count that its
  references require; and loading an inode that is in memory returns that one and reads nothing.\<close>

theorem inodes_stay_unique:
  assumes "(mnt_step km)\<^sup>*\<^sup>* s t" "mnt_ok s" "heap_ok km"
  shows "mnt_ok t \<and> (\<forall>n ino. loaded (vinfo t) ino n \<longrightarrow> sfs_load_inode km ino t = Some (Inr n, counted n t))"
proof -
  have ok: "mnt_ok t" using assms(1) by (induction rule: rtranclp_induct) (use assms(2,3) mnt_step_ok in blast)+
  moreover have "sfs_load_inode km ino t = Some (Inr n, counted n t)" if l: "loaded (vinfo t) ino n" for n ino
  proof -
    obtain r where r: "lookup_sfs_nolock ino t = Some (r, case r of None \<Rightarrow> t | Some n \<Rightarrow> counted n t)"
      "case r of None \<Rightarrow> \<forall>n. \<not> loaded (vinfo t) ino n | Some n \<Rightarrow> loaded (vinfo t) ino n"
      using lookup_ok [OF ok] by blast
    then obtain k where "r = Some k" using l by (cases r) auto
    then have "sfs_load_inode km ino t = Some (Inr k, counted k t)" using r(1) by (simp add: sfs_load_inode_def)
    with load_inode_ok(3) [OF this ok assms(3) l] show ?thesis by simp
  qed
  ultimately show ?thesis by blast
qed

text \<open>The directory of \<open>demo_dir_fs\<close> is in memory.\<close>

definition demo_mnt :: "sfs_mnt vfs" where
  "demo_mnt = \<lparr>ref_count = (\<lambda>_. 0)(7 := 1), open_count = (\<lambda>_. 0), vdev_list = [], bootfs_node = None,
     vinfo = \<lparr>mfs = demo_dir_fs, sins = [7 \<mapsto> demo_dir\<lparr>sin_dirty := True\<rparr>], reclaim_count = (\<lambda>_. 0)(7 := 1), inode_list = [7],
       hash_lists = (\<lambda>_. [])(sin_hashfn 1 := [7]), kcalls = 0\<rparr>\<rparr>"

definition demo_heap :: kalloc where
  "demo_heap k L = (if 100 + k \<in> L then None else Some (100 + k))"

lemma heap_ok_demo: "heap_ok demo_heap"
  by (simp add: heap_ok_def demo_heap_def)

lemma mnt_ok_demo: "mnt_ok demo_mnt"
  by (auto simp: mnt_ok_def links_ok_def hashed_def one_each_def counts_ok_def demo_mnt_def demo_dir_def)

theorem inodes_stay_unique_witness:
  "sfs_load_inode demo_heap 1 (inode_ref_inc 7 demo_mnt) = Some (Inr 7, inode_ref_inc 7 (inode_ref_inc 7 demo_mnt))"
proof -
  have "mnt_step demo_heap demo_mnt (inode_ref_inc 7 demo_mnt)" by (rule mnt_step.ref_inc) (simp add: demo_mnt_def)
  then have "(mnt_step demo_heap)\<^sup>*\<^sup>* demo_mnt (inode_ref_inc 7 demo_mnt)" by (rule r_into_rtranclp [of "mnt_step demo_heap"])
  note ok = inodes_stay_unique [OF this mnt_ok_demo heap_ok_demo]
  have "loaded (vinfo (inode_ref_inc 7 demo_mnt)) 1 7" by (simp add: loaded_def inode_ref_inc_def demo_mnt_def demo_dir_def)
  then have "sfs_load_inode demo_heap 1 (inode_ref_inc 7 demo_mnt) = Some (Inr 7, counted 7 (inode_ref_inc 7 demo_mnt))"
    using ok by blast
  moreover have "counted 7 (inode_ref_inc 7 demo_mnt) = inode_ref_inc 7 (inode_ref_inc 7 demo_mnt)"
    by (rule counted_ok(3) [OF conjunct1 [OF ok]]) (simp add: inode_ref_inc_def demo_mnt_def)
  ultimately show ?thesis by simp
qed

section \<open>Dropping and loading again\<close>

text \<open>The last reference is dropped: the inode is written back if it has to be, and is gone from memory.\<close>

definition on_disk :: "sfs_fs \<Rightarrow> u32 \<Rightarrow> sfs_disk_inode \<Rightarrow> bool" where
  "on_disk fs ino d \<longleftrightarrow> fs_ok fs \<and> Sfs_Map.in_fs fs ino \<and> bytes_at fs (unat ino) 0 DIN_SIZE = din_bytes d"

definition sane_din :: "sfs_disk_inode \<Rightarrow> bool" where
  "sane_din d \<longleftrightarrow> length (di_direct d) = 12 \<and> di_nlinks d \<noteq> 0 \<and> (di_type d = SFS_TYPE_DIR \<or> di_type d = SFS_TYPE_FILE)"

text \<open>What is on the disk once the inode is dropped: the inode itself when it is marked dirty, and the copy
  \<open>d\<close> that is there already when it is not.\<close>

definition kept_din :: "sfs_inode \<Rightarrow> sfs_disk_inode \<Rightarrow> sfs_disk_inode" where
  "kept_din sin d = (if sin_dirty sin then din sin else d)"

definition kept_inode :: "sfs_fs \<Rightarrow> sfs_inode \<Rightarrow> sfs_disk_inode \<Rightarrow> bool" where
  "kept_inode fs sin d \<longleftrightarrow> fs_ok fs \<and> Sfs_Map.in_fs fs (sin_ino sin) \<and> sane_din (din sin)
     \<and> (\<not> sin_dirty sin \<longrightarrow> sane_din d \<and> bytes_at fs (unat (sin_ino sin)) 0 DIN_SIZE = din_bytes d)"

lemma reclaim_flush_writes:
  assumes "sins (vinfo s) n = Some sin" "kept_inode (mfs (vinfo s)) sin d" "inode_check n s"
  shows "\<exists>t. reclaim_flush n s = Some (None, t) \<and> on_disk (mfs (vinfo t)) (sin_ino sin) (kept_din sin d)
    \<and> sins (vinfo t) n = Some (sin\<lparr>sin_dirty := False\<rparr>) \<and> ref_count t = ref_count s \<and> open_count t = open_count s"
proof (cases "sin_dirty sin")
  case False
  then have "sin\<lparr>sin_dirty := False\<rparr> = sin" by simp
  with False assms show ?thesis by (auto simp: reclaim_flush_def kept_inode_def kept_din_def sane_din_def on_disk_def)
next
  case True
  have k: "fs_ok (mfs (vinfo s))" "Sfs_Map.in_fs (mfs (vinfo s)) (sin_ino sin)" "length (di_direct (din sin)) = 12" "di_nlinks (din sin) \<noteq> 0"
    using assms(2) by (auto simp: kept_inode_def sane_din_def)
  obtain fs where fs: "sfs_fsync sin (mfs (vinfo s)) = Some (None, sin\<lparr>sin_dirty := False\<rparr>, fs)"
    "fs_step {unat (sin_ino sin)} (mfs (vinfo s)) fs" "frees fs = frees (mfs (vinfo s))"
    "bytes_at fs (unat (sin_ino sin)) 0 DIN_SIZE = din_bytes (din sin)"
    using sfs_fsync_writes [OF k(1-3) True] by blast
  let ?t = "upd_info (\<lambda>m. m\<lparr>mfs := fs, sins := (sins m)(n \<mapsto> sin\<lparr>sin_dirty := False\<rparr>)\<rparr>) s"
  have "reclaim_flush n s = Some (None, ?t)"
    using assms(1,3) k(4) True fs(1) by (simp add: reclaim_flush_def sfs_vop_fsync_def with_sin_def)
  moreover have "on_disk (mfs (vinfo ?t)) (sin_ino sin) (kept_din sin d)"
    using fs(2-4) in_fs_alloc [OF k(2) fs(2)] True by (simp add: on_disk_def upd_info_def fs_step_def kept_din_def)
  ultimately show ?thesis by (auto simp: upd_info_def)
qed

lemma last_ref_dec:
  assumes "mnt_ok s" "sins (vinfo s) n = Some sin" "ref_count s n = 1" "open_count s n = 0" "kept_inode (mfs (vinfo s)) sin d"
  shows "\<exists>t. inode_ref_dec sfs_base n s = Some t \<and> on_disk (mfs (vinfo t)) (sin_ino sin) (kept_din sin d) \<and> sins (vinfo t) n = None"
proof -
  let ?s1 = "s\<lparr>ref_count := (ref_count s)(n := 0)\<rparr>"
  define s2 where "s2 = upd_info (\<lambda>m. m\<lparr>reclaim_count := (reclaim_count m)(n := reclaim_count m n - 1)\<rparr>) ?s1"
  have c1: "reclaim_count (vinfo s) n = 1" using assms(1-3) by (auto simp: mnt_ok_def counts_ok_def)
  have f: "sins (vinfo s2) = sins (vinfo s)" "mfs (vinfo s2) = mfs (vinfo s)" "ref_count s2 n = 0" "open_count s2 n = 0"
    "inode_check n s2"
    using assms(4) by (simp_all add: s2_def upd_info_def inode_check_def MAX_INODE_COUNT_def)
  obtain s3 where s3: "reclaim_flush n s2 = Some (None, s3)" "on_disk (mfs (vinfo s3)) (sin_ino sin) (kept_din sin d)"
    "sins (vinfo s3) n = Some (sin\<lparr>sin_dirty := False\<rparr>)" "ref_count s3 = ref_count s2" "open_count s3 = open_count s2"
    using reclaim_flush_writes [of s2 n sin d] assms(2,5) f by auto
  have nl: "di_nlinks (din sin) \<noteq> 0" using assms(5) by (simp add: kept_inode_def sane_din_def)
  let ?t = "upd_info (\<lambda>m. (sfs_remove_links n (sin_ino sin) m)\<lparr>mfs := mfs (vinfo s3), sins := (sins m)(n := None)\<rparr>) s3"
  have fr: "reclaim_free n s3 = Some (None, ?t)"
    using s3(3-5) f(3,4) nl by (simp add: reclaim_free_def reclaim_blocks_def inode_kill_def upd_info_def Let_def)
  have "sfs_reclaim n ?s1 = Some (None, ?t)"
  proof -
    have "sfs_reclaim n ?s1 = do { (r, s) \<leftarrow> reclaim_flush n s2; if r \<noteq> None then Some (r, s) else reclaim_free n s }"
      using assms(2,3) c1 by (simp add: sfs_reclaim_def s2_def Let_def upd_info_def)
    then show ?thesis using s3(1) fr by simp
  qed
  then have "inode_ref_dec sfs_base n s = Some ?t"
    using assms(3,4) by (simp add: inode_ref_dec_def vop_op_def sfs_base_def inode_check_def MAX_INODE_COUNT_def Let_def)
  moreover have "on_disk (mfs (vinfo ?t)) (sin_ino sin) (kept_din sin d)" "sins (vinfo ?t) n = None"
    using s3(2) by (simp_all add: upd_info_def)
  ultimately show ?thesis by blast
qed

lemma load_on_disk:
  assumes "on_disk (mfs (vinfo s)) ino d" "\<forall>n. \<not> loaded (vinfo s) ino n" "mnt_ok s"
    and "length (di_direct d) = 12" "di_nlinks d \<noteq> 0" "di_type d = SFS_TYPE_DIR \<or> di_type d = SFS_TYPE_FILE"
  shows "\<exists>r t. sfs_load_inode km ino s = Some (r, t) \<and> (r = Inl E_NO_MEM
    \<or> (\<exists>n. r = Inr n \<and> sins (vinfo t) n = Some \<lparr>din = d, sin_ino = ino, sin_dirty = False\<rparr>))"
proof -
  obtain r where r: "lookup_sfs_nolock ino s = Some (r, case r of None \<Rightarrow> s | Some n \<Rightarrow> counted n s)"
    "case r of None \<Rightarrow> \<forall>n. \<not> loaded (vinfo s) ino n | Some n \<Rightarrow> loaded (vinfo s) ino n"
    using lookup_ok [OF assms(3)] by blast
  then have "r = None" using assms(2) by (cases r) auto
  then have l: "sfs_load_inode km ino s = load_from_disk km ino s" using r(1) by (simp add: sfs_load_inode_def)
  have fs: "fs_ok (mfs (vinfo s))" "Sfs_Map.in_fs (mfs (vinfo s)) ino" using assms(1) by (auto simp: on_disk_def)
  then obtain x where x: "sfs_rbuf DIN_SIZE ino 0 (mfs (vinfo s)) = Some (Inr (din_bytes d), x)"
    using sfs_rbuf_ok [of "mfs (vinfo s)" ino 0 DIN_SIZE] in_fs_less [OF fs(2)] assms(1)
    by (auto simp: fs_ok_def DIN_SIZE_def on_disk_def)
  have "din_of (din_bytes d) = d" using din_round_trip(1) [OF assms(4)] .
  then show ?thesis
    unfolding l load_from_disk_def
    using in_fs_inuse [OF fs] x assms(5,6)
    by (auto simp: kmalloc_mnt_def load_enter_def sfs_create_inode_def sfs_get_ops_def upd_info_def inode_init_def
        sfs_set_links_def Let_def split: option.splits)
qed

text \<open>C34: when the last reference to an inode is dropped, the inode leaves memory; loading its number again
  gives a new object, unless there is no memory for it. If the inode was marked dirty, the new object has
  the same size, type, links, block count and block map: nothing of it is lost between its uses. If it
  was not, the new object is what the disk held before, whatever the inode in memory was: the two differ
  after a growth that ran out of blocks, which changes the block count of a clean inode
  (\<open>failed_growth_stays_clean\<close>).\<close>

theorem reclaim_load_round_trip:
  assumes "mnt_ok s" "sins (vinfo s) n = Some sin" "ref_count s n = 1" "open_count s n = 0" "kept_inode (mfs (vinfo s)) sin d"
  shows "\<exists>t r u. inode_ref_dec sfs_base n s = Some t \<and> sins (vinfo t) n = None \<and> sfs_load_inode km (sin_ino sin) t = Some (r, u)
    \<and> (r = Inl E_NO_MEM \<or> (\<exists>n'. r = Inr n' \<and> sins (vinfo u) n'
         = Some (sin\<lparr>din := (if sin_dirty sin then din sin else d), sin_dirty := False\<rparr>)))"
proof -
  let ?d = "kept_din sin d"
  obtain t where t: "inode_ref_dec sfs_base n s = Some t" "on_disk (mfs (vinfo t)) (sin_ino sin) ?d" "sins (vinfo t) n = None"
    using last_ref_dec [OF assms] by blast
  have ok: "mnt_ok t" by (rule ref_dec_ok [OF t(1) assms(1)])
  have none: "\<forall>a. \<not> loaded (vinfo t) (sin_ino sin) a"
  proof (intro allI notI)
    fix a
    assume a: "loaded (vinfo t) (sin_ino sin) a"
    then have "loaded (vinfo s) (sin_ino sin) a" by (rule ref_dec_loads_nothing [OF t(1)])
    then have "a = n" using assms(1,2) by (auto simp: mnt_ok_def one_each_def loaded_def)
    with a t(3) show False by (simp add: loaded_def)
  qed
  have e: "\<lparr>din = ?d, sin_ino = sin_ino sin, sin_dirty = False\<rparr>
      = sin\<lparr>din := (if sin_dirty sin then din sin else d), sin_dirty := False\<rparr>" by (simp add: kept_din_def)
  have k: "length (di_direct ?d) = 12" "di_nlinks ?d \<noteq> 0" "di_type ?d = SFS_TYPE_DIR \<or> di_type ?d = SFS_TYPE_FILE"
    using assms(5) by (auto simp: kept_inode_def kept_din_def sane_din_def)
  from load_on_disk [OF t(2) none ok k, of km] t(1,3) show ?thesis unfolding e by blast
qed

theorem reclaim_load_round_trip_witness:
  "\<exists>t r u. inode_ref_dec sfs_base 7 demo_mnt = Some t \<and> sins (vinfo t) 7 = None \<and> sfs_load_inode demo_heap 1 t = Some (r, u)
    \<and> (r = Inl E_NO_MEM \<or> (\<exists>n'. r = Inr n' \<and> sins (vinfo u) n' = Some demo_dir))"
proof -
  let ?sin = "demo_dir\<lparr>sin_dirty := True\<rparr>"
  have s: "sins (vinfo demo_mnt) 7 = Some ?sin" "ref_count demo_mnt 7 = 1" "open_count demo_mnt 7 = 0" "mfs (vinfo demo_mnt) = demo_dir_fs"
    by (simp_all add: demo_mnt_def)
  have "frees demo_dir_fs = {5, 6, 7}" using frees_demo by (simp add: frees_def demo_dir_fs_def)
  then have "Sfs_Map.in_fs demo_dir_fs 1" by (simp add: Sfs_Map.in_fs_def nblocks_def demo_dir_fs_def demo_sfs_def)
  then have "kept_inode (mfs (vinfo demo_mnt)) ?sin (din ?sin)"
    using fs_ok_demo_dir by (simp add: kept_inode_def sane_din_def s(4)) (simp add: demo_dir_def)
  from reclaim_load_round_trip [OF mnt_ok_demo s(1-3) this, of demo_heap] show ?thesis
    by (simp add: demo_dir_def)
qed

section \<open>What directories lack\<close>

text \<open>The table of directories has no function for reading and none for seeking.\<close>

lemma read_directory_panics:
  assumes "sins (vinfo s) nd = Some sin" "di_type (din sin) = SFS_TYPE_DIR"
  shows "vop_op (sfs_world km fs) nd vop_read s = None" "vop_op (sfs_world km fs) nd vop_tryseek s = None"
  using assms by (simp_all add: vop_op_def sfs_world_def sfs_get_ops_def sfs_node_dirops_def)

text \<open>A path below a subdirectory is one name for the search.\<close>

lemma lookup_is_one_name:
  assumes "sfs_lookup km nd path s = Some (Inr n, t)"
    and "sins (vinfo s) nd = Some sin" "dir_ok (mfs (vinfo s)) (din sin)"
  shows "\<exists>e \<in> set (dirents (mfs (vinfo s)) (din sin)). matches path e"
proof -
  let ?s = "inode_ref_inc nd s"
  have sin: "sins (vinfo ?s) nd = Some sin" "mfs (vinfo ?s) = mfs (vinfo s)" using assms(2) by (simp_all add: inode_ref_inc_def)
  obtain s0 where "sfs_lookup_once km nd path ?s = Some (Inr n, s0)"
    using assms(1,3) sin by (auto simp: sfs_lookup_def Let_def bind_pair_Some bind_eq_Some_conv dir_ok_def split: if_splits)
  then obtain a s1 q s2 where q: "kmalloc_mnt km ?s = Some (a, s1)"
    "with_sin (\<lambda>sin fs. map_option (\<lambda>(r, _, x). (r, x)) (sfs_dirent_search_nolock (a \<noteq> None) sin path fs)) nd s1 = Some (q, s2)"
    "(case q of Inl e \<Rightarrow> Some (Inl e, s2) | Inr (ino, slot) \<Rightarrow> sfs_load_inode km ino s2) = Some (Inr n, s0)"
    unfolding sfs_lookup_once_def bind_pair_Some by blast
  have s1: "sins (vinfo s1) nd = Some sin" "mfs (vinfo s1) = mfs (vinfo s)"
    using q(1) sin by (auto simp: kmalloc_mnt_def upd_info_def)
  then obtain es x where r: "sfs_dirent_search_nolock (a \<noteq> None) sin path (mfs (vinfo s)) = Some (q, es, x)"
    using q(2) by (auto simp: with_sin_def bind_eq_Some_conv)
  obtain z where z: "q = Inr z" using q(3) by (cases q) auto
  have a: "a \<noteq> None" "length path \<le> SFS_MAX_FNAME_LEN" using r z by (auto simp: sfs_dirent_search_nolock_def split: if_splits)
  then have "sfs_dirent_search_nolock True sin path (mfs (vinfo s)) = Some (q, es, x)" using r by simp
  with dirent_search_ok [OF assms(3) a(2)] z show ?thesis by auto
qed

end
