(* ===== verification/Sfs_Fs_Props.thy ===== *)
theory Sfs_Fs_Props
  imports Sfs_Mount_Props
begin

text \<open>Mounting reads back what synchronising has written.\<close>

section \<open>Sizes of the bitmap on the disk\<close>

definition map_blocks :: "sfs_fs \<Rightarrow> nat" where
  "map_blocks s = (nblocks s + 32767) div 32768"

lemma unat_freemap:
  assumes "nblocks s \<le> 2 ^ 20"
  shows "unat (sfs_freemap_blocks (super s)) = map_blocks s" "unat (sfs_freemap_bits (super s)) = map_blocks s * 32768"
    "map_blocks s \<le> 32"
proof -
  let ?b = "sup_blocks (super s)" and ?n = "nblocks s"
  have lt: "?n \<le> 1048576" using assms by simp
  then have m: "map_blocks s \<le> 32" by (simp add: map_blocks_def)
  then show "map_blocks s \<le> 32" .
  let ?w = "(ucast ?b + SFS_BLKBITS - 1) div SFS_BLKBITS :: u64"
  have bb: "unat ?b = ?n" by (simp add: nblocks_def)
  have k: "SFS_BLKBITS = 32768" by (simp add: SFS_BLKBITS_def)
  have "ucast ?b + 32768 - 1 = (32767 + ucast ?b :: u64)" by simp
  moreover have "unat (32767 + ucast ?b :: u64) = ?n + 32767"
    using lt bb by (simp add: unat_word_ariths unsigned_ucast_eq take_bit_nat_eq_self)
  ultimately have q: "unat ?w = map_blocks s" unfolding k by (simp add: unat_div map_blocks_def)
  have "unat (ucast ?w :: u32) = unat ?w"
    using q m unfolding unsigned_ucast_eq by (simp add: take_bit_nat_eq_self)
  then show "unat (sfs_freemap_blocks (super s)) = map_blocks s"
    unfolding sfs_freemap_blocks_def ROUNDUP_DIV_def q .
  have "unat (?w * 32768) = map_blocks s * 32768" using q m by (simp add: unat_word_ariths)
  moreover from this have "unat (ucast (?w * 32768) :: u32) = unat (?w * 32768)"
    using m unfolding unsigned_ucast_eq by (simp add: take_bit_nat_eq_self)
  ultimately show "unat (sfs_freemap_bits (super s)) = map_blocks s * 32768"
    unfolding sfs_freemap_bits_def by (simp only: k)
qed

section \<open>Writing\<close>

definition far :: "nat \<Rightarrow> nat \<Rightarrow> 'a disk0_scheme \<Rightarrow> bool" where
  "far p n d \<longleftrightarrow> p + 4096 * n \<le> disk0_buffer d \<or> disk0_buffer d + 4096 \<le> p"

lemma write_block:
  assumes "io_ok s" "b \<noteq> 0 \<or> \<not> check" "b < sup_blocks (super s)"
  shows "\<exists>t. sfs_rwblock_nolock p b True check s = Some (None, t) \<and> same_fs s t
    \<and> (\<forall>a<4096. block_at t (unat b) a = kbytes s (p + a))
    \<and> (\<forall>n a. n \<noteq> unat b \<and> a < 4096 \<longrightarrow> block_at t n a = block_at s n a)
    \<and> (\<forall>a. \<not> (disk0_buffer s \<le> a \<and> a < disk0_buffer s + 4096) \<longrightarrow> kbytes t a = kbytes s a)"
proof -
  have b: "unat b < unat (sup_blocks (super s))" using assms(3) by (simp add: word_less_nat_alt)
  then have b2: "unat b < 2 ^ 20" "unat b < d_blocks s" using assms(1) by (auto simp: io_ok_def)
  have ok: "disk_ok s" using assms(1) by (simp add: io_ok_def)
  obtain iob' t where t: "disk0_io (iobuf_init p 4096 (int (4096 * unat b))) True s = Some (None, iob', t)"
    "t = s\<lparr>kbytes := kbytes t, dimage := dimage t\<rparr>"
    "\<forall>a<4096. block_at t (unat b) a = kbytes s (p + a)"
    "\<forall>n a. n \<noteq> unat b \<and> a < 4096 \<longrightarrow> block_at t n a = block_at s n a"
    "\<forall>a. \<not> (disk0_buffer s \<le> a \<and> a < disk0_buffer s + 4096) \<longrightarrow> kbytes t a = kbytes s a"
    using disk0_io_one(2) [OF ok b2(2) refl b2(1), of p] by blast
  have "same_fs s t" by (subst t(2)) (simp add: same_fs_def)
  then show ?thesis
    using t(1,3-5) assms(2,3) offset_of_block [OF b2(1)] by (simp add: sfs_rwblock_nolock_def SFS_BLKSIZE_def)
qed

lemma write_blocks:
  assumes "io_ok s" "b \<noteq> 0" "unat b + n \<le> nblocks s" "far p n s"
  shows "\<exists>t. sfs_wblock p b n s = Some (None, t) \<and> same_fs s t
    \<and> (\<forall>i a. i < n \<and> a < 4096 \<longrightarrow> block_at t (unat b + i) a = kbytes s (p + 4096 * i + a))
    \<and> (\<forall>m a. (m < unat b \<or> unat b + n \<le> m) \<and> a < 4096 \<longrightarrow> block_at t m a = block_at s m a)"
  using assms unfolding sfs_wblock_def
proof (induction n arbitrary: p b s)
  case (Suc n)
  have lt: "b < sup_blocks (super s)" using Suc.prems(3) by (simp add: word_less_nat_alt nblocks_def)
  obtain u where u: "sfs_rwblock_nolock p b True True s = Some (None, u)" "same_fs s u"
    "\<forall>a<4096. block_at u (unat b) a = kbytes s (p + a)"
    "\<forall>n a. n \<noteq> unat b \<and> a < 4096 \<longrightarrow> block_at u n a = block_at s n a"
    "\<forall>a. \<not> (disk0_buffer s \<le> a \<and> a < disk0_buffer s + 4096) \<longrightarrow> kbytes u a = kbytes s a"
    using write_block [OF Suc.prems(1) _ lt, of True p] Suc.prems(2) by blast
  have nb: "nblocks u = nblocks s" "disk0_buffer u = disk0_buffer s" using u(2) by (simp_all add: same_fs_def nblocks_def)
  show ?case
  proof (cases n)
    case 0
    with u show ?thesis by (auto simp: le_Suc_eq)
  next
    case (Suc k)
    have "unat b + 1 < 2 ^ 32" using Suc.prems(3) Suc nblocks_def unsigned_less [of "sup_blocks (super s)", where ?'a = nat] by simp
    then have b1: "unat (b + 1) = unat b + 1" by (simp add: unat_word_ariths)
    have pre: "io_ok u" "b + 1 \<noteq> 0" "unat (b + 1) + n \<le> nblocks u" "far (p + 4096) n u"
      using Suc.prems same_fs_io_ok [OF u(2)] b1 nb by (auto simp: far_def)
    from Suc.IH [OF pre] obtain t where t: "sfs_rwblock (p + 4096) (b + 1) n True u = Some (None, t)" "same_fs u t"
      "\<forall>i a. i < n \<and> a < 4096 \<longrightarrow> block_at t (unat (b + 1) + i) a = kbytes u (p + 4096 + 4096 * i + a)"
      "\<forall>m a. (m < unat (b + 1) \<or> unat (b + 1) + n \<le> m) \<and> a < 4096 \<longrightarrow> block_at t m a = block_at u m a"
      by blast
    have far: "kbytes u (p + 4096 * i + a) = kbytes s (p + 4096 * i + a)" if "i \<le> n" "a < 4096" for i a
      using u(5) Suc.prems(4) that by (auto simp: far_def)
    have "block_at t (unat b + i) a = kbytes s (p + 4096 * i + a)" if "i < Suc n" "a < 4096" for i a
    proof (cases i)
      case 0
      with t(4) u(3) that b1 show ?thesis by simp
    next
      case (Suc j)
      with t(3) that b1 far [of i a] show ?thesis by (auto simp: add.assoc)
    qed
    moreover have "block_at t m a = block_at s m a" if "m < unat b \<or> unat b + Suc n \<le> m" "a < 4096" for m a
      using t(4) u(4) that b1 by auto
    moreover have "sfs_rwblock p b (Suc n) True s = Some (None, t)" using u(1) t(1) by (simp add: SFS_BLKSIZE_def)
    ultimately show ?thesis using same_fs_trans [OF u(2) t(2)] by blast
  qed
qed simp

text \<open>Memory that holds given bytes.\<close>

lemma put_bytes_at: "k < length bs \<Longrightarrow> put_bytes p bs m (p + k) = bs ! k"
  by (simp add: put_bytes_def)

lemma sync_super_ok:
  assumes "io_ok s" "0 < nblocks s" "length (sup_info (super s)) = 32"
  shows "\<exists>t. sfs_sync_super s = Some (None, t) \<and> same_fs s t \<and> bytes_at t 0 0 SUPER_SIZE = super_bytes (super s)
    \<and> (\<forall>m a. 0 < m \<and> a < 4096 \<longrightarrow> block_at t m a = block_at s m a)"
proof -
  let ?b = "super_bytes (super s)"
  define v where "v = s\<lparr>kbytes := put_bytes (sfs_buffer s) ?b (memset (sfs_buffer s) 0 SFS_BLKSIZE (kbytes s))\<rparr>"
  have l: "length ?b = SUPER_SIZE" using assms(3) by (simp add: super_bytes_def SUPER_SIZE_def)
  have v: "same_fs s v" "dimage v = dimage s" by (simp_all add: v_def same_fs_def)
  then have io: "io_ok v" using assms(1) same_fs_io_ok by blast
  have "SFS_BLKN_SUPER < sup_blocks (super v)"
    using assms(2) v(1) by (simp add: SFS_BLKN_SUPER_def nblocks_def same_fs_def word_less_nat_alt)
  then obtain t where t: "sfs_rwblock_nolock (sfs_buffer s) SFS_BLKN_SUPER True False v = Some (None, t)" "same_fs v t"
    "\<forall>a<4096. block_at t 0 a = kbytes v (sfs_buffer s + a)" "\<forall>n a. n \<noteq> 0 \<and> a < 4096 \<longrightarrow> block_at t n a = block_at v n a"
    using write_block [OF io, of SFS_BLKN_SUPER False "sfs_buffer s"] by (auto simp: SFS_BLKN_SUPER_def)
  have "bytes_at t 0 0 (length ?b) = ?b"
    using t(3) l by (intro bytes_at_written) (simp add: SUPER_SIZE_def v_def put_bytes_at)
  moreover have "sfs_sync_super s = Some (None, t)" using t(1) by (simp add: sfs_sync_super_def v_def)
  moreover have "block_at t m a = block_at s m a" if "0 < m" "a < 4096" for m a
    using t(4) that v(2) by (simp add: block_at_def)
  ultimately show ?thesis using same_fs_trans [OF v(1) t(2)] l by auto
qed

definition map_bytes :: "sfs_fs \<Rightarrow> u8 list" where
  "map_bytes s = concat (map le32 (bmap (freemap s)))"

lemma sync_freemap_ok:
  assumes "io_ok s" "2 + map_blocks s \<le> nblocks s" "length (bmap (freemap s)) = 1024 * map_blocks s"
    and "far (freemap_data s) (map_blocks s) s"
  shows "\<exists>t. sfs_sync_freemap s = Some (None, t) \<and> same_fs s t
    \<and> (\<forall>i a. i < map_blocks s \<and> a < 4096 \<longrightarrow> block_at t (2 + i) a = map_bytes s ! (4096 * i + a))
    \<and> (\<forall>m a. (m < 2 \<or> 2 + map_blocks s \<le> m) \<and> a < 4096 \<longrightarrow> block_at t m a = block_at s m a)"
proof -
  define v where "v = s\<lparr>kbytes := put_bytes (freemap_data s) (map_bytes s) (kbytes s)\<rparr>"
  have l: "length (map_bytes s) = 4096 * map_blocks s" using assms(3) by (simp add: map_bytes_def)
  have v: "same_fs s v" "dimage v = dimage s" "far (freemap_data s) (map_blocks s) v" "nblocks v = nblocks s"
    using assms(4) by (simp_all add: v_def same_fs_def far_def nblocks_def)
  then have io: "io_ok v" using assms(1) same_fs_io_ok by blast
  have "unat SFS_BLKN_FREEMAP = 2" "SFS_BLKN_FREEMAP \<noteq> 0" by (simp_all add: SFS_BLKN_FREEMAP_def)
  with write_blocks [OF io, of SFS_BLKN_FREEMAP "map_blocks s" "freemap_data s"] v(3,4) assms(2)
  obtain t where t: "sfs_wblock (freemap_data s) SFS_BLKN_FREEMAP (map_blocks s) v = Some (None, t)" "same_fs v t"
    "\<forall>i a. i < map_blocks s \<and> a < 4096 \<longrightarrow> block_at t (2 + i) a = kbytes v (freemap_data s + 4096 * i + a)"
    "\<forall>m a. (m < 2 \<or> 2 + map_blocks s \<le> m) \<and> a < 4096 \<longrightarrow> block_at t m a = block_at v m a"
    by auto
  have "unat (sfs_freemap_blocks (super s)) = map_blocks s"
    using assms(1) unat_freemap(1) by (simp add: io_ok_def nblocks_def)
  then have "sfs_sync_freemap s = Some (None, t)"
    using t(1) by (simp add: sfs_sync_freemap_def v_def bitmap_getdata_def map_bytes_def)
  moreover have "block_at t (2 + i) a = map_bytes s ! (4096 * i + a)" if "i < map_blocks s" "a < 4096" for i a
  proof -
    have "4096 * i + a < length (map_bytes s)" using that l by linarith
    then show ?thesis using t(3) that by (simp add: v_def put_bytes_at add.assoc)
  qed
  moreover have "block_at t m a = block_at s m a" if "m < 2 \<or> 2 + map_blocks s \<le> m" "a < 4096" for m a
    using t(4) that v(2) by (simp add: block_at_def)
  ultimately show ?thesis using same_fs_trans [OF v(1) t(2)] by blast
qed

section \<open>Reading\<close>

lemma init_read_ok:
  assumes "disk_ok d" "unat b < d_blocks d" "unat b < 2 ^ 20" "apart p (disk0_buffer d)"
  shows "\<exists>d'. sfs_init_read b p d = Some (None, d') \<and> d' = d\<lparr>kbytes := kbytes d'\<rparr>
    \<and> (\<forall>a<4096. kbytes d' (p + a) = block_at d (unat b) a)
    \<and> (\<forall>a. \<not> (p \<le> a \<and> a < p + 4096) \<and> \<not> (disk0_buffer d \<le> a \<and> a < disk0_buffer d + 4096) \<longrightarrow> kbytes d' a = kbytes d a)"
proof -
  obtain iob d' where "disk0_io (iobuf_init p 4096 (int (4096 * unat b))) False d = Some (None, iob, d')"
    "d' = d\<lparr>kbytes := kbytes d'\<rparr>" "\<forall>a<4096. kbytes d' (p + a) = block_at d (unat b) a"
    "\<forall>a. \<not> (p \<le> a \<and> a < p + 4096) \<and> \<not> (disk0_buffer d \<le> a \<and> a < disk0_buffer d + 4096) \<longrightarrow> kbytes d' a = kbytes d a"
    using disk0_io_one(1) [OF assms(1,2) refl assms(3,4)] by blast
  then show ?thesis using offset_of_block [OF assms(3)] by (simp add: sfs_init_read_def SFS_BLKSIZE_def)
qed

lemma init_freemap_loop_ok:
  assumes "disk_ok d" "unat b + n \<le> d_blocks d" "unat b + n \<le> 2 ^ 20" "far p n d"
  shows "\<exists>d'. init_freemap_loop b n p d = Some (None, d') \<and> d' = d\<lparr>kbytes := kbytes d'\<rparr>
    \<and> (\<forall>i a. i < n \<and> a < 4096 \<longrightarrow> kbytes d' (p + 4096 * i + a) = block_at d (unat b + i) a)
    \<and> (\<forall>a. a < p \<and> \<not> (disk0_buffer d \<le> a \<and> a < disk0_buffer d + 4096) \<longrightarrow> kbytes d' a = kbytes d a)"
  using assms
proof (induction n arbitrary: b p d)
  case (Suc n)
  have ap: "apart p (disk0_buffer d)" using Suc.prems(4) by (auto simp: far_def apart_def)
  obtain u where u: "sfs_init_read b p d = Some (None, u)" "u = d\<lparr>kbytes := kbytes u\<rparr>"
    "\<forall>a<4096. kbytes u (p + a) = block_at d (unat b) a"
    "\<forall>a. \<not> (p \<le> a \<and> a < p + 4096) \<and> \<not> (disk0_buffer d \<le> a \<and> a < disk0_buffer d + 4096) \<longrightarrow> kbytes u a = kbytes d a"
    using init_read_ok [OF Suc.prems(1) _ _ ap, of b] Suc.prems(2,3) by auto
  have f: "disk0_buffer u = disk0_buffer d" "dimage u = dimage d" "disk_ok u = disk_ok d" "d_blocks u = d_blocks d"
    by (subst u(2), simp add: disk_ok_def)+
  have b1: "unat (b + 1) = unat b + 1" using Suc.prems(3) by (simp add: unat_word_ariths)
  have "unat (b + 1) + n \<le> d_blocks u" "unat (b + 1) + n \<le> 2 ^ 20" "far (p + 4096) n u" "disk_ok u"
    using Suc.prems b1 f by (auto simp: far_def)
  from Suc.IH [OF this(4,1,2,3)] obtain t where t: "init_freemap_loop (b + 1) n (p + 4096) u = Some (None, t)" "t = u\<lparr>kbytes := kbytes t\<rparr>"
    "\<forall>i a. i < n \<and> a < 4096 \<longrightarrow> kbytes t (p + 4096 + 4096 * i + a) = block_at u (unat (b + 1) + i) a"
    "\<forall>a. a < p + 4096 \<and> \<not> (disk0_buffer u \<le> a \<and> a < disk0_buffer u + 4096) \<longrightarrow> kbytes t a = kbytes u a" by blast
  have 1: "init_freemap_loop b (Suc n) p d = Some (None, t)" using u(1) t(1) by (simp add: SFS_BLKSIZE_def)
  have 2: "t = d\<lparr>kbytes := kbytes t\<rparr>" by (subst t(2), subst u(2)) simp
  have 3: "kbytes t (p + 4096 * i + a) = block_at d (unat b + i) a" if "i < Suc n" "a < 4096" for i a
  proof (cases i)
    case 0
    have "\<not> (disk0_buffer d \<le> p + a \<and> p + a < disk0_buffer d + 4096)" using ap that(2) by (auto simp: apart_def)
    then show ?thesis using t(4) u(3) that(2) 0 f(1) by simp
  next
    case (Suc j)
    then show ?thesis using t(3) that b1 f(2) by (auto simp: add.assoc block_at_def)
  qed
  have 4: "kbytes t a = kbytes d a" if "a < p" "\<not> (disk0_buffer d \<le> a \<and> a < disk0_buffer d + 4096)" for a
    using t(4) u(4) that f(1) by simp
  show ?case using 1 2 3 4 by blast
qed (auto simp: block_at_def)

section \<open>The round trip\<close>

lemma super_round_trip:
  assumes "length (sup_info p) = 32" "sup_info p ! 31 = 0"
  shows "super_of (super_bytes p) = p"
proof -
  have "(sup_info p)[31 := 0] = sup_info p" using assms(2) list_update_id [of "sup_info p" 31] by simp
  then show ?thesis using assms(1) by (simp add: super_of_def super_bytes_def SFS_MAX_INFO_LEN_def)
qed

lemma words_round_trip: "length ws = n \<Longrightarrow> words_of n (concat (map le32 ws)) = ws"
  using rd32_concat [of _ ws "[]"] by (auto simp: words_of_def intro: nth_equalityI)

lemma create_full:
  assumes "unat nb = m * 32768" "0 < m" "m \<le> 32"
  shows "bitmap_create True True nb = Some (Some \<lparr>nbits = nb, nwords = ROUNDUP_DIV nb 32, bmap = replicate (1024 * m) (- 1)\<rparr>)"
    "unat (ROUNDUP_DIV nb 32) = 1024 * m"
proof -
  have n: "unat (ROUNDUP_DIV nb 32) = 1024 * m" using unat_ROUNDUP_DIV_32 [of nb] assms(1) by simp
  then show "unat (ROUNDUP_DIV nb 32) = 1024 * m" .
  have u: "unat (ucast nb :: u64) = m * 32768" "unat (ucast (ROUNDUP_DIV nb 32) :: u64) = 1024 * m"
    using assms n by (simp_all add: unsigned_ucast_eq take_bit_nat_eq_self)
  have "unat (ucast (ROUNDUP_DIV nb 32) * 32 :: u64) = unat (ucast nb :: u64)"
    using u assms(3) by (simp add: unat_word_ariths)
  then have e: "ucast (ROUNDUP_DIV nb 32) * 32 = (ucast nb :: u64)" by (simp only: word_unat_eq_iff)
  have "unat (ucast nb + 32 :: u64) = m * 32768 + 32" using u(1) assms(3) by (simp add: unat_word_ariths)
  then have "ucast nb + 32 > (ucast nb :: u64)" using u(1) by (simp add: word_less_nat_alt)
  moreover have "nb \<noteq> 0" using assms(1,2) by auto
  ultimately show "bitmap_create True True nb = Some (Some \<lparr>nbits = nb, nwords = ROUNDUP_DIV nb 32, bmap = replicate (1024 * m) (- 1)\<rparr>)"
    by (simp add: bitmap_create_def Let_def e n)
qed

lemma count_free_eq:
  assumes "bm_inv fm"
  shows "count_free fm (unat (nbits fm)) = card (free_bits fm)"
proof -
  have "bitmap_test fm (word_of_nat i) = Some (i \<in> free_bits fm)" if "i < unat (nbits fm)" for i
  proof -
    have "unat (word_of_nat i :: u32) = i"
      using that unsigned_less [of "nbits fm", where ?'a = nat] by (simp add: unat_of_nat take_bit_nat_eq_self)
    then show ?thesis using bitmap_test_iff [OF assms, of "word_of_nat i"] that by (simp add: word_less_nat_alt)
  qed
  then have "filter (\<lambda>i. bitmap_test fm (word_of_nat i) = Some True) [0..<unat (nbits fm)] = filter (\<lambda>i. i \<in> free_bits fm) [0..<unat (nbits fm)]"
    by (intro filter_cong) auto
  moreover have "set (filter (\<lambda>i. i \<in> free_bits fm) [0..<unat (nbits fm)]) = free_bits fm"
    using assms by (auto simp: bm_inv_def)
  ultimately show ?thesis unfolding count_free_def by (metis distinct_card distinct_filter distinct_upt)
qed

definition mountable_fs :: "sfs_fs \<Rightarrow> bool" where
  "mountable_fs s \<longleftrightarrow> fs_ok s \<and> sup_magic (super s) = SFS_MAGIC \<and> length (sup_info (super s)) = 32 \<and> sup_info (super s) ! 31 = 0
     \<and> 2 + map_blocks s \<le> nblocks s \<and> nbits (freemap s) = sfs_freemap_bits (super s)
     \<and> nwords (freemap s) = ROUNDUP_DIV (nbits (freemap s)) 32 \<and> far (freemap_data s) (map_blocks s) s"

lemma mountable_sizes:
  assumes "mountable_fs s"
  shows "0 < map_blocks s" "map_blocks s \<le> 32" "unat (nbits (freemap s)) = map_blocks s * 32768"
    "length (bmap (freemap s)) = 1024 * map_blocks s" "unat (sfs_freemap_blocks (super s)) = map_blocks s"
proof -
  have n: "nblocks s \<le> 2 ^ 20" using assms nblocks_le by (simp add: mountable_fs_def)
  show "map_blocks s \<le> 32" "unat (sfs_freemap_blocks (super s)) = map_blocks s" using unat_freemap [OF n] by auto
  have "32768 \<le> nblocks s + 32767" using assms by (simp add: mountable_fs_def)
  then show p: "0 < map_blocks s" unfolding map_blocks_def by (simp only: div_greater_zero_iff) simp
  show b: "unat (nbits (freemap s)) = map_blocks s * 32768" using assms unat_freemap(2) [OF n] by (simp add: mountable_fs_def)
  show "length (bmap (freemap s)) = 1024 * map_blocks s"
    using create_full(2) [OF b p \<open>map_blocks s \<le> 32\<close>] assms by (simp add: mountable_fs_def fs_ok_def bm_inv_def)
qed

text \<open>A disk that holds the superblock and the bitmap of \<open>s\<close>.\<close>

definition holds_fs :: "sfs_fs \<Rightarrow> disk0 \<Rightarrow> bool" where
  "holds_fs s d \<longleftrightarrow> bytes_at d 0 0 SUPER_SIZE = super_bytes (super s)
     \<and> (\<forall>i a. i < map_blocks s \<and> a < 4096 \<longrightarrow> block_at d (2 + i) a = map_bytes s ! (4096 * i + a))
     \<and> d_blocks d = d_blocks s \<and> disk_ok d"

lemma sync_ok:
  assumes "mountable_fs s" "super_dirty s"
  shows "\<exists>t. sync_super_freemap s = Some (None, t) \<and> same_fs (s\<lparr>super_dirty := False\<rparr>) t \<and> holds_fs s (disk0.truncate t)
    \<and> (\<forall>m a. 0 < m \<and> (m < 2 \<or> 2 + map_blocks s \<le> m) \<and> a < 4096 \<longrightarrow> block_at t m a = block_at s m a)"
proof -
  note z = mountable_sizes [OF assms(1)]
  note m = assms(1) [unfolded mountable_fs_def]
  let ?s = "s\<lparr>super_dirty := False\<rparr>"
  have io: "io_ok ?s" "nblocks ?s = nblocks s" "map_blocks ?s = map_blocks s"
    using m by (simp_all add: fs_ok_def io_ok_def disk_ok_def nblocks_def map_blocks_def)
  obtain u where u: "sfs_sync_super ?s = Some (None, u)" "same_fs ?s u" "bytes_at u 0 0 SUPER_SIZE = super_bytes (super s)"
    "\<forall>m a. 0 < m \<and> a < 4096 \<longrightarrow> block_at u m a = block_at ?s m a"
    using sync_super_ok [OF io(1)] m io(2) by auto
  have f: "nblocks u = nblocks s" "map_blocks u = map_blocks s" "freemap u = freemap s" "freemap_data u = freemap_data s"
    "disk0_buffer u = disk0_buffer s" "map_bytes u = map_bytes s"
    using u(2) by (simp_all add: same_fs_def nblocks_def map_blocks_def map_bytes_def)
  have "io_ok u" using same_fs_io_ok [OF u(2)] io(1) by simp
  then obtain t where t: "sfs_sync_freemap u = Some (None, t)" "same_fs u t"
    "\<forall>i a. i < map_blocks s \<and> a < 4096 \<longrightarrow> block_at t (2 + i) a = map_bytes s ! (4096 * i + a)"
    "\<forall>m a. (m < 2 \<or> 2 + map_blocks s \<le> m) \<and> a < 4096 \<longrightarrow> block_at t m a = block_at u m a"
    using sync_freemap_ok [of u] m z(4) f by (auto simp: far_def)
  have "bytes_at t 0 0 SUPER_SIZE = super_bytes (super s)"
    using t(4) u(3) bytes_at_cong [of 0 SUPER_SIZE t 0 u] by (simp add: SUPER_SIZE_def)
  moreover have "same_fs ?s t" by (rule same_fs_trans [OF u(2) t(2)])
  moreover have "disk_ok t = disk_ok s" "d_blocks t = d_blocks s" using same_fs_trans [OF u(2) t(2)] by (simp_all add: same_fs_def disk_ok_def)
  ultimately have "holds_fs s (disk0.truncate t)"
    using t(3) m by (simp add: holds_fs_def bytes_at_def block_at_def disk0.truncate_def disk_ok_def fs_ok_def io_ok_def)
  moreover have "sync_super_freemap s = Some (None, t)" using u(1) t(1) assms(2) by (simp add: sync_super_freemap_def)
  moreover have "block_at t m a = block_at s m a" if "0 < m" "m < 2 \<or> 2 + map_blocks s \<le> m" "a < 4096" for m a
    using t(4) u(4) that by (simp add: block_at_def)
  ultimately show ?thesis using \<open>same_fs ?s t\<close> by blast
qed

lemma mount_ok:
  assumes "mountable_fs s" "holds_fs s d" "apart buf (disk0_buffer d)" "far kmap (map_blocks s) d"
  shows "\<exists>m d'. sfs_do_mount True (Some buf) True True (Some kmap) 4096 d = Some (Inr m, d') \<and> dimage d' = dimage d
    \<and> dimage (mfs m) = dimage d \<and> super (mfs m) = super s \<and> freemap (mfs m) = freemap s \<and> inode_list m = []"
proof -
  note z = mountable_sizes [OF assms(1)]
  note m = assms(1) [unfolded mountable_fs_def]
  note h = assms(2) [unfolded holds_fs_def]
  have nb: "nblocks s \<le> d_blocks d" "nblocks s \<le> 2 ^ 20" using m h by (auto simp: fs_ok_def io_ok_def nblocks_def)
  have z0: "unat SFS_BLKN_SUPER = 0" "unat SFS_BLKN_FREEMAP = 2" by (simp_all add: SFS_BLKN_SUPER_def SFS_BLKN_FREEMAP_def)
  obtain d1 where d1: "sfs_init_read SFS_BLKN_SUPER buf d = Some (None, d1)" "d1 = d\<lparr>kbytes := kbytes d1\<rparr>"
    "\<forall>a<4096. kbytes d1 (buf + a) = block_at d 0 a"
    using init_read_ok [of d SFS_BLKN_SUPER buf] h nb m assms(3) unfolding z0 by auto
  have f1: "dimage d1 = dimage d" "d_blocks d1 = d_blocks d" "disk0_buffer d1 = disk0_buffer d" "disk_ok d1"
    using h by (subst d1(2), simp add: disk_ok_def)+
  have "mem_bytes buf SUPER_SIZE (kbytes d1) = bytes_at d 0 0 SUPER_SIZE"
    using d1(3) by (simp add: mem_bytes_def bytes_at_def SUPER_SIZE_def)
  then have sb: "super_of (mem_bytes buf SUPER_SIZE (kbytes d1)) = super s"
    using h m super_round_trip by simp
  have pre: "unat SFS_BLKN_FREEMAP + map_blocks s \<le> d_blocks d1" "unat SFS_BLKN_FREEMAP + map_blocks s \<le> 2 ^ 20" "far kmap (map_blocks s) d1"
    using m nb assms(4) f1 unfolding z0 far_def by auto
  obtain d2 where d2: "init_freemap_loop SFS_BLKN_FREEMAP (map_blocks s) kmap d1 = Some (None, d2)" "d2 = d1\<lparr>kbytes := kbytes d2\<rparr>"
    "\<forall>i a. i < map_blocks s \<and> a < 4096 \<longrightarrow> kbytes d2 (kmap + 4096 * i + a) = block_at d1 (2 + i) a"
    using init_freemap_loop_ok [OF f1(4) pre] unfolding z0 by blast
  have f2: "dimage d2 = dimage d" by (subst d2(2)) (simp add: f1)
  have mb: "mem_bytes kmap (map_blocks s * 4096) (kbytes d2) = map_bytes s"
  proof (rule nth_equalityI)
    show "length (mem_bytes kmap (map_blocks s * 4096) (kbytes d2)) = length (map_bytes s)"
      using z(4) by (simp add: mem_bytes_def map_bytes_def)
    fix k
    assume "k < length (mem_bytes kmap (map_blocks s * 4096) (kbytes d2))"
    then have k: "k < map_blocks s * 4096" "k div 4096 < map_blocks s" "k mod 4096 < 4096" "k = 4096 * (k div 4096) + k mod 4096"
      by (simp_all add: mem_bytes_def less_mult_imp_div_less)
    have "kbytes d2 (kmap + k) = block_at d1 (2 + k div 4096) (k mod 4096)"
      using d2(3) [rule_format, of "k div 4096" "k mod 4096"] k(2,3) by (simp add: add.assoc)
    also have "\<dots> = block_at d (2 + k div 4096) (k mod 4096)" by (simp only: block_at_def f1(1))
    also have "\<dots> = map_bytes s ! (4096 * (k div 4096) + k mod 4096)" using h k(2,3) by blast
    finally have "kbytes d2 (kmap + k) = map_bytes s ! k" by simp
    with k(1) show "mem_bytes kmap (map_blocks s * 4096) (kbytes d2) ! k = map_bytes s ! k" by (simp add: mem_bytes_def)
  qed
  let ?nb = "sfs_freemap_bits (super s)"
  have n: "unat ?nb = map_blocks s * 32768" using z(3) m by simp
  let ?fm = "\<lparr>nbits = ?nb, nwords = ROUNDUP_DIV ?nb 32, bmap = replicate (1024 * map_blocks s) (- 1)\<rparr>"
  have c: "bitmap_create True True ?nb = Some (Some ?fm)" "unat (ROUNDUP_DIV ?nb 32) = 1024 * map_blocks s"
    using create_full [OF n z(1,2)] by auto
  have fm: "?fm\<lparr>bmap := bmap (freemap s)\<rparr> = freemap s" using m by simp
  have i: "sfs_init_freemap ?fm kmap SFS_BLKN_FREEMAP (map_blocks s) d1 = Some (Inr (freemap s), d2)"
    using d2(1) mb c(2) words_round_trip [OF z(4)] fm
    by (simp add: sfs_init_freemap_def bitmap_getdata_def SFS_BLKSIZE_def map_bytes_def)
  have "word_of_nat (count_free (freemap s) (unat ?nb)) = sup_unused (super s)"
  proof -
    have "count_free (freemap s) (unat ?nb) = card (frees s)"
      using count_free_eq [of "freemap s"] m by (simp add: fs_ok_def frees_def)
    then have "count_free (freemap s) (unat ?nb) = unat (sup_unused (super s))" using m by (simp add: fs_ok_def)
    then show ?thesis by simp
  qed
  then have mf: "mount_freemap True True (Some kmap) buf (super s) d1 =
      Some (Inr \<lparr>mfs = disk0.extend d2 \<lparr>super = super s, freemap = freemap s, freemap_data = kmap, super_dirty = False, sfs_buffer = buf\<rparr>,
        sins = (\<lambda>_. None), reclaim_count = (\<lambda>_. 0), inode_list = [], hash_lists = (\<lambda>_. []), kcalls = 0\<rparr>, d2)"
    using c(1) i z(5) by (simp add: mount_freemap_def)
  have "\<not> unat (sup_blocks (super s)) > d_blocks d1" using nb(1) f1(2) by (simp add: nblocks_def)
  then have "sfs_do_mount True (Some buf) True True (Some kmap) 4096 d = mount_freemap True True (Some kmap) buf (super s) d1"
    using d1(1) sb m by (simp add: sfs_do_mount_def SFS_BLKSIZE_def Let_def)
  with mf f2 show ?thesis by (simp add: disk0.extend_def)
qed

text \<open>C35: synchronising a file system with changes succeeds and mounting the disk afterwards succeeds and
  reads back the same superblock and the same bitmap of free blocks; the check of the number of free
  blocks passes, and no block but the superblock and those of the bitmap has changed.\<close>

theorem sync_mount_round_trip:
  assumes "mountable_fs s" "super_dirty s" "apart buf (disk0_buffer s)" "far kmap (map_blocks s) s"
  shows "\<exists>t m d. sync_super_freemap s = Some (None, t) \<and> \<not> super_dirty t
    \<and> sfs_do_mount True (Some buf) True True (Some kmap) 4096 (disk0.truncate t) = Some (Inr m, d)
    \<and> super (mfs m) = super s \<and> freemap (mfs m) = freemap s
    \<and> (\<forall>n a. 0 < n \<and> (n < 2 \<or> 2 + map_blocks s \<le> n) \<and> a < 4096 \<longrightarrow> block_at (mfs m) n a = block_at s n a)"
proof -
  obtain t where t: "sync_super_freemap s = Some (None, t)" "same_fs (s\<lparr>super_dirty := False\<rparr>) t" "holds_fs s (disk0.truncate t)"
    "\<forall>m a. 0 < m \<and> (m < 2 \<or> 2 + map_blocks s \<le> m) \<and> a < 4096 \<longrightarrow> block_at t m a = block_at s m a"
    using sync_ok [OF assms(1,2)] by blast
  have b: "disk0_buffer (disk0.truncate t) = disk0_buffer s" "dimage (disk0.truncate t) = dimage t"
    using t(2) by (simp_all add: disk0.truncate_def same_fs_def)
  then obtain m d where m: "sfs_do_mount True (Some buf) True True (Some kmap) 4096 (disk0.truncate t) = Some (Inr m, d)"
    "super (mfs m) = super s" "freemap (mfs m) = freemap s" "dimage (mfs m) = dimage t"
    using mount_ok [OF assms(1) t(3), of buf kmap] assms(3,4) by (auto simp: far_def)
  have "\<not> super_dirty t" using t(2) by (simp add: same_fs_def)
  with t(1,4) m show ?thesis by (intro exI [of _ t] exI [of _ m] exI [of _ d]) (simp add: block_at_def)
qed

text \<open>The small file system with a bitmap of a whole block.\<close>

definition demo_mount_fs :: sfs_fs where
  "demo_mount_fs = demo_sfs\<lparr>freemap := \<lparr>nbits = 32768, nwords = 1024, bmap = 0xE0 # replicate 1023 0\<rparr>,
     super_dirty := True\<rparr>"

lemma frees_demo_mount: "frees demo_mount_fs = {5, 6, 7}"
proof -
  have "bit ((0xE0 # replicate 1023 0 :: u32 list) ! (i div 32)) (i mod 32) \<longleftrightarrow> i < 32 \<and> bit (0xE0 :: u32) i"
    if "i < 32768" for i
  proof (cases "i < 32")
    case False
    then obtain k where "i div 32 = Suc k" by (metis Suc_pred div_greater_zero_iff not_less zero_less_numeral)
    moreover from this that have "k < 1023" by simp
    ultimately show ?thesis using False by simp
  qed simp
  then have "frees demo_mount_fs = {i. i < 32 \<and> bit (0xE0 :: u32) i}"
    by (auto simp: frees_def free_bits_def demo_mount_fs_def)
  also have "\<dots> = set (filter (\<lambda>i. bit (0xE0 :: u32) i) [0..<32])" by auto
  also have "\<dots> = {5, 6, 7}" by code_simp
  finally show ?thesis .
qed

lemma mountable_demo: "mountable_fs demo_mount_fs"
proof -
  have n: "nblocks demo_mount_fs = 8" by (simp add: nblocks_def demo_mount_fs_def demo_sfs_def)
  have m: "map_blocks demo_mount_fs = 1" by (simp add: map_blocks_def n)
  have "bm_inv (freemap demo_mount_fs)"
    using frees_demo_mount by (simp add: frees_def bm_inv_def) (simp add: demo_mount_fs_def)
  then have fs: "fs_ok demo_mount_fs"
    unfolding fs_ok_def frees_demo_mount n
    by (simp add: demo_mount_fs_def demo_sfs_def io_ok_def disk_ok_def apart_def MAX_DISK_NSECS_def)
  have b: "unat (sfs_freemap_bits (super demo_mount_fs)) = 32768" using unat_freemap(2) [of demo_mount_fs] n m by simp
  have "sfs_freemap_bits (super demo_mount_fs) = 32768"
    using b by (simp add: word_unat_eq_iff)
  moreover have "ROUNDUP_DIV 32768 32 = 1024" using create_full(2) [of 32768 1] by (simp add: word_unat_eq_iff)
  ultimately show ?thesis
    using fs by (simp add: mountable_fs_def n m far_def) (simp add: demo_mount_fs_def demo_sfs_def SFS_MAGIC_def)
qed

theorem sync_mount_round_trip_witness:
  "\<exists>t m d. sync_super_freemap demo_mount_fs = Some (None, t) \<and> \<not> super_dirty t
    \<and> sfs_do_mount True (Some 20000) True True (Some 30000) 4096 (disk0.truncate t) = Some (Inr m, d)
    \<and> freemap (mfs m) = freemap demo_mount_fs"
proof -
  have "super_dirty demo_mount_fs" "apart 20000 (disk0_buffer demo_mount_fs)" "far 30000 (map_blocks demo_mount_fs) demo_mount_fs"
    by (simp_all add: demo_mount_fs_def demo_sfs_def apart_def far_def)
  from sync_mount_round_trip [OF mountable_demo this] show ?thesis by blast
qed

end
