(* ===== verification/Slob.thy ===== *)
theory Slob
  imports First_Fit "HOL-Library.Monad_Syntax"
begin

text \<open>
  The kernel heap, \<open>lab8/kern/mm/kmalloc.c\<close>: a circular list of free blocks in the order of
  their addresses, from which small objects are cut, and a list of the page blocks that hold
  large objects.

  An address is a natural number, the offset of a kernel address from the first page frame:
  frame \<open>p\<close> holds the addresses from \<open>4096 * p\<close> on, so that \<open>page2kva\<close> and \<open>kva2page\<close> are
  a product and a quotient. A \<open>slob_t *\<close> is the address of the block; its two fields are the
  maps \<open>units\<close> and \<open>snext\<close>. The descriptors of the large objects, which the code keeps in blocks of
  its own heap, are the list \<open>bigblocks\<close> in the order of their links. The block \<open>arena\<close> is a
  static object of the kernel image, whose address is a field of the state. The pages come from
  the first-fit allocator.
\<close>

section \<open>State\<close>

definition PAGE_SIZE :: nat where "PAGE_SIZE = 4096"
definition SLOB_UNIT :: nat where "SLOB_UNIT = 16"

definition SLOB_UNITS :: "nat \<Rightarrow> nat" where
  "SLOB_UNITS n = (n + SLOB_UNIT - 1) div SLOB_UNIT"

definition SLOB_ALIGN_UP :: "nat \<Rightarrow> nat \<Rightarrow> nat" where
  "SLOB_ALIGN_UP addr align = (addr + align - 1) div align * align"

record bigblock =
  bb_at :: nat
  bb_order :: nat
  bb_pages :: nat

text \<open>\<open>sizeof(bigblock_t)\<close>.\<close>

definition BIGBLOCK_SIZE :: nat where "BIGBLOCK_SIZE = 24"

record kheap =
  units :: "nat \<Rightarrow> nat"
  snext :: "nat \<Rightarrow> nat"
  arena :: nat
  slobfree :: nat
  bigblocks :: "bigblock list"
  kpages :: free_area
  kswap :: bool

definition set_units :: "nat \<Rightarrow> nat \<Rightarrow> kheap \<Rightarrow> kheap" where
  "set_units b v h = h\<lparr>units := (units h)(b := v)\<rparr>"

definition set_next :: "nat \<Rightarrow> nat \<Rightarrow> kheap \<Rightarrow> kheap" where
  "set_next b v h = h\<lparr>snext := (snext h)(b := v)\<rparr>"

lemma set_simps [simp]:
  "units (set_units b v h) = (units h)(b := v)" "snext (set_units b v h) = snext h"
  "units (set_next b v h) = units h" "snext (set_next b v h) = (snext h)(b := v)"
  "arena (set_units b v h) = arena h" "arena (set_next b v h) = arena h"
  "slobfree (set_units b v h) = slobfree h" "slobfree (set_next b v h) = slobfree h"
  "bigblocks (set_units b v h) = bigblocks h" "bigblocks (set_next b v h) = bigblocks h"
  "kpages (set_units b v h) = kpages h" "kpages (set_next b v h) = kpages h"
  "kswap (set_units b v h) = kswap h" "kswap (set_next b v h) = kswap h"
  by (simp_all add: set_units_def set_next_def)

section \<open>The operations\<close>

text \<open>
  \<open>__slob_get_free_pages\<close> and \<open>__slob_free_pages\<close>. As in \<open>alloc_pages\<close>, a request for one page
  that fails while swapping is on goes to \<open>swap_out\<close> with the null \<open>check_mm_struct\<close>.
\<close>

definition slob_get_free_pages :: "nat \<Rightarrow> kheap \<Rightarrow> (nat option \<times> kheap) option" where
  "slob_get_free_pages order h = do {
     (r, f) \<leftarrow> default_alloc_pages (2 ^ order) (kpages h);
     if r = None \<and> \<not> 2 ^ order > (1 :: nat) \<and> kswap h then None
     else Some (map_option (\<lambda>p. PAGE_SIZE * p) r, h\<lparr>kpages := f\<rparr>) }"

definition slob_free_pages :: "nat \<Rightarrow> nat \<Rightarrow> kheap \<Rightarrow> kheap option" where
  "slob_free_pages kva order h = do {
     f \<leftarrow> default_free_pages (kva div PAGE_SIZE) (2 ^ order) (kpages h);
     Some (h\<lparr>kpages := f\<rparr>) }"

text \<open>\<open>slob_free\<close>: the search for the reinsertion point, and the insertion with its two merges.\<close>

partial_function (option) slob_point :: "nat \<Rightarrow> kheap \<Rightarrow> nat \<Rightarrow> nat option" where
  "slob_point b h cur =
     (if b > cur \<and> b < snext h cur then Some cur
      else if cur \<ge> snext h cur \<and> (b > cur \<or> b < snext h cur) then Some cur
      else slob_point b h (snext h cur))"

declare slob_point.simps [code]

definition slob_link_next :: "nat \<Rightarrow> nat \<Rightarrow> kheap \<Rightarrow> kheap" where
  "slob_link_next b cur h =
     (let n = snext h cur in
      if b + SLOB_UNIT * units h b = n
      then set_next b (snext h n) (set_units b (units h b + units h n) h)
      else set_next b n h)"

definition slob_link_prev :: "nat \<Rightarrow> nat \<Rightarrow> kheap \<Rightarrow> kheap" where
  "slob_link_prev b cur h =
     (if cur + SLOB_UNIT * units h cur = b
      then set_next cur (snext h b) (set_units cur (units h cur + units h b) h)
      else set_next cur b h)"

definition slob_free :: "nat \<Rightarrow> nat \<Rightarrow> kheap \<Rightarrow> kheap option" where
  "slob_free block sz h =
     (if block = 0 then Some h
      else let h = (if sz \<noteq> 0 then set_units block (SLOB_UNITS sz) h else h)
           in do {
             cur \<leftarrow> slob_point block h (slobfree h);
             Some (slob_link_prev block cur (slob_link_next block cur h)\<lparr>slobfree := cur\<rparr>) })"

text \<open>\<open>slob_alloc\<close>: cutting the block that was found, after its head has been split off for
  the alignment, and the walk around the list, which asks for a page after a full round.\<close>

definition slob_cut :: "nat \<Rightarrow> nat \<Rightarrow> nat \<Rightarrow> kheap \<Rightarrow> nat \<times> kheap" where
  "slob_cut n prev cur h =
     (let h = (if units h cur = n then set_next prev (snext h cur) h
               else let rest = cur + SLOB_UNIT * n;
                        h = set_next prev rest h;
                        h = set_units rest (units h cur - n) h;
                        h = set_next rest (snext h cur) h
                    in set_units cur n h)
      in (cur, h\<lparr>slobfree := prev\<rparr>))"

definition slob_split :: "nat \<Rightarrow> nat \<Rightarrow> nat \<Rightarrow> kheap \<Rightarrow> kheap" where
  "slob_split delta aligned cur h =
     (let h = set_units aligned (units h cur - delta) h;
          h = set_next aligned (snext h cur) h;
          h = set_next cur aligned h
      in set_units cur delta h)"

partial_function (option) slob_loop ::
    "nat \<Rightarrow> nat \<Rightarrow> nat \<Rightarrow> nat \<Rightarrow> nat \<Rightarrow> kheap \<Rightarrow> (nat option \<times> kheap) option" where
  "slob_loop sz align n prev cur h =
     (let aligned = (if align \<noteq> 0 then SLOB_ALIGN_UP cur align else 0);
          delta = (if align \<noteq> 0 then (aligned - cur) div SLOB_UNIT else 0)
      in if units h cur \<ge> n + delta
         then (let (prev, cur, h) = (if delta \<noteq> 0 then (cur, aligned, slob_split delta aligned cur h) else (prev, cur, h));
                   (m, h) = slob_cut n prev cur h
               in Some (Some m, h))
         else if cur = slobfree h
         then (if sz = PAGE_SIZE then Some (None, h)
               else Option.bind (slob_get_free_pages 0 h)
                 (\<lambda>(r, h). case r of
                    None \<Rightarrow> Some (None, h)
                  | Some page \<Rightarrow> Option.bind (slob_free page PAGE_SIZE h)
                      (\<lambda>h. slob_loop sz align n (slobfree h) (snext h (slobfree h)) h)))
         else slob_loop sz align n cur (snext h cur) h)"

declare slob_loop.simps [code]

definition slob_alloc :: "nat \<Rightarrow> nat \<Rightarrow> kheap \<Rightarrow> (nat option \<times> kheap) option" where
  "slob_alloc sz align h =
     (if sz + SLOB_UNIT < PAGE_SIZE
      then slob_loop sz align (SLOB_UNITS sz) (slobfree h) (snext h (slobfree h)) h
      else None)"

text \<open>\<open>find_order\<close> has an \<open>int\<close> parameter: the size is cut to 32 bits and read with its sign.\<close>

function find_order :: "int \<Rightarrow> nat" where
  "find_order n = (if n > 4096 then Suc (find_order (n div 2)) else 0)"
  by pat_completeness auto
termination by (relation "measure nat") auto

declare find_order.simps [simp del]

definition kmalloc :: "u64 \<Rightarrow> kheap \<Rightarrow> (nat option \<times> kheap) option" where
  "kmalloc sz h =
     (if unat sz < PAGE_SIZE - SLOB_UNIT
      then do {
        (m, h) \<leftarrow> slob_alloc (unat sz + SLOB_UNIT) 0 h;
        Some (map_option (\<lambda>m. m + SLOB_UNIT) m, h) }
      else do {
        (bb, h) \<leftarrow> slob_alloc BIGBLOCK_SIZE 0 h;
        (case bb of
           None \<Rightarrow> Some (None, h)
         | Some bb \<Rightarrow> do {
             let order = find_order (sint (ucast sz :: u32));
             (p, h) \<leftarrow> slob_get_free_pages order h;
             (case p of
                Some p \<Rightarrow> Some (Some p, h\<lparr>bigblocks := \<lparr>bb_at = bb, bb_order = order, bb_pages = p\<rparr> # bigblocks h\<rparr>)
              | None \<Rightarrow> do { h \<leftarrow> slob_free bb BIGBLOCK_SIZE h; Some (None, h) }) }) })"

text \<open>The walk of \<open>kfree\<close> with its pointer \<open>last\<close> to the link that leads to the descriptor.\<close>

fun unlink_big :: "nat \<Rightarrow> bigblock list \<Rightarrow> (bigblock \<times> bigblock list) option" where
  "unlink_big block [] = None"
| "unlink_big block (bb # bbs) =
     (if bb_pages bb = block then Some (bb, bbs)
      else map_option (\<lambda>(b, r). (b, bb # r)) (unlink_big block bbs))"

definition kfree :: "nat \<Rightarrow> kheap \<Rightarrow> kheap option" where
  "kfree block h =
     (if block = 0 then Some h
      else (case (if block mod PAGE_SIZE = 0 then unlink_big block (bigblocks h) else None) of
              Some (bb, rest) \<Rightarrow> do {
                h \<leftarrow> slob_free_pages block (bb_order bb) (h\<lparr>bigblocks := rest\<rparr>);
                slob_free (bb_at bb) BIGBLOCK_SIZE h }
            | None \<Rightarrow> slob_free (block - SLOB_UNIT) 0 h))"

definition ksize :: "nat \<Rightarrow> kheap \<Rightarrow> nat" where
  "ksize block h =
     (if block = 0 then 0
      else (case (if block mod PAGE_SIZE = 0 then find (\<lambda>bb. bb_pages bb = block) (bigblocks h) else None) of
              Some bb \<Rightarrow> PAGE_SIZE * 2 ^ bb_order bb
            | None \<Rightarrow> units h (block - SLOB_UNIT) * SLOB_UNIT))"

end
