(* ===== verification/Slob_Facts.thy ===== *)
theory Slob_Facts
  imports Slob
begin

text \<open>
  The invariant of the kernel heap and what its operations do: the ring of free blocks,
  \<open>slob_free\<close> and \<open>slob_alloc\<close> on it, and \<open>kmalloc\<close> and \<open>kfree\<close> above them.
\<close>

section \<open>Rings\<close>

text \<open>\<open>chain f p xs\<close>: the links lead from \<open>p\<close> through \<open>xs\<close>; in a ring they lead back.\<close>

fun chain :: "(nat \<Rightarrow> nat) \<Rightarrow> nat \<Rightarrow> nat list \<Rightarrow> bool" where
  "chain f p [] \<longleftrightarrow> True"
| "chain f p (x # xs) \<longleftrightarrow> f p = x \<and> chain f x xs"

definition ring :: "(nat \<Rightarrow> nat) \<Rightarrow> nat list \<Rightarrow> bool" where
  "ring f xs \<longleftrightarrow> xs \<noteq> [] \<and> distinct xs \<and> chain f (last xs) xs"

lemma chain_append: "chain f p (xs @ ys) \<longleftrightarrow> chain f p xs \<and> chain f (last (p # xs)) ys"
  by (induction xs arbitrary: p) auto

lemma chain_cong: "(\<And>x. x \<in> set (butlast (p # xs)) \<Longrightarrow> f x = g x) \<Longrightarrow> chain f p xs = chain g p xs"
proof (induction xs arbitrary: p)
  case (Cons x xs)
  from Cons.prems [of p] have "f p = g p" by simp
  moreover have "chain f x xs = chain g x xs" by (rule Cons.IH) (use Cons.prems in auto)
  ultimately show ?case by simp
qed simp

lemma chain_upd [simp]: "b \<notin> set (butlast (p # xs)) \<Longrightarrow> chain (f(b := v)) p xs = chain f p xs"
  by (rule chain_cong) auto

lemma ring_at: "ring f (as @ c # cs) \<Longrightarrow> chain f c (cs @ as @ [c])"
  by (simp add: ring_def chain_append split: if_splits)

lemma ringI: "distinct (as @ c # cs) \<Longrightarrow> chain f c (cs @ as @ [c]) \<Longrightarrow> ring f (as @ c # cs)"
  by (simp add: ring_def chain_append split: if_splits)

lemma ring_next: "ring f (as @ c # cs) \<Longrightarrow> f c = (case cs of [] \<Rightarrow> hd (as @ [c]) | x # _ \<Rightarrow> x)"
  by (drule ring_at) (cases cs; cases as; simp)

lemma ring_cong: "ring f xs \<Longrightarrow> (\<And>x. x \<in> set xs \<Longrightarrow> g x = f x) \<Longrightarrow> ring g xs"
  unfolding ring_def by (metis chain_cong in_set_butlastD last_in_set set_ConsD)

lemma ring_insert:
  assumes "ring f (as @ c # cs)" "b \<notin> set (as @ c # cs)"
  shows "ring (f(b := f c, c := b)) (as @ c # b # cs)"
proof -
  have d: "distinct (as @ c # cs)" using assms(1) by (simp add: ring_def)
  have ch: "chain f c (cs @ as @ [c])" by (rule ring_at [OF assms(1)])
  have "chain (f(b := f c, c := b)) b (cs @ as @ [c])"
  proof (cases "cs @ as @ [c]")
    case (Cons x xs)
    then have "set (butlast (x # xs)) \<subseteq> set cs \<union> set as"
      by (metis append_assoc butlast_snoc set_append subset_refl)
    then have "chain (f(b := f c, c := b)) x xs = chain f x xs"
      by (intro chain_cong) (use d assms(2) in auto)
    moreover have "b \<noteq> c" using assms(2) by auto
    ultimately show ?thesis using Cons ch by simp
  qed simp
  then show ?thesis using d assms(2) by (intro ringI) auto
qed

lemma ring_drop_next:
  assumes "ring f (as @ c # n # cs)"
  shows "ring (f(c := f n)) (as @ c # cs)"
proof -
  have d: "distinct (as @ c # n # cs)" using assms by (simp add: ring_def)
  have ch: "chain f n (cs @ as @ [c])" using ring_at [OF assms] by simp
  have "chain (f(c := f n)) c (cs @ as @ [c])"
  proof (cases "cs @ as @ [c]")
    case (Cons x xs)
    then have "set (butlast (x # xs)) \<subseteq> set cs \<union> set as"
      by (metis append_assoc butlast_snoc set_append subset_refl)
    then have "chain (f(c := f n)) x xs = chain f x xs"
      by (intro chain_cong) (use d in auto)
    with Cons ch show ?thesis by simp
  qed simp
  then show ?thesis using d by (intro ringI) auto
qed

section \<open>The invariant\<close>

text \<open>
  The free list is the arena followed by blocks \<open>ys\<close>, in the order of their addresses, with a
  gap behind each (two free blocks never touch). \<open>slob_bytes\<close> are the addresses in free
  blocks, \<open>page_bytes\<close> those of the free page frames.
\<close>

definition extent :: "kheap \<Rightarrow> nat \<Rightarrow> nat set" where
  "extent h b = {b..<b + SLOB_UNIT * units h b}"

definition gaps :: "kheap \<Rightarrow> nat list \<Rightarrow> bool" where
  "gaps h xs \<longleftrightarrow> sorted_wrt (\<lambda>a b. a + SLOB_UNIT * units h a < b) xs"

definition slob_bytes :: "kheap \<Rightarrow> nat list \<Rightarrow> nat set" where
  "slob_bytes h ys = (\<Union>y \<in> set ys. extent h y)"

definition slob_inv :: "kheap \<Rightarrow> nat list \<Rightarrow> bool" where
  "slob_inv h ys \<longleftrightarrow> ring (snext h) (arena h # ys) \<and> gaps h (arena h # ys)
     \<and> units h (arena h) = 1 \<and> (\<forall>y \<in> set ys. 0 < units h y)
     \<and> slobfree h \<in> set (arena h # ys) \<and> 0 < arena h"

lemma SLOB_UNIT_simp [simp]: "SLOB_UNIT = 16"
  by (simp add: SLOB_UNIT_def)

lemma PAGE_SIZE_simp [simp]: "PAGE_SIZE = 4096"
  by (simp add: PAGE_SIZE_def)

lemma gaps_Cons: "gaps h (x # xs) \<longleftrightarrow> (\<forall>y \<in> set xs. x + 16 * units h x < y) \<and> gaps h xs"
  by (auto simp: gaps_def)

lemma gaps_append: "gaps h (xs @ ys) \<longleftrightarrow> gaps h xs \<and> gaps h ys
    \<and> (\<forall>x \<in> set xs. \<forall>y \<in> set ys. x + 16 * units h x < y)"
  by (auto simp: gaps_def sorted_wrt_append)

lemma gaps_cong: "(\<And>x. x \<in> set xs \<Longrightarrow> units h x = units g x) \<Longrightarrow> gaps h xs = gaps g xs"
  by (induction xs) (auto simp: gaps_Cons gaps_def)

lemma slob_invD:
  assumes "slob_inv h ys"
  shows "ring (snext h) (arena h # ys)" "gaps h (arena h # ys)" "units h (arena h) = 1"
    "\<And>y. y \<in> set ys \<Longrightarrow> 0 < units h y" "slobfree h \<in> set (arena h # ys)" "0 < arena h"
    "\<And>y. y \<in> set ys \<Longrightarrow> arena h + 16 < y" "arena h \<notin> set ys" "distinct ys"
  using assms by (auto simp: slob_inv_def gaps_Cons ring_def)

text \<open>The split of the list at the place of a free-to-be block \<open>b\<close>.\<close>

lemma slob_place:
  assumes "slob_inv h ys" "arena h < b" "b \<notin> set ys"
  obtains as c cs where "arena h # ys = as @ c # cs" "c < b" "\<And>z. z \<in> set cs \<Longrightarrow> b < z"
    "\<And>z. z \<in> set as \<Longrightarrow> z < b"
proof -
  let ?xs = "arena h # ys"
  let ?l = "takeWhile (\<lambda>z. z < b) ?xs" and ?r = "dropWhile (\<lambda>z. z < b) ?xs"
  have "?l \<noteq> []" using assms(2) by simp
  then have l: "?l = butlast ?l @ [last ?l]" by simp
  have "gaps h (?l @ ?r)" using slob_invD(2) [OF assms(1)] by simp
  then have g: "gaps h ?r" by (simp only: gaps_append)
  show thesis
  proof
    show "?xs = butlast ?l @ last ?l # ?r" using l by (metis append.assoc append_Cons append_Nil takeWhile_dropWhile_id)
    show "last ?l < b" using \<open>?l \<noteq> []\<close> by (meson last_in_set set_takeWhileD)
    show "z < b" if "z \<in> set (butlast ?l)" for z
      using that by (meson in_set_butlastD set_takeWhileD)
    show "b < z" if z: "z \<in> set ?r" for z
    proof (cases ?r)
      case (Cons r rs)
      have "b \<le> r" using hd_dropWhile [of "\<lambda>z. z < b" ?xs] Cons by (simp del: takeWhile.simps dropWhile.simps)
      moreover have "r \<in> set ?xs" using Cons by (metis list.set_intros(1) set_dropWhileD)
      then have "r \<noteq> b" using assms(2,3) by auto
      ultimately have "b < r" by simp
      moreover have "r \<le> z" using g z unfolding Cons by (auto simp: gaps_Cons)
      ultimately show ?thesis by simp
    qed (use z in simp)
  qed
qed

section \<open>Freeing\<close>

lemma slob_point_path:
  assumes "chain (snext h) p ps" "c \<in> set (p # ps)"
    and "\<And>q. q \<in> set (p # ps) \<Longrightarrow> q \<noteq> c \<Longrightarrow>
      \<not> (q < b \<and> b < snext h q) \<and> \<not> (snext h q \<le> q \<and> (q < b \<or> b < snext h q))"
    and "(c < b \<and> b < snext h c) \<or> (snext h c \<le> c \<and> (c < b \<or> b < snext h c))"
  shows "slob_point b h p = Some c"
  using assms
proof (induction ps arbitrary: p)
  case Nil
  then show ?case by (subst slob_point.simps) auto
next
  case (Cons x ps)
  show ?case
  proof (cases "p = c")
    case True
    with Cons.prems(4) show ?thesis by (subst slob_point.simps) auto
  next
    case False
    with Cons.prems(3) [of p] have "slob_point b h p = slob_point b h (snext h p)"
      by (subst slob_point.simps) auto
    also have "snext h p = x" using Cons.prems(1) by simp
    also have "slob_point b h x = Some c"
      using Cons.prems False by (intro Cons.IH) auto
    finally show ?thesis .
  qed
qed

lemma gaps_less: "gaps h (as @ x # bs) \<Longrightarrow> y \<in> set bs \<Longrightarrow> x < y"
  by (fastforce simp: gaps_append gaps_Cons)

lemma slob_point_eq:
  assumes inv: "slob_inv h ys" and xs: "arena h # ys = as @ c # cs"
    and c: "c < b" "\<And>z. z \<in> set cs \<Longrightarrow> b < z"
  shows "slob_point b h (slobfree h) = Some c"
proof -
  let ?xs = "arena h # ys"
  have nx: "snext h q = (case ts of [] \<Rightarrow> arena h | t # _ \<Rightarrow> t)" if "?xs = rs @ q # ts" for rs q ts
    using ring_next [of "snext h" rs q ts] slob_invD(1) [OF inv] that
    by (cases rs) (auto split: list.splits)
  have ab: "arena h \<le> q" if "q \<in> set ?xs" for q
    using that slob_invD(7) [OF inv, of q] by auto
  obtain p1 p2 where p: "?xs = p1 @ slobfree h # p2"
    using slob_invD(5) [OF inv] by (meson split_list)
  have path: "chain (snext h) (slobfree h) (p2 @ p1 @ [slobfree h])"
    using ring_at slob_invD(1) [OF inv] unfolding p by blast
  have same: "set (slobfree h # p2 @ p1 @ [slobfree h]) = set ?xs" unfolding p by auto
  show ?thesis
  proof (rule slob_point_path [OF path])
    show "c \<in> set (slobfree h # p2 @ p1 @ [slobfree h])" unfolding same xs by simp
    show "(c < b \<and> b < snext h c) \<or> (snext h c \<le> c \<and> (c < b \<or> b < snext h c))"
      using nx [OF xs] c ab [of c] xs by (cases cs) auto
  next
    fix q assume q: "q \<in> set (slobfree h # p2 @ p1 @ [slobfree h])" "q \<noteq> c"
    then have qx: "q \<in> set ?xs" unfolding same by simp
    then obtain rs ts where r: "?xs = rs @ q # ts" by (meson split_list)
    have g: "gaps h (rs @ q # ts)" using slob_invD(2) [OF inv] unfolding r .
    consider "q \<in> set as" | "q \<in> set cs" using qx q(2) unfolding xs by auto
    then show "\<not> (q < b \<and> b < snext h q) \<and> \<not> (snext h q \<le> q \<and> (q < b \<or> b < snext h q))"
    proof cases
      case 1
      then obtain a1 a2 where a: "as = a1 @ q # a2" by (meson split_list)
      then have "snext h q = hd (a2 @ [c])"
        using nx [of a1 q "a2 @ c # cs"] xs by (cases a2) auto
      then have "snext h q \<in> set (a2 @ [c])" by (cases a2) auto
      moreover have "gaps h (a1 @ q # (a2 @ c # cs))" using slob_invD(2) [OF inv] xs a by simp
      then have "q < z" "z \<le> c" if "z \<in> set (a2 @ [c])" for z
        using that by (auto simp: gaps_append gaps_Cons intro: le_less_trans [OF le_add1] less_imp_le)
      ultimately have "q < snext h q" "snext h q \<le> c" by blast+
      with c(1) show ?thesis by simp
    next
      case 2
      then have "b < q" by (rule c(2))
      with nx [OF r] gaps_less [OF g, of "snext h q"] ab [of q] qx c(1) ab [of c] xs show ?thesis
        by (cases ts) auto
    qed
  qed
qed

lemma slob_bytes_simps [simp]:
  "slob_bytes h [] = {}" "slob_bytes h (y # ys) = extent h y \<union> slob_bytes h ys"
  "slob_bytes h (xs @ ys) = slob_bytes h xs \<union> slob_bytes h ys"
  by (auto simp: slob_bytes_def)

lemma extent_cong: "units h y = units g y \<Longrightarrow> extent h y = extent g y"
  by (simp add: extent_def)

lemma slob_bytes_cong: "(\<And>y. y \<in> set ys \<Longrightarrow> units h y = units g y) \<Longrightarrow> slob_bytes h ys = slob_bytes g ys"
  by (simp add: slob_bytes_def extent_def)

text \<open>A list that keeps the arena in front satisfies the invariant if its blocks do.\<close>

lemma slob_invI:
  assumes "arena h # ys = xs" "ring (snext h) xs" "gaps h xs" "units h (arena h) = 1"
    "\<And>y. y \<in> set xs \<Longrightarrow> 0 < units h y" "slobfree h \<in> set xs" "0 < arena h"
  shows "slob_inv h ys"
  using assms(2-) unfolding slob_inv_def assms(1) [symmetric] by auto

text \<open>The result of the insertion, after the size of the block has been set: the four cases of
  merging with the block behind and with the block in front.\<close>

lemma slob_link_cases:
  assumes inv: "slob_inv h ys" and u: "0 < units h b" and b: "arena h + 16 < b"
    and xs: "arena h # ys = as @ c # cs" and bn: "b \<notin> set (as @ c # cs)"
    and cb: "c + 16 * units h c \<le> b" and cs: "\<And>z. z \<in> set cs \<Longrightarrow> b + 16 * units h b \<le> z"
    and h': "h' = slob_link_prev b c (slob_link_next b c h)\<lparr>slobfree := c\<rparr>"
  shows "\<exists>ys'. slob_inv h' ys' \<and> slob_bytes h' ys' = slob_bytes h ys \<union> extent h b
    \<and> (\<exists>y \<in> set ys'. units h b \<le> units h' y)"
proof -
  note D = slob_invD [OF inv]
  have rg: "ring (snext h) (as @ c # cs)" and gp: "gaps h (as @ c # cs)" using D(1,2) unfolding xs .
  have dist: "distinct (as @ c # cs)" using rg by (simp add: ring_def)
  have pos: "0 < units h y" if "y \<in> set (as @ c # cs)" for y
    using that D(3,4) unfolding xs [symmetric] by auto
  have hdx: "hd (as @ [c]) = arena h" using xs by (cases as) auto
  have nc: "snext h c = (case cs of [] \<Rightarrow> arena h | x # _ \<Rightarrow> x)"
    using ring_next [OF rg] hdx by (simp split: list.splits)
  have ca: "c = arena h \<longleftrightarrow> as = []" using xs dist by (cases as) auto
  have bs: "slob_bytes h ys = (if as = [] then slob_bytes h cs else slob_bytes h (tl as) \<union> extent h c \<union> slob_bytes h cs)"
    using xs by (cases as) auto
  show ?thesis
  proof (cases "b + 16 * units h b = snext h c"; cases "c + 16 * units h c = b")
    assume no: "b + 16 * units h b \<noteq> snext h c" "c + 16 * units h c \<noteq> b"
    have "units h' = units h" "snext h' = (snext h)(b := snext h c, c := b)" "arena h' = arena h" "slobfree h' = c"
      using no h' by (simp_all add: slob_link_prev_def slob_link_next_def Let_def)
    note f = this
    have X: "arena h' # tl (as @ c # b # cs) = as @ c # b # cs" using xs f(3) by (cases as) auto
    have "gaps h (as @ c # b # cs)"
      using gp cb cs no nc by (cases cs) (fastforce simp: gaps_append gaps_Cons)+
    then have gp': "gaps h' (as @ c # b # cs)" using f(1) gaps_cong [of "as @ c # b # cs" h h'] by simp
    have "slob_inv h' (tl (as @ c # b # cs))"
      by (rule slob_invI [OF X _ gp']) (use f ring_insert [OF rg bn] pos u D(3,6) in auto)
    moreover have "slob_bytes h' (tl (as @ c # b # cs)) = slob_bytes h ys \<union> extent h b"
      using f(1) bs slob_bytes_cong [of _ h' h] by (cases as) (auto simp: extent_def)
    moreover have "b \<in> set (tl (as @ c # b # cs))" by (cases as) auto
    ultimately show ?thesis using f(1) by (metis order_refl)
  next
    assume no: "b + 16 * units h b = snext h c" "c + 16 * units h c \<noteq> b"
    with nc u b obtain n cs' where n: "cs = n # cs'" "snext h c = n" by (cases cs) auto
    have bc: "b \<noteq> c" "n \<noteq> b" "n \<noteq> c" "b \<notin> set cs'" "n \<notin> set cs'" using bn dist n by auto
    have f: "units h' = (units h)(b := units h b + units h n)" "snext h' = (snext h)(b := snext h n, c := b)"
      "arena h' = arena h" "slobfree h' = c"
      using no h' bc n by (simp_all add: slob_link_prev_def slob_link_next_def Let_def)
    have X: "arena h' # tl (as @ c # b # cs') = as @ c # b # cs'" using xs f(3) by (cases as) auto
    have "ring ((snext h)(b := snext h c, c := b)) ((as @ [c]) @ b # n # cs')"
      using ring_insert [OF rg bn] n by simp
    from ring_drop_next [OF this] bc have rg': "ring (snext h') (as @ c # b # cs')"
      by (simp add: f(2) fun_upd_twist)
    have "gaps h (as @ c # cs')" using gp n by (auto simp: gaps_append gaps_Cons)
    then have "gaps h' (as @ c # cs')"
      by (subst gaps_cong [of _ h' h]) (use f bn n in auto)
    then have gp': "gaps h' (as @ c # b # cs')"
      using gp cb no n f bn by (fastforce simp: gaps_append gaps_Cons)
    have "slob_inv h' (tl (as @ c # b # cs'))"
      by (rule slob_invI [OF X rg' gp']) (use f pos u D(3,6) n b in auto)
    moreover have "slob_bytes h' (tl (as @ c # b # cs')) = slob_bytes h ys \<union> extent h b"
    proof -
      have "extent h' b = extent h b \<union> extent h n" using no n f(1) by (auto simp: extent_def)
      moreover have "extent h' c = extent h c" using f(1) bc by (simp add: extent_def)
      moreover have "slob_bytes h' zs = slob_bytes h zs" if "b \<notin> set zs" for zs
        using that f(1) by (intro slob_bytes_cong) auto
      moreover have "b \<notin> set (tl as)" "b \<notin> set cs'" using bn n by (cases as; auto)+
      ultimately show ?thesis using bs n by (cases as) auto
    qed
    moreover have "b \<in> set (tl (as @ c # b # cs'))" by (cases as) auto
    moreover have "units h b \<le> units h' b" using f(1) by simp
    ultimately show ?thesis by blast
  next
    assume no: "b + 16 * units h b \<noteq> snext h c" "c + 16 * units h c = b"
    have ne: "as \<noteq> []" using no(2) b D(3) ca by auto
    have bc: "b \<noteq> c" "c \<notin> set as" "c \<notin> set cs" "b \<notin> set as" "b \<notin> set cs" using bn dist by auto
    have f: "units h' = (units h)(c := units h c + units h b)" "snext h' = (snext h)(b := snext h c, c := snext h c)"
      "arena h' = arena h" "slobfree h' = c"
      using no h' bc by (simp_all add: slob_link_prev_def slob_link_next_def Let_def)
    have X: "arena h' # tl (as @ c # cs) = as @ c # cs" using xs f(3) by (cases as) auto
    have rg': "ring (snext h') (as @ c # cs)" by (rule ring_cong [OF rg]) (use f bn in auto)
    have oth: "units h' z = units h z" if "z \<noteq> c" for z using that f(1) by simp
    have gp': "gaps h' (as @ c # cs)"
      using gp cb cs no nc bc gaps_cong [of as h' h] gaps_cong [of cs h' h] oth
      by (cases cs) (fastforce simp: gaps_append gaps_Cons f(1))+
    have "arena h \<noteq> c" using ne ca by blast
    have "slob_inv h' (tl (as @ c # cs))"
      by (rule slob_invI [OF X rg' gp']) (use f pos D(3,6) \<open>arena h \<noteq> c\<close> in auto)
    moreover have "slob_bytes h' (tl (as @ c # cs)) = slob_bytes h ys \<union> extent h b"
    proof -
      have "extent h' c = extent h b \<union> extent h c" using no f(1) by (auto simp: extent_def)
      moreover have "slob_bytes h' zs = slob_bytes h zs" if "c \<notin> set zs" for zs
        using that f(1) by (intro slob_bytes_cong) auto
      moreover have "c \<notin> set (tl as)" using bc ne by (cases as) auto
      ultimately show ?thesis using bs ne bc by (cases as) auto
    qed
    moreover have "c \<in> set (tl (as @ c # cs))" using ne by (cases as) auto
    moreover have "units h b \<le> units h' c" using f(1) by simp
    ultimately show ?thesis by blast
  next
    assume no: "b + 16 * units h b = snext h c" "c + 16 * units h c = b"
    with nc u b obtain n cs' where n: "cs = n # cs'" "snext h c = n" by (cases cs) auto
    have ne: "as \<noteq> []" using no(2) b D(3) ca by auto
    have bc: "b \<noteq> c" "n \<noteq> b" "n \<noteq> c" "c \<notin> set as" "c \<notin> set cs'" "b \<notin> set as" "b \<notin> set cs'"
      using bn dist n by auto
    have f: "units h' = (units h)(b := units h b + units h n, c := units h c + (units h b + units h n))"
      "snext h' = (snext h)(b := snext h n, c := snext h n)" "arena h' = arena h" "slobfree h' = c"
      using no h' bc n by (simp_all add: slob_link_prev_def slob_link_next_def Let_def)
    have X: "arena h' # tl (as @ c # cs') = as @ c # cs'" using xs f(3) by (cases as) auto
    have "ring ((snext h)(c := snext h n)) (as @ c # cs')" using ring_drop_next rg n by blast
    then have rg': "ring (snext h') (as @ c # cs')" by (rule ring_cong) (use f bc in auto)
    have oth: "units h' z = units h z" if "z \<noteq> c" "z \<noteq> b" for z using that f(1) by simp
    have "gaps h' as" "gaps h' cs'"
      using gp n bc gaps_cong [of as h' h] gaps_cong [of cs' h' h] oth
      by (metis gaps_append gaps_Cons)+
    then have gp': "gaps h' (as @ c # cs')"
      using gp no bc n f(1) by (fastforce simp: gaps_append gaps_Cons)
    have "arena h \<noteq> c" using ne ca by blast
    have "slob_inv h' (tl (as @ c # cs'))"
      by (rule slob_invI [OF X rg' gp']) (use f pos n D(3,6) \<open>arena h \<noteq> c\<close> b bc in auto)
    moreover have "slob_bytes h' (tl (as @ c # cs')) = slob_bytes h ys \<union> extent h b"
    proof -
      have "extent h' c = extent h b \<union> extent h c \<union> extent h n" using no n f(1) by (auto simp: extent_def)
      moreover have "slob_bytes h' zs = slob_bytes h zs" if "c \<notin> set zs" "b \<notin> set zs" for zs
        using that f(1) by (intro slob_bytes_cong) auto
      moreover have "c \<notin> set (tl as)" "b \<notin> set (tl as)" using bc ne by (cases as; auto)+
      ultimately show ?thesis using bs ne bc n by (cases as) auto
    qed
    moreover have "c \<in> set (tl (as @ c # cs'))" using ne by (cases as) auto
    moreover have "units h b \<le> units h' c" using f(1) by simp
    ultimately show ?thesis by blast
  qed
qed

lemma slob_insert:
  assumes inv: "slob_inv h ys" and u: "0 < units h b" and b: "arena h + 16 < b"
    and disj: "extent h b \<inter> slob_bytes h ys = {}"
  obtains c h' ys' where "slob_point b h (slobfree h) = Some c"
    "h' = slob_link_prev b c (slob_link_next b c h)\<lparr>slobfree := c\<rparr>" "slob_inv h' ys'"
    "slob_bytes h' ys' = slob_bytes h ys \<union> extent h b" "\<exists>y \<in> set ys'. units h b \<le> units h' y"
proof -
  note D = slob_invD [OF inv]
  let ?xs = "arena h # ys"
  have out: "z \<notin> extent h b \<and> b \<notin> extent h z" if "z \<in> set ys" for z
    using disj that u D(4) [OF that] by (fastforce simp: extent_def slob_bytes_def)
  then have bn: "b \<notin> set ys" using out [of b] u by (auto simp: extent_def)
  from slob_place [OF inv, of b] b bn obtain as c cs
    where xs: "?xs = as @ c # cs" and c: "c < b" "\<And>z. z \<in> set cs \<Longrightarrow> b < z" "\<And>z. z \<in> set as \<Longrightarrow> z < b"
    by auto
  have cy: "c = arena h \<or> c \<in> set ys" and csy: "set cs \<subseteq> set ys"
    using xs by (cases as; auto)+
  have cb: "c + 16 * units h c \<le> b"
    using cy out [of c] c(1) D(3) b by (auto simp: extent_def)
  have bz: "b + 16 * units h b \<le> z" if "z \<in> set cs" for z
    using out [of z] c(2) [OF that] csy that by (auto simp: extent_def)
  have "b \<notin> set (as @ c # cs)" using bn b unfolding xs [symmetric] by auto
  from slob_link_cases [OF inv u b xs this cb bz refl] slob_point_eq [OF inv xs c(1,2)] that
  show thesis by blast
qed

section \<open>Allocating\<close>

lemma chain_image: "chain f p xs \<Longrightarrow> set xs \<subseteq> f ` set (butlast (p # xs))"
  by (induction xs arbitrary: p) force+

lemma ring_inj:
  assumes "ring f xs"
  shows "inj_on f (set xs)"
proof (rule finite_surj_inj)
  show "set xs \<subseteq> f ` set xs"
  proof
    fix x assume "x \<in> set xs"
    then obtain as cs where xs: "xs = as @ x # cs" by (meson split_list)
    with chain_image [OF ring_at] assms have "x \<in> f ` set (butlast (x # cs @ as @ [x]))" by fastforce
    then show "x \<in> f ` set xs" using xs by (auto simp: butlast_append split: if_splits)
  qed
qed simp

text \<open>The walk from \<open>p\<close> along \<open>qs\<close>, which ends at \<open>slobfree\<close>: it stops at a block that is large
  enough, or it has seen all of them.\<close>

definition slob_grow :: "nat \<Rightarrow> nat \<Rightarrow> kheap \<Rightarrow> (nat option \<times> kheap) option" where
  "slob_grow sz n h = Option.bind (slob_get_free_pages 0 h)
     (\<lambda>(r, h). case r of
        None \<Rightarrow> Some (None, h)
      | Some page \<Rightarrow> Option.bind (slob_free page PAGE_SIZE h)
          (\<lambda>h. slob_loop sz 0 n (slobfree h) (snext h (slobfree h)) h))"

lemma slob_loop_fit:
  "n \<le> units h c \<Longrightarrow> slob_loop sz 0 n p c h = Some (Some c, snd (slob_cut n p c h))"
  by (subst slob_loop.simps) (simp add: slob_cut_def Let_def)

lemma slob_loop_on:
  "\<not> n \<le> units h c \<Longrightarrow> c \<noteq> slobfree h \<Longrightarrow> slob_loop sz 0 n p c h = slob_loop sz 0 n c (snext h c) h"
  by (subst slob_loop.simps) (simp add: Let_def)

lemma slob_loop_end:
  "\<not> n \<le> units h c \<Longrightarrow> c = slobfree h \<Longrightarrow> sz \<noteq> PAGE_SIZE \<Longrightarrow> slob_loop sz 0 n p c h = slob_grow sz n h"
  by (subst slob_loop.simps) (simp add: Let_def slob_grow_def)

lemma slob_walk:
  assumes "chain (snext h) p qs" "qs \<noteq> []" "last qs = slobfree h" "slobfree h \<notin> set (butlast qs)" "sz \<noteq> PAGE_SIZE"
  shows "(\<forall>q \<in> set qs. units h q < n) \<and> slob_loop sz 0 n p (snext h p) h = slob_grow sz n h
    \<or> (\<exists>q c. q \<in> set (p # butlast qs) \<and> c \<in> set qs \<and> snext h q = c \<and> n \<le> units h c
         \<and> slob_loop sz 0 n p (snext h p) h = Some (Some c, snd (slob_cut n q c h)))"
  using assms
proof (induction qs arbitrary: p)
  case (Cons c qs)
  have c: "snext h p = c" using Cons.prems(1) by simp
  consider "n \<le> units h c" | "\<not> n \<le> units h c" "qs = []" | "\<not> n \<le> units h c" "qs \<noteq> []" by blast
  then show ?case
  proof cases
    case 1
    then show ?thesis using c slob_loop_fit by fastforce
  next
    case 2
    then show ?thesis using c Cons.prems slob_loop_end [of n h c] by simp
  next
    case 3
    then have "slob_loop sz 0 n p (snext h p) h = slob_loop sz 0 n c (snext h c) h"
      using c Cons.prems slob_loop_on [of n h c] by simp
    moreover have "(\<forall>q \<in> set qs. units h q < n) \<and> slob_loop sz 0 n c (snext h c) h = slob_grow sz n h
    \<or> (\<exists>q d. q \<in> set (c # butlast qs) \<and> d \<in> set qs \<and> snext h q = d \<and> n \<le> units h d
         \<and> slob_loop sz 0 n c (snext h c) h = Some (Some d, snd (slob_cut n q d h)))"
      using Cons.prems 3 by (intro Cons.IH) auto
    ultimately show ?thesis using 3 by auto
  qed
qed simp

lemma slob_bytes_below: "gaps h (as @ c # cs) \<Longrightarrow> slob_bytes h as \<subseteq> {..<c}"
  by (fastforce simp: gaps_append slob_bytes_def extent_def)

lemma slob_bytes_above: "gaps h (c # cs) \<Longrightarrow> slob_bytes h cs \<subseteq> {c + 16 * units h c..}"
  by (fastforce simp: gaps_Cons slob_bytes_def extent_def)

lemma slob_cut_ok:
  assumes inv: "slob_inv h ys" and xs: "arena h # ys = as @ p # c # cs" and n: "0 < n" "n \<le> units h c"
    and h': "h' = snd (slob_cut n p c h)"
  shows "\<exists>ys'. slob_inv h' ys' \<and> {c..<c + 16 * n} \<subseteq> slob_bytes h ys \<and> units h' c = n
    \<and> slob_bytes h' ys' = slob_bytes h ys - {c..<c + 16 * n}"
proof -
  note D = slob_invD [OF inv]
  have rg: "ring (snext h) (as @ p # c # cs)" and gp: "gaps h (as @ p # c # cs)" using D(1,2) unfolding xs .
  have dist: "p \<noteq> c" "c \<notin> set as" "c \<notin> set cs" "p \<notin> set cs" "p \<notin> set as" using rg by (auto simp: ring_def)
  have pos: "0 < units h y" if "y \<in> set (as @ p # c # cs)" for y
    using that D(3,4) unfolding xs [symmetric] by auto
  have ac: "arena h \<noteq> c" using xs dist by (cases as) auto
  define ps where "ps = tl (as @ [p])"
  have ys: "ys = ps @ c # cs" and hdp: "arena h # ps = as @ [p]" using xs unfolding ps_def by (cases as; auto)+
  have "slob_bytes h (arena h # ps) \<subseteq> {..<c}"
    unfolding hdp by (rule slob_bytes_below) (use gp in simp)
  then have lo: "slob_bytes h ps \<subseteq> {..<c}" by simp
  have hi: "slob_bytes h cs \<subseteq> {c + 16 * units h c..}"
    using slob_bytes_above gp by (simp add: gaps_append gaps_Cons)
  have cps: "c \<notin> set ps" using dist hdp by (metis Un_iff ac list.set_intros(2) set_ConsD set_append empty_iff list.set(1))
  show ?thesis
  proof (cases "units h c = n")
    case True
    then have f: "units h' = units h" "snext h' = (snext h)(p := snext h c)" "arena h' = arena h" "slobfree h' = p"
      using h' by (simp_all add: slob_cut_def Let_def)
    have X: "arena h' # (ps @ cs) = as @ p # cs" using hdp f(3) by simp
    have gp': "gaps h' (as @ p # cs)"
      using gp f(1) gaps_cong [of "as @ p # cs" h h'] by (simp add: gaps_append gaps_Cons)
    have "slob_inv h' (ps @ cs)"
      by (rule slob_invI [OF X _ gp']) (use f ring_drop_next [OF rg] pos D(3,6) in auto)
    moreover have "slob_bytes h' zs = slob_bytes h zs" for zs using f(1) by (intro slob_bytes_cong) simp
    moreover have "extent h c = {c..<c + 16 * n}" using True by (simp add: extent_def)
    ultimately show ?thesis using ys True f(1) lo hi by (intro exI [of _ "ps @ cs"]) fastforce
  next
    case False
    define d where "d = c + 16 * n"
    have d: "c < d" "d < c + 16 * units h c" using n False by (auto simp: d_def)
    have dn: "d \<noteq> p" "d \<noteq> c" "d \<notin> set as" "d \<notin> set cs" "d \<notin> set ps"
      using d gp hdp by (auto simp: gaps_append gaps_Cons) (metis Un_iff le_add1 le_less_trans less_asym list.set_intros(2) set_ConsD set_append empty_iff list.set(1))
    have f: "units h' = (units h)(d := units h c - n, c := n)" "snext h' = (snext h)(p := d, d := snext h c)"
      "arena h' = arena h" "slobfree h' = p"
      using h' False dist dn by (simp_all add: slob_cut_def Let_def d_def)
    have oth: "units h' z = units h z" if "z \<noteq> c" "z \<noteq> d" for z using that f(1) by simp
    have X: "arena h' # (ps @ d # cs) = as @ p # d # cs" using hdp f(3) by simp
    have "ring ((snext h)(p := snext h c)) (as @ p # cs)" by (rule ring_drop_next [OF rg])
    from ring_insert [OF this, of d] dn have rg': "ring (snext h') (as @ p # d # cs)"
      by (simp add: f(2) fun_upd_twist)
    have "gaps h' as" "gaps h' cs"
      using gp gaps_cong [of as h' h] gaps_cong [of cs h' h] oth dist dn by (metis gaps_append gaps_Cons)+
    then have gp': "gaps h' (as @ p # d # cs)"
      using gp d dist dn n(2) False f(1) by (fastforce simp: gaps_append gaps_Cons d_def)
    have "arena h \<noteq> d" using hdp dn by (cases as) auto
    have "slob_inv h' (ps @ d # cs)"
      by (rule slob_invI [OF X rg' gp']) (use f pos D(3,6) ac n False \<open>arena h \<noteq> d\<close> in auto)
    moreover have "slob_bytes h' ps = slob_bytes h ps" "slob_bytes h' cs = slob_bytes h cs"
      using oth dist dn cps by (metis slob_bytes_cong)+
    moreover have "extent h' d = extent h c - {c..<c + 16 * n}" using n d f(1) by (auto simp: extent_def d_def)
    moreover have "{c..<c + 16 * n} \<subseteq> extent h c" using n by (auto simp: extent_def)
    moreover have "slob_bytes h ps \<inter> {c..<c + 16 * n} = {}" "slob_bytes h cs \<inter> {c..<c + 16 * n} = {}"
      using lo hi n by fastforce+
    moreover have "units h' c = n" using f(1) by simp
    ultimately show ?thesis using ys by (intro exI [of _ "ps @ d # cs"]) auto
  qed
qed

section \<open>The heap and the pages it takes\<close>

definition page_range :: "nat \<Rightarrow> nat \<Rightarrow> nat set" where
  "page_range p n = {PAGE_SIZE * p..<PAGE_SIZE * (p + n)}"

definition page_bytes :: "kheap \<Rightarrow> nat list \<Rightarrow> nat set" where
  "page_bytes h fs = (\<Union>p \<in> free_frames (kpages h) fs. page_range p 1)"

definition free_bytes :: "kheap \<Rightarrow> nat list \<Rightarrow> nat list \<Rightarrow> nat set" where
  "free_bytes h ys fs = slob_bytes h ys \<union> page_bytes h fs"

definition heap_inv :: "kheap \<Rightarrow> nat list \<Rightarrow> nat list \<Rightarrow> bool" where
  "heap_inv h ys fs \<longleftrightarrow> slob_inv h ys \<and> fl_inv (kpages h) fs
     \<and> slob_bytes h ys \<inter> page_bytes h fs = {} \<and> (\<forall>a \<in> page_bytes h fs. arena h + 16 < a)"

text \<open>What an operation leaves as it was: the arena, the swapping, and the headers of the
  blocks outside the set \<open>A\<close> of the addresses it works on.\<close>

definition keeps :: "nat set \<Rightarrow> kheap \<Rightarrow> kheap \<Rightarrow> bool" where
  "keeps A h h' \<longleftrightarrow> arena h' = arena h \<and> kswap h' = kswap h \<and> (\<forall>z. z \<notin> A \<longrightarrow> units h' z = units h z)"

lemma keeps_trans: "keeps A h h1 \<Longrightarrow> keeps A h1 h2 \<Longrightarrow> keeps A h h2"
  by (simp add: keeps_def)

lemma keeps_mono: "keeps A h h' \<Longrightarrow> A \<subseteq> B \<Longrightarrow> keeps B h h'"
  by (auto simp: keeps_def)

lemma slob_inv_frame:
  assumes "slob_inv h ys" "\<And>z. z \<in> set (arena h # ys) \<Longrightarrow> units h' z = units h z"
    "\<And>z. z \<in> set (arena h # ys) \<Longrightarrow> snext h' z = snext h z" "arena h' = arena h" "slobfree h' = slobfree h"
  shows "slob_inv h' ys"
proof -
  have "ring (snext h') (arena h # ys)"
    by (rule ring_cong [OF slob_invD(1) [OF assms(1)]]) (use assms(3) in blast)
  moreover have "gaps h' (arena h # ys)"
    using slob_invD(2) [OF assms(1)] gaps_cong [of "arena h # ys" h' h] assms(2) by blast
  ultimately show ?thesis using assms by (simp add: slob_inv_def)
qed

lemma slob_free_ok:
  assumes inv: "heap_inv h ys fs" and u: "u = (if sz \<noteq> 0 then SLOB_UNITS sz else units h b)" "0 < u"
    and b: "arena h + 16 < b" and disj: "{b..<b + 16 * u} \<inter> free_bytes h ys fs = {}"
  obtains h' ys' where "slob_free b sz h = Some h'" "heap_inv h' ys' fs"
    "slob_bytes h' ys' = slob_bytes h ys \<union> {b..<b + 16 * u}"
    "free_bytes h' ys' fs = free_bytes h ys fs \<union> {b..<b + 16 * u}" "\<exists>y \<in> set ys'. u \<le> units h' y"
    "kpages h' = kpages h" "bigblocks h' = bigblocks h" "keeps (free_bytes h' ys' fs) h h'"
proof -
  define g where "g = (if sz \<noteq> 0 then set_units b (SLOB_UNITS sz) h else h)"
  have inv0: "slob_inv h ys" using inv by (simp add: heap_inv_def)
  have bn: "b \<notin> set ys"
    using disj u slob_invD(4) [OF inv0, of b] by (fastforce simp: free_bytes_def slob_bytes_def extent_def)
  have gf: "units g b = u" "snext g = snext h" "arena g = arena h" "slobfree g = slobfree h"
    "kpages g = kpages h" "bigblocks g = bigblocks h" "kswap g = kswap h"
    using u by (auto simp: g_def)
  have gz: "units g z = units h z" if "z \<noteq> b" for z using that by (auto simp: g_def)
  have gz': "units g z = units h z" if "z \<in> set (arena h # ys)" for z
    by (rule gz) (use that b bn in auto)
  have inv1: "slob_inv g ys" by (rule slob_inv_frame [OF inv0 gz']) (use gf in auto)
  have sb: "slob_bytes g ys = slob_bytes h ys" by (rule slob_bytes_cong) (use bn gz in metis)
  have ex: "extent g b = {b..<b + 16 * u}" using gf(1) by (simp add: extent_def)
  have c0: "0 < units g b" "arena g + 16 < b" "extent g b \<inter> slob_bytes g ys = {}"
    using u(2) b gf disj sb ex by (auto simp: free_bytes_def)
  from slob_insert [OF inv1 c0] obtain c h' ys' where r: "slob_point b g (slobfree g) = Some c"
    "h' = slob_link_prev b c (slob_link_next b c g)\<lparr>slobfree := c\<rparr>" "slob_inv h' ys'"
    "slob_bytes h' ys' = slob_bytes h ys \<union> {b..<b + 16 * u}" "\<exists>y \<in> set ys'. u \<le> units h' y"
    unfolding sb ex gf(1) by blast
  have fr: "kpages h' = kpages h" "bigblocks h' = bigblocks h" "arena h' = arena h" "kswap h' = kswap h"
    using r(2) gf by (auto simp: slob_link_prev_def slob_link_next_def Let_def)
  have pb: "page_bytes h' fs = page_bytes h fs" using fr by (simp add: page_bytes_def)
  have "slob_free b sz h = Some h'" unfolding slob_free_def Let_def g_def [symmetric] using r(1,2) b gf by simp
  moreover have "heap_inv h' ys' fs"
    using inv r(3,4) disj pb fr by (auto simp: heap_inv_def free_bytes_def)
  moreover have fb: "free_bytes h' ys' fs = free_bytes h ys fs \<union> {b..<b + 16 * u}"
    using r(4) pb by (auto simp: free_bytes_def)
  moreover have "keeps (free_bytes h' ys' fs) h h'"
  proof -
    have "slobfree h' = c" using r(2) by simp
    then have c: "c = arena h \<or> c \<in> slob_bytes h' ys'"
      using slob_invD(5) [OF r(3)] slob_invD(4) [OF r(3)] fr by (fastforce simp: slob_bytes_def extent_def)
    have "units h' z = units h z" if z: "z \<notin> free_bytes h' ys' fs" for z
    proof -
      have zb: "z \<noteq> b" using z fb u(2) by auto
      show ?thesis
      proof (cases "z = c")
        case True
        with z c have "z = arena h" by (auto simp: free_bytes_def)
        then show ?thesis using slob_invD(3) [OF r(3)] slob_invD(3) [OF inv0] fr by simp
      next
        case False
        with zb gz [of z] r(2) show ?thesis by (auto simp: slob_link_prev_def slob_link_next_def Let_def)
      qed
    qed
    with fr show ?thesis by (simp add: keeps_def)
  qed
  ultimately show thesis using that r fr by blast
qed

lemma SLOB_UNITS_page: "SLOB_UNITS 4096 = 256"
  by (simp add: SLOB_UNITS_def)

lemma default_alloc_one:
  assumes "fl_inv s xs" "default_alloc_pages 1 s = Some (None, s)"
  shows "xs = []"
proof (rule ccontr)
  assume "xs \<noteq> []"
  then obtain x rest where x: "xs = x # rest" by (cases xs) auto
  then have "1 \<le> pg_property (pages s x)" using fl_inv_pos [OF assms(1), of x] by simp
  moreover have "pg_property (pages s x) \<le> nr_free s"
    using fl_inv_nr_free [OF assms(1)] x by simp
  ultimately show False using assms default_alloc_eq [OF assms(1), of 1] x by simp
qed

text \<open>Taking pages: the heap invariant with the page frames gone.\<close>

lemma page_bytes_iff: "a \<in> page_bytes h fs \<longleftrightarrow> a div 4096 \<in> free_frames (kpages h) fs"
proof -
  have "a \<in> page_range p 1 \<longleftrightarrow> a div 4096 = p" for p
    by (auto simp: page_range_def)
  then show ?thesis by (auto simp: page_bytes_def)
qed

lemma page_range_iff: "a \<in> page_range p n \<longleftrightarrow> a div 4096 \<in> {p..<p + n}"
  by (auto simp: page_range_def)

lemma get_pages_ok:
  assumes inv: "heap_inv h ys fs" and sw: "\<not> kswap h"
  shows "slob_get_free_pages order h = Some (None, h) \<and> (order = 0 \<longrightarrow> fs = [])
    \<or> (\<exists>p f fs'. slob_get_free_pages order h = Some (Some (4096 * p), h\<lparr>kpages := f\<rparr>)
         \<and> heap_inv (h\<lparr>kpages := f\<rparr>) ys fs' \<and> page_range p (2 ^ order) \<subseteq> page_bytes h fs
         \<and> page_bytes (h\<lparr>kpages := f\<rparr>) fs' = page_bytes h fs - page_range p (2 ^ order))"
proof -
  have fl: "fl_inv (kpages h) fs" using inv by (simp add: heap_inv_def)
  have "(0 :: nat) < 2 ^ order" by simp
  from first_fit.alloc_ok [OF fl this] show ?thesis
  proof (elim disjE exE conjE)
    fix p f fs'
    assume a: "default_alloc_pages (2 ^ order) (kpages h) = Some (Some p, f)" "fl_inv f fs'"
      "{p..<p + 2 ^ order} \<subseteq> free_frames (kpages h) fs"
      "free_frames f fs' = free_frames (kpages h) fs - {p..<p + 2 ^ order}"
    let ?h = "h\<lparr>kpages := f\<rparr>"
    have pb: "page_bytes ?h fs' = page_bytes h fs - page_range p (2 ^ order)"
      by (rule set_eqI) (simp only: Diff_iff page_bytes_iff page_range_iff, simp add: a(4))
    have sb: "slob_bytes ?h ys = slob_bytes h ys" by (rule slob_bytes_cong) simp
    have "page_range p (2 ^ order) \<subseteq> page_bytes h fs"
      by (rule subsetI) (simp only: page_bytes_iff page_range_iff, use a(3) in blast)
    moreover have "slob_inv ?h ys" using inv by (auto simp: heap_inv_def intro: slob_inv_frame [of h])
    then have "heap_inv ?h ys fs'" using inv a(2) pb sb by (auto simp: heap_inv_def)
    moreover have "slob_get_free_pages order h = Some (Some (4096 * p), ?h)"
      using a(1) by (simp add: slob_get_free_pages_def)
    ultimately show ?thesis using pb by blast
  next
    assume "default_alloc_pages (2 ^ order) (kpages h) = Some (None, kpages h)"
    then show ?thesis using sw default_alloc_one [OF fl] by (auto simp: slob_get_free_pages_def)
  qed
qed

text \<open>A full walk along the free list: a block that is large enough is cut, or there is none.\<close>

lemma slob_alloc_walk:
  assumes inv: "heap_inv h ys fs" and n: "2 \<le> n" and sz: "sz \<noteq> PAGE_SIZE"
  shows "(\<forall>y \<in> set ys. units h y < n) \<and>
      slob_loop sz 0 n (slobfree h) (snext h (slobfree h)) h = slob_grow sz n h
    \<or> (\<exists>m h' ys'. slob_loop sz 0 n (slobfree h) (snext h (slobfree h)) h = Some (Some m, h')
         \<and> heap_inv h' ys' fs \<and> {m..<m + 16 * n} \<subseteq> slob_bytes h ys \<and> units h' m = n
         \<and> slob_bytes h' ys' = slob_bytes h ys - {m..<m + 16 * n} \<and> kpages h' = kpages h
         \<and> bigblocks h' = bigblocks h \<and> keeps (slob_bytes h ys) h h' \<and> arena h + 16 < m)"
proof -
  have inv0: "slob_inv h ys" using inv by (simp add: heap_inv_def)
  note D = slob_invD [OF inv0]
  let ?xs = "arena h # ys"
  obtain p1 p2 where p: "?xs = p1 @ slobfree h # p2" using D(5) by (meson split_list)
  let ?qs = "p2 @ p1 @ [slobfree h]"
  have path: "chain (snext h) (slobfree h) ?qs" using ring_at D(1) unfolding p by blast
  have same: "set ?qs = set ?xs" unfolding p by auto
  have dist: "distinct ?xs" using D(1) by (simp add: ring_def)
  have nb: "slobfree h \<notin> set (butlast ?qs)" using dist unfolding p by (auto simp: butlast_append)
  have "?qs \<noteq> []" "last ?qs = slobfree h" by simp_all
  from slob_walk [OF path this nb sz, of n] show ?thesis
  proof (elim disjE conjE exE)
    assume "\<forall>q \<in> set ?qs. units h q < n"
      "slob_loop sz 0 n (slobfree h) (snext h (slobfree h)) h = slob_grow sz n h"
    then show ?thesis unfolding same by simp
  next
    fix q c assume r: "q \<in> set (slobfree h # butlast ?qs)" "c \<in> set ?qs" "snext h q = c" "n \<le> units h c"
      "slob_loop sz 0 n (slobfree h) (snext h (slobfree h)) h = Some (Some c, snd (slob_cut n q c h))"
    have qx: "q \<in> set ?xs" using r(1) unfolding same [symmetric] by (auto dest: in_set_butlastD)
    have "c \<noteq> arena h" using r(4) n D(3) by auto
    with r(2) have cy: "c \<in> set ys" unfolding same by simp
    then obtain a1 cs where "ys = a1 @ c # cs" by (meson split_list)
    moreover obtain as z where z: "arena h # a1 = as @ [z]" by (metis append_butlast_last_id list.distinct(1))
    ultimately have xs: "?xs = as @ z # c # cs" by (metis append.assoc append_Cons append_Nil)
    have "snext h z = c" using ring_next [of "snext h" as z "c # cs"] D(1) unfolding xs by simp
    with r(3) qx ring_inj [OF D(1)] xs have "q = z" by (metis Un_iff inj_onD list.set_intros(1) set_append)
    let ?h = "snd (slob_cut n q c h)"
    from slob_cut_ok [OF inv0 xs _ r(4) refl] n \<open>q = z\<close> obtain ys' where
      c: "slob_inv ?h ys'" "{c..<c + 16 * n} \<subseteq> slob_bytes h ys" "units ?h c = n"
        "slob_bytes ?h ys' = slob_bytes h ys - {c..<c + 16 * n}" by auto
    have fr: "kpages ?h = kpages h" "bigblocks ?h = bigblocks h" "arena ?h = arena h" "kswap ?h = kswap h"
      by (simp_all add: slob_cut_def Let_def)
    have pb: "page_bytes ?h fs = page_bytes h fs" using fr by (simp add: page_bytes_def)
    have hi: "heap_inv ?h ys' fs" using inv c pb fr by (auto simp: heap_inv_def)
    have "units ?h z = units h z" if "z \<notin> slob_bytes h ys" for z
    proof -
      have ex: "extent h c \<subseteq> slob_bytes h ys" using cy by (auto simp: slob_bytes_def)
      have "z \<noteq> c" using subsetD [OF c(2), of c] n that by auto
      moreover have "z \<noteq> c + 16 * n" if "units h c \<noteq> n"
        using that r(4) subsetD [OF ex, of "c + 16 * n"] \<open>z \<notin> slob_bytes h ys\<close> by (auto simp: extent_def)
      ultimately show ?thesis by (simp add: slob_cut_def Let_def)
    qed
    with fr have "keeps (slob_bytes h ys) h ?h" by (simp add: keeps_def)
    with r(5) hi c fr D(7) [OF cy] show ?thesis by blast
  qed
qed

lemma free_bytes_cut:
  assumes "heap_inv h ys fs" "A \<subseteq> slob_bytes h ys" "slob_bytes h' ys' = slob_bytes h ys - A" "kpages h' = kpages h"
  shows "free_bytes h' ys' fs = free_bytes h ys fs - A" "A \<subseteq> free_bytes h ys fs"
proof -
  have "page_bytes h' fs = page_bytes h fs" using assms(4) by (simp add: page_bytes_def)
  moreover have "slob_bytes h ys \<inter> page_bytes h fs = {}" using assms(1) by (simp add: heap_inv_def)
  ultimately show "free_bytes h' ys' fs = free_bytes h ys fs - A" "A \<subseteq> free_bytes h ys fs"
    using assms(2,3) unfolding free_bytes_def by blast+
qed

lemma slob_alloc_ok:
  assumes inv: "heap_inv h ys fs" and sw: "\<not> kswap h" and sz: "16 < sz" "sz + 16 < 4096"
  shows "slob_alloc sz 0 h = Some (None, h) \<and> fs = [] \<and> (\<forall>y \<in> set ys. units h y < SLOB_UNITS sz)
    \<or> (\<exists>m h' ys' fs'. slob_alloc sz 0 h = Some (Some m, h') \<and> heap_inv h' ys' fs'
         \<and> {m..<m + 16 * SLOB_UNITS sz} \<subseteq> free_bytes h ys fs \<and> units h' m = SLOB_UNITS sz
         \<and> free_bytes h' ys' fs' = free_bytes h ys fs - {m..<m + 16 * SLOB_UNITS sz}
         \<and> bigblocks h' = bigblocks h \<and> keeps (free_bytes h ys fs) h h' \<and> arena h + 16 < m)"
proof -
  let ?n = "SLOB_UNITS sz"
  have n: "2 \<le> ?n" "?n \<le> 256" using sz by (auto simp: SLOB_UNITS_def)
  have s: "sz \<noteq> PAGE_SIZE" using sz by simp
  have start: "slob_alloc sz 0 h = slob_loop sz 0 ?n (slobfree h) (snext h (slobfree h)) h"
    using sz by (simp add: slob_alloc_def)
  have dj: "slob_bytes h ys \<inter> page_bytes h fs = {}" using inv by (simp add: heap_inv_def)
  from slob_alloc_walk [OF inv n(1) s] show ?thesis
  proof (elim disjE conjE exE)
    fix m h' ys'
    assume a: "slob_loop sz 0 ?n (slobfree h) (snext h (slobfree h)) h = Some (Some m, h')"
      "heap_inv h' ys' fs" "{m..<m + 16 * ?n} \<subseteq> slob_bytes h ys" "units h' m = ?n"
      "slob_bytes h' ys' = slob_bytes h ys - {m..<m + 16 * ?n}" "kpages h' = kpages h"
      "bigblocks h' = bigblocks h" "keeps (slob_bytes h ys) h h'" "arena h + 16 < m"
    note free_bytes_cut [OF inv a(3,5,6)]
    moreover have "keeps (free_bytes h ys fs) h h'" using a(8) by (rule keeps_mono) (auto simp: free_bytes_def)
    ultimately show ?thesis using a(1,2,4,7,9) start
      by (intro disjI2 exI [of _ m] exI [of _ h'] exI [of _ ys'] exI [of _ fs]) simp
  next
    assume none: "\<forall>y \<in> set ys. units h y < ?n"
      "slob_loop sz 0 ?n (slobfree h) (snext h (slobfree h)) h = slob_grow sz ?n h"
    from get_pages_ok [OF inv sw, of 0] show ?thesis
    proof (elim disjE conjE exE)
      assume "slob_get_free_pages 0 h = Some (None, h)" "0 = (0 :: nat) \<longrightarrow> fs = []"
      with none start show ?thesis by (simp add: slob_grow_def)
    next
      fix p f fs'
      let ?h = "h\<lparr>kpages := f\<rparr>"
      assume a: "slob_get_free_pages 0 h = Some (Some (4096 * p), ?h)" "heap_inv ?h ys fs'"
        "page_range p (2 ^ 0) \<subseteq> page_bytes h fs" "page_bytes ?h fs' = page_bytes h fs - page_range p (2 ^ 0)"
      have pr: "page_range p (2 ^ 0) = {4096 * p..<4096 * p + 16 * 256}" by (auto simp: page_range_def)
      have sb: "slob_bytes ?h ys = slob_bytes h ys" by (rule slob_bytes_cong) simp
      have "4096 * p \<in> page_bytes h fs" using a(3) pr by auto
      then have ar: "arena ?h + 16 < 4096 * p" using inv by (simp add: heap_inv_def)
      have u: "256 = (if PAGE_SIZE \<noteq> 0 then SLOB_UNITS PAGE_SIZE else units ?h (4096 * p))" "0 < (256 :: nat)"
        by (simp_all add: SLOB_UNITS_page)
      have "{4096 * p..<4096 * p + 16 * 256} \<inter> free_bytes ?h ys fs' = {}"
        using a(3,4) dj sb unfolding free_bytes_def pr by blast
      note fr = slob_free_ok [OF a(2) u ar this]
      obtain g zs where b: "slob_free (4096 * p) PAGE_SIZE ?h = Some g" "heap_inv g zs fs'"
          "free_bytes g zs fs' = free_bytes ?h ys fs' \<union> {4096 * p..<4096 * p + 16 * 256}"
          "\<exists>y \<in> set zs. 256 \<le> units g y" "bigblocks g = bigblocks ?h" "keeps (free_bytes g zs fs') ?h g"
        by (rule fr) (rule that)
      have fb: "free_bytes g zs fs' = free_bytes h ys fs"
        using b(3) a(3,4) sb unfolding free_bytes_def pr by blast
      have kp: "keeps (free_bytes h ys fs) h g" using b(6) fb by (simp add: keeps_def)
      have go: "slob_alloc sz 0 h = slob_loop sz 0 ?n (slobfree g) (snext g (slobfree g)) g"
        using start none(2) a(1) b(1) by (simp add: slob_grow_def)
      from b(4) n(2) obtain y where "y \<in> set zs" "\<not> units g y < ?n" by fastforce
      then have "\<not> (\<forall>y \<in> set zs. units g y < ?n)" by blast
      with slob_alloc_walk [OF b(2) n(1) s] obtain m h' ys' where
        c: "slob_loop sz 0 ?n (slobfree g) (snext g (slobfree g)) g = Some (Some m, h')"
          "heap_inv h' ys' fs'" "{m..<m + 16 * ?n} \<subseteq> slob_bytes g zs" "units h' m = ?n"
          "slob_bytes h' ys' = slob_bytes g zs - {m..<m + 16 * ?n}" "kpages h' = kpages g"
          "bigblocks h' = bigblocks g" "keeps (slob_bytes g zs) g h'" "arena g + 16 < m" by blast
      note free_bytes_cut [OF b(2) c(3,5,6), unfolded fb]
      moreover have "keeps (free_bytes h ys fs) g h'"
        using c(8) by (rule keeps_mono) (use fb in \<open>auto simp: free_bytes_def\<close>)
      with kp have "keeps (free_bytes h ys fs) h h'" by (rule keeps_trans)
      moreover have "arena h + 16 < m" using c(9) kp by (simp add: keeps_def)
      moreover have "bigblocks h' = bigblocks h" using c(7) b(5) by simp
      ultimately show ?thesis using go c(1,2,4)
        by (intro disjI2 exI [of _ m] exI [of _ h'] exI [of _ ys'] exI [of _ fs']) simp
    qed
  qed
qed

end
