(* ===== verification/Slob_Props.thy ===== *)
theory Slob_Props
  imports Slob_Facts
begin

text \<open>
  What \<open>kmalloc\<close> and \<open>kfree\<close> promise for small and large objects, and what \<open>kmalloc\<close> does at the
  sizes between the two and for the size 0.
\<close>

lemma kmalloc_small_ok:
  assumes inv: "heap_inv h ys fs" and sw: "\<not> kswap h" and sz: "0 < sz" "sz < 4064"
  defines "u \<equiv> SLOB_UNITS (unat sz + 16)"
  shows "kmalloc sz h = Some (None, h) \<and> fs = [] \<and> (\<forall>y \<in> set ys. units h y < u)
    \<or> (\<exists>m h' ys' fs'. kmalloc sz h = Some (Some (m + 16), h') \<and> heap_inv h' ys' fs'
         \<and> {m..<m + 16 * u} \<subseteq> free_bytes h ys fs \<and> units h' m = u
         \<and> free_bytes h' ys' fs' = free_bytes h ys fs - {m..<m + 16 * u}
         \<and> bigblocks h' = bigblocks h \<and> keeps (free_bytes h ys fs) h h' \<and> arena h + 16 < m)"
proof -
  have s: "0 < unat sz" "unat sz < 4064" using sz by (simp_all add: word_less_nat_alt)
  then have "16 < unat sz + 16" "unat sz + 16 + 16 < 4096" by simp_all
  from slob_alloc_ok [OF inv sw this] have
    "slob_alloc (unat sz + 16) 0 h = Some (None, h) \<and> fs = [] \<and> (\<forall>y \<in> set ys. units h y < u)
    \<or> (\<exists>m h' ys' fs'. slob_alloc (unat sz + 16) 0 h = Some (Some m, h') \<and> heap_inv h' ys' fs'
         \<and> {m..<m + 16 * u} \<subseteq> free_bytes h ys fs \<and> units h' m = u
         \<and> free_bytes h' ys' fs' = free_bytes h ys fs - {m..<m + 16 * u}
         \<and> bigblocks h' = bigblocks h \<and> keeps (free_bytes h ys fs) h h' \<and> arena h + 16 < m)"
    unfolding u_def .
  with s show ?thesis
    by (elim disjE exE conjE) (simp add: kmalloc_def, intro disjI2 exI conjI, auto simp: kmalloc_def)
qed

lemma unlink_big_None: "(\<And>bb. bb \<in> set bbs \<Longrightarrow> bb_pages bb \<noteq> block) \<Longrightarrow> unlink_big block bbs = None"
  by (induction bbs) auto

text \<open>\<open>kfree\<close> of a small object, whose block starts with its header at \<open>m\<close>.\<close>

lemma kfree_small_ok:
  assumes "heap_inv h ys fs" "units h m = u" "0 < u" "arena h + 16 < m"
    "{m..<m + 16 * u} \<inter> free_bytes h ys fs = {}" "\<And>bb. bb \<in> set (bigblocks h) \<Longrightarrow> bb_pages bb \<noteq> m + 16"
  obtains h' ys' where "kfree (m + 16) h = Some h'" "heap_inv h' ys' fs"
    "free_bytes h' ys' fs = free_bytes h ys fs \<union> {m..<m + 16 * u}"
    "bigblocks h' = bigblocks h" "keeps (free_bytes h' ys' fs) h h'"
proof -
  have u: "u = (if (0::nat) \<noteq> 0 then SLOB_UNITS 0 else units h m)" using assms(2) by simp
  have "kfree (m + 16) h = slob_free m 0 h"
    using unlink_big_None [OF assms(6)] by (simp add: kfree_def)
  then show thesis
    using slob_free_ok [OF assms(1) u assms(3,4,5)] that by metis
qed

section \<open>Large objects\<close>

lemma get_pages_unreserved:
  assumes inv: "heap_inv h ys fs" and g: "slob_get_free_pages order h = Some (Some (4096 * p), h\<lparr>kpages := f\<rparr>)"
    and sub: "page_range p (2 ^ order) \<subseteq> page_bytes h fs" and i: "i \<in> {p..<p + 2 ^ order}"
  shows "\<not> PageReserved (pages f i)"
proof -
  have fl: "fl_inv (kpages h) fs" using inv by (simp add: heap_inv_def)
  have "4096 * i \<in> page_range p (2 ^ order)" using i by (simp add: page_range_iff)
  then have "i \<in> free_frames (kpages h) fs" using sub page_bytes_iff [of "4096 * i" h fs] by auto
  then have "\<not> PageReserved (pages (kpages h) i)" using fl_inv_frames [OF fl] by (auto simp: free_frames_def)
  moreover obtain q where "default_alloc_pages (2 ^ order) (kpages h) = Some (Some q, f)"
  proof -
    obtain r f' where r: "default_alloc_pages (2 ^ order) (kpages h) = Some (r, f')"
      using g by (cases "default_alloc_pages (2 ^ order) (kpages h)") (auto simp: slob_get_free_pages_def)
    with g have "r \<noteq> None" "h\<lparr>kpages := f'\<rparr> = h\<lparr>kpages := f\<rparr>"
      by (auto simp: slob_get_free_pages_def split: if_splits)
    then have "f' = f" by (metis kheap.select_convs(6) kheap.surjective kheap.update_convs(6))
    with r \<open>r \<noteq> None\<close> that show thesis by auto
  qed
  then have "f = take_block q (2 ^ order) (kpages h)"
    using default_alloc_eq [OF fl, of "2 ^ order"] by (auto split: if_splits option.splits)
  ultimately show ?thesis by simp
qed

lemma free_bytes_big [simp]: "free_bytes (h\<lparr>bigblocks := bbs\<rparr>) ys fs = free_bytes h ys fs"
  "slob_bytes (h\<lparr>bigblocks := bbs\<rparr>) ys = slob_bytes h ys" "page_bytes (h\<lparr>bigblocks := bbs\<rparr>) fs = page_bytes h fs"
proof -
  show s: "slob_bytes (h\<lparr>bigblocks := bbs\<rparr>) ys = slob_bytes h ys" by (rule slob_bytes_cong) simp
  show p: "page_bytes (h\<lparr>bigblocks := bbs\<rparr>) fs = page_bytes h fs" by (simp add: page_bytes_def)
  show "free_bytes (h\<lparr>bigblocks := bbs\<rparr>) ys fs = free_bytes h ys fs" by (simp only: free_bytes_def s p)
qed

lemma heap_inv_big [simp]: "heap_inv (h\<lparr>bigblocks := bbs\<rparr>) ys fs = heap_inv h ys fs"
proof -
  have "slob_inv (h\<lparr>bigblocks := bbs\<rparr>) ys = slob_inv h ys" using slob_inv_frame by fastforce
  then show ?thesis by (simp add: heap_inv_def)
qed

text \<open>A large object takes two units for its descriptor and \<open>2 ^ order\<close> pages.\<close>

lemma kmalloc_big_ok:
  assumes inv: "heap_inv h ys fs" and sw: "\<not> kswap h" and sz: "4080 \<le> sz" and k: "kmalloc sz h = Some (Some a, h')"
  obtains m p n ys' fs' where "a = 4096 * p" "heap_inv h' ys' fs'"
    "bigblocks h' = \<lparr>bb_at = m, bb_order = n, bb_pages = a\<rparr> # bigblocks h" "n = find_order (sint (ucast sz :: u32))"
    "{m..<m + 32} \<subseteq> free_bytes h ys fs" "page_range p (2 ^ n) \<subseteq> free_bytes h ys fs - {m..<m + 32}"
    "free_bytes h' ys' fs' = free_bytes h ys fs - {m..<m + 32} - page_range p (2 ^ n)"
    "arena h' + 16 < m" "\<And>i. i \<in> {p..<p + 2 ^ n} \<Longrightarrow> \<not> PageReserved (pages (kpages h') i)" "arena h' + 16 < a"
proof -
  let ?n = "find_order (sint (ucast sz :: u32))"
  have big: "\<not> unat sz < PAGE_SIZE - SLOB_UNIT" using sz by (simp add: word_le_nat_alt)
  have u: "SLOB_UNITS 24 = 2" by (simp add: SLOB_UNITS_def)
  have s1: "slob_alloc 24 0 h \<noteq> Some (None, h)" using k big by (auto simp: kmalloc_def BIGBLOCK_SIZE_def)
  have "(16 :: nat) < 24" "(24 :: nat) + 16 < 4096" by simp_all
  from slob_alloc_ok [OF inv sw this] s1 obtain m g ys' fs1 where
    g: "slob_alloc 24 0 h = Some (Some m, g)" "heap_inv g ys' fs1" "{m..<m + 32} \<subseteq> free_bytes h ys fs"
      "free_bytes g ys' fs1 = free_bytes h ys fs - {m..<m + 32}" "bigblocks g = bigblocks h"
      "keeps (free_bytes h ys fs) h g" "arena h + 16 < m" unfolding u by auto
  have sw': "\<not> kswap g" and ar: "arena g = arena h" using g(6) sw by (simp_all add: keeps_def)
  from get_pages_ok [OF g(2) sw', of ?n] show thesis
  proof (elim disjE exE conjE)
    assume "slob_get_free_pages ?n g = Some (None, g)"
    then show thesis using k big g(1) by (auto simp: kmalloc_def BIGBLOCK_SIZE_def bind_eq_Some_conv)
  next
    fix p f fs'
    let ?g = "g\<lparr>kpages := f\<rparr>"
    assume p: "slob_get_free_pages ?n g = Some (Some (4096 * p), ?g)" "heap_inv ?g ys' fs'"
      "page_range p (2 ^ ?n) \<subseteq> page_bytes g fs1" "page_bytes ?g fs' = page_bytes g fs1 - page_range p (2 ^ ?n)"
    have h': "a = 4096 * p" "h' = ?g\<lparr>bigblocks := \<lparr>bb_at = m, bb_order = ?n, bb_pages = 4096 * p\<rparr> # bigblocks h\<rparr>"
      using k big g(1,5) p(1) by (auto simp: kmalloc_def BIGBLOCK_SIZE_def Let_def)
    have dj: "slob_bytes g ys' \<inter> page_bytes g fs1 = {}" using g(2) by (simp add: heap_inv_def)
    have sb: "slob_bytes ?g ys' = slob_bytes g ys'" by (rule slob_bytes_cong) simp
    have fb: "free_bytes ?g ys' fs' = free_bytes g ys' fs1 - page_range p (2 ^ ?n)"
      using p(3,4) dj sb unfolding free_bytes_def by blast
    have "4096 * p \<in> page_range p (2 ^ ?n)" by (simp add: page_range_iff)
    then have lo: "arena g + 16 < 4096 * p" using p(3) g(2) by (auto simp: heap_inv_def)
    show thesis
    proof (rule that [OF h'(1)])
      show "heap_inv h' ys' fs'" using p(2) unfolding h'(2) by simp
      show "bigblocks h' = \<lparr>bb_at = m, bb_order = ?n, bb_pages = a\<rparr> # bigblocks h" using h' by simp
      show "?n = ?n" ..
      show "{m..<m + 32} \<subseteq> free_bytes h ys fs" by (rule g(3))
      show "page_range p (2 ^ ?n) \<subseteq> free_bytes h ys fs - {m..<m + 32}" using p(3) g(4) by (auto simp: free_bytes_def)
      show "free_bytes h' ys' fs' = free_bytes h ys fs - {m..<m + 32} - page_range p (2 ^ ?n)"
        using fb g(4) unfolding h'(2) by simp
      show "arena h' + 16 < m" "arena h' + 16 < a" using g(7) lo ar h' by simp_all
      show "\<not> PageReserved (pages (kpages h') i)" if "i \<in> {p..<p + 2 ^ ?n}" for i
        using get_pages_unreserved [OF g(2) p(1,3) that] unfolding h'(2) by simp
    qed
  qed
qed

text \<open>Freeing it: the pages and then the descriptor go back. The free list of the pages must be empty or
  hold a block above them.\<close>

lemma kfree_big_ok:
  assumes inv: "heap_inv h ys fs" and bb: "bigblocks h = \<lparr>bb_at = m, bb_order = n, bb_pages = 4096 * p\<rparr> # bbs"
    and m: "arena h + 16 < m" and p0: "0 < p" and res: "\<And>i. i \<in> {p..<p + 2 ^ n} \<Longrightarrow> \<not> PageReserved (pages (kpages h) i)"
    and used: "({m..<m + 32} \<union> page_range p (2 ^ n)) \<inter> free_bytes h ys fs = {}" "{m..<m + 32} \<inter> page_range p (2 ^ n) = {}"
    and lo: "arena h + 16 < 4096 * p" and above: "fs = [] \<or> (\<exists>x \<in> set fs. p < x)"
  obtains h' ys' fs' where "kfree (4096 * p) h = Some h'" "heap_inv h' ys' fs'" "bigblocks h' = bbs"
    "free_bytes h' ys' fs' = free_bytes h ys fs \<union> {m..<m + 32} \<union> page_range p (2 ^ n)"
proof -
  have fl: "fl_inv (kpages h) fs" using inv by (simp add: heap_inv_def)
  have "\<forall>i \<in> {p..<p + 2 ^ n}. i \<notin> free_frames (kpages h) fs \<and> \<not> PageReserved (pages (kpages h) i)"
  proof (intro ballI conjI res)
    fix i assume i: "i \<in> {p..<p + 2 ^ n}"
    have "4096 * i \<in> page_range p (2 ^ n)" using i by (simp add: page_range_iff)
    then have "4096 * i \<notin> page_bytes h fs" using used(1) unfolding free_bytes_def by blast
    then show "i \<notin> free_frames (kpages h) fs" by (simp add: page_bytes_iff)
  qed
  from default_free_ok [OF fl _ this above] obtain f fs' where f: "default_free_pages p (2 ^ n) (kpages h) = Some f"
    "fl_inv f fs'" "free_frames f fs' = free_frames (kpages h) fs \<union> {p..<p + 2 ^ n}" by auto
  let ?g = "h\<lparr>bigblocks := bbs, kpages := f\<rparr>"
  have sb: "slob_bytes ?g ys = slob_bytes h ys" by (rule slob_bytes_cong) simp
  have pb: "page_bytes ?g fs' = page_bytes h fs \<union> page_range p (2 ^ n)"
    by (rule set_eqI) (simp only: Un_iff page_bytes_iff page_range_iff, simp add: f(3))
  have fb: "free_bytes ?g ys fs' = free_bytes h ys fs \<union> page_range p (2 ^ n)" using sb pb by (auto simp: free_bytes_def)
  have ig: "heap_inv ?g ys fs'"
  proof -
    have "slob_inv ?g ys" using inv by (auto simp: heap_inv_def intro: slob_inv_frame [of h])
    moreover have "arena h + 16 < c" if "c \<in> page_range p (2 ^ n)" for c using that lo by (auto simp: page_range_def)
    moreover have "slob_bytes h ys \<inter> page_range p (2 ^ n) = {}" using used(1) unfolding free_bytes_def by blast
    moreover have "slob_bytes h ys \<inter> page_bytes h fs = {}" "\<forall>c \<in> page_bytes h fs. arena h + 16 < c"
      using inv by (simp_all add: heap_inv_def)
    ultimately show ?thesis using f(2) unfolding heap_inv_def sb pb by (simp add: Int_Un_distrib) blast
  qed
  have u: "2 = (if BIGBLOCK_SIZE \<noteq> 0 then SLOB_UNITS BIGBLOCK_SIZE else units ?g m)" "0 < (2 :: nat)"
    by (simp_all add: SLOB_UNITS_def BIGBLOCK_SIZE_def)
  have "{m..<m + 32} \<inter> free_bytes ?g ys fs' = {}" unfolding fb using used by blast
  then have dj: "{m..<m + 16 * 2} \<inter> free_bytes ?g ys fs' = {}" by simp
  have "arena ?g + 16 < m" using m by simp
  note fr = slob_free_ok [OF ig u this dj]
  obtain h' ys' where h': "slob_free m BIGBLOCK_SIZE ?g = Some h'" "heap_inv h' ys' fs'"
    "free_bytes h' ys' fs' = free_bytes ?g ys fs' \<union> {m..<m + 16 * 2}" "bigblocks h' = bigblocks ?g"
    by (rule fr) (rule that)
  have "kfree (4096 * p) h = Some h'"
    using bb f(1) h'(1) p0 by (simp add: kfree_def slob_free_pages_def)
  with that h'(2-4) fb show thesis by (simp add: Un_ac)
qed

section \<open>A concrete heap\<close>

text \<open>The heap at boot: only the arena, in frame 1, and the page frames of \<open>ex_area\<close>.\<close>

definition demo_heap :: kheap where
  "demo_heap = \<lparr>units = (\<lambda>_. 1), snext = (\<lambda>_. 4096), arena = 4096, slobfree = 4096,
     bigblocks = [], kpages = ex_area, kswap = False\<rparr>"

lemma demo_heap_inv: "heap_inv demo_heap [] [2, 8]"
proof -
  have "slob_inv demo_heap []"
    by (simp add: slob_inv_def ring_def gaps_def demo_heap_def)
  moreover have "arena demo_heap + 16 < a" if "a \<in> page_bytes demo_heap [2, 8]" for a
    using that unfolding page_bytes_iff by (auto simp: demo_heap_def ex_area_frames)
  ultimately show ?thesis using ex_area_inv by (simp add: heap_inv_def demo_heap_def)
qed

section \<open>Properties\<close>

text \<open>C28: with swapping off, \<open>kmalloc\<close> of 1 to 4063 bytes reports a failure only when no free block is large enough
  and no page frame is free, and then changes nothing; otherwise it returns an address whose
  bytes were all free and are not free any more. It takes no other byte than those of the
  block with its header, writes no header outside the memory that was free, and leaves a sorted
  ring of blocks that neither overlap nor touch.\<close>

theorem kmalloc_small_correct:
  assumes "heap_inv h ys fs" "\<not> kswap h" "0 < sz" "sz < 4064"
  shows "kmalloc sz h = Some (None, h) \<and> fs = [] \<and> (\<forall>y \<in> set ys. units h y < SLOB_UNITS (unat sz + 16))
    \<or> (\<exists>p h' ys' fs'. kmalloc sz h = Some (Some p, h') \<and> heap_inv h' ys' fs'
         \<and> {p..<p + unat sz} \<subseteq> free_bytes h ys fs
         \<and> free_bytes h' ys' fs' = free_bytes h ys fs - {p - 16..<p - 16 + 16 * SLOB_UNITS (unat sz + 16)}
         \<and> {p..<p + unat sz} \<inter> free_bytes h' ys' fs' = {} \<and> keeps (free_bytes h ys fs) h h')"
proof -
  let ?u = "SLOB_UNITS (unat sz + 16)"
  have u: "unat sz + 16 \<le> 16 * ?u" by (simp add: SLOB_UNITS_def)
  from kmalloc_small_ok [OF assms] show ?thesis
  proof (elim disjE exE conjE)
    fix m h' ys' fs'
    assume a: "kmalloc sz h = Some (Some (m + 16), h')" "heap_inv h' ys' fs'"
      "{m..<m + 16 * ?u} \<subseteq> free_bytes h ys fs" "keeps (free_bytes h ys fs) h h'"
      "free_bytes h' ys' fs' = free_bytes h ys fs - {m..<m + 16 * ?u}"
    have "{m + 16..<m + 16 + unat sz} \<subseteq> {m..<m + 16 * ?u}" using u by auto
    with a show ?thesis
      by (intro disjI2 exI [of _ "m + 16"] exI [of _ h'] exI [of _ ys'] exI [of _ fs']) auto
  qed simp
qed

lemma kmalloc_small_correct_witness:
  "\<exists>p h' ys' fs'. kmalloc 100 demo_heap = Some (Some p, h') \<and> heap_inv h' ys' fs'
     \<and> {p..<p + 100} \<subseteq> free_bytes demo_heap [] [2, 8]"
  using kmalloc_small_correct [OF demo_heap_inv, of 100] by (auto simp: demo_heap_def)

text \<open>From 4064 to 4079 bytes, an object still goes to \<open>slob_alloc\<close>, whose assertion fails.\<close>

theorem kmalloc_panics:
  assumes "4064 \<le> sz" "sz < 4080"
  shows "kmalloc sz h = None"
  using assms by (simp add: kmalloc_def slob_alloc_def word_le_nat_alt word_less_nat_alt)

text \<open>C29: an object of any size but 0 that \<open>kmalloc\<close> has returned, freed before anything else is done, gives
  back exactly the memory that was free before it, in a well-formed heap, and the list of the large
  objects is as it was. For a large object the free list of the pages must be empty after the
  allocation or hold a block above the object: at its end, freeing corrupts the list
  (\<open>default_free_tail_self_loop\<close>). Swapping is off, and no large object lies in free memory.\<close>

theorem kmalloc_kfree_roundtrip:
  assumes "heap_inv h ys fs" "\<not> kswap h" "0 < sz" "kmalloc sz h = Some (Some p, h')"
    and "\<forall>bb \<in> set (bigblocks h). bb_pages bb \<notin> free_bytes h ys fs"
  shows "\<exists>ys' fs'. heap_inv h' ys' fs' \<and> (sz < 4064 \<or> fs' = [] \<or> (\<exists>x \<in> set fs'. p div 4096 < x) \<longrightarrow>
    (\<exists>h'' ys'' fs''. kfree p h' = Some h'' \<and> heap_inv h'' ys'' fs''
      \<and> free_bytes h'' ys'' fs'' = free_bytes h ys fs \<and> bigblocks h'' = bigblocks h))"
proof (cases "sz < 4064")
  case small: True
  let ?u = "SLOB_UNITS (unat sz + 16)"
  from kmalloc_small_ok [OF assms(1-3) small] assms(4) obtain m ys' fs' where
    a: "p = m + 16" "heap_inv h' ys' fs'" "{m..<m + 16 * ?u} \<subseteq> free_bytes h ys fs" "units h' m = ?u"
      "free_bytes h' ys' fs' = free_bytes h ys fs - {m..<m + 16 * ?u}" "bigblocks h' = bigblocks h"
      "keeps (free_bytes h ys fs) h h'" "arena h + 16 < m" by auto
  have "0 < unat sz" using assms(3) by (simp add: word_less_nat_alt)
  then have u: "2 \<le> ?u" by (simp add: SLOB_UNITS_def)
  have "m + 16 \<in> {m..<m + 16 * ?u}" using u by auto
  with a(3) have "m + 16 \<in> free_bytes h ys fs" by blast
  then have big: "bb_pages bb \<noteq> m + 16" if "bb \<in> set (bigblocks h')" for bb
    using that assms(5) a(6) by metis
  have "{m..<m + 16 * ?u} \<inter> free_bytes h' ys' fs' = {}" "0 < ?u" "arena h' + 16 < m"
    using a(5,7,8) u by (auto simp: keeps_def)
  from kfree_small_ok [OF a(2,4) this(2,3,1) big] obtain h'' ys'' where
    "kfree (m + 16) h' = Some h''" "heap_inv h'' ys'' fs'" "bigblocks h'' = bigblocks h'"
    "free_bytes h'' ys'' fs' = free_bytes h' ys' fs' \<union> {m..<m + 16 * ?u}" by metis
  moreover have "free_bytes h' ys' fs' \<union> {m..<m + 16 * ?u} = free_bytes h ys fs" using a(3,5) by blast
  ultimately show ?thesis using a(1,2,6) by metis
next
  case False
  then have big: "4080 \<le> sz" using kmalloc_panics [of sz h] assms(4) by fastforce
  from kmalloc_big_ok [OF assms(1,2) big assms(4)] obtain m q n ys' fs' where
    a: "p = 4096 * q" "heap_inv h' ys' fs'" "bigblocks h' = \<lparr>bb_at = m, bb_order = n, bb_pages = p\<rparr> # bigblocks h"
      "{m..<m + 32} \<subseteq> free_bytes h ys fs" "page_range q (2 ^ n) \<subseteq> free_bytes h ys fs - {m..<m + 32}"
      "free_bytes h' ys' fs' = free_bytes h ys fs - {m..<m + 32} - page_range q (2 ^ n)"
      "arena h' + 16 < m" "\<And>i. i \<in> {q..<q + 2 ^ n} \<Longrightarrow> \<not> PageReserved (pages (kpages h') i)" "arena h' + 16 < p"
    by metis
  have "\<exists>h'' ys'' fs''. kfree p h' = Some h'' \<and> heap_inv h'' ys'' fs''
      \<and> free_bytes h'' ys'' fs'' = free_bytes h ys fs \<and> bigblocks h'' = bigblocks h"
    if above: "fs' = [] \<or> (\<exists>x \<in> set fs'. p div 4096 < x)"
  proof -
    have "({m..<m + 32} \<union> page_range q (2 ^ n)) \<inter> free_bytes h' ys' fs' = {}" "{m..<m + 32} \<inter> page_range q (2 ^ n) = {}"
      "0 < q" "arena h' + 16 < 4096 * q" "fs' = [] \<or> (\<exists>x \<in> set fs'. q < x)"
      using a(1,5,6,9) above by auto
    from kfree_big_ok [OF a(2) a(3) [unfolded a(1)] a(7) this(3) a(8) this(1,2,4,5)] obtain h'' ys'' fs'' where
      "kfree (4096 * q) h' = Some h''" "heap_inv h'' ys'' fs''" "bigblocks h'' = bigblocks h"
      "free_bytes h'' ys'' fs'' = free_bytes h' ys' fs' \<union> {m..<m + 32} \<union> page_range q (2 ^ n)" by metis
    moreover have "free_bytes h' ys' fs' \<union> {m..<m + 32} \<union> page_range q (2 ^ n) = free_bytes h ys fs"
      using a(4-6) by blast
    ultimately show ?thesis using a(1) by metis
  qed
  with a(2) False show ?thesis by blast
qed

lemma kmalloc_kfree_roundtrip_witness:
  "\<exists>p h' h'' ys'' fs''. kmalloc 100 demo_heap = Some (Some p, h') \<and> kfree p h' = Some h''
     \<and> free_bytes h'' ys'' fs'' = free_bytes demo_heap [] [2, 8]"
proof -
  obtain m h' where m: "kmalloc 100 demo_heap = Some (Some (m + 16), h')"
    using kmalloc_small_ok [OF demo_heap_inv, of 100] by (auto simp: demo_heap_def)
  moreover from kmalloc_kfree_roundtrip [OF demo_heap_inv _ _ m] obtain h'' ys'' fs'' where
    "kfree (m + 16) h' = Some h''" "free_bytes h'' ys'' fs'' = free_bytes demo_heap [] [2, 8]"
    by (auto simp: demo_heap_def)
  ultimately show ?thesis by blast
qed

text \<open>The order of a large object: the least \<open>k\<close> with \<open>size < 4097 * 2 ^ k\<close>, where
  \<open>size \<le> 4096 * 2 ^ k\<close> is needed.\<close>

lemma find_order_bounds:
  "n < 4097 * 2 ^ find_order n \<and> (0 < find_order n \<longrightarrow> 4097 * 2 ^ (find_order n - 1) \<le> n)"
proof (induction n rule: find_order.induct)
  case (1 n)
  show ?case
  proof (cases "n > 4096")
    case True
    let ?k = "find_order (n div 2)"
    have k: "find_order n = Suc ?k" using True by (subst find_order.simps) simp
    from 1 True have ih: "n div 2 < 4097 * 2 ^ ?k" "0 < ?k \<longrightarrow> 4097 * 2 ^ (?k - 1) \<le> n div 2" by auto
    have "4097 * 2 ^ ?k \<le> n"
    proof (cases ?k)
      case (Suc j)
      with ih(2) have "4097 * 2 ^ j \<le> n div 2" by simp
      then show ?thesis using Suc by simp
    qed (use True in simp)
    with ih(1) k show ?thesis by simp
  qed (subst (1 2 3) find_order.simps, simp)
qed

theorem find_order_too_small:
  assumes "0 < k" "4096 * 2 ^ k < n" "n < 4097 * 2 ^ k"
  shows "find_order n = k"
proof -
  have le: "2 ^ a \<le> (2 ^ b :: int)" if "a \<le> b" for a b using that by (simp add: power_increasing)
  note b = find_order_bounds [of n]
  consider "find_order n < k" | "find_order n = k" | "k < find_order n" by linarith
  then show ?thesis
  proof cases
    case 1
    then have "2 ^ Suc (find_order n) \<le> (2 ^ k :: int)" by (intro le) simp
    moreover have "(1 :: int) \<le> 2 ^ find_order n" by simp
    ultimately show ?thesis using b assms by simp
  next
    case 3
    then have "2 ^ k \<le> (2 ^ (find_order n - 1) :: int)" by (intro le) simp
    moreover have "4097 * 2 ^ (find_order n - 1) \<le> n" using b order.strict_trans1 [OF le0 3] by blast
    ultimately show ?thesis using assms(3) by linarith
  qed
qed

text \<open>\<open>kmalloc(8193)\<close> reserves two pages, \<open>kmalloc(0x80000000)\<close> one.\<close>

lemma find_order_8193: "find_order 8193 = 1"
  by (rule find_order_too_small) simp_all

lemma find_order_negative: "find_order (sint (ucast (0x80000000 :: u64) :: u32)) = 0"
  by (subst find_order.simps) simp

text \<open>\<open>kmalloc(0)\<close> takes the arena, the one block of one unit; while the arena is alone in the
  list it also stays in it, so that the next call returns the same address.\<close>

theorem kmalloc_zero_twice:
  "kmalloc 0 demo_heap = Some (Some 4112, demo_heap)"
proof -
  have "slob_cut 1 4096 4096 demo_heap = (4096, demo_heap)"
    by (auto simp: slob_cut_def demo_heap_def set_next_def fun_upd_idem_iff)
  then have "slob_loop 16 0 1 4096 4096 demo_heap = Some (Some 4096, demo_heap)"
    by (subst slob_loop_fit) (simp_all add: demo_heap_def)
  then show ?thesis by (simp add: kmalloc_def slob_alloc_def SLOB_UNITS_def demo_heap_def)
qed

end
