(* ===== verification/Files.thy ===== *)
theory Files
  imports Vfs
begin

text \<open>
  Open files: the descriptor table of a process (\<open>lab8/kern/fs/file.c\<close>) and its creation,
  copying and destruction (\<open>fs.c\<close>). A \<open>struct file *\<close> is the index of the entry in the array
  \<open>fd_array\<close>. The operations take the \<open>files_struct\<close> of the calling process and the state of the
  file system layer, and return both.
\<close>

section \<open>State\<close>

datatype fd_status = FD_NONE | FD_INIT | FD_OPENED | FD_CLOSED

record file_t =
  status :: fd_status
  readable :: bool
  writable :: bool
  fd :: int
  pos :: int
  node :: "nat option"
  fopens :: int

record files_struct =
  pwd :: "nat option"
  fd_array :: "file_t list"
  files_count :: int

text \<open>A page less the 48 bytes of the structure, in entries of 56 bytes.\<close>

definition FILES_STRUCT_NENTRY :: nat where "FILES_STRUCT_NENTRY = (4096 - 48) div 56"

definition NO_FD :: int where "NO_FD = - 0x9527"

definition LSEEK_SET :: int where "LSEEK_SET = 0"
definition LSEEK_CUR :: int where "LSEEK_CUR = 1"
definition LSEEK_END :: int where "LSEEK_END = 2"

definition testfd :: "int \<Rightarrow> bool" where
  "testfd f \<longleftrightarrow> f \<ge> 0 \<and> f < int FILES_STRUCT_NENTRY"

definition get_fd_array :: "files_struct \<Rightarrow> file_t list option" where
  "get_fd_array fs = (if files_count fs > 0 then Some (fd_array fs) else None)"

definition upd_file :: "nat \<Rightarrow> (file_t \<Rightarrow> file_t) \<Rightarrow> files_struct \<Rightarrow> files_struct" where
  "upd_file i g fs = fs\<lparr>fd_array := (fd_array fs)[i := g (fd_array fs ! i)]\<rparr>"

type_synonym ('r, 's) file_op = "files_struct \<Rightarrow> 's vfs \<Rightarrow> ('r \<times> files_struct \<times> 's vfs) option"

section \<open>Entries of the table\<close>

text \<open>The memory of the array comes from \<open>kmalloc\<close>; \<open>garbage\<close> is what it holds.\<close>

definition fd_array_init :: "file_t list \<Rightarrow> file_t list" where
  "fd_array_init garbage =
     map (\<lambda>i. (garbage ! i)\<lparr>fopens := 0, status := FD_NONE, fd := int i\<rparr>) [0..<FILES_STRUCT_NENTRY]"

definition fd_array_alloc :: "int \<Rightarrow> files_struct \<Rightarrow> ((errno + nat) \<times> files_struct) option" where
  "fd_array_alloc f fs = do {
     fa \<leftarrow> get_fd_array fs;
     let r = (if f = NO_FD
              then (case find (\<lambda>i. status (fa ! i) = FD_NONE) [0..<FILES_STRUCT_NENTRY] of
                      None \<Rightarrow> Inl E_MAX_OPEN | Some i \<Rightarrow> Inr i)
              else if testfd f
              then (if status (fa ! nat f) = FD_NONE then Inr (nat f) else Inl E_BUSY)
              else Inl E_INVAL);
     (case r of
        Inl e \<Rightarrow> Some (Inl e, fs)
      | Inr i \<Rightarrow> if fopens (fa ! i) = 0
                then Some (Inr i, upd_file i (\<lambda>x. x\<lparr>status := FD_INIT, node := None\<rparr>) fs)
                else None) }"

definition fd_array_free :: "'s vfs_world \<Rightarrow> nat \<Rightarrow> files_struct \<Rightarrow> 's vfs \<Rightarrow> (files_struct \<times> 's vfs) option" where
  "fd_array_free W i fs s =
     (let x = fd_array fs ! i in
      if (status x = FD_INIT \<or> status x = FD_CLOSED) \<and> fopens x = 0
      then do {
        s \<leftarrow> (if status x = FD_CLOSED then do { n \<leftarrow> node x; vfs_close W n s } else Some s);
        Some (upd_file i (\<lambda>x. x\<lparr>status := FD_NONE\<rparr>) fs, s) }
      else None)"

definition fd_array_acquire :: "nat \<Rightarrow> files_struct \<Rightarrow> files_struct option" where
  "fd_array_acquire i fs =
     (if status (fd_array fs ! i) = FD_OPENED
      then Some (upd_file i (\<lambda>x. x\<lparr>fopens := fopens x + 1\<rparr>) fs) else None)"

definition fd_array_release :: "'s vfs_world \<Rightarrow> nat \<Rightarrow> files_struct \<Rightarrow> 's vfs \<Rightarrow> (files_struct \<times> 's vfs) option" where
  "fd_array_release W i fs s =
     (let x = fd_array fs ! i in
      if (status x = FD_OPENED \<or> status x = FD_CLOSED) \<and> fopens x > 0
      then let fs = upd_file i (\<lambda>x. x\<lparr>fopens := fopens x - 1\<rparr>) fs
           in if fopens (fd_array fs ! i) = 0 then fd_array_free W i fs s else Some (fs, s)
      else None)"

definition fd_array_open :: "nat \<Rightarrow> files_struct \<Rightarrow> files_struct option" where
  "fd_array_open i fs =
     (if status (fd_array fs ! i) = FD_INIT \<and> node (fd_array fs ! i) \<noteq> None
      then Some (upd_file i (\<lambda>x. x\<lparr>status := FD_OPENED, fopens := fopens x + 1\<rparr>) fs) else None)"

definition fd_array_close :: "'s vfs_world \<Rightarrow> nat \<Rightarrow> files_struct \<Rightarrow> 's vfs \<Rightarrow> (files_struct \<times> 's vfs) option" where
  "fd_array_close W i fs s =
     (let x = fd_array fs ! i in
      if status x = FD_OPENED \<and> fopens x > 0
      then let fs = upd_file i (\<lambda>x. x\<lparr>status := FD_CLOSED, fopens := fopens x - 1\<rparr>) fs
           in if fopens (fd_array fs ! i) = 0 then fd_array_free W i fs s else Some (fs, s)
      else None)"

text \<open>\<open>fd_array_dup\<close>; \<open>from\<close> is the entry, which may belong to another table.\<close>

definition fd_array_dup :: "nat \<Rightarrow> file_t \<Rightarrow> files_struct \<Rightarrow> 's vfs \<Rightarrow> (files_struct \<times> 's vfs) option" where
  "fd_array_dup to from fs s =
     (if status (fd_array fs ! to) = FD_INIT \<and> status from = FD_OPENED
      then do {
        n \<leftarrow> node from;
        let s = inode_open_inc n (inode_ref_inc n s);
        let fs = upd_file to (\<lambda>x. x\<lparr>pos := pos from, readable := readable from, writable := writable from, node := Some n\<rparr>) fs;
        fs \<leftarrow> fd_array_open to fs;
        Some (fs, s) }
      else None)"

definition fd2file :: "int \<Rightarrow> files_struct \<Rightarrow> (errno + nat) option" where
  "fd2file f fs =
     (if testfd f
      then do {
        fa \<leftarrow> get_fd_array fs;
        Some (if status (fa ! nat f) = FD_OPENED \<and> fd (fa ! nat f) = f then Inr (nat f) else Inl E_INVAL) }
      else Some (Inl E_INVAL))"

definition file_testfd :: "int \<Rightarrow> bool \<Rightarrow> bool \<Rightarrow> files_struct \<Rightarrow> bool option" where
  "file_testfd f rd wr fs = do {
     r \<leftarrow> fd2file f fs;
     Some (case r of
             Inl _ \<Rightarrow> False
           | Inr i \<Rightarrow> let x = fd_array fs ! i in \<not> (rd \<and> \<not> readable x) \<and> \<not> (wr \<and> \<not> writable x)) }"

section \<open>The operations on files\<close>

text \<open>The second half of \<open>file_open\<close>, once \<open>vfs_open\<close> has returned the inode \<open>n\<close>.\<close>

definition file_opened :: "'s vfs_world \<Rightarrow> u32 \<Rightarrow> nat \<Rightarrow> nat \<Rightarrow> (errno + int, 's) file_op" where
  "file_opened W open_flags i n fs s = do {
     (r, s) \<leftarrow> (if open_flags AND O_APPEND \<noteq> 0
              then do { f \<leftarrow> vop_op W n vop_fstat s;
                        (r, s) \<leftarrow> f n s;
                        Some (map_sum id (\<lambda>st. int (st_size st)) r, s) }
              else Some (Inr 0, s));
     (case r of
        Inl e \<Rightarrow> do {
          s \<leftarrow> vfs_close W n s;
          (fs, s) \<leftarrow> fd_array_free W i fs s;
          Some (Inl e, fs, s) }
      | Inr p \<Rightarrow> do {
          let acc = open_flags AND O_ACCMODE;
          let fs = upd_file i (\<lambda>x. x\<lparr>pos := p, node := Some n, readable := acc = O_RDONLY \<or> acc = O_RDWR,
                                    writable := acc = O_WRONLY \<or> acc = O_RDWR\<rparr>) fs;
          fs \<leftarrow> fd_array_open i fs;
          Some (Inr (fd (fd_array fs ! i)), fs, s) }) }"

definition file_open :: "'s vfs_world \<Rightarrow> path \<Rightarrow> u32 \<Rightarrow> (errno + int, 's) file_op" where
  "file_open W path open_flags fs s =
     (if open_flags AND O_ACCMODE \<notin> {O_RDONLY, O_WRONLY, O_RDWR} then Some (Inl E_INVAL, fs, s)
      else do {
        (r, fs) \<leftarrow> fd_array_alloc NO_FD fs;
        (case r of
           Inl e \<Rightarrow> Some (Inl e, fs, s)
         | Inr i \<Rightarrow> do {
             (r, s) \<leftarrow> vfs_open W (pwd fs) path open_flags s;
             (case r of
                Inl e \<Rightarrow> do { (fs, s) \<leftarrow> fd_array_free W i fs s; Some (Inl e, fs, s) }
              | Inr n \<Rightarrow> file_opened W open_flags i n fs s) }) })"

definition file_close :: "'s vfs_world \<Rightarrow> int \<Rightarrow> (errno option, 's) file_op" where
  "file_close W f fs s = do {
     r \<leftarrow> fd2file f fs;
     (case r of
        Inl e \<Rightarrow> Some (Some e, fs, s)
      | Inr i \<Rightarrow> do { (fs, s) \<leftarrow> fd_array_close W i fs s; Some (None, fs, s) }) }"

text \<open>
  \<open>file_read\<close> and \<open>file_write\<close> differ in the permission and in the function of the table. The
  result is the value of the function (a device returns the bytes read as a positive number) and
  the number of bytes moved.
\<close>

definition file_transfer ::
    "'s vfs_world \<Rightarrow> (file_t \<Rightarrow> bool) \<Rightarrow> ('s inode_ops \<Rightarrow> (nat \<Rightarrow> iobuf \<Rightarrow> (int \<times> iobuf, 's) vop) option) \<Rightarrow>
     int \<Rightarrow> nat \<Rightarrow> nat \<Rightarrow> (int \<times> nat, 's) file_op" where
  "file_transfer W allowed op f base len fs s = do {
     r \<leftarrow> fd2file f fs;
     (case r of
        Inl e \<Rightarrow> Some ((- errno_val e, 0), fs, s)
      | Inr i \<Rightarrow>
          if \<not> allowed (fd_array fs ! i) then Some ((- errno_val E_INVAL, 0), fs, s)
          else do {
            fs \<leftarrow> fd_array_acquire i fs;
            n \<leftarrow> node (fd_array fs ! i);
            g \<leftarrow> vop_op W n op s;
            ((ret, iob), s) \<leftarrow> g n (iobuf_init base len (pos (fd_array fs ! i))) s;
            let copied = iobuf_used iob;
            let fs = (if status (fd_array fs ! i) = FD_OPENED
                      then upd_file i (\<lambda>x. x\<lparr>pos := pos x + int copied\<rparr>) fs else fs);
            (fs, s) \<leftarrow> fd_array_release W i fs s;
            Some ((ret, copied), fs, s) }) }"

definition file_read :: "'s vfs_world \<Rightarrow> int \<Rightarrow> nat \<Rightarrow> nat \<Rightarrow> (int \<times> nat, 's) file_op" where
  "file_read W = file_transfer W readable vop_read"

definition file_write :: "'s vfs_world \<Rightarrow> int \<Rightarrow> nat \<Rightarrow> nat \<Rightarrow> (int \<times> nat, 's) file_op" where
  "file_write W = file_transfer W writable vop_write"

definition file_seek :: "'s vfs_world \<Rightarrow> int \<Rightarrow> int \<Rightarrow> int \<Rightarrow> (errno option, 's) file_op" where
  "file_seek W f p whence fs s = do {
     r \<leftarrow> fd2file f fs;
     (case r of
        Inl e \<Rightarrow> Some (Some e, fs, s)
      | Inr i \<Rightarrow> do {
          fs \<leftarrow> fd_array_acquire i fs;
          n \<leftarrow> node (fd_array fs ! i);
          (r, s) \<leftarrow> (if whence = LSEEK_SET then Some (Inr p, s)
                   else if whence = LSEEK_CUR then Some (Inr (p + pos (fd_array fs ! i)), s)
                   else if whence = LSEEK_END
                   then do { g \<leftarrow> vop_op W n vop_fstat s;
                             (r, s) \<leftarrow> g n s;
                             Some (map_sum id (\<lambda>st. p + int (st_size st)) r, s) }
                   else Some (Inl E_INVAL, s));
          (r, fs, s) \<leftarrow> (case r of
                     Inl e \<Rightarrow> Some (Some e, fs, s)
                   | Inr p \<Rightarrow> do {
                       g \<leftarrow> vop_op W n vop_tryseek s;
                       (r, s) \<leftarrow> g n p s;
                       Some (r, if r = None then upd_file i (\<lambda>x. x\<lparr>pos := p\<rparr>) fs else fs, s) });
          (fs, s) \<leftarrow> fd_array_release W i fs s;
          Some (r, fs, s) }) }"

definition file_fstat :: "'s vfs_world \<Rightarrow> int \<Rightarrow> (errno + stat, 's) file_op" where
  "file_fstat W f fs s = do {
     r \<leftarrow> fd2file f fs;
     (case r of
        Inl e \<Rightarrow> Some (Inl e, fs, s)
      | Inr i \<Rightarrow> do {
          fs \<leftarrow> fd_array_acquire i fs;
          n \<leftarrow> node (fd_array fs ! i);
          g \<leftarrow> vop_op W n vop_fstat s;
          (r, s) \<leftarrow> g n s;
          (fs, s) \<leftarrow> fd_array_release W i fs s;
          Some (r, fs, s) }) }"

definition file_fsync :: "'s vfs_world \<Rightarrow> int \<Rightarrow> (errno option, 's) file_op" where
  "file_fsync W f fs s = do {
     r \<leftarrow> fd2file f fs;
     (case r of
        Inl e \<Rightarrow> Some (Some e, fs, s)
      | Inr i \<Rightarrow> do {
          fs \<leftarrow> fd_array_acquire i fs;
          n \<leftarrow> node (fd_array fs ! i);
          g \<leftarrow> vop_op W n vop_fsync s;
          (r, s) \<leftarrow> g n s;
          (fs, s) \<leftarrow> fd_array_release W i fs s;
          Some (r, fs, s) }) }"

text \<open>\<open>file_getdirentry\<close> on the fields of a \<open>struct dirent\<close>: the address of the name, and the
  offset, which is returned updated.\<close>

definition FS_MAX_FNAME_LEN :: nat where "FS_MAX_FNAME_LEN = 255"

definition file_getdirentry :: "'s vfs_world \<Rightarrow> int \<Rightarrow> nat \<Rightarrow> int \<Rightarrow> (errno option \<times> int, 's) file_op" where
  "file_getdirentry W f name offset fs s = do {
     r \<leftarrow> fd2file f fs;
     (case r of
        Inl e \<Rightarrow> Some ((Some e, offset), fs, s)
      | Inr i \<Rightarrow> do {
          fs \<leftarrow> fd_array_acquire i fs;
          n \<leftarrow> node (fd_array fs ! i);
          g \<leftarrow> vop_op W n vop_getdirentry s;
          ((r, iob), s) \<leftarrow> g n (iobuf_init name (FS_MAX_FNAME_LEN + 1) offset) s;
          (fs, s) \<leftarrow> fd_array_release W i fs s;
          Some ((r, if r = None then offset + int (iobuf_used iob) else offset), fs, s) }) }"

definition file_dup :: "int \<Rightarrow> int \<Rightarrow> (errno + int, 's) file_op" where
  "file_dup fd1 fd2 fs s = do {
     r \<leftarrow> fd2file fd1 fs;
     (case r of
        Inl e \<Rightarrow> Some (Inl e, fs, s)
      | Inr i \<Rightarrow> do {
          (r, fs) \<leftarrow> fd_array_alloc fd2 fs;
          (case r of
             Inl e \<Rightarrow> Some (Inl e, fs, s)
           | Inr j \<Rightarrow> do {
               (fs, s) \<leftarrow> fd_array_dup j (fd_array fs ! i) fs s;
               Some (Inr (fd (fd_array fs ! j)), fs, s) }) }) }"

section \<open>Tables of processes: \<open>fs.c\<close>\<close>

definition files_create :: "bool \<Rightarrow> file_t list \<Rightarrow> files_struct option" where
  "files_create km garbage =
     (if km then Some \<lparr>pwd = None, fd_array = fd_array_init garbage, files_count = 0\<rparr> else None)"

text \<open>The loops over the entries of a table, \<open>is\<close> being the indices that are left. The loop of
  \<open>files_destroy\<close> asserts that each entry is free after its turn.\<close>

fun close_entries :: "'s vfs_world \<Rightarrow> bool \<Rightarrow> nat list \<Rightarrow> files_struct \<Rightarrow> 's vfs \<Rightarrow> (files_struct \<times> 's vfs) option" where
  "close_entries W chk [] fs s = Some (fs, s)"
| "close_entries W chk (i # is) fs s = do {
     (fs, s) \<leftarrow> (if status (fd_array fs ! i) = FD_OPENED then fd_array_close W i fs s else Some (fs, s));
     if chk \<and> status (fd_array fs ! i) \<noteq> FD_NONE then None else close_entries W chk is fs s }"

definition files_destroy :: "'s vfs_world \<Rightarrow> files_struct \<Rightarrow> 's vfs \<Rightarrow> 's vfs option" where
  "files_destroy W fs s =
     (if files_count fs = 0
      then do {
        s \<leftarrow> (case pwd fs of None \<Rightarrow> Some s | Some n \<Rightarrow> inode_ref_dec W n s);
        (_, s) \<leftarrow> close_entries W True [0..<FILES_STRUCT_NENTRY] fs s;
        Some s }
      else None)"

definition files_closeall :: "'s vfs_world \<Rightarrow> files_struct \<Rightarrow> 's vfs \<Rightarrow> (files_struct \<times> 's vfs) option" where
  "files_closeall W fs s =
     (if files_count fs > 0 then close_entries W False [2..<FILES_STRUCT_NENTRY] fs s else None)"

fun dup_entries :: "nat list \<Rightarrow> files_struct \<Rightarrow> files_struct \<Rightarrow> 's vfs \<Rightarrow> (files_struct \<times> 's vfs) option" where
  "dup_entries [] from to s = Some (to, s)"
| "dup_entries (i # is) from to s =
     (if status (fd_array from ! i) = FD_OPENED
      then do {
        (to, s) \<leftarrow> fd_array_dup i (fd_array from ! i) (upd_file i (\<lambda>x. x\<lparr>status := FD_INIT\<rparr>) to) s;
        dup_entries is from to s }
      else dup_entries is from to s)"

definition dup_files :: "files_struct \<Rightarrow> files_struct \<Rightarrow> 's vfs \<Rightarrow> (files_struct \<times> 's vfs) option" where
  "dup_files to from s =
     (if files_count to = 0 \<and> files_count from > 0
      then let to = to\<lparr>pwd := pwd from\<rparr>;
               s = (case pwd from of None \<Rightarrow> s | Some n \<Rightarrow> inode_ref_inc n s)
           in dup_entries [0..<FILES_STRUCT_NENTRY] from to s
      else None)"

end
