(* ===== verification/Devices.thy ===== *)
theory Devices
  imports Disk0 Vfs
begin

text \<open>
  The devices as files: \<open>lab8/kern/fs/devs/dev.c\<close> and its devices \<open>dev_stdin.c\<close>, \<open>dev_stdout.c\<close>
  and \<open>dev_disk0.c\<close> (whose transfers are in \<open>Disk0\<close>). A \<open>struct device\<close> with its function
  pointers is one of three constructors.

  A read from \<open>stdin\<close> sleeps when the buffer is empty. What the keyboard delivers in each of the
  coming sleeps, and whether the process is woken by the keyboard or by something else, is the
  list \<open>kbd\<close> of the state; when it is used up the reader sleeps on, which is \<open>None\<close>.
\<close>

section \<open>Standard input: a ring of characters\<close>

definition STDIN_BUFSIZE :: nat where "STDIN_BUFSIZE = 4096"

record devs = disk0 +
  stdin_buffer :: "nat \<Rightarrow> u8"
  p_rpos :: nat
  p_wpos :: nat
  kbd :: "(u8 list \<times> bool) list"
  screen :: "u8 list"

definition dev_stdin_write :: "u8 \<Rightarrow> devs \<Rightarrow> devs" where
  "dev_stdin_write c d =
     (if c \<noteq> 0
      then let d = d\<lparr>stdin_buffer := (stdin_buffer d)(p_wpos d mod STDIN_BUFSIZE := c)\<rparr>
           in if p_wpos d - p_rpos d < STDIN_BUFSIZE then d\<lparr>p_wpos := p_wpos d + 1\<rparr> else d
      else d)"

lemma kbd_write [simp]: "kbd (dev_stdin_write c d) = kbd d"
  by (simp add: dev_stdin_write_def Let_def)

lemma kbd_writes [simp]: "kbd (fold dev_stdin_write cs d) = kbd d"
  by (induction cs arbitrary: d) simp_all

text \<open>The loop of \<open>dev_stdin_read\<close>: \<open>ret\<close> characters are stored at \<open>buf\<close> already.\<close>

function stdin_loop :: "nat \<Rightarrow> nat \<Rightarrow> nat \<Rightarrow> devs \<Rightarrow> (nat \<times> devs) option" where
  "stdin_loop ret len buf d =
     (if \<not> ret < len then Some (ret, d)
      else if p_rpos d < p_wpos d
      then stdin_loop (ret + 1) len (buf + 1)
             (d\<lparr>kbytes := (kbytes d)(buf := stdin_buffer d (p_rpos d mod STDIN_BUFSIZE)), p_rpos := p_rpos d + 1\<rparr>)
      else (case kbd d of
              [] \<Rightarrow> None
            | (cs, by_kbd) # ks \<Rightarrow>
                let d = fold dev_stdin_write cs (d\<lparr>kbd := ks\<rparr>)
                in if by_kbd then stdin_loop ret len buf d else Some (ret, d)))"
  by pat_completeness auto
termination
  by (relation "measures [\<lambda>(ret, len, buf, d). length (kbd d), \<lambda>(ret, len, buf, d). len - ret]") auto

declare stdin_loop.simps [simp del]

definition dev_stdin_read :: "nat \<Rightarrow> nat \<Rightarrow> devs \<Rightarrow> (nat \<times> devs) option" where
  "dev_stdin_read buf len d = stdin_loop 0 len buf d"

section \<open>The three devices\<close>

datatype device = Stdin | Stdout | Disk0_dev

definition stdin_io :: "iobuf \<Rightarrow> bool \<Rightarrow> devs \<Rightarrow> (int \<times> iobuf \<times> devs) option" where
  "stdin_io iob wrt d =
     (if \<not> wrt
      then map_option (\<lambda>(ret, d). (int ret, if ret > 0 then iob\<lparr>io_resid := io_resid iob - ret\<rparr> else iob, d))
             (dev_stdin_read (io_base iob) (io_resid iob) d)
      else Some (- errno_val E_INVAL, iob, d))"

definition stdout_io :: "iobuf \<Rightarrow> bool \<Rightarrow> devs \<Rightarrow> (int \<times> iobuf \<times> devs) option" where
  "stdout_io iob wrt d =
     (if wrt
      then Some (0, iob\<lparr>io_resid := 0\<rparr>,
             d\<lparr>screen := screen d @ map (\<lambda>i. kbytes d (io_base iob + i)) [0..<io_resid iob]\<rparr>)
      else Some (- errno_val E_INVAL, iob, d))"

fun dop_open :: "device \<Rightarrow> u32 \<Rightarrow> errno option" where
  "dop_open Stdin open_flags = (if open_flags \<noteq> O_RDONLY then Some E_INVAL else None)"
| "dop_open Stdout open_flags = (if open_flags \<noteq> O_WRONLY then Some E_INVAL else None)"
| "dop_open Disk0_dev open_flags = None"

fun dop_io :: "device \<Rightarrow> iobuf \<Rightarrow> bool \<Rightarrow> devs \<Rightarrow> (int \<times> iobuf \<times> devs) option" where
  "dop_io Stdin = stdin_io"
| "dop_io Stdout = stdout_io"
| "dop_io Disk0_dev = (\<lambda>iob wrt d. map_option
     (\<lambda>(e, iob, d). (case e of None \<Rightarrow> 0 | Some e \<Rightarrow> - errno_val e, iob, d)) (disk0_io iob wrt d))"

fun dev_blocks :: "device \<Rightarrow> devs \<Rightarrow> nat" where
  "dev_blocks Disk0_dev d = d_blocks d"
| "dev_blocks _ d = 0"

fun d_blocksize :: "device \<Rightarrow> nat" where
  "d_blocksize Disk0_dev = DISK0_BLKSIZE"
| "d_blocksize _ = 1"

section \<open>Devices as inodes: \<open>dev.c\<close>\<close>

text \<open>\<open>dev n\<close> is the device of the inode \<open>n\<close>; \<open>vop_info\<close> fails its assertion on other inodes.\<close>

type_synonym dev_map = "nat \<Rightarrow> device option"

definition dev_open :: "dev_map \<Rightarrow> nat \<Rightarrow> u32 \<Rightarrow> (errno option, devs) vop" where
  "dev_open dev node open_flags s =
     (if open_flags AND (O_CREAT OR O_TRUNC OR O_EXCL OR O_APPEND) \<noteq> 0 then Some (Some E_INVAL, s)
      else map_option (\<lambda>k. (dop_open k open_flags, s)) (dev node))"

definition dev_close :: "dev_map \<Rightarrow> nat \<Rightarrow> (errno option, devs) vop" where
  "dev_close dev node s = map_option (\<lambda>k. (None, s)) (dev node)"

definition dev_io :: "dev_map \<Rightarrow> bool \<Rightarrow> nat \<Rightarrow> iobuf \<Rightarrow> (int \<times> iobuf, devs) vop" where
  "dev_io dev wrt node iob s = do {
     k \<leftarrow> dev node;
     (ret, iob, d) \<leftarrow> dop_io k iob wrt (vinfo s);
     Some ((ret, iob), s\<lparr>vinfo := d\<rparr>) }"

definition dev_gettype :: "dev_map \<Rightarrow> nat \<Rightarrow> (errno + u32, devs) vop" where
  "dev_gettype dev node s =
     map_option (\<lambda>k. (Inr (if dev_blocks k (vinfo s) > 0 then S_IFBLK else S_IFCHR), s)) (dev node)"

definition dev_tryseek :: "dev_map \<Rightarrow> nat \<Rightarrow> int \<Rightarrow> (errno option, devs) vop" where
  "dev_tryseek dev node pos s =
     map_option (\<lambda>k. (if dev_blocks k (vinfo s) > 0 \<and> pos mod int (d_blocksize k) = 0
                        \<and> pos \<ge> 0 \<and> pos < int (dev_blocks k (vinfo s) * d_blocksize k)
                      then None else Some E_INVAL, s)) (dev node)"

definition dev_lookup :: "nat \<Rightarrow> path \<Rightarrow> (errno + nat, devs) vop" where
  "dev_lookup node path s =
     (if path \<noteq> [] then Some (Inl E_NOENT, s) else Some (Inr node, inode_ref_inc node s))"

definition dev_fstat :: "dev_map \<Rightarrow> nat \<Rightarrow> (errno + stat, devs) vop" where
  "dev_fstat dev node s = do {
     (r, s) \<leftarrow> (if inode_check node s then dev_gettype dev node s else None);
     (case r of
        Inl e \<Rightarrow> Some (Inl e, s)
      | Inr mode \<Rightarrow> do {
          k \<leftarrow> dev node;
          Some (Inr \<lparr>st_mode = mode, st_nlinks = 1, st_blocks = dev_blocks k (vinfo s),
                      st_size = dev_blocks k (vinfo s) * d_blocksize k\<rparr>, s) }) }"

text \<open>The table has no \<open>fsync\<close>, \<open>truncate\<close>, \<open>create\<close>, \<open>reclaim\<close>, \<open>namefile\<close> and \<open>getdirentry\<close>.\<close>

definition dev_node_ops :: "dev_map \<Rightarrow> devs inode_ops" where
  "dev_node_ops dev =
     \<lparr>vop_open = Some (dev_open dev), vop_close = Some (dev_close dev), vop_read = Some (dev_io dev False),
      vop_write = Some (dev_io dev True), vop_fstat = Some (dev_fstat dev), vop_fsync = None,
      vop_namefile = None, vop_getdirentry = None, vop_reclaim = None, vop_gettype = Some (dev_gettype dev),
      vop_tryseek = Some (dev_tryseek dev), vop_truncate = None, vop_create = None,
      vop_lookup = Some dev_lookup\<rparr>"

text \<open>The file system layer before a file system is mounted: every inode is a device.\<close>

definition dev_world :: "dev_map \<Rightarrow> devs vfs_world" where
  "dev_world dev =
     \<lparr>in_ops = (\<lambda>_ _. dev_node_ops dev), in_fs = (\<lambda>_. None), is_device = (\<lambda>n. dev n \<noteq> None),
      fs_get_root = (\<lambda>_ _. None), fs_sync = (\<lambda>_ _. None), fs_unmount = (\<lambda>_ _. None)\<rparr>"

text \<open>\<open>dev_init\<close>, given the addresses of the new inodes; every failure is a panic.\<close>

definition dev_init_one :: "dev_map \<Rightarrow> path \<Rightarrow> nat \<Rightarrow> bool \<Rightarrow> devs vfs \<Rightarrow> devs vfs option" where
  "dev_init_one dev name node mnt s = do {
     (r, s) \<leftarrow> vfs_add_dev (dev_world dev) True True name (Some node) mnt (inode_init node s);
     if r \<noteq> None then None else Some s }"

definition stdin_name :: path where "stdin_name = [0x73, 0x74, 0x64, 0x69, 0x6E]"
definition stdout_name :: path where "stdout_name = [0x73, 0x74, 0x64, 0x6F, 0x75, 0x74]"
definition disk0_name :: path where "disk0_name = [0x64, 0x69, 0x73, 0x6B, 0x30]"

definition dev_init :: "dev_map \<Rightarrow> nat \<Rightarrow> nat \<Rightarrow> nat \<Rightarrow> devs vfs \<Rightarrow> devs vfs option" where
  "dev_init dev i o' d s = do {
     s \<leftarrow> dev_init_one dev stdin_name i False (s\<lparr>vinfo := (vinfo s)\<lparr>p_rpos := 0, p_wpos := 0\<rparr>\<rparr>);
     s \<leftarrow> dev_init_one dev stdout_name o' False s;
     dev_init_one dev disk0_name d True s }"

section \<open>The ring is a queue\<close>

text \<open>The characters that have been typed and not been read.\<close>

definition typed :: "devs \<Rightarrow> u8 list" where
  "typed d = map (\<lambda>i. stdin_buffer d (i mod STDIN_BUFSIZE)) [p_rpos d..<p_wpos d]"

definition stdin_ok :: "devs \<Rightarrow> bool" where
  "stdin_ok d \<longleftrightarrow> p_rpos d \<le> p_wpos d \<and> p_wpos d - p_rpos d \<le> STDIN_BUFSIZE"

lemma length_typed [simp]: "length (typed d) = p_wpos d - p_rpos d"
  by (simp add: typed_def)

lemma mod_close: "a < b \<Longrightarrow> b < a + n \<Longrightarrow> a mod n \<noteq> b mod (n :: nat)"
  by (metis add_diff_cancel_left' dvd_imp_le less_diff_conv2 less_imp_add_positive mod_eq_dvd_iff_nat nat_less_le
      not_less zero_less_diff add.commute less_imp_le_nat)

lemma typed_write:
  assumes "stdin_ok d" "c \<noteq> 0"
  shows "stdin_ok (dev_stdin_write c d)"
    "typed (dev_stdin_write c d) = (if length (typed d) < STDIN_BUFSIZE then typed d @ [c] else c # tl (typed d))"
proof -
  note s = assms(1) [unfolded stdin_ok_def]
  have n: "i mod STDIN_BUFSIZE \<noteq> p_wpos d mod STDIN_BUFSIZE" if "p_wpos d < i + STDIN_BUFSIZE" "i < p_wpos d" for i
    using that by (intro mod_close) auto
  show "stdin_ok (dev_stdin_write c d)" using assms by (auto simp: stdin_ok_def dev_stdin_write_def Let_def)
  show "typed (dev_stdin_write c d) = (if length (typed d) < STDIN_BUFSIZE then typed d @ [c] else c # tl (typed d))"
  proof (cases "p_wpos d - p_rpos d < STDIN_BUFSIZE")
    case True
    then have "i mod STDIN_BUFSIZE \<noteq> p_wpos d mod STDIN_BUFSIZE" if "p_rpos d \<le> i" "i < p_wpos d" for i
      using that by (intro n) auto
    with True assms(2) s show ?thesis by (auto simp: dev_stdin_write_def typed_def Let_def)
  next
    case False
    with s have w: "p_wpos d = p_rpos d + STDIN_BUFSIZE" by linarith
    then have "p_rpos d < p_wpos d" by (simp add: STDIN_BUFSIZE_def)
    then have u: "[p_rpos d..<p_wpos d] = p_rpos d # [Suc (p_rpos d)..<p_wpos d]" by (rule upt_conv_Cons)
    have "i mod STDIN_BUFSIZE \<noteq> p_rpos d mod STDIN_BUFSIZE" if "Suc (p_rpos d) \<le> i" "i < p_wpos d" for i
      using n [of i] that w by simp
    then have "map (\<lambda>i. ((stdin_buffer d)(p_rpos d mod STDIN_BUFSIZE := c)) (i mod STDIN_BUFSIZE)) [Suc (p_rpos d)..<p_wpos d]
        = map (\<lambda>i. stdin_buffer d (i mod STDIN_BUFSIZE)) [Suc (p_rpos d)..<p_wpos d]" by auto
    moreover have "typed d = stdin_buffer d (p_rpos d mod STDIN_BUFSIZE) # map (\<lambda>i. stdin_buffer d (i mod STDIN_BUFSIZE)) [Suc (p_rpos d)..<p_wpos d]"
      by (simp only: typed_def u list.map)
    moreover have "typed (dev_stdin_write c d) = map (\<lambda>i. ((stdin_buffer d)(p_rpos d mod STDIN_BUFSIZE := c)) (i mod STDIN_BUFSIZE)) [p_rpos d..<p_wpos d]"
      using False assms(2) w by (simp add: dev_stdin_write_def typed_def Let_def)
    ultimately show ?thesis using False u by simp
  qed
qed

lemma typed_writes:
  assumes "stdin_ok d" "0 \<notin> set cs" "length (typed d) + length cs \<le> STDIN_BUFSIZE"
  shows "stdin_ok (fold dev_stdin_write cs d) \<and> typed (fold dev_stdin_write cs d) = typed d @ cs"
  using assms
proof (induction cs arbitrary: d)
  case (Cons c cs)
  have w: "stdin_ok (dev_stdin_write c d)" "typed (dev_stdin_write c d) = typed d @ [c]"
    using typed_write [of d c] Cons.prems by auto
  have "length (typed (dev_stdin_write c d)) + length cs \<le> STDIN_BUFSIZE"
    unfolding w(2) using Cons.prems by simp
  from Cons.IH [OF w(1) _ this] Cons.prems show ?case by (simp add: w(2))
qed simp

text \<open>A read of no more characters than are there does not sleep and takes the first ones.\<close>

lemma stdin_loop_take:
  assumes "ret \<le> len" "len - ret \<le> length (typed d)" "stdin_ok d"
  shows "\<exists>d'. stdin_loop ret len buf d = Some (len, d') \<and> stdin_ok d' \<and> typed d' = drop (len - ret) (typed d)
    \<and> (\<forall>a. kbytes d' a = (if buf \<le> a \<and> a < buf + (len - ret) then typed d ! (a - buf) else kbytes d a))"
  using assms
proof (induction "len - ret" arbitrary: ret buf d)
  case 0
  then show ?case by (subst stdin_loop.simps) auto
next
  case (Suc k)
  then have r: "ret < len" "p_rpos d < p_wpos d" by auto
  let ?c = "stdin_buffer d (p_rpos d mod STDIN_BUFSIZE)"
  let ?d = "d\<lparr>kbytes := (kbytes d)(buf := ?c), p_rpos := p_rpos d + 1\<rparr>"
  have t: "typed d = ?c # typed ?d" using r by (simp add: typed_def upt_conv_Cons)
  have ok: "stdin_ok ?d" using Suc.prems(3) r by (auto simp: stdin_ok_def)
  have st: "stdin_loop ret len buf d = stdin_loop (ret + 1) len (buf + 1) ?d"
    using r by (subst stdin_loop.simps) simp
  have e: "k = len - (ret + 1)" "ret + 1 \<le> len" "len - (ret + 1) \<le> length (typed ?d)"
    using Suc.hyps(2) Suc.prems(2) r(1) by auto
  from Suc.hyps(1) [OF e ok] obtain d' where d': "stdin_loop (ret + 1) len (buf + 1) ?d = Some (len, d')" "stdin_ok d'"
    "typed d' = drop (len - (ret + 1)) (typed ?d)"
    "\<forall>a. kbytes d' a = (if buf + 1 \<le> a \<and> a < buf + 1 + (len - (ret + 1)) then typed ?d ! (a - (buf + 1)) else kbytes ?d a)"
    by blast
  have l: "len - ret = Suc (len - (ret + 1))" using r(1) by simp
  have "typed d' = drop (len - ret) (typed d)" unfolding d'(3) l by (subst t) (simp only: drop_Suc_Cons)
  moreover have "kbytes d' a = (if buf \<le> a \<and> a < buf + (len - ret) then typed d ! (a - buf) else kbytes d a)" for a
  proof (cases "a = buf")
    case True
    then have "buf \<le> a \<and> a < buf + (len - ret)" using r(1) by auto
    moreover have "typed d ! 0 = ?c" by (subst t) simp
    ultimately show ?thesis using d'(4) [rule_format, of a] True by (simp only: if_True) simp
  next
    case False
    then have "typed d ! (a - buf) = typed ?d ! (a - (buf + 1))" if "buf \<le> a"
      using that by (subst t) (simp add: nth_Cons')
    then show ?thesis using d'(4) [rule_format, of a] False r(1) by auto
  qed
  ultimately show ?case using st d'(1,2) by auto
qed

end
