(* ===== verification/Files_Facts.thy ===== *)
theory Files_Facts
  imports Files Devices
begin

text \<open>
  What the operations on open files do to the counts of inodes. The function tables are an
  interface: the locale \<open>vfs_layer\<close> states what the layer relies on, and the devices provide it.
\<close>

lemma bind_pairE:
  assumes "Option.bind x (\<lambda>(a, b). K a b) = Some y"
  obtains a b where "x = Some (a, b)" "K a b = Some y"
  using assms by (cases x) auto

section \<open>Changes of the counts\<close>

text \<open>\<open>shift s s' f g\<close>: every reference count goes up by \<open>f\<close> and every open count by \<open>g\<close>.\<close>

definition shift :: "'s vfs \<Rightarrow> 's vfs \<Rightarrow> (nat \<Rightarrow> int) \<Rightarrow> (nat \<Rightarrow> int) \<Rightarrow> bool" where
  "shift s s' f g \<longleftrightarrow> (\<forall>m. ref_count s' m = ref_count s m + f m) \<and> (\<forall>m. open_count s' m = open_count s m + g m)"

definition no :: "nat \<Rightarrow> int" where "no = (\<lambda>_. 0)"

definition one :: "nat \<Rightarrow> nat \<Rightarrow> int" where "one n = (\<lambda>m. if m = n then 1 else 0)"

definition got :: "'e + nat \<Rightarrow> nat \<Rightarrow> int" where
  "got r = (case r of Inl _ \<Rightarrow> no | Inr n \<Rightarrow> one n)"

lemma got_simps [simp]: "got (Inl e) = no" "got (Inr n) = one n"
  by (simp_all add: got_def)

lemma shift_refl [simp]: "shift s s no no"
  by (simp add: shift_def no_def)

lemma shift_trans:
  "shift s s1 f g \<Longrightarrow> shift s1 s2 f' g' \<Longrightarrow> shift s s2 (\<lambda>m. f m + f' m) (\<lambda>m. g m + g' m)"
  by (simp add: shift_def)

lemma shift_eq: "shift s s' f g \<Longrightarrow> (\<And>m. f m = f' m) \<Longrightarrow> (\<And>m. g m = g' m) \<Longrightarrow> shift s s' f' g'"
  by (simp add: shift_def)

lemma shift_ref_inc [simp]: "shift s (inode_ref_inc n s) (one n) no"
  by (simp add: shift_def inode_ref_inc_def one_def no_def)

lemma shift_open_inc [simp]: "shift s (inode_open_inc n s) no (one n)"
  by (simp add: shift_def inode_open_inc_def one_def no_def)

text \<open>References that are lost: none of them is given back, and there are some only if \<open>X\<close>.\<close>

definition lost :: "bool \<Rightarrow> (nat \<Rightarrow> int) \<Rightarrow> bool" where
  "lost X k \<longleftrightarrow> (\<forall>m. 0 \<le> k m) \<and> (\<not> X \<longrightarrow> k = no)"

definition lend :: "(nat \<Rightarrow> int) \<Rightarrow> 's vfs \<Rightarrow> 's vfs" where
  "lend k s = s\<lparr>ref_count := \<lambda>m. ref_count s m + k m\<rparr>"

definition creates_excl :: "u32 \<Rightarrow> bool" where
  "creates_excl fl \<longleftrightarrow> fl AND O_CREAT \<noteq> 0 \<and> fl AND O_EXCL \<noteq> 0"

lemma lend_no [simp]: "lend no s = s"
  by (simp add: lend_def no_def)

lemma lost_no: "lost X no"
  by (simp add: lost_def no_def)

text \<open>What the layer relies on: a function of the tables changes no count, except that a lookup
  takes a reference to the inode it returns; and no table has a \<open>vop_create\<close>, as is the case for the
  devices and for the file system.\<close>

definition ops_keep :: "'s inode_ops \<Rightarrow> bool" where
  "ops_keep ops \<longleftrightarrow>
     (\<forall>f n fl s r s'. vop_open ops = Some f \<longrightarrow> f n fl s = Some (r, s') \<longrightarrow> shift s s' no no)
   \<and> (\<forall>f n s r s'. vop_close ops = Some f \<longrightarrow> f n s = Some (r, s') \<longrightarrow> shift s s' no no)
   \<and> (\<forall>f n s r s'. vop_reclaim ops = Some f \<longrightarrow> f n s = Some (r, s') \<longrightarrow> shift s s' no no)
   \<and> (\<forall>f n s r s'. vop_fstat ops = Some f \<longrightarrow> f n s = Some (r, s') \<longrightarrow> shift s s' no no)
   \<and> (\<forall>f n l s r s'. vop_truncate ops = Some f \<longrightarrow> f n l s = Some (r, s') \<longrightarrow> shift s s' no no)
   \<and> (\<forall>f n iob s ret iob' s'. vop_read ops = Some f \<longrightarrow> f n iob s = Some ((ret, iob'), s') \<longrightarrow> shift s s' no no)
   \<and> (\<forall>f n iob s ret iob' s'. vop_write ops = Some f \<longrightarrow> f n iob s = Some ((ret, iob'), s') \<longrightarrow> shift s s' no no)
   \<and> (\<forall>f n p s r s'. vop_lookup ops = Some f \<longrightarrow> f n p s = Some (r, s') \<longrightarrow> shift s s' (got r) no)
   \<and> (\<forall>f n s r s'. vop_fsync ops = Some f \<longrightarrow> f n s = Some (r, s') \<longrightarrow> shift s s' no no)
   \<and> (\<forall>f n p s r s'. vop_tryseek ops = Some f \<longrightarrow> f n p s = Some (r, s') \<longrightarrow> shift s s' no no)
   \<and> (\<forall>f n iob s ret iob' s'. vop_getdirentry ops = Some f \<longrightarrow> f n iob s = Some ((ret, iob'), s') \<longrightarrow> shift s s' no no)
   \<and> vop_create ops = None"

definition vops_keep :: "'s vfs_world \<Rightarrow> bool" where
  "vops_keep W \<longleftrightarrow> (\<forall>n s. ops_keep (in_ops W n s))
     \<and> (\<forall>fs s n s'. fs_get_root W fs s = Some (n, s') \<longrightarrow> shift s s' (one n) no)"

locale vfs_layer =
  fixes W :: "'s vfs_world"
  assumes keep: "vops_keep W"
begin

lemma op_keep:
  "vop_op W n vop_open s0 = Some f \<Longrightarrow> f n fl s = Some (r, s') \<Longrightarrow> shift s s' no no"
  "vop_op W n vop_close s0 = Some f1 \<Longrightarrow> f1 n s = Some (r1, s') \<Longrightarrow> shift s s' no no"
  "vop_op W n vop_reclaim s0 = Some f1 \<Longrightarrow> f1 n s = Some (r1, s') \<Longrightarrow> shift s s' no no"
  "vop_op W n vop_fstat s0 = Some f2 \<Longrightarrow> f2 n s = Some (r2, s') \<Longrightarrow> shift s s' no no"
  "vop_op W n vop_truncate s0 = Some f3 \<Longrightarrow> f3 n l s = Some (r3, s') \<Longrightarrow> shift s s' no no"
  "vop_op W n vop_read s0 = Some f4 \<Longrightarrow> f4 n iob s = Some ((ret, iob'), s') \<Longrightarrow> shift s s' no no"
  "vop_op W n vop_write s0 = Some f4 \<Longrightarrow> f4 n iob s = Some ((ret, iob'), s') \<Longrightarrow> shift s s' no no"
  "vop_op W n vop_lookup s0 = Some f5 \<Longrightarrow> f5 n p s = Some (r5, s') \<Longrightarrow> shift s s' (got r5) no"
  "vop_op W n vop_fsync s0 = Some f1 \<Longrightarrow> f1 n s = Some (r1, s') \<Longrightarrow> shift s s' no no"
  "vop_op W n vop_tryseek s0 = Some f6 \<Longrightarrow> f6 n q s = Some (r6, s') \<Longrightarrow> shift s s' no no"
  "vop_op W n vop_getdirentry s0 = Some f7 \<Longrightarrow> f7 n iob s = Some ((ret7, iob'), s') \<Longrightarrow> shift s s' no no"
  using keep unfolding vops_keep_def ops_keep_def vop_op_def by (metis option.distinct(1))+

lemma no_create: "vop_op W n vop_create s = None"
  using keep unfolding vops_keep_def ops_keep_def vop_op_def by simp

lemma root_keep: "fs_get_root W fs s = Some (n, s') \<Longrightarrow> shift s s' (one n) no"
  using keep unfolding vops_keep_def by blast

lemma ref_dec_shift:
  assumes "inode_ref_dec W n s = Some s'"
  shows "shift s s' (\<lambda>m. - one n m) no"
proof -
  let ?s = "s\<lparr>ref_count := (ref_count s)(n := ref_count s n - 1)\<rparr>"
  have 1: "shift s ?s (\<lambda>m. - one n m) no" by (simp add: shift_def one_def no_def)
  show ?thesis
  proof (cases "ref_count ?s n = 0")
    case True
    with assms obtain f r where "vop_op W n vop_reclaim ?s = Some f" "f n ?s = Some (r, s')"
      by (auto simp: inode_ref_dec_def Let_def bind_eq_Some_conv split: if_splits)
    from shift_trans [OF 1 op_keep(3) [OF this]] show ?thesis by (rule shift_eq) (simp_all add: no_def)
  next
    case False
    with assms 1 show ?thesis by (auto simp: inode_ref_dec_def Let_def split: if_splits)
  qed
qed

lemma open_dec_shift:
  assumes "inode_open_dec W n s = Some s'"
  shows "shift s s' no (\<lambda>m. - one n m)"
proof -
  let ?s = "s\<lparr>open_count := (open_count s)(n := open_count s n - 1)\<rparr>"
  have 1: "shift s ?s no (\<lambda>m. - one n m)" by (simp add: shift_def one_def no_def)
  show ?thesis
  proof (cases "open_count ?s n = 0")
    case True
    with assms obtain f r where "vop_op W n vop_close ?s = Some f" "f n ?s = Some (r, s')"
      by (auto simp: inode_open_dec_def Let_def bind_eq_Some_conv split: if_splits)
    from shift_trans [OF 1 op_keep(2) [OF this]] show ?thesis by (rule shift_eq) (simp_all add: no_def)
  next
    case False
    with assms 1 show ?thesis by (auto simp: inode_open_dec_def Let_def split: if_splits)
  qed
qed

lemma close_shift:
  assumes "vfs_close W n s = Some s'"
  shows "shift s s' (\<lambda>m. - one n m) (\<lambda>m. - one n m)"
proof -
  from assms obtain s1 where "inode_open_dec W n s = Some s1" "inode_ref_dec W n s1 = Some s'"
    by (auto simp: vfs_close_def bind_eq_Some_conv)
  from shift_trans [OF open_dec_shift [OF this(1)] ref_dec_shift [OF this(2)]] show ?thesis
    by (rule shift_eq) (simp_all add: no_def)
qed

lemma get_root_shift: "vfs_get_root W name s = Some (r, s') \<Longrightarrow> shift s s' (got r) no"
  by (auto simp: vfs_get_root_def bind_eq_Some_conv dest: root_keep split: option.splits if_splits)

lemma get_curdir_shift: "vfs_get_curdir wd s = Some (r, s') \<Longrightarrow> shift s s' (got r) no"
  by (auto simp: vfs_get_curdir_def split: option.splits)

lemma get_bootfs_shift: "vfs_get_bootfs s = Some (r, s') \<Longrightarrow> shift s s' (got r) no"
  by (auto simp: vfs_get_bootfs_def split: option.splits)

lemma fs_root_shift:
  assumes "vfs_get_curdir wd s = Some (Inr n, s1)" "fs_get_root W fs s1 = Some (root, s2)" "inode_ref_dec W n s2 = Some s'"
  shows "shift s s' (one root) no"
  using shift_trans [OF shift_trans [OF get_curdir_shift [OF assms(1)] root_keep [OF assms(2)]] ref_dec_shift [OF assms(3)]]
  by (rule shift_eq) (simp_all add: no_def)

lemma get_device_shift:
  assumes "get_device W wd path s = Some ((p, sub, r), s')"
  shows "shift s s' (got r) no"
  using assms unfolding get_device_def Let_def
  by (auto simp: bind_eq_Some_conv split: if_splits
      dest: get_root_shift get_curdir_shift get_bootfs_shift)
    (case_tac a; auto simp: bind_eq_Some_conv dest: get_curdir_shift fs_root_shift)+

lemma lookup_shift:
  assumes "vfs_lookup W wd path s = Some ((p, r), s')"
  shows "shift s s' (got r) no"
proof -
  from assms obtain p1 sub r1 s1 where d: "get_device W wd path s = Some ((p1, sub, r1), s1)"
    and rest: "(case r1 of
        Inl e \<Rightarrow> Some ((p1, Inl e), s1)
      | Inr nd \<Rightarrow>
          if sub \<noteq> []
          then do {
            f \<leftarrow> vop_op W nd vop_lookup s1;
            (r, s) \<leftarrow> f nd sub s1;
            s \<leftarrow> inode_ref_dec W nd s;
            Some ((p1, r), s) }
          else Some ((p1, Inr nd), s1)) = Some ((p, r), s')"
    by (auto simp: vfs_lookup_def bind_eq_Some_conv)
  note 1 = get_device_shift [OF d]
  show ?thesis
  proof (cases r1)
    case (Inl e)
    with rest 1 show ?thesis by auto
  next
    case (Inr n)
    show ?thesis
    proof (cases "sub = []")
      case True
      with rest Inr 1 show ?thesis by auto
    next
      case False
      with rest Inr obtain f s2 where "vop_op W n vop_lookup s1 = Some f" "f n sub s1 = Some (r, s2)"
        "inode_ref_dec W n s2 = Some s'" by (auto simp: bind_eq_Some_conv)
      from shift_trans [OF shift_trans [OF 1 op_keep(8) [OF this(1,2)]] ref_dec_shift [OF this(3)]]
      show ?thesis by (rule shift_eq) (simp_all add: no_def Inr)
    qed
  qed
qed

lemma lookup_parent_shift:
  assumes "vfs_lookup_parent W wd path s = Some ((p, r), s')"
  shows "shift s s' (got r) no"
  using assms unfolding vfs_lookup_parent_def
  by (auto simp: bind_eq_Some_conv dest!: get_device_shift)

text \<open>\<open>vfs_open\<close> takes one reference and opens the inode once, or changes nothing: but with \<open>O_CREAT\<close> and
  \<open>O_EXCL\<close> the reference of the lookup is lost when the file exists. \<open>lend k s\<close> is the state \<open>s\<close> with the
  references that will be lost already added.\<close>

lemma open_find_shift:
  assumes "open_find W wd path fl s = Some (r, s')"
  shows "\<exists>k. lost (creates_excl fl) k \<and> shift (lend k s) s' (got r) no"
proof -
  from assms obtain p r1 s1 where l: "vfs_lookup W wd path s = Some ((p, r1), s1)"
    and rest: "(case r1 of
           Inl e \<Rightarrow>
             if e = E_NOENT \<and> fl AND O_CREAT \<noteq> 0
             then do {
               ((name, r), s) \<leftarrow> vfs_lookup_parent W wd p s1;
               (case r of
                  Inl e \<Rightarrow> Some (Inl e, s)
                | Inr dir \<Rightarrow> None) }
             else Some (Inl e, s1)
         | Inr nd \<Rightarrow> if fl AND O_EXCL \<noteq> 0 \<and> fl AND O_CREAT \<noteq> 0 then Some (Inl E_EXISTS, s1) else Some (Inr nd, s1))
       = Some (r, s')"
    unfolding open_find_def Let_def no_create bind.simps by (auto simp: bind_eq_Some_conv)
  note sh = lookup_shift [OF l]
  show ?thesis
  proof (cases r1)
    case (Inl e)
    show ?thesis
    proof (cases "e = E_NOENT \<and> fl AND O_CREAT \<noteq> 0")
      case True
      with Inl rest obtain name q s2 where q: "vfs_lookup_parent W wd p s1 = Some ((name, q), s2)"
        "(case q of Inl e \<Rightarrow> Some (Inl e, s2) | Inr d \<Rightarrow> None) = Some (r, s')"
        by (auto simp: bind_eq_Some_conv)
      then have "got q = no" "got r = no" "s2 = s'" by (auto split: sum.split_asm)
      with shift_trans [OF sh lookup_parent_shift [OF q(1)]] Inl have "shift s s' (got r) no"
        by (auto elim!: shift_eq simp: no_def)
      then show ?thesis using lost_no by fastforce
    next
      case False
      with Inl rest sh have "shift s s' (got r) no" by (auto split: if_splits)
      then show ?thesis using lost_no by fastforce
    qed
  next
    case (Inr n)
    show ?thesis
    proof (cases "creates_excl fl")
      case True
      with Inr rest have "r = Inl E_EXISTS" "s' = s1" by (auto simp: creates_excl_def)
      with sh Inr True show ?thesis
        by (intro exI [of _ "one n"]) (auto simp: lost_def shift_def lend_def one_def no_def)
    next
      case False
      with Inr rest sh have "shift s s' (got r) no" by (auto simp: creates_excl_def split: if_splits)
      then show ?thesis using lost_no by fastforce
    qed
  qed
qed

lemma open_node_shift:
  assumes "open_node W n fl s = Some (r, s')" and 0: "shift s0 s (one n) no"
  shows "shift s0 s' (got r) (got r)"
proof -
  from assms(1) obtain f r1 s1 where o: "vop_op W n vop_open s = Some f" "f n fl s = Some (r1, s1)"
    by (auto simp: open_node_def bind_eq_Some_conv)
  note 1 = shift_trans [OF 0 op_keep(1) [OF o]]
  let ?s = "inode_open_inc n s1"
  note 2 = shift_trans [OF 1 shift_open_inc]
  consider e where "r1 = Some e" | "r1 = None" "fl AND O_TRUNC = 0 \<and> fl AND O_CREAT = 0"
    | "r1 = None" "fl AND O_TRUNC \<noteq> 0 \<or> fl AND O_CREAT \<noteq> 0" by blast
  then show ?thesis
  proof cases
    case 1
    with assms(1) o have "inode_ref_dec W n s1 = Some s'" "r = Inl e"
      by (auto simp: open_node_def bind_eq_Some_conv)
    from shift_trans [OF \<open>shift s0 s1 _ _\<close> ref_dec_shift [OF this(1)]] this(2) show ?thesis
      by (auto elim!: shift_eq simp: no_def)
  next
    case 2
    with assms(1) o have "s' = ?s" "r = Inr n" by (auto simp: open_node_def bind_eq_Some_conv Let_def)
    with \<open>shift s0 ?s _ _\<close> show ?thesis by (auto elim!: shift_eq simp: no_def)
  next
    case 3
    with assms(1) o obtain g r2 s2 where t: "vop_op W n vop_truncate ?s = Some g" "g n 0 ?s = Some (r2, s2)"
      and fin: "(case r2 of
                   Some e \<Rightarrow> do { s \<leftarrow> inode_open_dec W n s2; s \<leftarrow> inode_ref_dec W n s; Some (Inl e, s) }
                 | None \<Rightarrow> Some (Inr n, s2)) = Some (r, s')"
      by (auto simp: open_node_def bind_eq_Some_conv Let_def)
    note 4 = shift_trans [OF 2 op_keep(5) [OF t]]
    show ?thesis
    proof (cases r2)
      case None
      with fin 4 show ?thesis by (auto elim!: shift_eq simp: no_def)
    next
      case (Some e)
      with fin obtain s3 where "inode_open_dec W n s2 = Some s3" "inode_ref_dec W n s3 = Some s'" "r = Inl e"
        by (auto simp: bind_eq_Some_conv)
      from shift_trans [OF shift_trans [OF 4 open_dec_shift [OF this(1)]] ref_dec_shift [OF this(2)]] this(3)
      show ?thesis by (auto elim!: shift_eq simp: no_def)
    qed
  qed
qed

lemma open_shift:
  assumes "vfs_open W wd path fl s = Some (r, s')"
  shows "\<exists>k. lost (creates_excl fl) k \<and> shift (lend k s) s' (got r) (got r)"
proof -
  consider "r = Inl E_INVAL" "s' = s"
    | r1 s1 where "open_find W wd path fl s = Some (r1, s1)"
        "(case r1 of Inl e \<Rightarrow> Some (Inl e, s1) | Inr n \<Rightarrow> open_node W n fl s1) = Some (r, s')"
    using assms(1) by (auto simp: vfs_open_def Let_def bind_eq_Some_conv split: if_splits)
  then show ?thesis
  proof cases
    case 1
    then show ?thesis using lost_no by fastforce
  next
    case 2
    from open_find_shift [OF 2(1)] obtain k where k: "lost (creates_excl fl) k" "shift (lend k s) s1 (got r1) no" by blast
    with 2(2) open_node_shift have "shift (lend k s) s' (got r) (got r)" by (cases r1) auto
    with k(1) show ?thesis by blast
  qed
qed

end

section \<open>The descriptor table\<close>

text \<open>
  \<open>h i\<close> is the number of operations (of threads that share the table) that have acquired the entry \<open>i\<close>
  and not released it yet. An open entry has one count more than that; a closed one lives on
  until the last of them releases it.
\<close>

definition entry_ok :: "nat \<Rightarrow> nat \<Rightarrow> file_t \<Rightarrow> bool" where
  "entry_ok k i x \<longleftrightarrow> fd x = int i \<and>
     (case status x of
        FD_NONE \<Rightarrow> fopens x = 0 \<and> k = 0
      | FD_INIT \<Rightarrow> False
      | FD_OPENED \<Rightarrow> fopens x = 1 + int k \<and> node x \<noteq> None
      | FD_CLOSED \<Rightarrow> fopens x = int k \<and> 0 < k \<and> node x \<noteq> None)"

definition table_ok :: "files_struct \<Rightarrow> (nat \<Rightarrow> nat) \<Rightarrow> bool" where
  "table_ok fs h \<longleftrightarrow> length (fd_array fs) = FILES_STRUCT_NENTRY \<and> 0 < files_count fs
     \<and> (\<forall>i < FILES_STRUCT_NENTRY. entry_ok (h i) i (fd_array fs ! i))"

definition holds :: "nat \<Rightarrow> file_t \<Rightarrow> bool" where
  "holds n x \<longleftrightarrow> (status x = FD_OPENED \<or> status x = FD_CLOSED) \<and> node x = Some n"

text \<open>The descriptors of an inode; the counts that other holders account for must not change.\<close>

definition fd_refs :: "files_struct \<Rightarrow> nat \<Rightarrow> int" where
  "fd_refs fs n = int (length (filter (holds n) (fd_array fs)))"

definition balanced :: "files_struct \<Rightarrow> 's vfs \<Rightarrow> files_struct \<Rightarrow> 's vfs \<Rightarrow> bool" where
  "balanced fs s fs' s' \<longleftrightarrow> (\<forall>n. ref_count s' n - fd_refs fs' n = ref_count s n - fd_refs fs n
     \<and> open_count s' n - fd_refs fs' n = open_count s n - fd_refs fs n)"

lemma upd_open_simps [simp]:
  "pwd (upd_file i g fs) = pwd fs" "files_count (upd_file i g fs) = files_count fs"
  "length (fd_array (upd_file i g fs)) = length (fd_array fs)"
  by (simp_all add: upd_file_def)

lemma upd_nth:
  "i < length (fd_array fs) \<Longrightarrow> fd_array (upd_file i g fs) ! j = (if j = i then g (fd_array fs ! i) else fd_array fs ! j)"
  by (simp add: upd_file_def nth_list_update)

lemma upd_upd: "i < length (fd_array fs) \<Longrightarrow> upd_file i g (upd_file i f fs) = upd_file i (\<lambda>x. g (f x)) fs"
  by (simp add: upd_file_def)

lemma filter_update:
  "i < length xs \<Longrightarrow> int (length (filter P (xs[i := x]))) =
     int (length (filter P xs)) - of_bool (P (xs ! i)) + of_bool (P x)"
proof (induction xs arbitrary: i)
  case (Cons a xs)
  show ?case
  proof (cases i)
    case (Suc j)
    with Cons.prems have "j < length xs" by simp
    from Cons.IH [OF this] Suc show ?thesis by simp
  qed simp
qed simp

lemma refs_upd:
  "i < length (fd_array fs) \<Longrightarrow> fd_refs (upd_file i g fs) n =
     fd_refs fs n - of_bool (holds n (fd_array fs ! i)) + of_bool (holds n (g (fd_array fs ! i)))"
  by (simp add: fd_refs_def upd_file_def filter_update)

text \<open>One entry changes from \<open>x\<close> to \<open>g x\<close>, and the counts of its inode with it.\<close>

lemma table_upd:
  assumes "table_ok fs h" "i < FILES_STRUCT_NENTRY" "entry_ok k i (g (fd_array fs ! i))"
  shows "table_ok (upd_file i g fs) (h(i := k))"
  using assms by (auto simp: table_ok_def upd_nth)

lemma balanced_upd:
  assumes "table_ok fs h" "i < FILES_STRUCT_NENTRY" "shift s s' f f"
    and "\<And>n. f n = of_bool (holds n (g (fd_array fs ! i))) - of_bool (holds n (fd_array fs ! i))"
  shows "balanced fs s (upd_file i g fs) s'"
  using assms by (simp add: balanced_def shift_def refs_upd table_ok_def)

lemma shift_no: "shift s s no no"
  by simp

lemma fd2file_ok:
  "fd2file f fs = Some (Inr i) \<Longrightarrow> i < FILES_STRUCT_NENTRY \<and> status (fd_array fs ! i) = FD_OPENED"
  by (auto simp: fd2file_def testfd_def get_fd_array_def bind_eq_Some_conv split: if_splits)

lemma acquire_ok:
  assumes ok: "table_ok fs h" and i: "i < FILES_STRUCT_NENTRY" and a: "fd_array_acquire i fs = Some fs'"
  shows "table_ok fs' (h(i := h i + 1)) \<and> balanced fs s fs' s"
proof -
  have e: "entry_ok (h i) i (fd_array fs ! i)" using ok i by (simp add: table_ok_def)
  from a have f: "fs' = upd_file i (\<lambda>x. x\<lparr>fopens := fopens x + 1\<rparr>) fs" "status (fd_array fs ! i) = FD_OPENED"
    by (auto simp: fd_array_acquire_def split: if_splits)
  have "table_ok fs' (h(i := h i + 1))"
    unfolding f(1) by (rule table_upd [OF ok i]) (use e f(2) in \<open>auto simp: entry_ok_def\<close>)
  moreover have "balanced fs s fs' s"
    unfolding f(1) by (rule balanced_upd [OF ok i shift_no]) (simp add: holds_def no_def)
  ultimately show ?thesis ..
qed

context vfs_layer
begin

text \<open>The end of an entry: a close by its descriptor, or the last release of a closed one.\<close>

lemma free_closed:
  assumes ok: "table_ok fs h" and i: "i < FILES_STRUCT_NENTRY"
    and st: "status (fd_array fs ! i) = FD_OPENED \<or> status (fd_array fs ! i) = FD_CLOSED"
    and g: "\<And>x. status (g x) = FD_CLOSED" "\<And>x. fopens (g x) = 0 \<longleftrightarrow> fopens x = 1" "\<And>x. node (g x) = node x" "\<And>x. fd (g x) = fd x"
    and fr: "fd_array_free W i (upd_file i g fs) s = Some (fs', s')"
  shows "table_ok fs' (h(i := 0)) \<and> balanced fs s fs' s'"
proof -
  let ?x = "fd_array fs ! i"
  have len: "i < length (fd_array fs)" using ok i by (simp add: table_ok_def)
  have e: "entry_ok (h i) i ?x" using ok i by (simp add: table_ok_def)
  from fr g(1,3) obtain n where n: "node ?x = Some n" "vfs_close W n s = Some s'" "fopens (g ?x) = 0"
    "fs' = upd_file i (\<lambda>x. (g x)\<lparr>status := FD_NONE\<rparr>) fs"
    by (auto simp: fd_array_free_def Let_def upd_nth [OF len] upd_upd [OF len] bind_eq_Some_conv split: if_splits)
  have "table_ok fs' (h(i := 0))"
    unfolding n(4) by (rule table_upd [OF ok i]) (use e n g(4) in \<open>auto simp: entry_ok_def\<close>)
  moreover have "balanced fs s fs' s'"
    unfolding n(4) by (rule balanced_upd [OF ok i close_shift [OF n(2)]]) (use st n(1) in \<open>auto simp: holds_def one_def\<close>)
  ultimately show ?thesis ..
qed

lemma close_ok:
  assumes ok: "table_ok fs h" and i: "i < FILES_STRUCT_NENTRY" and c: "fd_array_close W i fs s = Some (fs', s')"
  shows "table_ok fs' h \<and> balanced fs s fs' s'"
proof -
  let ?x = "fd_array fs ! i"
  let ?g = "\<lambda>x. x\<lparr>status := FD_CLOSED, fopens := fopens x - 1\<rparr>"
  have len: "i < length (fd_array fs)" using ok i by (simp add: table_ok_def)
  have e: "entry_ok (h i) i ?x" using ok i by (simp add: table_ok_def)
  from c have st: "status ?x = FD_OPENED" by (auto simp: fd_array_close_def Let_def split: if_splits)
  with e have x: "fopens ?x = 1 + int (h i)" "node ?x \<noteq> None" "fd ?x = int i" by (auto simp: entry_ok_def)
  show ?thesis
  proof (cases "h i = 0")
    case True
    with c st x len have "fd_array_free W i (upd_file i ?g fs) s = Some (fs', s')"
      by (simp add: fd_array_close_def Let_def upd_nth)
    from free_closed [OF ok i _ _ _ _ _ this] st True show ?thesis by (auto simp: fun_upd_idem)
  next
    case False
    with c st x len have f: "fs' = upd_file i ?g fs" "s' = s" by (auto simp: fd_array_close_def Let_def upd_nth)
    have "table_ok (upd_file i ?g fs) (h(i := h i))"
      by (rule table_upd [OF ok i]) (use x False in \<open>auto simp: entry_ok_def\<close>)
    moreover have "balanced fs s (upd_file i ?g fs) s"
      by (rule balanced_upd [OF ok i shift_no]) (use st in \<open>auto simp: holds_def no_def\<close>)
    ultimately show ?thesis unfolding f by simp
  qed
qed

lemma release_ok:
  assumes ok: "table_ok fs h" and i: "i < FILES_STRUCT_NENTRY" "0 < h i" and c: "fd_array_release W i fs s = Some (fs', s')"
  shows "table_ok fs' (h(i := h i - 1)) \<and> balanced fs s fs' s'"
proof -
  let ?x = "fd_array fs ! i"
  let ?g = "\<lambda>x. x\<lparr>fopens := fopens x - 1\<rparr>"
  have len: "i < length (fd_array fs)" using ok i by (simp add: table_ok_def)
  have e: "entry_ok (h i) i ?x" using ok i by (simp add: table_ok_def)
  show ?thesis
  proof (cases "status ?x = FD_CLOSED \<and> h i = 1")
    case True
    with e have x: "fopens ?x = 1" "node ?x \<noteq> None" by (auto simp: entry_ok_def)
    let ?h = "\<lambda>x. x\<lparr>fopens := fopens x - 1, status := FD_CLOSED\<rparr>"
    have "?g ?x = ?h ?x" by (rule file_t.equality) (use True in simp_all)
    then have "upd_file i ?g fs = upd_file i ?h fs" by (simp add: upd_file_def)
    moreover have "fd_array_free W i (upd_file i ?g fs) s = Some (fs', s')"
      using c True x len by (simp add: fd_array_release_def Let_def upd_nth)
    ultimately have "fd_array_free W i (upd_file i ?h fs) s = Some (fs', s')" by simp
    from free_closed [OF ok i(1) _ _ _ _ _ this] True show ?thesis by simp
  next
    case False
    with e i(2) have x: "fopens ?x \<noteq> 1" "status ?x = FD_OPENED \<or> status ?x = FD_CLOSED" "0 < fopens ?x"
      by (auto simp: entry_ok_def split: fd_status.splits)
    with c len have f: "fs' = upd_file i ?g fs" "s' = s"
      by (auto simp: fd_array_release_def Let_def upd_nth split: if_splits)
    have "table_ok (upd_file i ?g fs) (h(i := h i - 1))"
      by (rule table_upd [OF ok i(1)]) (use e x i False in \<open>auto simp: entry_ok_def split: fd_status.splits\<close>)
    moreover have "balanced fs s (upd_file i ?g fs) s"
      by (rule balanced_upd [OF ok i(1) shift_no]) (simp add: holds_def no_def)
    ultimately show ?thesis unfolding f by simp
  qed
qed

end

text \<open>A new entry: what \<open>fd_array_alloc\<close> finds, and how it ends up open or free again.\<close>

lemma alloc_ok:
  assumes ok: "table_ok fs h" and a: "fd_array_alloc f fs = Some (Inr i, fs1)"
  shows "i < FILES_STRUCT_NENTRY" "status (fd_array fs ! i) = FD_NONE" "h i = 0" "fopens (fd_array fs ! i) = 0"
    "fd (fd_array fs ! i) = int i" "fs1 = upd_file i (\<lambda>x. x\<lparr>status := FD_INIT, node := None\<rparr>) fs"
proof -
  show i: "i < FILES_STRUCT_NENTRY" and st: "status (fd_array fs ! i) = FD_NONE"
    and "fs1 = upd_file i (\<lambda>x. x\<lparr>status := FD_INIT, node := None\<rparr>) fs"
    using a by (auto simp: fd_array_alloc_def get_fd_array_def bind_eq_Some_conv Let_def find_Some_iff testfd_def
        split: if_splits option.splits sum.splits)
  from ok i st show "h i = 0" "fopens (fd_array fs ! i) = 0" "fd (fd_array fs ! i) = int i"
    by (auto simp: table_ok_def entry_ok_def)
qed

lemma alloc_error: "fd_array_alloc f fs = Some (Inl e, fs1) \<Longrightarrow> fs1 = fs"
  by (auto simp: fd_array_alloc_def bind_eq_Some_conv Let_def split: if_splits sum.splits)

lemma entry_opened:
  assumes ok: "table_ok fs h" and a: "fd_array_alloc f fs = Some (Inr i, fs1)"
    and g: "\<And>x. status (g x) = FD_OPENED" "\<And>x. fopens (g x) = fopens x + 1" "\<And>x. node (g x) = Some n" "\<And>x. fd (g x) = fd x"
    and sh: "shift s s' (one n) (one n)"
  shows "table_ok (upd_file i g fs) h \<and> balanced fs s (upd_file i g fs) s'"
proof -
  note A = alloc_ok [OF ok a]
  have "table_ok (upd_file i g fs) (h(i := 0))"
    by (rule table_upd [OF ok A(1)]) (use A g in \<open>simp add: entry_ok_def\<close>)
  moreover have "h(i := 0) = h" using A(3) by auto
  moreover have "balanced fs s (upd_file i g fs) s'"
    by (rule balanced_upd [OF ok A(1) sh]) (use A g in \<open>auto simp: holds_def one_def\<close>)
  ultimately show ?thesis by simp
qed

lemma entry_dropped:
  assumes ok: "table_ok fs h" and a: "fd_array_alloc f fs = Some (Inr i, fs1)"
    and fr: "fd_array_free W i fs1 s1 = Some (fs', s')" and sh: "shift s s1 no no"
  shows "table_ok fs' h \<and> balanced fs s fs' s'"
proof -
  note A = alloc_ok [OF ok a]
  have len: "i < length (fd_array fs)" using ok A(1) by (simp add: table_ok_def)
  from fr A have f: "fs' = upd_file i (\<lambda>x. x\<lparr>node := None, status := FD_NONE\<rparr>) fs" "s' = s1"
    by (auto simp: fd_array_free_def Let_def upd_nth [OF len] upd_upd [OF len] split: if_splits)
  have "table_ok fs' (h(i := 0))"
    unfolding f(1) by (rule table_upd [OF ok A(1)]) (use A in \<open>simp add: entry_ok_def\<close>)
  moreover have "h(i := 0) = h" using A(3) by auto
  moreover have "balanced fs s fs' s'"
    unfolding f by (rule balanced_upd [OF ok A(1) sh]) (use A in \<open>auto simp: holds_def no_def\<close>)
  ultimately show ?thesis by simp
qed

lemma balanced_refl [simp]: "balanced fs s fs s"
  by (simp add: balanced_def)

lemma balanced_trans: "balanced fs s fs1 s1 \<Longrightarrow> balanced fs1 s1 fs2 s2 \<Longrightarrow> balanced fs s fs2 s2"
  by (simp add: balanced_def)

lemma dup_ok:
  assumes ok: "table_ok fs h" and a: "fd_array_alloc f fs = Some (Inr j, fs1)" and i: "status (fd_array fs ! i) = FD_OPENED"
    and d: "fd_array_dup j (fd_array fs1 ! i) fs1 s = Some (fs', s')"
  shows "table_ok fs' h \<and> balanced fs s fs' s'"
proof -
  note A = alloc_ok [OF ok a]
  have len: "j < length (fd_array fs)" using ok A(1) by (simp add: table_ok_def)
  have "fd_array fs1 ! i = fd_array fs ! i" using A i by (auto simp: upd_nth [OF len])
  with d obtain n where n: "node (fd_array fs ! i) = Some n" "s' = inode_open_inc n (inode_ref_inc n s)"
    and f: "fs' = upd_file j (\<lambda>x. x\<lparr>pos := pos (fd_array fs ! i), readable := readable (fd_array fs ! i),
        writable := writable (fd_array fs ! i), node := Some n, status := FD_OPENED, fopens := fopens x + 1\<rparr>) fs"
    using A(6) len by (auto simp: fd_array_dup_def fd_array_open_def upd_nth upd_upd bind_eq_Some_conv Let_def split: if_splits)
  have "shift s s' (one n) (one n)"
    unfolding n(2) using shift_trans [OF shift_ref_inc shift_open_inc] by (rule shift_eq) (simp_all add: no_def)
  from entry_opened [OF ok a _ _ _ _ this] show ?thesis unfolding f by simp
qed

context vfs_layer
begin

lemma file_opened_ok:
  assumes ok: "table_ok fs h" and a: "fd_array_alloc f fs = Some (Inr i, fs1)" and sh: "shift s s1 (one n) (one n)"
    and o: "file_opened W fl i n fs1 s1 = Some (r, fs', s')"
  shows "table_ok fs' h \<and> balanced fs s fs' s'"
proof -
  note A = alloc_ok [OF ok a]
  have len: "i < length (fd_array fs)" using ok A(1) by (simp add: table_ok_def)
  from o obtain r2 s2 where p: "(if fl AND O_APPEND \<noteq> 0
                              then do { f \<leftarrow> vop_op W n vop_fstat s1; (r, s) \<leftarrow> f n s1;
                                        Some (map_sum id (\<lambda>st. int (st_size st)) r, s) }
                              else Some (Inr 0, s1)) = Some (r2, s2)"
    and fin: "(case r2 of
        Inl e \<Rightarrow> do { s \<leftarrow> vfs_close W n s2; (fs, s) \<leftarrow> fd_array_free W i fs1 s; Some (Inl e, fs, s) }
      | Inr p \<Rightarrow> do {
          let acc = fl AND O_ACCMODE;
          let fs = upd_file i (\<lambda>x. x\<lparr>pos := p, node := Some n, readable := acc = O_RDONLY \<or> acc = O_RDWR,
                                    writable := acc = O_WRONLY \<or> acc = O_RDWR\<rparr>) fs1;
          fs \<leftarrow> fd_array_open i fs;
          Some (Inr (fd (fd_array fs ! i)), fs, s2) }) = Some (r, fs', s')"
    unfolding file_opened_def by (rule bind_pairE)
  have "shift s1 s2 no no"
    using p by (auto simp: bind_eq_Some_conv split: if_splits dest: op_keep(4))
  with sh have sh2: "shift s s2 (one n) (one n)" by (auto simp: shift_def no_def)
  show ?thesis
  proof (cases r2)
    case (Inl e)
    with fin obtain s3 where c: "vfs_close W n s2 = Some s3" "fd_array_free W i fs1 s3 = Some (fs', s')"
      by (auto simp: bind_eq_Some_conv)
    have "shift s s3 no no"
      using shift_trans [OF sh2 close_shift [OF c(1)]] by (rule shift_eq) (simp_all add: no_def)
    from entry_dropped [OF ok a c(2) this] show ?thesis .
  next
    case (Inr p)
    let ?acc = "fl AND O_ACCMODE"
    from fin Inr A len have "s' = s2"
      "fs' = upd_file i (\<lambda>x. x\<lparr>pos := p, node := Some n, readable := ?acc = O_RDONLY \<or> ?acc = O_RDWR,
         writable := ?acc = O_WRONLY \<or> ?acc = O_RDWR, status := FD_OPENED, fopens := fopens x + 1\<rparr>) fs"
      by (auto simp: fd_array_open_def upd_nth upd_upd bind_eq_Some_conv Let_def split: if_splits)
    with entry_opened [OF ok a _ _ _ _ sh2] show ?thesis by simp
  qed
qed

lemma file_open_ok:
  assumes ok: "table_ok fs h" and o: "file_open W path fl fs s = Some (r, fs', s')"
  shows "\<exists>k. lost (creates_excl fl) k \<and> table_ok fs' h \<and> balanced fs (lend k s) fs' s'"
proof -
  consider "fs' = fs" "s' = s"
    | i fs1 r1 s1 where "fd_array_alloc NO_FD fs = Some (Inr i, fs1)" "vfs_open W (pwd fs1) path fl s = Some (r1, s1)"
        "(case r1 of
            Inl e \<Rightarrow> do { (fs, s) \<leftarrow> fd_array_free W i fs1 s1; Some (Inl e, fs, s) }
          | Inr n \<Rightarrow> file_opened W fl i n fs1 s1) = Some (r, fs', s')"
  proof (cases "fl AND O_ACCMODE \<notin> {O_RDONLY, O_WRONLY, O_RDWR}")
    case False
    with o obtain r0 fs1 where a: "fd_array_alloc NO_FD fs = Some (r0, fs1)"
      and rest: "(case r0 of
         Inl e \<Rightarrow> Some (Inl e, fs1, s)
       | Inr i \<Rightarrow> do {
           (r, s) \<leftarrow> vfs_open W (pwd fs1) path fl s;
           (case r of
              Inl e \<Rightarrow> do { (fs, s) \<leftarrow> fd_array_free W i fs1 s; Some (Inl e, fs, s) }
            | Inr n \<Rightarrow> file_opened W fl i n fs1 s) }) = Some (r, fs', s')"
      unfolding file_open_def if_not_P [OF \<open>\<not> _\<close>] by (elim bind_pairE)
    show ?thesis
    proof (cases r0)
      case (Inl e)
      with rest a alloc_error that(1) show ?thesis by auto
    next
      case (Inr i)
      from rest [unfolded Inr sum.case] obtain r1 s1 where "vfs_open W (pwd fs1) path fl s = Some (r1, s1)"
        "(case r1 of
            Inl e \<Rightarrow> do { (fs, s) \<leftarrow> fd_array_free W i fs1 s1; Some (Inl e, fs, s) }
          | Inr n \<Rightarrow> file_opened W fl i n fs1 s1) = Some (r, fs', s')" by (rule bind_pairE)
      with a Inr that(2) show ?thesis by blast
    qed
  qed (use o that(1) in \<open>auto simp: file_open_def\<close>)
  then show ?thesis
  proof cases
    case 1
    with ok lost_no show ?thesis by fastforce
  next
    case (2 i fs1 r1 s1)
    from open_shift [OF 2(2)] obtain k where k: "lost (creates_excl fl) k" and sh: "shift (lend k s) s1 (got r1) (got r1)"
      by blast
    have "table_ok fs' h \<and> balanced fs (lend k s) fs' s'"
    proof (cases r1)
      case (Inl e)
      with 2(3) have "fd_array_free W i fs1 s1 = Some (fs', s')" by (auto simp: bind_eq_Some_conv)
      from entry_dropped [OF ok 2(1) this] sh Inl show ?thesis by simp
    next
      case (Inr n)
      with file_opened_ok [OF ok 2(1)] sh 2(3) show ?thesis by auto
    qed
    with k show ?thesis by blast
  qed
qed

end

end
