(* ===== verification/Files_Props.thy ===== *)
theory Files_Props
  imports Files_Facts
begin

text \<open>
  The descriptor table with operations in flight, the copy of a table by \<open>fork\<close> and its end, and what
  the layer does with \<open>O_CREAT\<close> and with devices.
\<close>

section \<open>Operations in flight\<close>

text \<open>
  A thread that reads, writes, seeks, reads the attributes, synchronises or reads a directory acquires the
  entry, calls the file system, where it may sleep, may move the position, and releases the entry; threads
  that share the table may run in between. Opening, closing and duplicating are one step each. The state
  is the table, the number of operations in flight on each entry, and the file system layer. \<open>X\<close> says
  whether files are opened with \<open>O_CREAT\<close> and \<open>O_EXCL\<close> together.
\<close>

inductive file_step :: "'s vfs_world \<Rightarrow> bool \<Rightarrow> files_struct \<times> (nat \<Rightarrow> nat) \<times> 's vfs \<Rightarrow> files_struct \<times> (nat \<Rightarrow> nat) \<times> 's vfs \<Rightarrow> bool"
  for W :: "'s vfs_world" and X :: bool where
  open_step: "(creates_excl fl \<Longrightarrow> X) \<Longrightarrow> file_open W path fl fs s = Some (r, fs', s')
    \<Longrightarrow> file_step W X (fs, h, s) (fs', h, s')"
| close_step: "file_close W f fs s = Some (r1, fs', s') \<Longrightarrow> file_step W X (fs, h, s) (fs', h, s')"
| dup_step: "file_dup fd1 fd2 fs s = Some (r, fs', s') \<Longrightarrow> file_step W X (fs, h, s) (fs', h, s')"
| acquire_step: "fd2file f fs = Some (Inr i) \<Longrightarrow> fd_array_acquire i fs = Some fs'
    \<Longrightarrow> file_step W X (fs, h, s) (fs', h(i := h i + 1), s)"
| transfer_step: "0 < h i \<Longrightarrow> i < FILES_STRUCT_NENTRY \<Longrightarrow> node (fd_array fs ! i) = Some n \<Longrightarrow> op = vop_read \<or> op = vop_write
    \<Longrightarrow> vop_op W n op s = Some g \<Longrightarrow> g n iob s = Some ((ret, iob'), s')
    \<Longrightarrow> file_step W X (fs, h, s)
          (if status (fd_array fs ! i) = FD_OPENED then upd_file i (\<lambda>x. x\<lparr>pos := pos x + int (iobuf_used iob')\<rparr>) fs else fs, h, s')"
| seek_step: "0 < h i \<Longrightarrow> i < FILES_STRUCT_NENTRY \<Longrightarrow> node (fd_array fs ! i) = Some n
    \<Longrightarrow> vop_op W n vop_tryseek s = Some g \<Longrightarrow> g n p s = Some (e, s')
    \<Longrightarrow> file_step W X (fs, h, s) (if e = None then upd_file i (\<lambda>x. x\<lparr>pos := p\<rparr>) fs else fs, h, s')"
| fstat_step: "0 < h i \<Longrightarrow> i < FILES_STRUCT_NENTRY \<Longrightarrow> node (fd_array fs ! i) = Some n
    \<Longrightarrow> vop_op W n vop_fstat s = Some g \<Longrightarrow> g n s = Some (st, s') \<Longrightarrow> file_step W X (fs, h, s) (fs, h, s')"
| fsync_step: "0 < h i \<Longrightarrow> i < FILES_STRUCT_NENTRY \<Longrightarrow> node (fd_array fs ! i) = Some n
    \<Longrightarrow> vop_op W n vop_fsync s = Some g \<Longrightarrow> g n s = Some (e, s') \<Longrightarrow> file_step W X (fs, h, s) (fs, h, s')"
| getdirentry_step: "0 < h i \<Longrightarrow> i < FILES_STRUCT_NENTRY \<Longrightarrow> node (fd_array fs ! i) = Some n
    \<Longrightarrow> vop_op W n vop_getdirentry s = Some g \<Longrightarrow> g n iob s = Some ((e, iob'), s') \<Longrightarrow> file_step W X (fs, h, s) (fs, h, s')"
| release_step: "0 < h i \<Longrightarrow> i < FILES_STRUCT_NENTRY \<Longrightarrow> fd_array_release W i fs s = Some (fs', s')
    \<Longrightarrow> file_step W X (fs, h, s) (fs', h(i := h i - 1), s')"

text \<open>The counts of the inodes follow the descriptors, but for references that are lost if \<open>X\<close>.\<close>

definition follows :: "bool \<Rightarrow> files_struct \<Rightarrow> 's vfs \<Rightarrow> files_struct \<Rightarrow> 's vfs \<Rightarrow> bool" where
  "follows X fs s fs' s' \<longleftrightarrow> (\<forall>n. open_count s' n - open_count s n = fd_refs fs' n - fd_refs fs n
     \<and> fd_refs fs' n - fd_refs fs n \<le> ref_count s' n - ref_count s n
     \<and> (\<not> X \<longrightarrow> ref_count s' n - ref_count s n = fd_refs fs' n - fd_refs fs n))"

lemma follows_lend:
  assumes "lost X k" "balanced fs (lend k s) fs' s'"
  shows "follows X fs s fs' s'"
  unfolding follows_def
proof (intro allI conjI impI)
  fix n
  have b: "ref_count s' n - fd_refs fs' n = ref_count s n + k n - fd_refs fs n" "open_count s' n - fd_refs fs' n = open_count s n - fd_refs fs n"
    using assms(2) by (simp_all add: balanced_def lend_def)
  have k: "0 \<le> k n" "\<not> X \<Longrightarrow> k n = 0" using assms(1) by (auto simp: lost_def no_def)
  show "open_count s' n - open_count s n = fd_refs fs' n - fd_refs fs n" using b by simp
  show "fd_refs fs' n - fd_refs fs n \<le> ref_count s' n - ref_count s n" using b k(1) by simp
  show "ref_count s' n - ref_count s n = fd_refs fs' n - fd_refs fs n" if "\<not> X" using b k(2) [OF that] by simp
qed

lemma follows_balanced: "balanced fs s fs' s' \<Longrightarrow> follows X fs s fs' s'"
  using follows_lend [OF lost_no] by simp

lemma follows_trans: "follows X fs s fs1 s1 \<Longrightarrow> follows X fs1 s1 fs2 s2 \<Longrightarrow> follows X fs s fs2 s2"
  unfolding follows_def by (smt (verit))

lemma pos_ok:
  assumes ok: "table_ok fs h" and i: "i < FILES_STRUCT_NENTRY" and sh: "shift s s' no no"
  shows "table_ok (upd_file i (\<lambda>x. x\<lparr>pos := p x\<rparr>) fs) h \<and> balanced fs s (upd_file i (\<lambda>x. x\<lparr>pos := p x\<rparr>) fs) s'"
proof -
  have "table_ok (upd_file i (\<lambda>x. x\<lparr>pos := p x\<rparr>) fs) (h(i := h i))"
    by (rule table_upd [OF ok i]) (use ok i in \<open>auto simp: table_ok_def entry_ok_def split: fd_status.splits\<close>)
  moreover have "balanced fs s (upd_file i (\<lambda>x. x\<lparr>pos := p x\<rparr>) fs) s'"
    by (rule balanced_upd [OF ok i sh]) (simp add: holds_def no_def)
  ultimately show ?thesis by simp
qed

lemma balanced_shift: "shift s s' no no \<Longrightarrow> balanced fs s fs s'"
  by (simp add: balanced_def shift_def no_def)

context vfs_layer
begin

lemma file_step_ok:
  assumes "file_step W X (fs, h, s) (fs', h', s')" "table_ok fs h"
  shows "table_ok fs' h' \<and> follows X fs s fs' s'"
  using assms
proof cases
  case (open_step fl path r)
  from file_open_ok [OF assms(2) open_step(3)] obtain k where k: "lost (creates_excl fl) k" "table_ok fs' h" "balanced fs (lend k s) fs' s'"
    by blast
  have "lost X k" using k(1) open_step(2) by (auto simp: lost_def)
  with follows_lend k open_step(1) show ?thesis by blast
next
  case (close_step f r1)
  then obtain r where r: "fd2file f fs = Some r" by (auto simp: file_close_def bind_eq_Some_conv)
  show ?thesis
  proof (cases r)
    case (Inl e)
    with close_step r assms(2) follows_balanced [OF balanced_refl] show ?thesis by (auto simp: file_close_def)
  next
    case (Inr i)
    with close_step r have "fd_array_close W i fs s = Some (fs', s')"
      by (auto simp: file_close_def bind_eq_Some_conv)
    with close_ok [OF assms(2) _ this] fd2file_ok [of f fs i] r Inr close_step follows_balanced show ?thesis by auto
  qed
next
  case (dup_step fd1 fd2 r)
  then obtain r1 where r: "fd2file fd1 fs = Some r1" by (auto simp: file_dup_def bind_eq_Some_conv)
  show ?thesis
  proof (cases r1)
    case (Inl e)
    with dup_step r assms(2) follows_balanced [OF balanced_refl] show ?thesis by (auto simp: file_dup_def)
  next
    case (Inr i)
    with dup_step r obtain r2 fs1 where a: "fd_array_alloc fd2 fs = Some (r2, fs1)"
      by (auto simp: file_dup_def bind_eq_Some_conv)
    show ?thesis
    proof (cases r2)
      case (Inl e)
      with dup_step r a \<open>r1 = Inr i\<close> alloc_error assms(2) follows_balanced [OF balanced_refl] show ?thesis
        by (fastforce simp: file_dup_def)
    next
      case (Inr j)
      with dup_step r a \<open>r1 = Inr i\<close> have "fd_array_dup j (fd_array fs1 ! i) fs1 s = Some (fs', s')"
        by (auto simp: file_dup_def bind_eq_Some_conv)
      with dup_ok [OF assms(2) _ _ this] fd2file_ok [of fd1 fs i] r \<open>r1 = Inr i\<close> a Inr
      have "table_ok fs' h" "balanced fs s fs' s'" by auto
      with follows_balanced dup_step(1) show ?thesis by blast
    qed
  qed
next
  case (acquire_step f i)
  then show ?thesis using acquire_ok [OF assms(2), of i fs' s] fd2file_ok [of f fs i] follows_balanced by auto
next
  case (transfer_step i n op g iob ret iob')
  then have sh: "shift s s' no no" using op_keep(6,7) by auto
  from transfer_step(2) pos_ok [OF assms(2) transfer_step(4) sh] balanced_shift [OF sh] assms(2) show ?thesis
    by (auto intro: follows_balanced simp: transfer_step(1))
next
  case (seek_step i n g p e)
  note sh = op_keep(10) [OF seek_step(6,7)]
  from seek_step(2) pos_ok [OF assms(2) seek_step(4) sh] balanced_shift [OF sh] assms(2) show ?thesis
    by (auto intro: follows_balanced simp: seek_step(1))
next
  case (fstat_step i n g st)
  with balanced_shift [OF op_keep(4) [OF fstat_step(6,7)]] assms(2) show ?thesis by (auto intro: follows_balanced)
next
  case (fsync_step i n g e)
  with balanced_shift [OF op_keep(9) [OF fsync_step(6,7)]] assms(2) show ?thesis by (auto intro: follows_balanced)
next
  case (getdirentry_step i n g iob e iob')
  with balanced_shift [OF op_keep(11) [OF getdirentry_step(6,7)]] assms(2) show ?thesis by (auto intro: follows_balanced)
next
  case (release_step i)
  then show ?thesis using release_ok [OF assms(2)] by (auto intro: follows_balanced)
qed

lemma steps_ok:
  assumes "(file_step W X)\<^sup>*\<^sup>* (fs, h, s) (fs', h', s')" "table_ok fs h"
  shows "table_ok fs' h' \<and> follows X fs s fs' s'"
  using assms(1)
proof (induction "(fs', h', s')" arbitrary: fs' h' s' rule: rtranclp_induct)
  case base
  then show ?case using assms(2) follows_balanced [OF balanced_refl] by simp
next
  case (step t)
  obtain fs1 h1 s1 where t: "t = (fs1, h1, s1)" by (cases t)
  from step t have "table_ok fs1 h1" "follows X fs s fs1 s1" by auto
  with file_step_ok [of X fs1 h1 s1 fs' h' s'] step(2) t follows_trans show ?case by blast
qed

end

lemma dev_world_keep: "vops_keep (dev_world dev)"
  by (auto simp: vops_keep_def ops_keep_def dev_world_def dev_node_ops_def dev_open_def dev_close_def dev_io_def
      dev_fstat_def dev_gettype_def dev_lookup_def dev_tryseek_def bind_eq_Some_conv split: if_splits)
    (auto simp: shift_def no_def)

interpretation devices: vfs_layer "dev_world dev" for dev
  by unfold_locales (rule dev_world_keep)

text \<open>The operations are sequences of these steps: what is done between the acquisition and the release of
  an entry is enclosed by the two.\<close>

lemma enclosed_steps:
  assumes f: "fd2file f fs = Some (Inr i)" and a: "fd_array_acquire i fs = Some fs1"
    and mid: "(file_step W X)\<^sup>*\<^sup>* (fs1, h(i := h i + 1), s) (fs2, h(i := h i + 1), s1)"
    and rel: "fd_array_release W i fs2 s1 = Some (fs', s')"
  shows "(file_step W X)\<^sup>*\<^sup>* (fs, h, s) (fs', h, s')"
proof -
  let ?h = "h(i := h i + 1)"
  have ib: "i < FILES_STRUCT_NENTRY" using fd2file_ok f by blast
  have 1: "file_step W X (fs, h, s) (fs1, ?h, s)" by (rule acquire_step [OF f a])
  have hi: "0 < ?h i" and hh: "?h(i := ?h i - 1) = h" by auto
  have 3: "file_step W X (fs2, ?h, s1) (fs', h, s')"
    using release_step [of ?h i W fs2 s1 fs' s', OF hi ib rel] unfolding hh .
  from converse_rtranclp_into_rtranclp [OF 1 mid] 3 show ?thesis by (rule rtranclp.rtrancl_into_rtrancl)
qed

lemma file_transfer_steps:
  assumes t: "file_transfer W allowed op f base len fs s = Some (r, fs', s')" and op: "op = vop_read \<or> op = vop_write"
  shows "(file_step W X)\<^sup>*\<^sup>* (fs, h, s) (fs', h, s')"
proof -
  from t obtain r0 where r0: "fd2file f fs = Some r0" by (auto simp: file_transfer_def bind_eq_Some_conv)
  show ?thesis
  proof (cases "\<exists>i. r0 = Inr i \<and> allowed (fd_array fs ! i)")
    case False
    with t r0 have "fs' = fs" "s' = s" by (auto simp: file_transfer_def split: sum.split_asm)
    then show ?thesis by simp
  next
    case True
    then obtain i where i: "r0 = Inr i" "allowed (fd_array fs ! i)" by blast
    with r0 have f: "fd2file f fs = Some (Inr i)" by simp
    from t r0 i obtain fs1 where a: "fd_array_acquire i fs = Some fs1"
      by (auto simp: file_transfer_def bind_eq_Some_conv)
    from t r0 i a obtain n g ret iob s1 where n: "node (fd_array fs1 ! i) = Some n" "vop_op W n op s = Some g"
      "g n (iobuf_init base len (pos (fd_array fs1 ! i))) s = Some ((ret, iob), s1)"
      by (auto simp: file_transfer_def bind_eq_Some_conv)
    let ?fs = "if status (fd_array fs1 ! i) = FD_OPENED then upd_file i (\<lambda>x. x\<lparr>pos := pos x + int (iobuf_used iob)\<rparr>) fs1 else fs1"
    from t r0 i a n have rel: "fd_array_release W i ?fs s1 = Some (fs', s')"
      by (auto simp: file_transfer_def bind_eq_Some_conv Let_def)
    have "file_step W X (fs1, h(i := h i + 1), s) (?fs, h(i := h i + 1), s1)"
      by (rule transfer_step [where g = g and n = n and op = op and i = i and iob = "iobuf_init base len (pos (fd_array fs1 ! i))"
            and ret = ret and iob' = iob]) (use fd2file_ok [OF f] n op in simp_all)
    with enclosed_steps [OF f a _ rel] show ?thesis by blast
  qed
qed

lemma file_fstat_steps:
  assumes t: "file_fstat W f fs s = Some (r, fs', s')"
  shows "(file_step W X)\<^sup>*\<^sup>* (fs, h, s) (fs', h, s')"
proof -
  from t obtain r0 where r0: "fd2file f fs = Some r0" by (auto simp: file_fstat_def bind_eq_Some_conv)
  show ?thesis
  proof (cases r0)
    case (Inl e)
    with t r0 show ?thesis by (simp add: file_fstat_def)
  next
    case (Inr i)
    with r0 have f: "fd2file f fs = Some (Inr i)" by simp
    with t obtain fs1 n g q s1 where c: "fd_array_acquire i fs = Some fs1" "node (fd_array fs1 ! i) = Some n"
      "vop_op W n vop_fstat s = Some g" "g n s = Some (q, s1)" "fd_array_release W i fs1 s1 = Some (fs', s')"
      by (auto simp: file_fstat_def bind_eq_Some_conv)
    have "file_step W X (fs1, h(i := h i + 1), s) (fs1, h(i := h i + 1), s1)"
      by (rule fstat_step [OF _ _ c(2-4)]) (use fd2file_ok [OF f] in simp_all)
    with enclosed_steps [OF f c(1) _ c(5)] show ?thesis by blast
  qed
qed

lemma file_fsync_steps:
  assumes t: "file_fsync W f fs s = Some (r, fs', s')"
  shows "(file_step W X)\<^sup>*\<^sup>* (fs, h, s) (fs', h, s')"
proof -
  from t obtain r0 where r0: "fd2file f fs = Some r0" by (auto simp: file_fsync_def bind_eq_Some_conv)
  show ?thesis
  proof (cases r0)
    case (Inl e)
    with t r0 show ?thesis by (simp add: file_fsync_def)
  next
    case (Inr i)
    with r0 have f: "fd2file f fs = Some (Inr i)" by simp
    with t obtain fs1 n g q s1 where c: "fd_array_acquire i fs = Some fs1" "node (fd_array fs1 ! i) = Some n"
      "vop_op W n vop_fsync s = Some g" "g n s = Some (q, s1)" "fd_array_release W i fs1 s1 = Some (fs', s')"
      by (auto simp: file_fsync_def bind_eq_Some_conv)
    have "file_step W X (fs1, h(i := h i + 1), s) (fs1, h(i := h i + 1), s1)"
      by (rule fsync_step [OF _ _ c(2-4)]) (use fd2file_ok [OF f] in simp_all)
    with enclosed_steps [OF f c(1) _ c(5)] show ?thesis by blast
  qed
qed

lemma file_getdirentry_steps:
  assumes t: "file_getdirentry W f name off fs s = Some (r, fs', s')"
  shows "(file_step W X)\<^sup>*\<^sup>* (fs, h, s) (fs', h, s')"
proof -
  from t obtain r0 where r0: "fd2file f fs = Some r0" by (auto simp: file_getdirentry_def bind_eq_Some_conv)
  show ?thesis
  proof (cases r0)
    case (Inl e)
    with t r0 show ?thesis by (simp add: file_getdirentry_def)
  next
    case (Inr i)
    with r0 have f: "fd2file f fs = Some (Inr i)" by simp
    with t obtain fs1 n g q iob s1 where c: "fd_array_acquire i fs = Some fs1" "node (fd_array fs1 ! i) = Some n"
      "vop_op W n vop_getdirentry s = Some g" "g n (iobuf_init name (FS_MAX_FNAME_LEN + 1) off) s = Some ((q, iob), s1)"
      "fd_array_release W i fs1 s1 = Some (fs', s')"
      by (auto simp: file_getdirentry_def bind_eq_Some_conv)
    have "file_step W X (fs1, h(i := h i + 1), s) (fs1, h(i := h i + 1), s1)"
      by (rule getdirentry_step [OF _ _ c(2-4)]) (use fd2file_ok [OF f] in simp_all)
    with enclosed_steps [OF f c(1) _ c(5)] show ?thesis by blast
  qed
qed

text \<open>\<open>file_seek\<close> asks for the attributes first when it seeks from the end.\<close>

lemma file_seek_steps:
  assumes t: "file_seek W f p whence fs s = Some (r, fs', s')"
  shows "(file_step W X)\<^sup>*\<^sup>* (fs, h, s) (fs', h, s')"
proof -
  from t obtain r0 where r0: "fd2file f fs = Some r0" by (auto simp: file_seek_def bind_eq_Some_conv)
  show ?thesis
  proof (cases r0)
    case (Inl e)
    with t r0 show ?thesis by (simp add: file_seek_def)
  next
    case (Inr i)
    with r0 have f: "fd2file f fs = Some (Inr i)" by simp
    let ?h = "h(i := h i + 1)"
    have hi: "0 < ?h i" "i < FILES_STRUCT_NENTRY" using fd2file_ok [OF f] by simp_all
    from t f obtain fs1 n where c: "fd_array_acquire i fs = Some fs1" "node (fd_array fs1 ! i) = Some n"
      by (auto simp: file_seek_def bind_eq_Some_conv)
    define target where "target = (if whence = LSEEK_SET then Some (Inr p, s)
       else if whence = LSEEK_CUR then Some (Inr (p + pos (fd_array fs1 ! i)), s)
       else if whence = LSEEK_END
       then do { g \<leftarrow> vop_op W n vop_fstat s; (r, s) \<leftarrow> g n s; Some (map_sum id (\<lambda>st. p + int (st_size st)) r, s) }
       else Some (Inl E_INVAL, s))"
    have "do { (r, s) \<leftarrow> target;
        (r, fs, s) \<leftarrow> (case r of
                     Inl e \<Rightarrow> Some (Some e, fs1, s)
                   | Inr p \<Rightarrow> do {
                       g \<leftarrow> vop_op W n vop_tryseek s;
                       (r, s) \<leftarrow> g n p s;
                       Some (r, if r = None then upd_file i (\<lambda>x. x\<lparr>pos := p\<rparr>) fs1 else fs1, s) });
        (fs, s) \<leftarrow> fd_array_release W i fs s;
        Some (r, fs, s) } = Some (r, fs', s')"
      using t f c by (simp add: file_seek_def target_def)
    then obtain q s1 e fs2 s2 where q: "target = Some (q, s1)"
      and m: "(case q of
                     Inl e \<Rightarrow> Some (Some e, fs1, s1)
                   | Inr p \<Rightarrow> do {
                       g \<leftarrow> vop_op W n vop_tryseek s1;
                       (r, s) \<leftarrow> g n p s1;
                       Some (r, if r = None then upd_file i (\<lambda>x. x\<lparr>pos := p\<rparr>) fs1 else fs1, s) }) = Some (e, fs2, s2)"
      and rel: "fd_array_release W i fs2 s2 = Some (fs', s')"
      by (auto simp: bind_eq_Some_conv)
    have "s1 = s \<or> file_step W X (fs1, ?h, s) (fs1, ?h, s1)"
      using q fstat_step [of ?h i fs1 n W s _ _ _ X, OF hi c(2)] by (auto simp: target_def bind_eq_Some_conv split: if_splits)
    moreover have "(fs2 = fs1 \<and> s2 = s1) \<or> file_step W X (fs1, ?h, s1) (fs2, ?h, s2)"
      using m seek_step [of ?h i fs1 n W s1 _ _ _ _ X, OF hi c(2)] by (cases q) (auto simp: bind_eq_Some_conv)
    ultimately have "(file_step W X)\<^sup>*\<^sup>* (fs1, ?h, s) (fs2, ?h, s2)"
      by (metis (no_types, lifting) r_into_rtranclp rtranclp.rtrancl_refl rtranclp_trans)
    then show ?thesis by (rule enclosed_steps [OF f c(1) _ rel])
  qed
qed

section \<open>A concrete table\<close>

definition demo_devs :: dev_map where
  "demo_devs n = (if n = 1 then Some Stdin else if n = 2 then Some Stdout else if n = 3 then Some Disk0_dev else None)"

definition demo_state :: devs where
  "demo_state = \<lparr>d_blocks = 8, ide_size = 64, dimage = \<lambda>_. 0, disk0_buffer = 0, kbytes = \<lambda>_. 0,
     stdin_buffer = \<lambda>_. 0, p_rpos = 0, p_wpos = 0, kbd = [([0x61, 0x62], True)], screen = []\<rparr>"

definition demo_vfs :: "devs vfs" where
  "demo_vfs = the (dev_init demo_devs 1 2 3
     \<lparr>ref_count = \<lambda>_. 0, open_count = \<lambda>_. 0, vdev_list = [], bootfs_node = None, vinfo = demo_state\<rparr>)"

definition demo_files :: files_struct where
  "demo_files = \<lparr>pwd = None, fd_array = map (\<lambda>i. \<lparr>status = FD_NONE, readable = False, writable = False, fd = int i,
     pos = 0, node = None, fopens = 0\<rparr>) [0..<FILES_STRUCT_NENTRY], files_count = 1\<rparr>"

lemma demo_files_ok: "table_ok demo_files (\<lambda>_. 0)"
  by (simp add: table_ok_def demo_files_def entry_ok_def)

lemma demo_open:
  "case file_open (dev_world demo_devs) (stdin_name @ [colon]) O_RDONLY demo_files demo_vfs of
     Some (Inr v, fs, s) \<Rightarrow> v = 0 \<and> fd_refs fs 1 = 1 \<and> fd_refs demo_files 1 = 0 \<and> open_count demo_vfs 1 = 0
   | _ \<Rightarrow> False"
  by code_simp

section \<open>Properties\<close>

text \<open>C30: whatever threads that share a descriptor table do (opening, closing and duplicating as one step
  each; reading, writing, seeking, and asking for attributes, synchronisation or directory entries with
  other operations in between), every entry is free, or open with one count for itself and one for each
  operation in flight, or closed and kept by the operations in flight; the open counts of every inode go
  up and down exactly with its descriptors, and so do the reference counts as long as no file is opened
  with \<open>O_CREAT\<close> and \<open>O_EXCL\<close> together. With such opens (\<open>X\<close>) a reference can be lost
  (\<open>open_excl_leaks\<close>), but none is given back too early.\<close>

theorem files_counts_exact:
  assumes "vops_keep W" "table_ok fs h" "(file_step W X)\<^sup>*\<^sup>* (fs, h, s) (fs', h', s')"
  shows "table_ok fs' h' \<and> (\<forall>n. open_count s' n - open_count s n = fd_refs fs' n - fd_refs fs n
    \<and> fd_refs fs' n - fd_refs fs n \<le> ref_count s' n - ref_count s n
    \<and> (\<not> X \<longrightarrow> ref_count s' n - ref_count s n = fd_refs fs' n - fd_refs fs n))"
  using vfs_layer.steps_ok [OF vfs_layer.intro [OF assms(1)] assms(3,2)] unfolding follows_def .

lemma files_counts_exact_witness:
  "\<exists>fs' s'. file_open (dev_world demo_devs) (stdin_name @ [colon]) O_RDONLY demo_files demo_vfs = Some (Inr 0, fs', s')
     \<and> table_ok fs' (\<lambda>_. 0) \<and> fd_refs fs' 1 = 1 \<and> open_count s' 1 = 1"
proof -
  let ?o = "file_open (dev_world demo_devs) (stdin_name @ [colon]) O_RDONLY demo_files demo_vfs"
  obtain r fs s where r: "?o = Some (r, fs, s)" using demo_open by (cases ?o) auto
  with demo_open have o: "?o = Some (Inr 0, fs, s)" "fd_refs fs 1 = 1" "fd_refs demo_files 1 = 0" "open_count demo_vfs 1 = 0"
    by (cases r; simp)+
  have "file_step (dev_world demo_devs) False (demo_files, \<lambda>_. 0, demo_vfs) (fs, \<lambda>_. 0, s)"
    by (rule open_step [OF _ o(1)]) (simp add: creates_excl_def O_RDONLY_def)
  from files_counts_exact [OF dev_world_keep demo_files_ok r_into_rtranclp [of "file_step (dev_world demo_devs) False", OF this]]
  have ok: "table_ok fs (\<lambda>_. 0)" and "open_count s 1 - open_count demo_vfs 1 = fd_refs fs 1 - fd_refs demo_files 1"
    by blast+
  then have "open_count s 1 = 1" using o by simp
  with ok o show ?thesis by blast
qed

text \<open>Typing and reading: characters that fit into the buffer come out in the order they went in.\<close>

text \<open>C31: what is typed at the console is read from \<open>stdin\<close>, in order and without loss, as long as no more
  than 4096 characters wait; the read does not sleep and leaves the rest. When 4096 are waiting, the next
  character replaces the first of them.\<close>

theorem stdin_is_a_queue:
  assumes "stdin_ok d" "0 \<notin> set cs"
  shows "(length (typed d) + length cs \<le> STDIN_BUFSIZE \<and> len \<le> length (typed d) + length cs \<longrightarrow>
      (\<exists>d'. dev_stdin_read buf len (fold dev_stdin_write cs d) = Some (len, d') \<and> stdin_ok d'
        \<and> map (\<lambda>i. kbytes d' (buf + i)) [0..<len] = take len (typed d @ cs) \<and> typed d' = drop len (typed d @ cs)))
    \<and> (length (typed d) = STDIN_BUFSIZE \<and> c \<noteq> 0 \<longrightarrow> typed (dev_stdin_write c d) = c # tl (typed d))"
proof (intro conjI impI; (elim conjE)?)
  assume a: "length (typed d) + length cs \<le> STDIN_BUFSIZE" "len \<le> length (typed d) + length cs"
  let ?d = "fold dev_stdin_write cs d"
  have w: "stdin_ok ?d" "typed ?d = typed d @ cs" using typed_writes [OF assms a(1)] by auto
  have "len - 0 \<le> length (typed ?d)" unfolding w(2) using a(2) by simp
  from stdin_loop_take [OF _ this w(1), of buf] obtain d' where d': "stdin_loop 0 len buf ?d = Some (len, d')" "stdin_ok d'"
    "typed d' = drop len (typed d @ cs)"
    "\<forall>a. kbytes d' a = (if buf \<le> a \<and> a < buf + len then (typed d @ cs) ! (a - buf) else kbytes ?d a)"
    unfolding w(2) by auto
  have "map (\<lambda>i. kbytes d' (buf + i)) [0..<len] = take len (typed d @ cs)"
    by (rule nth_equalityI) (use a(2) d'(4) in \<open>simp_all add: nth_take del: length_typed take_append\<close>)
  with d' show "\<exists>d'. dev_stdin_read buf len ?d = Some (len, d') \<and> stdin_ok d'
        \<and> map (\<lambda>i. kbytes d' (buf + i)) [0..<len] = take len (typed d @ cs) \<and> typed d' = drop len (typed d @ cs)"
    by (auto simp: dev_stdin_read_def)
next
  assume "length (typed d) = STDIN_BUFSIZE" "c \<noteq> 0"
  then show "typed (dev_stdin_write c d) = c # tl (typed d)" using typed_write(2) [OF assms(1)] by simp
qed

lemma stdin_is_a_queue_witness:
  "\<exists>d'. dev_stdin_read 7 2 (fold dev_stdin_write [0x61, 0x62, 0x63] demo_state) = Some (2, d')
     \<and> map (\<lambda>i. kbytes d' (7 + i)) [0..<2] = [0x61, 0x62] \<and> typed d' = [0x63]"
proof -
  have t: "stdin_ok demo_state" "typed demo_state = []" by (simp_all add: stdin_ok_def demo_state_def typed_def)
  show ?thesis
    using stdin_is_a_queue [OF t(1), of "[0x61, 0x62, 0x63]" 2 7] t(2) by (auto simp: STDIN_BUFSIZE_def)
qed

section \<open>Where the layer goes wrong\<close>

text \<open>Opening an existing file with \<open>O_CREAT\<close> and \<open>O_EXCL\<close> fails and keeps the reference of the lookup.\<close>

theorem open_excl_leaks:
  assumes "vops_keep W" "vfs_lookup W wd path s = Some ((p, Inr n), s1)"
    and "fl AND O_ACCMODE = O_RDWR" "fl AND O_CREAT \<noteq> 0" "fl AND O_EXCL \<noteq> 0"
  shows "vfs_open W wd path fl s = Some (Inl E_EXISTS, s1) \<and> ref_count s1 n = ref_count s n + 1"
proof -
  have "shift s s1 (one n) no"
    using vfs_layer.lookup_shift [OF vfs_layer.intro [OF assms(1)] assms(2)] by simp
  with assms show ?thesis by (simp add: vfs_open_def open_find_def Let_def shift_def one_def)
qed

text \<open>\<open>O_CREAT\<close> on an existing file truncates it, also when it is opened for reading only.\<close>

theorem open_creat_truncates:
  assumes "vfs_lookup W wd path s = Some ((p, Inr n), s1)"
    and "vop_op W n vop_open s1 = Some f" "f n (O_RDONLY OR O_CREAT) s1 = Some (None, s2)"
    and "vop_op W n vop_truncate (inode_open_inc n s2) = Some g" "g n 0 (inode_open_inc n s2) = Some (None, s3)"
  shows "vfs_open W wd path (O_RDONLY OR O_CREAT) s = Some (Inr n, s3)"
  using assms by (simp add: vfs_open_def open_find_def open_node_def Let_def O_RDONLY_def O_CREAT_def O_ACCMODE_def
      O_EXCL_def O_TRUNC_def O_WRONLY_def O_RDWR_def)

text \<open>A missing file in a directory whose table has no \<open>create\<close> (the tables of devices and of the
  file system have none): the check of the table fails.\<close>

theorem open_creat_panics:
  assumes "vfs_lookup W wd path s = Some ((p, Inl E_NOENT), s1)" "vfs_lookup_parent W wd p s1 = Some ((name, Inr d), s2)"
    and "vop_create (in_ops W d s2) = None" "fl AND O_ACCMODE = O_RDWR" "fl AND O_CREAT \<noteq> 0"
  shows "vfs_open W wd path fl s = None"
  using assms by (simp add: vfs_open_def open_find_def Let_def vop_op_def)

text \<open>The lookup of \<open>device:name\<close> leaves only \<open>device\<close> in the path, so that the search for the parent of
  a missing file starts again from the current directory and takes the device for the name of the file.\<close>

lemma lookup_device:
  assumes "vfs_lookup W wd path s = Some ((p, r), s1)"
  shows "\<exists>sub r1 s0. get_device W wd path s = Some ((p, sub, r1), s0)"
proof -
  from assms obtain p1 sub r1 s0 where d: "get_device W wd path s = Some ((p1, sub, r1), s0)"
    by (auto simp: vfs_lookup_def bind_eq_Some_conv)
  with assms have "p1 = p"
    by (cases r1) (auto simp: vfs_lookup_def bind_eq_Some_conv split: if_splits)
  with d show ?thesis by blast
qed

theorem create_uses_cut_path:
  assumes "n = length (takeWhile (\<lambda>c. c \<noteq> colon \<and> c \<noteq> slash) path)" "0 < n" "n < length path" "path ! n = colon"
    and "vfs_lookup W (Some cur) path s = Some ((p, r), s1)"
  shows "p = take n path \<and> vfs_lookup_parent W (Some cur) p s1 = Some ((take n path, Inr cur), inode_ref_inc cur s1)"
proof -
  have "slash \<noteq> colon" by (simp add: slash_def colon_def)
  moreover obtain sub r1 s0 where "get_device W (Some cur) path s = Some ((p, sub, r1), s0)"
    using lookup_device [OF assms(5)] by blast
  ultimately have p: "p = take n path"
    using assms(1-4) by (auto simp: get_device_def Let_def bind_eq_Some_conv)
  have t: "take n path = takeWhile (\<lambda>c. c \<noteq> colon \<and> c \<noteq> slash) path"
    unfolding assms(1) by (rule takeWhile_eq_take [symmetric])
  then have "takeWhile (\<lambda>c. c \<noteq> colon \<and> c \<noteq> slash) (take n path) = take n path"
    by (metis (no_types, lifting) set_takeWhileD takeWhile_eq_all_conv)
  then have "length (takeWhile (\<lambda>c. c \<noteq> colon \<and> c \<noteq> slash) (take n path)) = n"
    using assms(3) by (simp del: takeWhile_eq_all_conv)
  then show ?thesis
    using p assms(2,3) by (simp add: vfs_lookup_parent_def get_device_def vfs_get_curdir_def Let_def)
qed

text \<open>\<open>fsync\<close> on a descriptor of a device panics: its table has no such function.\<close>

theorem fsync_device_panics:
  assumes "fd2file f fs = Some (Inr i)"
  shows "file_fsync (dev_world dev) f fs s = None"
  using assms by (auto simp: file_fsync_def vop_op_def dev_world_def dev_node_ops_def bind_eq_None_conv
      split: option.splits)

end
