(* ===== verification/Skew.thy ===== *)
theory Skew
  imports "HOL-Library.Tree" "HOL-Library.Monad_Syntax" Prelude
begin

text \<open>
  \<open>lab8/libs/skew_heap.h\<close>: skew heaps of nodes with pointers to parent and children, and the comparison
  of strides that the pool of runnable processes is ordered by (\<open>default_sched_stride.c\<close>, whose other
  functions are exercises left empty). A null pointer is \<open>None\<close>.
\<close>

section \<open>The heap\<close>

record sheap =
  sh_parent :: "nat \<Rightarrow> nat option"
  sh_left :: "nat \<Rightarrow> nat option"
  sh_right :: "nat \<Rightarrow> nat option"

type_synonym compare_f = "nat \<Rightarrow> nat \<Rightarrow> int"

definition skew_heap_init :: "nat \<Rightarrow> sheap \<Rightarrow> sheap" where
  "skew_heap_init a h = h\<lparr>sh_parent := (sh_parent h)(a := None), sh_left := (sh_left h)(a := None),
     sh_right := (sh_right h)(a := None)\<rparr>"

text \<open>\<open>a->left = l; a->right = r; if (l) l->parent = a;\<close>\<close>

definition sh_join :: "nat \<Rightarrow> nat option \<Rightarrow> nat option \<Rightarrow> sheap \<Rightarrow> sheap" where
  "sh_join a l r h =
     (let h = h\<lparr>sh_left := (sh_left h)(a := l), sh_right := (sh_right h)(a := r)\<rparr>
      in case l of None \<Rightarrow> h | Some n \<Rightarrow> h\<lparr>sh_parent := (sh_parent h)(n := Some a)\<rparr>)"

text \<open>The recursion goes down a chain of right children, which need not end in a damaged heap.\<close>

partial_function (option) skew_heap_merge ::
    "compare_f \<Rightarrow> nat option \<Rightarrow> nat option \<Rightarrow> sheap \<Rightarrow> (nat option \<times> sheap) option" where
  "skew_heap_merge cmp a b h =
     (case a of
        None \<Rightarrow> Some (b, h)
      | Some x \<Rightarrow>
          (case b of
             None \<Rightarrow> Some (a, h)
           | Some y \<Rightarrow>
               if cmp x y = - 1
               then do { (l, h') \<leftarrow> skew_heap_merge cmp (sh_right h x) b h; Some (a, sh_join x l (sh_left h x) h') }
               else do { (l, h') \<leftarrow> skew_heap_merge cmp a (sh_right h y) h; Some (b, sh_join y l (sh_left h y) h') }))"

declare skew_heap_merge.simps [code]

definition skew_heap_insert :: "compare_f \<Rightarrow> nat option \<Rightarrow> nat \<Rightarrow> sheap \<Rightarrow> (nat option \<times> sheap) option" where
  "skew_heap_insert cmp a b h = skew_heap_merge cmp a (Some b) (skew_heap_init b h)"

text \<open>The end of \<open>skew_heap_remove\<close>: the merged children \<open>rep\<close> take the place of \<open>b\<close>.\<close>

definition sh_replace :: "nat \<Rightarrow> nat option \<Rightarrow> nat option \<Rightarrow> sheap \<Rightarrow> sheap" where
  "sh_replace b p rep h =
     (let h = (case rep of None \<Rightarrow> h | Some n \<Rightarrow> h\<lparr>sh_parent := (sh_parent h)(n := p)\<rparr>)
      in case p of
           None \<Rightarrow> h
         | Some q \<Rightarrow> if sh_left h q = Some b then h\<lparr>sh_left := (sh_left h)(q := rep)\<rparr>
                     else h\<lparr>sh_right := (sh_right h)(q := rep)\<rparr>)"

definition skew_heap_remove :: "compare_f \<Rightarrow> nat option \<Rightarrow> nat \<Rightarrow> sheap \<Rightarrow> (nat option \<times> sheap) option" where
  "skew_heap_remove cmp a b h = do {
     (rep, h') \<leftarrow> skew_heap_merge cmp (sh_left h b) (sh_right h b) h;
     Some (if sh_parent h b = None then rep else a, sh_replace b (sh_parent h b) rep h') }"

text \<open>The strides are subtracted in 32 bits and the difference is read as signed.\<close>

definition proc_stride_comp_f :: "(nat \<Rightarrow> u32) \<Rightarrow> compare_f" where
  "proc_stride_comp_f stride p q =
     (let c = sint (stride p - stride q) in if c > 0 then 1 else if c = 0 then 0 else - 1)"

section \<open>Trees in the store\<close>

fun is_tree :: "sheap \<Rightarrow> nat option \<Rightarrow> nat tree \<Rightarrow> bool" where
  "is_tree h a Leaf \<longleftrightarrow> a = None"
| "is_tree h a (Node l x r) \<longleftrightarrow> a = Some x \<and> is_tree h (sh_left h x) l \<and> is_tree h (sh_right h x) r
     \<and> (\<forall>n. sh_left h x = Some n \<or> sh_right h x = Some n \<longrightarrow> sh_parent h n = Some x)
     \<and> x \<notin> set_tree l \<and> x \<notin> set_tree r \<and> set_tree l \<inter> set_tree r = {}"

lemma is_tree_None [simp]: "is_tree h None t \<longleftrightarrow> t = Leaf"
  by (cases t) auto

lemma is_tree_Some: "is_tree h (Some x) t \<Longrightarrow> \<exists>l r. t = Node l x r"
  by (cases t) auto

lemma is_tree_root: "is_tree h (Some x) t \<Longrightarrow> x \<in> set_tree t"
  by (cases t) auto

text \<open>The two stores agree on the nodes of \<open>A\<close>, but for the parent of the node at \<open>a\<close>.\<close>

definition agree :: "nat set \<Rightarrow> nat option \<Rightarrow> sheap \<Rightarrow> sheap \<Rightarrow> bool" where
  "agree A a h h' \<longleftrightarrow> (\<forall>n \<in> A. sh_left h' n = sh_left h n \<and> sh_right h' n = sh_right h n
     \<and> (a \<noteq> Some n \<longrightarrow> sh_parent h' n = sh_parent h n))"

lemma agree_mono: "agree A a h h' \<Longrightarrow> B \<subseteq> A \<Longrightarrow> agree B a h h'"
  by (auto simp: agree_def)

lemma is_tree_agree:
  assumes "is_tree h a t" "agree (set_tree t) a h h'"
  shows "is_tree h' a t"
  using assms
proof (induction t arbitrary: a)
  case (Node l x r)
  note t = Node.prems(1) [simplified]
  have x: "sh_left h' x = sh_left h x" "sh_right h' x = sh_right h x" using Node.prems(2) by (auto simp: agree_def)
  have a: "a = Some x" using t by simp
  have "agree (set_tree l) (sh_left h x) h h'" "agree (set_tree r) (sh_right h x) h h'"
    using Node.prems(2) t by (auto simp: agree_def)
  then have "is_tree h' (sh_left h x) l" "is_tree h' (sh_right h x) r" using Node.IH t by auto
  moreover have "sh_parent h' n = Some x" if "sh_left h x = Some n \<or> sh_right h x = Some n" for n
  proof -
    have "n \<in> set_tree l \<union> set_tree r" using that t is_tree_root by auto
    moreover from this have "n \<noteq> x" using t by auto
    ultimately show ?thesis using Node.prems(2) that t a by (auto simp: agree_def)
  qed
  ultimately show ?case using t x by simp
qed simp

section \<open>Merging\<close>

fun tmerge :: "compare_f \<Rightarrow> nat tree \<Rightarrow> nat tree \<Rightarrow> nat tree" where
  "tmerge cmp Leaf u = u"
| "tmerge cmp t Leaf = t"
| "tmerge cmp (Node l x r) (Node l' y r') =
     (if cmp x y = - 1 then Node (tmerge cmp r (Node l' y r')) x l else Node (tmerge cmp (Node l x r) r') y l')"

lemma set_tmerge [simp]: "set_tree (tmerge cmp t u) = set_tree t \<union> set_tree u"
  by (induction cmp t u rule: tmerge.induct) auto

lemma tmerge_Leaf [simp]: "tmerge cmp t Leaf = t"
  by (cases t) simp_all

text \<open>Nothing outside \<open>A\<close> changes, and nobody's parent that is at \<open>a\<close>.\<close>

definition only_in :: "nat set \<Rightarrow> sheap \<Rightarrow> sheap \<Rightarrow> bool" where
  "only_in A h h' \<longleftrightarrow> (\<forall>n. n \<notin> A \<longrightarrow> sh_left h' n = sh_left h n \<and> sh_right h' n = sh_right h n \<and> sh_parent h' n = sh_parent h n)"

lemma only_in_agree: "only_in A h h' \<Longrightarrow> A \<inter> B = {} \<Longrightarrow> agree B a h h'"
  by (auto simp: only_in_def agree_def)

lemma join_ok:
  assumes "is_tree h c t" "is_tree h (sh_left h x) l" "\<forall>n. sh_left h x = Some n \<longrightarrow> sh_parent h n = Some x"
    and "x \<notin> set_tree t" "x \<notin> set_tree l" "set_tree t \<inter> set_tree l = {}"
  shows "is_tree (sh_join x c (sh_left h x) h) (Some x) (Node t x l)"
    "only_in (insert x (set_tree t)) h (sh_join x c (sh_left h x) h)"
    "sh_parent (sh_join x c (sh_left h x) h) x = sh_parent h x"
proof -
  let ?h = "sh_join x c (sh_left h x) h"
  have f: "sh_left ?h = (sh_left h)(x := c)" "sh_right ?h = (sh_right h)(x := sh_left h x)"
    "sh_parent ?h = (case c of None \<Rightarrow> sh_parent h | Some n \<Rightarrow> (sh_parent h)(n := Some x))"
    by (auto simp: sh_join_def Let_def split: option.split)
  have c: "n \<in> set_tree t" if "c = Some n" for n using assms(1) that is_tree_root by auto
  have l: "n \<in> set_tree l" if "sh_left h x = Some n" for n using assms(2) that is_tree_root by auto
  have "agree (set_tree t) c h ?h" "agree (set_tree l) (sh_left h x) h ?h"
    using assms(4-6) c by (auto simp: agree_def f split: option.split)
  then have "is_tree ?h c t" "is_tree ?h (sh_left h x) l" using is_tree_agree assms(1,2) by blast+
  moreover have "sh_parent ?h n = Some x" if "c = Some n \<or> sh_left h x = Some n" for n
    using that assms(3) by (auto simp: f split: option.split)
  ultimately show "is_tree ?h (Some x) (Node t x l)" using assms(4-6) by (auto simp: f)
  show "only_in (insert x (set_tree t)) h ?h" using c by (auto simp: only_in_def f split: option.split)
  show "sh_parent ?h x = sh_parent h x" using c assms(4) by (auto simp: f split: option.split)
qed

text \<open>The left child of \<open>x\<close> when only other nodes have changed.\<close>

lemma left_kept:
  assumes "is_tree h a (Node l x r)" "only_in A h h'" "A \<inter> insert x (set_tree l) = {}"
  shows "sh_left h' x = sh_left h x" "sh_parent h' x = sh_parent h x" "is_tree h' (sh_left h' x) l"
    "\<forall>n. sh_left h' x = Some n \<longrightarrow> sh_parent h' n = Some x"
proof -
  show s: "sh_left h' x = sh_left h x" "sh_parent h' x = sh_parent h x" using assms(2,3) by (auto simp: only_in_def)
  have "agree (set_tree l) (sh_left h x) h h'" by (rule only_in_agree [OF assms(2)]) (use assms(3) in auto)
  then show l: "is_tree h' (sh_left h' x) l" unfolding s using is_tree_agree assms(1) by auto
  show "\<forall>n. sh_left h' x = Some n \<longrightarrow> sh_parent h' n = Some x"
  proof (intro allI impI)
    fix n
    assume n: "sh_left h' x = Some n"
    then have "n \<in> set_tree l" using l is_tree_root by simp
    then have "sh_parent h' n = sh_parent h n" using assms(2,3) by (auto simp: only_in_def)
    then show "sh_parent h' n = Some x" using assms(1) n s by simp
  qed
qed

lemma merge_ok:
  assumes "is_tree h a t" "is_tree h b u" "set_tree t \<inter> set_tree u = {}"
  shows "\<exists>c h'. skew_heap_merge cmp a b h = Some (c, h') \<and> is_tree h' c (tmerge cmp t u)
    \<and> only_in (set_tree t \<union> set_tree u) h h' \<and> (\<forall>n. c = Some n \<longrightarrow> (a = c \<or> b = c) \<and> sh_parent h' n = sh_parent h n)"
  using assms
proof (induction cmp t u arbitrary: a b h rule: tmerge.induct)
  case (1 cmp u)
  then show ?case by (subst skew_heap_merge.simps) (auto simp: only_in_def)
next
  case (2 cmp l x r)
  then show ?case by (subst skew_heap_merge.simps) (auto simp: only_in_def)
next
  case (3 cmp l x r l' y r')
  then have a: "a = Some x" and b: "b = Some y" by auto
  show ?case
  proof (cases "cmp x y = - 1")
    case True
    have pre: "is_tree h (sh_right h x) r" "is_tree h b (Node l' y r')" "set_tree r \<inter> set_tree (Node l' y r') = {}"
      using 3(3-5) by auto
    from 3(1) [OF True pre] obtain c h' where c: "skew_heap_merge cmp (sh_right h x) b h = Some (c, h')"
      "is_tree h' c (tmerge cmp r (Node l' y r'))" "only_in (set_tree r \<union> set_tree (Node l' y r')) h h'" by blast
    let ?t = "tmerge cmp r (Node l' y r')"
    have x: "x \<notin> set_tree ?t" "set_tree ?t \<inter> set_tree l = {}" "x \<notin> set_tree l" using 3(3-5) by auto
    have dis: "(set_tree r \<union> set_tree (Node l' y r')) \<inter> insert x (set_tree l) = {}" using x by auto
    note k = left_kept [OF 3(3) c(3) dis]
    note j = join_ok [OF c(2) k(3,4) x(1,3,2)]
    have "skew_heap_merge cmp a b h = Some (a, sh_join x c (sh_left h' x) h')"
      using a b True c(1) k(1) by (subst skew_heap_merge.simps) simp
    moreover have "only_in (set_tree (Node l x r) \<union> set_tree (Node l' y r')) h (sh_join x c (sh_left h' x) h')"
      using j(2) c(3) by (auto simp: only_in_def)
    ultimately show ?thesis using j(1,3) True a k(2) by auto
  next
    case False
    have pre: "is_tree h a (Node l x r)" "is_tree h (sh_right h y) r'" "set_tree (Node l x r) \<inter> set_tree r' = {}"
      using 3(3-5) by auto
    from 3(2) [OF False pre] obtain c h' where c: "skew_heap_merge cmp a (sh_right h y) h = Some (c, h')"
      "is_tree h' c (tmerge cmp (Node l x r) r')" "only_in (set_tree (Node l x r) \<union> set_tree r') h h'" by blast
    let ?t = "tmerge cmp (Node l x r) r'"
    have x: "y \<notin> set_tree ?t" "set_tree ?t \<inter> set_tree l' = {}" "y \<notin> set_tree l'" using 3(3-5) by auto
    have dis: "(set_tree (Node l x r) \<union> set_tree r') \<inter> insert y (set_tree l') = {}" using x by auto
    note k = left_kept [OF 3(4) c(3) dis]
    note j = join_ok [OF c(2) k(3,4) x(1,3,2)]
    have "skew_heap_merge cmp a b h = Some (b, sh_join y c (sh_left h' y) h')"
      using a b False c(1) k(1) by (subst skew_heap_merge.simps) simp
    moreover have "only_in (set_tree (Node l x r) \<union> set_tree (Node l' y r')) h (sh_join y c (sh_left h' y) h')"
      using j(2) c(3) by (auto simp: only_in_def)
    ultimately show ?thesis using j(1,3) False b k(2) by auto
  qed
qed

end
