(* ===== verification/Skew_Props.thy ===== *)
theory Skew_Props
  imports Skew
begin

text \<open>Removing any element of a skew heap, and the heap as a priority queue.\<close>

section \<open>Removing\<close>

fun trem :: "compare_f \<Rightarrow> nat \<Rightarrow> nat tree \<Rightarrow> nat tree" where
  "trem cmp b Leaf = Leaf"
| "trem cmp b (Node l x r) = (if x = b then tmerge cmp l r else Node (trem cmp b l) x (trem cmp b r))"

lemma trem_other: "b \<notin> set_tree t \<Longrightarrow> trem cmp b t = t"
  by (induction t) auto

lemma set_trem: "is_tree h a t \<Longrightarrow> set_tree (trem cmp b t) = set_tree t - {b}"
  by (induction t arbitrary: a) auto

lemma is_tree_unique: "is_tree h a t \<Longrightarrow> is_tree h a u \<Longrightarrow> t = u"
proof (induction t arbitrary: a u)
  case (Node l x r)
  then obtain l' r' where "u = Node l' x r'" by (cases u) auto
  with Node show ?case by auto
qed simp

text \<open>The subtree at a node of a tree: it lies in the tree, below the node's parent.\<close>

lemma subtree_at:
  assumes "is_tree h a t" "b \<in> set_tree t"
  shows "\<exists>l r. is_tree h (Some b) (Node l b r)"
  using assms by (induction t arbitrary: a) auto

lemma subtree_in:
  assumes "is_tree h a t" "b \<in> set_tree t" "is_tree h (Some b) (Node l b r)"
  shows "set_tree l \<union> set_tree r \<subseteq> set_tree t
    \<and> (a \<noteq> Some b \<longrightarrow> (\<exists>p. sh_parent h b = Some p \<and> p \<in> set_tree t \<and> p \<notin> insert b (set_tree l \<union> set_tree r))
       \<and> (\<forall>n. a = Some n \<longrightarrow> n \<notin> insert b (set_tree l \<union> set_tree r)))"
  using assms(1,2)
proof (induction t arbitrary: a)
  case (Node L x R)
  note t = Node.prems(1)
  let ?S = "set_tree l \<union> set_tree r"
  show ?case
  proof (cases "x = b")
    case True
    then have "Node L x R = Node l b r" using t assms(3) is_tree_unique by auto
    with True t show ?thesis by auto
  next
    case False
    have sub: "?S \<subseteq> set_tree T \<and> (\<exists>p. sh_parent h b = Some p \<and> p \<in> insert x (set_tree T) \<and> p \<notin> insert b ?S)"
      if T: "is_tree h c T" "b \<in> set_tree T" "c = Some b \<longrightarrow> sh_parent h b = Some x" "x \<notin> set_tree T"
        and IH: "?S \<subseteq> set_tree T \<and> (c \<noteq> Some b \<longrightarrow> (\<exists>p. sh_parent h b = Some p \<and> p \<in> set_tree T \<and> p \<notin> insert b ?S)
          \<and> (\<forall>n. c = Some n \<longrightarrow> n \<notin> insert b ?S))" for c T
    proof (cases "c = Some b")
      case True
      with IH T show ?thesis by auto
    next
      case False
      with IH show ?thesis by auto
    qed
    consider (l) "b \<in> set_tree L" | (r) "b \<in> set_tree R" using Node.prems(2) False by auto
    then show ?thesis
    proof cases
      case l
      have "?S \<subseteq> set_tree L \<and> (\<exists>p. sh_parent h b = Some p \<and> p \<in> insert x (set_tree L) \<and> p \<notin> insert b ?S)"
        by (rule sub [of "sh_left h x"]) (use Node.IH(1) [of "sh_left h x"] t l in auto)
      with False t show ?thesis by auto
    next
      case r
      have "?S \<subseteq> set_tree R \<and> (\<exists>p. sh_parent h b = Some p \<and> p \<in> insert x (set_tree R) \<and> p \<notin> insert b ?S)"
        by (rule sub [of "sh_right h x"]) (use Node.IH(2) [of "sh_right h x"] t r in auto)
      with False t show ?thesis by auto
    qed
  qed
qed simp

text \<open>What \<open>sh_replace\<close> does to a store that the merge of the children of \<open>b\<close> has left.\<close>

lemma replace_fields:
  assumes "only_in S h h1" "p \<notin> S" "\<forall>n. rep = Some n \<longrightarrow> n \<in> S"
  shows "sh_left (sh_replace b (Some p) rep h1) n =
      (if n = p \<and> sh_left h p = Some b then rep else sh_left h1 n)"
    and "sh_right (sh_replace b (Some p) rep h1) n =
      (if n = p \<and> sh_left h p \<noteq> Some b then rep else sh_right h1 n)"
    and "sh_parent (sh_replace b (Some p) rep h1) n = (if rep = Some n then Some p else sh_parent h1 n)"
  using assms by (auto simp: sh_replace_def Let_def only_in_def split: option.split)

text \<open>Putting a node together.\<close>

lemma is_tree_Node:
  assumes "sh_left h x = c" "sh_right h x = d" "is_tree h c l" "is_tree h d r"
    and "\<And>n. c = Some n \<or> d = Some n \<Longrightarrow> sh_parent h n = Some x"
    and "set_tree l \<subseteq> A" "set_tree r \<subseteq> B" "x \<notin> A" "x \<notin> B" "A \<inter> B = {}"
  shows "is_tree h (Some x) (Node l x r)"
  using assms by auto

lemma replace_ok:
  assumes "is_tree h a t" "b \<in> set_tree t" "a \<noteq> Some b" "is_tree h (Some b) (Node l b r)"
    and "is_tree h1 rep (tmerge cmp l r)" "only_in (set_tree l \<union> set_tree r) h h1"
  shows "is_tree (sh_replace b (sh_parent h b) rep h1) a (trem cmp b t)"
  using assms(1-3)
proof (induction t arbitrary: a)
  case (Node L x R)
  note t = Node.prems(1)
  let ?S = "set_tree l \<union> set_tree r" and ?h = "sh_replace b (sh_parent h b) rep h1"
  have xb: "x \<noteq> b" "a = Some x" using t Node.prems(3) by auto
  obtain p where p: "sh_parent h b = Some p" "p \<in> set_tree (Node L x R)" "p \<notin> insert b ?S" "x \<notin> insert b ?S"
    using subtree_in [OF t Node.prems(2) assms(4)] xb by auto
  have rep: "\<forall>n. rep = Some n \<longrightarrow> n \<in> ?S" using assms(5) is_tree_root by force
  note f = replace_fields [where p = p and b = b, OF assms(6) _ rep, folded p(1)]
  have fp: "p \<notin> ?S" using p(3) by simp
  have par: "sh_parent ?h n = sh_parent h n" if "n \<notin> ?S" for n
    using f(3) [OF fp, of n] rep that assms(6) by (auto simp: only_in_def)
  have other: "is_tree ?h c T" if "is_tree h c T" "p \<notin> set_tree T" "set_tree T \<inter> ?S = {}" for c T
  proof -
    have "agree (set_tree T) c h ?h"
      using that(2,3) f(1,2) [OF fp] par assms(6) unfolding agree_def only_in_def by (auto split: if_splits)
    then show ?thesis using is_tree_agree that(1) by blast
  qed
  have new: "is_tree ?h rep (tmerge cmp l r)"
  proof -
    have "agree (set_tree (tmerge cmp l r)) rep h1 ?h"
      using f [OF fp] fp unfolding agree_def by auto
    then show ?thesis using is_tree_agree assms(5) by blast
  qed
  have tL: "is_tree h (sh_left h x) L" and tR: "is_tree h (sh_right h x) R"
    and ch: "\<And>n. sh_left h x = Some n \<or> sh_right h x = Some n \<Longrightarrow> sh_parent h n = Some x"
    and dis: "x \<notin> set_tree L" "x \<notin> set_tree R" "set_tree L \<inter> set_tree R = {}" using t by auto
  consider (l) "b \<in> set_tree L" "b \<notin> set_tree R" | (r) "b \<in> set_tree R" "b \<notin> set_tree L"
    using Node.prems(2) xb t by auto
  then show ?case
  proof cases
    case l
    note sub = subtree_in [OF tL l(1) assms(4)]
    then have S: "?S \<subseteq> set_tree L" by blast
    show ?thesis
    proof (cases "sh_left h x = Some b")
      case True
      then have px: "p = x" using ch p(1) by auto
      have L: "L = Node l b r" by (rule is_tree_unique [OF tL]) (simp only: True assms(4))
      have o: "is_tree ?h (sh_right h x) R" by (rule other [OF tR]) (use dis px S in auto)
      have ch1: "sh_left ?h x = rep" "sh_right ?h x = sh_right h x"
        using f(1,2) [OF fp, of x] px True p(4) assms(6) by (auto simp: only_in_def)
      have pp: "sh_parent ?h n = Some x" if "rep = Some n \<or> sh_right h x = Some n" for n
      proof (cases "rep = Some n")
        case False
        then have "n \<in> set_tree R" using that tR is_tree_root by auto
        then have "n \<notin> ?S" using S dis by auto
        then show ?thesis using par False that ch by auto
      qed (use f(3) [OF fp, of n] px p(1) in simp)
      have e: "trem cmp b (Node L x R) = Node (tmerge cmp l r) x R" using xb l(2) L by (simp add: trem_other)
      show ?thesis unfolding e xb(2)
        by (rule is_tree_Node [OF ch1 new o pp, of "set_tree L" "set_tree R"]) (use S dis in auto)
    next
      case False
      have IH: "is_tree ?h (sh_left h x) (trem cmp b L)" by (rule Node.IH(1) [OF tL l(1) False])
      have pL: "p \<in> set_tree L" "\<forall>n. sh_left h x = Some n \<longrightarrow> n \<notin> ?S"
        using sub False p(1) by auto
      have o: "is_tree ?h (sh_right h x) R" by (rule other [OF tR]) (use dis pL S in auto)
      have ch1: "sh_left ?h x = sh_left h x" "sh_right ?h x = sh_right h x"
        using f(1,2) [OF fp, of x] pL(1) dis p(4) assms(6) by (auto simp: only_in_def)
      have pp: "sh_parent ?h n = Some x" if "sh_left h x = Some n \<or> sh_right h x = Some n" for n
      proof -
        have "n \<notin> ?S"
        proof (cases "sh_left h x = Some n")
          case True
          then show ?thesis using pL(2) by blast
        next
          case False
          then have "is_tree h (Some n) R" using that tR by simp
          then have "n \<in> set_tree R" by (rule is_tree_root)
          then show ?thesis using S dis by blast
        qed
        then show ?thesis using par that ch by simp
      qed
      have e: "trem cmp b (Node L x R) = Node (trem cmp b L) x R" using xb l(2) by (simp add: trem_other)
      show ?thesis unfolding e xb(2)
        by (rule is_tree_Node [OF ch1 IH o pp, of "set_tree L" "set_tree R"]) (use set_trem [OF tL] dis in auto)
    qed
  next
    case r
    note sub = subtree_in [OF tR r(1) assms(4)]
    then have S: "?S \<subseteq> set_tree R" by blast
    have nl: "sh_left h x \<noteq> Some b" using tL r(2) is_tree_root by auto
    show ?thesis
    proof (cases "sh_right h x = Some b")
      case True
      then have px: "p = x" using ch p(1) by auto
      have L: "R = Node l b r" by (rule is_tree_unique [OF tR]) (simp only: True assms(4))
      have o: "is_tree ?h (sh_left h x) L" by (rule other [OF tL]) (use dis px S in auto)
      have ch1: "sh_right ?h x = rep" "sh_left ?h x = sh_left h x"
        using f(1,2) [OF fp, of x] px nl p(4) assms(6) by (auto simp: only_in_def)
      have pp: "sh_parent ?h n = Some x" if "rep = Some n \<or> sh_left h x = Some n" for n
      proof (cases "rep = Some n")
        case False
        then have "n \<in> set_tree L" using that tL is_tree_root by auto
        then have "n \<notin> ?S" using S dis by auto
        then show ?thesis using par False that ch by auto
      qed (use f(3) [OF fp, of n] px p(1) in simp)
      have e: "trem cmp b (Node L x R) = Node L x (tmerge cmp l r)" using xb r(2) L by (simp add: trem_other)
      show ?thesis unfolding e xb(2)
        by (rule is_tree_Node [OF ch1(2,1) o new _, of "set_tree L" "set_tree R"]) (use pp S dis in auto)
    next
      case False
      have IH: "is_tree ?h (sh_right h x) (trem cmp b R)" by (rule Node.IH(2) [OF tR r(1) False])
      have pR: "p \<in> set_tree R" "\<forall>n. sh_right h x = Some n \<longrightarrow> n \<notin> ?S"
        using sub False p(1) by auto
      have o: "is_tree ?h (sh_left h x) L" by (rule other [OF tL]) (use dis pR S in auto)
      have ch1: "sh_left ?h x = sh_left h x" "sh_right ?h x = sh_right h x"
        using f(1,2) [OF fp, of x] pR(1) dis p(4) assms(6) by (auto simp: only_in_def)
      have pp: "sh_parent ?h n = Some x" if "sh_left h x = Some n \<or> sh_right h x = Some n" for n
      proof -
        have "n \<notin> ?S"
        proof (cases "sh_right h x = Some n")
          case True
          then show ?thesis using pR(2) by blast
        next
          case False
          then have "is_tree h (Some n) L" using that tL by simp
          then have "n \<in> set_tree L" by (rule is_tree_root)
          then show ?thesis using S dis by blast
        qed
        then show ?thesis using par that ch by simp
      qed
      have e: "trem cmp b (Node L x R) = Node L x (trem cmp b R)" using xb r(2) by (simp add: trem_other)
      show ?thesis unfolding e xb(2)
        by (rule is_tree_Node [OF ch1 o IH pp, of "set_tree L" "set_tree R"]) (use set_trem [OF tR] dis in auto)
    qed
  qed
qed simp

lemma remove_ok:
  assumes "is_tree h a t" "b \<in> set_tree t" "\<forall>n. a = Some n \<longrightarrow> sh_parent h n = None"
  shows "\<exists>c h'. skew_heap_remove cmp a b h = Some (c, h') \<and> is_tree h' c (trem cmp b t)
    \<and> (\<forall>n. c = Some n \<longrightarrow> sh_parent h' n = None)"
proof -
  obtain l r where b: "is_tree h (Some b) (Node l b r)" using subtree_at [OF assms(1,2)] by blast
  let ?S = "set_tree l \<union> set_tree r"
  obtain rep h1 where m: "skew_heap_merge cmp (sh_left h b) (sh_right h b) h = Some (rep, h1)"
    "is_tree h1 rep (tmerge cmp l r)" "only_in ?S h h1"
    using merge_ok [of h "sh_left h b" l "sh_right h b" r cmp] b by auto
  have rep: "\<forall>n. rep = Some n \<longrightarrow> n \<in> ?S" using m(2) is_tree_root by force
  show ?thesis
  proof (cases "a = Some b")
    case True
    let ?h = "sh_replace b None rep h1"
    have "t = Node l b r" using assms(1) b True is_tree_unique by blast
    moreover have "agree (set_tree (tmerge cmp l r)) rep h1 ?h"
      unfolding agree_def by (auto simp: sh_replace_def Let_def split: option.split)
    then have "is_tree ?h rep (tmerge cmp l r)" using is_tree_agree m(2) by blast
    moreover have "skew_heap_remove cmp a b h = Some (rep, ?h)"
      using m(1) assms(3) True by (simp add: skew_heap_remove_def)
    moreover have "sh_parent ?h n = None" if "rep = Some n" for n using that by (simp add: sh_replace_def)
    ultimately show ?thesis by auto
  next
    case False
    note sub = subtree_in [OF assms(1,2) b]
    then obtain p where p: "sh_parent h b = Some p" "p \<notin> ?S" using False by blast
    have "skew_heap_remove cmp a b h = Some (a, sh_replace b (sh_parent h b) rep h1)"
      using m(1) p(1) by (simp add: skew_heap_remove_def)
    moreover have "sh_parent (sh_replace b (sh_parent h b) rep h1) n = None" if n: "a = Some n" for n
    proof -
      have "n \<notin> ?S" using sub False n by blast
      then have "rep \<noteq> Some n" "sh_parent h1 n = sh_parent h n" using rep m(3) by (auto simp: only_in_def)
      then show ?thesis using replace_fields(3) [OF m(3) p(2) rep, of b n] assms(3) n by (simp add: p(1))
    qed
    ultimately show ?thesis using replace_ok [OF assms(1,2) False b m(2,3)] by blast
  qed
qed

section \<open>The order of the heap\<close>

fun heap_ordered :: "(nat \<Rightarrow> nat) \<Rightarrow> nat tree \<Rightarrow> bool" where
  "heap_ordered key Leaf \<longleftrightarrow> True"
| "heap_ordered key (Node l x r) \<longleftrightarrow> (\<forall>y \<in> set_tree l \<union> set_tree r. key x \<le> key y) \<and> heap_ordered key l \<and> heap_ordered key r"

definition compares :: "compare_f \<Rightarrow> (nat \<Rightarrow> nat) \<Rightarrow> nat set \<Rightarrow> bool" where
  "compares cmp key U \<longleftrightarrow> (\<forall>x \<in> U. \<forall>y \<in> U. cmp x y = - 1 \<longleftrightarrow> key x < key y)"

lemma tmerge_ordered:
  assumes "compares cmp key U" "set_tree t \<union> set_tree u \<subseteq> U" "heap_ordered key t" "heap_ordered key u"
  shows "heap_ordered key (tmerge cmp t u)"
  using assms
proof (induction cmp t u rule: tmerge.induct)
  case (3 cmp l x r l' y r')
  then have c: "cmp x y = - 1 \<longleftrightarrow> key x < key y" by (auto simp: compares_def)
  show ?case
  proof (cases "cmp x y = - 1")
    case True
    then have "heap_ordered key (tmerge cmp r (Node l' y r'))" using 3 by auto
    moreover have "key x \<le> key z" if "z \<in> set_tree (Node l' y r')" for z
      using that c True 3(6) by (auto intro: order.trans [OF less_imp_le])
    ultimately show ?thesis using True 3(5) by auto
  next
    case False
    then have "heap_ordered key (tmerge cmp (Node l x r) r')" using 3 by auto
    moreover have "key y \<le> key z" if "z \<in> set_tree (Node l x r)" for z
    proof -
      have "key y \<le> key x" using c False by simp
      moreover have "key x \<le> key z" using that 3(5) by auto
      ultimately show ?thesis by simp
    qed
    ultimately show ?thesis using False 3(6) by auto
  qed
qed auto

lemma trem_ordered:
  assumes "compares cmp key U" "is_tree h a t" "set_tree t \<subseteq> U" "heap_ordered key t"
  shows "heap_ordered key (trem cmp b t)"
  using assms(2-4)
proof (induction t arbitrary: a)
  case (Node l x r)
  show ?case
  proof (cases "x = b")
    case True
    then show ?thesis using tmerge_ordered [OF assms(1), of l r] Node.prems by simp
  next
    case False
    have t: "is_tree h (sh_left h x) l" "is_tree h (sh_right h x) r" using Node.prems(1) by auto
    show ?thesis using False Node.IH(1) [OF t(1)] Node.IH(2) [OF t(2)] Node.prems set_trem [OF t(1)] set_trem [OF t(2)] by auto
  qed
qed simp

section \<open>Pools with priorities\<close>

text \<open>What a scheduler with priorities asks of its pool; \<open>pool s A\<close> says that \<open>s\<close> holds the elements \<open>A\<close>.\<close>

fun pool_all :: "(nat \<Rightarrow> 's \<Rightarrow> 's option) \<Rightarrow> nat list \<Rightarrow> 's \<Rightarrow> 's option" where
  "pool_all f [] s = Some s"
| "pool_all f (x # xs) s = do { s \<leftarrow> f x s; pool_all f xs s }"

fun pool_drain :: "('s \<Rightarrow> nat option) \<Rightarrow> (nat \<Rightarrow> 's \<Rightarrow> 's option) \<Rightarrow> nat \<Rightarrow> 's \<Rightarrow> nat list option" where
  "pool_drain peek rem 0 s = Some []"
| "pool_drain peek rem (Suc k) s =
     (case peek s of None \<Rightarrow> Some [] | Some x \<Rightarrow> do { s \<leftarrow> rem x s; xs \<leftarrow> pool_drain peek rem k s; Some (x # xs) })"

locale priority_pool =
  fixes pool :: "'s \<Rightarrow> nat set \<Rightarrow> bool"
    and good :: "nat set"
    and ins :: "nat \<Rightarrow> 's \<Rightarrow> 's option"
    and rem :: "nat \<Rightarrow> 's \<Rightarrow> 's option"
    and peek :: "'s \<Rightarrow> nat option"
    and key :: "nat \<Rightarrow> nat"
  assumes pool_ins: "pool s A \<Longrightarrow> x \<in> good \<Longrightarrow> x \<notin> A \<Longrightarrow> \<exists>t. ins x s = Some t \<and> pool t (insert x A)"
    and pool_rem: "pool s A \<Longrightarrow> x \<in> A \<Longrightarrow> \<exists>t. rem x s = Some t \<and> pool t (A - {x})"
    and pool_none: "pool s A \<Longrightarrow> peek s = None \<longleftrightarrow> A = {}"
    and pool_top: "pool s A \<Longrightarrow> peek s = Some x \<Longrightarrow> x \<in> A \<and> (\<forall>y \<in> A. key x \<le> key y)"
begin

lemma inserts_ok:
  "pool s A \<Longrightarrow> set xs \<subseteq> good \<Longrightarrow> distinct xs \<Longrightarrow> set xs \<inter> A = {} \<Longrightarrow> \<exists>t. pool_all ins xs s = Some t \<and> pool t (A \<union> set xs)"
proof (induction xs arbitrary: s A)
  case (Cons x xs)
  then obtain t where t: "ins x s = Some t" "pool t (insert x A)" using pool_ins [of s A x] by auto
  have "\<exists>u. pool_all ins xs t = Some u \<and> pool u (insert x A \<union> set xs)" by (rule Cons.IH [OF t(2)]) (use Cons.prems in auto)
  moreover have "insert x A \<union> set xs = A \<union> set (x # xs)" by auto
  ultimately show ?case using t(1) by simp
qed simp

lemma removes_ok:
  "pool s A \<Longrightarrow> distinct xs \<Longrightarrow> set xs \<subseteq> A \<Longrightarrow> \<exists>t. pool_all rem xs s = Some t \<and> pool t (A - set xs)"
proof (induction xs arbitrary: s A)
  case (Cons x xs)
  then obtain t where t: "rem x s = Some t" "pool t (A - {x})" using pool_rem [of s A x] by auto
  have "\<exists>u. pool_all rem xs t = Some u \<and> pool u (A - {x} - set xs)" by (rule Cons.IH [OF t(2)]) (use Cons.prems in auto)
  moreover have "A - {x} - set xs = A - set (x # xs)" by auto
  ultimately show ?case using t(1) by simp
qed simp

lemma drain_sorted:
  "pool s A \<Longrightarrow> finite A \<Longrightarrow> card A = k \<Longrightarrow>
     \<exists>xs. pool_drain peek rem k s = Some xs \<and> set xs = A \<and> distinct xs \<and> sorted (map key xs)"
proof (induction k arbitrary: s A)
  case (Suc k)
  then have "A \<noteq> {}" by auto
  then obtain x where x: "peek s = Some x" using pool_none [OF Suc.prems(1)] by (cases "peek s") auto
  note m = pool_top [OF Suc.prems(1) x]
  then obtain t where t: "rem x s = Some t" "pool t (A - {x})" using pool_rem [OF Suc.prems(1)] by blast
  have "card (A - {x}) = k" "finite (A - {x})" using Suc.prems(2,3) m by simp_all
  from Suc.IH [OF t(2) this(2,1)] obtain xs where
    "pool_drain peek rem k t = Some xs" "set xs = A - {x}" "distinct xs" "sorted (map key xs)" by blast
  with x t m show ?case by (intro exI [of _ "x # xs"]) auto
qed simp

end

section \<open>Skew heaps of strides\<close>

type_synonym spool = "nat option \<times> sheap"

definition sp_insert :: "compare_f \<Rightarrow> nat \<Rightarrow> spool \<Rightarrow> spool option" where
  "sp_insert cmp b s = skew_heap_insert cmp (fst s) b (snd s)"

definition sp_remove :: "compare_f \<Rightarrow> nat \<Rightarrow> spool \<Rightarrow> spool option" where
  "sp_remove cmp b s = skew_heap_remove cmp (fst s) b (snd s)"

definition skew_pool :: "(nat \<Rightarrow> nat) \<Rightarrow> nat set \<Rightarrow> spool \<Rightarrow> nat set \<Rightarrow> bool" where
  "skew_pool key U s A \<longleftrightarrow> (\<exists>t. is_tree (snd s) (fst s) t \<and> (\<forall>n. fst s = Some n \<longrightarrow> sh_parent (snd s) n = None)
     \<and> set_tree t = A \<and> heap_ordered key t \<and> A \<subseteq> U)"

lemma skew_pool_insert:
  assumes "compares cmp key U" "skew_pool key U s A" "x \<in> U" "x \<notin> A"
  shows "\<exists>t. sp_insert cmp x s = Some t \<and> skew_pool key U t (insert x A)"
proof -
  obtain a h where s: "s = (a, h)" by (cases s)
  obtain t where t: "is_tree h a t" "\<forall>n. a = Some n \<longrightarrow> sh_parent h n = None" "set_tree t = A" "heap_ordered key t" "A \<subseteq> U"
    using assms(2) unfolding s skew_pool_def by auto
  let ?h = "skew_heap_init x h"
  have "agree (set_tree t) a h ?h" using assms(4) t(3) by (auto simp: agree_def skew_heap_init_def)
  then have "is_tree ?h a t" "is_tree ?h (Some x) (Node Leaf x Leaf)" using is_tree_agree t(1) by (auto simp: skew_heap_init_def)
  moreover have "set_tree t \<inter> set_tree (Node Leaf x Leaf) = {}" using assms(4) t(3) by simp
  ultimately obtain c h' where m: "skew_heap_merge cmp a (Some x) ?h = Some (c, h')" "is_tree h' c (tmerge cmp t (Node Leaf x Leaf))"
    "\<forall>n. c = Some n \<longrightarrow> (a = c \<or> Some x = c) \<and> sh_parent h' n = sh_parent ?h n"
    using merge_ok by blast
  have "heap_ordered key (tmerge cmp t (Node Leaf x Leaf))"
    by (rule tmerge_ordered [OF assms(1)]) (use assms(3) t(3-5) in auto)
  moreover have "sh_parent h' n = None" if "c = Some n" for n
    using m(3) that t(2) by (auto simp: skew_heap_init_def)
  ultimately show ?thesis
    using m(1,2) t(3,5) assms(3) by (auto simp: s sp_insert_def skew_heap_insert_def skew_pool_def)
qed

lemma skew_pool_remove:
  assumes "compares cmp key U" "skew_pool key U s A" "x \<in> A"
  shows "\<exists>t. sp_remove cmp x s = Some t \<and> skew_pool key U t (A - {x})"
proof -
  obtain a h where s: "s = (a, h)" by (cases s)
  obtain t where t: "is_tree h a t" "\<forall>n. a = Some n \<longrightarrow> sh_parent h n = None" "set_tree t = A" "heap_ordered key t" "A \<subseteq> U"
    using assms(2) unfolding s skew_pool_def by auto
  obtain c h' where r: "skew_heap_remove cmp a x h = Some (c, h')" "is_tree h' c (trem cmp x t)"
    "\<forall>n. c = Some n \<longrightarrow> sh_parent h' n = None"
    using remove_ok [OF t(1) _ t(2), of x cmp] assms(3) t(3) by blast
  have "heap_ordered key (trem cmp x t)" by (rule trem_ordered [OF assms(1) t(1)]) (use t(3-5) in auto)
  moreover have "set_tree (trem cmp x t) = A - {x}" using set_trem [OF t(1)] t(3) by simp
  ultimately show ?thesis using r t(5) by (auto simp: s sp_remove_def skew_pool_def)
qed

lemma skew_pool_top:
  assumes "skew_pool key U s A"
  shows "fst s = None \<longleftrightarrow> A = {}" "fst s = Some x \<Longrightarrow> x \<in> A \<and> (\<forall>y \<in> A. key x \<le> key y)"
proof -
  obtain t where t: "is_tree (snd s) (fst s) t" "set_tree t = A" "heap_ordered key t" using assms by (auto simp: skew_pool_def)
  then show "fst s = None \<longleftrightarrow> A = {}" by (cases t) auto
  show "x \<in> A \<and> (\<forall>y \<in> A. key x \<le> key y)" if "fst s = Some x" using t that by (cases t) auto
qed

text \<open>Strides whose distances to \<open>base\<close> are below \<open>2^31\<close> are compared right, also when they wrap around.\<close>

definition stride_window :: "(nat \<Rightarrow> u32) \<Rightarrow> u32 \<Rightarrow> (nat \<Rightarrow> nat) \<Rightarrow> nat set" where
  "stride_window stride base d = {n. stride n = base + word_of_nat (d n) \<and> d n < 2 ^ 31}"

lemma stride_compares: "compares (proc_stride_comp_f stride) d (stride_window stride base d)"
  unfolding compares_def
proof (intro ballI)
  fix x y
  assume xy: "x \<in> stride_window stride base d" "y \<in> stride_window stride base d"
  then have e: "stride x - stride y = word_of_int (int (d x) - int (d y))" by (simp add: stride_window_def)
  moreover have "signed_take_bit 31 (int (d x) - int (d y)) = int (d x) - int (d y)"
    by (rule signed_take_bit_int_eq_self) (use xy in \<open>simp_all add: stride_window_def\<close>)
  ultimately have "sint (stride x - stride y) = int (d x) - int (d y)" unfolding e by (subst signed_of_int) simp
  then show "proc_stride_comp_f stride x y = - 1 \<longleftrightarrow> d x < d y" by (simp add: proc_stride_comp_f_def Let_def)
qed

interpretation stride_pool: priority_pool "skew_pool d (stride_window stride base d)" "stride_window stride base d"
  "sp_insert (proc_stride_comp_f stride)" "sp_remove (proc_stride_comp_f stride)" fst d for stride base d
proof unfold_locales
  fix s :: spool and A x
  assume p: "skew_pool d (stride_window stride base d) s A"
  show "fst s = None \<longleftrightarrow> A = {}" "fst s = Some x \<Longrightarrow> x \<in> A \<and> (\<forall>y \<in> A. d x \<le> d y)"
    using skew_pool_top [OF p] by simp_all
  show "x \<in> A \<Longrightarrow> \<exists>t. sp_remove (proc_stride_comp_f stride) x s = Some t \<and> skew_pool d (stride_window stride base d) t (A - {x})"
    by (rule skew_pool_remove [OF stride_compares p])
  show "x \<in> stride_window stride base d \<Longrightarrow> x \<notin> A \<Longrightarrow>
      \<exists>t. sp_insert (proc_stride_comp_f stride) x s = Some t \<and> skew_pool d (stride_window stride base d) t (insert x A)"
    by (rule skew_pool_insert [OF stride_compares p])
qed

text \<open>C36: processes put into an empty skew heap by their strides, of which any are removed again, come out
  in the order of their strides, each once, when the root is removed again and again; the order is right
  also when strides have wrapped around at 32 bits, as long as they lie within \<open>2^31\<close> of each other.\<close>

theorem stride_heap_orders:
  assumes "distinct bs" "set bs \<subseteq> stride_window stride base d" "distinct cs" "set cs \<subseteq> set bs"
  shows "\<exists>s t xs. pool_all (sp_insert (proc_stride_comp_f stride)) bs (None, h) = Some s
    \<and> pool_all (sp_remove (proc_stride_comp_f stride)) cs s = Some t
    \<and> pool_drain fst (sp_remove (proc_stride_comp_f stride)) (length bs - length cs) t = Some xs
    \<and> set xs = set bs - set cs \<and> distinct xs \<and> sorted (map d xs)"
proof -
  have e: "skew_pool d (stride_window stride base d) (None, h) {}" by (simp add: skew_pool_def)
  obtain s where s: "pool_all (sp_insert (proc_stride_comp_f stride)) bs (None, h) = Some s"
    "skew_pool d (stride_window stride base d) s (set bs)"
    using stride_pool.inserts_ok [OF e assms(2,1)] by auto
  obtain t where t: "pool_all (sp_remove (proc_stride_comp_f stride)) cs s = Some t"
    "skew_pool d (stride_window stride base d) t (set bs - set cs)"
    using stride_pool.removes_ok [OF s(2) assms(3,4)] by blast
  have "card (set bs - set cs) = length bs - length cs"
    using assms by (simp add: card_Diff_subset distinct_card)
  then obtain xs where "pool_drain fst (sp_remove (proc_stride_comp_f stride)) (length bs - length cs) t = Some xs"
    "set xs = set bs - set cs" "distinct xs" "sorted (map d xs)"
    using stride_pool.drain_sorted [OF t(2)] by blast
  with s(1) t(1) show ?thesis by blast
qed

text \<open>Process 1 has wrapped around and is behind process 2.\<close>

definition demo_dist :: "nat \<Rightarrow> nat" where
  "demo_dist n = (if n = 1 then 0x20 else n)"

definition demo_stride :: "nat \<Rightarrow> u32" where
  "demo_stride n = 0xFFFFFFF0 + word_of_nat (demo_dist n)"

definition demo_heap0 :: sheap where
  "demo_heap0 = \<lparr>sh_parent = (\<lambda>_. None), sh_left = (\<lambda>_. None), sh_right = (\<lambda>_. None)\<rparr>"

theorem stride_heap_orders_witness:
  "\<exists>s t. pool_all (sp_insert (proc_stride_comp_f demo_stride)) [1, 2, 3] (None, demo_heap0) = Some s
     \<and> pool_all (sp_remove (proc_stride_comp_f demo_stride)) [3] s = Some t
     \<and> pool_drain fst (sp_remove (proc_stride_comp_f demo_stride)) 2 t = Some [2, 1]"
proof -
  have w: "set [1, 2, 3] \<subseteq> stride_window demo_stride 0xFFFFFFF0 demo_dist"
    by (simp add: stride_window_def demo_stride_def demo_dist_def)
  have l: "length [1, 2, 3 :: nat] - length [3 :: nat] = 2" "set [1, 2, 3] - set [3] = {1, 2 :: nat}" by auto
  have "distinct [1, 2, 3 :: nat]" "distinct [3 :: nat]" "set [3] \<subseteq> set [1, 2, 3 :: nat]" by simp_all
  note o = stride_heap_orders [OF this(1) w this(2,3), of demo_heap0, unfolded l]
  then obtain s t xs where x: "pool_all (sp_insert (proc_stride_comp_f demo_stride)) [1, 2, 3] (None, demo_heap0) = Some s"
    "pool_all (sp_remove (proc_stride_comp_f demo_stride)) [3] s = Some t"
    "pool_drain fst (sp_remove (proc_stride_comp_f demo_stride)) 2 t = Some xs"
    "set xs = {1, 2}" "distinct xs" "sorted (map demo_dist xs)" by blast
  have "length xs = 2" using x(4,5) distinct_card [of xs] by simp
  then obtain p q where "xs = [p, q]" by (auto simp: numeral_2_eq_2 length_Suc_conv)
  with x(4-6) have "xs = [2, 1]" by (auto simp: doubleton_eq_iff demo_dist_def split: if_splits)
  with x(1-3) show ?thesis by blast
qed

end
