(* ===== verification/Rand.thy ===== *)
theory Rand
  imports Prelude
begin

text \<open>
  \<open>lab8/libs/rand.c\<close>: a linear congruential generator of 48 bits. The state is the variable \<open>next\<close>.
\<close>

definition RAND_MAX :: u64 where "RAND_MAX = 2147483647"

text \<open>
  The macro \<open>do_div\<close> of \<open>riscv.h\<close> does not put its argument \<open>base\<close> in parentheses: for \<open>RAND_MAX + 1\<close> its
  \<open>n % (unsigned)base\<close> reads \<open>n % (unsigned)RAND_MAX + 1\<close>, the remainder by \<open>RAND_MAX\<close> and one added. The
  result is cut to an \<open>int\<close>.
\<close>

definition rand :: "u64 \<Rightarrow> int \<times> u64" where
  "rand nxt =
     (let nxt = (nxt * 0x5DEECE66D + 0xB) AND (push_bit 48 1 - 1);
          res = drop_bit 12 nxt mod ucast (ucast RAND_MAX :: u32) + 1
      in (sint (ucast res :: u32), nxt))"

definition srand :: "u32 \<Rightarrow> u64" where
  "srand seed = ucast seed"

text \<open>The result is never 0, lies below \<open>RAND_MAX\<close> or is it, and the state keeps to 48 bits.\<close>

lemma rand_result:
  fixes n :: u64
  defines "r \<equiv> ucast (n mod 2147483647 + 1) :: u32"
  shows "sint r = uint (n mod 2147483647) + 1" and "uint (n mod 2147483647) < 2147483647"
proof -
  show m: "uint (n mod 2147483647) < 2147483647" by (simp add: uint_mod)
  have m0: "0 \<le> uint (n mod 2147483647)" by simp
  have a: "uint (n mod 2147483647 + 1) = uint (n mod 2147483647) + 1"
    using m m0 by (simp add: uint_word_ariths)
  have u: "uint r = uint (n mod 2147483647) + 1"
    unfolding r_def unsigned_ucast_eq a using m m0 by (simp add: take_bit_int_eq_self)
  have "signed_take_bit 31 (uint r) = uint r"
    unfolding u by (rule signed_take_bit_int_eq_self) (use m m0 in simp_all)
  then show "sint r = uint (n mod 2147483647) + 1" using u by (simp add: sint_uint)
qed

lemma rand_range: "0 < fst (rand s) \<and> fst (rand s) \<le> uint RAND_MAX"
proof -
  define t where "t = drop_bit 12 ((s * 0x5DEECE66D + 0xB) AND (push_bit 48 1 - 1))"
  have "fst (rand s) = sint (ucast (t mod 2147483647 + 1) :: u32)"
    by (simp add: rand_def Let_def t_def RAND_MAX_def)
  then show ?thesis using rand_result [of t] by (simp add: RAND_MAX_def)
qed

lemma rand_state: "snd (rand s) < 2 ^ 48"
proof -
  have "snd (rand s) = take_bit 48 (s * 0x5DEECE66D + 0xB)"
    by (simp add: rand_def Let_def take_bit_eq_mask mask_eq_exp_minus_1 push_bit_eq_mult)
  then show ?thesis by (simp add: take_bit_eq_mod word_mod_less_divisor)
qed

end
