(* ===== verification/Buddy.thy ===== *)
theory Buddy
  imports Free_Area "HOL-Library.Monad_Syntax"
begin

text \<open>
  The buddy allocator of \<open>lab2/kern/mm/buddy_pmm.c\<close>. The array \<open>free_area\<close> has a list of free blocks
  for each order, all in one store of links; a list entry is the header of an order or the \<open>page_link\<close> of a
  page. A \<open>struct Page *\<close> is the index of its descriptor, and an access to a descriptor outside the array
  \<open>pages\<close> of \<open>b_npages\<close> entries, to an order outside \<open>free_area\<close>, or to the \<open>struct Page\<close> that a list header
  does not lie in, is \<open>None\<close>.
\<close>

datatype bnode = BHead nat | BPage nat

record buddy =
  b_pages :: "nat \<Rightarrow> page"
  b_npages :: nat
  b_links :: "bnode links"
  b_nr :: "nat \<Rightarrow> u32"

definition MAX_ORDER :: nat where "MAX_ORDER = 11"

definition IS_POWER_OF_2 :: "u64 \<Rightarrow> bool" where
  "IS_POWER_OF_2 x \<longleftrightarrow> x AND (x - 1) = 0"

definition b_page :: "nat \<Rightarrow> buddy \<Rightarrow> page option" where
  "b_page p s = (if p < b_npages s then Some (b_pages s p) else None)"

definition b_upd :: "nat \<Rightarrow> (page \<Rightarrow> page) \<Rightarrow> buddy \<Rightarrow> buddy option" where
  "b_upd p f s = (if p < b_npages s then Some (s\<lparr>b_pages := (b_pages s)(p := f (b_pages s p))\<rparr>) else None)"

definition b_link :: "(bnode links \<Rightarrow> bnode links) \<Rightarrow> buddy \<Rightarrow> buddy" where
  "b_link f s = s\<lparr>b_links := f (b_links s)\<rparr>"

definition b_count :: "nat \<Rightarrow> (u32 \<Rightarrow> u32) \<Rightarrow> buddy \<Rightarrow> buddy" where
  "b_count i f s = s\<lparr>b_nr := (b_nr s)(i := f (b_nr s i))\<rparr>"

text \<open>\<open>le2page\<close>: only the \<open>page_link\<close> of a page lies in a page.\<close>

fun b_le2page :: "bnode \<Rightarrow> nat option" where
  "b_le2page (BPage p) = Some p"
| "b_le2page (BHead i) = None"

section \<open>Setting up\<close>

fun buddy_init_loop :: "nat list \<Rightarrow> buddy \<Rightarrow> buddy" where
  "buddy_init_loop [] s = s"
| "buddy_init_loop (i # is) s = buddy_init_loop is (b_count i (\<lambda>_. 0) (b_link (list_init (BHead i)) s))"

definition buddy_system_init :: "buddy \<Rightarrow> buddy" where
  "buddy_system_init s = buddy_init_loop [0..<MAX_ORDER] s"

text \<open>The loop that checks and resets the descriptors.\<close>

fun buddy_init_pages :: "nat \<Rightarrow> nat \<Rightarrow> buddy \<Rightarrow> buddy option" where
  "buddy_init_pages p 0 s = Some s"
| "buddy_init_pages p (Suc k) s = do {
     d \<leftarrow> b_page p s;
     if PageReserved d
     then do { s \<leftarrow> b_upd p (\<lambda>d. d\<lparr>pg_flags := 0, pg_property := 0, pg_ref := 0\<rparr>) s; buddy_init_pages (Suc p) k s }
     else None }"

text \<open>\<open>while (order > 0 && curr_size < order_size)\<close>.\<close>

fun buddy_shrink :: "u64 \<Rightarrow> nat \<Rightarrow> u32 \<Rightarrow> nat \<times> u32" where
  "buddy_shrink cur 0 sz = (0, sz)"
| "buddy_shrink cur (Suc k) sz =
     (if cur < ucast sz then buddy_shrink cur k (drop_bit 1 sz) else (Suc k, sz))"

text \<open>
  \<open>while (curr_size != 0)\<close>: \<open>curr_size -= order_size\<close> wraps around where the region is too small, and the
  pointer advances by the order that the next block has.
\<close>

definition buddy_put :: "nat \<Rightarrow> nat \<Rightarrow> u32 \<Rightarrow> buddy \<Rightarrow> buddy option" where
  "buddy_put p order sz s = do {
     s \<leftarrow> b_upd p (\<lambda>d. SetPageProperty (d\<lparr>pg_property := unat sz\<rparr>)) s;
     Some (b_link (list_add_before (BHead order) (BPage p)) (b_count order (\<lambda>c. c + 1) s)) }"

partial_function (option) buddy_init_blocks :: "nat \<Rightarrow> u64 \<Rightarrow> nat \<Rightarrow> u32 \<Rightarrow> buddy \<Rightarrow> buddy option" where
  "buddy_init_blocks p cur order sz s =
     (if cur = 0 then Some s
      else do {
        s \<leftarrow> buddy_put p order sz s;
        let cur = cur - ucast sz;
        let (order, sz) = buddy_shrink cur order sz;
        buddy_init_blocks (p + unat sz) cur order sz s })"

declare buddy_init_blocks.simps [code]

definition buddy_system_init_memmap :: "nat \<Rightarrow> u64 \<Rightarrow> buddy \<Rightarrow> buddy option" where
  "buddy_system_init_memmap base n s =
     (if n = 0 then None
      else do {
        s \<leftarrow> buddy_init_pages base (unat n) s;
        buddy_init_blocks base n (MAX_ORDER - 1) (push_bit (MAX_ORDER - 1) 1) s })"

section \<open>Allocating\<close>

text \<open>The rest of \<open>split_page\<close>, when the list of this order has a block.\<close>

definition split_first :: "nat \<Rightarrow> buddy \<Rightarrow> buddy option" where
  "split_first order s = do {
     page \<leftarrow> b_le2page (list_next (BHead order) (b_links s));
     let s = b_count order (\<lambda>c. c - 1) (b_link (list_del (BPage page)) s);
     let n = (2 :: nat) ^ (order - 1);
     let p = page + n;
     s \<leftarrow> b_upd page (\<lambda>d. d\<lparr>pg_property := n\<rparr>) s;
     s \<leftarrow> b_upd p (\<lambda>d. SetPageProperty (d\<lparr>pg_property := n\<rparr>)) s;
     Some (b_count (order - 1) (\<lambda>c. c + 2)
       (b_link (list_add (BPage page) (BPage p)) (b_link (list_add (BHead (order - 1)) (BPage page)) s))) }"

function split_page :: "nat \<Rightarrow> buddy \<Rightarrow> buddy option" where
  "split_page order s =
     (if order = 0 \<or> MAX_ORDER \<le> order then None
      else if list_empty (BHead order) (b_links s)
      then do { s \<leftarrow> split_page (order + 1) s; split_first order s }
      else split_first order s)"
  by auto

termination by (relation "measure (\<lambda>(order, s). MAX_ORDER - order)") auto

declare split_page.simps [simp del]

text \<open>\<open>while (n < (1 << order)) order -= 1\<close>, for \<open>n\<close> above 0.\<close>

fun alloc_order :: "nat \<Rightarrow> nat \<Rightarrow> nat" where
  "alloc_order n 0 = 0"
| "alloc_order n (Suc k) = (if n < 2 ^ Suc k then alloc_order n k else Suc k)"

definition buddy_system_alloc_pages :: "nat \<Rightarrow> buddy \<Rightarrow> (nat option \<times> buddy) option" where
  "buddy_system_alloc_pages n s =
     (if n = 0 then None
      else if n > 2 ^ (MAX_ORDER - 1) then Some (None, s)
      else
        let order = alloc_order n (MAX_ORDER - 1) + 1
        in if sum_list (map (b_nr s) [order..<MAX_ORDER]) = 0 then Some (None, s)
           else do {
             s \<leftarrow> (if list_empty (BHead order) (b_links s) then split_page (order + 1) s else Some s);
             if list_empty (BHead order) (b_links s) then Some (None, s)
             else do {
               page \<leftarrow> b_le2page (list_next (BHead order) (b_links s));
               s \<leftarrow> b_upd page ClearPageProperty (b_link (list_del (BPage page)) s);
               Some (Some page, s) }})"

section \<open>Freeing\<close>

partial_function (option) add_page_loop :: "nat \<Rightarrow> bnode \<Rightarrow> nat \<Rightarrow> bnode links \<Rightarrow> bnode links option" where
  "add_page_loop order le base lk =
     (let le = list_next le lk in
      if le = BHead order then Some lk
      else do {
        page \<leftarrow> b_le2page le;
        if base < page then Some (list_add_before le (BPage base) lk)
        else if list_next le lk = BHead order then add_page_loop order le base (list_add le (BPage base) lk)
        else add_page_loop order le base lk })"

declare add_page_loop.simps [code]

definition add_page :: "nat \<Rightarrow> nat \<Rightarrow> buddy \<Rightarrow> buddy option" where
  "add_page order base s =
     (if MAX_ORDER \<le> order then None
      else do {
        lk \<leftarrow> (if list_empty (BHead order) (b_links s) then Some (list_add (BHead order) (BPage base) (b_links s))
              else add_page_loop order (BHead order) base (b_links s));
        Some (s\<lparr>b_links := lk\<rparr>) })"

text \<open>The block in front joins \<open>base\<close> and becomes \<open>base\<close>; the block behind joins it.\<close>

definition merge_before :: "nat \<Rightarrow> nat \<Rightarrow> buddy \<Rightarrow> (nat \<times> buddy) option" where
  "merge_before order base s =
     (let le = list_prev (BPage base) (b_links s) in
      if le = BHead order then Some (base, s)
      else do {
        p \<leftarrow> b_le2page le;
        d \<leftarrow> b_page p s;
        if p + pg_property d = base
        then do {
          e \<leftarrow> b_page base s;
          s \<leftarrow> b_upd p (\<lambda>d. d\<lparr>pg_property := pg_property d + pg_property e\<rparr>) s;
          s \<leftarrow> b_upd base ClearPageProperty s;
          let s = b_link (list_del (BPage base)) s;
          s \<leftarrow> add_page (order + 1) p (b_link (list_del (BPage p)) s);
          Some (p, s) }
        else Some (base, s) })"

definition merge_behind :: "nat \<Rightarrow> nat \<Rightarrow> buddy \<Rightarrow> buddy option" where
  "merge_behind order base s =
     (let le = list_next (BPage base) (b_links s) in
      if le = BHead order then Some s
      else do {
        p \<leftarrow> b_le2page le;
        d \<leftarrow> b_page base s;
        if base + pg_property d = p
        then do {
          e \<leftarrow> b_page p s;
          s \<leftarrow> b_upd base (\<lambda>d. d\<lparr>pg_property := pg_property d + pg_property e\<rparr>) s;
          s \<leftarrow> b_upd p ClearPageProperty s;
          let s = b_link (list_del (BPage p)) s;
          add_page (order + 1) base (b_link (list_del (BPage base)) s) }
        else Some s })"

function merge_page :: "nat \<Rightarrow> nat \<Rightarrow> buddy \<Rightarrow> buddy option" where
  "merge_page order base s =
     (if MAX_ORDER \<le> order then None
      else if order = MAX_ORDER - 1 then Some s
      else do {
        (b, s) \<leftarrow> merge_before order base s;
        s \<leftarrow> merge_behind order b s;
        merge_page (order + 1) b s })"
  by auto

termination by (relation "measure (\<lambda>(order, base, s). MAX_ORDER - order)") (auto simp: MAX_ORDER_def)

declare merge_page.simps [simp del]

fun buddy_clear_pages :: "nat \<Rightarrow> nat \<Rightarrow> buddy \<Rightarrow> buddy option" where
  "buddy_clear_pages p 0 s = Some s"
| "buddy_clear_pages p (Suc k) s = do {
     d \<leftarrow> b_page p s;
     if \<not> PageReserved d \<and> \<not> PageProperty d
     then do { s \<leftarrow> b_upd p (\<lambda>d. d\<lparr>pg_flags := 0, pg_ref := 0\<rparr>) s; buddy_clear_pages (Suc p) k s }
     else None }"

text \<open>\<open>while (temp != 1) { temp >>= 1; order++; }\<close>, for \<open>temp\<close> above 0.\<close>

function free_order :: "nat \<Rightarrow> nat" where
  "free_order temp = (if temp \<le> 1 then 0 else Suc (free_order (temp div 2)))"
  by auto

termination by (relation "measure id") auto

declare free_order.simps [simp del]

definition buddy_system_free_pages :: "nat \<Rightarrow> nat \<Rightarrow> buddy \<Rightarrow> buddy option" where
  "buddy_system_free_pages base n s =
     (if n = 0 \<or> \<not> IS_POWER_OF_2 (of_nat n) \<or> 2 ^ (MAX_ORDER - 1) \<le> n then None
      else do {
        s \<leftarrow> buddy_clear_pages base n s;
        s \<leftarrow> b_upd base (\<lambda>d. SetPageProperty (d\<lparr>pg_property := n\<rparr>)) s;
        let order = free_order n;
        s \<leftarrow> add_page order base s;
        merge_page order base s })"

text \<open>\<open>num += nr_free(i) << i\<close>: the shift is of 32 bits, the sum of 64.\<close>

definition buddy_system_nr_free_pages :: "buddy \<Rightarrow> u64" where
  "buddy_system_nr_free_pages s = sum_list (map (\<lambda>i. ucast (push_bit i (b_nr s i))) [0..<MAX_ORDER])"

end
