(* ===== verification/Buddy_Facts.thy ===== *)
theory Buddy_Facts
  imports Buddy
begin

text \<open>
  What the buddy allocator does to its lists of free blocks: the lists of all orders in one store, the
  well-formed allocator, splitting and allocating, and registering a region.
\<close>

section \<open>Lists that share a store\<close>

lemma dl_closed:
  assumes "dl h g ys" "a \<in> set (g # ys)"
  shows "nxt h a \<in> set (g # ys) \<and> prv h a \<in> set (g # ys)"
proof (cases "a = g")
  case True
  then show ?thesis using assms(1) by (auto simp: dl_nxt_head dl_prv_head split: list.splits)
next
  case False
  with assms(2) obtain us vs where y: "ys = us @ a # vs" by (auto dest: split_list)
  show ?thesis using dl_nxt_elem [OF assms(1) [unfolded y]] dl_prv_elem [OF assms(1) [unfolded y]]
    by (auto simp: y split: list.splits)
qed

lemma dl_add_other:
  assumes "dl h hdr xs" "dl h g ys" "set (hdr # xs) \<inter> set (g # ys) = {}" "e \<notin> set (hdr # xs)" "a \<in> set (g # ys)"
  shows "dl (list_add a e h) hdr xs" and "dl (list_add_before a e h) hdr xs"
  using dl_closed [OF assms(2,5)] assms(3-5)
  by (auto intro!: dl_frame [OF assms(1)] simp: list_ops_defs Let_def)

lemma dl_del_other:
  assumes "dl h hdr xs" "dl h g ys" "set (hdr # xs) \<inter> set (g # ys) = {}" "a \<in> set (g # ys)"
  shows "dl (list_del a h) hdr xs"
  using dl_closed [OF assms(2,4)] assms(3)
  by (auto intro!: dl_frame [OF assms(1)] simp: list_ops_defs Let_def)

lemma dl_unique:
  assumes "dl h g xs" "dl h g ys"
  shows "xs = ys"
proof -
  have "xs = ys" if "seg h p xs g" "seg h p ys g" "g \<notin> set xs" "g \<notin> set ys" for p
    using that
  proof (induction xs arbitrary: p ys)
    case Nil
    then show ?case by (cases ys) auto
  next
    case (Cons x xs)
    then show ?case by (cases ys) auto
  qed
  then show ?thesis using assms by (auto simp: dl_def)
qed

definition blists :: "bnode links \<Rightarrow> (nat \<Rightarrow> nat list) \<Rightarrow> bool" where
  "blists lk L \<longleftrightarrow> (\<forall>i<MAX_ORDER. dl lk (BHead i) (map BPage (L i)))
     \<and> (\<forall>i<MAX_ORDER. \<forall>j<MAX_ORDER. i \<noteq> j \<longrightarrow> set (L i) \<inter> set (L j) = {})"

definition listed :: "(nat \<Rightarrow> nat list) \<Rightarrow> nat set" where
  "listed L = (\<Union>i<MAX_ORDER. set (L i))"

lemma blists_dl: "blists lk L \<Longrightarrow> i < MAX_ORDER \<Longrightarrow> dl lk (BHead i) (map BPage (L i))"
  by (simp add: blists_def)

lemma blists_sep:
  assumes "blists lk L" "i < MAX_ORDER" "j < MAX_ORDER" "i \<noteq> j"
  shows "set (BHead j # map BPage (L j)) \<inter> set (BHead i # map BPage (L i)) = {}"
  using assms unfolding blists_def by auto

text \<open>A change of one list, which leaves the others as they are.\<close>

lemma blists_upd:
  assumes "blists lk L" "i < MAX_ORDER" "dl lk' (BHead i) (map BPage xs)"
    and "\<And>j. j < MAX_ORDER \<Longrightarrow> j \<noteq> i \<Longrightarrow> dl lk' (BHead j) (map BPage (L j))"
    and "\<And>j. j < MAX_ORDER \<Longrightarrow> j \<noteq> i \<Longrightarrow> set xs \<inter> set (L j) = {}"
  shows "blists lk' (L(i := xs))"
  unfolding blists_def
proof (intro conjI allI impI)
  show "dl lk' (BHead j) (map BPage ((L(i := xs)) j))" if "j < MAX_ORDER" for j
    using assms(3,4) that by (cases "j = i") simp_all
  show "set ((L(i := xs)) j) \<inter> set ((L(i := xs)) k) = {}" if "j < MAX_ORDER" "k < MAX_ORDER" "j \<noteq> k" for j k
  proof (cases "j = i \<or> k = i")
    case True
    then show ?thesis using that assms(5) [of j] assms(5) [of k] by (elim disjE) (simp_all add: Int_commute)
  next
    case False
    then show ?thesis using that assms(1) by (simp add: blists_def)
  qed
qed

lemma listedI: "i < MAX_ORDER \<Longrightarrow> x \<in> set (L i) \<Longrightarrow> x \<in> listed L"
  by (auto simp: listed_def)

lemma blists_del:
  assumes b: "blists lk L" "i < MAX_ORDER" and s: "L i = xs @ x # ys"
  shows "blists (list_del (BPage x) lk) (L(i := xs @ ys))"
proof (rule blists_upd [OF b])
  show "dl (list_del (BPage x) lk) (BHead i) (map BPage (xs @ ys))"
    using dl_del [of lk "BHead i" "map BPage xs" "BPage x" "map BPage ys"] blists_dl [OF b] by (simp add: s)
  show "dl (list_del (BPage x) lk) (BHead j) (map BPage (L j))" if j: "j < MAX_ORDER" "j \<noteq> i" for j
  proof (rule dl_del_other [OF blists_dl [OF b(1) j(1)] blists_dl [OF b] blists_sep [OF b j(1) j(2) [symmetric]]])
    show "BPage x \<in> set (BHead i # map BPage (L i))" by (simp add: s)
  qed
  show "set (xs @ ys) \<inter> set (L j) = {}" if j: "j < MAX_ORDER" "j \<noteq> i" for j
  proof -
    have "set (L i) \<inter> set (L j) = {}" using b j by (simp add: blists_def)
    then show ?thesis by (auto simp: s)
  qed
qed

lemma blists_add:
  assumes b: "blists lk L" "i < MAX_ORDER" and x: "x \<notin> listed L"
  shows blists_add_front: "blists (list_add (BHead i) (BPage x) lk) (L(i := x # L i))"
    and blists_add_back: "blists (list_add_before (BHead i) (BPage x) lk) (L(i := L i @ [x]))"
    and blists_add_behind: "L i = us @ y # vs \<Longrightarrow> blists (list_add (BPage y) (BPage x) lk) (L(i := us @ y # x # vs))"
    and blists_add_before: "L i = us @ y # vs \<Longrightarrow> blists (list_add_before (BPage y) (BPage x) lk) (L(i := us @ x # y # vs))"
proof -
  have xi: "BPage x \<notin> set (BHead j # map BPage (L j))" if "j < MAX_ORDER" for j
    using x that by (auto simp: listed_def)
  have o: "dl (list_add a (BPage x) lk) (BHead j) (map BPage (L j))
      \<and> dl (list_add_before a (BPage x) lk) (BHead j) (map BPage (L j))"
    if "j < MAX_ORDER" "j \<noteq> i" "a \<in> set (BHead i # map BPage (L i))" for j a
    using dl_add_other [OF blists_dl [OF b(1) that(1)] blists_dl [OF b] blists_sep [OF b that(1) that(2) [symmetric]] xi [OF that(1)] that(3)]
    by blast
  have d: "set (us @ x # vs) \<inter> set (L j) = {}" if "j < MAX_ORDER" "j \<noteq> i" "L i = us @ vs" for j us vs
    using b x that unfolding blists_def listed_def by (auto simp: disjoint_iff)
  note di = blists_dl [OF b]
  show "blists (list_add (BHead i) (BPage x) lk) (L(i := x # L i))"
    using dl_add_after_head [OF di xi [OF b(2)]] d [of _ "[]"] o
    by (intro blists_upd [OF b]) (auto simp: list_add_def)
  show "blists (list_add_before (BHead i) (BPage x) lk) (L(i := L i @ [x]))"
    using dl_add_before_head [OF di xi [OF b(2)]] d [of _ "L i" "[]"] o
    by (intro blists_upd [OF b]) auto
  show "blists (list_add (BPage y) (BPage x) lk) (L(i := us @ y # x # vs))" if l: "L i = us @ y # vs"
    using dl_add_after [of lk "BHead i" "map BPage us" "BPage y" "map BPage vs" "BPage x"] di xi [OF b(2)]
      d [of _ "us @ [y]" vs] o
    by (intro blists_upd [OF b]) (auto simp: list_add_def l)
  show "blists (list_add_before (BPage y) (BPage x) lk) (L(i := us @ x # y # vs))" if l: "L i = us @ y # vs"
    using dl_add_before [of lk "BHead i" "map BPage us" "BPage y" "map BPage vs" "BPage x"] di xi [OF b(2)]
      d [of _ us "y # vs"] o
    by (intro blists_upd [OF b]) (auto simp: l)
qed

lemma listed_upd:
  "i < MAX_ORDER \<Longrightarrow> listed (L(i := xs)) = set xs \<union> (\<Union>j\<in>{..<MAX_ORDER} - {i}. set (L j))"
  by (auto simp: listed_def split: if_splits)

lemma blists_first:
  assumes "blists lk L" "i < MAX_ORDER"
  shows "list_next (BHead i) lk = (case L i of [] \<Rightarrow> BHead i | x # _ \<Rightarrow> BPage x)"
    and "list_empty (BHead i) lk \<longleftrightarrow> L i = []"
  using dl_nxt_head [OF blists_dl [OF assms]] dl_empty_iff [OF blists_dl [OF assms]]
  by (simp_all add: list_next_def split: list.splits)

section \<open>The well-formed allocator\<close>

definition bframes :: "(nat \<Rightarrow> nat list) \<Rightarrow> nat set" where
  "bframes L = (\<Union>i<MAX_ORDER. \<Union>x\<in>set (L i). {x..<x + 2 ^ i})"

definition bdisj :: "(nat \<Rightarrow> nat list) \<Rightarrow> bool" where
  "bdisj L \<longleftrightarrow> (\<forall>i<MAX_ORDER. \<forall>j<MAX_ORDER. \<forall>x\<in>set (L i). \<forall>y\<in>set (L j). (i, x) \<noteq> (j, y) \<longrightarrow>
     {x..<x + 2 ^ i} \<inter> {y..<y + 2 ^ j} = {})"

definition bheads :: "buddy \<Rightarrow> (nat \<Rightarrow> nat list) \<Rightarrow> bool" where
  "bheads s L \<longleftrightarrow> (\<forall>i<MAX_ORDER. \<forall>x\<in>set (L i). PageProperty (b_pages s x) \<and> pg_property (b_pages s x) = 2 ^ i
     \<and> x + 2 ^ i \<le> b_npages s)"

text \<open>The counters only bound the lists, as allocation does not lower them.\<close>

definition bcounts :: "nat \<Rightarrow> buddy \<Rightarrow> (nat \<Rightarrow> nat list) \<Rightarrow> bool" where
  "bcounts N s L \<longleftrightarrow> N < 2 ^ 32 \<and> (\<Sum>i<MAX_ORDER. unat (b_nr s i) * 2 ^ i) = N
     \<and> (\<forall>i<MAX_ORDER. length (L i) \<le> unat (b_nr s i))"

definition binv :: "nat \<Rightarrow> buddy \<Rightarrow> (nat \<Rightarrow> nat list) \<Rightarrow> bool" where
  "binv N s L \<longleftrightarrow> blists (b_links s) L \<and> bdisj L \<and> (\<forall>i<MAX_ORDER. sorted (L i)) \<and> bheads s L \<and> bcounts N s L"

lemma bdisj_same:
  assumes "bdisj L" "i < MAX_ORDER" "j < MAX_ORDER" "x \<in> set (L i)" "y \<in> set (L j)"
    "p \<in> {x..<x + 2 ^ i}" "p \<in> {y..<y + 2 ^ j}"
  shows "i = j \<and> x = y"
  using assms unfolding bdisj_def by blast

lemma bdisj_listed:
  assumes "bdisj L" "i < MAX_ORDER" "x \<in> set (L i)" "p \<in> {x..<x + 2 ^ i}" "p \<in> listed L"
  shows "p = x"
proof -
  obtain j where "j < MAX_ORDER" "p \<in> set (L j)" using assms(5) by (auto simp: listed_def)
  then show ?thesis using bdisj_same [OF assms(1,2) _ assms(3) _ assms(4)] by (metis atLeastLessThan_iff less_add_same_cancel1 order_refl zero_less_numeral zero_less_power)
qed

lemma bdisj_mono:
  assumes "bdisj L" "\<And>i. i < MAX_ORDER \<Longrightarrow> set (L' i) \<subseteq> set (L i)"
  shows "bdisj L'"
  using assms unfolding bdisj_def by (meson subsetD)

lemma bframes_upd:
  assumes "i < MAX_ORDER"
  shows "bframes (L(i := xs)) = (\<Union>x\<in>set xs. {x..<x + 2 ^ i})
    \<union> (\<Union>j\<in>{..<MAX_ORDER} - {i}. \<Union>x\<in>set (L j). {x..<x + 2 ^ j})"
proof -
  have "{..<MAX_ORDER} = insert i ({..<MAX_ORDER} - {i})" using assms by auto
  then have "bframes (L(i := xs)) = (\<Union>j\<in>insert i ({..<MAX_ORDER} - {i}). \<Union>x\<in>set ((L(i := xs)) j). {x..<x + 2 ^ j})"
    unfolding bframes_def by (rule arg_cong)
  also have "\<dots> = (\<Union>x\<in>set xs. {x..<x + 2 ^ i})
    \<union> (\<Union>j\<in>{..<MAX_ORDER} - {i}. \<Union>x\<in>set ((L(i := xs)) j). {x..<x + 2 ^ j})"
    unfolding UN_insert by (simp only: fun_upd_same)
  also have "(\<Union>j\<in>{..<MAX_ORDER} - {i}. \<Union>x\<in>set ((L(i := xs)) j). {x..<x + 2 ^ j})
    = (\<Union>j\<in>{..<MAX_ORDER} - {i}. \<Union>x\<in>set (L j). {x..<x + 2 ^ j})"
    by (intro SUP_cong) auto
  finally show ?thesis .
qed

text \<open>Taking a block out of its list.\<close>

lemma bframes_del:
  assumes "bdisj L" "i < MAX_ORDER" "L i = x # xs" "distinct (L i)"
  shows "bframes (L(i := xs)) = bframes L - {x..<x + 2 ^ i}"
proof -
  have a: "bframes L = bframes (L(i := xs)) \<union> {x..<x + 2 ^ i}"
    using bframes_upd [OF assms(2), of L "L i"] bframes_upd [OF assms(2), of L xs]
    unfolding fun_upd_triv by (simp add: assms(3) Un_ac)
  have "bframes (L(i := xs)) \<inter> {x..<x + 2 ^ i} = {}"
  proof (rule ccontr)
    assume "bframes (L(i := xs)) \<inter> {x..<x + 2 ^ i} \<noteq> {}"
    then obtain j y p where y: "j < MAX_ORDER" "y \<in> set ((L(i := xs)) j)" "p \<in> {y..<y + 2 ^ j}" "p \<in> {x..<x + 2 ^ i}"
      unfolding bframes_def by blast
    then have "y \<in> set (L j)" using assms(3) by (auto split: if_splits)
    then have "i = j \<and> x = y" using bdisj_same [OF assms(1,2) y(1) _ _ y(4,3)] assms(3) by simp
    then show False using y(2) assms(3,4) by simp
  qed
  then show ?thesis using a by blast
qed

lemma binv_distinct: "binv N s L \<Longrightarrow> i < MAX_ORDER \<Longrightarrow> distinct (L i)"
  using dl_distinct [OF blists_dl, of "b_links s" L i] by (simp add: binv_def distinct_map)

section \<open>Splitting\<close>

lemma sum_two:
  fixes f g :: "nat \<Rightarrow> nat"
  assumes "finite A" "a \<in> A" "b \<in> A" "a \<noteq> b" "\<And>i. i \<in> A \<Longrightarrow> i \<noteq> a \<Longrightarrow> i \<noteq> b \<Longrightarrow> f i = g i"
    and "f a + f b = g a + g b"
  shows "sum f A = sum g A"
proof -
  have "sum h A = h a + h b + sum h (A - {a} - {b})" for h :: "nat \<Rightarrow> nat"
    using assms(1-4) by (simp add: sum.remove)
  moreover have "sum f (A - {a} - {b}) = sum g (A - {a} - {b})" using assms(5) by (intro sum.cong) auto
  ultimately show ?thesis using assms(6) by presburger
qed

lemma count_bound:
  assumes "bcounts N s L" "i < MAX_ORDER"
  shows "unat (b_nr s i) * 2 ^ i \<le> N"
  using assms member_le_sum [of i "{..<MAX_ORDER}" "\<lambda>i. unat (b_nr s i) * 2 ^ i"] by (simp add: bcounts_def)

lemma split_counts:
  assumes c: "bcounts N s L" and o: "0 < i" "i < MAX_ORDER" and l: "L i = x # xs" "L (i - 1) = []"
  shows "bcounts N (s\<lparr>b_nr := (b_nr s)(i := b_nr s i - 1, i - 1 := b_nr s (i - 1) + 2)\<rparr>) (L(i := xs, i - 1 := [x, y]))"
proof -
  obtain k where k: "i = Suc k" using o by (cases i) auto
  let ?a = "b_nr s (Suc k)" and ?b = "b_nr s k"
  let ?s = "s\<lparr>b_nr := (b_nr s)(Suc k := ?a - 1, k := ?b + 2)\<rparr>"
  have n: "N < 2 ^ 32" and sm: "(\<Sum>i<MAX_ORDER. unat (b_nr s i) * 2 ^ i) = N"
    and le: "\<And>j. j < MAX_ORDER \<Longrightarrow> length (L j) \<le> unat (b_nr s j)" using c by (auto simp: bcounts_def)
  have a1: "1 \<le> unat ?a" using le [of i] o(2) l(1) by (simp add: k)
  have two: "unat ?b * 2 ^ k + unat ?a * 2 ^ Suc k \<le> N"
  proof -
    have "sum (\<lambda>i. unat (b_nr s i) * 2 ^ i) {k, Suc k} \<le> (\<Sum>i<MAX_ORDER. unat (b_nr s i) * 2 ^ i)"
      using o(2) k by (intro sum_mono2) auto
    then show ?thesis by (simp add: sm)
  qed
  have "unat ?b * 1 + 1 * 2 \<le> unat ?b * 2 ^ k + unat ?a * 2 ^ Suc k"
    using a1 by (intro add_mono mult_le_mono) simp_all
  then have b: "unat (?b + 2) = unat ?b + 2" using n two by (simp add: unat_word_ariths)
  have a: "unat (?a - 1) = unat ?a - 1" using a1 by (simp add: unat_sub word_le_nat_alt)
  obtain m where m: "unat ?a = Suc m" using a1 by (cases "unat ?a") auto
  have "(\<Sum>i<MAX_ORDER. unat (b_nr ?s i) * 2 ^ i) = (\<Sum>i<MAX_ORDER. unat (b_nr s i) * 2 ^ i)"
    using o(2) k by (intro sum_two [of _ k "Suc k"]) (auto simp: a b m algebra_simps)
  moreover have "length ((L(i := xs, i - 1 := [x, y])) j) \<le> unat (b_nr ?s j)" if "j < MAX_ORDER" for j
    using le [OF that] l a b by (auto simp: k)
  ultimately show ?thesis using n sm by (simp add: bcounts_def k)
qed

lemmas buddy_ops = b_page_def b_upd_def b_link_def b_count_def

text \<open>A block of order \<open>Suc k\<close> gives way to its two halves.\<close>

definition halves :: "nat \<Rightarrow> nat \<Rightarrow> nat list \<Rightarrow> (nat \<Rightarrow> nat list) \<Rightarrow> nat \<Rightarrow> nat list" where
  "halves k x xs L = L(Suc k := xs, k := [x, x + 2 ^ k])"

lemma halves_block:
  assumes d: "bdisj L" and k: "Suc k < MAX_ORDER" and l: "L (Suc k) = x # xs" "distinct (x # xs)" "L k = []"
    and y: "j < MAX_ORDER" "y \<in> set (halves k x xs L j)"
  shows "(j = k \<and> (y = x \<or> y = x + 2 ^ k)) \<or> (y \<in> set (L j) \<and> y \<noteq> x \<and> y \<noteq> x + 2 ^ k)"
proof (cases "j = k")
  case True
  then show ?thesis using y by (auto simp: halves_def)
next
  case False
  then have yl: "y \<in> set (L j)" "j = Suc k \<Longrightarrow> y \<in> set xs"
    using y l(1) by (auto simp: halves_def split: if_splits)
  have "y \<notin> {x..<x + 2 ^ Suc k}"
  proof
    assume "y \<in> {x..<x + 2 ^ Suc k}"
    then have "Suc k = j \<and> x = y"
      using bdisj_same [OF d k y(1) _ yl(1), of x y] l(1) by simp
    then show False using yl(2) l(2) by simp
  qed
  then show ?thesis using yl(1) by auto
qed

lemma halves_disj:
  assumes d: "bdisj L" and k: "Suc k < MAX_ORDER" and l: "L (Suc k) = x # xs" "distinct (x # xs)" "L k = []"
  shows "bdisj (halves k x xs L)"
  unfolding bdisj_def
proof (intro allI impI ballI)
  fix i j y z
  assume ij: "i < MAX_ORDER" "j < MAX_ORDER" and yz: "y \<in> set (halves k x xs L i)" "z \<in> set (halves k x xs L j)"
    and ne: "(i, y) \<noteq> (j, z)"
  have x: "x \<in> set (L (Suc k))" using l by simp
  have old: "{a..<a + 2 ^ m} \<inter> {x..<x + 2 ^ Suc k} = {}"
    if "m < MAX_ORDER" "a \<in> set (L m)" "a \<noteq> x" for a m
    using d [unfolded bdisj_def] that k x by blast
  have half: "{a..<a + 2 ^ k} \<subseteq> {x..<x + 2 ^ Suc k}" if "a = x \<or> a = x + 2 ^ k" for a
    using that by auto
  show "{y..<y + 2 ^ i} \<inter> {z..<z + 2 ^ j} = {}"
  proof (cases "y \<in> set (L i) \<and> y \<noteq> x"; cases "z \<in> set (L j) \<and> z \<noteq> x")
    assume "y \<in> set (L i) \<and> y \<noteq> x" "z \<in> set (L j) \<and> z \<noteq> x"
    then show ?thesis using d [unfolded bdisj_def] ij ne by blast
  next
    assume "y \<in> set (L i) \<and> y \<noteq> x" "\<not> (z \<in> set (L j) \<and> z \<noteq> x)"
    then show ?thesis
      using halves_block [OF d k l ij(2) yz(2)] old [OF ij(1), of y] half [of z] by blast
  next
    assume "\<not> (y \<in> set (L i) \<and> y \<noteq> x)" "z \<in> set (L j) \<and> z \<noteq> x"
    then show ?thesis
      using halves_block [OF d k l ij(1) yz(1)] old [OF ij(2), of z] half [of y] by blast
  next
    assume "\<not> (y \<in> set (L i) \<and> y \<noteq> x)" "\<not> (z \<in> set (L j) \<and> z \<noteq> x)"
    then show ?thesis
      using halves_block [OF d k l ij(1) yz(1)] halves_block [OF d k l ij(2) yz(2)] ne by auto
  qed
qed

lemma halves_frames:
  assumes k: "Suc k < MAX_ORDER" and l: "L (Suc k) = x # xs" "L k = []"
  shows "bframes (halves k x xs L) = bframes L"
proof -
  let ?L = "L(Suc k := xs)"
  have "?L k = []" using l by simp
  have h: "{x..<x + 2 ^ k} \<union> {x + 2 ^ k..<x + 2 ^ k + 2 ^ k} = {x..<x + 2 ^ Suc k}" by auto
  have "bframes (halves k x xs L) = {x..<x + 2 ^ Suc k} \<union> bframes (?L(k := []))"
    using k bframes_upd [of k ?L "[x, x + 2 ^ k]"] bframes_upd [of k ?L "[]"] h
    by (simp add: halves_def Un_assoc [symmetric])
  also have "?L(k := []) = ?L" using \<open>?L k = []\<close> by (metis fun_upd_triv)
  also have "{x..<x + 2 ^ Suc k} \<union> bframes ?L = bframes (L(Suc k := x # xs))"
    using k bframes_upd [of "Suc k" L xs] bframes_upd [of "Suc k" L "x # xs"] by (simp add: Un_assoc)
  also have "L(Suc k := x # xs) = L" using l(1) by (metis fun_upd_triv)
  finally show ?thesis .
qed

lemma halves_lists:
  assumes b: "blists lk L" and d: "bdisj L" and k: "Suc k < MAX_ORDER" and l: "L (Suc k) = x # xs" "L k = []"
  shows "blists (list_add (BPage x) (BPage (x + 2 ^ k)) (list_add (BHead k) (BPage x) (list_del (BPage x) lk)))
    (halves k x xs L)"
proof -
  have ds: "distinct (x # xs)"
    using dl_distinct [OF blists_dl [OF b k]] by (auto simp: l(1) distinct_map)
  note blk = halves_block [OF d k l(1) ds l(2)]
  have n: "y \<noteq> x \<and> y \<noteq> x + 2 ^ k" if "j < MAX_ORDER" "y \<in> set ((L(Suc k := xs)) j)" for j y
    using blk [OF that(1), of y] that(2) l(2) by (cases "j = k") (auto simp: halves_def)
  have k': "k < MAX_ORDER" using k by simp
  have b1: "blists (list_del (BPage x) lk) (L(Suc k := xs))"
    using blists_del [OF b k, of "[]" x xs] l(1) by simp
  have "x \<notin> listed (L(Suc k := xs))" using n unfolding listed_def by blast
  note b2 = blists_add_front [OF b1 k' this]
  have e: "(L(Suc k := xs)) k = []" using l(2) by simp
  have "x + 2 ^ k \<notin> listed ((L(Suc k := xs))(k := [x]))"
  proof
    assume "x + 2 ^ k \<in> listed ((L(Suc k := xs))(k := [x]))"
    then obtain j where j: "j < MAX_ORDER" "x + 2 ^ k \<in> set (((L(Suc k := xs))(k := [x])) j)"
      by (auto simp: listed_def)
    then show False using n [OF j(1), of "x + 2 ^ k"] by (cases "j = k") simp_all
  qed
  then show ?thesis
    using blists_add_behind [OF b2 [unfolded e] k', of "x + 2 ^ k" "[]" x "[]"] by (simp add: halves_def)
qed

lemma split_first_ok:
  assumes i: "binv N s L" and k: "Suc k < MAX_ORDER" and l: "L (Suc k) = x # xs" "L k = []"
  shows "\<exists>s'. split_first (Suc k) s = Some s' \<and> binv N s' (halves k x xs L) \<and> b_npages s' = b_npages s"
proof -
  let ?n = "(2 :: nat) ^ k"
  let ?s = "s\<lparr>b_pages := (b_pages s)(x := (b_pages s x)\<lparr>pg_property := ?n\<rparr>,
      x + ?n := SetPageProperty ((b_pages s (x + ?n))\<lparr>pg_property := ?n\<rparr>)),
    b_links := list_add (BPage x) (BPage (x + ?n)) (list_add (BHead k) (BPage x) (list_del (BPage x) (b_links s))),
    b_nr := (b_nr s)(Suc k := b_nr s (Suc k) - 1, k := b_nr s k + 2)\<rparr>"
  have b: "blists (b_links s) L" and d: "bdisj L" and so: "\<And>j. j < MAX_ORDER \<Longrightarrow> sorted (L j)"
    and h: "bheads s L" and c: "bcounts N s L" using i by (simp_all add: binv_def)
  have ds: "distinct (x # xs)" using binv_distinct [OF i k] by (simp add: l)
  have x: "PageProperty (b_pages s x)" "x + 2 ^ Suc k \<le> b_npages s" using h k l(1) by (auto simp: bheads_def)
  have "x < x + 2 ^ Suc k" "x + ?n < x + 2 ^ Suc k" by simp_all
  then have np: "x < b_npages s" "x + ?n < b_npages s" using x(2) by (blast intro: less_le_trans)+
  have run: "split_first (Suc k) s = Some ?s"
    using np blists_first(1) [OF b k] by (simp add: split_first_def l(1) buddy_ops Let_def)
  have "bheads ?s (halves k x xs L)"
    unfolding bheads_def
  proof (intro allI impI ballI)
    fix j y assume j: "j < MAX_ORDER" and y: "y \<in> set (halves k x xs L j)"
    from halves_block [OF d k l(1) ds l(2) j y]
    show "PageProperty (b_pages ?s y) \<and> pg_property (b_pages ?s y) = 2 ^ j \<and> y + 2 ^ j \<le> b_npages ?s"
    proof
      assume "j = k \<and> (y = x \<or> y = x + 2 ^ k)"
      then show ?thesis using x by (auto simp: page_simps)
    next
      assume "y \<in> set (L j) \<and> y \<noteq> x \<and> y \<noteq> x + 2 ^ k"
      then show ?thesis using h j by (simp add: bheads_def)
    qed
  qed
  moreover have "sorted (halves k x xs L j)" if "j < MAX_ORDER" for j
    using so [OF that] l(1) by (auto simp: halves_def)
  moreover have "bcounts N ?s (halves k x xs L)"
    using split_counts [OF c, of "Suc k" x xs "x + ?n"] k l by (simp add: bcounts_def halves_def)
  ultimately have "binv N ?s (halves k x xs L)"
    using halves_lists [OF b d k l] halves_disj [OF d k l(1) ds l(2)] by (simp add: binv_def)
  with run show ?thesis by simp
qed

text \<open>Splitting goes up to the next order that has a block, and fills the list below.\<close>

lemma split_page_ok:
  "binv N s L \<Longrightarrow> Suc k < MAX_ORDER \<Longrightarrow> L k = [] \<Longrightarrow> \<exists>j. Suc k \<le> j \<and> j < MAX_ORDER \<and> L j \<noteq> [] \<Longrightarrow>
   \<exists>s' L'. split_page (Suc k) s = Some s' \<and> binv N s' L' \<and> bframes L' = bframes L \<and> b_npages s' = b_npages s
     \<and> L' k \<noteq> [] \<and> (\<forall>i<k. L' i = L i)"
proof (induction "MAX_ORDER - k" arbitrary: k s L rule: less_induct)
  case less
  note i = less.prems(1) and k = less.prems(2) and e = less.prems(3)
  have bl: "blists (b_links s) L" using i by (simp add: binv_def)
  have fin: "\<exists>s' L'. split_first (Suc k) t = Some s' \<and> binv N s' L' \<and> bframes L' = bframes K \<and> b_npages s' = b_npages t
     \<and> L' k \<noteq> [] \<and> (\<forall>i<k. L' i = K i)" if t: "binv N t K" "K (Suc k) \<noteq> []" "K k = []" for t K
  proof -
    obtain x xs where l: "K (Suc k) = x # xs" using t(2) by (cases "K (Suc k)") auto
    show ?thesis
      using split_first_ok [OF t(1) k l t(3)] halves_frames [OF k l t(3)]
      by (fastforce simp: halves_def)
  qed
  show ?case
  proof (cases "L (Suc k) = []")
    case False
    then have "split_page (Suc k) s = split_first (Suc k) s"
      using k blists_first(2) [OF bl k] by (subst split_page.simps) simp
    then show ?thesis using fin [OF i False e] by simp
  next
    case True
    obtain j where j: "Suc k \<le> j" "j < MAX_ORDER" "L j \<noteq> []" using less.prems(4) by blast
    have j2: "Suc (Suc k) \<le> j" using j True by (metis le_neq_implies_less Suc_leI)
    have k2: "Suc (Suc k) < MAX_ORDER" using j2 j(2) by simp
    have "MAX_ORDER - Suc k < MAX_ORDER - k" using k by simp
    from less.hyps [OF this i k2 True] j2 j(2,3) obtain t K where t: "split_page (Suc (Suc k)) s = Some t" "binv N t K"
      "bframes K = bframes L" "b_npages t = b_npages s" "K (Suc k) \<noteq> []" "\<forall>i<Suc k. K i = L i" by blast
    have "split_page (Suc k) s = split_first (Suc k) t"
      using k blists_first(2) [OF bl k] True t(1) by (subst split_page.simps) simp
    then show ?thesis using fin [OF t(2,5)] t(3,4,6) e by simp
  qed
qed

lemma split_page_overrun:
  "blists (b_links s) L \<Longrightarrow> 0 < k \<Longrightarrow> \<forall>j. k \<le> j \<and> j < MAX_ORDER \<longrightarrow> L j = [] \<Longrightarrow> split_page k s = None"
proof (induction "MAX_ORDER - k" arbitrary: k rule: less_induct)
  case less
  show ?case
  proof (cases "MAX_ORDER \<le> k")
    case True
    then show ?thesis by (subst split_page.simps) simp
  next
    case False
    then have "list_empty (BHead k) (b_links s)" using blists_first(2) [OF less.prems(1)] less.prems(3) by simp
    moreover have "split_page (k + 1) s = None"
      using False less.prems by (intro less.hyps) auto
    ultimately show ?thesis using False less.prems(2) by (subst split_page.simps) simp
  qed
qed

section \<open>Allocating\<close>

lemma alloc_order_bounds:
  "0 < n \<Longrightarrow> n < 2 ^ Suc m \<Longrightarrow> 2 ^ alloc_order n m \<le> n \<and> n < 2 ^ Suc (alloc_order n m) \<and> alloc_order n m \<le> m"
  by (induction m) auto

lemma unat_sum_list:
  fixes f :: "nat \<Rightarrow> u32"
  assumes "sum_list (map (\<lambda>i. unat (f i)) xs) < 2 ^ 32"
  shows "unat (sum_list (map f xs)) = sum_list (map (\<lambda>i. unat (f i)) xs)"
  using assms by (induction xs) (auto simp: unat_word_ariths)

lemma counts_no_wrap:
  assumes "bcounts N s L"
  shows "unat (sum_list (map (b_nr s) [k..<MAX_ORDER])) = (\<Sum>i\<in>{k..<MAX_ORDER}. unat (b_nr s i))"
proof -
  have "(\<Sum>i\<in>{k..<MAX_ORDER}. unat (b_nr s i)) \<le> (\<Sum>i\<in>{k..<MAX_ORDER}. unat (b_nr s i) * 2 ^ i)"
    by (intro sum_mono) simp
  also have "\<dots> \<le> (\<Sum>i<MAX_ORDER. unat (b_nr s i) * 2 ^ i)" by (intro sum_mono2) auto
  finally have "(\<Sum>i\<in>{k..<MAX_ORDER}. unat (b_nr s i)) < 2 ^ 32" using assms by (simp add: bcounts_def)
  then show ?thesis using unat_sum_list [of "b_nr s" "[k..<MAX_ORDER]"]
    by (simp add: interv_sum_list_conv_sum_set_nat)
qed

lemma counts_zero:
  assumes "bcounts N s L"
  shows "sum_list (map (b_nr s) [k..<MAX_ORDER]) = 0 \<longleftrightarrow> (\<forall>i\<in>{k..<MAX_ORDER}. b_nr s i = 0)"
proof -
  have "sum_list (map (b_nr s) [k..<MAX_ORDER]) = 0 \<longleftrightarrow> unat (sum_list (map (b_nr s) [k..<MAX_ORDER])) = 0"
    by (rule unat_eq_0 [symmetric])
  also have "\<dots> \<longleftrightarrow> (\<forall>i\<in>{k..<MAX_ORDER}. unat (b_nr s i) = 0)"
    unfolding counts_no_wrap [OF assms] by (simp add: sum_eq_0_iff)
  finally show ?thesis by (simp add: unat_eq_0)
qed

text \<open>The first block of a list is taken out.\<close>

lemma alloc_take:
  assumes i: "binv N s L" and k: "k < MAX_ORDER" and l: "L k = x # xs"
  shows "\<exists>s'. b_upd x ClearPageProperty (b_link (list_del (BPage x)) s) = Some s' \<and> binv N s' (L(k := xs))
    \<and> bframes (L(k := xs)) = bframes L - {x..<x + 2 ^ k} \<and> {x..<x + 2 ^ k} \<subseteq> bframes L"
proof -
  let ?s = "s\<lparr>b_links := list_del (BPage x) (b_links s), b_pages := (b_pages s)(x := ClearPageProperty (b_pages s x))\<rparr>"
  have b: "blists (b_links s) L" and d: "bdisj L" and so: "\<And>j. j < MAX_ORDER \<Longrightarrow> sorted (L j)"
    and h: "bheads s L" and c: "bcounts N s L" using i by (simp_all add: binv_def)
  have ds: "distinct (x # xs)" using binv_distinct [OF i k] by (simp add: l)
  have xp: "x + 2 ^ k \<le> b_npages s" using h k l by (simp add: bheads_def)
  moreover have "x < x + 2 ^ k" by simp
  ultimately have "x < b_npages s" by (rule less_le_trans [rotated])
  then have run: "b_upd x ClearPageProperty (b_link (list_del (BPage x)) s) = Some ?s"
    by (simp add: buddy_ops)
  have sub: "set ((L(k := xs)) j) \<subseteq> set (L j)" for j using l by auto
  have nx: "y \<noteq> x" if "j < MAX_ORDER" "y \<in> set ((L(k := xs)) j)" for j y
  proof
    assume "y = x"
    then have "x \<in> set (L j)" using that(2) sub by blast
    moreover have "x \<in> set (L k)" using l by simp
    ultimately have "k = j" using b k that(1) unfolding blists_def by blast
    then show False using that(2) \<open>y = x\<close> ds by simp
  qed
  have "bheads ?s (L(k := xs))"
    using h nx sub unfolding bheads_def by (simp add: subset_iff split: if_splits)
  moreover have "bcounts N ?s (L(k := xs))"
    using c l by (auto simp: bcounts_def dest: spec [of _ k])
  moreover have "sorted ((L(k := xs)) j)" if "j < MAX_ORDER" for j using so [OF that] l by auto
  moreover have "bdisj (L(k := xs))" by (rule bdisj_mono [OF d sub])
  moreover have "blists (b_links ?s) (L(k := xs))" using blists_del [OF b k, of "[]" x xs] l by simp
  ultimately have "binv N ?s (L(k := xs))" unfolding binv_def by blast
  moreover have "{x..<x + 2 ^ k} \<subseteq> bframes L" using k l by (fastforce simp: bframes_def)
  ultimately show ?thesis using run bframes_del [of L k x xs] d k l ds by simp
qed

end
