(* ===== verification/Buddy_Boot.thy ===== *)
theory Buddy_Boot
  imports Buddy_Facts
begin

text \<open>
  Registering a region with the buddy allocator: which blocks \<open>buddy_system_init_memmap\<close> puts into the lists.
\<close>

section \<open>Sizes and orders\<close>

abbreviation osize :: "nat \<Rightarrow> u32" where "osize i \<equiv> 2 ^ i"

lemma osize_unat: "i < MAX_ORDER \<Longrightarrow> unat (osize i) = 2 ^ i"
proof -
  assume "i < MAX_ORDER"
  then have "(2 :: nat) ^ i < 2 ^ 32" by (intro power_strict_increasing) (simp_all add: MAX_ORDER_def)
  moreover have "osize i = of_nat (2 ^ i)" by simp
  moreover have "unat (of_nat m :: u32) = m" if "m < 2 ^ 32" for m using that by (simp add: unat_of_nat)
  ultimately show ?thesis by (simp only:)
qed

lemma osize_ucast: "i < MAX_ORDER \<Longrightarrow> unat (ucast (osize i) :: u64) = 2 ^ i"
  using osize_unat [of i] power_strict_increasing [of i 64 "2 :: nat"]
  by (simp add: unsigned_ucast_eq take_bit_nat_eq_self MAX_ORDER_def)

lemma osize_half: "Suc i < MAX_ORDER \<Longrightarrow> drop_bit 1 (osize (Suc i)) = osize i"
  using osize_unat [of "Suc i"] osize_unat [of i]
  by (intro word_unat_eq_iff [THEN iffD2]) (simp add: drop_bit_eq_div unat_div)

lemma buddy_shrink_ok:
  "k < MAX_ORDER \<Longrightarrow> \<exists>j. buddy_shrink cur k (osize k) = (j, osize j) \<and> j \<le> k \<and> (cur \<noteq> 0 \<longrightarrow> 2 ^ j \<le> unat cur)
     \<and> (2 ^ k \<le> unat cur \<longrightarrow> j = k)"
proof (induction k)
  case 0
  have "1 \<le> unat cur" if "cur \<noteq> 0" using that by (simp add: unat_eq_0 Suc_le_eq unat_gt_0)
  then show ?case by simp
next
  case (Suc k)
  show ?case
  proof (cases "cur < ucast (osize (Suc k))")
    case True
    then have "unat cur < 2 ^ Suc k" using osize_ucast [OF Suc.prems] by (simp add: word_less_nat_alt)
    then show ?thesis using Suc True osize_half [OF Suc.prems] by fastforce
  next
    case False
    then have "2 ^ Suc k \<le> unat cur" using osize_ucast [OF Suc.prems] by (simp add: word_less_nat_alt not_less)
    then show ?thesis using False by auto
  qed
qed

section \<open>Putting blocks into the lists\<close>

text \<open>\<open>filled p N s L\<close>: the lists hold heads below \<open>p\<close>, counted exactly, of \<open>N\<close> pages in all.\<close>

definition filled :: "nat \<Rightarrow> nat \<Rightarrow> buddy \<Rightarrow> (nat \<Rightarrow> nat list) \<Rightarrow> bool" where
  "filled p N s L \<longleftrightarrow> blists (b_links s) L \<and> (\<forall>i<MAX_ORDER. sorted (L i))
     \<and> (\<forall>i<MAX_ORDER. \<forall>x\<in>set (L i). x < p \<and> PageProperty (b_pages s x) \<and> pg_property (b_pages s x) = 2 ^ i)
     \<and> (\<forall>i<MAX_ORDER. unat (b_nr s i) = length (L i)) \<and> (\<Sum>i<MAX_ORDER. length (L i) * 2 ^ i) = N"

lemma filled_mono: "filled p N s L \<Longrightarrow> p \<le> q \<Longrightarrow> filled q N s L"
  unfolding filled_def by (meson less_le_trans)

lemma buddy_put_ok:
  assumes f: "filled p N s L" and k: "k < MAX_ORDER" and p: "p < b_npages s" and n: "N + 2 ^ k < 2 ^ 32"
  shows "\<exists>s'. buddy_put p k (osize k) s = Some s' \<and> filled (Suc p) (N + 2 ^ k) s' (L(k := L k @ [p]))
     \<and> b_npages s' = b_npages s"
proof -
  let ?s = "s\<lparr>b_pages := (b_pages s)(p := SetPageProperty ((b_pages s p)\<lparr>pg_property := 2 ^ k\<rparr>)),
    b_nr := (b_nr s)(k := b_nr s k + 1), b_links := list_add_before (BHead k) (BPage p) (b_links s)\<rparr>"
  have b: "blists (b_links s) L" and so: "\<And>i. i < MAX_ORDER \<Longrightarrow> sorted (L i)"
    and h: "\<And>i x. i < MAX_ORDER \<Longrightarrow> x \<in> set (L i) \<Longrightarrow> x < p \<and> PageProperty (b_pages s x) \<and> pg_property (b_pages s x) = 2 ^ i"
    and c: "\<And>i. i < MAX_ORDER \<Longrightarrow> unat (b_nr s i) = length (L i)"
    and sm: "(\<Sum>i<MAX_ORDER. length (L i) * 2 ^ i) = N" using f by (auto simp: filled_def)
  have run: "buddy_put p k (osize k) s = Some ?s"
    using p osize_unat [OF k] by (simp add: buddy_put_def buddy_ops)
  have "p \<notin> listed L" using h unfolding listed_def by blast
  from blists_add_back [OF b k this] have "blists (b_links ?s) (L(k := L k @ [p]))" by simp
  moreover have "sorted ((L(k := L k @ [p])) i)" if "i < MAX_ORDER" for i
    using so [OF that] h [OF k] by (auto simp: sorted_append less_imp_le)
  moreover have "x < Suc p \<and> PageProperty (b_pages ?s x) \<and> pg_property (b_pages ?s x) = 2 ^ i"
    if "i < MAX_ORDER" "x \<in> set ((L(k := L k @ [p])) i)" for i x
  proof (cases "x = p")
    case True
    have "p \<notin> set (L i)" using h [OF that(1)] by blast
    then show ?thesis using that True by (simp add: page_simps split: if_splits)
  next
    case False
    then have "x \<in> set (L i)" using that(2) by (simp split: if_splits)
    then show ?thesis using h [OF that(1)] False by (simp add: less_SucI)
  qed
  moreover have "length (L k) < 2 ^ 32 - 1"
  proof -
    have "length (L k) * 1 \<le> length (L k) * 2 ^ k" by (intro mult_le_mono) simp_all
    also have "\<dots> \<le> (\<Sum>i<MAX_ORDER. length (L i) * 2 ^ i)"
      using k member_le_sum [of k "{..<MAX_ORDER}" "\<lambda>i. length (L i) * 2 ^ i"] by simp
    finally have "length (L k) \<le> N" using sm by simp
    moreover have "(1 :: nat) \<le> 2 ^ k" by simp
    ultimately show ?thesis using n by linarith
  qed
  then have "unat (b_nr ?s i) = length ((L(k := L k @ [p])) i)" if "i < MAX_ORDER" for i
    using c [OF that] by (auto simp: unat_word_ariths)
  moreover have "(\<Sum>i<MAX_ORDER. length ((L(k := L k @ [p])) i) * 2 ^ i) = N + 2 ^ k"
  proof -
    have "(\<Sum>i<MAX_ORDER. length ((L(k := L k @ [p])) i) * 2 ^ i)
      = (\<Sum>i<MAX_ORDER. length (L i) * 2 ^ i + (if i = k then 2 ^ k else 0))"
      by (intro sum.cong) auto
    then show ?thesis using k sm by (simp add: sum.distrib)
  qed
  ultimately have "filled (Suc p) (N + 2 ^ k) ?s (L(k := L k @ [p]))" unfolding filled_def by blast
  with run show ?thesis by simp
qed

section \<open>The loop over the region\<close>

text \<open>
  A run over at least one block of the current order. Blocks follow each other as long as what is left is a
  multiple of the order; otherwise the first smaller block is put inside the last one.
\<close>

lemma buddy_init_blocks_ok:
  "filled p N s L \<Longrightarrow> k < MAX_ORDER \<Longrightarrow> 2 ^ k \<le> unat cur \<Longrightarrow> p + unat cur \<le> b_npages s \<Longrightarrow> N + unat cur < 2 ^ 32 \<Longrightarrow>
   \<exists>q s' L'. buddy_init_blocks p cur k (osize k) s = Some s' \<and> filled q (N + unat cur) s' L' \<and> b_npages s' = b_npages s
     \<and> (\<forall>i. set (L i) \<subseteq> set (L' i)) \<and> p \<in> set (L' k)
     \<and> (if 2 ^ k dvd unat cur then L' = L(k := L k @ map (\<lambda>i. p + i * 2 ^ k) [0..<unat cur div 2 ^ k])
        else \<exists>x j. x \<in> set (L' k) \<and> j < k \<and> x + 2 ^ j \<in> set (L' j))"
proof (induction "unat cur" arbitrary: p N s L k cur rule: less_induct)
  case less
  note f = less.prems(1) and k = less.prems(2) and ge = less.prems(3) and np = less.prems(4) and lim = less.prems(5)
  have pos: "(0 :: nat) < 2 ^ k" by simp
  have "p < b_npages s" "N + 2 ^ k < 2 ^ 32" using ge np lim pos by linarith+
  from buddy_put_ok [OF f k this] obtain t where
    t: "buddy_put p k (osize k) s = Some t" "filled (Suc p) (N + 2 ^ k) t (L(k := L k @ [p]))" "b_npages t = b_npages s"
    by blast
  define cur' where "cur' = cur - ucast (osize k)"
  have c': "unat cur' = unat cur - 2 ^ k"
    unfolding cur'_def using osize_ucast [OF k] ge by (simp add: unat_sub word_le_nat_alt)
  obtain j where j: "buddy_shrink cur' k (osize k) = (j, osize j)" "j \<le> k" "cur' \<noteq> 0 \<Longrightarrow> 2 ^ j \<le> unat cur'"
    "2 ^ k \<le> unat cur' \<Longrightarrow> j = k" using buddy_shrink_ok [OF k, of cur'] by blast
  have jM: "j < MAX_ORDER" using j(2) k by simp
  have cz: "cur \<noteq> 0" using ge pos by (metis not_less unat_0)
  have step: "buddy_init_blocks p cur k (osize k) s = buddy_init_blocks (p + 2 ^ j) cur' j (osize j) t"
    using cz t(1) j(1) osize_unat [OF jM] by (subst buddy_init_blocks.simps) (simp add: cur'_def [symmetric] Let_def)
  show ?case
  proof (cases "cur' = 0")
    case True
    then have cur: "unat cur = 2 ^ k" using c' ge by simp
    have "buddy_init_blocks (p + 2 ^ j) cur' j (osize j) t = Some t"
      using True by (subst buddy_init_blocks.simps) simp
    then show ?thesis using step t cur by (intro exI [of _ "Suc p"] exI [of _ t] exI [of _ "L(k := L k @ [p])"]) auto
  next
    case False
    have jc: "2 ^ j \<le> unat cur'" by (rule j(3) [OF False])
    have jk: "(2 :: nat) ^ j \<le> 2 ^ k" using j(2) by (intro power_increasing) simp_all
    have f': "filled (p + 2 ^ j) (N + 2 ^ k) t (L(k := L k @ [p]))"
      using t(2) by (rule filled_mono) simp
    have lt: "unat cur' < unat cur" unfolding c' using ge pos by linarith
    have np': "p + 2 ^ j + unat cur' \<le> b_npages t" unfolding c' using np ge jk t(3) by linarith
    have lim': "N + 2 ^ k + unat cur' < 2 ^ 32" using lim c' ge by simp
    have N: "N + 2 ^ k + unat cur' = N + unat cur" using c' ge by simp
    from less.hyps [OF lt f' jM jc np' lim'] obtain q s' L' where
      r: "buddy_init_blocks (p + 2 ^ j) cur' j (osize j) t = Some s'" "filled q (N + unat cur) s' L'"
      "b_npages s' = b_npages t" "\<forall>i. set ((L(k := L k @ [p])) i) \<subseteq> set (L' i)" "p + 2 ^ j \<in> set (L' j)"
      "if 2 ^ j dvd unat cur' then L' = (L(k := L k @ [p]))(j := (L(k := L k @ [p])) j
          @ map (\<lambda>i. p + 2 ^ j + i * 2 ^ j) [0..<unat cur' div 2 ^ j])
        else \<exists>x i. x \<in> set (L' j) \<and> i < j \<and> x + 2 ^ i \<in> set (L' i)"
      unfolding N by blast
    have pk: "p \<in> set (L' k)" and mono: "\<forall>i. set (L i) \<subseteq> set (L' i)"
      using r(4) by (auto dest: spec [of _ k] split: if_splits)
    have "if 2 ^ k dvd unat cur then L' = L(k := L k @ map (\<lambda>i. p + i * 2 ^ k) [0..<unat cur div 2 ^ k])
        else \<exists>x j. x \<in> set (L' k) \<and> j < k \<and> x + 2 ^ j \<in> set (L' j)"
    proof (cases "2 ^ k \<le> unat cur'")
      case True
      then have jk: "j = k" by (rule j(4))
      have cd: "unat cur = unat cur' + 2 ^ k" using c' ge by simp
      then have dv: "2 ^ k dvd unat cur \<longleftrightarrow> 2 ^ k dvd unat cur'" by simp
      show ?thesis
      proof (cases "2 ^ k dvd unat cur'")
        case d: True
        have "unat cur div 2 ^ k = Suc (unat cur' div 2 ^ k)" unfolding cd by (subst div_add_self2) simp_all
        then have "map (\<lambda>i. p + i * 2 ^ k) [0..<unat cur div 2 ^ k]
          = p # map (\<lambda>i. p + 2 ^ k + i * 2 ^ k) [0..<unat cur' div 2 ^ k]"
          by (simp add: upt_conv_Cons map_Suc_upt [symmetric] del: upt_Suc)
        then show ?thesis using r(6) d dv jk by simp
      next
        case d: False
        then show ?thesis using r(6) dv jk by simp
      qed
    next
      case False
      then have "\<not> 2 ^ k dvd unat cur'" using \<open>cur' \<noteq> 0\<close> by (auto dest: dvd_imp_le simp: unat_gt_0)
      moreover have "unat cur = unat cur' + 2 ^ k" using c' ge by simp
      ultimately have nd: "\<not> 2 ^ k dvd unat cur" by simp
      have "j \<noteq> k" using False jc by auto
      then have "j < k" using j(2) by simp
      with pk r(5) have "\<exists>x j. x \<in> set (L' k) \<and> j < k \<and> x + 2 ^ j \<in> set (L' j)" by blast
      then show ?thesis using nd by simp
    qed
    moreover have "buddy_init_blocks p cur k (osize k) s = Some s'" using step r(1) by simp
    moreover have "b_npages s' = b_npages s" using r(3) t(3) by simp
    ultimately show ?thesis using r(2) pk mono by blast
  qed
qed

text \<open>A region of less than one block makes the size left wrap around, and the loop leaves the page array.\<close>

lemma buddy_init_blocks_runs_off:
  "2 ^ 63 \<le> unat cur + p \<Longrightarrow> p < 2 ^ 33 \<Longrightarrow> b_npages s < 2 ^ 32 \<Longrightarrow> buddy_init_blocks p cur 10 1024 s = None"
proof (induction "b_npages s + 1024 - p" arbitrary: p cur s rule: less_induct)
  case less
  have c: "2 ^ 62 \<le> unat cur" using less.prems(1,2) by simp
  then have nz: "cur \<noteq> 0" by auto
  show ?case
  proof (cases "p < b_npages s")
    case False
    then show ?thesis using nz by (subst buddy_init_blocks.simps) (simp add: buddy_put_def b_upd_def)
  next
    case True
    then obtain t where t: "buddy_put p 10 1024 s = Some t" "b_npages t = b_npages s"
      by (simp add: buddy_put_def buddy_ops)
    have u: "unat (cur - 1024) = unat cur - 1024" using c by (simp add: unat_sub word_le_nat_alt)
    have "2 ^ 10 \<le> unat (cur - 1024)" using c u by simp
    then have sh: "buddy_shrink (cur - 1024) 10 1024 = (10, 1024)"
      using buddy_shrink_ok [of 10 "cur - 1024"] by (auto simp: MAX_ORDER_def)
    have "buddy_init_blocks (p + 1024) (cur - 1024) 10 1024 t = None"
      using less.prems True u c t(2) by (intro less.hyps) simp_all
    then show ?thesis using nz t(1) sh by (subst buddy_init_blocks.simps) (simp add: Let_def)
  qed
qed

section \<open>From an empty allocator\<close>

lemma buddy_init_loop_eq:
  "nxt (b_links (buddy_init_loop is s)) m = (if m \<in> BHead ` set is then m else nxt (b_links s) m)"
  "prv (b_links (buddy_init_loop is s)) m = (if m \<in> BHead ` set is then m else prv (b_links s) m)"
  "b_nr (buddy_init_loop is s) j = (if j \<in> set is then 0 else b_nr s j)"
  "b_pages (buddy_init_loop is s) = b_pages s" "b_npages (buddy_init_loop is s) = b_npages s"
  by (induction "is" arbitrary: s) (auto simp: buddy_ops list_init_def)

lemma buddy_system_init_empty: "filled 0 0 (buddy_system_init s) (\<lambda>_. [])"
proof -
  have "i \<in> set [0..<MAX_ORDER] \<longleftrightarrow> i < MAX_ORDER" for i by auto
  then show ?thesis
    by (auto simp: filled_def blists_def dl_def buddy_system_init_def buddy_init_loop_eq)
qed

lemma filled_pages:
  assumes "filled p N s (\<lambda>_. [])"
  shows "filled p N (s\<lparr>b_pages := f\<rparr>) (\<lambda>_. [])"
  using assms by (simp add: filled_def)

lemma buddy_init_pages_eq:
  "\<forall>i\<in>{p..<p + k}. PageReserved (b_pages s i) \<and> i < b_npages s \<Longrightarrow>
   \<exists>f. buddy_init_pages p k s = Some (s\<lparr>b_pages := f\<rparr>)"
proof (induction k arbitrary: p s)
  case 0
  show ?case by (intro exI [of _ "b_pages s"]) simp
next
  case (Suc k)
  let ?s = "s\<lparr>b_pages := (b_pages s)(p := (b_pages s p)\<lparr>pg_flags := 0, pg_property := 0, pg_ref := 0\<rparr>)\<rparr>"
  have "\<exists>f. buddy_init_pages (Suc p) k ?s = Some (?s\<lparr>b_pages := f\<rparr>)"
    using Suc.prems by (intro Suc.IH) simp
  then obtain f where "buddy_init_pages (Suc p) k ?s = Some (?s\<lparr>b_pages := f\<rparr>)" by blast
  moreover have "PageReserved (b_pages s p)" "p < b_npages s" using Suc.prems by simp_all
  ultimately have "buddy_init_pages p (Suc k) s = Some (s\<lparr>b_pages := f\<rparr>)" by (simp add: buddy_ops)
  then show ?case by blast
qed

text \<open>Blocks that follow each other cover the region.\<close>

lemma blocks_cover:
  fixes d :: nat
  assumes "0 < d"
  shows "(\<Union>x\<in>set (map (\<lambda>i. p + i * d) [0..<m]). {x..<x + d}) = {p..<p + m * d}"
proof (induction m)
  case 0
  show ?case by simp
next
  case (Suc m)
  have "{p..<p + m * d} \<union> {p + m * d..<p + m * d + d} = {p..<p + Suc m * d}" by auto
  then show ?case using Suc by (simp add: Un_commute)
qed

lemma blocks_apart:
  fixes d :: nat
  assumes "x \<in> set (map (\<lambda>i. p + i * d) [0..<m])" "y \<in> set (map (\<lambda>i. p + i * d) [0..<m])" "x \<noteq> y"
  shows "{x..<x + d} \<inter> {y..<y + d} = {}"
proof -
  obtain i j where i: "x = p + i * d" and j: "y = p + j * d" using assms(1,2) by auto
  then have "i < j \<or> j < i" using assms(3) by auto
  moreover have "a * d + d \<le> b * d" if "a < b" for a b using mult_le_mono1 [of "Suc a" b d] that by simp
  ultimately have "x + d \<le> y \<or> y + d \<le> x" unfolding i j by fastforce
  then show ?thesis by auto
qed

lemma filled_binv:
  assumes "filled q N s L" "bdisj L" "\<forall>i<MAX_ORDER. \<forall>x\<in>set (L i). x + 2 ^ i \<le> b_npages s" "N < 2 ^ 32"
  shows "binv N s L"
  using assms by (auto simp: binv_def filled_def bheads_def bcounts_def)

lemma memmap_binv:
  assumes f: "filled q N s L" and l: "L = (\<lambda>_. [])(10 := map (\<lambda>i. base + i * 2 ^ 10) [0..<m])"
    and n: "N = m * 2 ^ 10" "base + N \<le> b_npages s" "N < 2 ^ 32"
  shows "binv N s L" and "bframes L = {base..<base + N}"
proof -
  let ?xs = "map (\<lambda>i. base + i * (2 :: nat) ^ 10) [0..<m]"
  have in10: "i = 10 \<and> x \<in> set ?xs" if "x \<in> set (L i)" for i x using that unfolding l by (simp split: if_splits)
  have fr: "bframes L = {base..<base + N}"
    using bframes_upd [of 10 "\<lambda>_. []" ?xs] blocks_cover [of "2 ^ 10" base m]
    unfolding l n(1) by (simp add: MAX_ORDER_def del: set_map)
  have "bdisj L"
    unfolding bdisj_def using in10 blocks_apart [of _ base "2 ^ 10" m] by blast
  moreover have "x + 2 ^ i \<le> b_npages s" if "i < MAX_ORDER" "x \<in> set (L i)" for i x
  proof -
    have "{x..<x + 2 ^ i} \<subseteq> {base..<base + N}" using that unfolding fr [symmetric] bframes_def by blast
    then have "x + 2 ^ i \<le> base + N" by (auto simp: ivl_subset)
    then show ?thesis using n(2) by simp
  qed
  ultimately show "binv N s L" using n(3) by (intro filled_binv [OF f]) blast+
  show "bframes L = {base..<base + N}" by (rule fr)
qed

lemma blists_unique:
  assumes "blists lk L" "blists lk K" "i < MAX_ORDER"
  shows "L i = K i"
proof -
  have "map BPage (L i) = map BPage (K i)"
    using dl_unique [OF blists_dl [OF assms(1,3)] blists_dl [OF assms(2,3)]] .
  then show ?thesis by (rule map_injective) (simp add: inj_on_def)
qed

end
