(* ===== verification/Buddy_Free.thy ===== *)
theory Buddy_Free
  imports Buddy_Facts
begin

text \<open>
  Giving a block back to the buddy allocator: where \<open>add_page\<close> puts it, and what \<open>merge_page\<close> reads next to it.
\<close>

section \<open>The insertion loop\<close>

lemma add_loop_next:
  assumes "dl lk (BHead k) (map BPage (ys @ x # xs))" "le = (if ys = [] then BHead k else BPage (last ys))"
  shows "list_next le lk = BPage x"
    and "list_next (BPage x) lk = (case xs of [] \<Rightarrow> BHead k | y # _ \<Rightarrow> BPage y)"
  using assms dl_nxt_elem [of lk "BHead k" "map BPage ys" "BPage x" "map BPage xs"]
  by (cases ys rule: rev_cases;
      auto simp: list_next_def dl_nxt_head split: list.splits
        dest: dl_nxt_elem [where xs = "map BPage _" and x = "BPage _"])+

lemma add_loop_before:
  assumes "dl lk (BHead k) (map BPage (ys @ xs @ z # zs))" "\<And>x. x \<in> set xs \<Longrightarrow> x \<le> base" "base < z"
    and "le = (if ys = [] then BHead k else BPage (last ys))"
  shows "add_page_loop k le base lk = Some (list_add_before (BPage z) (BPage base) lk)"
  using assms
proof (induction xs arbitrary: ys le)
  case Nil
  then have "list_next le lk = BPage z" using add_loop_next(1) [of lk k ys z zs le] by simp
  with Nil show ?case by (subst add_page_loop.simps) (simp add: Let_def)
next
  case (Cons x xs)
  have d: "dl lk (BHead k) (map BPage (ys @ x # (xs @ z # zs)))" using Cons.prems(1) by simp
  have "add_page_loop k le base lk = add_page_loop k (BPage x) base lk"
    using add_loop_next [OF d Cons.prems(4)] Cons.prems(2) [of x]
    by (subst add_page_loop.simps) (auto simp: Let_def split: list.splits)
  also have "\<dots> = Some (list_add_before (BPage z) (BPage base) lk)"
    using Cons.IH [of "ys @ [x]"] Cons.prems by simp
  finally show ?case .
qed

text \<open>Behind the last block the new one is put in twice, the second time next to itself.\<close>

lemma add_loop_tail:
  assumes "dl lk (BHead k) (map BPage (ys @ xs @ [z]))" "\<And>x. x \<in> set (xs @ [z]) \<Longrightarrow> x < base"
    and "le = (if ys = [] then BHead k else BPage (last ys))"
  shows "add_page_loop k le base lk = Some (list_add (BPage base) (BPage base) (list_add (BPage z) (BPage base) lk))"
  using assms
proof (induction xs arbitrary: ys le)
  case Nil
  let ?b = "BPage base"
  let ?lk1 = "list_add (BPage z) ?b lk"
  let ?lk2 = "list_add ?b ?b ?lk1"
  have d: "dl lk (BHead k) (map BPage (ys @ z # []))" using Nil.prems(1) by simp
  have nx: "list_next le lk = BPage z" and zn: "nxt lk (BPage z) = BHead k"
    using add_loop_next [OF d Nil.prems(3)] by (simp_all add: list_next_def)
  have b1: "nxt ?lk1 (BPage z) = ?b" "nxt ?lk1 ?b = BHead k"
    using zn Nil.prems(2) by (auto simp: list_ops_defs Let_def)
  have b2: "nxt ?lk2 ?b = BHead k" using b1 by (auto simp: list_ops_defs Let_def)
  have "add_page_loop k (BPage z) base ?lk1 = add_page_loop k ?b base ?lk2"
    using b1 by (subst add_page_loop.simps) (simp add: Let_def list_next_def)
  also have "\<dots> = Some ?lk2" using b2 by (subst add_page_loop.simps) (simp add: Let_def list_next_def)
  finally have "add_page_loop k (BPage z) base ?lk1 = Some ?lk2" .
  moreover have "add_page_loop k le base lk = add_page_loop k (BPage z) base ?lk1"
    using nx zn Nil.prems(2) by (subst add_page_loop.simps) (simp add: Let_def list_next_def not_less)
  ultimately show ?case by simp
next
  case (Cons x xs)
  have d: "dl lk (BHead k) (map BPage (ys @ x # (xs @ [z])))" using Cons.prems(1) by simp
  have "\<not> base < x" using Cons.prems(2) [of x] by simp
  then have "add_page_loop k le base lk = add_page_loop k (BPage x) base lk"
    using add_loop_next [OF d Cons.prems(3)]
    by (subst add_page_loop.simps) (auto simp: Let_def split: list.splits)
  also have "\<dots> = Some (list_add (BPage base) (BPage base) (list_add (BPage z) (BPage base) lk))"
    using Cons.IH [of "ys @ [x]"] Cons.prems by simp
  finally show ?case .
qed

section \<open>Reading the neighbours\<close>

text \<open>\<open>apart k base s e\<close>: the neighbour \<open>e\<close> of \<open>base\<close> is a page of the array that does not touch it.\<close>

definition apart_before :: "nat \<Rightarrow> buddy \<Rightarrow> bnode \<Rightarrow> bool" where
  "apart_before base s e \<longleftrightarrow> (\<exists>x. e = BPage x \<and> x < b_npages s \<and> x + pg_property (b_pages s x) \<noteq> base)"

definition apart_behind :: "nat \<Rightarrow> buddy \<Rightarrow> bnode \<Rightarrow> bool" where
  "apart_behind base s e \<longleftrightarrow> (\<exists>x. e = BPage x \<and> base < b_npages s \<and> base + pg_property (b_pages s base) \<noteq> x)"

lemma merge_before_apart:
  "apart_before base s (prv (b_links s) (BPage base)) \<or> prv (b_links s) (BPage base) = BHead k
    \<Longrightarrow> merge_before k base s = Some (base, s)"
  by (auto simp: merge_before_def list_prev_def apart_before_def buddy_ops)

lemma merge_behind_apart:
  "apart_behind base s (nxt (b_links s) (BPage base)) \<or> nxt (b_links s) (BPage base) = BHead k
    \<Longrightarrow> merge_behind k base s = Some s"
  by (auto simp: merge_behind_def list_next_def apart_behind_def buddy_ops)

lemma merge_page_step:
  "k < MAX_ORDER - 1 \<Longrightarrow> merge_before k base s = Some (base, s) \<Longrightarrow> merge_behind k base s = Some s
    \<Longrightarrow> merge_page k base s = merge_page (k + 1) base s"
  by (subst merge_page.simps) auto

lemma merge_page_apart:
  assumes "apart_before base s (prv (b_links s) (BPage base))" "apart_behind base s (nxt (b_links s) (BPage base))"
  shows "k < MAX_ORDER \<Longrightarrow> merge_page k base s = Some s"
proof (induction "MAX_ORDER - k" arbitrary: k rule: less_induct)
  case less
  show ?case
  proof (cases "k = MAX_ORDER - 1")
    case True
    then show ?thesis by (subst merge_page.simps) (simp add: MAX_ORDER_def)
  next
    case False
    then have k: "k < MAX_ORDER - 1" using less.prems by simp
    have "merge_page k base s = merge_page (k + 1) base s"
      using assms by (intro merge_page_step [OF k] merge_before_apart merge_behind_apart) simp_all
    then show ?thesis using k less.hyps [of "k + 1"] by simp
  qed
qed

text \<open>At an end of its list the block has a list header as a neighbour, which is no page one order higher.\<close>

lemma merge_page_front:
  assumes k: "k + 1 < MAX_ORDER - 1" and p: "prv (b_links s) (BPage base) = BHead k"
    and n: "apart_behind base s (nxt (b_links s) (BPage base)) \<or> nxt (b_links s) (BPage base) = BHead k"
  shows "merge_page k base s = None"
proof -
  have "merge_page k base s = merge_page (k + 1) base s"
    using k by (intro merge_page_step merge_before_apart merge_behind_apart) (use p n in simp_all)
  moreover have "merge_before (k + 1) base s = None" using p by (simp add: merge_before_def list_prev_def)
  then have "merge_page (k + 1) base s = None" using k by (subst merge_page.simps) simp
  ultimately show ?thesis by simp
qed

lemma merge_page_end:
  assumes k: "k + 1 < MAX_ORDER - 1" and n: "nxt (b_links s) (BPage base) = BHead k"
    and p: "apart_before base s (prv (b_links s) (BPage base))"
  shows "merge_page k base s = None"
proof -
  have "merge_page k base s = merge_page (k + 1) base s"
    using k by (intro merge_page_step merge_before_apart merge_behind_apart) (use p n in simp_all)
  moreover have "merge_behind (k + 1) base s = None" using n by (simp add: merge_behind_def list_next_def)
  then have "merge_page (k + 1) base s = None"
    using k merge_before_apart [of base s "k + 1"] p by (subst merge_page.simps) simp
  ultimately show ?thesis by simp
qed

section \<open>The blocks that come back\<close>

lemma buddy_clear_pages_eq:
  "\<forall>i\<in>{p..<p + k}. \<not> PageReserved (b_pages s i) \<and> \<not> PageProperty (b_pages s i) \<and> i < b_npages s \<Longrightarrow>
   \<exists>f. buddy_clear_pages p k s = Some (s\<lparr>b_pages := f\<rparr>) \<and> (\<forall>i. i \<notin> {p..<p + k} \<longrightarrow> f i = b_pages s i)"
proof (induction k arbitrary: p s)
  case 0
  show ?case by (intro exI [of _ "b_pages s"]) simp
next
  case (Suc k)
  let ?s = "s\<lparr>b_pages := (b_pages s)(p := (b_pages s p)\<lparr>pg_flags := 0, pg_ref := 0\<rparr>)\<rparr>"
  have "\<exists>f. buddy_clear_pages (Suc p) k ?s = Some (?s\<lparr>b_pages := f\<rparr>) \<and> (\<forall>i. i \<notin> {Suc p..<Suc p + k} \<longrightarrow> f i = b_pages ?s i)"
    using Suc.prems by (intro Suc.IH) simp
  then obtain f where f: "buddy_clear_pages (Suc p) k ?s = Some (?s\<lparr>b_pages := f\<rparr>)"
    "\<forall>i. i \<notin> {Suc p..<Suc p + k} \<longrightarrow> f i = b_pages ?s i" by blast
  have "\<not> PageReserved (b_pages s p)" "\<not> PageProperty (b_pages s p)" "p < b_npages s" using Suc.prems by simp_all
  then have "buddy_clear_pages p (Suc k) s = Some (s\<lparr>b_pages := f\<rparr>)" using f(1) by (simp add: buddy_ops)
  moreover have "f i = b_pages s i" if "i \<notin> {p..<p + Suc k}" for i
  proof -
    have "i \<noteq> p" "i \<notin> {Suc p..<Suc p + k}" using that by auto
    then show ?thesis using f(2) by simp
  qed
  ultimately show ?case by blast
qed

lemma free_order_power: "free_order (2 ^ k) = k"
proof (induction k)
  case 0
  show ?case by (subst free_order.simps) simp
next
  case (Suc k)
  have "\<not> (2 :: nat) ^ Suc k \<le> 1" using one_less_power [of "2 :: nat" "Suc k"] by simp
  then show ?case using Suc by (subst free_order.simps) simp
qed

lemma small_power: "k < 9 \<Longrightarrow> IS_POWER_OF_2 (of_nat (2 ^ k)) \<and> (2 :: nat) ^ k < 2 ^ (MAX_ORDER - 1)"
proof -
  assume "k < 9"
  then have "k = 0 \<or> k = 1 \<or> k = 2 \<or> k = 3 \<or> k = 4 \<or> k = 5 \<or> k = 6 \<or> k = 7 \<or> k = 8" by arith
  then show ?thesis by (elim disjE) (simp_all add: IS_POWER_OF_2_def MAX_ORDER_def)
qed

lemma insort_between:
  fixes b :: nat
  assumes "\<forall>x\<in>set us. x < b" "\<forall>x\<in>set zs. b < x"
  shows "insort b (us @ zs) = us @ b # zs"
  using assms by (induction us) (cases zs, auto)

lemma sorted_around:
  fixes b :: nat
  assumes "sorted xs" "b \<notin> set xs"
  obtains us zs where "xs = us @ zs" "\<forall>x\<in>set us. x < b" "\<forall>x\<in>set zs. b < x"
proof (rule that)
  let ?u = "takeWhile (\<lambda>x. x < b) xs" and ?z = "dropWhile (\<lambda>x. x < b) xs"
  show "xs = ?u @ ?z" by simp
  show "\<forall>x\<in>set ?u. x < b" by (auto dest: set_takeWhileD)
  show "\<forall>x\<in>set ?z. b < x"
  proof (cases ?z)
    case Nil
    show ?thesis unfolding Nil by simp
  next
    case (Cons y ys)
    then have "\<not> y < b" using hd_dropWhile [of "\<lambda>x. x < b" xs] by simp
    moreover have "sorted (y # ys)" using sorted_dropWhile [OF assms(1), of "\<lambda>x. x < b"] Cons by simp
    moreover have "b \<notin> set (y # ys)" using assms(2) set_dropWhileD [of b "\<lambda>x. x < b" xs] Cons by auto
    ultimately show ?thesis using Cons by force
  qed
qed

section \<open>Adding and merging\<close>

text \<open>\<open>base\<close> heads a block that touches no block in the list of its order.\<close>

definition touches_none :: "nat list \<Rightarrow> nat \<Rightarrow> buddy \<Rightarrow> bool" where
  "touches_none xs base t \<longleftrightarrow> base < b_npages t \<and> 0 < pg_property (b_pages t base)
     \<and> (\<forall>x\<in>set xs. x < b_npages t \<and> x + pg_property (b_pages t x) \<noteq> base \<and> base + pg_property (b_pages t base) \<noteq> x)"

lemma touches_none_apart:
  assumes "touches_none xs base t"
  shows "x \<in> set xs \<Longrightarrow> apart_before base (t\<lparr>b_links := lk\<rparr>) (BPage x)"
    and "x \<in> set xs \<Longrightarrow> apart_behind base (t\<lparr>b_links := lk\<rparr>) (BPage x)"
    and "apart_before base (t\<lparr>b_links := lk\<rparr>) (BPage base)"
  using assms by (simp_all add: touches_none_def apart_before_def apart_behind_def)

lemma add_merge_only:
  assumes b: "blists (b_links t) L" and k: "k < 9" and l: "L k = []"
  shows "(add_page k base t \<bind> merge_page k base) = None"
proof -
  have kM: "k < MAX_ORDER" and k1: "k + 1 < MAX_ORDER - 1" using k by (simp_all add: MAX_ORDER_def)
  let ?lk = "list_add (BHead k) (BPage base) (b_links t)"
  have "add_page k base t = Some (t\<lparr>b_links := ?lk\<rparr>)"
    using kM blists_first(2) [OF b kM] l by (simp add: add_page_def)
  moreover have "merge_page k base (t\<lparr>b_links := ?lk\<rparr>) = None"
    using dl_add_after_head [OF blists_dl [OF b kM], of "BPage base"] l
    by (intro merge_page_front [OF k1]) (auto simp: dl_def list_add_def)
  ultimately show ?thesis by simp
qed

lemma add_merge_end:
  assumes b: "blists (b_links t) L" and k: "k < 9" and tn: "touches_none (L k) base t"
    and l: "L k \<noteq> []" "\<forall>x\<in>set (L k). x < base"
  shows "(add_page k base t \<bind> merge_page k base) = None"
proof -
  have kM: "k < MAX_ORDER" and k1: "k + 1 < MAX_ORDER - 1" using k by (simp_all add: MAX_ORDER_def)
  obtain ws w where e: "L k = ws @ [w]" using l(1) by (cases "L k" rule: rev_cases) auto
  note d = blists_dl [OF b kM]
  let ?lk1 = "list_add (BPage w) (BPage base) (b_links t)"
  let ?lk = "list_add (BPage base) (BPage base) ?lk1"
  have "add_page_loop k (BHead k) base (b_links t) = Some ?lk"
    using d l(2) e by (intro add_loop_tail [of _ _ "[]"]) auto
  then have "add_page k base t = Some (t\<lparr>b_links := ?lk\<rparr>)"
    using kM blists_first(2) [OF b kM] e by (simp add: add_page_def)
  moreover have "nxt ?lk1 (BPage base) = BHead k"
    using dl_nxt_elem [of "b_links t" "BHead k" "map BPage ws" "BPage w" "[]"] d e l(2)
    by (auto simp: list_add_def list_add_after_def raw_list_add_def Let_def)
  then have "nxt ?lk (BPage base) = BHead k" "prv ?lk (BPage base) = BPage base"
    using self_add_breaks_prev [of "BHead k" "BPage base" ?lk1] by simp_all
  then have "merge_page k base (t\<lparr>b_links := ?lk\<rparr>) = None"
    using touches_none_apart(3) [OF tn] by (intro merge_page_end [OF k1]) simp_all
  ultimately show ?thesis by simp
qed

lemma add_merge_before:
  assumes b: "blists (b_links t) L" and k: "k < 9" and new: "base \<notin> listed L" and tn: "touches_none (L k) base t"
    and e: "L k = us @ z # ws" "\<forall>x\<in>set us. x < base" "base < z"
  shows "if us = [] then (add_page k base t \<bind> merge_page k base) = None
    else \<exists>lk. (add_page k base t \<bind> merge_page k base) = Some (t\<lparr>b_links := lk\<rparr>) \<and> blists lk (L(k := us @ base # z # ws))"
proof -
  have kM: "k < MAX_ORDER" and k1: "k + 1 < MAX_ORDER - 1" using k by (simp_all add: MAX_ORDER_def)
  let ?lk = "list_add_before (BPage z) (BPage base) (b_links t)"
  have bl: "blists ?lk (L(k := us @ base # z # ws))" by (rule blists_add_before [OF b kM new e(1)])
  have "add_page_loop k (BHead k) base (b_links t) = Some ?lk"
    using blists_dl [OF b kM] e by (intro add_loop_before [of _ _ "[]" us z ws]) (auto simp: less_imp_le)
  then have ap: "add_page k base t = Some (t\<lparr>b_links := ?lk\<rparr>)"
    using kM blists_first(2) [OF b kM] e(1) by (simp add: add_page_def)
  have dn: "dl ?lk (BHead k) (map BPage us @ BPage base # map BPage (z # ws))"
    using blists_dl [OF bl kM] by simp
  have nx: "nxt ?lk (BPage base) = BPage z" using dl_nxt_elem [OF dn] by simp
  have pv: "prv ?lk (BPage base) = (if us = [] then BHead k else BPage (last us))"
    using dl_prv_elem [OF dn] by (simp add: last_map)
  have bh: "apart_behind base (t\<lparr>b_links := ?lk\<rparr>) (nxt ?lk (BPage base))"
    unfolding nx by (rule touches_none_apart(2) [OF tn]) (simp add: e(1))
  show ?thesis
  proof (cases "us = []")
    case True
    have "merge_page k base (t\<lparr>b_links := ?lk\<rparr>) = None"
      using bh pv True by (intro merge_page_front [OF k1]) simp_all
    then show ?thesis using ap True by simp
  next
    case False
    have "apart_before base (t\<lparr>b_links := ?lk\<rparr>) (prv ?lk (BPage base))"
      unfolding pv using False touches_none_apart(1) [OF tn, of "last us"] e(1) by simp
    then have "merge_page k base (t\<lparr>b_links := ?lk\<rparr>) = Some (t\<lparr>b_links := ?lk\<rparr>)"
      using bh kM by (intro merge_page_apart) simp_all
    then show ?thesis using ap False bl by auto
  qed
qed

lemma free_lists:
  assumes b: "blists (b_links t) L" and k: "k < 9" and so: "sorted (L k)" and new: "base \<notin> listed L"
    and tn: "touches_none (L k) base t"
  shows "if (\<exists>x\<in>set (L k). x < base) \<and> (\<exists>x\<in>set (L k). base < x)
     then \<exists>lk. (add_page k base t \<bind> merge_page k base) = Some (t\<lparr>b_links := lk\<rparr>) \<and> blists lk (L(k := insort base (L k)))
     else (add_page k base t \<bind> merge_page k base) = None"
proof -
  have "base \<notin> set (L k)" using new k by (auto simp: listed_def MAX_ORDER_def)
  then obtain us zs where l: "L k = us @ zs" "\<forall>x\<in>set us. x < base" "\<forall>x\<in>set zs. base < x"
    by (rule sorted_around [OF so])
  have lo: "(\<exists>x\<in>set (L k). x < base) \<longleftrightarrow> us \<noteq> []"
    unfolding l(1) using l(2,3) by (cases us) (auto dest: less_asym)
  have hi: "(\<exists>x\<in>set (L k). base < x) \<longleftrightarrow> zs \<noteq> []"
    unfolding l(1) using l(2,3) by (cases zs) (auto dest: less_asym)
  show ?thesis
  proof (cases zs)
    case Nil
    then have "(add_page k base t \<bind> merge_page k base) = None"
      using add_merge_only [OF b k] add_merge_end [OF b k tn] l by (cases "L k = []") simp_all
    then show ?thesis unfolding hi using Nil by simp
  next
    case (Cons z ws)
    have "insort base (L k) = us @ base # z # ws" unfolding l(1) Cons [symmetric] by (rule insort_between [OF l(2,3)])
    then show ?thesis
      unfolding lo hi using add_merge_before [OF b k new tn, of us z ws] l Cons by (cases "us = []") simp_all
  qed
qed

end
