(* ===== verification/Buddy_Props.thy ===== *)
theory Buddy_Props
  imports Buddy_Boot Buddy_Free
begin

text \<open>
  What holds of the buddy allocator: allocation from a well-formed allocator, the regions whose registration
  makes it well-formed, and the blocks it can take back.
\<close>

section \<open>Allocation\<close>

text \<open>The search for a list that has a block, splitting on the way.\<close>

definition with_block :: "nat \<Rightarrow> buddy \<Rightarrow> buddy option" where
  "with_block k s = (if list_empty (BHead k) (b_links s) then split_page (k + 1) s else Some s)"

lemma alloc_run:
  assumes "0 < n" "n \<le> 2 ^ (MAX_ORDER - 1)" "k = alloc_order n (MAX_ORDER - 1) + 1"
  shows "buddy_system_alloc_pages n s =
    (if sum_list (map (b_nr s) [k..<MAX_ORDER]) = 0 then Some (None, s)
     else do { s \<leftarrow> with_block k s;
               if list_empty (BHead k) (b_links s) then Some (None, s)
               else do { page \<leftarrow> b_le2page (list_next (BHead k) (b_links s));
                         s \<leftarrow> b_upd page ClearPageProperty (b_link (list_del (BPage page)) s);
                         Some (Some page, s) }})"
proof -
  have e: "(n = 0) = False" "(2 ^ (MAX_ORDER - 1) < n) = False" using assms(1,2) by simp_all
  show ?thesis unfolding buddy_system_alloc_pages_def Let_def with_block_def assms(3) e if_False ..
qed

lemma with_block_ok:
  assumes i: "binv N s L" and j: "k \<le> j" "j < MAX_ORDER" "L j \<noteq> []"
  obtains t K where "with_block k s = Some t" "binv N t K" "bframes K = bframes L" "K k \<noteq> []"
proof (cases "L k = []")
  case False
  have "blists (b_links s) L" "k < MAX_ORDER" using i j by (simp_all add: binv_def)
  then show ?thesis using that [of s L] False i blists_first(2) by (simp add: with_block_def)
next
  case True
  have b: "blists (b_links s) L" and k: "k < MAX_ORDER" using i j by (simp_all add: binv_def)
  have "Suc k \<le> j" using j True by (metis Suc_leI le_neq_implies_less)
  then show ?thesis
    using that split_page_ok [OF i _ True] j blists_first(2) [OF b k] True by (fastforce simp: with_block_def)
qed

lemma with_block_overrun:
  assumes "blists (b_links s) L" "k < MAX_ORDER" "\<forall>i\<in>{k..<MAX_ORDER}. L i = []"
  shows "with_block k s = None"
proof -
  have "split_page (k + 1) s = None" using assms(3) by (intro split_page_overrun [OF assms(1)]) auto
  then show ?thesis using blists_first(2) [OF assms(1,2)] assms(2,3) by (simp add: with_block_def)
qed

lemma counted:
  assumes "bcounts N s L" "i \<in> {k..<MAX_ORDER}" "L i \<noteq> []"
  shows "sum_list (map (b_nr s) [k..<MAX_ORDER]) \<noteq> 0"
proof -
  have "length (L i) \<le> unat (b_nr s i)" using assms by (simp add: bcounts_def)
  then have "b_nr s i \<noteq> 0" using assms(3) by auto
  then show ?thesis using counts_zero [OF assms(1)] assms(2) by blast
qed

text \<open>C38: an allocation of \<open>n\<close> pages looks for a block of the least power of two above \<open>n\<close>, which is twice the
  size asked for where \<open>n\<close> itself is a power of two. If a list of that order or a higher one has a block, the
  pages of one block are taken from the free pages, splitting larger blocks as needed, and the allocator
  stays well-formed. If none has, the counters, which allocation never lowers, decide: once they have
  counted a block, the search for one to split runs out of the array of lists.\<close>

theorem buddy_alloc_correct:
  assumes "binv N s L" "0 < n" "n \<le> 2 ^ (MAX_ORDER - 1)" "k = alloc_order n (MAX_ORDER - 1) + 1"
  shows "n < 2 ^ k \<and> 2 ^ k \<le> 2 * n \<and>
    (if \<exists>i\<in>{k..<MAX_ORDER}. L i \<noteq> []
     then \<exists>p s' L'. buddy_system_alloc_pages n s = Some (Some p, s') \<and> binv N s' L'
       \<and> {p..<p + 2 ^ k} \<subseteq> bframes L \<and> bframes L' = bframes L - {p..<p + 2 ^ k}
     else buddy_system_alloc_pages n s = (if \<forall>i\<in>{k..<MAX_ORDER}. b_nr s i = 0 then Some (None, s) else None))"
proof -
  have b: "blists (b_links s) L" and c: "bcounts N s L" using assms(1) by (simp_all add: binv_def)
  have "n < 2 ^ Suc (MAX_ORDER - 1)" using assms(3) by (rule order.strict_trans1) simp
  then have bounds: "n < 2 ^ k \<and> 2 ^ k \<le> 2 * n" using alloc_order_bounds [OF assms(2)] by (simp add: assms(4))
  note run = alloc_run [OF assms(2-4)]
  show ?thesis
  proof (cases "\<exists>i\<in>{k..<MAX_ORDER}. L i \<noteq> []")
    case True
    then obtain i where i: "k \<le> i" "i < MAX_ORDER" "L i \<noteq> []" by auto
    have k: "k < MAX_ORDER" using i by simp
    obtain t K where t: "with_block k s = Some t" "binv N t K" "bframes K = bframes L" "K k \<noteq> []"
      by (rule with_block_ok [OF assms(1) i])
    obtain p xs where p: "K k = p # xs" using t(4) by (cases "K k") auto
    have bt: "blists (b_links t) K" using t(2) by (simp add: binv_def)
    obtain u where u: "b_upd p ClearPageProperty (b_link (list_del (BPage p)) t) = Some u" "binv N u (K(k := xs))"
      "bframes (K(k := xs)) = bframes K - {p..<p + 2 ^ k}" "{p..<p + 2 ^ k} \<subseteq> bframes K"
      using alloc_take [OF t(2) k p] by blast
    have "buddy_system_alloc_pages n s = Some (Some p, u)"
      unfolding run using counted [OF c _ i(3), of k] i t(1) u(1) blists_first [OF bt k] p by simp
    then show ?thesis using bounds True u t(3) by auto
  next
    case False
    have "buddy_system_alloc_pages n s = None" if nz: "\<not> (\<forall>i\<in>{k..<MAX_ORDER}. b_nr s i = 0)"
    proof -
      have "k < MAX_ORDER" using nz by auto
      then show ?thesis
        unfolding run using counts_zero [OF c, of k] nz with_block_overrun [OF b] False by simp
    qed
    moreover have "buddy_system_alloc_pages n s = Some (None, s)" if "\<forall>i\<in>{k..<MAX_ORDER}. b_nr s i = 0"
      unfolding run using counts_zero [OF c, of k] that by simp
    ultimately show ?thesis using bounds False by simp
  qed
qed

section \<open>Registering the memory\<close>

text \<open>The pages are reset, and the loop starts with the largest block.\<close>

lemma memmap_start:
  assumes "\<forall>i\<in>{base..<base + unat n}. PageReserved (b_pages s i)" "base + unat n \<le> b_npages s" "n \<noteq> 0"
  obtains t where "buddy_system_init_memmap base n (buddy_system_init s) = buddy_init_blocks base n 10 1024 t"
    "filled base 0 t (\<lambda>_. [])" "b_npages t = b_npages s"
proof -
  let ?s = "buddy_system_init s"
  have np: "b_npages ?s = b_npages s" "b_pages ?s = b_pages s"
    by (simp_all add: buddy_system_init_def buddy_init_loop_eq)
  have "\<forall>i\<in>{base..<base + unat n}. PageReserved (b_pages ?s i) \<and> i < b_npages ?s"
    using assms(1,2) np by auto
  from buddy_init_pages_eq [OF this] obtain f where f: "buddy_init_pages base (unat n) ?s = Some (?s\<lparr>b_pages := f\<rparr>)"
    by blast
  show ?thesis
  proof (rule that)
    show "buddy_system_init_memmap base n ?s = buddy_init_blocks base n 10 1024 (?s\<lparr>b_pages := f\<rparr>)"
      using f assms(3) by (simp add: buddy_system_init_memmap_def MAX_ORDER_def)
    show "filled base 0 (?s\<lparr>b_pages := f\<rparr>) (\<lambda>_. [])"
      by (rule filled_pages [OF filled_mono [OF buddy_system_init_empty]]) simp
  qed (simp add: np)
qed

lemma memmap_small:
  assumes "unat n < 1024" "n \<noteq> 0" "base < 2 ^ 32" "b_npages t < 2 ^ 32"
  shows "buddy_init_blocks base n 10 1024 t = None"
proof (cases "base < b_npages t")
  case False
  then show ?thesis using assms(2) by (subst buddy_init_blocks.simps) (simp add: buddy_put_def b_upd_def)
next
  case True
  then obtain u where u: "buddy_put base 10 1024 t = Some u" "b_npages u = b_npages t"
    by (simp add: buddy_put_def buddy_ops)
  have c: "unat (n - 1024) = 2 ^ 64 + unat n - 1024" using assms(1) by (simp add: unat_sub_if')
  then have "2 ^ 10 \<le> unat (n - 1024)" by simp
  then have sh: "buddy_shrink (n - 1024) 10 1024 = (10, 1024)"
    using buddy_shrink_ok [of 10 "n - 1024"] by (auto simp: MAX_ORDER_def)
  have "buddy_init_blocks (base + 1024) (n - 1024) 10 1024 u = None"
    using c assms(3,4) u(2) by (intro buddy_init_blocks_runs_off) simp_all
  then show ?thesis using assms(2) u(1) sh by (subst buddy_init_blocks.simps) (simp add: Let_def)
qed

text \<open>A block inside another one: no lists make such an allocator well-formed.\<close>

lemma overlap_not_binv:
  assumes "filled q N s L" "x \<in> set (L 10)" "j < 10" "x + 2 ^ j \<in> set (L j)"
  shows "\<not> binv M s K"
proof
  assume k: "binv M s K"
  have "blists (b_links s) L" "blists (b_links s) K" using assms(1) k by (simp_all add: filled_def binv_def)
  then have "L i = K i" if "i < MAX_ORDER" for i by (rule blists_unique [OF _ _ that])
  then have xk: "x \<in> set (K 10)" "x + 2 ^ j \<in> set (K j)" and m: "10 < MAX_ORDER" "j < MAX_ORDER"
    using assms(2-4) by (simp_all add: MAX_ORDER_def)
  have "(2 :: nat) ^ j < 2 ^ 10" using assms(3) by (intro power_strict_increasing) simp_all
  then have "10 = j \<and> x = x + 2 ^ j"
    using k by (intro bdisj_same [OF _ m xk, of "x + 2 ^ j"]) (simp_all add: binv_def)
  then show False by simp
qed

text \<open>C37: a region of reserved pages makes the empty allocator well-formed, with all its pages free, exactly
  when its size is a multiple of 1024 pages, the largest block. With any other size of more than 1024 pages
  the first smaller block lies inside the last large one, so that its pages are free twice; with less than
  1024 pages the size left wraps around and the loop runs off the array of pages.\<close>

theorem buddy_init_memmap_iff:
  assumes "\<forall>i\<in>{base..<base + unat n}. PageReserved (b_pages s i)" "base + unat n \<le> b_npages s"
    "b_npages s < 2 ^ 32" "n \<noteq> 0"
  shows "(\<exists>s' L. buddy_system_init_memmap base n (buddy_system_init s) = Some s' \<and> binv (unat n) s' L
      \<and> bframes L = {base..<base + unat n}) \<longleftrightarrow> 1024 dvd unat n"
proof -
  obtain t where t: "buddy_system_init_memmap base n (buddy_system_init s) = buddy_init_blocks base n 10 1024 t"
    "filled base 0 t (\<lambda>_. [])" "b_npages t = b_npages s" by (rule memmap_start [OF assms(1,2,4)])
  have lt: "base < 2 ^ 32" "unat n < 2 ^ 32" using assms(2,3) by linarith+
  show ?thesis
  proof (cases "unat n < 1024")
    case True
    have "0 < unat n" using assms(4) by (simp add: unat_gt_0)
    then have "\<not> 1024 dvd unat n" using True by (auto dest: dvd_imp_le)
    then show ?thesis using t memmap_small [OF True assms(4) lt(1), of t] assms(3) by simp
  next
    case False
    have ok: "2 ^ 10 \<le> unat n" "base + unat n \<le> b_npages t" "0 + unat n < 2 ^ 32" "10 < MAX_ORDER"
      using False assms(2) t(3) lt by (simp_all add: MAX_ORDER_def)
    obtain q s' L' where r: "buddy_init_blocks base n 10 (2 ^ 10) t = Some s'" "filled q (0 + unat n) s' L'"
      "b_npages s' = b_npages t"
      "if 2 ^ 10 dvd unat n then L' = (\<lambda>_. [])(10 := [] @ map (\<lambda>i. base + i * 2 ^ 10) [0..<unat n div 2 ^ 10])
        else \<exists>x j. x \<in> set (L' 10) \<and> j < 10 \<and> x + 2 ^ j \<in> set (L' j)"
      using buddy_init_blocks_ok [OF t(2) ok(4,1-3)] by blast
    have run: "buddy_system_init_memmap base n (buddy_system_init s) = Some s'" using t(1) r(1) by simp
    have f: "filled q (unat n) s' L'" using r(2) by simp
    show ?thesis
    proof (cases "1024 dvd unat n")
      case True
      then have l: "L' = (\<lambda>_. [])(10 := map (\<lambda>i. base + i * 2 ^ 10) [0..<unat n div 2 ^ 10])" using r(4) by simp
      have m: "unat n = unat n div 2 ^ 10 * 2 ^ 10" using True by simp
      have le: "base + unat n \<le> b_npages s'" using assms(2) r(3) t(3) by simp
      from memmap_binv [OF f l m le lt(2)] show ?thesis using True run by blast
    next
      case False
      then obtain x j where x: "x \<in> set (L' 10)" "j < 10" "x + 2 ^ j \<in> set (L' j)" using r(4) by auto
      show ?thesis using overlap_not_binv [OF f x] False run by simp
    qed
  qed
qed

definition boot_pages :: "nat \<Rightarrow> buddy" where
  "boot_pages m = \<lparr>b_pages = (\<lambda>_. \<lparr>pg_ref = 0, pg_flags = 1, pg_property = 0\<rparr>), b_npages = m,
     b_links = \<lparr>prv = id, nxt = id\<rparr>, b_nr = (\<lambda>_. 0)\<rparr>"

theorem buddy_init_memmap_iff_witness:
  "(\<nexists>s' L. buddy_system_init_memmap 2 1025 (buddy_system_init (boot_pages 4000)) = Some s' \<and> binv 1025 s' L
      \<and> bframes L = {2..<1027})
   \<and> (\<exists>s' L. buddy_system_init_memmap 2 3072 (buddy_system_init (boot_pages 4000)) = Some s' \<and> binv 3072 s' L
      \<and> bframes L = {2..<3074})"
  using buddy_init_memmap_iff [of 2 1025 "boot_pages 4000"] buddy_init_memmap_iff [of 2 3072 "boot_pages 4000"]
  by (simp add: boot_pages_def PageReserved_def PG_reserved_def atest_bit_def)

section \<open>Freeing\<close>

text \<open>C39: a block of fewer than 512 pages that touches no free block of its order can only be given back when
  its list holds a block below and a block above it; it is then put between them, and the count of free blocks
  stays what it was. At either end of the list, \<open>merge_page\<close> goes on to the next order with the header of
  the list as a neighbour, and reads a page descriptor where there is none.\<close>

theorem buddy_free_needs_neighbours:
  assumes "binv N s L" "k < 9"
    "\<forall>i\<in>{base..<base + 2 ^ k}. \<not> PageReserved (b_pages s i) \<and> \<not> PageProperty (b_pages s i) \<and> i < b_npages s"
    "{base..<base + 2 ^ k} \<inter> bframes L = {}" "\<forall>x\<in>set (L k). x + 2 ^ k \<noteq> base \<and> base + 2 ^ k \<noteq> x"
  shows "if (\<exists>x\<in>set (L k). x < base) \<and> (\<exists>x\<in>set (L k). base < x)
     then \<exists>s'. buddy_system_free_pages base (2 ^ k) s = Some s' \<and> blists (b_links s') (L(k := insort base (L k)))
       \<and> buddy_system_nr_free_pages s' = buddy_system_nr_free_pages s
     else buddy_system_free_pages base (2 ^ k) s = None"
proof -
  have b: "blists (b_links s) L" and so: "sorted (L k)" and h: "bheads s L"
    using assms(1,2) by (simp_all add: binv_def MAX_ORDER_def)
  have kM: "k < MAX_ORDER" using assms(2) by (simp add: MAX_ORDER_def)
  obtain f where f: "buddy_clear_pages base (2 ^ k) s = Some (s\<lparr>b_pages := f\<rparr>)"
    "\<And>i. i \<notin> {base..<base + 2 ^ k} \<Longrightarrow> f i = b_pages s i"
    using buddy_clear_pages_eq [OF assms(3)] by blast
  have bs: "base < b_npages s" using assms(3) by simp
  let ?f = "f(base := SetPageProperty ((f base)\<lparr>pg_property := 2 ^ k\<rparr>))"
  let ?t = "s\<lparr>b_pages := ?f\<rparr>"
  have run: "buddy_system_free_pages base (2 ^ k) s = (add_page k base ?t \<bind> merge_page k base)"
    using small_power [OF assms(2)] f(1) bs
    by (simp add: buddy_system_free_pages_def free_order_power buddy_ops not_le Let_def)
  have fr: "x \<in> bframes L" if "i < MAX_ORDER" "x \<in> set (L i)" for i x
    using that by (fastforce simp: bframes_def)
  then have nin: "x \<notin> {base..<base + 2 ^ k}" if "i < MAX_ORDER" "x \<in> set (L i)" for i x
    using that assms(4) by blast
  then have new: "base \<notin> listed L" by (fastforce simp: listed_def)
  have pg: "pg_property (b_pages ?t x) = 2 ^ k \<and> x < b_npages s" if x: "x \<in> set (L k)" for x
  proof -
    have "x \<noteq> base" using new x kM by (auto simp: listed_def)
    then have "b_pages ?t x = b_pages s x" using f(2) nin [OF kM x] by simp
    moreover have "pg_property (b_pages s x) = 2 ^ k" "x + 2 ^ k \<le> b_npages s" using h kM x by (simp_all add: bheads_def)
    moreover have "x < x + 2 ^ k" by simp
    ultimately show ?thesis by (metis less_le_trans)
  qed
  have "if (\<exists>x\<in>set (L k). x < base) \<and> (\<exists>x\<in>set (L k). base < x)
     then \<exists>lk. (add_page k base ?t \<bind> merge_page k base) = Some (?t\<lparr>b_links := lk\<rparr>) \<and> blists lk (L(k := insort base (L k)))
     else (add_page k base ?t \<bind> merge_page k base) = None"
    using b new bs pg assms(5)
    by (intro free_lists [where L = L, OF _ assms(2) so]) (auto simp: touches_none_def page_simps)
  then show ?thesis unfolding run by (auto simp: buddy_system_nr_free_pages_def split: if_splits)
qed

section \<open>A small allocator\<close>

text \<open>The pages 4 and 8 are free blocks of order 0, and the pages 10 and 11 are one of order 1.\<close>

definition ex_buddy :: buddy where
  "ex_buddy = (let s = buddy_system_init \<lparr>b_pages = (\<lambda>_. \<lparr>pg_ref = 0, pg_flags = 0, pg_property = 0\<rparr>), b_npages = 16,
      b_links = \<lparr>prv = id, nxt = id\<rparr>, b_nr = (\<lambda>_. 0)\<rparr>
    in the (buddy_put 4 0 1 s \<bind> buddy_put 8 0 1 \<bind> buddy_put 10 1 2))"

definition ex_lists :: "nat \<Rightarrow> nat list" where
  "ex_lists = (\<lambda>_. [])(0 := [4, 8], 1 := [10])"

lemma ex_buddy_pages:
  "b_npages ex_buddy = 16" "b_pages ex_buddy i = \<lparr>pg_ref = 0, pg_flags = (if i \<in> {4, 8, 10} then aset_bit PG_property 0 else 0),
     pg_property = (if i = 4 \<or> i = 8 then 1 else if i = 10 then 2 else 0)\<rparr>"
  by (simp_all add: ex_buddy_def buddy_put_def buddy_ops buddy_system_init_def buddy_init_loop_eq SetPageProperty_def Let_def)

lemma ex_buddy_filled: "filled 11 4 ex_buddy ex_lists"
proof -
  define s where "s = buddy_system_init \<lparr>b_pages = (\<lambda>_. \<lparr>pg_ref = 0, pg_flags = 0, pg_property = 0\<rparr>), b_npages = 16,
      b_links = \<lparr>prv = id, nxt = id\<rparr>, b_nr = (\<lambda>_. 0 :: u32)\<rparr>"
  have n: "b_npages s = 16" by (simp add: s_def buddy_system_init_def buddy_init_loop_eq)
  have m: "0 < MAX_ORDER" "1 < MAX_ORDER" by (simp_all add: MAX_ORDER_def)
  have "filled 4 0 s (\<lambda>_. [])" unfolding s_def by (rule filled_mono [OF buddy_system_init_empty]) simp
  then obtain t where t: "buddy_put 4 0 1 s = Some t" "filled 5 1 t ((\<lambda>_. [])(0 := [4]))" "b_npages t = 16"
    using buddy_put_ok [of 4 0 s "\<lambda>_. []" 0] m n by auto
  then obtain u where u: "buddy_put 8 0 1 t = Some u" "filled 9 2 u ((\<lambda>_. [])(0 := [4, 8]))" "b_npages u = 16"
    using buddy_put_ok [of 8 1 t "(\<lambda>_. [])(0 := [4])" 0] filled_mono [OF t(2), of 8] m
    by (auto simp: Suc_1 simp del: One_nat_def)
  then obtain v where v: "buddy_put 10 1 2 u = Some v" "filled 11 4 v ex_lists"
    using buddy_put_ok [of 10 2 u "(\<lambda>_. [])(0 := [4, 8])" 1] filled_mono [OF u(2), of 10] m
    by (auto simp: ex_lists_def)
  have "ex_buddy = v" using t(1) u(1) v(1) by (simp add: ex_buddy_def s_def [symmetric])
  then show ?thesis using v(2) by simp
qed

lemma ex_lists_block: "x \<in> set (ex_lists i) \<longleftrightarrow> i = 0 \<and> (x = 4 \<or> x = 8) \<or> i = 1 \<and> x = 10"
  by (auto simp: ex_lists_def)

lemma ex_buddy_binv: "binv 4 ex_buddy ex_lists"
proof (rule filled_binv [OF ex_buddy_filled])
  show "bdisj ex_lists" by (auto simp: bdisj_def ex_lists_block)
  show "\<forall>i<MAX_ORDER. \<forall>x\<in>set (ex_lists i). x + 2 ^ i \<le> b_npages ex_buddy"
    by (auto simp: ex_lists_block ex_buddy_pages)
qed simp

lemma ex_frames: "bframes ex_lists = {4, 8, 10, 11}"
proof -
  have "x \<in> bframes ex_lists \<longleftrightarrow> x = 4 \<or> x = 8 \<or> x = 10 \<or> x = 11" for x
  proof -
    have "x \<in> bframes ex_lists \<longleftrightarrow> (\<exists>i y. i < MAX_ORDER \<and> y \<in> set (ex_lists i) \<and> y \<le> x \<and> x < y + 2 ^ i)"
      by (auto simp: bframes_def)
    also have "\<dots> \<longleftrightarrow> x = 4 \<or> x = 8 \<or> x = 10 \<or> x = 11"
      unfolding ex_lists_block by (auto simp: MAX_ORDER_def conj_disj_distribR conj_disj_distribL ex_disj_distrib)
    finally show ?thesis .
  qed
  then show ?thesis by auto
qed

theorem buddy_alloc_correct_witness:
  "(\<exists>p s' L'. buddy_system_alloc_pages 1 ex_buddy = Some (Some p, s') \<and> binv 4 s' L' \<and> {p..<p + 2} \<subseteq> {4, 8, 10, 11}
     \<and> bframes L' = {4, 8, 10, 11} - {p..<p + 2})
   \<and> buddy_system_alloc_pages 2 ex_buddy = Some (None, ex_buddy)"
proof -
  have a: "alloc_order 1 10 = 0" "alloc_order 2 10 = 1" by (simp_all add: numeral_eq_Suc)
  have "1 \<in> {1..<MAX_ORDER}" "ex_lists 1 \<noteq> []" by (simp_all add: MAX_ORDER_def ex_lists_def)
  then have "\<exists>i\<in>{1..<MAX_ORDER}. ex_lists i \<noteq> []" by blast
  then have "\<exists>p s' L'. buddy_system_alloc_pages 1 ex_buddy = Some (Some p, s') \<and> binv 4 s' L' \<and> {p..<p + 2} \<subseteq> {4, 8, 10, 11}
     \<and> bframes L' = {4, 8, 10, 11} - {p..<p + 2}"
    using buddy_alloc_correct [OF ex_buddy_binv, of 1 1] a by (simp add: MAX_ORDER_def ex_frames)
  moreover have "\<not> (\<exists>i\<in>{2..<MAX_ORDER}. ex_lists i \<noteq> [])" by (auto simp: ex_lists_def)
  moreover have "\<forall>i\<in>{2..<MAX_ORDER}. b_nr ex_buddy i = 0"
    using ex_buddy_filled by (auto simp: filled_def ex_lists_def unat_eq_0)
  ultimately show ?thesis
    using buddy_alloc_correct [OF ex_buddy_binv, of 2 2] a by (simp add: MAX_ORDER_def)
qed

theorem buddy_free_needs_neighbours_witness:
  "(\<exists>s'. buddy_system_free_pages 6 1 ex_buddy = Some s' \<and> blists (b_links s') (ex_lists(0 := [4, 6, 8])))
   \<and> buddy_system_free_pages 13 1 ex_buddy = None"
proof -
  have e: "ex_lists 0 = [4, 8]" by (simp add: ex_lists_def)
  have f: "\<forall>i\<in>{b..<b + 2 ^ 0}. \<not> PageReserved (b_pages ex_buddy i) \<and> \<not> PageProperty (b_pages ex_buddy i) \<and> i < b_npages ex_buddy"
    "{b..<b + 2 ^ 0} \<inter> bframes ex_lists = {}" "\<forall>x\<in>set (ex_lists 0). x + 2 ^ 0 \<noteq> b \<and> b + 2 ^ 0 \<noteq> x"
    if "b = 6 \<or> b = 13" for b
    using that unfolding ex_frames e
    by (auto simp: ex_buddy_pages PageReserved_def PageProperty_def PG_reserved_def atest_bit_def)
  show ?thesis
    using buddy_free_needs_neighbours [OF ex_buddy_binv _ f(1) f(2) f(3), of 6]
      buddy_free_needs_neighbours [OF ex_buddy_binv _ f(1) f(2) f(3), of 13]
    by (auto simp: e)
qed

end
