(* ===== verification/Sysfile.thy ===== *)
theory Sysfile
  imports Vmm Files
begin

text \<open>
  System calls on files: \<open>lab8/kern/fs/sysfile.c\<close>, the copying between user and kernel memory of
  \<open>lab8/kern/mm/vmm.c\<close>, and the calls of \<open>lab8/kern/syscall/syscall.c\<close> that lead there.

  User and kernel memory are one byte memory, which is part of the state of the file system layer; \<open>sw_mem\<close>
  and \<open>sw_put\<close> read and write it. The address that \<open>kmalloc\<close> returns for the buffer of a call, if any, is
  an argument, and so is the address of the local structure of \<open>sysfile_fstat\<close>. The locks of the address
  space are left out, as nothing runs in between.
\<close>

section \<open>State\<close>

record 's sys_world =
  sw_vfs :: "'s vfs_world"
  sw_mem :: "'s \<Rightarrow> bmem"
  sw_put :: "bmem \<Rightarrow> 's \<Rightarrow> 's"
  sw_getcwd :: "nat option \<Rightarrow> iobuf \<Rightarrow> (errno option \<times> iobuf, 's) vop"

record 's proc_io =
  io_mm :: "mm_struct option"
  io_files :: files_struct
  io_vfs :: "'s vfs"

definition mem_at :: "'s sys_world \<Rightarrow> 's proc_io \<Rightarrow> bmem" where
  "mem_at W st = sw_mem W (vinfo (io_vfs st))"

definition put_mem :: "'s sys_world \<Rightarrow> bmem \<Rightarrow> 's proc_io \<Rightarrow> 's proc_io" where
  "put_mem W m st = st\<lparr>io_vfs := (io_vfs st)\<lparr>vinfo := sw_put W m (vinfo (io_vfs st))\<rparr>\<rparr>"

text \<open>A call of \<open>file.c\<close> on the table of the current process.\<close>

definition file_call :: "('r, 's) file_op \<Rightarrow> 's proc_io \<Rightarrow> ('r \<times> 's proc_io) option" where
  "file_call f st = do { (r, fs, v) \<leftarrow> f (io_files st) (io_vfs st); Some (r, st\<lparr>io_files := fs, io_vfs := v\<rparr>) }"

definition ret_code :: "errno option \<Rightarrow> int" where
  "ret_code r = (case r of None \<Rightarrow> 0 | Some e \<Rightarrow> - errno_val e)"

definition ret_value :: "errno + int \<Rightarrow> int" where
  "ret_value r = (case r of Inl e \<Rightarrow> - errno_val e | Inr n \<Rightarrow> n)"

text \<open>\<open>return copied\<close> of a \<open>size_t\<close> from a function that returns an \<open>int\<close>.\<close>

definition int_of_size :: "nat \<Rightarrow> int" where
  "int_of_size n = sint (word_of_nat n :: u32)"

text \<open>Little-endian fields of structures in memory.\<close>

fun put_le :: "nat \<Rightarrow> nat \<Rightarrow> u64 \<Rightarrow> bmem \<Rightarrow> bmem" where
  "put_le 0 a w m = m"
| "put_le (Suc n) a w m = put_le n (a + 1) (drop_bit 8 w) (m(a := ucast w))"

fun get_le :: "nat \<Rightarrow> nat \<Rightarrow> bmem \<Rightarrow> u64" where
  "get_le 0 a m = 0"
| "get_le (Suc n) a m = ucast (m a) OR push_bit 8 (get_le n (a + 1) m)"

section \<open>Copying between user and kernel memory\<close>

definition user_check :: "u64 \<Rightarrow> nat \<Rightarrow> bool \<Rightarrow> 's proc_io \<Rightarrow> bool \<times> 's proc_io" where
  "user_check addr len wflag st =
     (let (ok, mm) = user_mem_check (io_mm st) addr (of_nat len) wflag in (ok, st\<lparr>io_mm := mm\<rparr>))"

definition copy_from_user :: "'s sys_world \<Rightarrow> nat \<Rightarrow> u64 \<Rightarrow> nat \<Rightarrow> bool \<Rightarrow> 's proc_io \<Rightarrow> bool \<times> 's proc_io" where
  "copy_from_user W dst src len wflag st =
     (let (ok, st) = user_check src len wflag st
      in (ok, if ok then put_mem W (memcpy dst (unat src) len (mem_at W st)) st else st))"

definition copy_to_user :: "'s sys_world \<Rightarrow> u64 \<Rightarrow> nat \<Rightarrow> nat \<Rightarrow> 's proc_io \<Rightarrow> bool \<times> 's proc_io" where
  "copy_to_user W dst src len st =
     (let (ok, st) = user_check dst len True st
      in (ok, if ok then put_mem W (memcpy (unat dst) src len (mem_at W st)) st else st))"

text \<open>\<open>copy_string\<close> reads page by page, so that it never looks at a page behind the end of the string.\<close>

partial_function (option) copy_string_loop ::
    "'s sys_world \<Rightarrow> nat \<Rightarrow> u64 \<Rightarrow> nat \<Rightarrow> nat \<Rightarrow> 's proc_io \<Rightarrow> (bool \<times> 's proc_io) option" where
  "copy_string_loop W dst src maxn part st =
     (let part = (if part > maxn then maxn else part);
          (ok, st) = user_check src part False st
      in if \<not> ok then Some (False, st)
         else let alen = strnlen (mem_at W st) (unat src) part
              in if alen < part then Some (True, put_mem W (memcpy dst (unat src) (alen + 1) (mem_at W st)) st)
                 else if part = maxn then Some (False, st)
                 else copy_string_loop W (dst + part) (src + of_nat part) (maxn - part) (unat PGSIZE)
                        (put_mem W (memcpy dst (unat src) part (mem_at W st)) st))"

declare copy_string_loop.simps [code]

definition copy_string :: "'s sys_world \<Rightarrow> nat \<Rightarrow> u64 \<Rightarrow> nat \<Rightarrow> 's proc_io \<Rightarrow> (bool \<times> 's proc_io) option" where
  "copy_string W dst src maxn st = copy_string_loop W dst src maxn (unat (ROUNDDOWN (src + PGSIZE) PGSIZE - src)) st"

section \<open>\<open>sysfile.c\<close>\<close>

definition FS_MAX_FPATH_LEN :: nat where "FS_MAX_FPATH_LEN = 4095"

definition IOBUF_SIZE :: nat where "IOBUF_SIZE = 4096"

text \<open>\<open>copy_path\<close>; the result is the path, as the bytes before its null.\<close>

definition copy_path :: "'s sys_world \<Rightarrow> nat option \<Rightarrow> u64 \<Rightarrow> 's proc_io \<Rightarrow> ((errno + path) \<times> 's proc_io) option" where
  "copy_path W heap from st =
     (case heap of
        None \<Rightarrow> Some (Inl E_NO_MEM, st)
      | Some buffer \<Rightarrow> do {
          (ok, st) \<leftarrow> copy_string W buffer from (FS_MAX_FPATH_LEN + 1) st;
          Some (if ok then Inr (map (\<lambda>i. mem_at W st (buffer + i)) [0..<strnlen (mem_at W st) buffer (FS_MAX_FPATH_LEN + 1)])
                else Inl E_INVAL, st) })"

definition sysfile_open :: "'s sys_world \<Rightarrow> nat option \<Rightarrow> u64 \<Rightarrow> u32 \<Rightarrow> 's proc_io \<Rightarrow> (int \<times> 's proc_io) option" where
  "sysfile_open W heap upath open_flags st = do {
     (r, st) \<leftarrow> copy_path W heap upath st;
     (case r of
        Inl e \<Rightarrow> Some (- errno_val e, st)
      | Inr path \<Rightarrow> do { (r, st) \<leftarrow> file_call (file_open (sw_vfs W) path open_flags) st; Some (ret_value r, st) }) }"

definition sysfile_close :: "'s sys_world \<Rightarrow> int \<Rightarrow> 's proc_io \<Rightarrow> (int \<times> 's proc_io) option" where
  "sysfile_close W f st = do { (r, st) \<leftarrow> file_call (file_close (sw_vfs W) f) st; Some (ret_code r, st) }"

text \<open>The loop of \<open>sysfile_read\<close>: what is left, what was copied, and the return value of the last read.\<close>

definition read_step :: "'s sys_world \<Rightarrow> int \<Rightarrow> nat \<Rightarrow> u64 \<Rightarrow> nat \<Rightarrow> 's proc_io \<Rightarrow> (int \<times> nat \<times> bool \<times> 's proc_io) option" where
  "read_step W f buffer base len st = do {
     let alen = (if IOBUF_SIZE > len then len else IOBUF_SIZE);
     ((ret, alen), st) \<leftarrow> file_call (file_read (sw_vfs W) f buffer alen) st;
     if alen \<noteq> 0
     then (let (ok, st) = copy_to_user W base buffer alen st in
           if ok then (if len \<ge> alen then Some (ret, alen, True, st) else None)
           else Some (if ret = 0 then - errno_val E_INVAL else ret, alen, False, st))
     else Some (ret, 0, False, st) }"

partial_function (option) sys_read_loop ::
    "'s sys_world \<Rightarrow> int \<Rightarrow> nat \<Rightarrow> u64 \<Rightarrow> nat \<Rightarrow> nat \<Rightarrow> int \<Rightarrow> 's proc_io \<Rightarrow> (int \<times> nat \<times> 's proc_io) option" where
  "sys_read_loop W f buffer base len copied ret st =
     (if len = 0 then Some (ret, copied, st)
      else do {
        (ret, alen, ok, st) \<leftarrow> read_step W f buffer base len st;
        let n = (if ok then alen else 0);
        if ret \<noteq> 0 \<or> alen = 0 then Some (ret, copied + n, st)
        else sys_read_loop W f buffer (base + of_nat n) (len - n) (copied + n) ret st })"

declare sys_read_loop.simps [code]

definition sysfile_read :: "'s sys_world \<Rightarrow> nat option \<Rightarrow> int \<Rightarrow> u64 \<Rightarrow> nat \<Rightarrow> 's proc_io \<Rightarrow> (int \<times> 's proc_io) option" where
  "sysfile_read W heap f base len st =
     (if len = 0 then Some (0, st)
      else do {
        ok \<leftarrow> file_testfd f True False (io_files st);
        if \<not> ok then Some (- errno_val E_INVAL, st)
        else (case heap of
                None \<Rightarrow> Some (- errno_val E_NO_MEM, st)
              | Some buffer \<Rightarrow> do {
                  (ret, copied, st) \<leftarrow> sys_read_loop W f buffer base len 0 0 st;
                  Some (if copied \<noteq> 0 then int_of_size copied else ret, st) }) })"

partial_function (option) sys_write_loop ::
    "'s sys_world \<Rightarrow> int \<Rightarrow> nat \<Rightarrow> u64 \<Rightarrow> nat \<Rightarrow> nat \<Rightarrow> int \<Rightarrow> 's proc_io \<Rightarrow> (int \<times> nat \<times> 's proc_io) option" where
  "sys_write_loop W f buffer base len copied ret st =
     (if len = 0 then Some (ret, copied, st)
      else
        let alen = (if IOBUF_SIZE > len then len else IOBUF_SIZE);
            (ok, st) = copy_from_user W buffer base alen False st
        in if \<not> ok then Some (- errno_val E_INVAL, copied, st)
           else do {
             ((ret, alen), st) \<leftarrow> file_call (file_write (sw_vfs W) f buffer alen) st;
             if alen > len then None
             else if ret \<noteq> 0 \<or> alen = 0 then Some (ret, copied + alen, st)
             else sys_write_loop W f buffer (base + of_nat alen) (len - alen) (copied + alen) ret st })"

declare sys_write_loop.simps [code]

definition sysfile_write :: "'s sys_world \<Rightarrow> nat option \<Rightarrow> int \<Rightarrow> u64 \<Rightarrow> nat \<Rightarrow> 's proc_io \<Rightarrow> (int \<times> 's proc_io) option" where
  "sysfile_write W heap f base len st =
     (if len = 0 then Some (0, st)
      else do {
        ok \<leftarrow> file_testfd f False True (io_files st);
        if \<not> ok then Some (- errno_val E_INVAL, st)
        else (case heap of
                None \<Rightarrow> Some (- errno_val E_NO_MEM, st)
              | Some buffer \<Rightarrow> do {
                  (ret, copied, st) \<leftarrow> sys_write_loop W f buffer base len 0 0 st;
                  Some (if copied \<noteq> 0 then int_of_size copied else ret, st) }) })"

definition sysfile_seek :: "'s sys_world \<Rightarrow> int \<Rightarrow> int \<Rightarrow> int \<Rightarrow> 's proc_io \<Rightarrow> (int \<times> 's proc_io) option" where
  "sysfile_seek W f p whence st = do { (r, st) \<leftarrow> file_call (file_seek (sw_vfs W) f p whence) st; Some (ret_code r, st) }"

text \<open>\<open>struct stat\<close>: a word of 32 bits, four bytes of padding, and three words of 64 bits.\<close>

definition put_stat :: "nat \<Rightarrow> stat \<Rightarrow> bmem \<Rightarrow> bmem" where
  "put_stat a x = put_le 4 a (ucast (st_mode x)) \<circ> put_le 8 (a + 8) (of_nat (st_nlinks x))
     \<circ> put_le 8 (a + 16) (of_nat (st_blocks x)) \<circ> put_le 8 (a + 24) (of_nat (st_size x))"

definition sysfile_fstat :: "'s sys_world \<Rightarrow> nat \<Rightarrow> int \<Rightarrow> u64 \<Rightarrow> 's proc_io \<Rightarrow> (int \<times> 's proc_io) option" where
  "sysfile_fstat W local_stat f ustat st = do {
     (r, st) \<leftarrow> file_call (file_fstat (sw_vfs W) f) st;
     (case r of
        Inl e \<Rightarrow> Some (- errno_val e, st)
      | Inr x \<Rightarrow>
          let (ok, st) = copy_to_user W ustat local_stat 32 (put_mem W (put_stat local_stat x (mem_at W st)) st)
          in Some (if ok then 0 else - errno_val E_INVAL, st)) }"

definition sysfile_fsync :: "'s sys_world \<Rightarrow> int \<Rightarrow> 's proc_io \<Rightarrow> (int \<times> 's proc_io) option" where
  "sysfile_fsync W f st = do { (r, st) \<leftarrow> file_call (file_fsync (sw_vfs W) f) st; Some (ret_code r, st) }"

definition sysfile_chdir :: "'s sys_world \<Rightarrow> nat option \<Rightarrow> u64 \<Rightarrow> 's proc_io \<Rightarrow> (int \<times> 's proc_io) option" where
  "sysfile_chdir W heap upath st = do {
     (r, st) \<leftarrow> copy_path W heap upath st;
     (case r of
        Inl e \<Rightarrow> Some (- errno_val e, st)
      | Inr path \<Rightarrow> do {
          ((r, dir), v) \<leftarrow> vfs_chdir (sw_vfs W) (pwd (io_files st)) path (io_vfs st);
          Some (ret_code r, st\<lparr>io_files := (io_files st)\<lparr>pwd := dir\<rparr>, io_vfs := v\<rparr>) }) }"

text \<open>\<open>sysfile_getcwd\<close> writes straight into the user's buffer.\<close>

definition sysfile_getcwd :: "'s sys_world \<Rightarrow> u64 \<Rightarrow> nat \<Rightarrow> 's proc_io \<Rightarrow> (int \<times> 's proc_io) option" where
  "sysfile_getcwd W buf len st =
     (if len = 0 then Some (- errno_val E_INVAL, st)
      else let (ok, st) = user_check buf len True st
           in if \<not> ok then Some (- errno_val E_INVAL, st)
              else do {
                ((r, iob), v) \<leftarrow> sw_getcwd W (pwd (io_files st)) (iobuf_init (unat buf) len 0) (io_vfs st);
                Some (ret_code r, st\<lparr>io_vfs := v\<rparr>) })"

text \<open>\<open>struct dirent\<close>: the offset in 8 bytes, and the name behind it.\<close>

definition DIRENT_SIZE :: nat where "DIRENT_SIZE = 8 + (FS_MAX_FNAME_LEN + 1)"

definition sysfile_getdirentry :: "'s sys_world \<Rightarrow> nat option \<Rightarrow> int \<Rightarrow> u64 \<Rightarrow> 's proc_io \<Rightarrow> (int \<times> 's proc_io) option" where
  "sysfile_getdirentry W heap f udirent st =
     (case heap of
        None \<Rightarrow> Some (- errno_val E_NO_MEM, st)
      | Some direntp \<Rightarrow>
          let (ok, st) = copy_from_user W direntp udirent 8 True st
          in if \<not> ok then Some (- errno_val E_INVAL, st)
             else do {
               ((r, offset), st) \<leftarrow>
                 file_call (file_getdirentry (sw_vfs W) f (direntp + 8) (sint (get_le 8 direntp (mem_at W st)))) st;
               let st = put_mem W (put_le 8 direntp (word_of_int offset) (mem_at W st)) st;
               if r \<noteq> None then Some (ret_code r, st)
               else let (ok, st) = copy_to_user W udirent direntp DIRENT_SIZE st
                    in Some (if ok then 0 else - errno_val E_INVAL, st) })"

definition sysfile_dup :: "int \<Rightarrow> int \<Rightarrow> 's proc_io \<Rightarrow> (int \<times> 's proc_io) option" where
  "sysfile_dup fd1 fd2 st = do { (r, st) \<leftarrow> file_call (file_dup fd1 fd2) st; Some (ret_value r, st) }"

section \<open>The calls of \<open>syscall.c\<close> on files\<close>

text \<open>An argument as an \<open>int\<close> and as an \<open>off_t\<close>.\<close>

definition int_arg :: "u64 \<Rightarrow> int" where "int_arg a = sint (ucast a :: u32)"

record sys_local =
  heap_block :: "nat option"
  stack_block :: nat

definition file_syscall ::
    "'s sys_world \<Rightarrow> sys_local \<Rightarrow> nat \<Rightarrow> u64 list \<Rightarrow> 's proc_io \<Rightarrow> (int \<times> 's proc_io) option" where
  "file_syscall W l num arg =
     (if num = 100 then sysfile_open W (heap_block l) (arg ! 0) (ucast (arg ! 1))
      else if num = 101 then sysfile_close W (int_arg (arg ! 0))
      else if num = 102 then sysfile_read W (heap_block l) (int_arg (arg ! 0)) (arg ! 1) (unat (arg ! 2))
      else if num = 103 then sysfile_write W (heap_block l) (int_arg (arg ! 0)) (arg ! 1) (unat (arg ! 2))
      else if num = 104 then sysfile_seek W (int_arg (arg ! 0)) (sint (arg ! 1)) (int_arg (arg ! 2))
      else if num = 110 then sysfile_fstat W (stack_block l) (int_arg (arg ! 0)) (arg ! 1)
      else if num = 111 then sysfile_fsync W (int_arg (arg ! 0))
      else if num = 121 then sysfile_getcwd W (arg ! 0) (unat (arg ! 1))
      else if num = 128 then sysfile_getdirentry W (heap_block l) (int_arg (arg ! 0)) (arg ! 1)
      else if num = 130 then sysfile_dup (int_arg (arg ! 0)) (int_arg (arg ! 1))
      else (\<lambda>_. None))"

end
