(* ===== verification/Sysfile_Props.thy ===== *)
theory Sysfile_Props
  imports Sysfile Devices Vmm_Facts
begin

text \<open>
  System calls on the console, from the user's buffer through the descriptor table to the device.
\<close>

section \<open>Copying\<close>

text \<open>User addresses that may be accessed, without wrap-around.\<close>

definition user_range :: "mm_struct \<Rightarrow> bool \<Rightarrow> u64 \<Rightarrow> nat \<Rightarrow> bool" where
  "user_range mm w base len \<longleftrightarrow> USERBASE \<le> base \<and> unat base + len \<le> unat USERTOP
     \<and> (\<forall>i<len. may_access mm w (base + of_nat i))"

lemma user_range_unat:
  assumes "user_range mm w base len" "i \<le> len"
  shows "unat (base + of_nat i) = unat base + i"
proof -
  have "unat base + i < 2 ^ 64" using assms by (auto simp: user_range_def USERTOP_def)
  then show ?thesis by (simp add: unat_word_ariths unat_of_nat)
qed

lemma user_range_drop:
  assumes "user_range mm w base len" "k \<le> len"
  shows "user_range mm w (base + of_nat k) (len - k)"
proof -
  have u: "unat (base + of_nat k) = unat base + k" by (rule user_range_unat [OF assms])
  then have "base \<le> base + of_nat k" by (simp add: word_le_nat_alt)
  moreover have "may_access mm w (base + of_nat k + of_nat i)" if "i < len - k" for i
  proof -
    have e: "base + of_nat k + of_nat i = base + of_nat (k + i)" by (simp add: add.assoc)
    have "k + i < len" using that by simp
    then show ?thesis using assms(1) unfolding e user_range_def by blast
  qed
  ultimately show ?thesis using assms u by (auto simp: user_range_def)
qed

lemma user_range_take: "user_range mm w base len \<Longrightarrow> k \<le> len \<Longrightarrow> user_range mm w base k"
  by (simp add: user_range_def)

lemma user_check_ok:
  assumes "io_mm st = Some mm" "mm_inv mm" "user_range mm w base len" "0 < len"
  shows "\<exists>mm'. user_check base len w st = (True, st\<lparr>io_mm := Some mm'\<rparr>) \<and> mm_inv mm' \<and> mmap_list mm' = mmap_list mm"
proof -
  have u: "unat (base + of_nat len) = unat base + len" by (rule user_range_unat [OF assms(3)]) simp
  then have "USER_ACCESS base (base + of_nat len)"
    using assms(3,4) by (simp add: USER_ACCESS_def user_range_def word_less_nat_alt word_le_nat_alt)
  moreover have "may_access mm w a" if "base \<le> a" "a < base + of_nat len" for a
  proof -
    have "unat a - unat base < len" using that u by (simp add: word_less_nat_alt word_le_nat_alt)
    moreover have "a = base + of_nat (unat a - unat base)"
      using that(1) by (simp add: word_le_nat_alt of_nat_diff)
    ultimately show ?thesis using assms(3) unfolding user_range_def by metis
  qed
  ultimately show ?thesis
    using check_loop_ok [OF assms(2), of base "base + of_nat len" w] assms(1)
    by (cases "check_loop mm base (base + of_nat len) w") (auto simp: user_check_def user_mem_check_def)
qed

lemma user_range_same: "mmap_list mm' = mmap_list mm \<Longrightarrow> user_range mm' w base len = user_range mm w base len"
  by (simp add: user_range_def may_access_def)

text \<open>Copying a string always returns: the first part is never empty, and each round leaves less room.\<close>

lemma copy_string_loop_returns:
  "0 < part \<Longrightarrow> \<exists>r. copy_string_loop W dst src maxn part st = Some r"
proof (induction maxn arbitrary: dst src part st rule: less_induct)
  case (less maxn)
  have n: "0 < unat PGSIZE" by (simp add: PGSIZE_def)
  show ?case
  proof (cases "part < maxn")
    case True
    then have "maxn - part < maxn" using less.prems by simp
    note ih = less.IH [OF this n, of "dst + part" "src + of_nat part"]
    show ?thesis using True ih by (subst copy_string_loop.simps) (auto simp: Let_def split: prod.splits)
  next
    case False
    then show ?thesis by (subst copy_string_loop.simps) (auto simp: Let_def split: prod.splits)
  qed
qed

lemma copy_string_returns: "\<exists>r. copy_string W dst src maxn st = Some r"
proof -
  have "(src + PGSIZE) mod PGSIZE < PGSIZE" by (rule word_mod_less_divisor) (simp add: PGSIZE_def)
  then have "PGSIZE - (src + PGSIZE) mod PGSIZE \<noteq> 0" by auto
  then have "0 < unat (ROUNDDOWN (src + PGSIZE) PGSIZE - src)"
    by (simp add: ROUNDDOWN_def unat_gt_0 algebra_simps)
  then show ?thesis unfolding copy_string_def by (rule copy_string_loop_returns)
qed

section \<open>Devices as open files\<close>

definition dev_sys :: "dev_map \<Rightarrow> devs sys_world" where
  "dev_sys dev = \<lparr>sw_vfs = dev_world dev, sw_mem = kbytes, sw_put = (\<lambda>m d. d\<lparr>kbytes := m\<rparr>), sw_getcwd = (\<lambda>_ _ _. None)\<rparr>"

text \<open>The descriptor \<open>f\<close> is open on the inode \<open>n\<close>.\<close>

definition open_on :: "files_struct \<Rightarrow> int \<Rightarrow> nat \<Rightarrow> bool" where
  "open_on fs f n \<longleftrightarrow> testfd f \<and> files_count fs > 0 \<and> length (fd_array fs) = FILES_STRUCT_NENTRY
     \<and> (let x = fd_array fs ! nat f in status x = FD_OPENED \<and> fd x = f \<and> fopens x > 0 \<and> node x = Some n)"

definition moved :: "int \<Rightarrow> nat \<Rightarrow> files_struct \<Rightarrow> files_struct" where
  "moved f k fs = upd_file (nat f) (\<lambda>x. x\<lparr>pos := pos x + int k\<rparr>) fs"

lemma open_on_index: "open_on fs f n \<Longrightarrow> nat f < length (fd_array fs)"
  by (auto simp: open_on_def testfd_def)

lemma open_on_moved: "open_on fs f n \<Longrightarrow> open_on (moved f k fs) f n"
  using open_on_index [of fs f n] by (simp add: open_on_def moved_def upd_file_def Let_def)

lemma moved_entry:
  "open_on fs f n \<Longrightarrow> readable (fd_array (moved f k fs) ! nat f) = readable (fd_array fs ! nat f)
     \<and> writable (fd_array (moved f k fs) ! nat f) = writable (fd_array fs ! nat f)"
  using open_on_index [of fs f n] by (simp add: moved_def upd_file_def)

lemma transfer_dev:
  assumes o: "open_on fs f n" and a: "allowed (fd_array fs ! nat f)" and c: "inode_check n v" and k: "dev n = Some k"
    and op: "op (dev_node_ops dev) = Some (dev_io dev wrt)"
    and io: "dop_io k (iobuf_init buf len (pos (fd_array fs ! nat f))) wrt (vinfo v) = Some (ret, iob, d)"
  shows "file_transfer (dev_world dev) allowed op f buf len fs v
    = Some ((ret, iobuf_used iob), moved f (iobuf_used iob) fs, v\<lparr>vinfo := d\<rparr>)"
proof -
  note i = open_on_index [OF o]
  have x: "status (fd_array fs ! nat f) = FD_OPENED" "fd (fd_array fs ! nat f) = f" "fopens (fd_array fs ! nat f) > 0"
    "node (fd_array fs ! nat f) = Some n" "testfd f" "files_count fs > 0"
    using o by (auto simp: open_on_def Let_def)
  have "fd2file f fs = Some (Inr (nat f))" using x by (simp add: fd2file_def get_fd_array_def)
  then show ?thesis
    using i x a c k op io
    by (simp add: file_transfer_def fd_array_acquire_def upd_file_def vop_op_def dev_world_def dev_io_def
        fd_array_release_def moved_def Let_def)
qed

section \<open>Writing to the screen\<close>

lemma stdout_write:
  assumes "open_on fs f n" "writable (fd_array fs ! nat f)" "inode_check n v" "dev n = Some Stdout"
  shows "file_write (dev_world dev) f buf len fs v = Some ((0, len), moved f len fs,
    v\<lparr>vinfo := (vinfo v)\<lparr>screen := screen (vinfo v) @ map (\<lambda>i. kbytes (vinfo v) (buf + i)) [0..<len]\<rparr>\<rparr>)"
  unfolding file_write_def
  using transfer_dev [OF assms(1), of writable v dev Stdout vop_write True buf len] assms(2-4)
  by (simp add: dev_node_ops_def stdout_io_def iobuf_init_def iobuf_used_def)

text \<open>One chunk: the user's bytes reach the kernel buffer and from there the screen.\<close>

definition user_bytes :: "bmem \<Rightarrow> u64 \<Rightarrow> nat \<Rightarrow> u8 list" where
  "user_bytes m base len = map (\<lambda>i. m (unat base + i)) [0..<len]"

text \<open>What a write leaves alone: all memory but the kernel buffer.\<close>

definition console_ready :: "dev_map \<Rightarrow> int \<Rightarrow> nat \<Rightarrow> devs proc_io \<Rightarrow> bool" where
  "console_ready dev f n st \<longleftrightarrow> open_on (io_files st) f n \<and> writable (fd_array (io_files st) ! nat f)
     \<and> inode_check n (io_vfs st) \<and> dev n = Some Stdout \<and> (\<exists>mm. io_mm st = Some mm \<and> mm_inv mm)"

abbreviation io_mem :: "devs proc_io \<Rightarrow> bmem" where "io_mem st \<equiv> kbytes (vinfo (io_vfs st))"

abbreviation io_screen :: "devs proc_io \<Rightarrow> u8 list" where "io_screen st \<equiv> screen (vinfo (io_vfs st))"

lemma write_chunk:
  assumes r: "console_ready dev f n st" and m: "io_mm st = Some mm" and u: "user_range mm False base len" "0 < len"
    and sep: "unat base + len \<le> buf \<or> buf + len \<le> unat base"
  shows "\<exists>st' mm' t. copy_from_user (dev_sys dev) buf base len False st = (True, t)
     \<and> file_call (file_write (dev_world dev) f buf len) t = Some ((0, len), st')
     \<and> console_ready dev f n st' \<and> io_mm st' = Some mm' \<and> mmap_list mm' = mmap_list mm
     \<and> io_screen st' = io_screen st @ user_bytes (io_mem st) base len
     \<and> (\<forall>a. a \<notin> {buf..<buf + len} \<longrightarrow> io_mem st' a = io_mem st a)"
proof -
  have mi: "mm_inv mm" using r m by (auto simp: console_ready_def)
  obtain mm' where c: "user_check base len False st = (True, st\<lparr>io_mm := Some mm'\<rparr>)" "mm_inv mm'" "mmap_list mm' = mmap_list mm"
    using user_check_ok [OF m mi u] by blast
  let ?m = "memcpy buf (unat base) len (io_mem st)"
  let ?t = "st\<lparr>io_mm := Some mm', io_vfs := (io_vfs st)\<lparr>vinfo := (vinfo (io_vfs st))\<lparr>kbytes := ?m\<rparr>\<rparr>\<rparr>"
  have t: "copy_from_user (dev_sys dev) buf base len False st = (True, ?t)"
    using c(1) by (simp add: copy_from_user_def put_mem_def mem_at_def dev_sys_def)
  have me: "?m = (\<lambda>a. if buf \<le> a \<and> a < buf + len then io_mem st (unat base + (a - buf)) else io_mem st a)"
    unfolding memcpy_def by (rule copy_up_eq) (use sep in auto)
  have b: "map (\<lambda>i. ?m (buf + i)) [0..<len] = user_bytes (io_mem st) base len"
    by (simp add: me user_bytes_def)
  let ?st = "?t\<lparr>io_files := moved f len (io_files st), io_vfs := (io_vfs ?t)\<lparr>vinfo := (vinfo (io_vfs ?t))
    \<lparr>screen := io_screen st @ user_bytes (io_mem st) base len\<rparr>\<rparr>\<rparr>"
  have "file_call (file_write (dev_world dev) f buf len) ?t = Some ((0, len), ?st)"
    using stdout_write [of "io_files ?t" f n "io_vfs ?t" dev buf len] r b
    by (simp add: file_call_def console_ready_def inode_check_def)
  moreover have "console_ready dev f n ?st"
    using r c(2) open_on_moved [of "io_files st" f n len] moved_entry [of "io_files st" f n len]
    by (simp add: console_ready_def inode_check_def)
  ultimately show ?thesis using t c(3) by (intro exI [of _ ?st] exI [of _ mm'] exI [of _ ?t]) (auto simp: me)
qed

text \<open>All chunks.\<close>

lemma write_loop:
  "console_ready dev f n st \<Longrightarrow> io_mm st = Some mm \<Longrightarrow> user_range mm False base len \<Longrightarrow>
   unat base + len \<le> buf \<or> buf + IOBUF_SIZE \<le> unat base \<Longrightarrow>
   \<exists>st'. sys_write_loop (dev_sys dev) f buf base len copied 0 st = Some (0, copied + len, st')
     \<and> io_screen st' = io_screen st @ user_bytes (io_mem st) base len
     \<and> (\<forall>a. a \<notin> {buf..<buf + IOBUF_SIZE} \<longrightarrow> io_mem st' a = io_mem st a)"
proof (induction len arbitrary: base copied st mm rule: less_induct)
  case (less len)
  note r = less.prems(1) and m = less.prems(2) and u = less.prems(3) and sep = less.prems(4)
  show ?case
  proof (cases "len = 0")
    case True
    then show ?thesis by (subst sys_write_loop.simps) (simp add: user_bytes_def)
  next
    case False
    define k where "k = (if IOBUF_SIZE > len then len else IOBUF_SIZE)"
    have k: "0 < k" "k \<le> len" "k \<le> IOBUF_SIZE" using False by (auto simp: k_def IOBUF_SIZE_def)
    have sep': "unat base + k \<le> buf \<or> buf + k \<le> unat base" using sep k by linarith
    obtain t st1 mm1 where c: "copy_from_user (dev_sys dev) buf base k False st = (True, t)"
      "file_call (file_write (dev_world dev) f buf k) t = Some ((0, k), st1)" "console_ready dev f n st1"
      "io_mm st1 = Some mm1" "mmap_list mm1 = mmap_list mm"
      "io_screen st1 = io_screen st @ user_bytes (io_mem st) base k"
      "\<forall>a. a \<notin> {buf..<buf + k} \<longrightarrow> io_mem st1 a = io_mem st a"
      using write_chunk [OF r m user_range_take [OF u k(2)] k(1) sep'] by blast
    have ub: "unat (base + of_nat k) = unat base + k" by (rule user_range_unat [OF u k(2)])
    have u1: "user_range mm1 False (base + of_nat k) (len - k)"
      using user_range_drop [OF u k(2)] user_range_same [OF c(5)] by simp
    have "len - k < len" using k by simp
    from less.IH [OF this c(3,4) u1, of "copied + k"] obtain st' where
      s: "sys_write_loop (dev_sys dev) f buf (base + of_nat k) (len - k) (copied + k) 0 st1 = Some (0, copied + k + (len - k), st')"
      "io_screen st' = io_screen st1 @ user_bytes (io_mem st1) (base + of_nat k) (len - k)"
      "\<forall>a. a \<notin> {buf..<buf + IOBUF_SIZE} \<longrightarrow> io_mem st' a = io_mem st1 a"
      using sep k ub by auto
    have w: "sw_vfs (dev_sys dev) = dev_world dev" by (simp add: dev_sys_def)
    have "sys_write_loop (dev_sys dev) f buf base len copied 0 st = Some (0, copied + len, st')"
      using c(1,2) s(1) k False by (subst sys_write_loop.simps) (simp add: k_def [symmetric] Let_def w)
    moreover have "user_bytes (io_mem st1) (base + of_nat k) (len - k) = map (\<lambda>i. io_mem st (unat base + i)) [k..<len]"
    proof -
      have "io_mem st1 (unat base + k + i) = io_mem st (unat base + (k + i))" if "i < len - k" for i
      proof -
        have "unat base + (k + i) \<notin> {buf..<buf + k}" using sep k that by (elim disjE) auto
        then show ?thesis using c(7) by (simp add: add.assoc)
      qed
      then have "user_bytes (io_mem st1) (base + of_nat k) (len - k) = map (\<lambda>i. io_mem st (unat base + (k + i))) [0..<len - k]"
        by (simp add: user_bytes_def ub)
      also have "\<dots> = map (\<lambda>i. io_mem st (unat base + i)) (map (\<lambda>i. i + k) [0..<len - k])"
        by (simp add: add.commute)
      also have "map (\<lambda>i. i + k) [0..<len - k] = [k..<len]" using k(2) map_add_upt [of k "len - k"] by simp
      finally show ?thesis .
    qed
    then have "io_screen st' = io_screen st @ user_bytes (io_mem st) base len"
      using s(2) c(6) upt_add_eq_append [of 0 k "len - k"] k(2) by (simp add: user_bytes_def flip: map_append)
    moreover have "\<forall>a. a \<notin> {buf..<buf + IOBUF_SIZE} \<longrightarrow> io_mem st' a = io_mem st a"
    proof (intro allI impI)
      fix a assume a: "a \<notin> {buf..<buf + IOBUF_SIZE}"
      then have "a \<notin> {buf..<buf + k}" using k(3) by auto
      then show "io_mem st' a = io_mem st a" using s(3) c(7) a by simp
    qed
    ultimately show ?thesis by blast
  qed
qed

text \<open>C40: \<open>write\<close> on a descriptor that is open on the console shows exactly the bytes of the user's buffer, in
  order, and returns their number, whatever the length: the buffer goes through the kernel buffer in
  chunks of at most 4096 bytes, which is all of memory that changes. The areas of the process must grant the
  whole buffer.\<close>

theorem sysfile_write_reaches_screen:
  assumes "console_ready dev f n st" "io_mm st = Some mm" "user_range mm False base len" "len < 2 ^ 31"
    "unat base + len \<le> buf \<or> buf + IOBUF_SIZE \<le> unat base"
  shows "\<exists>st'. sysfile_write (dev_sys dev) (Some buf) f base len st = Some (int len, st')
     \<and> io_screen st' = io_screen st @ user_bytes (io_mem st) base len
     \<and> (\<forall>a. a \<notin> {buf..<buf + IOBUF_SIZE} \<longrightarrow> io_mem st' a = io_mem st a)"
proof (cases "len = 0")
  case True
  then show ?thesis by (simp add: sysfile_write_def user_bytes_def)
next
  case False
  have o: "open_on (io_files st) f n" "writable (fd_array (io_files st) ! nat f)" using assms(1) by (simp_all add: console_ready_def)
  then have t: "file_testfd f False True (io_files st) = Some True"
    by (simp add: open_on_def file_testfd_def fd2file_def get_fd_array_def Let_def)
  obtain st' where w: "sys_write_loop (dev_sys dev) f buf base len 0 0 st = Some (0, 0 + len, st')"
    "io_screen st' = io_screen st @ user_bytes (io_mem st) base len"
    "\<forall>a. a \<notin> {buf..<buf + IOBUF_SIZE} \<longrightarrow> io_mem st' a = io_mem st a"
    using write_loop [OF assms(1,2,3,5), of 0] by blast
  have "int_of_size len = int len"
    using assms(4) by (simp add: int_of_size_def signed_of_nat signed_take_bit_int_eq_self)
  then show ?thesis using w t False by (simp add: sysfile_write_def)
qed

section \<open>Reading into a bad buffer\<close>

text \<open>
  \<open>read\<close> from the keyboard into memory that may not be written: the characters are taken from the queue, none
  reaches the user, and the call returns their number, as it only reports the failed copy when the device
  returned 0, and the keyboard returns the number of characters.
\<close>

theorem sysfile_read_bad_buffer:
  assumes o: "open_on (io_files st) f n" "readable (fd_array (io_files st) ! nat f)" "inode_check n (io_vfs st)" "dev n = Some Stdin"
    and d: "dev_stdin_read buf (min len IOBUF_SIZE) (vinfo (io_vfs st)) = Some (k, d)" "0 < k" "k \<le> min len IOBUF_SIZE"
    and bad: "\<not> fst (user_mem_check (io_mm st) base (of_nat k) True)"
  shows "\<exists>st'. sysfile_read (dev_sys dev) (Some buf) f base len st = Some (int k, st') \<and> vinfo (io_vfs st') = d"
proof -
  have t: "file_testfd f True False (io_files st) = Some True"
    using o(1,2) by (simp add: open_on_def file_testfd_def fd2file_def get_fd_array_def Let_def)
  have m: "(if IOBUF_SIZE > len then len else IOBUF_SIZE) = min len IOBUF_SIZE" by auto
  let ?st = "st\<lparr>io_files := moved f k (io_files st), io_vfs := (io_vfs st)\<lparr>vinfo := d\<rparr>\<rparr>"
  have rd: "file_call (file_read (dev_world dev) f buf (min len IOBUF_SIZE)) st = Some ((int k, k), ?st)"
    unfolding file_read_def
    using transfer_dev [OF o(1), of readable "io_vfs st" dev Stdin vop_read False buf "min len IOBUF_SIZE"] o(2-4) d
    by (simp add: dev_node_ops_def stdin_io_def iobuf_init_def iobuf_used_def file_call_def)
  have w: "sw_vfs (dev_sys dev) = dev_world dev" by (simp add: dev_sys_def)
  obtain mm where c: "user_mem_check (io_mm st) base (of_nat k) True = (False, mm)"
    using bad by (cases "user_mem_check (io_mm st) base (of_nat k) True") auto
  have "read_step (dev_sys dev) f buf base len st = Some (int k, k, False, ?st\<lparr>io_mm := mm\<rparr>)"
    using rd c d(2) unfolding read_step_def m w by (simp add: copy_to_user_def user_check_def)
  moreover have "len \<noteq> 0" using d(2,3) by auto
  ultimately have "sys_read_loop (dev_sys dev) f buf base len 0 0 st = Some (int k, 0, ?st\<lparr>io_mm := mm\<rparr>)"
    using d(2) by (subst sys_read_loop.simps) simp
  then show ?thesis using t \<open>len \<noteq> 0\<close> by (simp add: sysfile_read_def)
qed

section \<open>A process with an open console\<close>

definition demo_dev :: dev_map where "demo_dev n = (if n = 7 then Some Stdout else None)"

definition demo_entry :: file_t where
  "demo_entry = \<lparr>status = FD_OPENED, readable = False, writable = True, fd = 1, pos = 0, node = Some 7, fopens = 1\<rparr>"

definition demo_io :: "devs proc_io" where
  "demo_io = \<lparr>io_mm = Some demo_mm,
     io_files = \<lparr>pwd = None, fd_array = (replicate FILES_STRUCT_NENTRY demo_entry)[0 := demo_entry\<lparr>status := FD_NONE\<rparr>], files_count = 1\<rparr>,
     io_vfs = \<lparr>ref_count = (\<lambda>_. 1), open_count = (\<lambda>_. 1), vdev_list = [], bootfs_node = None,
       vinfo = \<lparr>d_blocks = 0, ide_size = 0, dimage = (\<lambda>_. 0), disk0_buffer = 0, kbytes = (\<lambda>a. of_nat (a mod 256)), stdin_buffer = (\<lambda>_. 0), p_rpos = 0, p_wpos = 0,
         kbd = [], screen = [0x3E]\<rparr>\<rparr>\<rparr>"

lemma demo_console: "console_ready demo_dev 1 7 demo_io"
  using demo_mm_inv
  by (simp add: console_ready_def open_on_def testfd_def demo_io_def demo_entry_def FILES_STRUCT_NENTRY_def inode_check_def
      MAX_INODE_COUNT_def demo_dev_def)

lemma demo_range: "user_range demo_mm False 0x800100 5"
proof -
  have "i = 0 \<or> i = 1 \<or> i = 2 \<or> i = 3 \<or> i = 4" if "i < 5" for i :: nat using that by arith
  then have "may_access demo_mm False (0x800100 + of_nat i)" if "i < 5" for i
    using that
    by (fastforce simp: may_access_def demo_mm_def covers_def vma_permits_def VM_READ_def)
  then show ?thesis by (simp add: user_range_def USERBASE_def USERTOP_def)
qed

theorem sysfile_write_reaches_screen_witness:
  "\<exists>st'. sysfile_write (dev_sys demo_dev) (Some 0x1000) 1 0x800100 5 demo_io = Some (5, st')
     \<and> io_screen st' = [0x3E, 0, 1, 2, 3, 4]"
proof -
  have "io_mm demo_io = Some demo_mm" by (simp add: demo_io_def)
  from sysfile_write_reaches_screen [OF demo_console this demo_range, of "0x1000"] show ?thesis
    by (auto simp: IOBUF_SIZE_def demo_io_def user_bytes_def upt_rec)
qed

end
