(* ===== verification/Spec2Isabelle.thy ===== *)
theory Spec2Isabelle
  imports First_Fit Process_Props Sync_Facts Printfmt Bitmap Page_Table_Props Vmm_Facts Cow_Facts Swap_Facts Dining Sfs_Fs_Props Slob_Props Files_Props Skew_Props Rand Buddy_Props Sysfile_Props
begin

text \<open>
  A verification development for the ucore teaching kernel (\<open>lab0\<close> to \<open>lab8\<close> under \<open>src\<close>), written in C
  for 64-bit RISC-V. Each lab extends the one before; a part is modelled from the last lab that has it in
  full, and from an earlier one where the later version is an exercise template or differs.

  \<^bold>\<open>The program.\<close> A monolithic kernel without kernel preemption. Physical pages are kept in a list of free
  blocks (\<open>default_pmm.c\<close>) and mapped through three-level page tables (\<open>pmm.c\<close>); an address space has a
  sorted list of areas (\<open>vmm.c\<close>), is copied on write at a fork (\<open>cow.c\<close>), and a fault fills or copies a
  page. Page replacement managers choose what to swap out (\<open>swap_fifo.c\<close>, \<open>swap_clock.c\<close>, \<open>swap_lru.c\<close>).
  Processes are entries of a process list, a hash table by pid and a family tree (\<open>proc.c\<close>); a scheduler
  picks the next one (\<open>sched.c\<close>, \<open>default_sched.c\<close>), which timers, wait queues and semaphores put to sleep
  and wake; a skew heap orders processes by their strides (\<open>skew_heap.h\<close>). Small blocks of memory come from
  the lists of \<open>kmalloc.c\<close>. A system call on a file goes from the descriptor table of the process (\<open>file.c\<close>)
  through a layer of inodes with tables of functions (\<open>vfs\<close>) to a device or to the file system SFS, which
  keeps directories and files as blocks of a disk with a bitmap of free blocks (\<open>sfs_inode.c\<close>, \<open>sfs_io.c\<close>,
  \<open>sfs_fs.c\<close>, \<open>bitmap.c\<close>) over the disk device (\<open>dev_disk0.c\<close>).

  \<^bold>\<open>Conventions.\<close> Structures are records, enumerations datatypes, machine integers words of their width
  where wrap-around or bits matter. A failed \<open>assert\<close>, a \<open>panic\<close>, an access outside an object and a
  loop that does not end are \<open>None\<close>; error returns are values of \<open>errno\<close>. Shared structures with links
  are explicit stores of pointers. Loops are recursive functions; those that need not end are
  \<open>partial_function (option)\<close>, and the theorems say that they return. No fuel is used. Code outside the
  repository, and the memory manager where processes only call it, are parameters (\<open>mem_ops\<close> of
  \<open>Proc_Table\<close>); whether a \<open>kmalloc\<close> succeeds is a flag where the allocator is not the subject.

  \<^bold>\<open>Theories, in the order of their imports.\<close>
  \<^item> \<open>Prelude\<close>: machine types, error numbers (\<open>error.h\<close>), bit operations (\<open>atomic.h\<close>).
  \<^item> \<open>Dlist_Heap\<close>: \<open>list.h\<close>, circular doubly linked lists as a store of \<open>next\<close> and \<open>prev\<close> pointers, and the
    predicate that a store holds a list of nodes; every list operation on that predicate.
  \<^item> \<open>Free_Area\<close>, \<open>First_Fit\<close>: \<open>lab8/kern/mm/default_pmm.c\<close> and \<open>lab2/kern/mm/best_fit_pmm.c\<close>. The
    well-formed free list, and that allocation and freeing move exactly the frames they should; the
    missing \<open>break\<close> of the insertion loop and the double allocation it leads to.
  \<^item> \<open>Buddy\<close>, \<open>Buddy_Facts\<close>, \<open>Buddy_Boot\<close>, \<open>Buddy_Free\<close>, \<open>Buddy_Props\<close>: \<open>lab2/kern/mm/buddy_pmm.c\<close>. The lists of
    all orders in one store, and what keeps them well-formed: which regions can be registered, what an
    allocation takes, which blocks can be given back.
  \<^item> \<open>Proc_Table\<close>, \<open>Family\<close>, \<open>Process\<close> and \<open>Process_Facts\<close>, \<open>Process_Exit\<close>, \<open>Process_Wait\<close>, \<open>Process_Props\<close>:
    \<open>lab5/kern/process/proc.c\<close> and \<open>lab5/kern/schedule/sched.c\<close>. Pids, the hash table and the list; the
    family tree as an invariant of the sibling pointers; \<open>do_fork\<close>, \<open>do_exit\<close>, \<open>do_wait\<close>, \<open>do_kill\<close>, the scheduler.
    The tree stays a tree, orphans go to \<open>initproc\<close>, zombies are reaped; what a failed fork leaves behind is stated.
  \<^item> \<open>Sched\<close>, \<open>Sched_Facts\<close>: \<open>lab8/kern/schedule/sched.c\<close> and the round-robin class, timers. The run
    queue holds exactly the runnable processes, nobody starves, timers fire when due.
  \<^item> \<open>Sync\<close>, \<open>Sync_Facts\<close>, \<open>Dining\<close>: \<open>lab8/kern/sync\<close>. Wait queues; semaphores refine a counter with a
    queue; the philosophers of \<open>check_sync.c\<close> as a step relation, with mutual exclusion of neighbours,
    and no deadlock or starvation under any scheduling.
  \<^item> \<open>String_Lib\<close>, \<open>Printfmt\<close>: \<open>lab8/libs/string.c\<close> and \<open>printfmt.c\<close>: memory and string functions on a byte
    memory; printing, its bounds, and that \<open>strtol\<close> reads what is printed.
  \<^item> \<open>Page_Table\<close>, \<open>Page_Table_Facts\<close>, \<open>Page_Table_Inv\<close>, \<open>Page_Table_Ops\<close>, \<open>Page_Table_Props\<close>: \<open>lab5/kern/mm/pmm.c\<close>. The
    tables form a tree of distinct pages, reference counts count mappings; inserting and removing a
    mapping changes that mapping only.
  \<^item> \<open>Vmm\<close>, \<open>Vmm_Facts\<close>: \<open>lab5/kern/mm/vmm.c\<close>: areas stay sorted and apart, the lookup cache does not
    change results, \<open>user_mem_check\<close> grants exactly what the areas allow.
  \<^item> \<open>Cow\<close>, \<open>Cow_Facts\<close>: copying address spaces and page faults of \<open>lab5\<close>.
  \<^item> \<open>Swap\<close>, \<open>Swap_Facts\<close>: the replacement managers; a locale states what a manager promises, and every
    manager is an interpretation.
  \<^item> \<open>Bitmap\<close>, \<open>Iobuf\<close>, \<open>Disk0\<close>, \<open>Sfs_Io\<close>, \<open>Sfs_Inode\<close>, \<open>Sfs_Map\<close>, \<open>Sfs_Files\<close>, \<open>Sfs_Props\<close>: \<open>lab8/kern/fs\<close>. From the
    bytes of the disk up to the length of a file: blocks are allocated once, block maps do not share
    blocks, resizing keeps the bytes that stay; a growth that runs out of blocks leaves a file that is longer
    in blocks than on the disk.
  \<^item> \<open>Sfs_Dir\<close>, \<open>Sfs_Dir_Props\<close>: directories, writing inodes back, and the template of reading and writing: a search
    finds the first slot of a name, the lowest free slot and nothing else.
  \<^item> \<open>Sfs_Mount\<close>, \<open>Sfs_Mount_Props\<close>: inodes in memory, from loading to reclaiming, and path lookup in SFS. An inode
    is in memory at most once, whatever the layer above does; dropped and loaded again it is unchanged if it
    was marked dirty, and otherwise what the disk held.
  \<^item> \<open>Sfs_Fs\<close>, \<open>Sfs_Fs_Props\<close>: mounting, synchronising, unmounting; what was synchronised is what is mounted.
    The kernel heap is a parameter of these theories: the address a request gets, if any.
  \<^item> \<open>Vfs\<close>, \<open>Devices\<close>, \<open>Files\<close>, \<open>Files_Facts\<close>, \<open>Files_Props\<close>: \<open>lab8/kern/fs/vfs\<close>, \<open>fs/devs\<close> and \<open>fs/file.c\<close>. Path
    lookup, opening, the descriptor table and the devices, over any file system (the locale \<open>vfs_layer\<close>
    states what a layer of functions keeps of the counts): the counts of inodes follow the descriptors through
    every sequence of file operations and their parts, standard input is a bounded queue.
  \<^item> \<open>Sysfile\<close>, \<open>Sysfile_Props\<close>: \<open>lab8/kern/fs/sysfile.c\<close>: the system calls on files, which copy between user and
    kernel memory; what a process writes to the console is what the screen shows.
  \<^item> \<open>Slob\<close>, \<open>Slob_Facts\<close>, \<open>Slob_Props\<close>: \<open>lab8/kern/mm/kmalloc.c\<close>: the list of free units stays sorted and merged,
    and freeing an object just allocated, small or large, restores the free memory.
  \<^item> \<open>Skew\<close>, \<open>Skew_Props\<close>: \<open>lab8/libs/skew_heap.h\<close> on a store of pointers and the stride comparison. The locale
    \<open>priority_pool\<close> is what a scheduler needs of a pool; the heap gives processes in the order of their strides,
    wrapped around or not.
  \<^item> \<open>Rand\<close>: \<open>lab8/libs/rand.c\<close>.

  \<^bold>\<open>Not modelled.\<close> Assembly and boot code, interrupt entry, device drivers below the disk image, the
  console and the kernel monitor: their effects are on hardware registers. The self checks of the memory
  managers, which only call modelled operations. Exercise templates whose bodies the repository leaves
  empty: condition variables and the monitor version of the philosophers, stride scheduling but for its
  comparison, \<open>load_icode\<close> of \<open>lab8\<close>; \<open>sfs_io_nolock\<close> is modelled as it stands, with no byte moved. The
  table of system calls but for the calls on files. The slub allocator of \<open>lab2\<close>, which is not installed.
  User programs and host tools.
\<close>

end
